(* ===== verification/Prelude.thy ===== *)
theory Prelude
  imports Main "HOL-Library.Word" "HOL-Library.Monad_Syntax"
begin

text \<open>
  Shared vocabulary of the development: names for the machine integers of the sources, the
  little-endian and big-endian byte encodings that \<^verbatim>\<open>memcpy\<close>, \<^verbatim>\<open>WRITEDATA\<close> and
  \<^verbatim>\<open>be32enc\<close> produce on the supported (little-endian) targets, and the \<open>codec\<close>
  interface that every serialisable type of \<^verbatim>\<open>src/src/serialize.h\<close> implements.
\<close>

section \<open>Machine integers\<close>

type_synonym byte = "8 word"
type_synonym bytes = "8 word list"
type_synonym uint16 = "16 word"
type_synonym uint32 = "32 word"
type_synonym uint64 = "64 word"
type_synonym int32 = "32 word"
type_synonym int64 = "64 word"
type_synonym uint160 = "160 word"
type_synonym uint256 = "256 word"

text \<open>
  Signed C integers are kept as words of their width and read with \<open>sint\<close>; their addition
  wraps around, which is what the compiled code does.
\<close>

named_theorems codec_simps \<open>equations of the encoders and decoders\<close>
named_theorems script_simps \<open>equations of the script machine's operations\<close>

section \<open>Little-endian encodings\<close>

lemma unat_less_2p: "unat (w :: 'a::len word) < 2 ^ LENGTH('a)"
  by (rule unsigned_less)

fun le_bytes :: "nat \<Rightarrow> nat \<Rightarrow> bytes" where
  "le_bytes 0 x = []"
| "le_bytes (Suc n) x = of_nat (x mod 256) # le_bytes n (x div 256)"

fun le_val :: "bytes \<Rightarrow> nat" where
  "le_val [] = 0"
| "le_val (b # bs) = unat b + 256 * le_val bs"

lemma length_le_bytes [simp]: "length (le_bytes n x) = n"
  by (induction n x rule: le_bytes.induct) auto

lemma unat_of_nat_byte: "unat (of_nat x :: byte) = x mod 256"
  by (simp add: unat_of_nat)

lemma le_val_le_bytes: "le_val (le_bytes n x) = x mod 256 ^ n"
proof (induction n x rule: le_bytes.induct)
  case (1 x)
  then show ?case by simp
next
  case (2 n x)
  have "x mod 256 ^ Suc n = x mod 256 + 256 * (x div 256 mod 256 ^ n)"
    by (simp add: mod_mult2_eq)
  then show ?case using 2 by (simp add: unat_of_nat_byte)
qed

lemma le_val_less: "le_val bs < 256 ^ length bs"
proof (induction bs)
  case (Cons b bs)
  have "unat b < 256" using unat_less_2p [of b] by simp
  then show ?case using Cons by simp
qed simp

lemma le_bytes_le_val: "le_bytes (length bs) (le_val bs) = bs"
proof (induction bs)
  case (Cons b bs)
  have b: "unat b < 256" using unat_less_2p [of b] by simp
  then have "(unat b + 256 * le_val bs) mod 256 = unat b"
    and "(unat b + 256 * le_val bs) div 256 = le_val bs"
    by auto
  then show ?case using Cons by simp
qed simp

lemma le_val_inj: "length xs = length ys \<Longrightarrow> le_val xs = le_val ys \<Longrightarrow> xs = ys"
  by (metis le_bytes_le_val)

lemma le_val_append: "le_val (xs @ ys) = le_val xs + 256 ^ length xs * le_val ys"
  by (induction xs) (simp_all add: algebra_simps)

lemma le_val_replicate_0 [simp]: "le_val (replicate n 0) = 0"
  by (induction n) auto

text \<open>Encoding of a word of \<open>n\<close> bytes: what \<^verbatim>\<open>WRITEDATA\<close> writes for it.\<close>

definition word_bytes :: "nat \<Rightarrow> 'a::len word \<Rightarrow> bytes" where
  "word_bytes n w = le_bytes n (unat w)"

definition bytes_word :: "bytes \<Rightarrow> 'a::len word" where
  "bytes_word bs = of_nat (le_val bs)"

lemma length_word_bytes [simp]: "length (word_bytes n w) = n"
  by (simp add: word_bytes_def)

lemma bytes_word_bytes:
  fixes w :: "'a::len word"
  assumes "LENGTH('a) = 8 * n"
  shows "bytes_word (word_bytes n w) = w"
proof -
  have "unat w < 2 ^ (8 * n)" using unat_less_2p [of w] assms by simp
  then have "unat w mod 256 ^ n = unat w" by (simp add: power_mult)
  then show ?thesis by (simp add: bytes_word_def word_bytes_def le_val_le_bytes)
qed

lemma word_bytes_word:
  assumes "LENGTH('a) = 8 * length bs"
  shows "word_bytes (length bs) (bytes_word bs :: 'a::len word) = bs"
proof -
  have "le_val bs < 2 ^ LENGTH('a)"
    using le_val_less [of bs] assms by (simp add: power_mult)
  then have "unat (bytes_word bs :: 'a word) = le_val bs"
    by (simp add: bytes_word_def unat_of_nat)
  then show ?thesis by (simp add: word_bytes_def le_bytes_le_val)
qed

section \<open>Reading from a byte stream\<close>

text \<open>
  \<^verbatim>\<open>CDataStream::read\<close> and \<^verbatim>\<open>CAutoFile::read\<close> raise when fewer bytes than asked for are
  left; the model answers \<open>None\<close>.
\<close>

definition read_bytes :: "nat \<Rightarrow> bytes \<Rightarrow> (bytes \<times> bytes) option" where
  "read_bytes n s = (if n \<le> length s then Some (take n s, drop n s) else None)"

lemma read_bytes_append [simp]: "length xs = n \<Longrightarrow> read_bytes n (xs @ rest) = Some (xs, rest)"
  by (simp add: read_bytes_def)

lemma read_bytes_None: "length s < n \<Longrightarrow> read_bytes n s = None"
  by (simp add: read_bytes_def)

section \<open>The interface of a serialisable type\<close>

text \<open>
  \<open>enc\<close> is the type's \<^verbatim>\<open>Serialize\<close>, \<open>dec\<close> its \<^verbatim>\<open>Unserialize\<close> (the value and the rest
  of the stream, \<open>None\<close> when it throws) and \<open>ok\<close> the values the reader accepts back.
\<close>

locale codec =
  fixes enc :: "'a \<Rightarrow> bytes"
    and dec :: "bytes \<Rightarrow> ('a \<times> bytes) option"
    and ok :: "'a \<Rightarrow> bool"
  assumes dec_enc: "ok x \<Longrightarrow> dec (enc x @ rest) = Some (x, rest)"
begin

lemma dec_enc_all: "ok x \<Longrightarrow> dec (enc x) = Some (x, [])"
  using dec_enc [of x "[]"] by simp

text \<open>Two accepted values whose encodings start one stream are equal: the format is prefix-free.\<close>

lemma prefix_free:
  assumes "ok x" and "ok y" and "enc x @ r = enc y @ r'"
  shows "x = y \<and> r = r'"
proof -
  have "Some (x, r) = dec (enc x @ r)" using dec_enc [OF assms(1)] by simp
  also have "\<dots> = Some (y, r')" using assms(3) dec_enc [OF assms(2)] by simp
  finally show ?thesis by simp
qed

lemma enc_inj: "ok x \<Longrightarrow> ok y \<Longrightarrow> enc x = enc y \<Longrightarrow> x = y"
  using prefix_free [of x y "[]" "[]"] by simp

end

section \<open>Lists\<close>

lemma nth_append_replicate_eq: "i < n \<Longrightarrow> (replicate n x @ ys) ! i = x"
  by (simp add: nth_append)

lemma foldl_plus_nat: "foldl (\<lambda>a x. a + f x) (a::nat) xs = a + sum_list (map f xs)"
  by (induction xs arbitrary: a) auto

section \<open>Signed words\<close>

lemma sint_cases:
  fixes w :: "'a::len word"
  shows "sint w = (if bit w (LENGTH('a) - 1) then int (unat w) - 2 ^ LENGTH('a) else int (unat w))"
proof -
  have "Suc (LENGTH('a) - 1) = LENGTH('a)" by simp
  moreover have "take_bit LENGTH('a) (uint w) = uint w"
    by (rule take_bit_int_eq_self) (auto intro: unsigned_less)
  ultimately show ?thesis
    by (simp add: sint_uint signed_take_bit_eq_take_bit_minus bit_uint_iff)
qed

lemma sint_negative:
  fixes w :: "'a::len word"
  assumes "sint w < 0"
  shows "sint w = int (unat w) - 2 ^ LENGTH('a)"
  using assms by (auto simp: sint_cases split: if_splits)

lemma sint_nonnegative:
  fixes w :: "'a::len word"
  assumes "0 \<le> sint w"
  shows "sint w = int (unat w)"
proof -
  have "\<not> int (unat w) - 2 ^ LENGTH('a) \<ge> 0"
    using unsigned_less [of w, where ?'a = int] by (simp only: of_nat_unat)
  then show ?thesis using assms unfolding sint_cases by presburger
qed

lemma unat_neg_word:
  fixes w :: "'a::len word"
  assumes "w \<noteq> 0"
  shows "unat (- w) = 2 ^ LENGTH('a) - unat w"
proof -
  have "0 < uint w" "uint w < 2 ^ LENGTH('a)" using assms unsigned_less [of w]
    by (auto simp: word_neq_0_conv word_less_def)
  then have "uint (- w) = 2 ^ LENGTH('a) - uint w"
    by (simp add: uint_word_ariths zmod_zminus1_eq_if)
  then have "int (unat (- w)) = int (2 ^ LENGTH('a) - unat w)"
    using unat_less_2p [of w] by (simp only: of_nat_unat of_nat_diff less_imp_le of_nat_power of_nat_numeral)
  then show ?thesis by (simp only: of_nat_eq_iff)
qed

lemma sint_add_exact:
  fixes a b :: "'a::len word"
  assumes "- (2 ^ (LENGTH('a) - 1)) \<le> sint a + sint b" and "sint a + sint b < 2 ^ (LENGTH('a) - 1)"
  shows "sint (a + b) = sint a + sint b"
  using assms by (simp add: sint_word_ariths signed_take_bit_int_eq_self)

end
