(* ===== verification/Serialize.thy ===== *)
theory Serialize
  imports Prelude
begin

text \<open>
  The serialisation templates of \<^verbatim>\<open>src/src/serialize.h\<close>: fixed-width integers, compact
  sizes, strings and vectors. Writers return the bytes they append to the stream; readers take
  the unread bytes and return the value with the bytes left, or \<open>None\<close> where the stream or the
  template throws. Every type is an instance of the \<open>codec\<close> interface of the prelude.
\<close>

section \<open>Integers\<close>

text \<open>\<^verbatim>\<open>WRITEDATA\<close> / \<^verbatim>\<open>READDATA\<close> of an object of \<open>n\<close> bytes.\<close>

definition Serialize_word :: "nat \<Rightarrow> 'a::len word \<Rightarrow> bytes" where
  "Serialize_word n a = word_bytes n a"

definition Unserialize_word :: "nat \<Rightarrow> bytes \<Rightarrow> ('a::len word \<times> bytes) option" where
  "Unserialize_word n s = do { (b, r) \<leftarrow> read_bytes n s; Some (bytes_word b, r) }"

lemma Unserialize_Serialize_word:
  fixes a :: "'a::len word"
  assumes "LENGTH('a) = 8 * n"
  shows "Unserialize_word n (Serialize_word n a @ rest) = Some (a, rest)"
  by (simp add: Unserialize_word_def Serialize_word_def bytes_word_bytes [OF assms])

lemma length_Serialize_word [simp]: "length (Serialize_word n a) = n"
  by (simp add: Serialize_word_def)

interpretation u8: codec "Serialize_word 1 :: byte \<Rightarrow> bytes" "Unserialize_word 1" "\<lambda>_. True"
  by unfold_locales (rule Unserialize_Serialize_word, simp)

lemmas u8_read = u8.dec_enc [simplified]

interpretation u16: codec "Serialize_word 2 :: uint16 \<Rightarrow> bytes" "Unserialize_word 2" "\<lambda>_. True"
  by unfold_locales (rule Unserialize_Serialize_word, simp)

interpretation u32: codec "Serialize_word 4 :: uint32 \<Rightarrow> bytes" "Unserialize_word 4" "\<lambda>_. True"
  by unfold_locales (rule Unserialize_Serialize_word, simp)

interpretation u64: codec "Serialize_word 8 :: uint64 \<Rightarrow> bytes" "Unserialize_word 8" "\<lambda>_. True"
  by unfold_locales (rule Unserialize_Serialize_word, simp)

interpretation u256: codec "Serialize_word 32 :: uint256 \<Rightarrow> bytes" "Unserialize_word 32" "\<lambda>_. True"
  by unfold_locales (rule Unserialize_Serialize_word, simp)

section \<open>Compact sizes\<close>

definition MAX_SIZE :: nat where
  "MAX_SIZE = 0x02000000"

definition GetSizeOfCompactSize :: "uint64 \<Rightarrow> nat" where
  "GetSizeOfCompactSize nSize =
     (if unat nSize < 253 then 1
      else if unat nSize \<le> 0xffff then 1 + 2
      else if unat nSize \<le> 0xffffffff then 1 + 4
      else 1 + 8)"

definition WriteCompactSize :: "uint64 \<Rightarrow> bytes" where
  "WriteCompactSize nSize =
     (if unat nSize < 253 then Serialize_word 1 (ucast nSize :: byte)
      else if unat nSize \<le> 0xffff then
        Serialize_word 1 (253 :: byte) @ Serialize_word 2 (ucast nSize :: uint16)
      else if unat nSize \<le> 0xffffffff then
        Serialize_word 1 (254 :: byte) @ Serialize_word 4 (ucast nSize :: uint32)
      else
        Serialize_word 1 (255 :: byte) @ Serialize_word 8 nSize)"

definition ReadCompactSize :: "bytes \<Rightarrow> (uint64 \<times> bytes) option" where
  "ReadCompactSize is = do {
     (chSize, is1) \<leftarrow> (Unserialize_word 1 is :: (byte \<times> bytes) option);
     (nSizeRet, is2) \<leftarrow>
       (if unat chSize < 253 then Some (ucast chSize, is1)
        else if chSize = 253 then
          do { (xSize, r) \<leftarrow> (Unserialize_word 2 is1 :: (uint16 \<times> bytes) option); Some (ucast xSize, r) }
        else if chSize = 254 then
          do { (xSize, r) \<leftarrow> (Unserialize_word 4 is1 :: (uint32 \<times> bytes) option); Some (ucast xSize, r) }
        else
          do { (xSize, r) \<leftarrow> (Unserialize_word 8 is1 :: (uint64 \<times> bytes) option); Some (xSize, r) });
     (if unat nSizeRet > MAX_SIZE then None else Some (nSizeRet, is2)) }"

lemma length_WriteCompactSize: "length (WriteCompactSize n) = GetSizeOfCompactSize n"
  by (simp add: WriteCompactSize_def GetSizeOfCompactSize_def)

lemma unat_ucast_small:
  fixes x :: "'a::len word"
  assumes "unat x < 2 ^ LENGTH('b)"
  shows "unat (ucast x :: 'b::len word) = unat x"
  using assms by (simp add: unsigned_ucast_eq take_bit_nat_eq_self)

lemma ucast_ucast_small:
  fixes x :: "'a::len word"
  assumes "unat x < 2 ^ LENGTH('b)"
  shows "ucast (ucast x :: 'b::len word) = x"
proof (rule unsigned_word_eqI [where ?'a = nat])
  have "unat (ucast x :: 'b word) < 2 ^ LENGTH('a)"
    using assms by (simp add: unat_ucast_small unat_less_2p)
  then show "unat (ucast (ucast x :: 'b word) :: 'a word) = unat x"
    using assms by (simp add: unat_ucast_small)
qed

lemma Read_WriteCompactSize:
  assumes "unat n \<le> MAX_SIZE"
  shows "ReadCompactSize (WriteCompactSize n @ rest) = Some (n, rest)"
proof -
  consider (1) "unat n < 253" | (2) "253 \<le> unat n" "unat n \<le> 0xffff"
    | (3) "0xffff < unat n" "unat n \<le> 0xffffffff"
    using assms by (fastforce simp: MAX_SIZE_def)
  then show ?thesis
  proof cases
    case 1
    then have "unat (ucast n :: byte) < 253" and "ucast (ucast n :: byte) = n"
      by (simp_all add: unat_ucast_small ucast_ucast_small)
    with 1 assms show ?thesis
      by (simp add: WriteCompactSize_def ReadCompactSize_def u8_read)
  next
    case 2
    then have "ucast (ucast n :: uint16) = n" by (simp add: ucast_ucast_small)
    with 2 assms show ?thesis
      by (simp add: WriteCompactSize_def ReadCompactSize_def u8_read u16.dec_enc)
  next
    case 3
    then have "ucast (ucast n :: uint32) = n" by (simp add: ucast_ucast_small)
    with 3 assms show ?thesis
      by (simp add: WriteCompactSize_def ReadCompactSize_def u8_read u32.dec_enc)
  qed
qed

interpretation compact: codec WriteCompactSize ReadCompactSize "\<lambda>n. unat n \<le> MAX_SIZE"
  by unfold_locales (rule Read_WriteCompactSize)

lemma ReadCompactSize_bound: "ReadCompactSize s = Some (n, r) \<Longrightarrow> unat n \<le> MAX_SIZE"
  by (auto simp: ReadCompactSize_def Option.bind_eq_Some_conv split: if_splits)

abbreviation size_word :: "'a list \<Rightarrow> uint64" where
  "size_word v \<equiv> of_nat (length v)"

lemma unat_size_word: "length v \<le> MAX_SIZE \<Longrightarrow> unat (size_word v) = length v"
  by (simp add: unat_of_nat MAX_SIZE_def)

section \<open>Strings\<close>

definition Serialize_string :: "bytes \<Rightarrow> bytes" where
  "Serialize_string str = WriteCompactSize (size_word str) @ (if str \<noteq> [] then str else [])"

definition Unserialize_string :: "bytes \<Rightarrow> (bytes \<times> bytes) option" where
  "Unserialize_string is = do {
     (nSize, r) \<leftarrow> ReadCompactSize is;
     (if unat nSize \<noteq> 0 then read_bytes (unat nSize) r else Some ([], r)) }"

interpretation ser_string: codec Serialize_string Unserialize_string "\<lambda>s. length s \<le> MAX_SIZE"
proof
  fix x rest :: bytes
  assume "length x \<le> MAX_SIZE"
  then show "Unserialize_string (Serialize_string x @ rest) = Some (x, rest)"
    by (simp add: Unserialize_string_def Serialize_string_def compact.dec_enc unat_size_word)
qed

section \<open>Vectors of bytes\<close>

text \<open>
  The reader of a vector of a fundamental type asks the stream for at most 5000000 bytes at a
  time, so that a bogus size does not make it allocate much more than the stream holds.
\<close>

definition Serialize_vector_bytes :: "bytes \<Rightarrow> bytes" where
  "Serialize_vector_bytes v = WriteCompactSize (size_word v) @ (if v \<noteq> [] then v else [])"

function read_blocks :: "nat \<Rightarrow> nat \<Rightarrow> bytes \<Rightarrow> bytes \<Rightarrow> (bytes \<times> bytes) option" where
  "read_blocks i nSize v is =
     (if i < nSize then
        (let blk = min (nSize - i) (1 + 4999999 div 1) in
         case read_bytes blk is of
           None \<Rightarrow> None
         | Some (b, is') \<Rightarrow> read_blocks (i + blk) nSize (v @ b) is')
      else Some (v, is))"
  by pat_completeness auto
termination
  by (relation "measure (\<lambda>(i, nSize, v, is). nSize - i)") auto

declare read_blocks.simps [simp del]

definition Unserialize_vector_bytes :: "bytes \<Rightarrow> (bytes \<times> bytes) option" where
  "Unserialize_vector_bytes is = do {
     (nSize, r) \<leftarrow> ReadCompactSize is;
     read_blocks 0 (unat nSize) [] r }"

text \<open>Reading in blocks gives what one read of the whole vector gives.\<close>

lemma read_blocks_eq:
  "i \<le> nSize \<Longrightarrow> read_blocks i nSize v is =
     map_option (\<lambda>(b, r). (v @ b, r)) (read_bytes (nSize - i) is)"
proof (induction i nSize v "is" rule: read_blocks.induct)
  case (1 i nSize v s)
  show ?case
  proof (cases "i < nSize")
    case False
    with "1.prems" show ?thesis by (simp add: read_blocks.simps read_bytes_def)
  next
    case True
    define blk where "blk = min (nSize - i) (1 + 4999999 div 1)"
    have step: "read_blocks i nSize v s =
        (case read_bytes blk s of None \<Rightarrow> None
         | Some (b, s') \<Rightarrow> read_blocks (i + blk) nSize (v @ b) s')"
      using True by (subst read_blocks.simps) (simp only: Let_def blk_def if_True)
    have blk: "blk \<le> nSize - i" "i + blk \<le> nSize" using True by (auto simp: blk_def)
    show ?thesis
    proof (cases "blk \<le> length s")
      case False
      then have "\<not> nSize - i \<le> length s" using blk by simp
      with False step show ?thesis by (simp add: read_bytes_def)
    next
      case small: True
      then have rd: "read_bytes blk s = Some (take blk s, drop blk s)"
        by (simp add: read_bytes_def)
      have "read_blocks i nSize v s = read_blocks (i + blk) nSize (v @ take blk s) (drop blk s)"
        using step rd by simp
      also have "\<dots> = map_option (\<lambda>(b, r). ((v @ take blk s) @ b, r))
                       (read_bytes (nSize - (i + blk)) (drop blk s))"
        by (rule "1.IH" [OF True blk_def rd refl blk(2)])
      also have "\<dots> = map_option (\<lambda>(b, r). (v @ b, r)) (read_bytes (nSize - i) s)"
      proof -
        have "take blk s @ take (nSize - (i + blk)) (drop blk s) = take (nSize - i) s"
          using blk by (simp flip: take_add)
        then show ?thesis using small blk by (auto simp: read_bytes_def add.commute)
      qed
      finally show ?thesis .
    qed
  qed
qed

interpretation vector_bytes: codec Serialize_vector_bytes Unserialize_vector_bytes
  "\<lambda>v. length v \<le> MAX_SIZE"
proof
  fix x rest :: bytes
  assume "length x \<le> MAX_SIZE"
  then show "Unserialize_vector_bytes (Serialize_vector_bytes x @ rest) = Some (x, rest)"
    by (simp add: Unserialize_vector_bytes_def Serialize_vector_bytes_def compact.dec_enc
        unat_size_word read_blocks_eq)
qed

lemma length_Serialize_vector_bytes:
  "length (Serialize_vector_bytes v) = GetSizeOfCompactSize (size_word v) + length v"
  by (simp add: Serialize_vector_bytes_def length_WriteCompactSize)

section \<open>Vectors of objects\<close>

definition Serialize_vector :: "('a \<Rightarrow> bytes) \<Rightarrow> 'a list \<Rightarrow> bytes" where
  "Serialize_vector enc v = WriteCompactSize (size_word v) @ concat (map enc v)"

fun read_elems :: "(bytes \<Rightarrow> ('a \<times> bytes) option) \<Rightarrow> nat \<Rightarrow> bytes \<Rightarrow> ('a list \<times> bytes) option" where
  "read_elems dec 0 is = Some ([], is)"
| "read_elems dec (Suc k) is = do {
     (x, r) \<leftarrow> dec is;
     (xs, r') \<leftarrow> read_elems dec k r;
     Some (x # xs, r') }"

text \<open>
  The vector grows in batches of \<open>5000000 / sizeof(T)\<close> elements (\<open>batch\<close> below, positive for
  every type the sources serialise); each batch reads its elements in order.
\<close>

function read_batches ::
  "nat \<Rightarrow> (bytes \<Rightarrow> ('a \<times> bytes) option) \<Rightarrow> nat \<Rightarrow> nat \<Rightarrow> 'a list \<Rightarrow> bytes \<Rightarrow> ('a list \<times> bytes) option"
where
  "read_batches batch dec nMid nSize v is =
     (if nMid < nSize \<and> 0 < batch then
        (let nMid' = min (nMid + batch) nSize in
         case read_elems dec (nMid' - nMid) is of
           None \<Rightarrow> None
         | Some (xs, is') \<Rightarrow> read_batches batch dec nMid' nSize (v @ xs) is')
      else Some (v, is))"
  by pat_completeness auto
termination
  by (relation "measure (\<lambda>(batch, dec, nMid, nSize, v, is). nSize - nMid)") auto

declare read_batches.simps [simp del]

definition Unserialize_vector ::
  "nat \<Rightarrow> (bytes \<Rightarrow> ('a \<times> bytes) option) \<Rightarrow> bytes \<Rightarrow> ('a list \<times> bytes) option" where
  "Unserialize_vector sizeofT dec is = do {
     (nSize, r) \<leftarrow> ReadCompactSize is;
     read_batches (5000000 div sizeofT) dec 0 (unat nSize) [] r }"

lemma read_elems_add:
  "read_elems dec (j + k) is = do {
     (xs, r) \<leftarrow> read_elems dec j is;
     (ys, r') \<leftarrow> read_elems dec k r;
     Some (xs @ ys, r') }"
proof (induction j arbitrary: "is")
  case 0
  show ?case by (cases "read_elems dec k is") auto
next
  case (Suc j)
  show ?case
  proof (cases "dec is")
    case (Some p)
    then show ?thesis
      by (cases p) (auto simp: Suc split: Option.bind_split)
  qed simp
qed

lemma read_batches_eq:
  "0 < batch \<Longrightarrow> nMid \<le> nSize \<Longrightarrow> read_batches batch dec nMid nSize v is =
     map_option (\<lambda>(xs, r). (v @ xs, r)) (read_elems dec (nSize - nMid) is)"
proof (induction batch dec nMid nSize v "is" rule: read_batches.induct)
  case (1 batch dec nMid nSize v s)
  show ?case
  proof (cases "nMid < nSize")
    case False
    with "1.prems" show ?thesis by (simp add: read_batches.simps)
  next
    case True
    define nMid' where "nMid' = min (nMid + batch) nSize"
    have step: "read_batches batch dec nMid nSize v s =
        (case read_elems dec (nMid' - nMid) s of None \<Rightarrow> None
         | Some (xs, s') \<Rightarrow> read_batches batch dec nMid' nSize (v @ xs) s')"
      using True "1.prems"
      by (subst read_batches.simps) (simp only: Let_def nMid'_def if_True simp_thms)
    have m: "nMid \<le> nMid'" "nMid' \<le> nSize" using True by (auto simp: nMid'_def)
    then have "nSize - nMid = (nMid' - nMid) + (nSize - nMid')" by simp
    then have split: "read_elems dec (nSize - nMid) s = do {
        (xs, r) \<leftarrow> read_elems dec (nMid' - nMid) s;
        (ys, r') \<leftarrow> read_elems dec (nSize - nMid') r;
        Some (xs @ ys, r') }"
      by (simp only: read_elems_add)
    show ?thesis
    proof (cases "read_elems dec (nMid' - nMid) s")
      case None
      then show ?thesis using step split by simp
    next
      case (Some p)
      obtain xs r where p: "p = (xs, r)" by (cases p)
      have "read_batches batch dec nMid nSize v s = read_batches batch dec nMid' nSize (v @ xs) r"
        using step Some p by simp
      also have "\<dots> = map_option (\<lambda>(ys, r'). ((v @ xs) @ ys, r')) (read_elems dec (nSize - nMid') r)"
        by (rule "1.IH" [OF _ nMid'_def Some p [symmetric]]) (use True "1.prems" m in auto)
      finally show ?thesis using split Some p
        by (cases "read_elems dec (nSize - nMid') r") auto
    qed
  qed
qed

context codec
begin

lemma read_elems_enc:
  "list_all ok xs \<Longrightarrow> read_elems dec (length xs) (concat (map enc xs) @ rest) = Some (xs, rest)"
  by (induction xs) (auto simp: dec_enc)

text \<open>A vector of encodable elements is encodable.\<close>

lemma vector_codec:
  assumes "0 < sizeofT" and "sizeofT \<le> 5000000"
  shows "codec (Serialize_vector enc) (Unserialize_vector sizeofT dec)
     (\<lambda>xs. length xs \<le> MAX_SIZE \<and> list_all ok xs)"
proof
  fix xs rest
  assume ok: "length xs \<le> MAX_SIZE \<and> list_all ok xs"
  have "0 < 5000000 div sizeofT" using assms by (simp add: div_greater_zero_iff)
  with ok show "Unserialize_vector sizeofT dec (Serialize_vector enc xs @ rest) = Some (xs, rest)"
    by (simp add: Unserialize_vector_def Serialize_vector_def compact.dec_enc unat_size_word
        read_batches_eq read_elems_enc)
qed

end

lemma length_Serialize_vector:
  "length (Serialize_vector enc v) = GetSizeOfCompactSize (size_word v) + sum_list (map (length \<circ> enc) v)"
  by (simp add: Serialize_vector_def length_WriteCompactSize length_concat comp_def)

end
