(* ===== verification/Uint256.thy ===== *)
theory Uint256
  imports Serialize
begin

unbundle bit_operations_syntax

text \<open>
  The template \<^verbatim>\<open>base_uint<BITS>\<close> of \<^verbatim>\<open>src/src/uint256.h\<close>, from which
  \<^verbatim>\<open>uint160\<close> and \<^verbatim>\<open>uint256\<close> are derived. The array \<^verbatim>\<open>pn[WIDTH]\<close> of 32-bit limbs,
  least significant first, is a list of words; every loop of the template is a definition over
  that list. \<open>val\<close> is the number a limb array stands for, and the refinement lemmas show that
  the loops compute arithmetic modulo \<open>2 ^ (32 * WIDTH)\<close>, so that the other theories use the
  word types \<open>uint160\<close> and \<open>uint256\<close> in their place.
\<close>

type_synonym limbs = "uint32 list"

fun val :: "limbs \<Rightarrow> nat" where
  "val [] = 0"
| "val (x # xs) = unat x + 2 ^ 32 * val xs"

section \<open>Operations\<close>

definition op_not :: "limbs \<Rightarrow> bool" where
  "op_not pn = list_all (\<lambda>x. x = 0) pn"

definition op_compl :: "limbs \<Rightarrow> limbs" where
  "op_compl pn = map (\<lambda>x. NOT x) pn"

text \<open>\<^verbatim>\<open>while (++pn[i] == 0 && i < WIDTH-1) i++\<close>, from the limb the list starts with.\<close>

fun op_inc :: "limbs \<Rightarrow> limbs" where
  "op_inc [] = []"
| "op_inc (x # xs) = (if x + 1 = 0 then (x + 1) # op_inc xs else (x + 1) # xs)"

text \<open>\<^verbatim>\<open>while (--pn[i] == -1 && i < WIDTH-1) i++\<close>.\<close>

fun op_dec :: "limbs \<Rightarrow> limbs" where
  "op_dec [] = []"
| "op_dec (x # xs) = (if x - 1 = -1 then (x - 1) # op_dec xs else (x - 1) # xs)"

definition op_neg :: "limbs \<Rightarrow> limbs" where
  "op_neg pn = op_inc (map (\<lambda>x. NOT x) pn)"

definition op_assign64 :: "nat \<Rightarrow> uint64 \<Rightarrow> limbs" where
  "op_assign64 WIDTH b = ucast b # ucast (drop_bit 32 b) # replicate (WIDTH - 2) 0"

definition op_xor :: "limbs \<Rightarrow> limbs \<Rightarrow> limbs" where
  "op_xor a b = map2 (\<lambda>x y. x XOR y) a b"

definition op_and :: "limbs \<Rightarrow> limbs \<Rightarrow> limbs" where
  "op_and a b = map2 (\<lambda>x y. x AND y) a b"

definition op_or :: "limbs \<Rightarrow> limbs \<Rightarrow> limbs" where
  "op_or a b = map2 (\<lambda>x y. x OR y) a b"

text \<open>\<^verbatim>\<open>operator+=\<close>: the carry is a 64-bit integer.\<close>

fun add_carry :: "uint64 \<Rightarrow> limbs \<Rightarrow> limbs \<Rightarrow> limbs" where
  "add_carry carry (x # xs) (y # ys) =
     (let n = carry + ucast x + ucast y
      in ucast (n AND 0xffffffff) # add_carry (drop_bit 32 n) xs ys)"
| "add_carry carry _ _ = []"

definition op_add :: "limbs \<Rightarrow> limbs \<Rightarrow> limbs" where
  "op_add a b = add_carry 0 a b"

definition op_sub :: "limbs \<Rightarrow> limbs \<Rightarrow> limbs" where
  "op_sub a b = op_add a (op_neg b)"

definition op_add64 :: "limbs \<Rightarrow> uint64 \<Rightarrow> limbs" where
  "op_add64 a b64 = op_add a (op_assign64 (length a) b64)"

definition op_sub64 :: "limbs \<Rightarrow> uint64 \<Rightarrow> limbs" where
  "op_sub64 a b64 = op_add a (op_neg (op_assign64 (length a) b64))"

text \<open>One iteration of the loop of \<^verbatim>\<open>operator<<=\<close>, then the loop.\<close>

definition shl_step :: "limbs \<Rightarrow> nat \<Rightarrow> nat \<Rightarrow> limbs \<Rightarrow> nat \<Rightarrow> limbs" where
  "shl_step a k shift pn i =
     (let pn1 = (if i + k + 1 < length a \<and> shift \<noteq> 0
                 then pn[i + k + 1 := pn ! (i + k + 1) OR drop_bit (32 - shift) (a ! i)] else pn)
      in if i + k < length a then pn1[i + k := pn1 ! (i + k) OR push_bit shift (a ! i)] else pn1)"

definition op_shl :: "limbs \<Rightarrow> nat \<Rightarrow> limbs" where
  "op_shl a shift =
     foldl (shl_step a (shift div 32) (shift mod 32)) (replicate (length a) 0) [0..<length a]"

definition shr_step :: "limbs \<Rightarrow> nat \<Rightarrow> nat \<Rightarrow> limbs \<Rightarrow> nat \<Rightarrow> limbs" where
  "shr_step a k shift pn i =
     (let pn1 = (if 0 \<le> int i - int k - 1 \<and> shift \<noteq> 0
                 then pn[i - k - 1 := pn ! (i - k - 1) OR push_bit (32 - shift) (a ! i)] else pn)
      in if 0 \<le> int i - int k then pn1[i - k := pn1 ! (i - k) OR drop_bit shift (a ! i)] else pn1)"

definition op_shr :: "limbs \<Rightarrow> nat \<Rightarrow> limbs" where
  "op_shr a shift =
     foldl (shr_step a (shift div 32) (shift mod 32)) (replicate (length a) 0) [0..<length a]"

text \<open>The comparisons run from the most significant limb; \<open>cmp_loop\<close> is the loop with \<open>i\<close> limbs left.\<close>

fun lt_loop :: "limbs \<Rightarrow> limbs \<Rightarrow> nat \<Rightarrow> bool" where
  "lt_loop a b 0 = False"
| "lt_loop a b (Suc i) = (if a ! i < b ! i then True else if a ! i > b ! i then False else lt_loop a b i)"

fun le_loop :: "limbs \<Rightarrow> limbs \<Rightarrow> nat \<Rightarrow> bool" where
  "le_loop a b 0 = True"
| "le_loop a b (Suc i) = (if a ! i < b ! i then True else if a ! i > b ! i then False else le_loop a b i)"

definition op_lt :: "limbs \<Rightarrow> limbs \<Rightarrow> bool" where
  "op_lt a b = lt_loop a b (length a)"

definition op_le :: "limbs \<Rightarrow> limbs \<Rightarrow> bool" where
  "op_le a b = le_loop a b (length a)"

text \<open>\<^verbatim>\<open>operator>\<close> and \<^verbatim>\<open>operator>=\<close> are the same loops with the tests exchanged.\<close>

fun gt_loop :: "limbs \<Rightarrow> limbs \<Rightarrow> nat \<Rightarrow> bool" where
  "gt_loop a b 0 = False"
| "gt_loop a b (Suc i) = (if a ! i > b ! i then True else if a ! i < b ! i then False else gt_loop a b i)"

definition op_gt :: "limbs \<Rightarrow> limbs \<Rightarrow> bool" where
  "op_gt a b = gt_loop a b (length a)"

fun ge_loop :: "limbs \<Rightarrow> limbs \<Rightarrow> nat \<Rightarrow> bool" where
  "ge_loop a b 0 = True"
| "ge_loop a b (Suc i) = (if a ! i > b ! i then True else if a ! i < b ! i then False else ge_loop a b i)"

definition op_ge :: "limbs \<Rightarrow> limbs \<Rightarrow> bool" where
  "op_ge a b = ge_loop a b (length a)"

definition op_eq :: "limbs \<Rightarrow> limbs \<Rightarrow> bool" where
  "op_eq a b = list_all (\<lambda>i. a ! i = b ! i) [0..<length a]"

definition op_eq64 :: "limbs \<Rightarrow> uint64 \<Rightarrow> bool" where
  "op_eq64 a b =
     (if a ! 0 \<noteq> ucast b then False
      else if a ! 1 \<noteq> ucast (drop_bit 32 b) then False
      else list_all (\<lambda>i. a ! i = 0) [2..<length a])"

definition Get64 :: "limbs \<Rightarrow> nat \<Rightarrow> uint64" where
  "Get64 pn n = ucast (pn ! (2 * n)) OR push_bit 32 (ucast (pn ! (2 * n + 1)))"

text \<open>The memory image of the limb array, which is what \<^verbatim>\<open>Serialize\<close> writes.\<close>

definition limbs_bytes :: "limbs \<Rightarrow> bytes" where
  "limbs_bytes pn = concat (map (word_bytes 4) pn)"

section \<open>Arithmetic of the limb arrays\<close>

lemma val_less: "val pn < 2 ^ (32 * length pn)"
proof (induction pn)
  case (Cons x xs)
  have "unat x < 2 ^ 32" using unat_less_2p [of x] by simp
  moreover have "2 ^ (32 * length (x # xs)) = (2 ^ 32 :: nat) * 2 ^ (32 * length xs)"
    by (simp add: power_add)
  moreover have "val xs + 1 \<le> 2 ^ (32 * length xs)" using Cons by simp
  then have "2 ^ 32 * val xs + 2 ^ 32 \<le> (2 ^ 32 :: nat) * 2 ^ (32 * length xs)"
    by (metis add_mult_distrib2 mult.right_neutral mult_le_mono2)
  ultimately show ?case by simp
qed simp

lemma val_append: "val (xs @ ys) = val xs + 2 ^ (32 * length xs) * val ys"
  by (induction xs) (simp_all add: algebra_simps power_add)

lemma val_inj: "length a = length b \<Longrightarrow> val a = val b \<Longrightarrow> a = b"
proof (induction a b rule: list_induct2)
  case (Cons x xs y ys)
  have xy: "unat x < 2 ^ 32" "unat y < 2 ^ 32"
    using unat_less_2p [of x] unat_less_2p [of y] by simp_all
  have "(unat x + 2 ^ 32 * val xs) mod 2 ^ 32 = (unat y + 2 ^ 32 * val ys) mod 2 ^ 32"
    and "(unat x + 2 ^ 32 * val xs) div 2 ^ 32 = (unat y + 2 ^ 32 * val ys) div 2 ^ 32"
    using Cons.prems by simp_all
  then have "unat x = unat y" and "val xs = val ys"
    using xy by (simp_all only: mod_mult_self2 mod_less div_mult_self2 div_less)
  then show ?case using Cons.IH by (simp add: word_unat_eq_iff)
qed simp

lemma length_op_inc [simp]: "length (op_inc pn) = length pn"
  by (induction pn) auto

lemma length_op_neg [simp]: "length (op_neg pn) = length pn"
  by (simp add: op_neg_def)

lemma length_op_assign64 [simp]: "2 \<le> W \<Longrightarrow> length (op_assign64 W b) = W"
  by (simp add: op_assign64_def)

lemma length_add_carry [simp]: "length (add_carry c a b) = min (length a) (length b)"
  by (induction c a b rule: add_carry.induct) (auto simp: Let_def)

lemma unat_add_limbs:
  fixes x y :: uint32 and c :: uint64
  assumes "unat c \<le> 1"
  shows "unat (c + ucast x + ucast y) = unat c + unat x + unat y"
proof -
  have "unat x < 2 ^ 32" "unat y < 2 ^ 32"
    using unat_less_2p [of x] unat_less_2p [of y] by simp_all
  then have "unat c + unat x + unat y < 2 ^ 64" using assms by simp
  moreover have "unat (ucast x :: uint64) = unat x" "unat (ucast y :: uint64) = unat y"
    using \<open>unat x < 2 ^ 32\<close> \<open>unat y < 2 ^ 32\<close> by (simp_all add: unat_ucast_small)
  ultimately show ?thesis by (simp add: unat_word_ariths mod_simps)
qed

lemma mod_limb_split:
  "t mod 2 ^ 32 + 2 ^ 32 * ((t div 2 ^ 32 + u) mod M) = (t + 2 ^ 32 * u) mod (2 ^ 32 * M)" for t u M :: nat
proof -
  have "(t + 2 ^ 32 * u) div 2 ^ 32 = t div 2 ^ 32 + u"
    by simp
  moreover have "(t + 2 ^ 32 * u) mod 2 ^ 32 = t mod 2 ^ 32"
    by simp
  ultimately show ?thesis by (simp only: mod_mult2_eq add.commute)
qed

lemma power_limbs: "(2::nat) ^ (32 * Suc n) = 2 ^ 32 * 2 ^ (32 * n)"
  by (simp add: power_add)

lemma val_add_carry:
  "length a = length b \<Longrightarrow> unat c \<le> 1 \<Longrightarrow>
     val (add_carry c a b) = (unat c + val a + val b) mod 2 ^ (32 * length a)"
proof (induction a b arbitrary: c rule: list_induct2)
  case Nil
  then show ?case by simp
next
  case (Cons x xs y ys)
  define n where "n = c + ucast x + ucast y"
  define t where "t = unat c + unat x + unat y"
  have n: "unat n = t" unfolding n_def t_def by (rule unat_add_limbs) (use Cons.prems in simp)
  have "unat x < 2 ^ 32" "unat y < 2 ^ 32"
    using unat_less_2p [of x] unat_less_2p [of y] by simp_all
  then have t: "t < 2 ^ 33" using Cons.prems by (simp add: t_def)
  have hi: "unat (drop_bit 32 n) = t div 2 ^ 32"
    by (simp add: drop_bit_eq_div unat_div_distrib n)
  have lo: "unat (ucast (n AND 0xffffffff) :: uint32) = t mod 2 ^ 32"
  proof -
    have "n AND 0xffffffff = take_bit 32 n"
      by (simp add: take_bit_eq_mask mask_eq_exp_minus_1)
    then show ?thesis
      by (simp add: unsigned_ucast_eq take_bit_eq_mod unat_mod_distrib n)
  qed
  have "t div 2 ^ 32 \<le> 1" using t by (simp add: div_le_dividend)
  then have "val (add_carry (drop_bit 32 n) xs ys) = (t div 2 ^ 32 + val xs + val ys) mod 2 ^ (32 * length xs)"
    using Cons.IH [of "drop_bit 32 n"] hi by simp
  moreover have "val (add_carry c (x # xs) (y # ys)) =
      t mod 2 ^ 32 + 2 ^ 32 * val (add_carry (drop_bit 32 n) xs ys)"
    by (simp only: add_carry.simps Let_def n_def [symmetric] val.simps lo)
  ultimately have "val (add_carry c (x # xs) (y # ys)) =
      t mod 2 ^ 32 + 2 ^ 32 * ((t div 2 ^ 32 + (val xs + val ys)) mod 2 ^ (32 * length xs))"
    by (simp only: add.assoc)
  also have "\<dots> = (t + 2 ^ 32 * (val xs + val ys)) mod (2 ^ 32 * 2 ^ (32 * length xs))"
    by (rule mod_limb_split)
  also have "\<dots> = (unat c + val (x # xs) + val (y # ys)) mod 2 ^ (32 * length (x # xs))"
    by (simp only: t_def val.simps length_Cons power_limbs) (simp add: algebra_simps)
  finally show ?case .
qed

lemma val_op_inc: "val (op_inc pn) = (val pn + 1) mod 2 ^ (32 * length pn)"
proof (induction pn)
  case (Cons x xs)
  show ?case
  proof (cases "x + 1 = 0")
    case True
    then have "x = - 1" by (simp add: eq_neg_iff_add_eq_0)
    then have x: "unat x = 2 ^ 32 - 1"
      by (simp add: unsigned_minus_1_eq_mask mask_eq_exp_minus_1)
    have "val (op_inc (x # xs)) = 2 ^ 32 * ((1 + val xs) mod 2 ^ (32 * length xs))"
      using True Cons by (simp add: add.commute)
    also have "\<dots> = (2 ^ 32 + 2 ^ 32 * val xs) mod (2 ^ 32 * 2 ^ (32 * length xs))"
      using mod_limb_split [of "2 ^ 32" "val xs"] by simp
    finally show ?thesis using x by (simp add: power_add)
  next
    case False
    then have "unat (x + 1) = unat x + 1"
      by (metis Suc_eq_plus1 add.commute unatSuc)
    then have "val (op_inc (x # xs)) = val (x # xs) + 1" using False by simp
    moreover have "val (op_inc (x # xs)) < 2 ^ (32 * length (x # xs))"
      using val_less [of "op_inc (x # xs)"] by (simp only: length_op_inc)
    ultimately show ?thesis by (metis mod_less)
  qed
qed simp

lemma unat_compl: "unat (NOT x) = 2 ^ 32 - 1 - unat (x :: uint32)"
proof -
  have m: "unat (- 1 :: uint32) = 2 ^ 32 - 1"
    by (simp add: unsigned_minus_1_eq_mask mask_eq_exp_minus_1)
  have "NOT x = - 1 - x" by (simp add: not_eq_complement)
  moreover have "x \<le> - 1" using unat_less_2p [of x] by (simp add: word_le_nat_alt m)
  ultimately show ?thesis by (simp add: unat_sub m)
qed

lemma val_compl: "val (map (\<lambda>x. NOT x) pn) = 2 ^ (32 * length pn) - 1 - val pn"
proof (induction pn)
  case (Cons x xs)
  have x: "unat x < 2 ^ 32" using unat_less_2p [of x] by simp
  have "unat (NOT x) = 2 ^ 32 - 1 - unat x" by (rule unat_compl)
  moreover have "val xs < 2 ^ (32 * length xs)" by (rule val_less)
  then have "2 ^ 32 * (2 ^ (32 * length xs) - 1 - val xs) = (2 ^ 32 * 2 ^ (32 * length xs) - 2 ^ 32 - 2 ^ 32 * val xs :: nat)"
    by (simp add: diff_mult_distrib2)
  moreover have "2 ^ 32 * val xs + 2 ^ 32 \<le> (2 ^ 32 * 2 ^ (32 * length xs) :: nat)"
    using \<open>val xs < 2 ^ (32 * length xs)\<close> by (metis Suc_leI mult_Suc_right mult_le_mono2 add.commute)
  ultimately show ?case using Cons x by (simp only: list.map val.simps length_Cons power_limbs) linarith
qed simp

lemma val_op_neg: "val (op_neg pn) = (2 ^ (32 * length pn) - val pn) mod 2 ^ (32 * length pn)"
  using val_less [of pn] by (simp add: op_neg_def val_op_inc val_compl Suc_diff_Suc)

lemma val_op_add:
  "length a = length b \<Longrightarrow> val (op_add a b) = (val a + val b) mod 2 ^ (32 * length a)"
  by (simp add: op_add_def val_add_carry)

lemma val_op_sub:
  assumes "length a = length b"
  shows "int (val (op_sub a b)) = (int (val a) - int (val b)) mod 2 ^ (32 * length a)"
proof -
  have b: "val b < 2 ^ (32 * length a)" using val_less [of b] assms by simp
  have "val (op_sub a b) = (val a + (2 ^ (32 * length a) - val b)) mod 2 ^ (32 * length a)"
    using assms by (simp add: op_sub_def val_op_add val_op_neg mod_simps)
  then have "int (val (op_sub a b)) = (int (val a) + 2 ^ (32 * length a) - int (val b)) mod 2 ^ (32 * length a)"
    using b by (simp add: of_nat_mod of_nat_diff)
  then show ?thesis by (metis diff_add_eq mod_add_self2)
qed

lemma val_op_assign64: "2 \<le> W \<Longrightarrow> val (op_assign64 W b) = unat b"
proof -
  have "val (replicate n 0) = 0" for n by (induction n) auto
  moreover have "unat (ucast b :: uint32) + 2 ^ 32 * unat (ucast (drop_bit 32 b) :: uint32) = unat b"
  proof -
    have "unat (drop_bit 32 b) = unat b div 2 ^ 32"
      by (simp add: drop_bit_eq_div unat_div_distrib)
    moreover have "unat b div 2 ^ 32 < 2 ^ 32" using unat_less_2p [of b] by (simp add: div_less_iff_less_mult)
    ultimately have "unat (ucast (drop_bit 32 b) :: uint32) = unat b div 2 ^ 32"
      by (simp add: unat_ucast_small)
    moreover have "unat (ucast b :: uint32) = unat b mod 2 ^ 32"
      by (simp add: unsigned_ucast_eq take_bit_eq_mod)
    ultimately show ?thesis by simp
  qed
  ultimately show ?thesis by (simp add: op_assign64_def)
qed

section \<open>Comparisons\<close>

lemma val_take_Suc:
  "i < length a \<Longrightarrow> val (take (Suc i) a) = val (take i a) + 2 ^ (32 * i) * unat (a ! i)"
  by (simp add: take_Suc_conv_app_nth val_append)

lemma val_take_less: "i \<le> length a \<Longrightarrow> val (take i a) < 2 ^ (32 * i)"
  using val_less [of "take i a"] by simp

lemma limb_order:
  fixes u v M :: nat and x y :: uint32
  assumes "u < M" and "v < M"
  shows "x < y \<Longrightarrow> u + M * unat x < v + M * unat y"
proof -
  assume "x < y"
  then have "unat x + 1 \<le> unat y" by (simp add: word_less_nat_alt)
  then have "M * (unat x + 1) \<le> M * unat y" by (rule mult_le_mono2)
  then show ?thesis using assms by (simp add: algebra_simps)
qed

lemma lt_loop_val:
  "n \<le> length a \<Longrightarrow> length a = length b \<Longrightarrow> lt_loop a b n \<longleftrightarrow> val (take n a) < val (take n b)"
proof (induction n)
  case (Suc i)
  have u: "val (take i a) < 2 ^ (32 * i)" and v: "val (take i b) < 2 ^ (32 * i)"
    using Suc.prems by (simp_all add: val_take_less)
  show ?case
  proof (cases "a ! i" "b ! i" rule: linorder_cases)
    case less
    then show ?thesis
      using Suc.prems limb_order [OF u v less] by (simp add: val_take_Suc)
  next
    case equal
    then show ?thesis using Suc by (simp add: val_take_Suc)
  next
    case greater
    then show ?thesis
      using Suc.prems limb_order [OF v u greater] by (simp add: val_take_Suc)
  qed
qed simp

lemma le_loop_iff: "le_loop a b n \<longleftrightarrow> \<not> lt_loop b a n"
  by (induction n) auto

lemma gt_loop_iff: "gt_loop a b n \<longleftrightarrow> lt_loop b a n"
  by (induction n) auto

lemma ge_loop_iff: "ge_loop a b n \<longleftrightarrow> \<not> lt_loop a b n"
  by (induction n) auto

lemma op_eq_iff: "length a = length b \<Longrightarrow> op_eq a b \<longleftrightarrow> a = b"
  by (auto simp: op_eq_def list_all_iff intro: nth_equalityI)

lemma op_eq_val: "length a = length b \<Longrightarrow> op_eq a b \<longleftrightarrow> val a = val b"
  by (auto simp: op_eq_iff dest: val_inj)

section \<open>Bits and shifts\<close>

lemma bit_val:
  "bit (val pn) m \<longleftrightarrow> m div 32 < length pn \<and> bit (pn ! (m div 32)) (m mod 32)"
proof (induction pn arbitrary: m)
  case Nil
  show ?case by simp
next
  case (Cons x xs)
  have small: "\<not> bit (unat x) i" if "32 \<le> i" for i
    using that by (auto simp: bit_unsigned_iff dest: bit_imp_le_length)
  have "\<not> bit (unat x) i \<or> \<not> bit (push_bit 32 (val xs)) i" for i
    using small [of i] by (cases "32 \<le> i") (simp_all add: bit_push_bit_iff)
  then have "unat x + push_bit 32 (val xs) = unat x OR push_bit 32 (val xs)"
    by (rule disjunctive_add)
  moreover have "push_bit 32 (val xs) = 2 ^ 32 * val xs"
    by (simp add: push_bit_eq_mult)
  ultimately have "val (x # xs) = unat x OR push_bit 32 (val xs)"
    by (simp only: val.simps)
  then have *: "bit (val (x # xs)) m \<longleftrightarrow> bit (unat x) m \<or> 32 \<le> m \<and> bit (val xs) (m - 32)"
    by (simp add: bit_or_iff bit_push_bit_iff)
  show ?case
  proof (cases "32 \<le> m")
    case True
    then have "m div 32 = Suc ((m - 32) div 32)" and "m mod 32 = (m - 32) mod 32"
      by (simp_all add: le_div_geq le_mod_geq)
    with True Cons * small show ?thesis by simp
  qed (use * in \<open>simp add: bit_unsigned_iff\<close>)
qed

text \<open>What limb \<open>j\<close> holds after the first \<open>m\<close> iterations of the two loops.\<close>

definition shl_limb :: "limbs \<Rightarrow> nat \<Rightarrow> nat \<Rightarrow> nat \<Rightarrow> nat \<Rightarrow> uint32" where
  "shl_limb a k s m j =
     (if k \<le> j \<and> j - k < m then push_bit s (a ! (j - k)) else 0) OR
     (if s \<noteq> 0 \<and> k + 1 \<le> j \<and> j - k - 1 < m then drop_bit (32 - s) (a ! (j - k - 1)) else 0)"

definition shr_limb :: "limbs \<Rightarrow> nat \<Rightarrow> nat \<Rightarrow> nat \<Rightarrow> nat \<Rightarrow> uint32" where
  "shr_limb a k s m j =
     (if j + k < m then drop_bit s (a ! (j + k)) else 0) OR
     (if s \<noteq> 0 \<and> j + k + 1 < m then push_bit (32 - s) (a ! (j + k + 1)) else 0)"

lemma length_shl_step [simp]: "length (shl_step a k s pn i) = length pn"
  by (simp add: shl_step_def Let_def)

lemma length_shr_step [simp]: "length (shr_step a k s pn i) = length pn"
  by (simp add: shr_step_def Let_def)

lemma shl_step_nth:
  assumes pn: "length pn = length a" "\<And>j. j < length a \<Longrightarrow> pn ! j = shl_limb a k s m j"
    and m: "m < length a" and j: "j < length a"
  shows "shl_step a k s pn m ! j = shl_limb a k s (Suc m) j"
proof -
  consider "j = m + k" | "j = m + k + 1" | "j \<noteq> m + k" "j \<noteq> m + k + 1" by blast
  then show ?thesis
  proof cases
    case 1
    then show ?thesis using j m pn
      by (auto simp: shl_step_def Let_def shl_limb_def nth_list_update or.commute)
  next
    case 2
    then show ?thesis using j m pn
      by (auto simp: shl_step_def Let_def shl_limb_def nth_list_update or.commute)
  next
    case 3
    then have "shl_limb a k s (Suc m) j = shl_limb a k s m j"
      by (auto simp: shl_limb_def less_Suc_eq)
    with 3 show ?thesis using j pn
      by (simp add: shl_step_def Let_def nth_list_update)
  qed
qed

lemma shl_loop:
  "m \<le> length a \<Longrightarrow> length (foldl (shl_step a k s) (replicate (length a) 0) [0..<m]) = length a \<and>
    (\<forall>j < length a. foldl (shl_step a k s) (replicate (length a) 0) [0..<m] ! j = shl_limb a k s m j)"
  by (induction m) (simp_all add: shl_step_nth, simp add: shl_limb_def)

lemma shr_step_nth:
  assumes pn: "length pn = length a" "\<And>j. j < length a \<Longrightarrow> pn ! j = shr_limb a k s m j"
    and m: "m < length a" and j: "j < length a"
  shows "shr_step a k s pn m ! j = shr_limb a k s (Suc m) j"
proof -
  consider "m = j + k" | "m = j + k + 1" | "m \<noteq> j + k" "m \<noteq> j + k + 1" by blast
  then show ?thesis
  proof cases
    case 1
    then show ?thesis using j m pn
      by (auto simp: shr_step_def Let_def shr_limb_def nth_list_update or.commute)
  next
    case 2
    then show ?thesis using j m pn
      by (auto simp: shr_step_def Let_def shr_limb_def nth_list_update or.commute)
  next
    case 3
    then have "shr_limb a k s (Suc m) j = shr_limb a k s m j"
      by (auto simp: shr_limb_def less_Suc_eq)
    moreover have "m - k \<noteq> j \<or> m < k" "m - k - 1 \<noteq> j \<or> m < k + 1" using 3 by auto
    ultimately show ?thesis using j pn
      by (auto simp: shr_step_def Let_def nth_list_update)
  qed
qed

lemma shr_loop:
  "m \<le> length a \<Longrightarrow> length (foldl (shr_step a k s) (replicate (length a) 0) [0..<m]) = length a \<and>
    (\<forall>j < length a. foldl (shr_step a k s) (replicate (length a) 0) [0..<m] ! j = shr_limb a k s m j)"
  by (induction m) (simp_all add: shr_step_nth, simp add: shr_limb_def)

lemma length_op_shl [simp]: "length (op_shl a sh) = length a"
  using shl_loop [of "length a" a] by (simp add: op_shl_def)

lemma length_op_shr [simp]: "length (op_shr a sh) = length a"
  using shr_loop [of "length a" a] by (simp add: op_shr_def)

lemma nth_op_shl: "j < length a \<Longrightarrow> op_shl a sh ! j = shl_limb a (sh div 32) (sh mod 32) (length a) j"
  using shl_loop [of "length a" a] by (simp add: op_shl_def)

lemma nth_op_shr: "j < length a \<Longrightarrow> op_shr a sh ! j = shr_limb a (sh div 32) (sh mod 32) (length a) j"
  using shr_loop [of "length a" a] by (simp add: op_shr_def)

lemma bit_shl_limb:
  assumes s: "s < 32" and t: "t < 32" and j: "j < length a"
  shows "bit (shl_limb a k s (length a) j) t \<longleftrightarrow>
    32 * k + s \<le> 32 * j + t \<and> bit (val a) (32 * j + t - (32 * k + s))"
proof -
  consider "j < k" | "j = k" "t < s" | "k < j" "t < s" | "k \<le> j" "s \<le> t" by linarith
  then show ?thesis
  proof cases
    case 1
    then have "32 * j + t < 32 * k + s" using t by simp
    with 1 show ?thesis by (simp add: shl_limb_def)
  next
    case 2
    then show ?thesis using s by (simp add: shl_limb_def bit_push_bit_iff)
  next
    case 3
    define q where "q = j - k - 1"
    have q: "32 * j + t - (32 * k + s) = 32 * q + (32 + t - s)" and lt: "32 + t - s < 32"
      using 3 s by (simp_all add: q_def)
    have "(32 * q + (32 + t - s)) div 32 = q" "(32 * q + (32 + t - s)) mod 32 = 32 + t - s"
      using lt by simp_all
    moreover have "32 - s + t = 32 + t - s" "j - Suc k = q" "q < length a"
      using s j by (simp_all add: q_def)
    ultimately show ?thesis using 3 s t j
      by (auto simp: shl_limb_def bit_or_iff bit_push_bit_iff bit_drop_bit_eq bit_val q)
  next
    case 4
    define q where "q = j - k"
    have q: "32 * j + t - (32 * k + s) = 32 * q + (t - s)" and lt: "t - s < 32"
      using 4 t by (simp_all add: q_def)
    have "(32 * q + (t - s)) div 32 = q" "(32 * q + (t - s)) mod 32 = t - s"
      using lt by simp_all
    moreover have "\<not> bit (a ! (j - k - 1)) (32 - s + t)" using 4
      by (auto dest: bit_imp_le_length)
    ultimately show ?thesis using 4 s t j
      by (auto simp: shl_limb_def bit_or_iff bit_push_bit_iff bit_drop_bit_eq bit_val q
          simp flip: q_def)
  qed
qed

lemma limb_div_mod: "s < 32 \<Longrightarrow> (32 * q + s) div 32 = q" "s < 32 \<Longrightarrow> (32 * q + s) mod 32 = s"
  for q s :: nat
  by simp_all

lemma bit_shr_limb:
  assumes s: "s < 32" and t: "t < 32"
  shows "bit (shr_limb a k s (length a) j) t \<longleftrightarrow> bit (val a) (32 * (j + k) + (s + t))"
proof (cases "s + t < 32")
  case True
  then have "(32 * (j + k) + (s + t)) div 32 = j + k" "(32 * (j + k) + (s + t)) mod 32 = s + t"
    by (simp_all only: limb_div_mod)
  with True show ?thesis
    by (auto simp: shr_limb_def bit_or_iff bit_push_bit_iff bit_drop_bit_eq bit_val)
next
  case False
  have e: "32 * (j + k) + (s + t) = 32 * (j + k + 1) + (s + t - 32)" and "s + t - 32 < 32"
    using False s t by simp_all
  then have "(32 * (j + k) + (s + t)) div 32 = j + k + 1" "(32 * (j + k) + (s + t)) mod 32 = s + t - 32"
    by (simp_all only: e limb_div_mod)
  moreover have "t - (32 - s) = s + t - 32" "s \<noteq> 0" "\<not> t < 32 - s" using False s t by auto
  moreover have "\<not> bit (a ! (j + k)) (s + t)" using False by (auto dest: bit_imp_le_length)
  ultimately show ?thesis using s t
    by (auto simp: shr_limb_def bit_or_iff bit_push_bit_iff bit_drop_bit_eq bit_val add.commute)
qed

lemma val_op_shl: "val (op_shl a sh) = (2 ^ sh * val a) mod 2 ^ (32 * length a)"
proof -
  have "val (op_shl a sh) = take_bit (32 * length a) (push_bit sh (val a))"
  proof (rule bit_eqI)
    fix m
    show "bit (val (op_shl a sh)) m \<longleftrightarrow> bit (take_bit (32 * length a) (push_bit sh (val a))) m"
    proof (cases "m div 32 < length a")
      case True
      then have lt: "m < 32 * length a" by (simp add: div_less_iff_less_mult mult.commute)
      have "bit (val (op_shl a sh)) m \<longleftrightarrow> sh \<le> m \<and> bit (val a) (m - sh)"
        using True bit_shl_limb [of "sh mod 32" "m mod 32" "m div 32" a "sh div 32"]
        by (simp add: bit_val [of "op_shl a sh"] nth_op_shl)
      with lt show ?thesis by (simp add: bit_take_bit_iff bit_push_bit_iff)
    next
      case False
      then have "\<not> m < 32 * length a" by (simp add: div_less_iff_less_mult mult.commute)
      with False show ?thesis by (simp add: bit_val [of "op_shl a sh"] bit_take_bit_iff)
    qed
  qed
  then show ?thesis by (simp add: take_bit_eq_mod push_bit_eq_mult mult.commute)
qed

lemma val_op_shr: "val (op_shr a sh) = val a div 2 ^ sh"
proof -
  have "val (op_shr a sh) = drop_bit sh (val a)"
  proof (rule bit_eqI)
    fix m
    show "bit (val (op_shr a sh)) m \<longleftrightarrow> bit (drop_bit sh (val a)) m"
    proof (cases "m div 32 < length a")
      case True
      have "32 * (m div 32 + sh div 32) + (sh mod 32 + m mod 32) =
          (32 * (sh div 32) + sh mod 32) + (32 * (m div 32) + m mod 32)"
        by (simp only: distrib_left ac_simps)
      then have "32 * (m div 32 + sh div 32) + (sh mod 32 + m mod 32) = sh + m"
        by (simp only: mult_div_mod_eq)
      with True show ?thesis
        using bit_shr_limb [of "sh mod 32" "m mod 32" a "sh div 32" "m div 32"]
        by (simp add: bit_val [of "op_shr a sh"] nth_op_shr bit_drop_bit_eq)
    next
      case False
      then have "\<not> (sh + m) div 32 < length a"
        by (meson add_leD2 div_le_mono le_add2 le_trans linorder_not_le)
      with False show ?thesis by (simp add: bit_val bit_drop_bit_eq)
    qed
  qed
  then show ?thesis by (simp add: drop_bit_eq_div)
qed

section \<open>Hexadecimal text\<close>

definition hex_digits :: string where
  "hex_digits = ''0123456789abcdef''"

text \<open>\<^verbatim>\<open>sprintf("%02x", b)\<close>.\<close>

definition hex_byte :: "byte \<Rightarrow> string" where
  "hex_byte b = [hex_digits ! (unat b div 16), hex_digits ! (unat b mod 16)]"

definition GetHex :: "limbs \<Rightarrow> nat \<Rightarrow> string" where
  "GetHex pn nPadding =
     (let str = concat (map hex_byte (rev (limbs_bytes pn)))
      in replicate (nPadding - length str) (CHR ''0'') @ str)"

definition phexdigit :: "char \<Rightarrow> byte" where
  "phexdigit c =
     (let n = of_char c :: nat in
      if 48 \<le> n \<and> n \<le> 57 then of_nat (n - 48)
      else if 65 \<le> n \<and> n \<le> 70 then of_nat (n - 55)
      else if 97 \<le> n \<and> n \<le> 102 then of_nat (n - 87)
      else 0)"

text \<open>\<^verbatim>\<open>isspace\<close> and \<^verbatim>\<open>tolower(c) == 'x'\<close> in the C locale.\<close>

definition isspace :: "char \<Rightarrow> bool" where
  "isspace c = (let n = of_char c :: nat in n = 32 \<or> (9 \<le> n \<and> n \<le> 13))"

definition skip_0x :: "string \<Rightarrow> string" where
  "skip_0x psz = (case psz of
       c # d # r \<Rightarrow> if c = CHR ''0'' \<and> (d = CHR ''x'' \<or> d = CHR ''X'') then r else psz
     | _ \<Rightarrow> psz)"

text \<open>The fill loop of \<^verbatim>\<open>SetHex\<close>, over the digits from the last one, with \<open>n\<close> bytes left.\<close>

fun hex_fill :: "nat \<Rightarrow> byte list \<Rightarrow> bytes" where
  "hex_fill 0 ds = []"
| "hex_fill (Suc n) [] = replicate (Suc n) 0"
| "hex_fill (Suc n) [d] = d # replicate n 0"
| "hex_fill (Suc n) (d # e # ds) = (d OR push_bit 4 e) # hex_fill n ds"

fun bytes_limbs :: "bytes \<Rightarrow> limbs" where
  "bytes_limbs (a # b # c # d # r) = bytes_word [a, b, c, d] # bytes_limbs r"
| "bytes_limbs _ = []"

definition SetHex :: "nat \<Rightarrow> string \<Rightarrow> limbs" where
  "SetHex WIDTH psz =
     (let psz = skip_0x (dropWhile isspace psz);
          ds = takeWhile (\<lambda>c. phexdigit c \<noteq> 0 \<or> c = CHR ''0'') psz
      in bytes_limbs (hex_fill (WIDTH * 4) (map phexdigit (rev ds))))"

lemma length_limbs_bytes [simp]: "length (limbs_bytes pn) = 4 * length pn"
  by (induction pn) (simp_all add: limbs_bytes_def)

lemma le_val_limbs_bytes: "le_val (limbs_bytes pn) = val pn"
proof (induction pn)
  case (Cons x xs)
  have "unat x < 256 ^ 4" using unat_less_2p [of x] by simp
  then have "le_val (word_bytes 4 x) = unat x"
    by (simp add: word_bytes_def le_val_le_bytes)
  with Cons show ?case by (simp add: limbs_bytes_def le_val_append)
qed (simp add: limbs_bytes_def)

lemma bytes_limbs_bytes: "bytes_limbs (limbs_bytes pn) = pn"
proof (induction pn)
  case (Cons x xs)
  have four: "(4 :: nat) = Suc (Suc (Suc (Suc 0)))" by simp
  obtain a b c d where w: "word_bytes 4 x = [a, b, c, d]"
    using that unfolding word_bytes_def four le_bytes.simps by blast
  moreover have "bytes_word (word_bytes 4 x) = x" by (rule bytes_word_bytes) simp
  ultimately show ?case using Cons by (simp add: limbs_bytes_def)
qed (simp add: limbs_bytes_def)

text \<open>Digits.\<close>

lemma hex_digit_facts:
  assumes "n < 16"
  shows "phexdigit (hex_digits ! n) = of_nat n"
    and "phexdigit (hex_digits ! n) \<noteq> 0 \<or> hex_digits ! n = CHR ''0''"
    and "\<not> isspace (hex_digits ! n)"
    and "hex_digits ! n \<noteq> CHR ''x''" "hex_digits ! n \<noteq> CHR ''X''" "hex_digits ! n \<noteq> CHR ''-''"
proof -
  have "list_all (\<lambda>n. phexdigit (hex_digits ! n) = of_nat n \<and>
      (phexdigit (hex_digits ! n) \<noteq> 0 \<or> hex_digits ! n = CHR ''0'') \<and> \<not> isspace (hex_digits ! n) \<and>
      hex_digits ! n \<noteq> CHR ''x'' \<and> hex_digits ! n \<noteq> CHR ''X'' \<and> hex_digits ! n \<noteq> CHR ''-'') [0..<16]"
    by code_simp
  with assms show "phexdigit (hex_digits ! n) = of_nat n"
    and "phexdigit (hex_digits ! n) \<noteq> 0 \<or> hex_digits ! n = CHR ''0''"
    and "\<not> isspace (hex_digits ! n)"
    and "hex_digits ! n \<noteq> CHR ''x''" "hex_digits ! n \<noteq> CHR ''X''" "hex_digits ! n \<noteq> CHR ''-''"
    by (auto simp: list_all_iff)
qed

lemma byte_nibbles: "(of_nat (unat b mod 16) OR push_bit 4 (of_nat (unat b div 16)) :: byte) = b"
proof -
  have "of_nat (unat b mod 16) = take_bit 4 b"
    by (simp add: word_unat_eq_iff unat_of_nat take_bit_eq_mod unat_mod_distrib)
  moreover have "of_nat (unat b div 16) = drop_bit 4 b"
    using unat_less_2p [of b]
    by (simp add: word_unat_eq_iff unat_of_nat drop_bit_eq_div unat_div_distrib)
  moreover have "take_bit 4 b OR push_bit 4 (drop_bit 4 b) = b"
    using bits_ident [of 4 b]
    by (subst disjunctive_add [symmetric]) (auto simp: bit_take_bit_iff bit_push_bit_iff add.commute)
  ultimately show ?thesis by simp
qed

definition is_hex :: "char \<Rightarrow> bool" where
  "is_hex c = (\<exists>n<16. c = hex_digits ! n)"

lemma hex_byte_is_hex: "c \<in> set (hex_byte b) \<Longrightarrow> is_hex c"
proof -
  have "unat b div 16 < 16" "unat b mod 16 < 16" using unat_less_2p [of b] by simp_all
  then have "is_hex (hex_digits ! (unat b div 16))" "is_hex (hex_digits ! (unat b mod 16))"
    unfolding is_hex_def by blast+
  then show "c \<in> set (hex_byte b) \<Longrightarrow> is_hex c" by (auto simp: hex_byte_def)
qed

lemma hex_fill_hex_bytes:
  "hex_fill (length bs) (map phexdigit (concat (map (\<lambda>b. rev (hex_byte b)) bs))) = bs"
proof (induction bs)
  case (Cons b bs)
  have "unat b div 16 < 16" using unat_less_2p [of b] by simp
  then have "phexdigit (hex_digits ! (unat b div 16)) = of_nat (unat b div 16)"
    and "phexdigit (hex_digits ! (unat b mod 16)) = of_nat (unat b mod 16)"
    by (simp_all add: hex_digit_facts(1))
  with Cons show ?case by (simp add: hex_byte_def byte_nibbles)
qed simp

lemma is_hex_facts:
  assumes "is_hex c"
  shows "phexdigit c = 0 \<longrightarrow> c = CHR ''0''" "\<not> isspace c" "c \<noteq> CHR ''x''" "c \<noteq> CHR ''X''" "c \<noteq> CHR ''-''"
  using assms hex_digit_facts by (auto simp: is_hex_def)

lemma hex_scan_start:
  assumes "\<forall>c \<in> set str. is_hex c"
  shows "dropWhile isspace str = str" and "skip_0x str = str"
    and "(case str of [] \<Rightarrow> False | c # _ \<Rightarrow> c = CHR ''-'') = False"
proof -
  show "dropWhile isspace str = str"
    using assms is_hex_facts(2) by (cases str) auto
  show "skip_0x str = str"
  proof (cases str rule: remdups_adj.cases)
    case (3 c d r)
    then have "d \<noteq> CHR ''x''" "d \<noteq> CHR ''X''" using assms is_hex_facts(3,4) [of d] by simp_all
    with 3 show ?thesis by (simp add: skip_0x_def)
  qed (simp_all add: skip_0x_def)
  show "(case str of [] \<Rightarrow> False | c # _ \<Rightarrow> c = CHR ''-'') = False"
    using assms is_hex_facts(5) by (cases str) auto
qed

lemma hex_text_scan:
  assumes "\<forall>c \<in> set str. is_hex c"
  shows "takeWhile (\<lambda>c. phexdigit c = 0 \<longrightarrow> c = CHR ''0'') (skip_0x (dropWhile isspace str)) = str"
proof -
  have "takeWhile (\<lambda>c. phexdigit c = 0 \<longrightarrow> c = CHR ''0'') str = str"
    using assms is_hex_facts(1) by (auto simp: takeWhile_eq_all_conv)
  then show ?thesis by (simp add: hex_scan_start [OF assms])
qed

lemma SetHex_GetHex_eq: "SetHex (length pn) (GetHex pn 0) = pn"
proof -
  let ?str = "concat (map hex_byte (rev (limbs_bytes pn)))"
  have "\<forall>c \<in> set ?str. is_hex c" by (auto intro: hex_byte_is_hex)
  moreover have "rev ?str = concat (map (\<lambda>b. rev (hex_byte b)) (limbs_bytes pn))"
    by (simp add: rev_concat rev_map comp_def)
  ultimately show ?thesis
    using hex_fill_hex_bytes [of "limbs_bytes pn"]
    by (simp add: SetHex_def GetHex_def hex_text_scan bytes_limbs_bytes mult.commute del: set_concat)
qed

section \<open>Properties\<close>

text \<open>
  The carry loops of \<^verbatim>\<open>base_uint\<close> compute addition and subtraction modulo \<open>2 ^ BITS\<close>, with
  \<open>BITS = 32 * WIDTH\<close>: neither the 64-bit carry nor the two's complement of the subtrahend loses
  anything, and adding a 64-bit integer adds its value.
\<close>

theorem base_uint_add_sub:
  assumes "length a = length b" and "2 \<le> length a"
  shows "val (op_add a b) = (val a + val b) mod 2 ^ (32 * length a) \<and>
    int (val (op_sub a b)) = (int (val a) - int (val b)) mod 2 ^ (32 * length a) \<and>
    val (op_add64 a n) = (val a + unat n) mod 2 ^ (32 * length a) \<and>
    op_add (op_sub a b) b = a"
proof (intro conjI)
  show "val (op_add a b) = (val a + val b) mod 2 ^ (32 * length a)"
    using assms by (simp add: val_op_add)
  show *: "int (val (op_sub a b)) = (int (val a) - int (val b)) mod 2 ^ (32 * length a)"
    using assms by (simp add: val_op_sub)
  show "val (op_add64 a n) = (val a + unat n) mod 2 ^ (32 * length a)"
    using assms by (simp add: op_add64_def val_op_add val_op_assign64)
  have len: "length (op_sub a b) = length a"
    using assms by (simp add: op_sub_def op_add_def)
  have "int (val (op_add (op_sub a b) b)) = (int (val (op_sub a b)) + int (val b)) mod 2 ^ (32 * length a)"
    using assms len by (simp add: val_op_add of_nat_mod)
  also have "\<dots> = int (val a) mod 2 ^ (32 * length a)"
    by (simp only: * mod_add_left_eq) simp
  also have "\<dots> = int (val a)"
    using val_less [of a] by (metis of_nat_mod mod_less of_nat_numeral of_nat_power)
  finally show "op_add (op_sub a b) b = a"
    using assms len by (intro val_inj) (simp_all add: op_add_def)
qed

theorem base_uint_add_sub_witness:
  "val (op_add [0xffffffff, 1] [1, 2]) = 0x400000000 \<and>
   op_add (op_sub [0, 1] [5, 7]) [5, 7] = [0, 1]"
  using base_uint_add_sub [of "[0xffffffff, 1]" "[1, 2]" 0] base_uint_add_sub [of "[0, 1]" "[5, 7]" 0]
  by simp

text \<open>
  The two shift loops of \<^verbatim>\<open>base_uint\<close>, which spread every limb over two limbs of the result,
  multiply and divide by the power of two: bits shifted out are lost, and every shift amount is
  handled, also multiples of 32 and amounts above the width.
\<close>

theorem base_uint_shift:
  "val (op_shl a sh) = (val a * 2 ^ sh) mod 2 ^ (32 * length a) \<and> val (op_shr a sh) = val a div 2 ^ sh"
  by (simp add: val_op_shl val_op_shr mult.commute)

text \<open>
  The comparison loops of \<^verbatim>\<open>base_uint\<close> decide the order of the numbers, and equality of limbs
  is equality of numbers.
\<close>

theorem base_uint_order:
  assumes "length a = length b"
  shows "(op_lt a b \<longleftrightarrow> val a < val b) \<and> (op_le a b \<longleftrightarrow> val a \<le> val b) \<and>
    (op_gt a b \<longleftrightarrow> val b < val a) \<and> (op_ge a b \<longleftrightarrow> val b \<le> val a) \<and>
    (op_eq a b \<longleftrightarrow> val a = val b)"
proof -
  have "lt_loop a b (length a) \<longleftrightarrow> val a < val b" and "lt_loop b a (length a) \<longleftrightarrow> val b < val a"
    using lt_loop_val [OF order_refl assms] lt_loop_val [OF order_refl assms [symmetric]]
    by (simp_all add: assms)
  then show ?thesis using assms
    by (simp add: op_lt_def op_le_def op_gt_def op_ge_def le_loop_iff gt_loop_iff ge_loop_iff
        op_eq_val not_less)
qed

theorem base_uint_order_witness:
  "op_lt [7, 1] [3, 2] \<and> \<not> op_ge [7, 1] [3, 2]"
  using base_uint_order [of "[7, 1]" "[3, 2]"] by simp

text \<open>
  \<^verbatim>\<open>SetHex\<close> reads back what \<^verbatim>\<open>GetHex\<close> prints, for every value of every width.
\<close>

theorem SetHex_GetHex: "SetHex (length pn) (GetHex pn 0) = pn"
  by (rule SetHex_GetHex_eq)

end
