(* ===== verification/Bignum.thy ===== *)
theory Bignum
  imports Uint256
begin

text \<open>
  \<^verbatim>\<open>CBigNum\<close> of \<^verbatim>\<open>src/src/bignum.h\<close>. A \<^verbatim>\<open>BIGNUM\<close> is the integer it stands for, so
  \<^verbatim>\<open>BN_add\<close>, \<^verbatim>\<open>BN_mul\<close>, \<^verbatim>\<open>BN_cmp\<close> and their like are the operations on \<open>int\<close>.
  The two functions of OpenSSL that expose the representation, \<^verbatim>\<open>BN_mpi2bn\<close> and
  \<^verbatim>\<open>BN_bn2mpi\<close>, are parameters (the record \<open>bignum_lib\<close>); \<open>mpi_format\<close> states the MPI format
  their manual page documents: a 4-byte big-endian length, then the magnitude in big-endian order
  with the sign in the top bit of the first byte, without superfluous leading zeros.
\<close>

record bignum_lib =
  BN_mpi2bn :: "bytes \<Rightarrow> int"
  BN_bn2mpi :: "int \<Rightarrow> bytes"

section \<open>The MPI format\<close>

definition be_val :: "bytes \<Rightarrow> nat" where
  "be_val bs = le_val (rev bs)"

text \<open>\<^verbatim>\<open>pch[0] = (nSize >> 24) & 0xff\<close> and the three lines after it.\<close>

definition be32 :: "uint32 \<Rightarrow> bytes" where
  "be32 n = [ucast (drop_bit 24 n AND 0xff), ucast (drop_bit 16 n AND 0xff),
             ucast (drop_bit 8 n AND 0xff), ucast (n AND 0xff)]"

fun mpi_val :: "bytes \<Rightarrow> int" where
  "mpi_val [] = 0"
| "mpi_val (b # bs) =
     (let m = int (be_val ((b AND 0x7f) # bs)) in if b AND 0x80 \<noteq> 0 then - m else m)"

fun mpi_minimal :: "bytes \<Rightarrow> bool" where
  "mpi_minimal [] = True"
| "mpi_minimal [b] = (b AND 0x7f \<noteq> 0)"
| "mpi_minimal (b # c # bs) = (b AND 0x7f \<noteq> 0 \<or> c AND 0x80 \<noteq> 0)"

definition mpi_format :: "'a bignum_lib_scheme \<Rightarrow> bool" where
  "mpi_format lib =
     ((\<forall>body. length body < 2 ^ 32 \<longrightarrow>
         BN_mpi2bn lib (be32 (of_nat (length body)) @ body) = mpi_val body) \<and>
      (\<forall>v. \<exists>body. BN_bn2mpi lib v = be32 (of_nat (length body)) @ body \<and>
         mpi_val body = v \<and> mpi_minimal body))"

section \<open>Conversions\<close>

text \<open>\<^verbatim>\<open>BN_get_word\<close>: the magnitude, all ones when it does not fit in 64 bits.\<close>

definition BN_get_word :: "int \<Rightarrow> nat" where
  "BN_get_word v = (if \<bar>v\<bar> < 2 ^ 64 then nat \<bar>v\<bar> else 2 ^ 64 - 1)"

definition getint :: "int \<Rightarrow> int" where
  "getint v =
     (let n = BN_get_word v in
      if \<not> v < 0 then (if n > 2 ^ 31 - 1 then 2 ^ 31 - 1 else int n)
      else (if n > 2 ^ 31 - 1 then - (2 ^ 31) else - int n))"

text \<open>
  The loop of \<^verbatim>\<open>setint64\<close> with \<open>k\<close> iterations left: the bytes it appends at \<^verbatim>\<open>p\<close>.
\<close>

fun setint64_loop :: "nat \<Rightarrow> int64 \<Rightarrow> bool \<Rightarrow> bool \<Rightarrow> bytes" where
  "setint64_loop 0 n fNegative fLeadingZeroes = []"
| "setint64_loop (Suc k) n fNegative fLeadingZeroes =
     (let c = ucast (signed_drop_bit 56 n AND 0xff) :: byte;
          n' = push_bit 8 n
      in if fLeadingZeroes then
           (if c = 0 then setint64_loop k n' fNegative True
            else if c AND 0x80 \<noteq> 0 then
              (if fNegative then 0x80 else 0) # c # setint64_loop k n' fNegative False
            else if fNegative then (c OR 0x80) # setint64_loop k n' fNegative False
            else c # setint64_loop k n' fNegative False)
         else c # setint64_loop k n' fNegative False)"

definition setint64 :: "'a bignum_lib_scheme \<Rightarrow> int64 \<Rightarrow> int" where
  "setint64 lib n =
     (let fNegative = n <s 0;
          n' = (if fNegative then - n else n);
          body = setint64_loop 8 n' fNegative True
      in BN_mpi2bn lib (be32 (of_nat (length body)) @ body))"

fun setuint64_loop :: "nat \<Rightarrow> uint64 \<Rightarrow> bool \<Rightarrow> bytes" where
  "setuint64_loop 0 n fLeadingZeroes = []"
| "setuint64_loop (Suc k) n fLeadingZeroes =
     (let c = ucast (drop_bit 56 n AND 0xff) :: byte;
          n' = push_bit 8 n
      in if fLeadingZeroes then
           (if c = 0 then setuint64_loop k n' True
            else if c AND 0x80 \<noteq> 0 then 0 # c # setuint64_loop k n' False
            else c # setuint64_loop k n' False)
         else c # setuint64_loop k n' False)"

definition setuint64 :: "'a bignum_lib_scheme \<Rightarrow> uint64 \<Rightarrow> int" where
  "setuint64 lib n =
     (let body = setuint64_loop 8 n True
      in BN_mpi2bn lib (be32 (of_nat (length body)) @ body))"

text \<open>The value bytes of an MPI string, least significant first and without the sign bit.\<close>

definition mpi_magnitude :: "bytes \<Rightarrow> bytes" where
  "mpi_magnitude vch =
     (let vch' = (if length vch > 4 then vch[4 := vch ! 4 AND 0x7f] else vch)
      in rev (drop 4 vch'))"

definition getuint64 :: "'a bignum_lib_scheme \<Rightarrow> int \<Rightarrow> uint64" where
  "getuint64 lib v =
     (let vch = BN_bn2mpi lib v
      in if length vch < 4 then 0 else bytes_word (take 8 (mpi_magnitude vch)))"

text \<open>The loop of \<^verbatim>\<open>setuint256\<close>, over the memory image of \<open>n\<close> from its last byte.\<close>

fun setuint256_loop :: "bytes \<Rightarrow> bool \<Rightarrow> bytes" where
  "setuint256_loop [] fLeadingZeroes = []"
| "setuint256_loop (c # cs) fLeadingZeroes =
     (if fLeadingZeroes then
        (if c = 0 then setuint256_loop cs True
         else if c AND 0x80 \<noteq> 0 then 0 # c # setuint256_loop cs False
         else c # setuint256_loop cs False)
      else c # setuint256_loop cs False)"

definition setuint256 :: "'a bignum_lib_scheme \<Rightarrow> uint256 \<Rightarrow> int" where
  "setuint256 lib n =
     (let body = setuint256_loop (rev (word_bytes 32 n)) True
      in BN_mpi2bn lib (be32 (of_nat (length body)) @ body))"

definition getuint256 :: "'a bignum_lib_scheme \<Rightarrow> int \<Rightarrow> uint256" where
  "getuint256 lib v =
     (let vch = BN_bn2mpi lib v
      in if length vch < 4 then 0 else bytes_word (take 32 (mpi_magnitude vch)))"

definition setvch :: "'a bignum_lib_scheme \<Rightarrow> bytes \<Rightarrow> int" where
  "setvch lib vch = BN_mpi2bn lib (be32 (of_nat (length vch)) @ rev vch)"

definition getvch :: "'a bignum_lib_scheme \<Rightarrow> int \<Rightarrow> bytes" where
  "getvch lib v =
     (let vch = BN_bn2mpi lib v in if length vch \<le> 4 then [] else rev (drop 4 vch))"

definition SetCompact :: "'a bignum_lib_scheme \<Rightarrow> uint32 \<Rightarrow> int" where
  "SetCompact lib nCompact =
     (let nSize = unat (drop_bit 24 nCompact);
          vch = replicate (4 + nSize) (0 :: byte);
          vch = vch[3 := of_nat nSize];
          vch = (if nSize \<ge> 1 then vch[4 := ucast (drop_bit 16 nCompact AND 0xff)] else vch);
          vch = (if nSize \<ge> 2 then vch[5 := ucast (drop_bit 8 nCompact AND 0xff)] else vch);
          vch = (if nSize \<ge> 3 then vch[6 := ucast (nCompact AND 0xff)] else vch)
      in BN_mpi2bn lib vch)"

definition GetCompact :: "'a bignum_lib_scheme \<Rightarrow> int \<Rightarrow> uint32" where
  "GetCompact lib v =
     (let vch = BN_bn2mpi lib v;
          nSize = length vch - 4;
          nCompact = push_bit 24 (of_nat nSize);
          nCompact = (if nSize \<ge> 1 then nCompact OR push_bit 16 (ucast (vch ! 4)) else nCompact);
          nCompact = (if nSize \<ge> 2 then nCompact OR push_bit 8 (ucast (vch ! 5)) else nCompact);
          nCompact = (if nSize \<ge> 3 then nCompact OR ucast (vch ! 6) else nCompact)
      in nCompact)"

text \<open>\<^verbatim>\<open>operator<<=\<close> and \<^verbatim>\<open>operator>>=\<close>; the latter answers 0 below \<open>2 ^ shift\<close>, negative numbers included.\<close>

definition bn_shl :: "int \<Rightarrow> nat \<Rightarrow> int" where
  "bn_shl v shift = v * 2 ^ shift"

definition bn_shr :: "int \<Rightarrow> nat \<Rightarrow> int" where
  "bn_shr v shift = (if 2 ^ shift > v then 0 else v div 2 ^ shift)"

text \<open>\<^verbatim>\<open>BN_div\<close> and \<^verbatim>\<open>BN_mod\<close> truncate towards zero, as C's operators do.\<close>

definition bn_div :: "int \<Rightarrow> int \<Rightarrow> int" where
  "bn_div a b = sgn a * sgn b * (\<bar>a\<bar> div \<bar>b\<bar>)"

definition bn_mod :: "int \<Rightarrow> int \<Rightarrow> int" where
  "bn_mod a b = sgn a * (\<bar>a\<bar> mod \<bar>b\<bar>)"

section \<open>Text\<close>

text \<open>\<^verbatim>\<open>isxdigit\<close>, and the scanning loop of \<^verbatim>\<open>CBigNum::SetHex\<close>.\<close>

definition isxdigit :: "char \<Rightarrow> bool" where
  "isxdigit c =
     (let n = of_char c :: nat in (48 \<le> n \<and> n \<le> 57) \<or> (65 \<le> n \<and> n \<le> 70) \<or> (97 \<le> n \<and> n \<le> 102))"

fun bn_hex_loop :: "int \<Rightarrow> string \<Rightarrow> int" where
  "bn_hex_loop bn [] = bn"
| "bn_hex_loop bn (c # psz) =
     (if isxdigit c then bn_hex_loop (bn_shl bn 4 + uint (phexdigit c)) psz else bn)"

definition bn_SetHex :: "string \<Rightarrow> int" where
  "bn_SetHex str =
     (let psz = dropWhile isspace str;
          fNegative = (case psz of c # _ \<Rightarrow> c = CHR ''-'' | [] \<Rightarrow> False);
          psz = (if fNegative then tl psz else psz);
          psz = dropWhile isspace (skip_0x psz);
          bn = bn_hex_loop 0 psz
      in if fNegative then 0 - bn else bn)"

function digits_loop :: "nat \<Rightarrow> nat \<Rightarrow> string" where
  "digits_loop nBase bn =
     (if bn > 0 \<and> nBase > 1 then hex_digits ! (bn mod nBase) # digits_loop nBase (bn div nBase) else [])"
  by pat_completeness auto
termination
  by (relation "measure (\<lambda>(nBase, bn). bn)") auto

declare digits_loop.simps [simp del]

definition bn_ToString :: "nat \<Rightarrow> nat \<Rightarrow> int \<Rightarrow> string" where
  "bn_ToString nBase nPadding v =
     (if v = 0 then ''0''
      else let str = digits_loop nBase (nat \<bar>v\<bar>);
               str = str @ replicate (nPadding - length str) (CHR ''0'');
               str = (if v < 0 then str @ ''-'' else str)
           in rev str)"

definition bn_GetHex :: "nat \<Rightarrow> int \<Rightarrow> string" where
  "bn_GetHex nPadding v = bn_ToString 16 nPadding v"

section \<open>Values of byte strings\<close>

lemma be_val_Nil [simp]: "be_val [] = 0"
  by (simp add: be_val_def)

lemma be_val_Cons: "be_val (b # bs) = unat b * 256 ^ length bs + be_val bs"
  by (simp add: be_val_def le_val_append)

lemma be_val_0_Cons [simp]: "be_val (0 # bs) = be_val bs"
  by (simp add: be_val_Cons)

lemma be_val_less: "be_val bs < 256 ^ length bs"
  using le_val_less [of "rev bs"] by (simp add: be_val_def)

text \<open>The sign bit of a byte and its other seven bits.\<close>

lemma byte_sign_iff: "b AND 0x80 = 0 \<longleftrightarrow> \<not> bit b 7" for b :: byte
  using and_exp_eq_0_iff_not_bit [of b 7] by simp

lemma byte_low7: "b AND 0x7f = take_bit 7 b" for b :: byte
  by (simp add: take_bit_eq_mask mask_eq_exp_minus_1)

lemma byte_sign_bit: "(0x80 :: byte) = 2 ^ 7"
  by simp

lemma byte_bit_less: "bit (b :: byte) i \<Longrightarrow> i \<noteq> 7 \<Longrightarrow> i < 7"
  using bit_imp_le_length [of b i] by simp

lemma byte_sign_clear: "b AND 0x80 = 0 \<longrightarrow> (b OR 0x80) AND 0x7f = b \<and> b AND 0x7f = b" for b :: byte
proof
  assume "b AND 0x80 = 0"
  then have b: "\<not> bit b 7" unfolding byte_sign_iff .
  then have low: "i < 7" if "bit b i" for i using that byte_bit_less by blast
  have "take_bit 7 (b OR 2 ^ 7) = b" "take_bit 7 b = b"
    by (rule bit_eqI; use low in \<open>auto simp only: bit_take_bit_iff bit_or_iff bit_exp_iff\<close>)+
  then show "(b OR 0x80) AND 0x7f = b \<and> b AND 0x7f = b" by (simp only: byte_low7 byte_sign_bit)
qed

lemma byte_sign_set: "(b OR 0x80) AND 0x80 \<noteq> 0" for b :: byte
proof -
  have "bit (b OR 2 ^ 7) 7" unfolding bit_or_iff bit_exp_iff by simp
  then show ?thesis using and_exp_eq_0_iff_not_bit [of "b OR 2 ^ 7" 7] unfolding byte_sign_bit by blast
qed

lemma byte_sign_nonzero: "b \<noteq> 0 \<longrightarrow> b AND 0x80 = 0 \<longrightarrow> (b OR 0x80) AND 0x7f \<noteq> 0 \<and> b AND 0x7f \<noteq> 0" for b :: byte
  using byte_sign_clear [of b] by auto

lemma byte_sign_unat: "unat (b AND 0x7f) < 128" for b :: byte
  by (simp add: byte_low7 take_bit_eq_mod unat_mod_distrib)

lemma byte_sign_large: "b AND 0x80 \<noteq> 0 \<Longrightarrow> 128 \<le> unat b" for b :: byte
proof -
  assume "b AND 0x80 \<noteq> 0"
  then have "bit b 7" unfolding byte_sign_iff by blast
  then have "bit (unat b) 7" by (simp add: bit_unsigned_iff)
  then have "odd (unat b div 2 ^ 7)" unfolding bit_iff_odd .
  then have "unat b div 2 ^ 7 \<noteq> 0" by (metis even_zero)
  then show ?thesis by (simp add: div_eq_0_iff)
qed

text \<open>
  What the three loops that strip leading zeros have in common: the bytes of a magnitude, most
  significant first, become the body of an MPI string.
\<close>

fun mpi_strip :: "bool \<Rightarrow> bool \<Rightarrow> bytes \<Rightarrow> bytes" where
  "mpi_strip fNegative fLeadingZeroes [] = []"
| "mpi_strip fNegative fLeadingZeroes (c # cs) =
     (if fLeadingZeroes then
        (if c = 0 then mpi_strip fNegative True cs
         else if c AND 0x80 \<noteq> 0 then (if fNegative then 0x80 else 0) # c # mpi_strip fNegative False cs
         else (if fNegative then c OR 0x80 else c) # mpi_strip fNegative False cs)
      else c # mpi_strip fNegative False cs)"

lemma mpi_strip_False [simp]: "mpi_strip neg False bs = bs"
  by (induction bs) auto

lemma length_mpi_strip: "length (mpi_strip neg fl bs) \<le> Suc (length bs)"
  by (induction neg fl bs rule: mpi_strip.induct) auto

lemma mpi_val_strip:
  "mpi_val (mpi_strip neg True bs) = (if neg then - int (be_val bs) else int (be_val bs))"
proof (induction bs)
  case (Cons c cs)
  show ?case
  proof (cases "c = 0")
    case True
    with Cons show ?thesis by simp
  next
    case False
    then show ?thesis
      by (simp add: Let_def byte_sign_clear byte_sign_set del: word_not_simps)
  qed
qed simp

lemma mpi_minimal_strip: "mpi_minimal (mpi_strip neg True bs)"
proof (induction bs)
  case (Cons c cs)
  show ?case
  proof (cases "c = 0")
    case False
    then show ?thesis
      by (cases cs) (auto simp: byte_sign_nonzero)
  qed (use Cons in simp)
qed simp

lemma setuint256_loop_eq: "setuint256_loop bs fl = mpi_strip False fl bs"
  by (induction bs fl rule: setuint256_loop.induct) auto

fun top_bytes :: "nat \<Rightarrow> 64 word \<Rightarrow> bytes" where
  "top_bytes 0 n = []"
| "top_bytes (Suc k) n = ucast (drop_bit 56 n) # top_bytes k (push_bit 8 n)"

lemma length_top_bytes [simp]: "length (top_bytes k n) = k"
  by (induction k n rule: top_bytes.induct) auto

lemma top_byte:
  fixes n :: "64 word"
  shows "(ucast (signed_drop_bit 56 n AND 0xff) :: byte) = ucast (drop_bit 56 n)"
    and "(ucast (drop_bit 56 n AND 0xff) :: byte) = ucast (drop_bit 56 n)"
proof -
  have ff: "(0xff :: 64 word) = mask 8" by (simp add: mask_eq_exp_minus_1)
  show "(ucast (signed_drop_bit 56 n AND 0xff) :: byte) = ucast (drop_bit 56 n)"
    unfolding ff
    by (rule bit_eqI) (auto simp: bit_ucast_iff bit_and_iff bit_mask_iff bit_signed_drop_bit_iff bit_drop_bit_eq)
  show "(ucast (drop_bit 56 n AND 0xff) :: byte) = ucast (drop_bit 56 n)"
    unfolding ff
    by (rule bit_eqI) (auto simp: bit_ucast_iff bit_and_iff bit_mask_iff bit_drop_bit_eq)
qed

lemma setint64_loop_eq: "setint64_loop k n neg fl = mpi_strip neg fl (top_bytes k n)"
  by (induction k n neg fl rule: setint64_loop.induct) (simp add: top_byte Let_def)+

lemma setuint64_loop_eq: "setuint64_loop k n fl = mpi_strip False fl (top_bytes k n)"
  by (induction k n fl rule: setuint64_loop.induct) (simp add: top_byte Let_def)+

lemma top_bytes_arith:
  fixes u e k :: nat
  assumes "8 * k \<le> 56"
  shows "u div 2 ^ 56 * 256 ^ k + (u * 256) mod 2 ^ 64 div 2 ^ (64 - 8 * k) = u div 2 ^ (56 - 8 * k)"
proof -
  define e where "e = 56 - 8 * k"
  define q where "q = u div 2 ^ 56"
  define r where "r = u mod 2 ^ 56"
  have u: "u = q * 2 ^ 56 + r" unfolding q_def r_def by simp
  have "2 ^ 64 = 2 ^ 56 * (256 :: nat)" by simp
  then have "(u * 256) mod 2 ^ 64 = r * 256" unfolding r_def by (metis mult_mod_left)
  moreover have "64 - 8 * k = e + 8" using assms by (simp add: e_def)
  then have "(2 :: nat) ^ (64 - 8 * k) = 2 ^ e * 256" by (simp add: power_add)
  ultimately have lo: "(u * 256) mod 2 ^ 64 div 2 ^ (64 - 8 * k) = r div 2 ^ e" by simp
  have "(2 :: nat) ^ 56 = 256 ^ k * 2 ^ e"
  proof -
    have "(256 :: nat) ^ k = 2 ^ (8 * k)" by (simp add: power_mult)
    moreover have "56 = 8 * k + e" using assms by (simp add: e_def)
    ultimately show ?thesis by (metis power_add)
  qed
  then have "u = (q * 256 ^ k) * 2 ^ e + r" using u by simp
  then have "u div 2 ^ e = q * 256 ^ k + r div 2 ^ e" by simp
  then show ?thesis using lo by (simp add: q_def e_def)
qed

lemma unat_push_bit_8: "unat (push_bit 8 n) = (unat n * 256) mod 2 ^ 64" for n :: "64 word"
  by (simp add: push_bit_eq_mult unat_word_ariths)

lemma be_val_top_bytes: "k \<le> 8 \<Longrightarrow> be_val (top_bytes k n) = unat n div 2 ^ (64 - 8 * k)"
proof (induction k arbitrary: n)
  case 0
  then show ?case using unat_less_2p [of n] by simp
next
  case (Suc k)
  have d: "unat (drop_bit 56 n) = unat n div 2 ^ 56"
    by (simp add: drop_bit_eq_div unat_div_distrib)
  moreover have "unat n div 2 ^ 56 < 2 ^ 8" using unat_less_2p [of n] by (simp add: div_less_iff_less_mult)
  ultimately have "unat (ucast (drop_bit 56 n) :: byte) = unat n div 2 ^ 56"
    by (simp add: unat_ucast_small)
  then have "be_val (top_bytes (Suc k) n) =
      unat n div 2 ^ 56 * 256 ^ k + (unat n * 256) mod 2 ^ 64 div 2 ^ (64 - 8 * k)"
    using Suc by (simp add: be_val_Cons unat_push_bit_8)
  also have "\<dots> = unat n div 2 ^ (56 - 8 * k)" by (rule top_bytes_arith) (use Suc.prems in simp)
  finally show ?case by simp
qed

lemma be_val_top_bytes_8: "be_val (top_bytes 8 n) = unat n"
  using be_val_top_bytes [of 8 n] by simp

lemma mpi2bn_body:
  "mpi_format lib \<Longrightarrow> length body < 2 ^ 32 \<Longrightarrow> BN_mpi2bn lib (be32 (of_nat (length body)) @ body) = mpi_val body"
  by (simp add: mpi_format_def)

lemma bn2mpi_body:
  assumes "mpi_format lib"
  obtains body where "BN_bn2mpi lib v = be32 (of_nat (length body)) @ body"
    "mpi_val body = v" "mpi_minimal body"
  using assms unfolding mpi_format_def by blast

lemma length_be32 [simp]: "length (be32 n) = 4"
  by (simp add: be32_def)

lemma mpi2bn_strip:
  assumes "mpi_format lib" and "length bs < 100"
  shows "BN_mpi2bn lib (be32 (of_nat (length (mpi_strip neg True bs))) @ mpi_strip neg True bs) =
    (if neg then - int (be_val bs) else int (be_val bs))"
proof -
  have "length (mpi_strip neg True bs) < 2 ^ 32"
    using assms(2) length_mpi_strip [of neg True bs] by simp
  then show ?thesis by (simp only: mpi2bn_body [OF assms(1)] mpi_val_strip)
qed

lemma setint64_sint:
  assumes "mpi_format lib"
  shows "setint64 lib n = sint n"
proof (cases "n <s 0")
  case True
  then have neg: "sint n < 0" by (simp add: word_sless_alt)
  then have n0: "n \<noteq> 0" by auto
  have "sint n = int (unat n) - 2 ^ 64"
    using sint_negative [OF neg] by simp
  moreover have "unat (- n) = 2 ^ 64 - unat n" using unat_neg_word [OF n0] by simp
  moreover have "unat n < 2 ^ 64" using unat_less_2p [of n] by simp
  ultimately have "- int (unat (- n)) = sint n" by (simp add: of_nat_diff)
  with True show ?thesis
    by (simp add: setint64_def setint64_loop_eq mpi2bn_strip [OF assms] be_val_top_bytes_8 Let_def)
next
  case False
  then have "0 \<le> sint n" by (simp add: word_sless_alt)
  then have "sint n = int (unat n)" by (rule sint_nonnegative)
  with False show ?thesis
    by (simp add: setint64_def setint64_loop_eq mpi2bn_strip [OF assms] be_val_top_bytes_8 Let_def)
qed

lemma setuint64_uint:
  assumes "mpi_format lib"
  shows "setuint64 lib n = uint n"
  by (simp add: setuint64_def setuint64_loop_eq mpi2bn_strip [OF assms] be_val_top_bytes_8 Let_def)

lemma setuint256_uint:
  assumes "mpi_format lib"
  shows "setuint256 lib n = uint n"
proof -
  have "unat n < 256 ^ 32" using unat_less_2p [of n] by simp
  then have "be_val (rev (word_bytes 32 n)) = unat n"
    by (simp add: be_val_def word_bytes_def le_val_le_bytes)
  then show ?thesis
    by (simp add: setuint256_def setuint256_loop_eq mpi2bn_strip [OF assms] Let_def)
qed

lemma setvch_mpi_val:
  "mpi_format lib \<Longrightarrow> length vch < 2 ^ 32 \<Longrightarrow> setvch lib vch = mpi_val (rev vch)"
  using mpi2bn_body [of lib "rev vch"] by (simp add: setvch_def)

lemma getvch_body:
  assumes "mpi_format lib"
  obtains body where "getvch lib v = rev body" "mpi_val body = v" "mpi_minimal body"
    "BN_bn2mpi lib v = be32 (of_nat (length body)) @ body"
proof -
  obtain body where b: "BN_bn2mpi lib v = be32 (of_nat (length body)) @ body"
    "mpi_val body = v" "mpi_minimal body"
    by (rule bn2mpi_body [OF assms])
  moreover have "getvch lib v = rev body" using b(1) by (auto simp: getvch_def Let_def)
  ultimately show ?thesis using that by blast
qed

lemma setvch_getvch_eq:
  assumes "mpi_format lib" and "length (getvch lib v) < 2 ^ 32"
  shows "setvch lib (getvch lib v) = v"
proof -
  obtain body where "getvch lib v = rev body" "mpi_val body = v"
    by (rule getvch_body [OF assms(1)])
  then show ?thesis using assms by (simp add: setvch_mpi_val)
qed

lemma abs_mpi_val_Cons: "\<bar>mpi_val (b # bs)\<bar> = int (be_val ((b AND 0x7f) # bs))"
  by (simp add: Let_def)

lemma scale_lower: "128 \<le> u \<Longrightarrow> 256 * P \<le> 2 * (u * P + v)" for u v P :: nat
proof -
  assume "128 \<le> u"
  then have "128 * P \<le> u * P" by (rule mult_le_mono1)
  then show ?thesis unfolding distrib_left by arith
qed

lemma scale_upper: "u \<le> 127 \<Longrightarrow> v < P \<Longrightarrow> 2 * (u * P + v) < 256 * P" for u v P :: nat
proof -
  assume "u \<le> 127" and v: "v < P"
  then have "u * P \<le> 127 * P" by (intro mult_le_mono1)
  with v show ?thesis unfolding distrib_left by arith
qed

lemma mpi_minimal_lower:
  assumes "mpi_minimal (b # bs)"
  shows "256 ^ length bs \<le> 2 * be_val ((b AND 0x7f) # bs)"
proof (cases bs)
  case Nil
  have "unat (b AND 0x7f) \<noteq> 0" using assms Nil by (simp add: unat_eq_zero)
  then show ?thesis using Nil by (simp add: be_val_Cons)
next
  case (Cons c cs)
  show ?thesis
  proof (cases "b AND 0x7f = 0")
    case True
    then have "c AND 0x80 \<noteq> 0" using assms Cons by simp
    then have "128 \<le> unat c" by (rule byte_sign_large)
    then have "256 * 256 ^ length cs \<le> 2 * (unat c * 256 ^ length cs + be_val cs)"
      using scale_lower by blast
    then show ?thesis using Cons True by (simp add: be_val_Cons)
  next
    case False
    then have "1 \<le> unat (b AND 0x7f)" by (simp add: unat_eq_zero Suc_leI word_neq_0_conv unat_gt_0)
    then have "1 * 256 ^ length bs \<le> unat (b AND 0x7f) * 256 ^ length bs" by (rule mult_le_mono1)
    then show ?thesis unfolding be_val_Cons distrib_left mult_1 by (rule order_trans) simp
  qed
qed

text \<open>Two minimal bodies of one value are equal.\<close>

lemma be_val_inj: "length xs = length ys \<Longrightarrow> be_val xs = be_val ys \<Longrightarrow> xs = ys"
  using le_val_inj [of "rev xs" "rev ys"] by (simp add: be_val_def)

lemma mpi_upper: "2 * be_val ((b AND 0x7f) # bs) < 256 * 256 ^ length bs"
proof -
  have "unat (b AND 0x7f) \<le> 127" using byte_sign_unat [of b] by simp
  then show ?thesis using be_val_less [of bs] unfolding be_val_Cons by (rule scale_upper)
qed

lemma minimal_length_eq:
  assumes "mpi_minimal (b # bs)" and "mpi_minimal (c # cs)"
    and "be_val ((b AND 0x7f) # bs) = be_val ((c AND 0x7f) # cs)"
  shows "length bs = length cs"
proof -
  have "(256::nat) ^ length bs < 256 ^ Suc (length cs)" "(256::nat) ^ length cs < 256 ^ Suc (length bs)"
    using mpi_minimal_lower [OF assms(1)] mpi_minimal_lower [OF assms(2)]
      mpi_upper [of b bs] mpi_upper [of c cs] assms(3) by simp_all
  then have "length bs < Suc (length cs)" "length cs < Suc (length bs)"
    by (auto dest: power_less_imp_less_exp [rotated] simp del: power_Suc)
  then show ?thesis by simp
qed

lemma byte_split: "b AND 0x7f = c AND 0x7f \<Longrightarrow> (b AND 0x80 = 0) = (c AND 0x80 = 0) \<Longrightarrow> b = c" for b c :: byte
proof -
  assume a: "b AND 0x7f = c AND 0x7f" "(b AND 0x80 = 0) = (c AND 0x80 = 0)"
  have low: "bit b i = bit c i" if "i \<noteq> 7" for i
  proof -
    have "bit (take_bit 7 b) i = bit (take_bit 7 c) i" using a(1) unfolding byte_low7 by simp
    then show ?thesis using that byte_bit_less by (metis bit_take_bit_iff)
  qed
  show "b = c"
    using a(2) low by (intro bit_eqI) (metis byte_sign_iff)
qed

lemma mpi_minimal_pos: "mpi_minimal (b # bs) \<Longrightarrow> mpi_val (b # bs) \<noteq> 0"
  using mpi_minimal_lower [of b bs] abs_mpi_val_Cons [of b bs]
  by (metis abs_0 le_zero_eq mult_0_right of_nat_eq_0_iff power_not_zero zero_neq_numeral)

lemma mpi_minimal_unique:
  assumes "mpi_minimal x" and "mpi_minimal y" and "mpi_val x = mpi_val y"
  shows "x = y"
proof (cases x)
  case Nil
  then show ?thesis using assms mpi_minimal_pos by (cases y) (auto simp del: mpi_val.simps, auto)
next
  case (Cons b bs)
  then obtain c cs where y: "y = c # cs"
    using assms mpi_minimal_pos [of b bs] by (cases y) (auto simp del: mpi_val.simps, auto)
  have v: "be_val ((b AND 0x7f) # bs) = be_val ((c AND 0x7f) # cs)"
    using assms(3) abs_mpi_val_Cons [of b bs] abs_mpi_val_Cons [of c cs]
    by (simp only: Cons y of_nat_eq_iff)
  then have "length bs = length cs" using assms Cons y minimal_length_eq by blast
  then have "(b AND 0x7f) # bs = (c AND 0x7f) # cs" using v by (intro be_val_inj) simp_all
  moreover have "(b AND 0x80 = 0) = (c AND 0x80 = 0)"
    using assms(3) mpi_minimal_pos [of b bs] assms(1) v
    by (auto simp: Cons y Let_def split: if_splits)
  ultimately show ?thesis using byte_split Cons y by blast
qed

text \<open>A byte vector that is the minimal encoding of a number, as \<^verbatim>\<open>getvch\<close> produces it.\<close>

definition minimal_vch :: "bytes \<Rightarrow> bool" where
  "minimal_vch vch = mpi_minimal (rev vch)"

lemma getvch_setvch_eq:
  assumes "mpi_format lib" and "length vch < 2 ^ 32" and "minimal_vch vch"
  shows "getvch lib (setvch lib vch) = vch"
proof -
  obtain body where b: "getvch lib (setvch lib vch) = rev body" "mpi_val body = setvch lib vch" "mpi_minimal body"
    by (rule getvch_body [OF assms(1)])
  then have "body = rev vch"
    using assms by (intro mpi_minimal_unique) (simp_all add: minimal_vch_def setvch_mpi_val)
  then show ?thesis using b by simp
qed

lemma getvch_eqI:
  "mpi_format lib \<Longrightarrow> length vch < 2 ^ 32 \<Longrightarrow> minimal_vch vch \<Longrightarrow> getvch lib (mpi_val (rev vch)) = vch"
  using getvch_setvch_eq [of lib vch] by (simp add: setvch_mpi_val)

lemma getvch_minimal: "mpi_format lib \<Longrightarrow> minimal_vch (getvch lib v)"
  by (rule getvch_body [of lib v]) (simp_all add: minimal_vch_def)

lemma le_val_magnitude:
  assumes "mpi_format lib"
  shows "le_val (mpi_magnitude (BN_bn2mpi lib v)) = nat \<bar>v\<bar>"
proof -
  obtain body where b: "BN_bn2mpi lib v = be32 (of_nat (length body)) @ body" "mpi_val body = v"
    by (rule bn2mpi_body [OF assms])
  show ?thesis
  proof (cases body)
    case Nil
    then show ?thesis using b by (simp add: mpi_magnitude_def be32_def)
  next
    case (Cons c cs)
    have "mpi_magnitude (BN_bn2mpi lib v) = rev ((c AND 0x7f) # cs)"
      using b(1) by (simp add: mpi_magnitude_def Cons be32_def)
    then show ?thesis
      using abs_mpi_val_Cons [of c cs] b(2) by (simp only: Cons be_val_def [symmetric] nat_int)
  qed
qed

lemma bytes_word_take:
  assumes "LENGTH('a) = 8 * n"
  shows "(bytes_word (take n bs) :: 'a::len word) = of_nat (le_val bs)"
proof -
  have "le_val bs = le_val (take n bs @ drop n bs)" by simp
  also have "\<dots> = le_val (take n bs) + 256 ^ length (take n bs) * le_val (drop n bs)"
    by (rule le_val_append)
  finally have eq: "le_val bs = le_val (take n bs) + 256 ^ length (take n bs) * le_val (drop n bs)" .
  show ?thesis
  proof (cases "n \<le> length bs")
    case True
    have "(of_nat (256 ^ n) :: 'a word) = of_nat (2 ^ LENGTH('a))"
      using assms by (simp add: power_mult)
    then have "(of_nat (256 ^ n) :: 'a word) = 0" by simp
    then have "(of_nat (256 ^ n * le_val (drop n bs)) :: 'a word) = 0" by simp
    with True eq show ?thesis by (simp add: bytes_word_def)
  qed (simp add: bytes_word_def)
qed

lemma length_bn2mpi: "mpi_format lib \<Longrightarrow> \<not> length (BN_bn2mpi lib v) < 4"
  by (rule bn2mpi_body [of lib v]) simp_all

lemma getuint256_eq: "mpi_format lib \<Longrightarrow> getuint256 lib v = of_nat (nat \<bar>v\<bar>)"
  by (simp add: getuint256_def Let_def length_bn2mpi bytes_word_take le_val_magnitude)

lemma getuint64_eq: "mpi_format lib \<Longrightarrow> getuint64 lib v = of_nat (nat \<bar>v\<bar>)"
  by (simp add: getuint64_def Let_def length_bn2mpi bytes_word_take le_val_magnitude)

lemma getuint256_setuint256_eq: "mpi_format lib \<Longrightarrow> getuint256 lib (setuint256 lib n) = n"
  by (simp add: getuint256_eq setuint256_uint)

section \<open>An implementation of the MPI format\<close>

text \<open>
  A concrete pair of functions with the documented format, on which the properties that assume it
  are instantiated.
\<close>

fun min_le :: "nat \<Rightarrow> bytes" where
  "min_le n = (if n = 0 then [] else of_nat (n mod 256) # min_le (n div 256))"

declare min_le.simps [simp del]

lemma le_val_min_le: "le_val (min_le n) = n"
proof (induction n rule: min_le.induct)
  case (1 n)
  then show ?case by (subst min_le.simps) (auto simp: unat_of_nat_byte)
qed

definition mpi_body :: "int \<Rightarrow> bytes" where
  "mpi_body v = mpi_strip (v < 0) True (rev (min_le (nat \<bar>v\<bar>)))"

definition mpi_lib :: bignum_lib where
  "mpi_lib = \<lparr> BN_mpi2bn = (\<lambda>mpi. mpi_val (drop 4 mpi)),
               BN_bn2mpi = (\<lambda>v. be32 (of_nat (length (mpi_body v))) @ mpi_body v) \<rparr>"

lemma mpi_val_body: "mpi_val (mpi_body v) = v"
  by (simp add: mpi_body_def mpi_val_strip be_val_def le_val_min_le)

lemma mpi_minimal_body: "mpi_minimal (mpi_body v)"
  by (simp add: mpi_body_def mpi_minimal_strip)

lemma mpi_format_intro:
  assumes "BN_mpi2bn lib = (\<lambda>mpi. mpi_val (drop 4 mpi))"
    and "BN_bn2mpi lib = (\<lambda>v. be32 (of_nat (length (mpi_body v))) @ mpi_body v)"
  shows "mpi_format lib"
  unfolding mpi_format_def assms
proof (intro conjI allI impI)
  show "mpi_val (drop 4 (be32 (of_nat (length body)) @ body)) = mpi_val body" for body
    by simp
  show "\<exists>body. be32 (of_nat (length (mpi_body v))) @ mpi_body v = be32 (of_nat (length body)) @ body \<and>
      mpi_val body = v \<and> mpi_minimal body" for v
    using mpi_val_body mpi_minimal_body by blast
qed

lemma mpi_lib_format: "mpi_format mpi_lib"
  by (rule mpi_format_intro) (simp_all add: mpi_lib_def)

section \<open>The compact form\<close>

text \<open>The four bytes of a packed 32-bit integer.\<close>

definition pack4 :: "byte \<Rightarrow> byte \<Rightarrow> byte \<Rightarrow> byte \<Rightarrow> uint32" where
  "pack4 n a b c = push_bit 24 (ucast n) OR push_bit 16 (ucast a) OR push_bit 8 (ucast b) OR ucast c"

lemma byte_bit_False: "8 \<le> i \<Longrightarrow> \<not> bit (b :: byte) i"
  by (auto dest: bit_imp_le_length)

lemma mask_ff: "(0xff :: uint32) = mask 8"
  by (simp add: mask_eq_exp_minus_1)

lemma pack4_bytes:
  "(ucast (drop_bit 24 (pack4 n a b c)) :: byte) = n"
  "(ucast (drop_bit 16 (pack4 n a b c) AND 0xff) :: byte) = a"
  "(ucast (drop_bit 8 (pack4 n a b c) AND 0xff) :: byte) = b"
  "(ucast (pack4 n a b c AND 0xff) :: byte) = c"
  unfolding pack4_def mask_ff
  by (rule bit_eqI; auto simp: bit_ucast_iff bit_and_iff bit_or_iff bit_mask_iff bit_push_bit_iff
      bit_drop_bit_eq byte_bit_False)+

lemma unat_pack4: "unat (drop_bit 24 (pack4 n a b c)) = unat n"
proof -
  have "drop_bit 24 (pack4 n a b c) = ucast n"
    unfolding pack4_def
    by (rule bit_eqI)
       (auto simp: bit_ucast_iff bit_or_iff bit_push_bit_iff bit_drop_bit_eq byte_bit_False
             dest: bit_imp_le_length)
  then show ?thesis by (simp add: unsigned_ucast_eq take_bit_nat_eq_self unat_less_2p [of n, simplified] order_less_trans [OF unat_less_2p [of n, simplified]])
qed

lemma be32_small: "n < 256 \<Longrightarrow> be32 (of_nat n) = [0, 0, 0, of_nat n]"
proof -
  assume n: "n < 256"
  have e: "(of_nat n :: uint32) = pack4 0 0 0 (of_nat n)"
    using n by (simp add: pack4_def word_unat_eq_iff unsigned_ucast_eq unat_of_nat take_bit_eq_mod)
  have "drop_bit 24 (of_nat n) = (0 :: uint32)"
    using n by (simp add: drop_bit_eq_div word_unat_eq_iff unat_div_distrib unat_of_nat)
  then have d: "(drop_bit 24 (of_nat n) AND 0xff :: uint32) = 0" by simp
  show ?thesis
    unfolding be32_def d unfolding e pack4_bytes by simp
qed

lemma GetCompact_pack4:
  assumes "BN_bn2mpi lib v = be32 (of_nat (length body)) @ body" and "length body < 256"
  shows "GetCompact lib v = pack4 (of_nat (length body))
    (if 1 \<le> length body then body ! 0 else 0) (if 2 \<le> length body then body ! 1 else 0)
    (if 3 \<le> length body then body ! 2 else 0)"
proof -
  have n: "(ucast (of_nat (length body) :: byte) :: uint32) = of_nat (length body)"
    using assms(2) by (simp add: word_unat_eq_iff unsigned_ucast_eq unat_of_nat take_bit_eq_mod)
  have nth: "BN_bn2mpi lib v ! 4 = body ! 0" "BN_bn2mpi lib v ! 5 = body ! 1" "BN_bn2mpi lib v ! 6 = body ! 2"
    by (simp_all add: assms(1) nth_append)
  show ?thesis
    by (simp add: GetCompact_def pack4_def Let_def n nth or.assoc) (auto simp: assms(1) not_less_eq_eq)
qed

lemma header_upd:
  "replicate (4 + k) x = x # x # x # x # replicate k x"
  "(x0 # x1 # x2 # x3 # xs)[3 := y] = x0 # x1 # x2 # y # xs"
  "(x0 # x1 # x2 # x3 # xs)[4 := y] = x0 # x1 # x2 # x3 # xs[0 := y]"
  "(x0 # x1 # x2 # x3 # xs)[5 := y] = x0 # x1 # x2 # x3 # xs[1 := y]"
  "(x0 # x1 # x2 # x3 # xs)[6 := y] = x0 # x1 # x2 # x3 # xs[2 := y]"
  by (simp_all add: numeral_eq_Suc)

lemma replicate_3:
  "replicate (m + 3) x = x # x # x # replicate m x" "replicate 2 x = [x, x]"
  "(x0 # x1 # x2 # xs)[2 := y] = x0 # x1 # y # xs" "take 2 [a, b, c] = [a, b]"
  "take (m + 3) (a # b # c # xs) = a # b # c # take m xs"
  by (simp_all add: numeral_eq_Suc)

lemma SetCompact_pack4:
  assumes "mpi_format lib"
  shows "SetCompact lib (pack4 n a b c) = mpi_val (take (unat n) ([a, b, c] @ replicate (unat n - 3) 0))"
proof -
  let ?body = "take (unat n) ([a, b, c] @ replicate (unat n - 3) 0)"
  have n: "unat n < 256" using unat_less_2p [of n] by simp
  have n': "(of_nat (unat n) :: byte) = n" by simp
  have h: "be32 (of_nat (length ?body)) = [0, 0, 0, n]" using n by (simp add: be32_small min_def)
  consider "unat n = 0" | "unat n = 1" | "unat n = 2" | m where "unat n = m + 3"
  proof -
    have "unat n = 0 \<or> unat n = 1 \<or> unat n = 2 \<or> (\<exists>m. unat n = m + 3)"
      by (metis add.commute le_Suc_ex less_Suc_eq less_one not_less numeral_2_eq_2 numeral_3_eq_3 One_nat_def)
    then show thesis using that by blast
  qed
  then have "SetCompact lib (pack4 n a b c) = BN_mpi2bn lib (be32 (of_nat (length ?body)) @ ?body)"
    unfolding h SetCompact_def Let_def unat_pack4 pack4_bytes header_upd(1,2) n'
    by cases (simp_all add: header_upd replicate_3)
  also have "\<dots> = mpi_val ?body" by (rule mpi2bn_body [OF assms]) (use n in \<open>simp add: min_def\<close>)
  finally show ?thesis .
qed

lemma take_3_nth:
  assumes "3 \<le> length xs"
  shows "take 3 xs = [xs ! 0, xs ! 1, xs ! 2]"
proof -
  obtain a b c ys where "xs = a # b # c # ys"
    using assms by (metis Suc_le_length_iff numeral_3_eq_3)
  then show ?thesis by (simp add: numeral_eq_Suc)
qed

lemma SetCompact_GetCompact_body:
  assumes lib: "mpi_format lib"
    and body: "BN_bn2mpi lib v = be32 (of_nat (length body)) @ body" and small: "length body < 256"
  shows "SetCompact lib (GetCompact lib v) = mpi_val (take 3 body @ replicate (length body - 3) 0)"
proof -
  define n where "n = length body"
  have u: "unat (of_nat n :: byte) = n" using small by (simp add: n_def unat_of_nat)
  have *: "SetCompact lib (GetCompact lib v) =
      mpi_val (take n ([if 1 \<le> n then body ! 0 else 0, if 2 \<le> n then body ! 1 else 0,
        if 3 \<le> n then body ! 2 else 0] @ replicate (n - 3) 0))"
    by (simp only: GetCompact_pack4 [OF body small] SetCompact_pack4 [OF lib] u n_def [symmetric])
  show ?thesis
  proof (cases "3 \<le> n")
    case True
    then show ?thesis using * take_3_nth [of body] by (simp add: n_def)
  next
    case False
    then have "take 3 body = body" "length body - 3 = 0" by (simp_all add: n_def)
    moreover have "take n ([if 1 \<le> n then body ! 0 else 0, if 2 \<le> n then body ! 1 else 0,
        if 3 \<le> n then body ! 2 else 0] @ replicate (n - 3) 0) = body"
      using False by (cases body rule: remdups_adj.cases) (auto simp: n_def numeral_2_eq_2 not_less_eq_eq)
    ultimately show ?thesis using * by simp
  qed
qed

text \<open>Replacing the bytes after the first three by zeros truncates the magnitude.\<close>

lemma be_val_append: "be_val (xs @ ys) = be_val xs * 256 ^ length ys + be_val ys"
  by (simp add: be_val_def le_val_append)

lemma be_val_replicate_0 [simp]: "be_val (replicate n 0) = 0"
  by (simp add: be_val_def)

lemma be_val_truncate:
  "be_val (xs @ replicate (length ys) 0) = be_val (xs @ ys) div 256 ^ length ys * 256 ^ length ys"
  using be_val_less [of ys] by (simp add: be_val_append)

lemma mpi_val_truncate:
  assumes "0 \<le> mpi_val (x # xs @ ys)"
  shows "mpi_val (x # xs @ replicate (length ys) 0) =
    mpi_val (x # xs @ ys) div 256 ^ length ys * 256 ^ length ys"
proof -
  let ?v = "be_val ((x AND 0x7f) # xs @ ys)" and ?t = "be_val ((x AND 0x7f) # xs @ replicate (length ys) 0)"
  have t: "int ?t = int ?v div 256 ^ length ys * 256 ^ length ys"
    using be_val_truncate [of "(x AND 0x7f) # xs" ys] by (simp add: of_nat_div)
  show ?thesis
  proof (cases "x AND 0x80 = 0")
    case True
    then show ?thesis using t by (simp add: Let_def)
  next
    case False
    then have "?v = 0" using assms by (simp add: Let_def)
    then show ?thesis using t False by (simp add: Let_def)
  qed
qed

lemma SetCompact_GetCompact_eq:
  assumes lib: "mpi_format lib" and v: "0 \<le> v" and small: "length (getvch lib v) < 256"
  shows "SetCompact lib (GetCompact lib v) =
    v div 256 ^ (length (getvch lib v) - 3) * 256 ^ (length (getvch lib v) - 3)"
proof -
  obtain body where b: "getvch lib v = rev body" "mpi_val body = v"
      "BN_bn2mpi lib v = be32 (of_nat (length body)) @ body"
    by (rule getvch_body [OF lib])
  then have *: "SetCompact lib (GetCompact lib v) = mpi_val (take 3 body @ replicate (length body - 3) 0)"
    using SetCompact_GetCompact_body [OF lib b(3)] small by simp
  show ?thesis
  proof (cases body)
    case Nil
    then show ?thesis using * b by simp
  next
    case (Cons x xs)
    have l: "length (drop 2 xs) = length body - 3" using Cons by simp
    have "body = x # take 2 xs @ drop 2 xs" "take 3 body = x # take 2 xs" using Cons by (simp_all add: numeral_eq_Suc)
    then show ?thesis
      using * b v mpi_val_truncate [of x "take 2 xs" "drop 2 xs"] l by (metis append_Cons length_rev)
  qed
qed

section \<open>Hexadecimal text of a number\<close>

fun digits_val :: "nat \<Rightarrow> nat list \<Rightarrow> nat" where
  "digits_val b [] = 0"
| "digits_val b (d # ds) = d + b * digits_val b ds"

lemma isxdigit_hex: "n < 16 \<Longrightarrow> isxdigit (hex_digits ! n) \<and> uint (phexdigit (hex_digits ! n)) = int n
    \<and> hex_digits ! n \<noteq> CHR ''-'' \<and> \<not> isspace (hex_digits ! n) \<and> hex_digits ! n \<noteq> CHR ''x'' \<and> hex_digits ! n \<noteq> CHR ''X''"
proof -
  have "list_all (\<lambda>n. isxdigit (hex_digits ! n) \<and> uint (phexdigit (hex_digits ! n)) = int n
    \<and> hex_digits ! n \<noteq> CHR ''-'' \<and> \<not> isspace (hex_digits ! n) \<and> hex_digits ! n \<noteq> CHR ''x'' \<and> hex_digits ! n \<noteq> CHR ''X'') [0..<16]"
    by code_simp
  then show "n < 16 \<Longrightarrow> ?thesis" by (simp add: list_all_iff)
qed

lemma bn_hex_loop_digit:
  "n < 16 \<Longrightarrow> bn_hex_loop bn (hex_digits ! n # psz) = bn_hex_loop (16 * bn + int n) psz"
  by (simp add: isxdigit_hex bn_shl_def mult.commute)

lemma bn_hex_loop_digits:
  "bn_hex_loop bn (rev (digits_loop 16 m) @ psz) =
     bn_hex_loop (bn * 16 ^ length (digits_loop 16 m) + int m) psz"
proof (induction "16 :: nat" m arbitrary: psz rule: digits_loop.induct)
  case (1 m)
  show ?case
  proof (cases "m = 0")
    case False
    then have d: "digits_loop 16 m = hex_digits ! (m mod 16) # digits_loop 16 (m div 16)"
      by (subst digits_loop.simps) simp
    have "bn_hex_loop bn (rev (digits_loop 16 m) @ psz) =
        bn_hex_loop (bn * 16 ^ length (digits_loop 16 (m div 16)) + int (m div 16)) (hex_digits ! (m mod 16) # psz)"
      using "1" [of "hex_digits ! (m mod 16) # psz"] False d by simp
    also have "\<dots> = bn_hex_loop (16 * (bn * 16 ^ length (digits_loop 16 (m div 16)) + int (m div 16)) + int (m mod 16)) psz"
      by (simp add: bn_hex_loop_digit del: bn_hex_loop.simps)
    also have "16 * (bn * 16 ^ length (digits_loop 16 (m div 16)) + int (m div 16)) + int (m mod 16) =
        bn * 16 ^ length (digits_loop 16 m) + int m"
      by (simp add: d distrib_left of_nat_div of_nat_mod)
    finally show ?thesis .
  qed (simp add: digits_loop.simps)
qed

lemma digits_loop_is_hex: "c \<in> set (digits_loop 16 m) \<Longrightarrow> is_hex c"
proof (induction "16 :: nat" m rule: digits_loop.induct)
  case (1 m)
  show ?case
  proof (cases "m = 0")
    case False
    then have "digits_loop 16 m = hex_digits ! (m mod 16) # digits_loop 16 (m div 16)"
      by (subst digits_loop.simps) simp
    moreover have "is_hex (hex_digits ! (m mod 16))" unfolding is_hex_def by (metis mod_less_divisor zero_less_numeral)
    ultimately show ?thesis using 1 False by auto
  qed (use 1 in \<open>simp add: digits_loop.simps\<close>)
qed

lemma SetHex_GetHex_bn: "bn_SetHex (bn_GetHex 0 v) = v"
proof (cases "v = 0")
  case True
  moreover have "bn_SetHex (bn_GetHex 0 0) = 0" by code_simp
  ultimately show ?thesis by simp
next
  case False
  let ?str = "rev (digits_loop 16 (nat \<bar>v\<bar>))"
  have hex: "\<forall>c \<in> set ?str. is_hex c" by (auto dest: digits_loop_is_hex)
  note scan = hex_scan_start [OF hex]
  have val: "bn_hex_loop 0 ?str = \<bar>v\<bar>" using bn_hex_loop_digits [of 0 _ "[]"] by simp
  have dash: "\<not> isspace (CHR ''-'')" by code_simp
  show ?thesis
  proof (cases "v < 0")
    case True
    then have "bn_GetHex 0 v = CHR ''-'' # ?str" by (simp add: bn_GetHex_def bn_ToString_def)
    then have "bn_SetHex (bn_GetHex 0 v) = 0 - bn_hex_loop 0 (dropWhile isspace (skip_0x ?str))"
      by (simp add: bn_SetHex_def dash Let_def)
    then show ?thesis using True by (simp only: scan val)
  next
    case pos: False
    then have "bn_GetHex 0 v = ?str" using False by (simp add: bn_GetHex_def bn_ToString_def)
    then have "bn_SetHex (bn_GetHex 0 v) = bn_hex_loop 0 (dropWhile isspace (skip_0x ?str))"
      by (simp only: bn_SetHex_def scan Let_def if_False)
    then show ?thesis using pos by (simp only: scan val)
  qed
qed

section \<open>Properties\<close>

text \<open>
  The conversions from 64-bit and 256-bit integers, which assemble an MPI string byte by byte,
  give the number itself, also for \<open>INT64_MIN\<close>, whose negation overflows; and a 256-bit value
  survives the trip through a \<^verbatim>\<open>CBigNum\<close>.
\<close>

theorem bignum_integer_conversions:
  assumes "mpi_format lib"
  shows "setint64 lib n = sint n \<and> setuint64 lib m = uint m \<and> setuint256 lib h = uint h \<and>
    getuint256 lib (setuint256 lib h) = h \<and> getuint64 lib (setuint64 lib m) = m"
  using assms by (simp add: setint64_sint setuint64_uint setuint256_uint getuint256_eq getuint64_eq)

theorem bignum_integer_conversions_witness:
  "mpi_format mpi_lib \<and> setint64 mpi_lib (- 5) = - 5 \<and> setint64 mpi_lib (2 ^ 63) = - (2 ^ 63)"
  using bignum_integer_conversions [OF mpi_lib_format, of "- 5" 0 0]
    bignum_integer_conversions [OF mpi_lib_format, of "2 ^ 63" 0 0] mpi_lib_format
  by simp

text \<open>
  Stack numbers: \<^verbatim>\<open>getvch\<close> gives the shortest byte string that \<^verbatim>\<open>setvch\<close> reads back as the
  number, and the only one.
\<close>

theorem setvch_getvch:
  assumes "mpi_format lib" and "length (getvch lib v) < 2 ^ 32"
  shows "setvch lib (getvch lib v) = v \<and>
    (\<forall>vch. length vch < 2 ^ 32 \<and> minimal_vch vch \<and> setvch lib vch = v \<longrightarrow> vch = getvch lib v)"
proof (intro conjI allI impI)
  show "setvch lib (getvch lib v) = v" by (rule setvch_getvch_eq [OF assms])
  show "vch = getvch lib v" if "length vch < 2 ^ 32 \<and> minimal_vch vch \<and> setvch lib vch = v" for vch
    using that getvch_setvch_eq [OF assms(1), of vch] by simp
qed

theorem setvch_getvch_witness:
  "mpi_format mpi_lib \<and> getvch mpi_lib (- 255) = [0xff, 0x80] \<and> setvch mpi_lib [0xff, 0x80] = - 255"
proof -
  have "mpi_val (rev [0xff, 0x80]) = - 255" "minimal_vch [0xff, 0x80]"
    by (simp_all add: be_val_def minimal_vch_def)
  then have g: "getvch mpi_lib (- 255) = [0xff, 0x80]"
    using getvch_eqI [OF mpi_lib_format, of "[0xff, 0x80]"] by simp
  then have "length (getvch mpi_lib (- 255)) < 2 ^ 32" by simp
  then show ?thesis using setvch_getvch [OF mpi_lib_format] g mpi_lib_format by metis
qed

lemma getvch_length:
  assumes "mpi_format lib" and "\<bar>v\<bar> < 256 ^ k"
  shows "length (getvch lib v) \<le> k + 1"
proof -
  obtain body where b: "getvch lib v = rev body" "mpi_val body = v" "mpi_minimal body"
    by (rule getvch_body [OF assms(1)])
  show ?thesis
  proof (cases body)
    case (Cons x xs)
    have "256 ^ length xs \<le> 2 * be_val ((x AND 0x7f) # xs)"
      using mpi_minimal_lower [of x xs] b Cons by simp
    then have "int (256 ^ length xs) \<le> 2 * \<bar>v\<bar>"
      using abs_mpi_val_Cons [of x xs] b Cons by (metis of_nat_le_iff of_nat_mult of_nat_numeral)
    also have "\<dots> < 2 * 256 ^ k" using assms(2) by simp
    also have "\<dots> \<le> 256 ^ (k + 1)" by simp
    finally have "(256 :: int) ^ length xs < 256 ^ (k + 1)" by simp
    then have "length xs < k + 1" by (rule power_less_imp_less_exp [rotated]) simp
    then show ?thesis using b Cons by simp
  qed (use b in simp)
qed

text \<open>
  The compact form of a target keeps its three most significant bytes: reading back
  \<^verbatim>\<open>GetCompact\<close> of a non-negative number truncates it to a multiple of \<open>256 ^ (n - 3)\<close>, where \<open>n\<close> is
  its size in bytes, so the result never exceeds the number and is exact up to three bytes.
\<close>

theorem SetCompact_GetCompact:
  assumes "mpi_format lib" and "0 \<le> v" and "length (getvch lib v) < 256"
  shows "SetCompact lib (GetCompact lib v) =
      v div 256 ^ (length (getvch lib v) - 3) * 256 ^ (length (getvch lib v) - 3) \<and>
    SetCompact lib (GetCompact lib v) \<le> v \<and>
    v - SetCompact lib (GetCompact lib v) < 256 ^ (length (getvch lib v) - 3) \<and>
    (length (getvch lib v) \<le> 3 \<longrightarrow> SetCompact lib (GetCompact lib v) = v)"
proof -
  let ?P = "256 ^ (length (getvch lib v) - 3) :: int"
  have "v = v div ?P * ?P + v mod ?P" by (simp only: div_mult_mod_eq)
  moreover have "0 \<le> v mod ?P" "v mod ?P < ?P" by simp_all
  ultimately have "v div ?P * ?P \<le> v" "v - v div ?P * ?P < ?P" by linarith+
  then show ?thesis by (simp add: SetCompact_GetCompact_eq [OF assms])
qed

theorem SetCompact_GetCompact_witness:
  "SetCompact mpi_lib (GetCompact mpi_lib 0x12345678) = 0x12345600"
proof -
  have "mpi_val (rev [0x78, 0x56, 0x34, 0x12]) = 0x12345678" "minimal_vch [0x78, 0x56, 0x34, 0x12]"
    by (simp_all add: be_val_def minimal_vch_def)
  then have "length (getvch mpi_lib 0x12345678) = 4"
    using getvch_eqI [OF mpi_lib_format, of "[0x78, 0x56, 0x34, 0x12]"] by simp
  then show ?thesis using SetCompact_GetCompact [OF mpi_lib_format, where v = "0x12345678"] by simp
qed

text \<open>\<^verbatim>\<open>CBigNum::SetHex\<close> reads back what \<^verbatim>\<open>CBigNum::GetHex\<close> prints, for every integer.\<close>

theorem bn_SetHex_GetHex: "bn_SetHex (bn_GetHex 0 v) = v"
  by (rule SetHex_GetHex_bn)

end
