(* ===== verification/Crypto.thy ===== *)
theory Crypto
  imports Bignum
begin

text \<open>
  The hash helpers of \<^verbatim>\<open>src/src/util.h\<close> and the OpenSSL functions the sources call. OpenSSL
  is not part of the repository: its digests, its elliptic-curve checks and its \<^verbatim>\<open>BIGNUM\<close>
  conversions are the fields of the record \<open>openssl\<close>, an argument of every definition that uses
  them. A digest is the integer whose memory image the C function writes.
\<close>

record openssl = bignum_lib +
  SHA256 :: "bytes \<Rightarrow> uint256"
  RIPEMD160 :: "bytes \<Rightarrow> uint160"
  SHA1 :: "bytes \<Rightarrow> uint160"
  o2i_ECPublicKey :: "bytes \<Rightarrow> bool"
  ECDSA_verify :: "bytes \<Rightarrow> uint256 \<Rightarrow> bytes \<Rightarrow> bool"

text \<open>\<^verbatim>\<open>BEGIN(hash)\<close> to \<^verbatim>\<open>END(hash)\<close>: the memory image of a 256-bit or 160-bit integer.\<close>

abbreviation image256 :: "uint256 \<Rightarrow> bytes" where
  "image256 h \<equiv> word_bytes 32 h"

abbreviation image160 :: "uint160 \<Rightarrow> bytes" where
  "image160 h \<equiv> word_bytes 20 h"

definition Hash :: "'a openssl_scheme \<Rightarrow> bytes \<Rightarrow> uint256" where
  "Hash lib bs = (let hash1 = SHA256 lib bs in SHA256 lib (image256 hash1))"

text \<open>
  The variants over two and three ranges feed one SHA-256 context with the ranges in order, which
  is the digest of their concatenation.
\<close>

definition Hash2 :: "'a openssl_scheme \<Rightarrow> bytes \<Rightarrow> bytes \<Rightarrow> uint256" where
  "Hash2 lib p1 p2 = (let hash1 = SHA256 lib (p1 @ p2) in SHA256 lib (image256 hash1))"

definition Hash160 :: "'a openssl_scheme \<Rightarrow> bytes \<Rightarrow> uint160" where
  "Hash160 lib vch = (let hash1 = SHA256 lib vch in RIPEMD160 lib (image256 hash1))"

text \<open>
  \<^verbatim>\<open>CKey\<close> of \<^verbatim>\<open>src/src/key.cpp\<close> as far as checking signatures goes:
  \<^verbatim>\<open>SetPubKey\<close> decodes the point, \<^verbatim>\<open>Verify\<close> asks \<^verbatim>\<open>ECDSA_verify\<close>.
\<close>

definition CKey_SetPubKey :: "'a openssl_scheme \<Rightarrow> bytes \<Rightarrow> bytes option" where
  "CKey_SetPubKey lib vchPubKey = (if o2i_ECPublicKey lib vchPubKey then Some vchPubKey else None)"

definition CKey_Verify :: "'a openssl_scheme \<Rightarrow> bytes \<Rightarrow> uint256 \<Rightarrow> bytes \<Rightarrow> bool" where
  "CKey_Verify lib pkey hash vchSig = ECDSA_verify lib pkey hash vchSig"

text \<open>
  A concrete instance with the documented MPI format and toy digests, on which the properties that
  assume the format are instantiated.
\<close>

definition demo_lib :: openssl where
  "demo_lib = \<lparr> BN_mpi2bn = (\<lambda>mpi. mpi_val (drop 4 mpi)),
                BN_bn2mpi = (\<lambda>v. be32 (of_nat (length (mpi_body v))) @ mpi_body v),
                SHA256 = (\<lambda>bs. of_nat (length bs)), RIPEMD160 = (\<lambda>bs. of_nat (length bs)),
                SHA1 = (\<lambda>bs. of_nat (length bs)),
                o2i_ECPublicKey = (\<lambda>bs. bs \<noteq> []), ECDSA_verify = (\<lambda>k h s. k = s) \<rparr>"

lemma demo_lib_format: "mpi_format demo_lib"
  by (rule mpi_format_intro) (simp_all add: demo_lib_def)

end
