(* ===== verification/Ramhog.thy ===== *)
theory Ramhog
  imports Crypto
begin

text \<open>
  The proof-of-work hash of \<^verbatim>\<open>src/src/hashblock\<close>: \<^verbatim>\<open>PBKDF2_SHA256\<close> of \<^verbatim>\<open>pbkdf2.c\<close> and the memory-bound \<^verbatim>\<open>ramhog\<close> of \<^verbatim>\<open>ramhog.c\<close>, with the
  thread pool of \<^verbatim>\<open>ramhog_mt.cpp\<close> that runs it. A SHA-256 context of OpenSSL is the data fed to it so far; its final value is the
  digest of that data. Buffers are lists, and what a function writes is what it returns.
\<close>

unbundle bit_operations_syntax

section \<open>PBKDF2\<close>

definition be32enc :: "uint32 \<Rightarrow> bytes" where
  "be32enc x = [ucast (drop_bit 24 x AND 0xff), ucast (drop_bit 16 x AND 0xff), ucast (drop_bit 8 x AND 0xff), ucast (x AND 0xff)]"

record HMAC_SHA256_CTX =
  ictx :: bytes
  octx :: bytes

definition SHA256_Final :: "'a openssl_scheme \<Rightarrow> bytes \<Rightarrow> bytes" where
  "SHA256_Final lib fed = image256 (SHA256 lib fed)"

text \<open>The loop that mixes the key into a block of one byte.\<close>

definition xor_pad :: "byte \<Rightarrow> bytes \<Rightarrow> bytes" where
  "xor_pad c K = map (\<lambda>i. if i < length K then c XOR K ! i else c) [0..<64]"

definition HMAC_SHA256_Init :: "'a openssl_scheme \<Rightarrow> bytes \<Rightarrow> HMAC_SHA256_CTX" where
  "HMAC_SHA256_Init lib K =
     (let K = (if length K > 64 then SHA256_Final lib K else K)
      in \<lparr> ictx = xor_pad 0x36 K, octx = xor_pad 0x5c K \<rparr>)"

definition HMAC_SHA256_Update :: "HMAC_SHA256_CTX \<Rightarrow> bytes \<Rightarrow> HMAC_SHA256_CTX" where
  "HMAC_SHA256_Update ctx data = ctx\<lparr> ictx := ictx ctx @ data \<rparr>"

definition HMAC_SHA256_Final :: "'a openssl_scheme \<Rightarrow> HMAC_SHA256_CTX \<Rightarrow> bytes" where
  "HMAC_SHA256_Final lib ctx = SHA256_Final lib (octx ctx @ SHA256_Final lib (ictx ctx))"

definition xor_bytes :: "bytes \<Rightarrow> bytes \<Rightarrow> bytes" where
  "xor_bytes T U = map2 (XOR) T U"

text \<open>The iterations that are left, with \<^verbatim>\<open>U\<close> and \<^verbatim>\<open>T\<close>.\<close>

fun pbkdf2_rounds :: "'a openssl_scheme \<Rightarrow> bytes \<Rightarrow> nat \<Rightarrow> bytes \<Rightarrow> bytes \<Rightarrow> bytes" where
  "pbkdf2_rounds lib passwd 0 U T = T"
| "pbkdf2_rounds lib passwd (Suc n) U T =
     (let U = HMAC_SHA256_Final lib (HMAC_SHA256_Update (HMAC_SHA256_Init lib passwd) U)
      in pbkdf2_rounds lib passwd n U (xor_bytes T U))"

function pbkdf2_blocks :: "'a openssl_scheme \<Rightarrow> bytes \<Rightarrow> HMAC_SHA256_CTX \<Rightarrow> uint64 \<Rightarrow> nat \<Rightarrow> nat \<Rightarrow> bytes" where
  "pbkdf2_blocks lib passwd PShctx c dkLen i =
     (if i * 32 < dkLen then
        let U = HMAC_SHA256_Final lib (HMAC_SHA256_Update PShctx (be32enc (of_nat (i + 1))));
            T = pbkdf2_rounds lib passwd (unat c - 1) U U
        in take (min 32 (dkLen - i * 32)) T @ pbkdf2_blocks lib passwd PShctx c dkLen (i + 1)
      else [])"
  by pat_completeness auto
termination by (relation "measure (\<lambda>(lib, p, x, c, n, i). n - i)") auto

declare pbkdf2_blocks.simps [simp del]

definition PBKDF2_SHA256 :: "'a openssl_scheme \<Rightarrow> bytes \<Rightarrow> bytes \<Rightarrow> uint64 \<Rightarrow> nat \<Rightarrow> bytes" where
  "PBKDF2_SHA256 lib passwd salt c dkLen =
     pbkdf2_blocks lib passwd (HMAC_SHA256_Update (HMAC_SHA256_Init lib passwd) salt) c dkLen 0"

section \<open>The generator\<close>

record xorshift_ctx =
  xs_s :: "uint64 list"
  xs_p :: byte

definition xorshift_next :: "xorshift_ctx \<Rightarrow> uint64 \<times> xorshift_ctx" where
  "xorshift_next ctx =
     (let s0 = xs_s ctx ! unat (xs_p ctx);
          p = (xs_p ctx + 1) AND 63;
          s1 = xs_s ctx ! unat p;
          s1 = s1 XOR push_bit 25 s1;
          s1 = s1 XOR drop_bit 3 s1;
          s0 = s0 XOR drop_bit 49 s0
      in ((s0 XOR s1) * 8372773778140471301, \<lparr> xs_s = (xs_s ctx)[unat p := s0 XOR s1], xs_p = p \<rparr>))"

text \<open>An array of 64-bit words as bytes, and back.\<close>

definition words_bytes :: "uint64 list \<Rightarrow> bytes" where
  "words_bytes ws = concat (map (word_bytes 8) ws)"

definition bytes_words :: "nat \<Rightarrow> bytes \<Rightarrow> uint64 list" where
  "bytes_words n bs = map (\<lambda>i. bytes_word (take 8 (drop (8 * i) bs))) [0..<n]"

definition xorshift_pbkdf2_seed :: "'a openssl_scheme \<Rightarrow> bytes \<Rightarrow> bytes \<Rightarrow> xorshift_ctx" where
  "xorshift_pbkdf2_seed lib seed salt =
     (let fullSeed = bytes_words 65 (PBKDF2_SHA256 lib seed salt 128 (8 * 65))
      in \<lparr> xs_s = take 64 fullSeed, xs_p = ucast (fullSeed ! 16 AND 63) \<rparr>)"

section \<open>The hash\<close>

definition MAIN_SHINY_PADS :: uint32 where "MAIN_SHINY_PADS = 16"
definition MAIN_SHINY_CHUNKS :: uint32 where "MAIN_SHINY_CHUNKS = 125829120"
definition MAIN_SHINY_ITERS :: uint32 where "MAIN_SHINY_ITERS = 8388608"
definition TEST_SHINY_PADS :: uint32 where "TEST_SHINY_PADS = 16"
definition TEST_SHINY_CHUNKS :: uint32 where "TEST_SHINY_CHUNKS = 8388608"
definition TEST_SHINY_ITERS :: uint32 where "TEST_SHINY_ITERS = 1048576"

text \<open>The words of a pad from \<^verbatim>\<open>chunk\<close> on; \<open>pad\<close> holds those before, and \<open>n\<close> are left.\<close>

definition pad_ref :: "nat \<Rightarrow> uint64 \<Rightarrow> nat" where
  "pad_ref chunk r = unat r mod (chunk div 2) + chunk div 2"

fun gen_pad_loop :: "nat \<Rightarrow> uint64 list \<Rightarrow> xorshift_ctx \<Rightarrow> uint64 list" where
  "gen_pad_loop 0 pad ctx = pad"
| "gen_pad_loop (Suc n) pad ctx =
     (let (x, ctx) = xorshift_next ctx in
      if x AND 511 = 0 then
        let (r, ctx) = xorshift_next ctx in gen_pad_loop n (pad @ [x XOR pad ! pad_ref (length pad) r]) ctx
      else gen_pad_loop n (pad @ [x]) ctx)"

definition ramhog_gen_pad :: "'a openssl_scheme \<Rightarrow> bytes \<Rightarrow> uint32 \<Rightarrow> uint32 \<Rightarrow> uint64 list" where
  "ramhog_gen_pad lib input C padIndex =
     (let ctx = xorshift_pbkdf2_seed lib input (word_bytes 4 padIndex);
          (a, ctx) = xorshift_next ctx;
          (b, ctx) = xorshift_next ctx
      in gen_pad_loop (unat C - 2) [a, b] ctx)"

text \<open>One read of the pads, and the reads whose values are kept.\<close>

definition pad_step :: "uint32 \<Rightarrow> uint32 \<Rightarrow> uint64 list list \<Rightarrow> uint64 \<times> xorshift_ctx \<Rightarrow> uint64 \<times> xorshift_ctx" where
  "pad_step N C scratchpads s =
     (let X = fst s; (r, ctx) = xorshift_next (snd s)
      in (scratchpads ! (unat (X AND 0xffffffff00000000) mod unat N) ! (unat (X AND 0xffffffff) mod unat C) XOR r, ctx))"

fun pad_values :: "uint32 \<Rightarrow> uint32 \<Rightarrow> uint64 list list \<Rightarrow> nat \<Rightarrow> uint64 \<times> xorshift_ctx \<Rightarrow> uint64 list" where
  "pad_values N C scratchpads 0 s = []"
| "pad_values N C scratchpads (Suc n) s = (let s = pad_step N C scratchpads s in fst s # pad_values N C scratchpads n s)"

text \<open>\<open>None\<close> stands for a read outside of a pad, or a remainder by zero.\<close>

definition ramhog_run_iterations ::
  "'a openssl_scheme \<Rightarrow> bytes \<Rightarrow> nat \<Rightarrow> uint32 \<Rightarrow> uint32 \<Rightarrow> uint32 \<Rightarrow> uint64 list list \<Rightarrow> bytes option" where
  "ramhog_run_iterations lib input output_size N C I scratchpads =
     (if N = 0 \<or> unat C < 33 then None
      else
        let finalChunks = concat (map (\<lambda>padIndex. take 32 (drop (unat C - 1 - 32) (scratchpads ! padIndex))) [0..<unat N]);
            ctx = xorshift_pbkdf2_seed lib input (take (8 * unat N) (words_bytes finalChunks));
            s = xorshift_next ctx;
            s = ((pad_step N C scratchpads) ^^ unat (I - (32 - 5))) s;
            finalSalt = [ucast N, ucast C, ucast I, of_nat (length input), of_nat output_size] @ pad_values N C scratchpads 27 s
        in Some (PBKDF2_SHA256 lib input (words_bytes finalSalt) 1 output_size))"

definition ramhog :: "'a openssl_scheme \<Rightarrow> bytes \<Rightarrow> nat \<Rightarrow> uint32 \<Rightarrow> uint32 \<Rightarrow> uint32 \<Rightarrow> bytes option" where
  "ramhog lib input output_size N C I =
     ramhog_run_iterations lib input output_size N C I
       (map (\<lambda>padIndex. ramhog_gen_pad lib input C (of_nat padIndex)) [0..<unat N])"

text \<open>
  The pool: the pads are filled by its workers, each in memory of its own, and the iterations run when all are done. A
  computation for the miner gives way to a block to check, and stops when there is a new best block.
\<close>

record CRamhogThreadPool =
  pool_N :: uint32
  pool_C :: uint32
  pool_I :: uint32
  numSimultaneous :: int
  numWorkers :: int

definition pool_ramhog ::
  "'a openssl_scheme \<Rightarrow> CRamhogThreadPool \<Rightarrow> bool \<Rightarrow> bool \<Rightarrow> bool \<Rightarrow> bytes \<Rightarrow> nat \<Rightarrow> bytes option" where
  "pool_ramhog lib pool fForMiner fNeedCheckBlock newBest input output_size =
     (if numSimultaneous pool = 0 \<or> numWorkers pool = 0 then None
      else if fNeedCheckBlock \<and> fForMiner then None
      else if fForMiner \<and> newBest then None
      else ramhog lib input output_size (pool_N pool) (pool_C pool) (pool_I pool))"

section \<open>What PBKDF2 computes\<close>

text \<open>The keyed digest of RFC 2104 and the function of RFC 2898, with INT(i) big-endian.\<close>

definition hmac :: "'a openssl_scheme \<Rightarrow> bytes \<Rightarrow> bytes \<Rightarrow> bytes" where
  "hmac lib K m =
     (let K0 = (if length K > 64 then SHA256_Final lib K else K);
          block = K0 @ replicate (64 - length K0) 0
      in SHA256_Final lib (map ((XOR) 0x5c) block @ SHA256_Final lib (map ((XOR) 0x36) block @ m)))"

definition pbkdf2_T :: "'a openssl_scheme \<Rightarrow> bytes \<Rightarrow> bytes \<Rightarrow> nat \<Rightarrow> nat \<Rightarrow> bytes" where
  "pbkdf2_T lib P S c i =
     (let U = (\<lambda>j. (hmac lib P ^^ j) (S @ be32enc (of_nat i)))
      in foldl xor_bytes (U 1) (map U [2..<Suc c]))"

lemma length_SHA256_Final [simp]: "length (SHA256_Final lib bs) = 32"
  by (simp add: SHA256_Final_def word_bytes_def)

lemma length_xor_bytes [simp]: "length (xor_bytes T U) = min (length T) (length U)"
  by (simp add: xor_bytes_def)

lemma xor_pad_block: "length K \<le> 64 \<Longrightarrow> xor_pad c K = map ((XOR) c) (K @ replicate (64 - length K) 0)"
  by (rule nth_equalityI) (auto simp: xor_pad_def nth_append)

lemma HMAC_hmac: "HMAC_SHA256_Final lib (HMAC_SHA256_Update (HMAC_SHA256_Update (HMAC_SHA256_Init lib K) a) b) = hmac lib K (a @ b)"
  by (simp add: HMAC_SHA256_Final_def HMAC_SHA256_Update_def HMAC_SHA256_Init_def hmac_def Let_def xor_pad_block)

lemma HMAC_hmac1: "HMAC_SHA256_Final lib (HMAC_SHA256_Update (HMAC_SHA256_Init lib K) a) = hmac lib K a"
  by (simp add: HMAC_SHA256_Final_def HMAC_SHA256_Update_def HMAC_SHA256_Init_def hmac_def Let_def xor_pad_block)

lemma length_hmac [simp]: "length (hmac lib K m) = 32"
  by (simp add: hmac_def Let_def)

lemma pbkdf2_rounds_foldl: "pbkdf2_rounds lib P n U T = foldl xor_bytes T (map (\<lambda>j. (hmac lib P ^^ j) U) [1..<Suc n])"
proof (induction n arbitrary: U T)
  case (Suc n)
  have "[1..<Suc (Suc n)] = 1 # map Suc [1..<Suc n]" by (simp add: map_Suc_upt upt_conv_Cons)
  then have "map (\<lambda>j. (hmac lib P ^^ j) U) [1..<Suc (Suc n)] = hmac lib P U # map (\<lambda>j. (hmac lib P ^^ j) (hmac lib P U)) [1..<Suc n]"
    by (simp add: funpow_swap1)
  then show ?case using Suc.IH [of "hmac lib P U" "xor_bytes T (hmac lib P U)"] by (simp add: Let_def HMAC_hmac1)
qed simp

lemma pbkdf2_round_T:
  "pbkdf2_rounds lib P (c - 1) (hmac lib P (S @ be32enc (of_nat i))) (hmac lib P (S @ be32enc (of_nat i))) = pbkdf2_T lib P S c i"
proof -
  have "map (\<lambda>j. (hmac lib P ^^ j) (hmac lib P x)) [1..<Suc (c - 1)] = map (\<lambda>j. (hmac lib P ^^ j) x) [2..<Suc c]" for x
  proof (cases c)
    case (Suc n)
    have "[2..<Suc c] = map Suc [1..<Suc (c - 1)]" using Suc by (simp add: map_Suc_upt numeral_2_eq_2)
    then show ?thesis by (simp add: funpow_swap1)
  qed simp
  then show ?thesis by (simp add: pbkdf2_rounds_foldl pbkdf2_T_def)
qed

lemma length_pbkdf2_T [simp]: "length (pbkdf2_T lib P S c i) = 32"
proof -
  have "length (foldl xor_bytes T Us) = 32" if "length T = 32" "\<forall>U\<in>set Us. length U = 32" for T Us
    using that by (induction Us arbitrary: T) auto
  moreover have "length ((hmac lib P ^^ j) x) = 32" if "j \<ge> 1" for j x using that by (cases j) auto
  ultimately show ?thesis by (simp add: pbkdf2_T_def Let_def)
qed

lemma pbkdf2_blocks_from:
  "pbkdf2_blocks lib P (HMAC_SHA256_Update (HMAC_SHA256_Init lib P) S) c dkLen i =
     take (dkLen - i * 32) (concat (map (\<lambda>i. pbkdf2_T lib P S (unat c) (Suc i)) [i..<(dkLen + 31) div 32]))"
proof (induction "dkLen - i" arbitrary: i rule: less_induct)
  case less
  show ?case
  proof (cases "i * 32 < dkLen")
    case True
    then have i: "i < (dkLen + 31) div 32" by linarith
    have "dkLen - Suc i < dkLen - i" using True by linarith
    then have IH: "pbkdf2_blocks lib P (HMAC_SHA256_Update (HMAC_SHA256_Init lib P) S) c dkLen (i + 1) =
        take (dkLen - Suc i * 32) (concat (map (\<lambda>i. pbkdf2_T lib P S (unat c) (Suc i)) [Suc i..<(dkLen + 31) div 32]))"
      using less [of "Suc i"] by simp
    have "take (min 32 (dkLen - i * 32)) T @ take (dkLen - Suc i * 32) R = take (dkLen - i * 32) (T @ R)" if "length T = 32" for T R :: bytes
      using that by (simp add: min_def add.commute)
    then show ?thesis using True i IH pbkdf2_round_T [of lib P "unat c" S "Suc i"]
      by (subst pbkdf2_blocks.simps) (simp add: Let_def HMAC_hmac upt_conv_Cons add.commute [of 32])
  next
    case False
    then show ?thesis by (subst pbkdf2_blocks.simps) simp
  qed
qed


section \<open>The pads\<close>

text \<open>Every reference back lies in the second half of what is written already.\<close>

lemma pad_ref_bound: "2 \<le> chunk \<Longrightarrow> chunk div 2 \<le> pad_ref chunk r \<and> pad_ref chunk r < chunk"
proof -
  assume "2 \<le> chunk"
  then have "unat r mod (chunk div 2) < chunk div 2" by simp
  moreover have "chunk div 2 + chunk div 2 \<le> chunk" by simp
  ultimately show ?thesis by (simp add: pad_ref_def)
qed

lemma length_gen_pad_loop [simp]: "length (gen_pad_loop n pad ctx) = n + length pad"
  by (induction n pad ctx rule: gen_pad_loop.induct) (auto simp: Let_def split: prod.split)

lemma length_ramhog_gen_pad: "2 \<le> unat C \<Longrightarrow> length (ramhog_gen_pad lib input C i) = unat C"
  by (simp add: ramhog_gen_pad_def Let_def split: prod.split)

text \<open>The generator stays inside of its state.\<close>

definition xorshift_ok :: "xorshift_ctx \<Rightarrow> bool" where
  "xorshift_ok ctx \<longleftrightarrow> length (xs_s ctx) = 64 \<and> unat (xs_p ctx) < 64"

lemma and_63_bound: "unat ((p :: 'a::len word) AND 63) < 64"
proof -
  have "unat (p AND 63) \<le> unat (63 :: 'a word)" using word_and_le1 [of p 63] by (simp add: word_le_nat_alt)
  also have "\<dots> \<le> 63" by (metis of_nat_numeral unat_of_nat mod_less_eq_dividend)
  finally show ?thesis by simp
qed

lemma xorshift_next_ok: "xorshift_ok ctx \<Longrightarrow> xorshift_ok (snd (xorshift_next ctx))"
  using and_63_bound [of "xs_p ctx + 1"] by (simp add: xorshift_next_def xorshift_ok_def Let_def)

lemma xorshift_seed_ok: "xorshift_ok (xorshift_pbkdf2_seed lib seed salt)"
proof -
  have "unat (ucast (x AND 63 :: uint64) :: byte) < 64" for x :: uint64
    using and_63_bound [of x] by (simp add: unsigned_ucast_eq take_bit_nat_eq_self)
  then show ?thesis by (simp add: xorshift_ok_def xorshift_pbkdf2_seed_def bytes_words_def)
qed

section \<open>One pad is enough\<close>

lemma high_half_mod: "unat (X AND 0xffffffff00000000 :: uint64) mod 16 = 0"
proof -
  have "take_bit 4 (0xffffffff00000000 :: uint64) = 0" by simp
  then have "take_bit 4 (X AND 0xffffffff00000000) = 0" by (simp add: take_bit_and)
  moreover have "unat (X AND 0xffffffff00000000) mod 16 = unat (take_bit 4 (X AND 0xffffffff00000000))"
    by (simp only: unsigned_take_bit_eq) (simp only: take_bit_eq_mod, simp)
  ultimately show ?thesis by simp
qed

lemma pad_step_one:
  assumes "pads ! 0 = pads' ! 0"
  shows "pad_step MAIN_SHINY_PADS C pads = pad_step MAIN_SHINY_PADS C pads'"
  using assms high_half_mod by (simp add: fun_eq_iff pad_step_def MAIN_SHINY_PADS_def split: prod.split)

lemma pad_values_one:
  assumes "pads ! 0 = pads' ! 0"
  shows "pad_values MAIN_SHINY_PADS C pads n s = pad_values MAIN_SHINY_PADS C pads' n s"
  by (induction n arbitrary: s) (simp_all add: pad_step_one [OF assms] Let_def)

lemma take_words_bytes: "take (8 * n) (words_bytes ws) = words_bytes (take n ws)"
proof (induction ws arbitrary: n)
  case (Cons w ws)
  then show ?case by (cases n) (simp_all add: words_bytes_def)
qed (simp add: words_bytes_def)

lemma final_salt_one:
  assumes "unat C \<ge> 33" and "length (pads ! 0) \<ge> unat C - 1"
  shows "take (8 * 16) (words_bytes (concat (map (\<lambda>i. take 32 (drop (unat C - 1 - 32) (pads ! i))) [0..<16]))) =
    words_bytes (take 16 (drop (unat C - 33) (pads ! 0)))"
proof -
  have "[0..<16] = 0 # [1..<16]" by (simp add: upt_conv_Cons)
  then show ?thesis using assms by (simp only: take_words_bytes) simp
qed

lemma run_iterations_one:
  assumes "pads ! 0 = pads' ! 0" and "unat C \<ge> 33 \<longrightarrow> length (pads ! 0) \<ge> unat C - 1"
  shows "ramhog_run_iterations lib input n MAIN_SHINY_PADS C I pads = ramhog_run_iterations lib input n MAIN_SHINY_PADS C I pads'"
proof (cases "unat C < 33")
  case False
  have N: "unat MAIN_SHINY_PADS = 16" by (simp add: MAIN_SHINY_PADS_def)
  show ?thesis using False assms final_salt_one [of C pads] final_salt_one [of C pads']
    by (simp only: ramhog_run_iterations_def N pad_step_one [OF assms(1)] pad_values_one [OF assms(1)] Let_def not_less)
qed (simp add: ramhog_run_iterations_def)

text \<open>
  C13. The proof of work reads one pad of its sixteen. The number of the pad is the upper half of a word, which is not
  shifted down, modulo the number of pads; on both networks there are sixteen, and the remainder is always 0. The chunks of
  the other pads do not reach the salt either, since only as many words of them as there are pads are hashed. So the hash is a function of
  the first pad alone: whatever stands in place of the others, the result is the same.
\<close>

theorem ramhog_uses_one_pad:
  "MAIN_SHINY_PADS = TEST_SHINY_PADS \<and>
     ramhog lib input n MAIN_SHINY_PADS C I =
     ramhog_run_iterations lib input n MAIN_SHINY_PADS C I (ramhog_gen_pad lib input C 0 # others)"
proof
  have "length (ramhog_gen_pad lib input C 0) \<ge> unat C - 1" if "unat C \<ge> 33"
    using length_ramhog_gen_pad [of C lib input 0] that by simp
  moreover have "map (\<lambda>i. ramhog_gen_pad lib input C (of_nat i)) [0..<unat MAIN_SHINY_PADS] ! 0 = ramhog_gen_pad lib input C 0"
    by (simp add: MAIN_SHINY_PADS_def)
  ultimately show "ramhog lib input n MAIN_SHINY_PADS C I =
     ramhog_run_iterations lib input n MAIN_SHINY_PADS C I (ramhog_gen_pad lib input C 0 # others)"
    unfolding ramhog_def by (intro run_iterations_one) auto
qed (simp add: MAIN_SHINY_PADS_def TEST_SHINY_PADS_def)

end
