(* ===== verification/Base58.thy ===== *)
theory Base58
  imports Crypto
begin

text \<open>
  Base58 text and addresses, \<^verbatim>\<open>src/src/base58.h\<close>: the codec over \<^verbatim>\<open>CBigNum\<close>, the
  checksummed form, \<^verbatim>\<open>CBase58Data\<close> and \<^verbatim>\<open>CBitcoinAddress\<close>.
\<close>

section \<open>The codec\<close>

definition pszBase58 :: string where
  "pszBase58 = ''123456789ABCDEFGHJKLMNPQRSTUVWXYZabcdefghijkmnopqrstuvwxyz''"

text \<open>The division loop of \<^verbatim>\<open>EncodeBase58\<close>.\<close>

function b58_loop :: "nat \<Rightarrow> string" where
  "b58_loop bn = (if bn > 0 then pszBase58 ! (bn mod 58) # b58_loop (bn div 58) else [])"
  by pat_completeness auto
termination
  by (relation "measure id") auto

declare b58_loop.simps [simp del]

definition EncodeBase58 :: "'a bignum_lib_scheme \<Rightarrow> bytes \<Rightarrow> string" where
  "EncodeBase58 lib vch =
     (let vchTmp = rev vch @ [0];
          bn = setvch lib vchTmp;
          str = b58_loop (nat bn);
          str = str @ map (\<lambda>_. pszBase58 ! 0) (takeWhile (\<lambda>b. b = 0) vch)
      in rev str)"

text \<open>\<^verbatim>\<open>strchr(pszBase58, c) - pszBase58\<close> for a character other than the terminator.\<close>

fun index_of :: "'b \<Rightarrow> 'b list \<Rightarrow> nat option" where
  "index_of c [] = None"
| "index_of c (d # ds) = (if c = d then Some 0 else map_option Suc (index_of c ds))"

fun b58_scan :: "int \<Rightarrow> string \<Rightarrow> int option" where
  "b58_scan bn [] = Some bn"
| "b58_scan bn (c # p) =
     (case index_of c pszBase58 of
        None \<Rightarrow> if dropWhile isspace (c # p) \<noteq> [] then None else Some bn
      | Some i \<Rightarrow> b58_scan (bn * 58 + int i) p)"

definition trim_sign :: "bytes \<Rightarrow> bytes" where
  "trim_sign vchTmp =
     (if length vchTmp \<ge> 2 \<and> last vchTmp = 0 \<and> vchTmp ! (length vchTmp - 2) \<ge> 0x80
      then butlast vchTmp else vchTmp)"

definition DecodeBase58 :: "'a bignum_lib_scheme \<Rightarrow> string \<Rightarrow> bytes option" where
  "DecodeBase58 lib str =
     (let psz = dropWhile isspace (takeWhile (\<lambda>c. c \<noteq> CHR 0x00) str) in
      case b58_scan 0 psz of
        None \<Rightarrow> None
      | Some bn \<Rightarrow>
          (let vchTmp = trim_sign (getvch lib bn);
               nLeadingZeros = length (takeWhile (\<lambda>c. c = pszBase58 ! 0) psz)
           in Some (replicate nLeadingZeros 0 @ rev vchTmp)))"

definition EncodeBase58Check :: "'a openssl_scheme \<Rightarrow> bytes \<Rightarrow> string" where
  "EncodeBase58Check lib vchIn =
     (let hash = Hash lib vchIn in EncodeBase58 lib (vchIn @ take 4 (image256 hash)))"

text \<open>The failing branches clear the output vector; \<open>None\<close> stands for the cleared vector.\<close>

definition DecodeBase58Check :: "'a openssl_scheme \<Rightarrow> string \<Rightarrow> bytes option" where
  "DecodeBase58Check lib psz =
     (case DecodeBase58 lib psz of
        None \<Rightarrow> None
      | Some vchRet \<Rightarrow>
          if length vchRet < 4 then None
          else
            let body = take (length vchRet - 4) vchRet;
                hash = Hash lib body
            in if take 4 (image256 hash) \<noteq> drop (length vchRet - 4) vchRet then None else Some body)"

section \<open>Versioned data\<close>

record CBase58Data =
  nVersion :: byte
  vchData :: bytes

definition CBase58Data_empty :: CBase58Data where
  "CBase58Data_empty = \<lparr> nVersion = 0, vchData = [] \<rparr>"

definition SetData :: "byte \<Rightarrow> bytes \<Rightarrow> CBase58Data" where
  "SetData nVersionIn pdata = \<lparr> nVersion = nVersionIn, vchData = pdata \<rparr>"

text \<open>\<^verbatim>\<open>SetString\<close>: the answer and the new contents.\<close>

definition SetString :: "'a openssl_scheme \<Rightarrow> string \<Rightarrow> bool \<times> CBase58Data" where
  "SetString lib psz =
     (case DecodeBase58Check lib psz of
        Some (v # d) \<Rightarrow> (True, \<lparr> nVersion = v, vchData = d \<rparr>)
      | _ \<Rightarrow> (False, CBase58Data_empty))"

definition ToString :: "'a openssl_scheme \<Rightarrow> CBase58Data \<Rightarrow> string" where
  "ToString lib d = EncodeBase58Check lib (nVersion d # vchData d)"

fun vch_less :: "bytes \<Rightarrow> bytes \<Rightarrow> bool" where
  "vch_less [] [] = False"
| "vch_less [] (y # ys) = True"
| "vch_less (x # xs) [] = False"
| "vch_less (x # xs) (y # ys) = (if x < y then True else if y < x then False else vch_less xs ys)"

definition CompareTo :: "CBase58Data \<Rightarrow> CBase58Data \<Rightarrow> int" where
  "CompareTo a b =
     (if nVersion a < nVersion b then -1
      else if nVersion a > nVersion b then 1
      else if vch_less (vchData a) (vchData b) then -1
      else if vch_less (vchData b) (vchData a) then 1
      else 0)"

section \<open>Addresses\<close>

type_synonym CBitcoinAddress = CBase58Data

definition PUBKEY_ADDRESS :: byte where "PUBKEY_ADDRESS = 63"
definition SCRIPT_ADDRESS :: byte where "SCRIPT_ADDRESS = 125"
definition PUBKEY_ADDRESS_TEST :: byte where "PUBKEY_ADDRESS_TEST = 6"
definition SCRIPT_ADDRESS_TEST :: byte where "SCRIPT_ADDRESS_TEST = 11"

lemmas address_versions = PUBKEY_ADDRESS_def SCRIPT_ADDRESS_def PUBKEY_ADDRESS_TEST_def SCRIPT_ADDRESS_TEST_def

definition SetHash160 :: "bool \<Rightarrow> uint160 \<Rightarrow> CBitcoinAddress" where
  "SetHash160 fTestNet hash160 =
     SetData (if fTestNet then PUBKEY_ADDRESS_TEST else PUBKEY_ADDRESS) (image160 hash160)"

definition SetPubKey :: "'a openssl_scheme \<Rightarrow> bool \<Rightarrow> bytes \<Rightarrow> CBitcoinAddress" where
  "SetPubKey lib fTestNet vchPubKey = SetHash160 fTestNet (Hash160 lib vchPubKey)"

definition SetScriptHash160 :: "bool \<Rightarrow> uint160 \<Rightarrow> CBitcoinAddress" where
  "SetScriptHash160 fTestNet hash160 =
     SetData (if fTestNet then SCRIPT_ADDRESS_TEST else SCRIPT_ADDRESS) (image160 hash160)"

definition Address_IsValid :: "bool \<Rightarrow> CBitcoinAddress \<Rightarrow> bool" where
  "Address_IsValid fTestNet a =
     (if nVersion a = PUBKEY_ADDRESS then \<not> fTestNet \<and> length (vchData a) = 20
      else if nVersion a = SCRIPT_ADDRESS then \<not> fTestNet \<and> length (vchData a) = 20
      else if nVersion a = PUBKEY_ADDRESS_TEST then fTestNet \<and> length (vchData a) = 20
      else if nVersion a = SCRIPT_ADDRESS_TEST then fTestNet \<and> length (vchData a) = 20
      else False)"

definition IsScript :: "bool \<Rightarrow> CBitcoinAddress \<Rightarrow> bool" where
  "IsScript fTestNet a =
     (if \<not> Address_IsValid fTestNet a then False
      else if fTestNet then nVersion a = SCRIPT_ADDRESS_TEST
      else nVersion a = SCRIPT_ADDRESS)"

text \<open>\<^verbatim>\<open>GetHash160\<close> asserts that there are 20 bytes; \<open>None\<close> is the failed assertion.\<close>

definition GetHash160 :: "CBitcoinAddress \<Rightarrow> uint160 option" where
  "GetHash160 a = (if length (vchData a) = 20 then Some (bytes_word (vchData a)) else None)"

section \<open>Secrets\<close>

definition SetSecret :: "bool \<Rightarrow> bytes \<Rightarrow> bool \<Rightarrow> CBase58Data option" where
  "SetSecret fTestNet vchSecret fCompressed =
     (if length vchSecret \<noteq> 32 then None
      else let d = SetData (128 + (if fTestNet then PUBKEY_ADDRESS_TEST else PUBKEY_ADDRESS)) vchSecret
           in Some (if fCompressed then d\<lparr>vchData := vchData d @ [1]\<rparr> else d))"

definition GetSecret :: "CBase58Data \<Rightarrow> bytes \<times> bool" where
  "GetSecret d = (take 32 (vchData d), length (vchData d) = 33)"

definition Secret_IsValid :: "bool \<Rightarrow> CBase58Data \<Rightarrow> bool" where
  "Secret_IsValid fTestNet d =
     (let sizes = length (vchData d) = 32 \<or> (length (vchData d) = 33 \<and> vchData d ! 32 = 1) in
      if nVersion d = 128 + PUBKEY_ADDRESS then \<not> fTestNet \<and> sizes
      else if nVersion d = 128 + PUBKEY_ADDRESS_TEST then fTestNet \<and> sizes
      else False)"

definition Secret_SetString :: "'a openssl_scheme \<Rightarrow> bool \<Rightarrow> string \<Rightarrow> bool \<times> CBase58Data" where
  "Secret_SetString lib fTestNet pszSecret =
     (let (ok, d) = SetString lib pszSecret in (ok \<and> Secret_IsValid fTestNet d, d))"

section \<open>Round trips of the codec\<close>

lemma base58_digit:
  assumes "n < 58"
  shows "index_of (pszBase58 ! n) pszBase58 = Some n" and "\<not> isspace (pszBase58 ! n)"
    and "pszBase58 ! n \<noteq> CHR 0x00" and "pszBase58 ! n = pszBase58 ! 0 \<longleftrightarrow> n = 0"
proof -
  have "list_all (\<lambda>n. index_of (pszBase58 ! n) pszBase58 = Some n \<and> \<not> isspace (pszBase58 ! n) \<and>
      pszBase58 ! n \<noteq> CHR 0x00 \<and> (pszBase58 ! n = pszBase58 ! 0 \<longleftrightarrow> n = 0)) [0..<58]"
    by code_simp
  then show "index_of (pszBase58 ! n) pszBase58 = Some n" and "\<not> isspace (pszBase58 ! n)"
    and "pszBase58 ! n \<noteq> CHR 0x00" and "pszBase58 ! n = pszBase58 ! 0 \<longleftrightarrow> n = 0"
    using assms by (simp_all add: list_all_iff)
qed

definition is_b58 :: "char \<Rightarrow> bool" where
  "is_b58 c = (\<exists>n<58. c = pszBase58 ! n)"

lemma b58_loop_0 [simp]: "b58_loop 0 = []"
  by (simp add: b58_loop.simps)

lemma b58_loop_pos: "0 < m \<Longrightarrow> b58_loop m = pszBase58 ! (m mod 58) # b58_loop (m div 58)"
  by (subst b58_loop.simps) simp

lemma b58_scan_digit:
  "n < 58 \<Longrightarrow> b58_scan bn (pszBase58 ! n # p) = b58_scan (58 * bn + int n) p"
  by (simp add: base58_digit(1) mult.commute)

lemma b58_scan_loop:
  "b58_scan bn (rev (b58_loop m) @ p) = b58_scan (bn * 58 ^ length (b58_loop m) + int m) p"
proof (induction m arbitrary: p rule: b58_loop.induct)
  case (1 m)
  show ?case
  proof (cases "m = 0")
    case False
    let ?k = "length (b58_loop (m div 58))"
    have "b58_scan bn (rev (b58_loop m) @ p) =
        b58_scan (bn * 58 ^ ?k + int (m div 58)) (pszBase58 ! (m mod 58) # p)"
      using "1" [of "pszBase58 ! (m mod 58) # p"] False by (simp add: b58_loop_pos)
    also have "\<dots> = b58_scan (58 * (bn * 58 ^ ?k + int (m div 58)) + int (m mod 58)) p"
      by (simp add: b58_scan_digit del: b58_scan.simps)
    also have "58 * (bn * 58 ^ ?k + int (m div 58)) + int (m mod 58) =
        bn * 58 ^ length (b58_loop m) + int m"
      using False by (simp add: b58_loop_pos distrib_left of_nat_div of_nat_mod)
    finally show ?thesis .
  qed simp
qed

lemma b58_loop_chars: "c \<in> set (b58_loop m) \<Longrightarrow> is_b58 c"
proof (induction m rule: b58_loop.induct)
  case (1 m)
  show ?case
  proof (cases "m = 0")
    case False
    moreover have "is_b58 (pszBase58 ! (m mod 58))"
      unfolding is_b58_def by (metis mod_less_divisor zero_less_numeral)
    ultimately show ?thesis using 1 by (auto simp: b58_loop_pos)
  qed (use 1 in simp)
qed

lemma b58_loop_last: "0 < m \<Longrightarrow> b58_loop m \<noteq> [] \<and> last (b58_loop m) \<noteq> pszBase58 ! 0"
proof (induction m rule: b58_loop.induct)
  case (1 m)
  then have e: "b58_loop m = pszBase58 ! (m mod 58) # b58_loop (m div 58)" by (simp add: b58_loop_pos)
  show ?case
  proof (cases "0 < m div 58")
    case True
    then show ?thesis using 1 e by simp
  next
    case False
    then have "m < 58" by (simp add: div_eq_0_iff)
    then show ?thesis using 1 e base58_digit(4) [of m] by simp
  qed
qed

lemma b58_scan_ones: "b58_scan 0 (replicate z (pszBase58 ! 0) @ p) = b58_scan 0 p"
proof (induction z)
  case (Suc z)
  then show ?case using b58_scan_digit [of 0 0] by simp
qed simp

lemma takeWhile_ones:
  "takeWhile (\<lambda>c. c = pszBase58 ! 0) (replicate z (pszBase58 ! 0) @ rev (b58_loop m)) = replicate z (pszBase58 ! 0)"
proof (cases "m = 0")
  case False
  then obtain x xs where x: "rev (b58_loop m) = x # xs" "x \<noteq> pszBase58 ! 0"
    using b58_loop_last [of m] by (metis gr_zeroI last_snoc list.exhaust rev.simps(2) rev_is_Nil_conv rev_rev_ident)
  have "takeWhile (\<lambda>c. c = pszBase58 ! 0) (x # xs) = []" using x by simp
  then show ?thesis unfolding x by (induction z) simp_all
qed (induction z; simp)

text \<open>A byte string is its leading zeros followed by its significant part.\<close>

lemma leading_zeros:
  obtains ms where "vch = replicate (length (takeWhile (\<lambda>b. b = 0) vch)) 0 @ ms"
    and "ms = [] \<or> hd ms \<noteq> (0 :: byte)"
proof -
  let ?P = "\<lambda>b :: byte. b = 0"
  have "takeWhile ?P vch = replicate (length (takeWhile ?P vch)) 0"
    by (rule replicate_eqI) (auto dest: set_takeWhileD)
  moreover have "takeWhile ?P vch @ dropWhile ?P vch = vch" by simp
  moreover have "dropWhile ?P vch = [] \<or> hd (dropWhile ?P vch) \<noteq> 0" using hd_dropWhile [of ?P vch] by blast
  ultimately show ?thesis using that by metis
qed

lemma be_val_zeros: "be_val (replicate z 0 @ ms) = be_val ms"
  by (induction z) (simp_all)

text \<open>The sign byte that \<^verbatim>\<open>getvch\<close> appends is trimmed again.\<close>

lemma trim_getvch:
  assumes lib: "mpi_format lib" and ms: "ms = [] \<or> hd ms \<noteq> 0" and len: "length ms < 2 ^ 31"
  shows "trim_sign (getvch lib (int (be_val ms))) = rev ms"
proof (cases ms)
  case Nil
  then have "getvch lib (int (be_val ms)) = []"
    using getvch_eqI [OF lib, of "[]"] by (simp add: minimal_vch_def)
  then show ?thesis using Nil by (simp add: trim_sign_def)
next
  case (Cons x xs)
  then have x: "x \<noteq> 0" using ms by simp
  show ?thesis
  proof (cases "x AND 0x80 = 0")
    case True
    have "mpi_val (rev (rev ms)) = int (be_val ms)" "minimal_vch (rev ms)"
      using True x by (cases xs; simp add: Cons Let_def minimal_vch_def byte_sign_clear byte_sign_nonzero)+
    then have g: "getvch lib (int (be_val ms)) = rev ms"
      using getvch_eqI [OF lib, of "rev ms"] len by simp
    then show ?thesis using x Cons by (simp add: trim_sign_def)
  next
    case False
    have "mpi_val (rev (rev ms @ [0])) = int (be_val ms)" "minimal_vch (rev ms @ [0])"
      using False by (simp_all add: Cons Let_def minimal_vch_def)
    then have g: "getvch lib (int (be_val ms)) = rev ms @ [0]"
      using getvch_eqI [OF lib, of "rev ms @ [0]"] len by simp
    have "0x80 \<le> x" using byte_sign_large [OF False] by (simp add: word_le_nat_alt)
    then have "0x80 \<le> (rev ms @ [0]) ! (length (rev ms @ [0]) - 2)" using Cons
      by (simp add: nth_append)
    moreover have "length (rev ms @ [0]) \<ge> 2" using Cons by simp
    ultimately show ?thesis unfolding g trim_sign_def by simp
  qed
qed

lemma DecodeBase58_EncodeBase58:
  assumes lib: "mpi_format lib" and len: "length vch < 2 ^ 31"
  shows "DecodeBase58 lib (EncodeBase58 lib vch) = Some vch"
proof -
  define z where "z = length (takeWhile (\<lambda>b. b = 0) vch)"
  obtain ms where v: "vch = replicate z 0 @ ms" and ms: "ms = [] \<or> hd ms \<noteq> 0"
    unfolding z_def by (rule leading_zeros)
  define str where "str = replicate z (pszBase58 ! 0) @ rev (b58_loop (be_val ms))"
  have "setvch lib (rev vch @ [0]) = mpi_val (0 # vch)"
    using setvch_mpi_val [OF lib, of "rev vch @ [0]"] len by simp
  also have "\<dots> = int (be_val ms)" by (simp add: Let_def v be_val_zeros)
  finally have enc: "EncodeBase58 lib vch = str"
    by (simp add: EncodeBase58_def Let_def str_def map_replicate_const z_def)
  have chars: "is_b58 c" if "c \<in> set str" for c
    using that b58_loop_chars unfolding str_def is_b58_def by fastforce
  then have "takeWhile (\<lambda>c. c \<noteq> CHR 0x00) str = str"
    using base58_digit(3) by (fastforce simp: takeWhile_eq_all_conv is_b58_def)
  moreover have "dropWhile isspace str = str"
    using chars base58_digit(2) by (cases str) (auto simp: is_b58_def)
  moreover have "b58_scan 0 str = Some (int (be_val ms))"
    unfolding str_def using b58_scan_ones b58_scan_loop [of 0 "be_val ms" "[]"] by simp
  moreover have "length ms < 2 ^ 31" using len v by simp
  moreover have "takeWhile (\<lambda>c. c = pszBase58 ! 0) str = replicate z (pszBase58 ! 0)"
    unfolding str_def by (rule takeWhile_ones)
  ultimately show ?thesis
    unfolding enc DecodeBase58_def Let_def by (simp only: trim_getvch [OF lib ms] option.case) (simp add: v)
qed

lemma DecodeBase58Check_Encode:
  assumes lib: "mpi_format lib" and len: "length vch < 2 ^ 30"
  shows "DecodeBase58Check lib (EncodeBase58Check lib vch) = Some vch"
proof -
  have "DecodeBase58 lib (EncodeBase58Check lib vch) = Some (vch @ take 4 (image256 (Hash lib vch)))"
    unfolding EncodeBase58Check_def Let_def
    by (rule DecodeBase58_EncodeBase58 [OF lib]) (use len in simp)
  then show ?thesis by (simp add: DecodeBase58Check_def)
qed

lemma SetString_ToString_eq:
  "mpi_format lib \<Longrightarrow> length (vchData d) < 2 ^ 30 - 1 \<Longrightarrow> SetString lib (ToString lib d) = (True, d)"
  by (simp add: SetString_def ToString_def DecodeBase58Check_Encode)

lemma ToString_inj:
  assumes "mpi_format lib" and "length (vchData a) < 2 ^ 30 - 1" and "length (vchData b) < 2 ^ 30 - 1"
    and "ToString lib a = ToString lib b"
  shows "a = b"
  using SetString_ToString_eq [OF assms(1,2)] SetString_ToString_eq [OF assms(1,3)] assms(4)
  by (metis prod.inject)

lemma vch_less_total: "\<not> vch_less a b \<Longrightarrow> \<not> vch_less b a \<Longrightarrow> a = b"
  by (induction a b rule: vch_less.induct) (auto split: if_splits)

lemma vch_less_irrefl: "\<not> vch_less a a"
  by (induction a) auto

lemma CompareTo_0: "CompareTo a b = 0 \<longleftrightarrow> a = b"
proof
  assume "CompareTo a b = 0"
  then have "nVersion a = nVersion b" "vchData a = vchData b"
    using vch_less_total by (auto simp: CompareTo_def split: if_splits)
  then show "a = b" by simp
qed (simp add: CompareTo_def vch_less_irrefl)

section \<open>Properties\<close>

text \<open>
  Parsing the text of any base58 object gives the object back: the checksum verifies, leading
  zero bytes and the sign byte of the big number are restored. In particular the text form of an
  address determines its version and hash.
\<close>

theorem SetString_ToString:
  assumes "mpi_format lib" and "length (vchData d) < 2 ^ 30 - 1"
  shows "SetString lib (ToString lib d) = (True, d)"
  by (rule SetString_ToString_eq [OF assms])

theorem SetString_ToString_witness:
  "SetString demo_lib (ToString demo_lib (SetHash160 False 0x1234)) = (True, SetHash160 False 0x1234)"
  using SetString_ToString [OF demo_lib_format, of "SetHash160 False 0x1234"]
  by (simp add: SetHash160_def SetData_def)

text \<open>
  Addresses made from a key hash or a script hash are valid on the network they are made for
  and on no other, return the hash, and the two kinds are told apart.
\<close>

theorem address_kinds:
  "Address_IsValid net (SetHash160 net h) \<and> Address_IsValid net (SetScriptHash160 net h) \<and>
   \<not> Address_IsValid (\<not> net) (SetHash160 net h) \<and> \<not> Address_IsValid (\<not> net) (SetScriptHash160 net h) \<and>
   \<not> IsScript net (SetHash160 net h) \<and> IsScript net (SetScriptHash160 net h) \<and>
   GetHash160 (SetHash160 net h) = Some h \<and> GetHash160 (SetScriptHash160 net h) = Some h"
proof -
  have "bytes_word (image160 h) = h" by (rule bytes_word_bytes) simp
  then show ?thesis
    by (simp add: Address_IsValid_def SetHash160_def SetScriptHash160_def SetData_def IsScript_def
        GetHash160_def address_versions)
qed

lemma SetSecret_valid:
  "length sec = 32 \<Longrightarrow> \<exists>d. SetSecret net sec c = Some d \<and> Secret_IsValid net d \<and> GetSecret d = (sec, c)"
  by (auto simp: SetSecret_def Let_def Secret_IsValid_def GetSecret_def SetData_def address_versions nth_append)

end
