(* ===== verification/TxInfo.thy ===== *)
theory TxInfo
  imports Base58
begin

text \<open>
  The store of transaction infos, \<^verbatim>\<open>src/src/txinfo.h\<close> and \<^verbatim>\<open>src/src/txinfo.cpp\<close>:
  key/value pairs that transactions attach to addresses (names, unique names, write-once and
  ordinary values), kept in one SQLite table with the full history of every key.

  The table is the list of its rows in the order of the \<^verbatim>\<open>AUTOINCREMENT\<close> id; every SQL statement of
  the sources is a list operation. An open \<^verbatim>\<open>SQLite::Transaction\<close> is the contents to
  which deleting it returns. \<^verbatim>\<open>std::string\<close> keys and values are byte strings; address and block
  hash columns hold the text the sources bind.
\<close>

section \<open>Keys and infos\<close>

definition INFO_NORMAL :: byte where "INFO_NORMAL = 0"
definition INFO_WRITE_ONCE :: byte where "INFO_WRITE_ONCE = 1"
definition INFO_UNIQUE :: byte where "INFO_UNIQUE = 2"
definition INFO_ID :: byte where "INFO_ID = 3"
definition TX_INFO_MAX_VALID_TYPE :: byte where "TX_INFO_MAX_VALID_TYPE = 3"

lemmas info_types = INFO_NORMAL_def INFO_WRITE_ONCE_def INFO_UNIQUE_def INFO_ID_def TX_INFO_MAX_VALID_TYPE_def

record TxInfoKey =
  key_type :: byte
  keyString :: bytes

record CTxInfo =
  info_key :: TxInfoKey
  info_value :: bytes

record TxInfoRecord =
  rec_addr :: CBitcoinAddress
  rec_info :: CTxInfo
  rec_blockHash :: uint256
  rec_indexTx :: int
  rec_indexTxIn :: int
  rec_indexInfo :: int

definition str_bytes :: "string \<Rightarrow> bytes" where
  "str_bytes s = map of_char s"

definition IsValidIDCharacter :: "byte \<Rightarrow> bool" where
  "IsValidIDCharacter c =
     ((of_char (CHR ''a'') \<le> c \<and> c \<le> of_char (CHR ''z'')) \<or>
      (of_char (CHR ''0'') \<le> c \<and> c \<le> of_char (CHR ''9'')) \<or> c = of_char (CHR ''-''))"

text \<open>The validity checks answer the reason they fail with.\<close>

definition TxInfoKey_IsValid :: "TxInfoKey \<Rightarrow> string option" where
  "TxInfoKey_IsValid k =
     (if key_type k > TX_INFO_MAX_VALID_TYPE then Some ''Invalid key type''
      else if keyString k = [] then Some ''Key string is empty''
      else if \<not> list_all IsValidIDCharacter (keyString k) then Some ''Invalid ID character in key''
      else None)"

definition CTxInfo_IsValid :: "CTxInfo \<Rightarrow> string option" where
  "CTxInfo_IsValid i =
     (case TxInfoKey_IsValid (info_key i) of
        Some reason \<Rightarrow> Some reason
      | None \<Rightarrow>
          if info_value i = [] then Some ''Invalid value''
          else if key_type (info_key i) = INFO_ID \<and> \<not> list_all IsValidIDCharacter (info_value i)
          then Some ''Invalid ID character in value''
          else None)"

definition TxInfoKey_ToString :: "TxInfoKey \<Rightarrow> bytes" where
  "TxInfoKey_ToString k =
     (if key_type k = INFO_ID \<and> keyString k = str_bytes ''n'' then str_bytes ''Name''
      else if key_type k = INFO_NORMAL then str_bytes ''n:'' @ keyString k
      else if key_type k = INFO_WRITE_ONCE then str_bytes ''w:'' @ keyString k
      else if key_type k = INFO_UNIQUE then str_bytes ''u:'' @ keyString k
      else if key_type k = INFO_ID then str_bytes ''i:'' @ keyString k
      else str_bytes ''!Invalid!'')"

definition CTxInfo_ToString :: "CTxInfo \<Rightarrow> bytes" where
  "CTxInfo_ToString i = TxInfoKey_ToString (info_key i) @ str_bytes '': '' @ info_value i"

section \<open>The table\<close>

record TxDbEntry =
  row_id :: nat
  is_latest :: bool
  row_address :: string
  row_key_type :: byte
  row_key :: bytes
  row_value :: bytes
  row_block_hash :: string
  row_index_tx :: int
  row_index_txin :: int
  row_index_info :: int

record CTxInfoStore =
  rows :: "TxDbEntry list"
  next_id :: nat
  curTransaction :: "(TxDbEntry list \<times> nat) option"
  byteEstimate :: uint32

text \<open>What a fallible operation answers: true, false with a reason, or an exception.\<close>

datatype answer = Yes | No string | Throws string

text \<open>\<^verbatim>\<open>uint256::GetHex(64)\<close> and \<^verbatim>\<open>uint256::SetHex\<close>.\<close>

definition hash_hex :: "uint256 \<Rightarrow> string" where
  "hash_hex h = GetHex (bytes_limbs (word_bytes 32 h)) 64"

definition hex_hash :: "string \<Rightarrow> uint256" where
  "hex_hash s = bytes_word (limbs_bytes (SetHex 8 s))"

text \<open>\<^verbatim>\<open>WHERE address=? AND key_type=? AND key=?\<close>\<close>

definition row_matches :: "string \<Rightarrow> TxInfoKey \<Rightarrow> TxDbEntry \<Rightarrow> bool" where
  "row_matches addr k r = (row_address r = addr \<and> row_key_type r = key_type k \<and> row_key r = keyString k)"

section \<open>Transactions\<close>

definition Store_Initialize :: CTxInfoStore where
  "Store_Initialize = \<lparr> rows = [], next_id = 1, curTransaction = None, byteEstimate = 0 \<rparr>"

definition Store_Reset :: "CTxInfoStore \<Rightarrow> CTxInfoStore" where
  "Store_Reset s = s\<lparr> rows := [], next_id := 1 \<rparr>"

definition InTransaction :: "CTxInfoStore \<Rightarrow> bool" where
  "InTransaction s = (curTransaction s \<noteq> None)"

definition BeginTransaction :: "CTxInfoStore \<Rightarrow> answer \<times> CTxInfoStore" where
  "BeginTransaction s =
     (if InTransaction s then (Throws ''Database view already has a transaction'', s)
      else (Yes, s\<lparr> byteEstimate := 0, curTransaction := Some (rows s, next_id s) \<rparr>))"

definition Store_Commit :: "CTxInfoStore \<Rightarrow> answer \<times> CTxInfoStore" where
  "Store_Commit s =
     (if \<not> InTransaction s then (Throws ''Can't Commit() without a transaction'', s)
      else (Yes, s\<lparr> curTransaction := None, byteEstimate := 0 \<rparr>))"

definition Store_Rollback :: "CTxInfoStore \<Rightarrow> answer \<times> CTxInfoStore" where
  "Store_Rollback s =
     (case curTransaction s of
        None \<Rightarrow> (Throws ''Can't Rollback() without a transaction'', s)
      | Some (rs, n) \<Rightarrow> (Yes, s\<lparr> rows := rs, next_id := n, curTransaction := None, byteEstimate := 0 \<rparr>))"

definition GetCommitByteEstimate :: "CTxInfoStore \<Rightarrow> uint32" where
  "GetCommitByteEstimate s = (if \<not> InTransaction s then 0 else byteEstimate s)"

section \<open>Queries\<close>

definition AddressesWithValue ::
  "'a openssl_scheme \<Rightarrow> CTxInfoStore \<Rightarrow> TxInfoKey \<Rightarrow> bytes \<Rightarrow> CBitcoinAddress list" where
  "AddressesWithValue lib s k v =
     map (\<lambda>r. snd (SetString lib (row_address r)))
       (filter (\<lambda>r. row_key_type r = key_type k \<and> row_key r = keyString k \<and> row_value r = v \<and> is_latest r) (rows s))"

definition UniqueAddressWithValue ::
  "'a openssl_scheme \<Rightarrow> CTxInfoStore \<Rightarrow> TxInfoKey \<Rightarrow> bytes \<Rightarrow> string + CBitcoinAddress option" where
  "UniqueAddressWithValue lib s k v =
     (if \<not> (key_type k = INFO_UNIQUE \<or> key_type k = INFO_ID) then
        Inl ''Only unique-type keys can have a unique address for a given value''
      else
        let resultSet = AddressesWithValue lib s k v in
        if resultSet = [] then Inr None
        else if length resultSet > 1 then Inl ''Unique key has multiple addresses for one value!''
        else Inr (Some (hd resultSet)))"

text \<open>The row with the largest id among the matching ones, \<^verbatim>\<open>WHERE id=(SELECT MAX(id) ...)\<close>.\<close>

definition max_id_row :: "string \<Rightarrow> TxInfoKey \<Rightarrow> TxDbEntry list \<Rightarrow> nat option" where
  "max_id_row addr k rs =
     (let ids = map row_id (filter (row_matches addr k) rs)
      in if ids = [] then None else Some (fold max ids 0))"

definition Store_Get :: "'a openssl_scheme \<Rightarrow> CTxInfoStore \<Rightarrow> CBitcoinAddress \<Rightarrow> TxInfoKey \<Rightarrow> bytes option" where
  "Store_Get lib s addr k =
     (let m = max_id_row (ToString lib addr) k (rows s)
      in case filter (\<lambda>r. Some (row_id r) = m) (rows s) of
           [] \<Rightarrow> None
         | r # _ \<Rightarrow> Some (row_value r))"

definition RecordsWithAddress :: "'a openssl_scheme \<Rightarrow> CTxInfoStore \<Rightarrow> CBitcoinAddress \<Rightarrow> TxInfoRecord list" where
  "RecordsWithAddress lib s addr =
     map (\<lambda>r. \<lparr> rec_addr = addr,
               rec_info = \<lparr> info_key = \<lparr> key_type = row_key_type r, keyString = row_key r \<rparr>, info_value = row_value r \<rparr>,
               rec_blockHash = hex_hash (row_block_hash r), rec_indexTx = row_index_tx r,
               rec_indexTxIn = row_index_txin r, rec_indexInfo = row_index_info r \<rparr>)
       (filter (\<lambda>r. row_address r = ToString lib addr) (rows s))"

definition RecordsWithKey :: "'a openssl_scheme \<Rightarrow> CTxInfoStore \<Rightarrow> TxInfoKey \<Rightarrow> TxInfoRecord list" where
  "RecordsWithKey lib s k =
     map (\<lambda>r. \<lparr> rec_addr = snd (SetString lib (row_address r)),
               rec_info = \<lparr> info_key = k, info_value = row_value r \<rparr>,
               rec_blockHash = hex_hash (row_block_hash r), rec_indexTx = row_index_tx r,
               rec_indexTxIn = row_index_txin r, rec_indexInfo = row_index_info r \<rparr>)
       (filter (\<lambda>r. row_key_type r = key_type k \<and> row_key r = keyString k) (rows s))"

definition Store_IsValid :: "'a openssl_scheme \<Rightarrow> CTxInfoStore \<Rightarrow> TxInfoRecord \<Rightarrow> answer" where
  "Store_IsValid lib s record =
     (let txDb = rec_info record; k = info_key txDb;
          unique = (key_type k = INFO_UNIQUE \<or> key_type k = INFO_ID);
          count = length (filter (row_matches (ToString lib (rec_addr record)) k) (rows s));
          once = (if (key_type k = INFO_UNIQUE \<or> key_type k = INFO_ID \<or> key_type k = INFO_WRITE_ONCE) \<and> count > 0
                  then No ''A non-overwritable value has already been set'' else Yes)
      in case CTxInfo_IsValid txDb of
           Some reason \<Rightarrow> No reason
         | None \<Rightarrow>
             if unique then
               (case UniqueAddressWithValue lib s k (info_value txDb) of
                  Inl e \<Rightarrow> Throws e
                | Inr (Some _) \<Rightarrow> No ''Unique value is already set''
                | Inr None \<Rightarrow> once)
             else once)"

section \<open>Updates\<close>

definition insert_row :: "'a openssl_scheme \<Rightarrow> nat \<Rightarrow> TxInfoRecord \<Rightarrow> TxDbEntry" where
  "insert_row lib i r =
     \<lparr> row_id = i, is_latest = True, row_address = ToString lib (rec_addr r),
       row_key_type = key_type (info_key (rec_info r)), row_key = keyString (info_key (rec_info r)),
       row_value = info_value (rec_info r), row_block_hash = hash_hex (rec_blockHash r),
       row_index_tx = rec_indexTx r, row_index_txin = rec_indexTxIn r, row_index_info = rec_indexInfo r \<rparr>"

definition do_Process :: "'a openssl_scheme \<Rightarrow> CTxInfoStore \<Rightarrow> TxInfoRecord \<Rightarrow> answer \<times> CTxInfoStore" where
  "do_Process lib s r =
     (case Store_IsValid lib s r of
        Yes \<Rightarrow>
          (let addr = ToString lib (rec_addr r); k = info_key (rec_info r);
               rs = map (\<lambda>x. if row_matches addr k x then x\<lparr> is_latest := False \<rparr> else x) (rows s);
               rs = rs @ [insert_row lib (next_id s) r];
               bytes = 4 + 1 + length addr + 1 + length (keyString k) + length (info_value (rec_info r)) +
                       length (hash_hex (rec_blockHash r)) + 12
           in (Yes, s\<lparr> rows := rs, next_id := next_id s + 1, byteEstimate := byteEstimate s + of_nat bytes \<rparr>))
      | e \<Rightarrow> (e, s))"

definition undo_matches :: "'a openssl_scheme \<Rightarrow> TxInfoRecord \<Rightarrow> TxDbEntry \<Rightarrow> bool" where
  "undo_matches lib r x =
     (is_latest x \<and> row_matches (ToString lib (rec_addr r)) (info_key (rec_info r)) x \<and>
      row_value x = info_value (rec_info r) \<and> row_block_hash x = hash_hex (rec_blockHash r) \<and>
      row_index_tx x = rec_indexTx r \<and> row_index_txin x = rec_indexTxIn r \<and> row_index_info x = rec_indexInfo r)"

definition do_Undo :: "'a openssl_scheme \<Rightarrow> CTxInfoStore \<Rightarrow> TxInfoRecord \<Rightarrow> answer \<times> CTxInfoStore" where
  "do_Undo lib s r =
     (let rowsChanged = length (filter (undo_matches lib r) (rows s));
          rs = filter (\<lambda>x. \<not> undo_matches lib r x) (rows s)
      in if rowsChanged = 0 then (No ''Nothing to undo'', s\<lparr> rows := rs \<rparr>)
         else
           let m = max_id_row (ToString lib (rec_addr r)) (info_key (rec_info r)) rs
           in (Yes, s\<lparr> rows := map (\<lambda>x. if Some (row_id x) = m then x\<lparr> is_latest := True \<rparr> else x) rs \<rparr>))"

section \<open>Views\<close>

text \<open>
  \<^verbatim>\<open>CTxInfoView\<close> opens a transaction when it is made and rolls it back when it is destroyed
  without a commit. \<open>with_view\<close> is the pattern of \<^verbatim>\<open>Process\<close> and \<^verbatim>\<open>Undo\<close>: outside a transaction
  the operation runs in a view of its own, which the destructor rolls back on a false answer and
  on an exception.
\<close>

definition with_view :: "(CTxInfoStore \<Rightarrow> answer \<times> CTxInfoStore) \<Rightarrow> CTxInfoStore \<Rightarrow> answer \<times> CTxInfoStore" where
  "with_view f s =
     (if InTransaction s then f s
      else case BeginTransaction s of
        (Yes, s1) \<Rightarrow>
          (case f s1 of
             (Yes, s2) \<Rightarrow> (case Store_Commit s2 of (Yes, s3) \<Rightarrow> (Yes, s3) | (e, s3) \<Rightarrow> (e, s3))
           | (a, s2) \<Rightarrow> (a, snd (Store_Rollback s2)))
      | (e, s1) \<Rightarrow> (e, s1))"

definition Store_Process :: "'a openssl_scheme \<Rightarrow> CTxInfoStore \<Rightarrow> TxInfoRecord \<Rightarrow> answer \<times> CTxInfoStore" where
  "Store_Process lib s r = with_view (\<lambda>s. do_Process lib s r) s"

definition Store_Undo :: "'a openssl_scheme \<Rightarrow> CTxInfoStore \<Rightarrow> TxInfoRecord \<Rightarrow> answer \<times> CTxInfoStore" where
  "Store_Undo lib s r = with_view (\<lambda>s. do_Undo lib s r) s"

record CTxInfoView =
  view_committed :: bool

definition View_Commit :: "CTxInfoView \<Rightarrow> CTxInfoStore \<Rightarrow> answer \<times> CTxInfoView \<times> CTxInfoStore" where
  "View_Commit v s =
     (if view_committed v then (Throws ''Can't Commit(), this view already over'', v, s)
      else let (a, s') = Store_Commit s in (a, v\<lparr> view_committed := True \<rparr>, s'))"

definition View_Rollback :: "CTxInfoView \<Rightarrow> CTxInfoStore \<Rightarrow> answer \<times> CTxInfoView \<times> CTxInfoStore" where
  "View_Rollback v s =
     (if view_committed v then (Throws ''Can't Rollback(), this view already over'', v, s)
      else let (a, s') = Store_Rollback s in (a, v\<lparr> view_committed := True \<rparr>, s'))"

definition View_destroy :: "CTxInfoView \<Rightarrow> CTxInfoStore \<Rightarrow> CTxInfoStore" where
  "View_destroy v s = (if \<not> view_committed v then snd (Store_Rollback s) else s)"

section \<open>The contract of the store\<close>

text \<open>
  The interface a client of the store relies on: what a store says about a key (\<open>hist\<close>, the values
  in the order they were written), an invariant, and two updates that push and pop. Everything a
  client needs about sequences of updates follows from it.
\<close>

locale info_store =
  fixes inv :: "'s \<Rightarrow> bool"
    and hist :: "'s \<Rightarrow> 'k \<Rightarrow> 'v list"
    and put :: "'r \<Rightarrow> 's \<Rightarrow> 's option"
    and undo :: "'r \<Rightarrow> 's \<Rightarrow> 's option"
    and slot :: "'r \<Rightarrow> 'k"
    and content :: "'r \<Rightarrow> 'v"
    and same :: "'s \<Rightarrow> 's \<Rightarrow> bool"
  assumes put_inv: "inv s \<Longrightarrow> put r s = Some s' \<Longrightarrow> inv s'"
    and put_hist: "inv s \<Longrightarrow> put r s = Some s' \<Longrightarrow> hist s' = (hist s)(slot r := hist s (slot r) @ [content r])"
    and undo_put: "inv s \<Longrightarrow> put r s = Some s' \<Longrightarrow> same t s' \<Longrightarrow> inv t \<Longrightarrow> \<exists>u. undo r t = Some u \<and> inv u \<and> same u s"
    and same_refl: "same s s"
begin

fun puts :: "'r list \<Rightarrow> 's \<Rightarrow> 's option" where
  "puts [] s = Some s"
| "puts (r # rs) s = Option.bind (put r s) (puts rs)"

fun undos :: "'r list \<Rightarrow> 's \<Rightarrow> 's option" where
  "undos [] s = Some s"
| "undos (r # rs) s = Option.bind (undo r s) (undos rs)"

lemma undos_append: "undos (xs @ ys) s = Option.bind (undos xs s) (undos ys)"
  by (induction xs arbitrary: s) (auto split: Option.bind_split)

lemma puts_inv: "inv s \<Longrightarrow> puts rs s = Some s' \<Longrightarrow> inv s'"
  by (induction rs arbitrary: s) (auto simp: Option.bind_eq_Some_conv dest: put_inv)

lemma puts_hist:
  "inv s \<Longrightarrow> puts rs s = Some s' \<Longrightarrow> hist s' k = hist s k @ map content (filter (\<lambda>r. slot r = k) rs)"
proof (induction rs arbitrary: s)
  case (Cons r rs)
  then obtain s1 where "put r s = Some s1" "puts rs s1 = Some s'"
    by (auto simp: Option.bind_eq_Some_conv)
  moreover from this have "inv s1" using Cons.prems put_inv by blast
  ultimately show ?case using Cons put_hist [of s r s1] by simp
qed simp

text \<open>Undoing a sequence of writes from its end returns to the contents before it.\<close>

lemma undos_puts:
  "inv s \<Longrightarrow> puts rs s = Some s' \<Longrightarrow> same t s' \<Longrightarrow> inv t \<Longrightarrow>
     \<exists>u. undos (rev rs) t = Some u \<and> inv u \<and> same u s"
proof (induction rs arbitrary: s t)
  case (Cons r rs)
  then obtain s1 where s1: "put r s = Some s1" "puts rs s1 = Some s'"
    by (auto simp: Option.bind_eq_Some_conv)
  then obtain u where u: "undos (rev rs) t = Some u" "inv u" "same u s1"
    using Cons.IH [of s1 t] Cons.prems put_inv by blast
  then obtain w where "undo r u = Some w" "inv w" "same w s"
    using undo_put [OF Cons.prems(1) s1(1)] by blast
  then show ?case using u by (simp add: undos_append)
qed auto

end

section \<open>The invariant of the table\<close>

definition row_slot :: "TxDbEntry \<Rightarrow> string \<times> byte \<times> bytes" where
  "row_slot r = (row_address r, row_key_type r, row_key r)"

definition rec_slot :: "'a openssl_scheme \<Rightarrow> TxInfoRecord \<Rightarrow> string \<times> byte \<times> bytes" where
  "rec_slot lib r = (ToString lib (rec_addr r), key_type (info_key (rec_info r)), keyString (info_key (rec_info r)))"

definition unique_type :: "byte \<Rightarrow> bool" where
  "unique_type t = (t = INFO_UNIQUE \<or> t = INFO_ID)"

definition once_type :: "byte \<Rightarrow> bool" where
  "once_type t = (t = INFO_UNIQUE \<or> t = INFO_ID \<or> t = INFO_WRITE_ONCE)"

text \<open>A row is the latest one exactly when no later row has its slot.\<close>

fun latest_ok :: "TxDbEntry list \<Rightarrow> bool" where
  "latest_ok [] = True"
| "latest_ok (r # rs) = (is_latest r = (row_slot r \<notin> row_slot ` set rs) \<and> latest_ok rs)"

text \<open>At most one row of a slot that may be written once, and of a unique value.\<close>

fun once_ok :: "TxDbEntry list \<Rightarrow> bool" where
  "once_ok [] = True"
| "once_ok (r # rs) =
     ((once_type (row_key_type r) \<longrightarrow> row_slot r \<notin> row_slot ` set rs) \<and>
      (unique_type (row_key_type r) \<longrightarrow>
         (row_key_type r, row_key r, row_value r) \<notin> (\<lambda>x. (row_key_type x, row_key x, row_value x)) ` set rs) \<and>
      once_ok rs)"

definition rows_ok :: "TxDbEntry list \<Rightarrow> nat \<Rightarrow> bool" where
  "rows_ok rs n = (sorted_wrt (<) (map row_id rs) \<and> (\<forall>r \<in> set rs. row_id r < n) \<and> latest_ok rs \<and> once_ok rs)"

definition store_ok :: "CTxInfoStore \<Rightarrow> bool" where
  "store_ok s = (rows_ok (rows s) (next_id s) \<and>
     (case curTransaction s of None \<Rightarrow> True | Some (rs, n) \<Rightarrow> rows_ok rs n))"

definition store_hist :: "CTxInfoStore \<Rightarrow> (string \<times> byte \<times> bytes) \<Rightarrow> bytes list" where
  "store_hist s k = map row_value (filter (\<lambda>r. row_slot r = k) (rows s))"

lemma row_matches_slot: "row_matches a k r \<longleftrightarrow> row_slot r = (a, key_type k, keyString k)"
  by (auto simp: row_matches_def row_slot_def)

lemma latest_iff:
  "sorted_wrt (<) (map row_id rs) \<Longrightarrow> latest_ok rs \<longleftrightarrow>
     (\<forall>x \<in> set rs. is_latest x \<longleftrightarrow> (\<forall>y \<in> set rs. row_slot y = row_slot x \<longrightarrow> row_id y \<le> row_id x))"
proof (induction rs)
  case (Cons r rs)
  have later: "row_id r < row_id y" if "y \<in> set rs" for y using Cons.prems that by simp
  have "(\<forall>y \<in> set (r # rs). row_slot y = row_slot r \<longrightarrow> row_id y \<le> row_id r) \<longleftrightarrow> row_slot r \<notin> row_slot ` set rs"
  proof
    assume *: "\<forall>y \<in> set (r # rs). row_slot y = row_slot r \<longrightarrow> row_id y \<le> row_id r"
    show "row_slot r \<notin> row_slot ` set rs"
    proof
      assume "row_slot r \<in> row_slot ` set rs"
      then obtain y where "y \<in> set rs" "row_slot y = row_slot r" by auto
      with * later [of y] show False by fastforce
    qed
  next
    assume "row_slot r \<notin> row_slot ` set rs"
    then show "\<forall>y \<in> set (r # rs). row_slot y = row_slot r \<longrightarrow> row_id y \<le> row_id r"
      by (metis imageI order_refl set_ConsD)
  qed
  moreover have "(\<forall>y \<in> set (r # rs). row_slot y = row_slot x \<longrightarrow> row_id y \<le> row_id x) \<longleftrightarrow>
      (\<forall>y \<in> set rs. row_slot y = row_slot x \<longrightarrow> row_id y \<le> row_id x)" if "x \<in> set rs" for x
    using later [OF that] by auto
  ultimately show ?case using Cons by simp
qed simp

lemma distinct_ids:
  assumes "sorted_wrt (<) (map row_id rs)" and "x \<in> set rs" and "y \<in> set rs" and "row_id x = row_id y"
  shows "x = y"
proof -
  have "distinct (map row_id rs)" using assms(1) by (simp add: strict_sorted_iff)
  then show ?thesis using assms by (auto simp: distinct_map inj_on_def)
qed

lemma max_id_row_iff:
  assumes sorted: "sorted_wrt (<) (map row_id rs)" and x: "x \<in> set rs"
  shows "Some (row_id x) = max_id_row a k rs \<longleftrightarrow>
    row_matches a k x \<and> (\<forall>y \<in> set rs. row_slot y = row_slot x \<longrightarrow> row_id y \<le> row_id x)"
proof -
  let ?S = "row_id ` {y \<in> set rs. row_matches a k y}"
  let ?ids = "map row_id (filter (row_matches a k) rs)"
  have m: "max_id_row a k rs = (if ?S = {} then None else Some (Max ?S))"
  proof (cases ?ids)
    case (Cons i js)
    have "fold max ?ids 0 = Max (set (0 # ?ids))" by (simp add: Max.set_eq_fold [symmetric] del: set_map)
    also have "\<dots> = Max (set ?ids)" using Cons by (simp add: Max_insert del: set_map)
    also have S: "set ?ids = ?S" by auto
    finally have "fold max ?ids 0 = Max ?S" .
    moreover have "?S \<noteq> {}" using S Cons by (metis list.set_intros(1) empty_iff)
    ultimately show ?thesis using Cons by (simp only: max_id_row_def Let_def) simp
  qed (auto simp: max_id_row_def filter_empty_conv)
  have fin: "finite ?S" by simp
  show ?thesis
  proof
    assume "Some (row_id x) = max_id_row a k rs"
    then have ne: "?S \<noteq> {}" and mx: "row_id x = Max ?S" using m by (auto split: if_splits)
    then have "row_id x \<in> ?S" using Max_in [OF fin ne] by simp
    then have "row_matches a k x" using distinct_ids [OF sorted x] by fastforce
    moreover have "row_id y \<le> row_id x" if "y \<in> set rs" "row_matches a k y" for y
      using that mx fin by auto
    ultimately show "row_matches a k x \<and> (\<forall>y \<in> set rs. row_slot y = row_slot x \<longrightarrow> row_id y \<le> row_id x)"
      by (auto simp: row_matches_slot)
  next
    assume r: "row_matches a k x \<and> (\<forall>y \<in> set rs. row_slot y = row_slot x \<longrightarrow> row_id y \<le> row_id x)"
    then have "Max ?S = row_id x" using x by (intro Max_eqI) (auto simp: row_matches_slot)
    then show "Some (row_id x) = max_id_row a k rs" using m x r by auto
  qed
qed

section \<open>Updates preserve the invariant\<close>

definition clear :: "string \<times> byte \<times> bytes \<Rightarrow> TxDbEntry \<Rightarrow> TxDbEntry" where
  "clear k x = (if row_slot x = k then x\<lparr> is_latest := False \<rparr> else x)"

lemma clear_simps [simp]:
  "row_slot (clear k x) = row_slot x" "row_id (clear k x) = row_id x" "row_value (clear k x) = row_value x"
  "row_key_type (clear k x) = row_key_type x" "row_key (clear k x) = row_key x"
  "is_latest (clear k x) = (is_latest x \<and> row_slot x \<noteq> k)"
  by (auto simp: clear_def row_slot_def)

lemma slot_upd [simp]: "row_slot (x\<lparr> is_latest := b \<rparr>) = row_slot x"
  by (simp add: row_slot_def)

lemma once_ok_map:
  assumes "\<And>x. row_slot (f x) = row_slot x" and "\<And>x. row_value (f x) = row_value x"
  shows "once_ok (map f rs) = once_ok rs"
proof -
  have "row_key_type (f x) = row_key_type x" "row_key (f x) = row_key x" for x
    using assms(1) [of x] by (simp_all add: row_slot_def)
  then show ?thesis by (induction rs) (simp_all add: assms image_image)
qed

lemma once_ok_filter: "once_ok rs \<Longrightarrow> once_ok (filter P rs)"
  by (induction rs) auto

lemma once_ok_append:
  "once_ok (rs @ [r]) \<longleftrightarrow> once_ok rs \<and>
     (\<forall>x \<in> set rs. (once_type (row_key_type x) \<longrightarrow> row_slot x \<noteq> row_slot r) \<and>
        (unique_type (row_key_type x) \<longrightarrow>
          (row_key_type x, row_key x, row_value x) \<noteq> (row_key_type r, row_key r, row_value r)))"
  by (induction rs) auto

lemma latest_ok_append:
  "latest_ok rs \<Longrightarrow> is_latest r \<Longrightarrow> latest_ok (map (clear (row_slot r)) rs @ [r])"
  by (induction rs) (auto simp: image_image image_Un)

lemma row_matches_rec: "row_matches (ToString lib (rec_addr r)) (info_key (rec_info r)) x \<longleftrightarrow> row_slot x = rec_slot lib r"
  by (simp add: row_matches_slot rec_slot_def)

lemma slot_insert_row [simp]: "row_slot (insert_row lib i r) = rec_slot lib r"
  by (simp add: row_slot_def rec_slot_def insert_row_def)

lemma value_insert_row [simp]: "row_value (insert_row lib i r) = info_value (rec_info r)"
  by (simp add: insert_row_def)

lemma do_Process_rows:
  assumes "do_Process lib s r = (Yes, s')"
  shows "rows s' = map (clear (rec_slot lib r)) (rows s) @ [insert_row lib (next_id s) r]"
    and "next_id s' = Suc (next_id s)" and "curTransaction s' = curTransaction s"
    and "Store_IsValid lib s r = Yes"
proof -
  have "Store_IsValid lib s r = Yes" using assms by (auto simp: do_Process_def split: answer.splits)
  with assms show "rows s' = map (clear (rec_slot lib r)) (rows s) @ [insert_row lib (next_id s) r]"
    and "next_id s' = Suc (next_id s)" and "curTransaction s' = curTransaction s"
    and "Store_IsValid lib s r = Yes"
    by (auto simp: do_Process_def Let_def row_matches_rec clear_def)
qed

lemma do_Process_fail: "do_Process lib s r = (a, s') \<Longrightarrow> a \<noteq> Yes \<Longrightarrow> s' = s"
  by (auto simp: do_Process_def Let_def split: answer.splits)

text \<open>What the validity check guarantees of a record it admits.\<close>

lemma Store_IsValid_once:
  assumes "Store_IsValid lib s r = Yes" and "once_type (key_type (info_key (rec_info r)))"
  shows "rec_slot lib r \<notin> row_slot ` set (rows s)"
proof -
  have "filter (row_matches (ToString lib (rec_addr r)) (info_key (rec_info r))) (rows s) = []"
    using assms by (auto simp: Store_IsValid_def Let_def once_type_def
        split: option.splits if_splits sum.splits)
  then show ?thesis by (auto simp: filter_empty_conv row_matches_rec)
qed

lemma Store_IsValid_unique:
  assumes "Store_IsValid lib s r = Yes" and "unique_type (key_type (info_key (rec_info r)))"
    and "x \<in> set (rows s)" and "is_latest x"
  shows "(row_key_type x, row_key x, row_value x) \<noteq>
    (key_type (info_key (rec_info r)), keyString (info_key (rec_info r)), info_value (rec_info r))"
proof -
  have "AddressesWithValue lib s (info_key (rec_info r)) (info_value (rec_info r)) = []"
    using assms(1,2) by (auto simp: Store_IsValid_def Let_def unique_type_def UniqueAddressWithValue_def
        split: option.splits if_splits sum.splits)
  then show ?thesis using assms(3,4) by (auto simp: AddressesWithValue_def filter_empty_conv)
qed

lemma once_latest: "latest_ok rs \<Longrightarrow> once_ok rs \<Longrightarrow> x \<in> set rs \<Longrightarrow> once_type (row_key_type x) \<Longrightarrow> is_latest x"
  by (induction rs) auto

lemma do_Process_rows_ok:
  assumes ok: "rows_ok (rows s) (next_id s)" and p: "do_Process lib s r = (Yes, s')"
  shows "rows_ok (rows s') (next_id s')"
proof -
  let ?n = "insert_row lib (next_id s) r" and ?rs = "map (clear (rec_slot lib r)) (rows s)"
  note rows = do_Process_rows [OF p]
  have "sorted_wrt (<) (map row_id (rows s'))"
    using ok by (auto simp: rows(1) rows_ok_def sorted_wrt_append comp_def insert_row_def)
  moreover have "\<forall>x \<in> set (rows s'). row_id x < next_id s'"
    using ok by (auto simp: rows rows_ok_def insert_row_def)
  moreover have "latest_ok (rows s')"
    using ok latest_ok_append [of "rows s" ?n] by (simp add: rows(1) rows_ok_def) (simp add: insert_row_def)
  moreover have "once_ok (rows s')"
  proof -
    have "once_ok ?rs" using ok by (simp add: rows_ok_def once_ok_map)
    moreover have "row_slot x \<noteq> rec_slot lib r" if "x \<in> set (rows s)" "once_type (row_key_type x)" for x
    proof
      assume e: "row_slot x = rec_slot lib r"
      then have "once_type (key_type (info_key (rec_info r)))" using that by (simp add: row_slot_def rec_slot_def)
      then show False using Store_IsValid_once [OF rows(4)] that e by force
    qed
    moreover have "(row_key_type x, row_key x, row_value x) \<noteq> (row_key_type ?n, row_key ?n, row_value ?n)"
      if "x \<in> set (rows s)" "unique_type (row_key_type x)" for x
    proof -
      have "is_latest x"
        using that ok by (intro once_latest [of "rows s"]) (auto simp: rows_ok_def once_type_def unique_type_def)
      then show ?thesis using Store_IsValid_unique [OF rows(4)] that by (auto simp: insert_row_def)
    qed
    ultimately show ?thesis by (auto simp: rows(1) once_ok_append)
  qed
  ultimately show ?thesis by (simp add: rows_ok_def)
qed

definition restore :: "nat option \<Rightarrow> TxDbEntry \<Rightarrow> TxDbEntry" where
  "restore m x = (if Some (row_id x) = m then x\<lparr> is_latest := True \<rparr> else x)"

lemma restore_simps [simp]:
  "row_slot (restore m x) = row_slot x" "row_id (restore m x) = row_id x" "row_value (restore m x) = row_value x"
  "is_latest (restore m x) = (is_latest x \<or> Some (row_id x) = m)"
  by (auto simp: restore_def)

lemma do_Undo_rows:
  assumes "do_Undo lib s r = (Yes, s')"
  shows "rows s' = map (restore (max_id_row (ToString lib (rec_addr r)) (info_key (rec_info r))
      (filter (\<lambda>x. \<not> undo_matches lib r x) (rows s)))) (filter (\<lambda>x. \<not> undo_matches lib r x) (rows s))"
    and "next_id s' = next_id s" and "curTransaction s' = curTransaction s"
    and "\<exists>d \<in> set (rows s). undo_matches lib r d"
  using assms by (auto simp: do_Undo_def Let_def restore_def filter_empty_conv split: if_splits)

lemma do_Undo_fail: "do_Undo lib s r = (a, s') \<Longrightarrow> a \<noteq> Yes \<Longrightarrow> s' = s"
proof -
  assume u: "do_Undo lib s r = (a, s')" and a: "a \<noteq> Yes"
  then have e: "filter (undo_matches lib r) (rows s) = []" by (auto simp: do_Undo_def Let_def split: if_splits)
  then have "filter (\<lambda>x. \<not> undo_matches lib r x) (rows s) = rows s"
    by (auto simp: filter_empty_conv filter_id_conv)
  with u e show ?thesis by (auto simp: do_Undo_def)
qed

lemma do_Undo_rows_ok:
  assumes ok: "rows_ok (rows s) (next_id s)" and u: "do_Undo lib s r = (Yes, s')"
  shows "rows_ok (rows s') (next_id s')"
proof -
  let ?rs = "filter (\<lambda>x. \<not> undo_matches lib r x) (rows s)"
  let ?a = "ToString lib (rec_addr r)" and ?k = "info_key (rec_info r)"
  note rows = do_Undo_rows [OF u]
  have sorted: "sorted_wrt (<) (map row_id (rows s))" using ok by (simp add: rows_ok_def)
  then have sorted': "sorted_wrt (<) (map row_id ?rs)" by (simp add: sorted_wrt_map sorted_wrt_filter)
  have latest: "is_latest x \<longleftrightarrow> (\<forall>y \<in> set (rows s). row_slot y = row_slot x \<longrightarrow> row_id y \<le> row_id x)"
    if "x \<in> set (rows s)" for x
    using ok that latest_iff [OF sorted] by (simp add: rows_ok_def)
  obtain d where d: "d \<in> set (rows s)" "undo_matches lib r d" using rows(4) by blast
  then have slot: "row_slot d = rec_slot lib r" and dl: "is_latest d"
    by (simp_all add: undo_matches_def row_matches_rec)
  have ids: "map row_id (rows s') = map row_id ?rs" by (simp add: rows(1) comp_def)
  have "latest_ok (rows s')"
  proof (subst latest_iff)
    show "sorted_wrt (<) (map row_id (rows s'))" using sorted' ids by simp
    have "is_latest (restore (max_id_row ?a ?k ?rs) x) \<longleftrightarrow>
        (\<forall>y \<in> set ?rs. row_slot y = row_slot x \<longrightarrow> row_id y \<le> row_id x)" if x: "x \<in> set ?rs" for x
    proof (cases "row_slot x = rec_slot lib r")
      case True
      have "\<not> is_latest x"
      proof
        assume "is_latest x"
        then have "row_id d = row_id x" using latest [of x] latest [of d] dl d x True slot by (simp add: le_antisym)
        then have "d = x" using distinct_ids [OF sorted] d x by auto
        then show False using x d by simp
      qed
      then show ?thesis using max_id_row_iff [OF sorted' x, of ?a ?k] True by (simp add: row_matches_rec)
    next
      case False
      then have "is_latest (restore (max_id_row ?a ?k ?rs) x) = is_latest x"
        using max_id_row_iff [OF sorted' x, of ?a ?k] by (simp add: row_matches_rec)
      also have "\<dots> = (\<forall>y \<in> set ?rs. row_slot y = row_slot x \<longrightarrow> row_id y \<le> row_id x)"
        using latest [of x] x False by (auto simp: undo_matches_def row_matches_rec)
      finally show ?thesis .
    qed
    then show "\<forall>x \<in> set (rows s'). is_latest x \<longleftrightarrow> (\<forall>y \<in> set (rows s'). row_slot y = row_slot x \<longrightarrow> row_id y \<le> row_id x)"
      by (simp add: rows(1))
  qed
  moreover have "once_ok (rows s')" using ok by (simp add: rows(1) rows_ok_def once_ok_map once_ok_filter)
  moreover have "\<forall>x \<in> set (rows s'). row_id x < next_id s'" using ok by (simp add: rows rows_ok_def)
  ultimately show ?thesis using sorted' ids by (simp add: rows_ok_def)
qed

text \<open>Undoing a record right after it was processed restores the table.\<close>

lemma undo_matches_insert: "undo_matches lib r (insert_row lib i r)"
  by (simp add: undo_matches_def insert_row_def row_matches_def)

lemma restore_clear:
  assumes "sorted_wrt (<) (map row_id rs)" and "latest_ok rs"
  shows "map (restore (max_id_row a k (map (clear (a, key_type k, keyString k)) rs)))
    (map (clear (a, key_type k, keyString k)) rs) = rs"
proof -
  let ?c = "clear (a, key_type k, keyString k)"
  have "row_matches a k (?c x) = row_matches a k x" for x by (simp add: row_matches_slot)
  then have "max_id_row a k (map ?c rs) = max_id_row a k rs"
    by (simp add: max_id_row_def filter_map comp_def)
  moreover have "restore (max_id_row a k rs) (?c x) = x" if x: "x \<in> set rs" for x
    using max_id_row_iff [OF assms(1) x, of a k] latest_iff [OF assms(1)] assms(2) x
    by (auto simp: restore_def clear_def row_matches_slot)
  ultimately show ?thesis by (simp add: map_idI)
qed

lemma do_Undo_do_Process:
  assumes ok: "rows_ok (rows s) (next_id s)" and p: "do_Process lib s r = (Yes, s')" and t: "rows t = rows s'"
  shows "\<exists>u. do_Undo lib t r = (Yes, u) \<and> rows u = rows s \<and> next_id u = next_id t \<and> curTransaction u = curTransaction t"
proof -
  let ?k = "rec_slot lib r" and ?n = "insert_row lib (next_id s) r"
  have "\<not> undo_matches lib r (clear ?k x)" for x
    by (auto simp: undo_matches_def row_matches_rec)
  then have f: "filter (\<lambda>x. \<not> undo_matches lib r x) (rows t) = map (clear ?k) (rows s)"
    using do_Process_rows(1) [OF p] undo_matches_insert [of lib r] by (simp add: t filter_id_conv)
  have "filter (undo_matches lib r) (rows t) \<noteq> []"
    using do_Process_rows(1) [OF p] undo_matches_insert [of lib r "next_id s"] by (simp add: t)
  moreover have "map (restore (max_id_row (ToString lib (rec_addr r)) (info_key (rec_info r)) (map (clear ?k) (rows s))))
      (map (clear ?k) (rows s)) = rows s"
    using ok restore_clear [of "rows s"] by (simp add: rows_ok_def rec_slot_def)
  ultimately show ?thesis by (simp add: do_Undo_def f restore_def [abs_def] Let_def)
qed

lemma do_Process_hist:
  assumes "do_Process lib s r = (Yes, s')"
  shows "store_hist s' = (store_hist s)(rec_slot lib r := store_hist s (rec_slot lib r) @ [info_value (rec_info r)])"
  by (rule ext) (auto simp: store_hist_def do_Process_rows(1) [OF assms] filter_map comp_def)

definition put_info :: "'a openssl_scheme \<Rightarrow> TxInfoRecord \<Rightarrow> CTxInfoStore \<Rightarrow> CTxInfoStore option" where
  "put_info lib r s = (case do_Process lib s r of (Yes, s') \<Rightarrow> Some s' | _ \<Rightarrow> None)"

definition undo_info :: "'a openssl_scheme \<Rightarrow> TxInfoRecord \<Rightarrow> CTxInfoStore \<Rightarrow> CTxInfoStore option" where
  "undo_info lib r s = (case do_Undo lib s r of (Yes, s') \<Rightarrow> Some s' | _ \<Rightarrow> None)"

lemma put_info_Some: "put_info lib r s = Some s' \<longleftrightarrow> do_Process lib s r = (Yes, s')"
  by (auto simp: put_info_def split: prod.splits answer.splits)

lemma undo_info_Some: "undo_info lib r s = Some s' \<longleftrightarrow> do_Undo lib s r = (Yes, s')"
  by (auto simp: undo_info_def split: prod.splits answer.splits)

lemma store_ok_Process: "store_ok s \<Longrightarrow> do_Process lib s r = (Yes, s') \<Longrightarrow> store_ok s'"
  using do_Process_rows_ok [of s lib r s'] do_Process_rows(3) [of lib s r s'] by (simp add: store_ok_def)

lemma store_ok_Undo: "store_ok s \<Longrightarrow> do_Undo lib s r = (Yes, s') \<Longrightarrow> store_ok s'"
  using do_Undo_rows_ok [of s lib r s'] do_Undo_rows(3) [of lib s r s'] by (simp add: store_ok_def)

interpretation stored: info_store store_ok store_hist "put_info lib" "undo_info lib" "rec_slot lib"
  "\<lambda>r. info_value (rec_info r)" "\<lambda>s t. rows s = rows t" for lib :: "'a openssl_scheme"
proof
  fix s s' t :: CTxInfoStore and r
  assume ok: "store_ok s" and "put_info lib r s = Some s'"
  then have p: "do_Process lib s r = (Yes, s')" by (simp add: put_info_Some)
  show "store_ok s'" by (rule store_ok_Process [OF ok p])
  show "store_hist s' = (store_hist s)(rec_slot lib r := store_hist s (rec_slot lib r) @ [info_value (rec_info r)])"
    by (rule do_Process_hist [OF p])
  assume t: "rows t = rows s'" and tok: "store_ok t"
  have "rows_ok (rows s) (next_id s)" using ok by (simp add: store_ok_def)
  then obtain u where "do_Undo lib t r = (Yes, u)" "rows u = rows s"
    using do_Undo_do_Process [OF _ p t] by blast
  then show "\<exists>u. undo_info lib r t = Some u \<and> store_ok u \<and> rows u = rows s"
    using store_ok_Undo [OF tok] by (auto simp: undo_info_Some)
qed simp

text \<open>The invariant of the other operations.\<close>

lemma store_ok_Initialize: "store_ok Store_Initialize"
  by (simp add: store_ok_def Store_Initialize_def rows_ok_def)

lemma store_ok_Begin: "store_ok s \<Longrightarrow> store_ok (snd (BeginTransaction s))"
  by (auto simp: store_ok_def BeginTransaction_def)

lemma store_ok_Commit: "store_ok s \<Longrightarrow> store_ok (snd (Store_Commit s))"
  by (auto simp: store_ok_def Store_Commit_def)

lemma store_ok_Rollback: "store_ok s \<Longrightarrow> store_ok (snd (Store_Rollback s))"
  by (auto simp: store_ok_def Store_Rollback_def split: option.splits)

lemma store_ok_do_Process: "store_ok s \<Longrightarrow> store_ok (snd (do_Process lib s r))"
  by (metis do_Process_fail prod.collapse store_ok_Process)

lemma store_ok_do_Undo: "store_ok s \<Longrightarrow> store_ok (snd (do_Undo lib s r))"
  by (metis do_Undo_fail prod.collapse store_ok_Undo)

lemma store_ok_with_view:
  assumes "\<And>s. store_ok s \<Longrightarrow> store_ok (snd (f s))" and "store_ok s"
  shows "store_ok (snd (with_view f s))"
proof (cases "InTransaction s")
  case True
  then show ?thesis using assms by (simp add: with_view_def)
next
  case False
  define s1 where "s1 = snd (BeginTransaction s)"
  obtain a s2 where f1: "f s1 = (a, s2)" by fastforce
  have "store_ok s1" unfolding s1_def by (rule store_ok_Begin [OF assms(2)])
  then have s2: "store_ok s2" using assms(1) [of s1] f1 by simp
  have "BeginTransaction s = (Yes, s1)" using False by (simp add: s1_def BeginTransaction_def)
  then have "with_view f s = (if a = Yes then Store_Commit s2 else (a, snd (Store_Rollback s2)))"
    using False f1 by (cases a) (auto simp: with_view_def split: prod.splits answer.splits)
  then show ?thesis using store_ok_Commit [OF s2] store_ok_Rollback [OF s2] by simp
qed

text \<open>Outside a transaction an operation takes effect as a whole or not at all.\<close>

lemma with_view_atomic:
  assumes f: "\<And>s s' a. f s = (a, s') \<Longrightarrow> curTransaction s' = curTransaction s"
    and s: "curTransaction s = None"
  shows "fst (with_view f s) = Yes \<longrightarrow> (\<exists>s2. f (snd (BeginTransaction s)) = (Yes, s2) \<and>
      rows (snd (with_view f s)) = rows s2 \<and> next_id (snd (with_view f s)) = next_id s2)"
    and "fst (with_view f s) \<noteq> Yes \<longrightarrow> rows (snd (with_view f s)) = rows s \<and> next_id (snd (with_view f s)) = next_id s"
    and "curTransaction (snd (with_view f s)) = None"
proof -
  define s1 where "s1 = snd (BeginTransaction s)"
  have b: "BeginTransaction s = (Yes, s1)" "curTransaction s1 = Some (rows s, next_id s)"
    using s by (simp_all add: s1_def BeginTransaction_def InTransaction_def)
  obtain a s2 where f1: "f s1 = (a, s2)" by fastforce
  then have c2: "curTransaction s2 = Some (rows s, next_id s)" using f b by metis
  have w: "with_view f s = (if a = Yes then (Yes, s2\<lparr> curTransaction := None, byteEstimate := 0 \<rparr>)
      else (a, s2\<lparr> rows := rows s, next_id := next_id s, curTransaction := None, byteEstimate := 0 \<rparr>))"
    using s b f1 c2
    by (cases a) (simp_all add: with_view_def InTransaction_def Store_Commit_def Store_Rollback_def)
  then show "fst (with_view f s) = Yes \<longrightarrow> (\<exists>s2. f (snd (BeginTransaction s)) = (Yes, s2) \<and>
      rows (snd (with_view f s)) = rows s2 \<and> next_id (snd (with_view f s)) = next_id s2)"
    and "fst (with_view f s) \<noteq> Yes \<longrightarrow> rows (snd (with_view f s)) = rows s \<and> next_id (snd (with_view f s)) = next_id s"
    and "curTransaction (snd (with_view f s)) = None"
    using f1 by (auto simp: s1_def)
qed

section \<open>Reading\<close>

lemma latest_last:
  "latest_ok rs \<Longrightarrow> filter (\<lambda>x. row_matches a k x \<and> is_latest x) rs =
     (if filter (row_matches a k) rs = [] then [] else [last (filter (row_matches a k) rs)])"
  by (induction rs) (auto simp: filter_empty_conv row_matches_slot image_iff)

lemma Store_Get_hist:
  assumes "store_ok s"
  shows "Store_Get lib s addr k =
    (let h = store_hist s (ToString lib addr, key_type k, keyString k) in if h = [] then None else Some (last h))"
proof -
  let ?a = "ToString lib addr"
  have ok: "sorted_wrt (<) (map row_id (rows s))" "latest_ok (rows s)"
    using assms by (simp_all add: store_ok_def rows_ok_def)
  have "filter (\<lambda>r. Some (row_id r) = max_id_row ?a k (rows s)) (rows s) =
      filter (\<lambda>x. row_matches ?a k x \<and> is_latest x) (rows s)"
    using max_id_row_iff [OF ok(1)] latest_iff [OF ok(1)] ok(2) by (intro filter_cong) auto
  then have "Store_Get lib s addr k =
      (if filter (row_matches ?a k) (rows s) = [] then None
       else Some (row_value (last (filter (row_matches ?a k) (rows s)))))"
    by (simp add: Store_Get_def Let_def latest_last [OF ok(2)])
  moreover have "row_matches ?a k = (\<lambda>r. row_slot r = (?a, key_type k, keyString k))"
    by (rule ext) (rule row_matches_slot)
  ultimately show ?thesis by (simp add: store_hist_def Let_def last_map)
qed

text \<open>The rows that hold a value of a unique key.\<close>

lemma once_ok_unique_row:
  "once_ok rs \<Longrightarrow> unique_type t \<Longrightarrow>
     length (filter (\<lambda>r. row_key_type r = t \<and> row_key r = k \<and> row_value r = v \<and> P r) rs) \<le> 1"
proof (induction rs)
  case (Cons r rs)
  show ?case
  proof (cases "row_key_type r = t \<and> row_key r = k \<and> row_value r = v \<and> P r")
    case True
    then have "filter (\<lambda>r. row_key_type r = t \<and> row_key r = k \<and> row_value r = v \<and> P r) rs = []"
      using Cons.prems by (auto simp: filter_empty_conv image_iff)
    then show ?thesis using True by (simp only: filter.simps if_True) simp
  qed (use Cons in auto)
qed simp

lemma UniqueAddress_no_throw:
  assumes "store_ok s" and "unique_type (key_type k)"
  shows "\<exists>a. UniqueAddressWithValue lib s k v = Inr a"
proof -
  have "length (AddressesWithValue lib s k v) \<le> 1"
    using once_ok_unique_row [of "rows s" "key_type k" "keyString k" v is_latest] assms
    by (simp add: AddressesWithValue_def store_ok_def rows_ok_def)
  then show ?thesis using assms(2) by (auto simp: UniqueAddressWithValue_def unique_type_def Let_def)
qed

lemma Store_IsValid_no_throw: "store_ok s \<Longrightarrow> Store_IsValid lib s r \<noteq> Throws e"
  using UniqueAddress_no_throw [of s "info_key (rec_info r)" lib "info_value (rec_info r)"]
  by (auto simp: Store_IsValid_def Let_def unique_type_def split: option.splits sum.splits)

lemma UniqueAddress_Process:
  assumes ok: "store_ok s" and p: "do_Process lib s r = (Yes, s')"
    and u: "unique_type (key_type (info_key (rec_info r)))"
  shows "UniqueAddressWithValue lib s' (info_key (rec_info r)) (info_value (rec_info r)) =
    Inr (Some (snd (SetString lib (ToString lib (rec_addr r)))))"
proof -
  let ?k = "info_key (rec_info r)" and ?v = "info_value (rec_info r)"
  let ?P = "\<lambda>x. row_key_type x = key_type ?k \<and> row_key x = keyString ?k \<and> row_value x = ?v \<and> is_latest x"
  note rows = do_Process_rows [OF p]
  have "filter ?P (map (clear (rec_slot lib r)) (rows s)) = []"
    using Store_IsValid_unique [OF rows(4) u] by (auto simp: filter_empty_conv)
  moreover have "?P (insert_row lib (next_id s) r)" by (simp add: insert_row_def)
  ultimately have "filter ?P (rows s') = [insert_row lib (next_id s) r]"
    by (simp only: rows(1) filter_append) simp
  then have "AddressesWithValue lib s' ?k ?v = [snd (SetString lib (ToString lib (rec_addr r)))]"
    by (simp add: AddressesWithValue_def) (simp add: insert_row_def)
  then show ?thesis using u by (simp add: UniqueAddressWithValue_def unique_type_def)
qed

section \<open>Reachable stores\<close>

text \<open>One call of the public interface.\<close>

inductive store_step :: "'a openssl_scheme \<Rightarrow> CTxInfoStore \<Rightarrow> CTxInfoStore \<Rightarrow> bool" for lib where
  step_Process: "store_step lib s (snd (Store_Process lib s r))"
| step_Undo: "store_step lib s (snd (Store_Undo lib s r))"
| step_Begin: "store_step lib s (snd (BeginTransaction s))"
| step_Commit: "store_step lib s (snd (Store_Commit s))"
| step_Rollback: "store_step lib s (snd (Store_Rollback s))"
| step_Reset: "store_step lib s (Store_Reset s)"

inductive store_reachable :: "'a openssl_scheme \<Rightarrow> CTxInfoStore \<Rightarrow> bool" for lib where
  reach_init: "store_reachable lib Store_Initialize"
| reach_step: "store_reachable lib s \<Longrightarrow> store_step lib s s' \<Longrightarrow> store_reachable lib s'"

inductive_cases store_stepE: "store_step lib s s'"

lemma store_ok_step: "store_step lib s s' \<Longrightarrow> store_ok s \<Longrightarrow> store_ok s'"
proof (induction rule: store_step.induct)
  case (step_Reset s)
  then show ?case by (auto simp: store_ok_def Store_Reset_def rows_ok_def)
qed (simp_all add: Store_Process_def Store_Undo_def store_ok_with_view store_ok_do_Process
    store_ok_do_Undo store_ok_Begin store_ok_Commit store_ok_Rollback)

lemma store_reachable_ok: "store_reachable lib s \<Longrightarrow> store_ok s"
  by (induction rule: store_reachable.induct) (auto intro: store_ok_Initialize store_ok_step)

section \<open>Properties\<close>

text \<open>An info a witness can use: the name \<open>bob\<close> for the address with hash 7.\<close>

definition demo_record :: TxInfoRecord where
  "demo_record = \<lparr> rec_addr = SetHash160 False 7,
     rec_info = \<lparr> info_key = \<lparr> key_type = INFO_ID, keyString = [110] \<rparr>, info_value = [98, 111, 98] \<rparr>,
     rec_blockHash = 5, rec_indexTx = 1, rec_indexTxIn = 0, rec_indexInfo = 0 \<rparr>"

lemma demo_record_valid: "CTxInfo_IsValid (rec_info demo_record) = None"
  by (simp add: demo_record_def CTxInfo_IsValid_def TxInfoKey_IsValid_def info_types IsValidIDCharacter_def)

lemma demo_Process: "\<exists>s'. do_Process demo_lib Store_Initialize demo_record = (Yes, s')"
  using demo_record_valid
  by (simp add: do_Process_def Store_IsValid_def UniqueAddressWithValue_def AddressesWithValue_def
      Store_Initialize_def Let_def demo_record_def info_types)

text \<open>
  C5. In every store reachable through the public interface, by any interleaving of processing,
  undoing, transactions, rollbacks and resets, the flag \<^verbatim>\<open>is_latest\<close> marks exactly the newest row of
  its address and key, a write-once or unique key has at most one row per address, and no two rows
  of a unique key share a value; hence looking up a unique value never throws.
\<close>

theorem store_invariant:
  assumes "store_reachable lib s"
  shows "rows_ok (rows s) (next_id s) \<and>
    (key_type k = INFO_UNIQUE \<or> key_type k = INFO_ID \<longrightarrow> (\<exists>a. UniqueAddressWithValue lib s k v = Inr a))"
  using store_reachable_ok [OF assms] UniqueAddress_no_throw [of s k lib v]
  by (auto simp: store_ok_def unique_type_def)

theorem store_invariant_witness:
  "\<exists>s. store_reachable demo_lib s \<and> length (rows s) = 1 \<and> rows_ok (rows s) (next_id s)"
proof -
  obtain s' where p: "do_Process demo_lib (snd (BeginTransaction Store_Initialize)) demo_record = (Yes, s')"
    using demo_record_valid
    by (simp add: do_Process_def Store_IsValid_def UniqueAddressWithValue_def AddressesWithValue_def
        Store_Initialize_def Let_def demo_record_def info_types BeginTransaction_def InTransaction_def)
  have b: "InTransaction (snd (BeginTransaction Store_Initialize))"
    by (simp add: BeginTransaction_def InTransaction_def Store_Initialize_def)
  have "store_reachable demo_lib (snd (BeginTransaction Store_Initialize))"
    by (rule reach_step [OF reach_init step_Begin])
  then have "store_reachable demo_lib (snd (Store_Process demo_lib (snd (BeginTransaction Store_Initialize)) demo_record))"
    by (rule reach_step [OF _ step_Process])
  then have reach: "store_reachable demo_lib s'" using b p by (simp add: Store_Process_def with_view_def)
  moreover have "length (rows s') = 1"
    using do_Process_rows(1) [OF p] by (simp add: BeginTransaction_def InTransaction_def Store_Initialize_def)
  ultimately show ?thesis using store_invariant [OF reach] by blast
qed



text \<open>
  Undoing a record that was just processed restores the table exactly, the flags of the older
  rows included; and an undo that finds nothing, like a rejected record, leaves the store as it is.
\<close>

theorem Undo_Process_inverse:
  assumes "store_ok s"
  shows "(do_Process lib s r = (Yes, s') \<longrightarrow> (\<exists>u. do_Undo lib s' r = (Yes, u) \<and> store_ok u \<and> rows u = rows s)) \<and>
    (fst (do_Process lib s r) \<noteq> Yes \<longrightarrow> snd (do_Process lib s r) = s) \<and>
    (fst (do_Undo lib s r) \<noteq> Yes \<longrightarrow> snd (do_Undo lib s r) = s)"
proof -
  have "\<exists>u. do_Undo lib s' r = (Yes, u) \<and> store_ok u \<and> rows u = rows s" if p: "do_Process lib s r = (Yes, s')"
    using do_Undo_do_Process [OF _ p refl] store_ok_Undo [OF store_ok_Process [OF assms p]] assms
    by (auto simp: store_ok_def)
  then show ?thesis using do_Process_fail [of lib s r] do_Undo_fail [of lib s r] by (metis prod.collapse)
qed

theorem Undo_Process_inverse_witness:
  "\<exists>s' u. do_Process demo_lib Store_Initialize demo_record = (Yes, s') \<and> rows s' \<noteq> [] \<and>
     do_Undo demo_lib s' demo_record = (Yes, u) \<and> rows u = []"
proof -
  obtain s' where p: "do_Process demo_lib Store_Initialize demo_record = (Yes, s')" using demo_Process by blast
  then have "rows s' \<noteq> []" by (simp add: do_Process_rows(1))
  then show ?thesis
    using Undo_Process_inverse [OF store_ok_Initialize, of demo_lib demo_record s'] p
    by (auto simp: Store_Initialize_def)
qed

text \<open>
  Outside a transaction \<^verbatim>\<open>Process\<close> and \<^verbatim>\<open>Undo\<close> are atomic: when they do not answer true the
  table and its id counter are what they were, and no transaction is left open.
\<close>

theorem Process_Undo_atomic:
  assumes "\<not> InTransaction s"
  shows "(fst (Store_Process lib s r) \<noteq> Yes \<longrightarrow>
      rows (snd (Store_Process lib s r)) = rows s \<and> next_id (snd (Store_Process lib s r)) = next_id s) \<and>
    (fst (Store_Undo lib s r) \<noteq> Yes \<longrightarrow>
      rows (snd (Store_Undo lib s r)) = rows s \<and> next_id (snd (Store_Undo lib s r)) = next_id s) \<and>
    \<not> InTransaction (snd (Store_Process lib s r)) \<and> \<not> InTransaction (snd (Store_Undo lib s r))"
proof -
  have t: "curTransaction s = None" using assms unfolding InTransaction_def by blast
  have p: "do_Process lib s r = (a, s') \<Longrightarrow> curTransaction s' = curTransaction s" for s s' a
    by (cases "a = Yes") (auto dest: do_Process_rows(3) do_Process_fail)
  have u: "do_Undo lib s r = (a, s') \<Longrightarrow> curTransaction s' = curTransaction s" for s s' a
    by (cases "a = Yes") (auto dest: do_Undo_rows(3) do_Undo_fail)
  show ?thesis
    using with_view_atomic [of "\<lambda>s. do_Process lib s r", OF p t] with_view_atomic [of "\<lambda>s. do_Undo lib s r", OF u t]
    by (auto simp: Store_Process_def Store_Undo_def InTransaction_def)
qed

theorem Process_Undo_atomic_witness:
  "\<not> InTransaction Store_Initialize \<and> \<not> InTransaction (snd (Store_Process demo_lib Store_Initialize demo_record))"
  using Process_Undo_atomic [of Store_Initialize demo_lib demo_record]
  by (simp add: InTransaction_def Store_Initialize_def)

end
