(* ===== verification/Transaction.thy ===== *)
theory Transaction
  imports TxInfo
begin

text \<open>
  Transactions: \<^verbatim>\<open>COutPoint\<close>, \<^verbatim>\<open>CTxIn\<close>, \<^verbatim>\<open>CTxOut\<close> and \<^verbatim>\<open>CTransaction\<close> of
  \<^verbatim>\<open>src/src/main.h\<close>, their wire format and the predicates on them. Every type implements the
  \<open>codec\<close> interface; a transaction whose version the serialiser rejects has no encoding.
\<close>

section \<open>Money\<close>

definition COIN :: int where "COIN = 1000000"
definition CENT :: int where "CENT = 10000"
definition MAX_MONEY :: int where "MAX_MONEY = 2000000000 * COIN"

definition MoneyRange :: "int64 \<Rightarrow> bool" where
  "MoneyRange nValue = (0 \<le> sint nValue \<and> sint nValue \<le> MAX_MONEY)"

section \<open>Outpoints\<close>

record COutPoint =
  op_hash :: uint256
  op_n :: uint32

definition COutPoint_SetNull :: COutPoint where
  "COutPoint_SetNull = \<lparr> op_hash = 0, op_n = - 1 \<rparr>"

definition COutPoint_IsNull :: "COutPoint \<Rightarrow> bool" where
  "COutPoint_IsNull p = (op_hash p = 0 \<and> op_n p = - 1)"

definition COutPoint_less :: "COutPoint \<Rightarrow> COutPoint \<Rightarrow> bool" where
  "COutPoint_less a b = (op_hash a < op_hash b \<or> (op_hash a = op_hash b \<and> op_n a < op_n b))"

definition Serialize_COutPoint :: "COutPoint \<Rightarrow> bytes" where
  "Serialize_COutPoint p = Serialize_word 32 (op_hash p) @ Serialize_word 4 (op_n p)"

definition Unserialize_COutPoint :: "bytes \<Rightarrow> (COutPoint \<times> bytes) option" where
  "Unserialize_COutPoint s = do {
     (h, s) \<leftarrow> (Unserialize_word 32 s :: (uint256 \<times> bytes) option);
     (n, s) \<leftarrow> (Unserialize_word 4 s :: (uint32 \<times> bytes) option);
     Some (\<lparr> op_hash = h, op_n = n \<rparr>, s) }"

interpretation outpoint: codec Serialize_COutPoint Unserialize_COutPoint "\<lambda>_. True"
  by unfold_locales
     (simp add: Serialize_COutPoint_def Unserialize_COutPoint_def u256.dec_enc u32.dec_enc)

section \<open>Infos\<close>

definition Serialize_TxInfoKey :: "TxInfoKey \<Rightarrow> bytes" where
  "Serialize_TxInfoKey k = Serialize_word 1 (key_type k) @ Serialize_string (keyString k)"

definition Unserialize_TxInfoKey :: "bytes \<Rightarrow> (TxInfoKey \<times> bytes) option" where
  "Unserialize_TxInfoKey s = do {
     (t, s) \<leftarrow> (Unserialize_word 1 s :: (byte \<times> bytes) option);
     (k, s) \<leftarrow> Unserialize_string s;
     Some (\<lparr> key_type = t, keyString = k \<rparr>, s) }"

interpretation infokey: codec Serialize_TxInfoKey Unserialize_TxInfoKey
  "\<lambda>k. length (keyString k) \<le> MAX_SIZE"
  by unfold_locales
     (simp add: Serialize_TxInfoKey_def Unserialize_TxInfoKey_def u8_read ser_string.dec_enc)

definition Serialize_CTxInfo :: "CTxInfo \<Rightarrow> bytes" where
  "Serialize_CTxInfo i = Serialize_TxInfoKey (info_key i) @ Serialize_string (info_value i)"

definition Unserialize_CTxInfo :: "bytes \<Rightarrow> (CTxInfo \<times> bytes) option" where
  "Unserialize_CTxInfo s = do {
     (k, s) \<leftarrow> Unserialize_TxInfoKey s;
     (v, s) \<leftarrow> Unserialize_string s;
     Some (\<lparr> info_key = k, info_value = v \<rparr>, s) }"

definition info_fits :: "CTxInfo \<Rightarrow> bool" where
  "info_fits i = (length (keyString (info_key i)) \<le> MAX_SIZE \<and> length (info_value i) \<le> MAX_SIZE)"

interpretation info: codec Serialize_CTxInfo Unserialize_CTxInfo info_fits
  by unfold_locales
     (simp add: Serialize_CTxInfo_def Unserialize_CTxInfo_def info_fits_def infokey.dec_enc ser_string.dec_enc)

text \<open>
  The sizes of the C++ objects only decide in how many batches a vector is read, which
  \<open>read_batches_eq\<close> shows to be immaterial.
\<close>

definition sizeof_CTxInfo :: nat where "sizeof_CTxInfo = 24"
definition sizeof_CTxIn :: nat where "sizeof_CTxIn = 96"
definition sizeof_CTxOut :: nat where "sizeof_CTxOut = 56"

interpretation infos: codec "Serialize_vector Serialize_CTxInfo"
  "Unserialize_vector sizeof_CTxInfo Unserialize_CTxInfo" "\<lambda>xs. length xs \<le> MAX_SIZE \<and> list_all info_fits xs"
  by (rule info.vector_codec) (simp_all add: sizeof_CTxInfo_def)

section \<open>Inputs\<close>

type_synonym CScript = bytes

record CTxIn =
  prevout :: COutPoint
  scriptSig :: CScript
  nSequence :: uint32
  infos :: "CTxInfo list"

definition CTxIn_IsFinal :: "CTxIn \<Rightarrow> bool" where
  "CTxIn_IsFinal i = (nSequence i = 0xffffffff)"

definition CTxIn_CheckTxInfos :: "CTxIn \<Rightarrow> bool" where
  "CTxIn_CheckTxInfos i = list_all (\<lambda>info. CTxInfo_IsValid info = None) (infos i)"

definition Serialize_CTxIn :: "CTxIn \<Rightarrow> bytes" where
  "Serialize_CTxIn i =
     Serialize_COutPoint (prevout i) @ Serialize_vector_bytes (scriptSig i) @
     Serialize_word 4 (nSequence i) @ Serialize_vector Serialize_CTxInfo (infos i)"

definition Unserialize_CTxIn :: "bytes \<Rightarrow> (CTxIn \<times> bytes) option" where
  "Unserialize_CTxIn s = do {
     (p, s) \<leftarrow> Unserialize_COutPoint s;
     (sc, s) \<leftarrow> Unserialize_vector_bytes s;
     (n, s) \<leftarrow> (Unserialize_word 4 s :: (uint32 \<times> bytes) option);
     (is, s) \<leftarrow> Unserialize_vector sizeof_CTxInfo Unserialize_CTxInfo s;
     Some (\<lparr> prevout = p, scriptSig = sc, nSequence = n, infos = is \<rparr>, s) }"

definition txin_fits :: "CTxIn \<Rightarrow> bool" where
  "txin_fits i = (length (scriptSig i) \<le> MAX_SIZE \<and> length (infos i) \<le> MAX_SIZE \<and> list_all info_fits (infos i))"

interpretation txin: codec Serialize_CTxIn Unserialize_CTxIn txin_fits
  by unfold_locales
     (simp add: Serialize_CTxIn_def Unserialize_CTxIn_def txin_fits_def outpoint.dec_enc
       vector_bytes.dec_enc u32.dec_enc infos.dec_enc)

interpretation txins: codec "Serialize_vector Serialize_CTxIn" "Unserialize_vector sizeof_CTxIn Unserialize_CTxIn"
  "\<lambda>xs. length xs \<le> MAX_SIZE \<and> list_all txin_fits xs"
  by (rule txin.vector_codec) (simp_all add: sizeof_CTxIn_def)

section \<open>Outputs\<close>

record CTxOut =
  subCurrency :: bytes
  nValue :: int64
  scriptPubKey :: CScript

definition CTxOut_SetNull :: CTxOut where
  "CTxOut_SetNull = \<lparr> subCurrency = [], nValue = - 1, scriptPubKey = [] \<rparr>"

definition CTxOut_IsNull :: "CTxOut \<Rightarrow> bool" where
  "CTxOut_IsNull out = (nValue out = - 1)"

definition CTxOut_SetEmpty :: "CTxOut \<Rightarrow> CTxOut" where
  "CTxOut_SetEmpty out = out\<lparr> nValue := 0, scriptPubKey := [] \<rparr>"

definition CTxOut_IsEmpty :: "CTxOut \<Rightarrow> bool" where
  "CTxOut_IsEmpty out = (nValue out = 0 \<and> scriptPubKey out = [])"

definition Serialize_CTxOut :: "CTxOut \<Rightarrow> bytes" where
  "Serialize_CTxOut out =
     Serialize_vector_bytes (subCurrency out) @ Serialize_word 8 (nValue out) @
     Serialize_vector_bytes (scriptPubKey out)"

definition Unserialize_CTxOut :: "bytes \<Rightarrow> (CTxOut \<times> bytes) option" where
  "Unserialize_CTxOut s = do {
     (c, s) \<leftarrow> Unserialize_vector_bytes s;
     (v, s) \<leftarrow> (Unserialize_word 8 s :: (int64 \<times> bytes) option);
     (k, s) \<leftarrow> Unserialize_vector_bytes s;
     Some (\<lparr> subCurrency = c, nValue = v, scriptPubKey = k \<rparr>, s) }"

definition txout_fits :: "CTxOut \<Rightarrow> bool" where
  "txout_fits out = (length (subCurrency out) \<le> MAX_SIZE \<and> length (scriptPubKey out) \<le> MAX_SIZE)"

interpretation txout: codec Serialize_CTxOut Unserialize_CTxOut txout_fits
  by unfold_locales
     (simp add: Serialize_CTxOut_def Unserialize_CTxOut_def txout_fits_def vector_bytes.dec_enc u64.dec_enc)

interpretation txouts: codec "Serialize_vector Serialize_CTxOut" "Unserialize_vector sizeof_CTxOut Unserialize_CTxOut"
  "\<lambda>xs. length xs \<le> MAX_SIZE \<and> list_all txout_fits xs"
  by (rule txout.vector_codec) (simp_all add: sizeof_CTxOut_def)

definition CTxOut_GetHash :: "'a openssl_scheme \<Rightarrow> CTxOut \<Rightarrow> uint256" where
  "CTxOut_GetHash lib out = Hash lib (Serialize_CTxOut out)"

section \<open>Transactions\<close>

definition TT_NORMAL :: int32 where "TT_NORMAL = 1"
definition TT_MINT_SUBCURRENCY :: int32 where "TT_MINT_SUBCURRENCY = 101"
definition TT_REMINT_SUBCURRENCY :: int32 where "TT_REMINT_SUBCURRENCY = 102"

lemmas tx_types = TT_NORMAL_def TT_MINT_SUBCURRENCY_def TT_REMINT_SUBCURRENCY_def

record CTransaction =
  tx_nVersion :: int32
  tx_nTime :: uint32
  vin :: "CTxIn list"
  vout :: "CTxOut list"
  nLockTime :: uint32
  mint_subCurrencyName :: bytes
  mint_subCurrencyId :: bytes
  mint_numUnits :: int64
  mint_divisibility :: int64
  mint_remintScript :: CScript

definition valid_version :: "int32 \<Rightarrow> bool" where
  "valid_version v = (v = TT_NORMAL \<or> v = TT_MINT_SUBCURRENCY \<or> v = TT_REMINT_SUBCURRENCY)"

definition mint_bytes :: "CTransaction \<Rightarrow> bytes" where
  "mint_bytes tx =
     (if tx_nVersion tx = TT_MINT_SUBCURRENCY then
        Serialize_string (mint_subCurrencyName tx) @ Serialize_vector_bytes (mint_subCurrencyId tx) @
        Serialize_word 8 (mint_numUnits tx) @ Serialize_word 8 (mint_divisibility tx) @
        Serialize_vector_bytes (mint_remintScript tx)
      else if tx_nVersion tx = TT_REMINT_SUBCURRENCY then
        Serialize_vector_bytes (mint_subCurrencyId tx) @ Serialize_word 8 (mint_numUnits tx) @
        Serialize_vector_bytes (mint_remintScript tx)
      else [])"

text \<open>The bytes written; the serialiser throws instead when the version is none of the three.\<close>

definition tx_bytes :: "CTransaction \<Rightarrow> bytes" where
  "tx_bytes tx =
     Serialize_word 4 (tx_nVersion tx) @ Serialize_word 4 (tx_nTime tx) @
     Serialize_vector Serialize_CTxIn (vin tx) @ Serialize_vector Serialize_CTxOut (vout tx) @
     Serialize_word 4 (nLockTime tx) @ mint_bytes tx"

definition Serialize_CTransaction :: "CTransaction \<Rightarrow> bytes option" where
  "Serialize_CTransaction tx = (if valid_version (tx_nVersion tx) then Some (tx_bytes tx) else None)"

text \<open>
  The reader fills a transaction whose mint fields are empty, as those of a fresh object are taken
  to be; it touches only the ones its version has.
\<close>

definition Unserialize_CTransaction :: "bytes \<Rightarrow> (CTransaction \<times> bytes) option" where
  "Unserialize_CTransaction s = do {
     (v, s) \<leftarrow> (Unserialize_word 4 s :: (int32 \<times> bytes) option);
     (t, s) \<leftarrow> (Unserialize_word 4 s :: (uint32 \<times> bytes) option);
     (ins, s) \<leftarrow> Unserialize_vector sizeof_CTxIn Unserialize_CTxIn s;
     (outs, s) \<leftarrow> Unserialize_vector sizeof_CTxOut Unserialize_CTxOut s;
     (l, s) \<leftarrow> (Unserialize_word 4 s :: (uint32 \<times> bytes) option);
     let tx = \<lparr> tx_nVersion = v, tx_nTime = t, vin = ins, vout = outs, nLockTime = l,
                mint_subCurrencyName = [], mint_subCurrencyId = [], mint_numUnits = 0,
                mint_divisibility = 0, mint_remintScript = [] \<rparr>;
     (if v = TT_NORMAL then Some (tx, s)
      else if v = TT_MINT_SUBCURRENCY then do {
        (nm, s) \<leftarrow> Unserialize_string s;
        (i, s) \<leftarrow> Unserialize_vector_bytes s;
        (u, s) \<leftarrow> (Unserialize_word 8 s :: (int64 \<times> bytes) option);
        (d, s) \<leftarrow> (Unserialize_word 8 s :: (int64 \<times> bytes) option);
        (r, s) \<leftarrow> Unserialize_vector_bytes s;
        Some (tx\<lparr> mint_subCurrencyName := nm, mint_subCurrencyId := i, mint_numUnits := u,
                 mint_divisibility := d, mint_remintScript := r \<rparr>, s) }
      else if v = TT_REMINT_SUBCURRENCY then do {
        (i, s) \<leftarrow> Unserialize_vector_bytes s;
        (u, s) \<leftarrow> (Unserialize_word 8 s :: (int64 \<times> bytes) option);
        (r, s) \<leftarrow> Unserialize_vector_bytes s;
        Some (tx\<lparr> mint_subCurrencyId := i, mint_numUnits := u, mint_remintScript := r \<rparr>, s) }
      else None) }"

text \<open>The transactions with an encoding: a known version, sizes in range, no mint data the version has no room for.\<close>

definition tx_fits :: "CTransaction \<Rightarrow> bool" where
  "tx_fits tx =
     (valid_version (tx_nVersion tx) \<and>
      length (vin tx) \<le> MAX_SIZE \<and> list_all txin_fits (vin tx) \<and>
      length (vout tx) \<le> MAX_SIZE \<and> list_all txout_fits (vout tx) \<and>
      length (mint_subCurrencyName tx) \<le> MAX_SIZE \<and> length (mint_subCurrencyId tx) \<le> MAX_SIZE \<and>
      length (mint_remintScript tx) \<le> MAX_SIZE \<and>
      (tx_nVersion tx = TT_NORMAL \<longrightarrow>
         mint_subCurrencyId tx = [] \<and> mint_numUnits tx = 0 \<and> mint_remintScript tx = []) \<and>
      (tx_nVersion tx \<noteq> TT_MINT_SUBCURRENCY \<longrightarrow> mint_subCurrencyName tx = [] \<and> mint_divisibility tx = 0))"

interpretation tx: codec tx_bytes Unserialize_CTransaction tx_fits
proof
  fix x :: CTransaction and rest
  assume fits: "tx_fits x"
  then consider "tx_nVersion x = TT_NORMAL" | "tx_nVersion x = TT_MINT_SUBCURRENCY" | "tx_nVersion x = TT_REMINT_SUBCURRENCY"
    by (auto simp: tx_fits_def valid_version_def)
  then show "Unserialize_CTransaction (tx_bytes x @ rest) = Some (x, rest)"
    by cases (use fits in \<open>simp_all add: Unserialize_CTransaction_def tx_bytes_def mint_bytes_def tx_fits_def
      u32.dec_enc u64.dec_enc txins.dec_enc txouts.dec_enc vector_bytes.dec_enc ser_string.dec_enc tx_types Let_def\<close>)
qed

definition CTransaction_GetHash :: "'a openssl_scheme \<Rightarrow> CTransaction \<Rightarrow> uint256 option" where
  "CTransaction_GetHash lib tx = map_option (Hash lib) (Serialize_CTransaction tx)"

definition CountInfoTxs :: "CTransaction \<Rightarrow> uint32" where
  "CountInfoTxs tx = foldl (\<lambda>count txin. count + of_nat (length (infos txin))) 0 (vin tx)"

definition CTransaction_IsNull :: "CTransaction \<Rightarrow> bool" where
  "CTransaction_IsNull tx = (vin tx = [] \<and> vout tx = [])"

text \<open>\<^verbatim>\<open>SetNull\<close>, at the adjusted time \<open>now\<close>; it leaves the mint fields alone.\<close>

definition CTransaction_SetNull :: "uint32 \<Rightarrow> CTransaction \<Rightarrow> CTransaction" where
  "CTransaction_SetNull now tx =
     tx\<lparr> tx_nVersion := TT_NORMAL, tx_nTime := now, vin := [], vout := [], nLockTime := 0 \<rparr>"

definition LOCKTIME_THRESHOLD :: int where "LOCKTIME_THRESHOLD = 500000000"

text \<open>\<^verbatim>\<open>IsFinal\<close>, with the best height and the adjusted time it reads when its arguments are 0.\<close>

definition CTransaction_IsFinal :: "int \<Rightarrow> int \<Rightarrow> int \<Rightarrow> int \<Rightarrow> CTransaction \<Rightarrow> bool" where
  "CTransaction_IsFinal nBestHeight adjustedTime nBlockHeight nBlockTime tx =
     (if nLockTime tx = 0 then True
      else
        let h = (if nBlockHeight = 0 then nBestHeight else nBlockHeight);
            t = (if nBlockTime = 0 then adjustedTime else nBlockTime)
        in if uint (nLockTime tx) < (if uint (nLockTime tx) < LOCKTIME_THRESHOLD then h else t) then True
           else list_all CTxIn_IsFinal (vin tx))"

text \<open>The second loop of \<^verbatim>\<open>IsNewerThan\<close>, over the pairs of sequence numbers.\<close>

fun newer_loop :: "bool \<Rightarrow> uint32 \<Rightarrow> (uint32 \<times> uint32) list \<Rightarrow> bool" where
  "newer_loop fNewer nLowest [] = fNewer"
| "newer_loop fNewer nLowest ((a, b) # ps) =
     (if a \<noteq> b then
        (let (fNewer, nLowest) = (if a \<le> nLowest then (False, a) else (fNewer, nLowest));
             (fNewer, nLowest) = (if b < nLowest then (True, b) else (fNewer, nLowest))
         in newer_loop fNewer nLowest ps)
      else newer_loop fNewer nLowest ps)"

definition IsNewerThan :: "CTransaction \<Rightarrow> CTransaction \<Rightarrow> bool" where
  "IsNewerThan tx old =
     (if length (vin tx) \<noteq> length (vin old) then False
      else if map prevout (vin tx) \<noteq> map prevout (vin old) then False
      else newer_loop False 0xffffffff (zip (map nSequence (vin tx)) (map nSequence (vin old))))"

definition IsCoinBase :: "CTransaction \<Rightarrow> bool" where
  "IsCoinBase tx = (length (vin tx) = 1 \<and> COutPoint_IsNull (prevout (vin tx ! 0)) \<and> length (vout tx) \<ge> 1)"

definition IsCoinStake :: "CTransaction \<Rightarrow> bool" where
  "IsCoinStake tx =
     (length (vin tx) > 0 \<and> \<not> COutPoint_IsNull (prevout (vin tx ! 0)) \<and> length (vout tx) \<ge> 2 \<and>
      CTxOut_IsEmpty (vout tx ! 0))"

text \<open>\<^verbatim>\<open>GetValueOut\<close>: the running total wraps at 64 bits; \<open>None\<close> is the exception.\<close>

fun value_out_loop :: "int64 \<Rightarrow> CTxOut list \<Rightarrow> int64 option" where
  "value_out_loop nValueOut [] = Some nValueOut"
| "value_out_loop nValueOut (txout # outs) =
     (let nValueOut = nValueOut + nValue txout in
      if \<not> MoneyRange (nValue txout) \<or> \<not> MoneyRange nValueOut then None
      else value_out_loop nValueOut outs)"

definition GetValueOut :: "CTransaction \<Rightarrow> int64 option" where
  "GetValueOut tx = value_out_loop 0 (vout tx)"

definition CTransaction_eq :: "CTransaction \<Rightarrow> CTransaction \<Rightarrow> bool" where
  "CTransaction_eq a b =
     (tx_nVersion a = tx_nVersion b \<and> tx_nTime a = tx_nTime b \<and> vin a = vin b \<and> vout a = vout b \<and>
      nLockTime a = nLockTime b)"

section \<open>Totals\<close>

lemma MoneyRange_add:
  assumes "MoneyRange a" and "MoneyRange b"
  shows "sint (a + b) = sint a + sint b"
  using assms by (intro sint_add_exact) (simp_all add: MoneyRange_def MAX_MONEY_def COIN_def)

lemma value_out_loop_Some:
  "MoneyRange acc \<Longrightarrow> value_out_loop acc outs = Some v \<longleftrightarrow>
     list_all (\<lambda>out. MoneyRange (nValue out)) outs \<and>
     sint acc + sum_list (map (\<lambda>out. sint (nValue out)) outs) \<le> MAX_MONEY \<and>
     sint v = sint acc + sum_list (map (\<lambda>out. sint (nValue out)) outs)"
proof (induction outs arbitrary: acc)
  case Nil
  then show ?case by (auto simp: MoneyRange_def) (metis signed_word_eqI)
next
  case (Cons out outs)
  show ?case
  proof (cases "MoneyRange (nValue out)")
    case out: True
    have sum: "sint (acc + nValue out) = sint acc + sint (nValue out)"
      by (rule MoneyRange_add [OF Cons.prems out])
    have nonneg: "0 \<le> sum_list (map (\<lambda>out. sint (nValue out)) outs)" if "list_all (\<lambda>out. MoneyRange (nValue out)) outs"
      using that by (induction outs) (auto simp: MoneyRange_def)
    show ?thesis
    proof (cases "MoneyRange (acc + nValue out)")
      case True
      then show ?thesis using Cons.IH [OF True] out sum by (simp add: add.assoc)
    next
      case False
      then have "MAX_MONEY < sint acc + sint (nValue out)"
        using Cons.prems out sum by (auto simp: MoneyRange_def)
      then show ?thesis using False nonneg out by (auto simp: list_all_iff)
    qed
  qed simp
qed

lemma GetValueOut_Some:
  "GetValueOut tx = Some v \<longleftrightarrow>
     list_all (\<lambda>out. MoneyRange (nValue out)) (vout tx) \<and>
     sum_list (map (\<lambda>out. sint (nValue out)) (vout tx)) \<le> MAX_MONEY \<and>
     sint v = sum_list (map (\<lambda>out. sint (nValue out)) (vout tx))"
  using value_out_loop_Some [of 0 "vout tx" v] by (simp add: GetValueOut_def MoneyRange_def MAX_MONEY_def COIN_def)

section \<open>Replacement order\<close>

lemma newer_loop_asym:
  "\<not> (fa \<and> fb) \<Longrightarrow> \<not> (newer_loop fa low ps \<and> newer_loop fb low (map prod.swap ps))"
proof (induction ps arbitrary: fa fb low)
  case (Cons p ps)
  obtain a b where p: "p = (a, b)" by fastforce
  show ?case
  proof (cases a b rule: linorder_cases)
    case less
    then show ?thesis using Cons p by (cases "a \<le> low"; cases "b \<le> low"; cases "a < low") (auto simp: Let_def)
  next
    case equal
    then show ?thesis using Cons p by simp
  next
    case greater
    then show ?thesis using Cons p by (cases "a \<le> low"; cases "b \<le> low"; cases "b < low") (auto simp: Let_def)
  qed
qed simp

lemma IsNewerThan_asym: "IsNewerThan a b \<Longrightarrow> \<not> IsNewerThan b a"
proof -
  have "zip (map nSequence (vin b)) (map nSequence (vin a)) =
      map prod.swap (zip (map nSequence (vin a)) (map nSequence (vin b)))"
    by (subst zip_commute) auto
  then show "IsNewerThan a b \<Longrightarrow> \<not> IsNewerThan b a"
    using newer_loop_asym by (auto simp: IsNewerThan_def split: if_splits)
qed

section \<open>Properties\<close>

text \<open>
  The wire format of transactions: what is written for a transaction of a known version is
  read back as that transaction, whatever follows it in the stream, for ordinary, minting and
  re-minting transactions; two different transactions never have the same bytes, so the hash is
  taken over an injective image; and a transaction of another version is refused, as is a stream
  that carries one.
\<close>

theorem CTransaction_round_trip:
  assumes "tx_fits a" and "tx_fits b"
  shows "Serialize_CTransaction a = Some (tx_bytes a) \<and>
    Unserialize_CTransaction (tx_bytes a @ rest) = Some (a, rest) \<and>
    (Serialize_CTransaction a = Serialize_CTransaction b \<longleftrightarrow> a = b) \<and>
    (\<not> valid_version (tx_nVersion c) \<longrightarrow> Serialize_CTransaction c = None)"
  using assms tx.dec_enc [OF assms(1)] tx.enc_inj [OF assms]
  by (auto simp: Serialize_CTransaction_def tx_fits_def)

definition demo_tx :: CTransaction where
  "demo_tx = \<lparr> tx_nVersion = 1, tx_nTime = 7,
     vin = [\<lparr> prevout = \<lparr> op_hash = 3, op_n = 1 \<rparr>, scriptSig = [1, 2], nSequence = 0xffffffff, infos = [] \<rparr>],
     vout = [\<lparr> subCurrency = [], nValue = 5000000, scriptPubKey = [0x76] \<rparr>], nLockTime = 0,
     mint_subCurrencyName = [], mint_subCurrencyId = [], mint_numUnits = 0, mint_divisibility = 0,
     mint_remintScript = [] \<rparr>"

lemma demo_tx_fits: "tx_fits demo_tx"
  by (simp add: demo_tx_def tx_fits_def valid_version_def tx_types txin_fits_def txout_fits_def MAX_SIZE_def)

theorem CTransaction_round_trip_witness:
  "Unserialize_CTransaction (tx_bytes demo_tx @ [9, 9]) = Some (demo_tx, [9, 9])"
  using CTransaction_round_trip [OF demo_tx_fits demo_tx_fits] by simp

text \<open>
  \<^verbatim>\<open>GetValueOut\<close> answers exactly when every output is in the money range and so is their sum,
  and its answer is that sum: the 64-bit running total never wraps.
\<close>

theorem GetValueOut_exact:
  "GetValueOut tx = Some v \<longleftrightarrow>
     list_all (\<lambda>out. 0 \<le> sint (nValue out) \<and> sint (nValue out) \<le> MAX_MONEY) (vout tx) \<and>
     sum_list (map (\<lambda>out. sint (nValue out)) (vout tx)) \<le> MAX_MONEY \<and>
     sint v = sum_list (map (\<lambda>out. sint (nValue out)) (vout tx))"
  using GetValueOut_Some [of tx v] by (simp add: MoneyRange_def)

end
