(* ===== verification/Script.thy ===== *)
theory Script
  imports Transaction
begin

text \<open>
  Scripts as byte strings, \<^verbatim>\<open>src/src/script.h\<close>: the opcodes, the instruction reader
  \<^verbatim>\<open>GetOp2\<close>, the push operators, and the scans over a script that \<^verbatim>\<open>CScript\<close> offers. A
  position \<^verbatim>\<open>pc\<close> in a script is the list of the bytes from there to the end.
\<close>

section \<open>Opcodes\<close>

abbreviation (input) OP_0 :: nat where "OP_0 \<equiv> 0x00"
abbreviation (input) OP_FALSE :: nat where "OP_FALSE \<equiv> 0x00"
abbreviation (input) OP_PUSHDATA1 :: nat where "OP_PUSHDATA1 \<equiv> 0x4c"
abbreviation (input) OP_PUSHDATA2 :: nat where "OP_PUSHDATA2 \<equiv> 0x4d"
abbreviation (input) OP_PUSHDATA4 :: nat where "OP_PUSHDATA4 \<equiv> 0x4e"
abbreviation (input) OP_1NEGATE :: nat where "OP_1NEGATE \<equiv> 0x4f"
abbreviation (input) OP_RESERVED :: nat where "OP_RESERVED \<equiv> 0x50"
abbreviation (input) OP_1 :: nat where "OP_1 \<equiv> 0x51"
abbreviation (input) OP_TRUE :: nat where "OP_TRUE \<equiv> 0x51"
abbreviation (input) OP_2 :: nat where "OP_2 \<equiv> 0x52"
abbreviation (input) OP_3 :: nat where "OP_3 \<equiv> 0x53"
abbreviation (input) OP_4 :: nat where "OP_4 \<equiv> 0x54"
abbreviation (input) OP_5 :: nat where "OP_5 \<equiv> 0x55"
abbreviation (input) OP_6 :: nat where "OP_6 \<equiv> 0x56"
abbreviation (input) OP_7 :: nat where "OP_7 \<equiv> 0x57"
abbreviation (input) OP_8 :: nat where "OP_8 \<equiv> 0x58"
abbreviation (input) OP_9 :: nat where "OP_9 \<equiv> 0x59"
abbreviation (input) OP_10 :: nat where "OP_10 \<equiv> 0x5a"
abbreviation (input) OP_11 :: nat where "OP_11 \<equiv> 0x5b"
abbreviation (input) OP_12 :: nat where "OP_12 \<equiv> 0x5c"
abbreviation (input) OP_13 :: nat where "OP_13 \<equiv> 0x5d"
abbreviation (input) OP_14 :: nat where "OP_14 \<equiv> 0x5e"
abbreviation (input) OP_15 :: nat where "OP_15 \<equiv> 0x5f"
abbreviation (input) OP_16 :: nat where "OP_16 \<equiv> 0x60"
abbreviation (input) OP_NOP :: nat where "OP_NOP \<equiv> 0x61"
abbreviation (input) OP_VER :: nat where "OP_VER \<equiv> 0x62"
abbreviation (input) OP_IF :: nat where "OP_IF \<equiv> 0x63"
abbreviation (input) OP_NOTIF :: nat where "OP_NOTIF \<equiv> 0x64"
abbreviation (input) OP_VERIF :: nat where "OP_VERIF \<equiv> 0x65"
abbreviation (input) OP_VERNOTIF :: nat where "OP_VERNOTIF \<equiv> 0x66"
abbreviation (input) OP_ELSE :: nat where "OP_ELSE \<equiv> 0x67"
abbreviation (input) OP_ENDIF :: nat where "OP_ENDIF \<equiv> 0x68"
abbreviation (input) OP_VERIFY :: nat where "OP_VERIFY \<equiv> 0x69"
abbreviation (input) OP_RETURN :: nat where "OP_RETURN \<equiv> 0x6a"
abbreviation (input) OP_TOALTSTACK :: nat where "OP_TOALTSTACK \<equiv> 0x6b"
abbreviation (input) OP_FROMALTSTACK :: nat where "OP_FROMALTSTACK \<equiv> 0x6c"
abbreviation (input) OP_2DROP :: nat where "OP_2DROP \<equiv> 0x6d"
abbreviation (input) OP_2DUP :: nat where "OP_2DUP \<equiv> 0x6e"
abbreviation (input) OP_3DUP :: nat where "OP_3DUP \<equiv> 0x6f"
abbreviation (input) OP_2OVER :: nat where "OP_2OVER \<equiv> 0x70"
abbreviation (input) OP_2ROT :: nat where "OP_2ROT \<equiv> 0x71"
abbreviation (input) OP_2SWAP :: nat where "OP_2SWAP \<equiv> 0x72"
abbreviation (input) OP_IFDUP :: nat where "OP_IFDUP \<equiv> 0x73"
abbreviation (input) OP_DEPTH :: nat where "OP_DEPTH \<equiv> 0x74"
abbreviation (input) OP_DROP :: nat where "OP_DROP \<equiv> 0x75"
abbreviation (input) OP_DUP :: nat where "OP_DUP \<equiv> 0x76"
abbreviation (input) OP_NIP :: nat where "OP_NIP \<equiv> 0x77"
abbreviation (input) OP_OVER :: nat where "OP_OVER \<equiv> 0x78"
abbreviation (input) OP_PICK :: nat where "OP_PICK \<equiv> 0x79"
abbreviation (input) OP_ROLL :: nat where "OP_ROLL \<equiv> 0x7a"
abbreviation (input) OP_ROT :: nat where "OP_ROT \<equiv> 0x7b"
abbreviation (input) OP_SWAP :: nat where "OP_SWAP \<equiv> 0x7c"
abbreviation (input) OP_TUCK :: nat where "OP_TUCK \<equiv> 0x7d"
abbreviation (input) OP_CAT :: nat where "OP_CAT \<equiv> 0x7e"
abbreviation (input) OP_SUBSTR :: nat where "OP_SUBSTR \<equiv> 0x7f"
abbreviation (input) OP_LEFT :: nat where "OP_LEFT \<equiv> 0x80"
abbreviation (input) OP_RIGHT :: nat where "OP_RIGHT \<equiv> 0x81"
abbreviation (input) OP_SIZE :: nat where "OP_SIZE \<equiv> 0x82"
abbreviation (input) OP_INVERT :: nat where "OP_INVERT \<equiv> 0x83"
abbreviation (input) OP_AND :: nat where "OP_AND \<equiv> 0x84"
abbreviation (input) OP_OR :: nat where "OP_OR \<equiv> 0x85"
abbreviation (input) OP_XOR :: nat where "OP_XOR \<equiv> 0x86"
abbreviation (input) OP_EQUAL :: nat where "OP_EQUAL \<equiv> 0x87"
abbreviation (input) OP_EQUALVERIFY :: nat where "OP_EQUALVERIFY \<equiv> 0x88"
abbreviation (input) OP_RESERVED1 :: nat where "OP_RESERVED1 \<equiv> 0x89"
abbreviation (input) OP_RESERVED2 :: nat where "OP_RESERVED2 \<equiv> 0x8a"
abbreviation (input) OP_1ADD :: nat where "OP_1ADD \<equiv> 0x8b"
abbreviation (input) OP_1SUB :: nat where "OP_1SUB \<equiv> 0x8c"
abbreviation (input) OP_2MUL :: nat where "OP_2MUL \<equiv> 0x8d"
abbreviation (input) OP_2DIV :: nat where "OP_2DIV \<equiv> 0x8e"
abbreviation (input) OP_NEGATE :: nat where "OP_NEGATE \<equiv> 0x8f"
abbreviation (input) OP_ABS :: nat where "OP_ABS \<equiv> 0x90"
abbreviation (input) OP_NOT :: nat where "OP_NOT \<equiv> 0x91"
abbreviation (input) OP_0NOTEQUAL :: nat where "OP_0NOTEQUAL \<equiv> 0x92"
abbreviation (input) OP_ADD :: nat where "OP_ADD \<equiv> 0x93"
abbreviation (input) OP_SUB :: nat where "OP_SUB \<equiv> 0x94"
abbreviation (input) OP_MUL :: nat where "OP_MUL \<equiv> 0x95"
abbreviation (input) OP_DIV :: nat where "OP_DIV \<equiv> 0x96"
abbreviation (input) OP_MOD :: nat where "OP_MOD \<equiv> 0x97"
abbreviation (input) OP_LSHIFT :: nat where "OP_LSHIFT \<equiv> 0x98"
abbreviation (input) OP_RSHIFT :: nat where "OP_RSHIFT \<equiv> 0x99"
abbreviation (input) OP_BOOLAND :: nat where "OP_BOOLAND \<equiv> 0x9a"
abbreviation (input) OP_BOOLOR :: nat where "OP_BOOLOR \<equiv> 0x9b"
abbreviation (input) OP_NUMEQUAL :: nat where "OP_NUMEQUAL \<equiv> 0x9c"
abbreviation (input) OP_NUMEQUALVERIFY :: nat where "OP_NUMEQUALVERIFY \<equiv> 0x9d"
abbreviation (input) OP_NUMNOTEQUAL :: nat where "OP_NUMNOTEQUAL \<equiv> 0x9e"
abbreviation (input) OP_LESSTHAN :: nat where "OP_LESSTHAN \<equiv> 0x9f"
abbreviation (input) OP_GREATERTHAN :: nat where "OP_GREATERTHAN \<equiv> 0xa0"
abbreviation (input) OP_LESSTHANOREQUAL :: nat where "OP_LESSTHANOREQUAL \<equiv> 0xa1"
abbreviation (input) OP_GREATERTHANOREQUAL :: nat where "OP_GREATERTHANOREQUAL \<equiv> 0xa2"
abbreviation (input) OP_MIN :: nat where "OP_MIN \<equiv> 0xa3"
abbreviation (input) OP_MAX :: nat where "OP_MAX \<equiv> 0xa4"
abbreviation (input) OP_WITHIN :: nat where "OP_WITHIN \<equiv> 0xa5"
abbreviation (input) OP_RIPEMD160 :: nat where "OP_RIPEMD160 \<equiv> 0xa6"
abbreviation (input) OP_SHA1 :: nat where "OP_SHA1 \<equiv> 0xa7"
abbreviation (input) OP_SHA256 :: nat where "OP_SHA256 \<equiv> 0xa8"
abbreviation (input) OP_HASH160 :: nat where "OP_HASH160 \<equiv> 0xa9"
abbreviation (input) OP_HASH256 :: nat where "OP_HASH256 \<equiv> 0xaa"
abbreviation (input) OP_CODESEPARATOR :: nat where "OP_CODESEPARATOR \<equiv> 0xab"
abbreviation (input) OP_CHECKSIG :: nat where "OP_CHECKSIG \<equiv> 0xac"
abbreviation (input) OP_CHECKSIGVERIFY :: nat where "OP_CHECKSIGVERIFY \<equiv> 0xad"
abbreviation (input) OP_CHECKMULTISIG :: nat where "OP_CHECKMULTISIG \<equiv> 0xae"
abbreviation (input) OP_CHECKMULTISIGVERIFY :: nat where "OP_CHECKMULTISIGVERIFY \<equiv> 0xaf"
abbreviation (input) OP_NOP1 :: nat where "OP_NOP1 \<equiv> 0xb0"
abbreviation (input) OP_NOP2 :: nat where "OP_NOP2 \<equiv> 0xb1"
abbreviation (input) OP_NOP3 :: nat where "OP_NOP3 \<equiv> 0xb2"
abbreviation (input) OP_NOP4 :: nat where "OP_NOP4 \<equiv> 0xb3"
abbreviation (input) OP_NOP5 :: nat where "OP_NOP5 \<equiv> 0xb4"
abbreviation (input) OP_NOP6 :: nat where "OP_NOP6 \<equiv> 0xb5"
abbreviation (input) OP_NOP7 :: nat where "OP_NOP7 \<equiv> 0xb6"
abbreviation (input) OP_NOP8 :: nat where "OP_NOP8 \<equiv> 0xb7"
abbreviation (input) OP_NOP9 :: nat where "OP_NOP9 \<equiv> 0xb8"
abbreviation (input) OP_NOP10 :: nat where "OP_NOP10 \<equiv> 0xb9"
abbreviation (input) OP_SMALLINTEGER :: nat where "OP_SMALLINTEGER \<equiv> 0xfa"
abbreviation (input) OP_PUBKEYS :: nat where "OP_PUBKEYS \<equiv> 0xfb"
abbreviation (input) OP_PUBKEYHASH :: nat where "OP_PUBKEYHASH \<equiv> 0xfd"
abbreviation (input) OP_PUBKEY :: nat where "OP_PUBKEY \<equiv> 0xfe"
abbreviation (input) OP_INVALIDOPCODE :: nat where "OP_INVALIDOPCODE \<equiv> 0xff"

datatype txnouttype = TX_NONSTANDARD | TX_PUBKEY | TX_PUBKEYHASH | TX_SCRIPTHASH | TX_MULTISIG

fun GetTxnOutputType :: "txnouttype \<Rightarrow> string" where
  "GetTxnOutputType TX_NONSTANDARD = ''nonstandard''"
| "GetTxnOutputType TX_PUBKEY = ''pubkey''"
| "GetTxnOutputType TX_PUBKEYHASH = ''pubkeyhash''"
| "GetTxnOutputType TX_SCRIPTHASH = ''scripthash''"
| "GetTxnOutputType TX_MULTISIG = ''multisig''"

definition GetOpName :: "nat \<Rightarrow> string" where
  "GetOpName opcode =
     (if opcode = OP_0 then ''0''
      else if opcode = OP_PUSHDATA1 then ''OP_PUSHDATA1''
      else if opcode = OP_PUSHDATA2 then ''OP_PUSHDATA2''
      else if opcode = OP_PUSHDATA4 then ''OP_PUSHDATA4''
      else if opcode = OP_1NEGATE then ''-1''
      else if opcode = OP_RESERVED then ''OP_RESERVED''
      else if opcode = OP_1 then ''1''
      else if opcode = OP_2 then ''2''
      else if opcode = OP_3 then ''3''
      else if opcode = OP_4 then ''4''
      else if opcode = OP_5 then ''5''
      else if opcode = OP_6 then ''6''
      else if opcode = OP_7 then ''7''
      else if opcode = OP_8 then ''8''
      else if opcode = OP_9 then ''9''
      else if opcode = OP_10 then ''10''
      else if opcode = OP_11 then ''11''
      else if opcode = OP_12 then ''12''
      else if opcode = OP_13 then ''13''
      else if opcode = OP_14 then ''14''
      else if opcode = OP_15 then ''15''
      else if opcode = OP_16 then ''16''
      else if opcode = OP_NOP then ''OP_NOP''
      else if opcode = OP_VER then ''OP_VER''
      else if opcode = OP_IF then ''OP_IF''
      else if opcode = OP_NOTIF then ''OP_NOTIF''
      else if opcode = OP_VERIF then ''OP_VERIF''
      else if opcode = OP_VERNOTIF then ''OP_VERNOTIF''
      else if opcode = OP_ELSE then ''OP_ELSE''
      else if opcode = OP_ENDIF then ''OP_ENDIF''
      else if opcode = OP_VERIFY then ''OP_VERIFY''
      else if opcode = OP_RETURN then ''OP_RETURN''
      else if opcode = OP_TOALTSTACK then ''OP_TOALTSTACK''
      else if opcode = OP_FROMALTSTACK then ''OP_FROMALTSTACK''
      else if opcode = OP_2DROP then ''OP_2DROP''
      else if opcode = OP_2DUP then ''OP_2DUP''
      else if opcode = OP_3DUP then ''OP_3DUP''
      else if opcode = OP_2OVER then ''OP_2OVER''
      else if opcode = OP_2ROT then ''OP_2ROT''
      else if opcode = OP_2SWAP then ''OP_2SWAP''
      else if opcode = OP_IFDUP then ''OP_IFDUP''
      else if opcode = OP_DEPTH then ''OP_DEPTH''
      else if opcode = OP_DROP then ''OP_DROP''
      else if opcode = OP_DUP then ''OP_DUP''
      else if opcode = OP_NIP then ''OP_NIP''
      else if opcode = OP_OVER then ''OP_OVER''
      else if opcode = OP_PICK then ''OP_PICK''
      else if opcode = OP_ROLL then ''OP_ROLL''
      else if opcode = OP_ROT then ''OP_ROT''
      else if opcode = OP_SWAP then ''OP_SWAP''
      else if opcode = OP_TUCK then ''OP_TUCK''
      else if opcode = OP_CAT then ''OP_CAT''
      else if opcode = OP_SUBSTR then ''OP_SUBSTR''
      else if opcode = OP_LEFT then ''OP_LEFT''
      else if opcode = OP_RIGHT then ''OP_RIGHT''
      else if opcode = OP_SIZE then ''OP_SIZE''
      else if opcode = OP_INVERT then ''OP_INVERT''
      else if opcode = OP_AND then ''OP_AND''
      else if opcode = OP_OR then ''OP_OR''
      else if opcode = OP_XOR then ''OP_XOR''
      else if opcode = OP_EQUAL then ''OP_EQUAL''
      else if opcode = OP_EQUALVERIFY then ''OP_EQUALVERIFY''
      else if opcode = OP_RESERVED1 then ''OP_RESERVED1''
      else if opcode = OP_RESERVED2 then ''OP_RESERVED2''
      else if opcode = OP_1ADD then ''OP_1ADD''
      else if opcode = OP_1SUB then ''OP_1SUB''
      else if opcode = OP_2MUL then ''OP_2MUL''
      else if opcode = OP_2DIV then ''OP_2DIV''
      else if opcode = OP_NEGATE then ''OP_NEGATE''
      else if opcode = OP_ABS then ''OP_ABS''
      else if opcode = OP_NOT then ''OP_NOT''
      else if opcode = OP_0NOTEQUAL then ''OP_0NOTEQUAL''
      else if opcode = OP_ADD then ''OP_ADD''
      else if opcode = OP_SUB then ''OP_SUB''
      else if opcode = OP_MUL then ''OP_MUL''
      else if opcode = OP_DIV then ''OP_DIV''
      else if opcode = OP_MOD then ''OP_MOD''
      else if opcode = OP_LSHIFT then ''OP_LSHIFT''
      else if opcode = OP_RSHIFT then ''OP_RSHIFT''
      else if opcode = OP_BOOLAND then ''OP_BOOLAND''
      else if opcode = OP_BOOLOR then ''OP_BOOLOR''
      else if opcode = OP_NUMEQUAL then ''OP_NUMEQUAL''
      else if opcode = OP_NUMEQUALVERIFY then ''OP_NUMEQUALVERIFY''
      else if opcode = OP_NUMNOTEQUAL then ''OP_NUMNOTEQUAL''
      else if opcode = OP_LESSTHAN then ''OP_LESSTHAN''
      else if opcode = OP_GREATERTHAN then ''OP_GREATERTHAN''
      else if opcode = OP_LESSTHANOREQUAL then ''OP_LESSTHANOREQUAL''
      else if opcode = OP_GREATERTHANOREQUAL then ''OP_GREATERTHANOREQUAL''
      else if opcode = OP_MIN then ''OP_MIN''
      else if opcode = OP_MAX then ''OP_MAX''
      else if opcode = OP_WITHIN then ''OP_WITHIN''
      else if opcode = OP_RIPEMD160 then ''OP_RIPEMD160''
      else if opcode = OP_SHA1 then ''OP_SHA1''
      else if opcode = OP_SHA256 then ''OP_SHA256''
      else if opcode = OP_HASH160 then ''OP_HASH160''
      else if opcode = OP_HASH256 then ''OP_HASH256''
      else if opcode = OP_CODESEPARATOR then ''OP_CODESEPARATOR''
      else if opcode = OP_CHECKSIG then ''OP_CHECKSIG''
      else if opcode = OP_CHECKSIGVERIFY then ''OP_CHECKSIGVERIFY''
      else if opcode = OP_CHECKMULTISIG then ''OP_CHECKMULTISIG''
      else if opcode = OP_CHECKMULTISIGVERIFY then ''OP_CHECKMULTISIGVERIFY''
      else if opcode = OP_NOP1 then ''OP_NOP1''
      else if opcode = OP_NOP2 then ''OP_NOP2''
      else if opcode = OP_NOP3 then ''OP_NOP3''
      else if opcode = OP_NOP4 then ''OP_NOP4''
      else if opcode = OP_NOP5 then ''OP_NOP5''
      else if opcode = OP_NOP6 then ''OP_NOP6''
      else if opcode = OP_NOP7 then ''OP_NOP7''
      else if opcode = OP_NOP8 then ''OP_NOP8''
      else if opcode = OP_NOP9 then ''OP_NOP9''
      else if opcode = OP_NOP10 then ''OP_NOP10''
      else if opcode = OP_PUBKEYHASH then ''OP_PUBKEYHASH''
      else if opcode = OP_PUBKEY then ''OP_PUBKEY''
      else if opcode = OP_INVALIDOPCODE then ''OP_INVALIDOPCODE''
      else ''OP_UNKNOWN'')"

section \<open>Reading instructions\<close>

text \<open>
  The size of the immediate operand of an opcode up to \<^verbatim>\<open>OP_PUSHDATA4\<close>, and the bytes after the
  size; \<open>None\<close> when the script ends inside it.
\<close>

definition push_size :: "nat \<Rightarrow> bytes \<Rightarrow> (nat \<times> bytes) option" where
  "push_size opcode pc =
     (if opcode < OP_PUSHDATA1 then Some (opcode, pc)
      else if opcode = OP_PUSHDATA1 then
        (if length pc < 1 then None else Some (le_val (take 1 pc), drop 1 pc))
      else if opcode = OP_PUSHDATA2 then
        (if length pc < 2 then None else Some (le_val (take 2 pc), drop 2 pc))
      else
        (if length pc < 4 then None else Some (le_val (take 4 pc), drop 4 pc)))"

text \<open>\<^verbatim>\<open>GetOp2\<close>: the opcode, the pushed bytes and the next position.\<close>

definition GetOp2 :: "bytes \<Rightarrow> (nat \<times> bytes \<times> bytes) option" where
  "GetOp2 pc =
     (case pc of
        [] \<Rightarrow> None
      | b # pc \<Rightarrow>
          let opcode = unat b in
          if opcode \<le> OP_PUSHDATA4 then
            (case push_size opcode pc of
               None \<Rightarrow> None
             | Some (nSize, pc) \<Rightarrow>
                 if length pc < nSize then None
                 else Some (opcode, take nSize pc, drop nSize pc))
          else Some (opcode, [], pc))"

lemma push_size_length: "push_size opcode pc = Some (n, pc') \<Longrightarrow> length pc' \<le> length pc"
  by (auto simp: push_size_def split: if_splits)

lemma GetOp2_shorter: "GetOp2 pc = Some (opcode, vch, pc') \<Longrightarrow> length pc' < length pc"
proof (cases pc)
  case (Cons b r)
  then show "GetOp2 pc = Some (opcode, vch, pc') \<Longrightarrow> length pc' < length pc"
    using push_size_length by (fastforce simp: GetOp2_def Let_def split: if_splits option.splits)
qed (simp add: GetOp2_def)

section \<open>Building scripts\<close>

definition push_opcode :: "nat \<Rightarrow> CScript \<Rightarrow> CScript" where
  "push_opcode opcode s = s @ [of_nat opcode]"

definition push_uint160 :: "uint160 \<Rightarrow> CScript \<Rightarrow> CScript" where
  "push_uint160 b s = s @ [20] @ image160 b"

definition push_uint256 :: "uint256 \<Rightarrow> CScript \<Rightarrow> CScript" where
  "push_uint256 b s = s @ [32] @ image256 b"

text \<open>\<^verbatim>\<open>operator<<\<close> of a byte vector.\<close>

definition push_vch :: "bytes \<Rightarrow> CScript \<Rightarrow> CScript" where
  "push_vch b s =
     s @ (if length b < OP_PUSHDATA1 then [of_nat (length b)]
          else if length b \<le> 0xff then [of_nat OP_PUSHDATA1, of_nat (length b)]
          else if length b \<le> 0xffff then of_nat OP_PUSHDATA2 # le_bytes 2 (length b)
          else of_nat OP_PUSHDATA4 # le_bytes 4 (length b)) @ b"

definition push_int64 :: "'a bignum_lib_scheme \<Rightarrow> int64 \<Rightarrow> CScript \<Rightarrow> CScript" where
  "push_int64 lib n s =
     (if sint n = - 1 \<or> (1 \<le> sint n \<and> sint n \<le> 16) then s @ [ucast n + of_nat (OP_1 - 1)]
      else push_vch (getvch lib (setint64 lib n)) s)"

definition push_uint64 :: "'a bignum_lib_scheme \<Rightarrow> uint64 \<Rightarrow> CScript \<Rightarrow> CScript" where
  "push_uint64 lib n s =
     (if 1 \<le> n \<and> n \<le> 16 then s @ [ucast n + of_nat (OP_1 - 1)]
      else push_vch (getvch lib (setuint64 lib n)) s)"

text \<open>\<^verbatim>\<open>DecodeOP_N\<close> and \<^verbatim>\<open>EncodeOP_N\<close>; \<open>None\<close> is a failed assertion.\<close>

definition DecodeOP_N :: "nat \<Rightarrow> nat option" where
  "DecodeOP_N opcode =
     (if opcode = OP_0 then Some 0
      else if OP_1 \<le> opcode \<and> opcode \<le> OP_16 then Some (opcode - (OP_1 - 1)) else None)"

definition EncodeOP_N :: "nat \<Rightarrow> nat option" where
  "EncodeOP_N n = (if n \<le> 16 then (if n = 0 then Some OP_0 else Some (OP_1 + n - 1)) else None)"

section \<open>Scans\<close>

text \<open>The inner loop of \<^verbatim>\<open>FindAndDelete\<close>: copies of \<open>b\<close> at the position are erased.\<close>

function erase_copies :: "bytes \<Rightarrow> bytes \<Rightarrow> nat \<times> bytes" where
  "erase_copies b pc =
     (if b \<noteq> [] \<and> length b \<le> length pc \<and> take (length b) pc = b then
        (let (n, r) = erase_copies b (drop (length b) pc) in (Suc n, r))
      else (0, pc))"
  by pat_completeness auto
termination
  by (relation "measure (\<lambda>(b, pc). length pc)") (auto intro!: diff_less dest: order_trans [rotated])

declare erase_copies.simps [simp del]

lemma erase_copies_length: "length (snd (erase_copies b pc)) \<le> length pc"
proof (induction b pc rule: erase_copies.induct)
  case (1 b pc)
  then show ?case by (subst erase_copies.simps) (auto split: prod.splits)
qed

text \<open>The outer loop, from a position: the number of copies found and the bytes that remain.\<close>

function find_delete_loop :: "bytes \<Rightarrow> bytes \<Rightarrow> nat \<times> bytes" where
  "find_delete_loop b pc =
     (case erase_copies b pc of
        (n, pc1) \<Rightarrow>
          (case GetOp2 pc1 of
             None \<Rightarrow> (n, pc1)
           | Some (opcode, vch, pc2) \<Rightarrow>
               (case find_delete_loop b pc2 of
                  (m, r) \<Rightarrow> (n + m, take (length pc1 - length pc2) pc1 @ r))))"
  by pat_completeness auto
termination
proof (relation "measure (\<lambda>(b, pc). length pc)")
  fix b pc n pc1 p opcode q vch pc2
  assume "(n, pc1) = erase_copies b pc" and "GetOp2 pc1 = Some p" and "(opcode, q) = p" and "(vch, pc2) = q"
  then show "((b, pc2), (b, pc)) \<in> measure (\<lambda>(b, pc). length pc)"
    using erase_copies_length [of b pc] GetOp2_shorter [of pc1 opcode vch pc2] by (metis (no_types, lifting)
        case_prod_conv in_measure order_less_le_trans snd_conv)
qed simp

declare find_delete_loop.simps [simp del]

definition FindAndDelete :: "CScript \<Rightarrow> CScript \<Rightarrow> nat \<times> CScript" where
  "FindAndDelete b s = (if b = [] then (0, s) else find_delete_loop b s)"

function Find :: "nat \<Rightarrow> bytes \<Rightarrow> nat" where
  "Find op pc =
     (case GetOp2 pc of
        None \<Rightarrow> 0
      | Some (opcode, vch, pc') \<Rightarrow> (if opcode = op then 1 else 0) + Find op pc')"
  by pat_completeness auto
termination
  by (relation "measure (\<lambda>(op, pc). length pc)") (auto dest: GetOp2_shorter)

declare Find.simps [simp del]

function IsPushOnly :: "bytes \<Rightarrow> bool" where
  "IsPushOnly pc =
     (if pc = [] then True
      else case GetOp2 pc of
        None \<Rightarrow> False
      | Some (opcode, vch, pc') \<Rightarrow> if opcode > OP_16 then False else IsPushOnly pc')"
  by pat_completeness auto
termination
  by (relation "measure length") (auto dest: GetOp2_shorter)

declare IsPushOnly.simps [simp del]

text \<open>\<^verbatim>\<open>GetSigOpCount(bool)\<close>, from a position; the counter is 32 bits wide.\<close>

function sigop_loop :: "bool \<Rightarrow> nat \<Rightarrow> uint32 \<Rightarrow> bytes \<Rightarrow> uint32" where
  "sigop_loop fAccurate lastOpcode n pc =
     (if pc = [] then n
      else case GetOp2 pc of
        None \<Rightarrow> n
      | Some (opcode, vch, pc') \<Rightarrow>
          let n' = (if opcode = OP_CHECKSIG \<or> opcode = OP_CHECKSIGVERIFY then n + 1
                    else if opcode = OP_CHECKMULTISIG \<or> opcode = OP_CHECKMULTISIGVERIFY then
                      (if fAccurate \<and> OP_1 \<le> lastOpcode \<and> lastOpcode \<le> OP_16
                       then n + of_nat (lastOpcode - (OP_1 - 1)) else n + 20)
                    else n)
          in sigop_loop fAccurate opcode n' pc')"
  by pat_completeness auto
termination
  by (relation "measure (\<lambda>(a, l, n, pc). length pc)") (auto dest: GetOp2_shorter)

declare sigop_loop.simps [simp del]

definition GetSigOpCount :: "bool \<Rightarrow> CScript \<Rightarrow> uint32" where
  "GetSigOpCount fAccurate s = sigop_loop fAccurate OP_INVALIDOPCODE 0 s"

definition IsPayToScriptHash :: "CScript \<Rightarrow> bool" where
  "IsPayToScriptHash s =
     (length s = 23 \<and> s ! 0 = of_nat OP_HASH160 \<and> s ! 1 = 0x14 \<and> s ! 22 = of_nat OP_EQUAL)"

text \<open>The last item a script of pushes leaves, \<open>None\<close> where the scan answers 0.\<close>

function last_push :: "bytes \<Rightarrow> bytes \<Rightarrow> bytes option" where
  "last_push data pc =
     (if pc = [] then Some data
      else case GetOp2 pc of
        None \<Rightarrow> None
      | Some (opcode, vch, pc') \<Rightarrow> if opcode > OP_16 then None else last_push vch pc')"
  by pat_completeness auto
termination
  by (relation "measure (\<lambda>(d, pc). length pc)") (auto dest: GetOp2_shorter)

declare last_push.simps [simp del]

definition GetSigOpCount_sig :: "CScript \<Rightarrow> CScript \<Rightarrow> uint32" where
  "GetSigOpCount_sig spk sig =
     (if \<not> IsPayToScriptHash spk then GetSigOpCount True spk
      else case last_push [] sig of
        None \<Rightarrow> 0
      | Some data \<Rightarrow> GetSigOpCount True data)"

text \<open>\<^verbatim>\<open>SetBitcoinAddress\<close>, \<^verbatim>\<open>SetMultisig\<close> and \<^verbatim>\<open>SetPayToScriptHash\<close>; \<open>None\<close> is a failed assertion.\<close>

definition SetBitcoinAddress :: "bool \<Rightarrow> CBitcoinAddress \<Rightarrow> CScript option" where
  "SetBitcoinAddress fTestNet address =
     (case GetHash160 address of
        None \<Rightarrow> None
      | Some h \<Rightarrow>
          if IsScript fTestNet address
          then Some (push_opcode OP_EQUAL (push_uint160 h (push_opcode OP_HASH160 [])))
          else Some (push_opcode OP_CHECKSIG (push_opcode OP_EQUALVERIFY
                 (push_uint160 h (push_opcode OP_HASH160 (push_opcode OP_DUP []))))))"

definition SetMultisig :: "nat \<Rightarrow> bytes list \<Rightarrow> CScript option" where
  "SetMultisig nRequired keys = do {
     m \<leftarrow> EncodeOP_N nRequired;
     n \<leftarrow> EncodeOP_N (length keys);
     Some (push_opcode OP_CHECKMULTISIG (push_opcode n
       (foldl (\<lambda>s key. push_vch key s) (push_opcode m []) keys))) }"

definition SetPayToScriptHash :: "'a openssl_scheme \<Rightarrow> CScript \<Rightarrow> CScript option" where
  "SetPayToScriptHash lib subscript =
     (if subscript = [] then None
      else Some (push_opcode OP_EQUAL (push_uint160 (Hash160 lib subscript) (push_opcode OP_HASH160 []))))"

section \<open>Reading back what was pushed\<close>

lemma push_vch_append: "push_vch b s = s @ push_vch b []"
  by (simp add: push_vch_def)

lemma push_size_append: "push_size opcode pc = Some (n, r) \<Longrightarrow> push_size opcode (pc @ t) = Some (n, r @ t)"
  by (cases pc; cases "tl pc") (auto simp: push_size_def split: if_splits)

lemma GetOp2_append: "GetOp2 pc = Some (opcode, vch, r) \<Longrightarrow> GetOp2 (pc @ t) = Some (opcode, vch, r @ t)"
proof (cases pc)
  case (Cons b pc')
  assume g: "GetOp2 pc = Some (opcode, vch, r)"
  show ?thesis
  proof (cases "unat b \<le> OP_PUSHDATA4")
    case False
    then show ?thesis using g Cons by (simp add: GetOp2_def Let_def)
  next
    case True
    then obtain n p where p: "push_size (unat b) pc' = Some (n, p)"
      using g Cons by (auto simp: GetOp2_def Let_def split: option.splits)
    then show ?thesis using g Cons True push_size_append [OF p, of t]
      by (auto simp: GetOp2_def Let_def split: if_splits)
  qed
qed (simp add: GetOp2_def)

definition push_op :: "bytes \<Rightarrow> nat" where
  "push_op b =
     (if length b < OP_PUSHDATA1 then length b else if length b \<le> 0xff then OP_PUSHDATA1
      else if length b \<le> 0xffff then OP_PUSHDATA2 else OP_PUSHDATA4)"

lemma push_op_le: "push_op b \<le> OP_PUSHDATA4"
  by (simp add: push_op_def)

lemma unat_of_nat_small: "n < 256 \<Longrightarrow> unat (of_nat n :: byte) = n"
  by (simp add: unat_of_nat)

lemma GetOp2_push_vch:
  assumes "length b < 2 ^ 32"
  shows "GetOp2 (push_vch b [] @ rest) = Some (push_op b, b, rest)"
proof -
  consider "length b < OP_PUSHDATA1" | "OP_PUSHDATA1 \<le> length b" "length b \<le> 0xff"
    | "0xff < length b" "length b \<le> 0xffff" | "0xffff < length b"
    by linarith
  then show ?thesis
  proof cases
    case 1
    then show ?thesis
      by (simp add: push_vch_def push_op_def GetOp2_def push_size_def Let_def unat_of_nat_small)
  next
    case 2
    then show ?thesis
      by (simp add: push_vch_def push_op_def GetOp2_def push_size_def Let_def unat_of_nat_small)
  next
    case 3
    then have "le_val (le_bytes 2 (length b)) = length b" by (simp add: le_val_le_bytes)
    then show ?thesis using 3
      by (simp add: push_vch_def push_op_def GetOp2_def push_size_def Let_def unat_of_nat_small)
  next
    case 4
    have "le_val (le_bytes 4 (length b)) = length b" using assms by (simp add: le_val_le_bytes)
    then show ?thesis using 4
      by (simp add: push_vch_def push_op_def GetOp2_def push_size_def Let_def unat_of_nat_small)
  qed
qed

lemma GetOp2_opcode:
  "OP_PUSHDATA4 < op \<Longrightarrow> op < 256 \<Longrightarrow> GetOp2 (of_nat op # pc) = Some (op, [], pc)"
  by (simp add: GetOp2_def Let_def unat_of_nat_small)

lemma GetOp2_uint160: "GetOp2 (0x14 # image160 h @ pc) = Some (20, image160 h, pc)"
  by (simp add: GetOp2_def Let_def push_size_def)

text \<open>
  Every byte string pushed onto a script is read back by the instruction reader, whichever of
  the four length forms the push chose and whatever follows; the reader always advances, so every
  scan over a script ends; and extending a script does not change the instructions already in it.
\<close>

theorem push_GetOp_round_trip:
  assumes "length b < 2 ^ 32"
  shows "(\<exists>opcode. opcode \<le> OP_PUSHDATA4 \<and> GetOp2 (push_vch b [] @ rest) = Some (opcode, b, rest)) \<and>
    (GetOp2 pc = Some (opcode', vch, pc') \<longrightarrow>
       length pc' < length pc \<and> GetOp2 (pc @ t) = Some (opcode', vch, pc' @ t))"
  using GetOp2_push_vch [OF assms, of rest] push_op_le [of b] GetOp2_shorter GetOp2_append by blast

theorem push_GetOp_round_trip_witness:
  "GetOp2 (push_vch (replicate 300 7) [] @ [0xac]) = Some (OP_PUSHDATA2, replicate 300 7, [0xac])"
  using push_GetOp_round_trip [of "replicate 300 7" "[0xac]"]
    GetOp2_push_vch [of "replicate 300 7" "[0xac]"] by (simp add: push_op_def)

end
