(* ===== verification/SigCheck.thy ===== *)
theory SigCheck
  imports Script "HOL-Library.Product_Lexorder" "HOL-Library.List_Lexorder"
begin

text \<open>
  Signature checking, \<^verbatim>\<open>src/src/script.cpp\<close>: the hash a signature commits to
  (\<^verbatim>\<open>SignatureHash\<close>), the bounded cache of signatures already verified
  (\<^verbatim>\<open>CSignatureCache\<close>) and \<^verbatim>\<open>CheckSig\<close>, which consults and fills it.
\<close>

section \<open>The hash that is signed\<close>

definition SIGHASH_ALL :: int32 where "SIGHASH_ALL = 1"
definition SIGHASH_NONE :: int32 where "SIGHASH_NONE = 2"
definition SIGHASH_SINGLE :: int32 where "SIGHASH_SINGLE = 3"
definition SIGHASH_ANYONECANPAY :: int32 where "SIGHASH_ANYONECANPAY = 0x80"

lemmas sighash_types = SIGHASH_ALL_def SIGHASH_NONE_def SIGHASH_SINGLE_def SIGHASH_ANYONECANPAY_def

text \<open>\<^verbatim>\<open>for (i ...) if (i != nIn) txTmp.vin[i].nSequence = 0\<close>\<close>

definition free_sequences :: "nat \<Rightarrow> CTxIn list \<Rightarrow> CTxIn list" where
  "free_sequences nIn ins =
     map (\<lambda>(i, txin). if i \<noteq> nIn then txin\<lparr> nSequence := 0 \<rparr> else txin) (zip [0..<length ins] ins)"

text \<open>The copy of the transaction that is hashed; \<open>None\<close> where the code returns the hash 1.\<close>

definition sighash_tx :: "CScript \<Rightarrow> CTransaction \<Rightarrow> nat \<Rightarrow> int32 \<Rightarrow> CTransaction option" where
  "sighash_tx scriptCode txTo nIn nHashType =
     (if nIn \<ge> length (vin txTo) then None
      else
        let code = snd (FindAndDelete (push_opcode OP_CODESEPARATOR []) scriptCode);
            ins = (map (\<lambda>txin. txin\<lparr> scriptSig := [] \<rparr>) (vin txTo));
            ins = ins[nIn := (ins ! nIn)\<lparr> scriptSig := code \<rparr>];
            txTmp = txTo\<lparr> vin := ins \<rparr>;
            blanked =
              (if nHashType AND 0x1f = SIGHASH_NONE then
                 Some (txTmp\<lparr> vout := [], vin := free_sequences nIn (vin txTmp) \<rparr>)
               else if nHashType AND 0x1f = SIGHASH_SINGLE then
                 (if nIn \<ge> length (vout txTmp) then None
                  else Some (txTmp\<lparr> vout := replicate nIn CTxOut_SetNull @ [vout txTmp ! nIn],
                                   vin := free_sequences nIn (vin txTmp) \<rparr>))
               else Some txTmp)
        in map_option (\<lambda>t. if nHashType AND SIGHASH_ANYONECANPAY \<noteq> 0 then t\<lparr> vin := [vin t ! nIn] \<rparr> else t) blanked)"

text \<open>\<^verbatim>\<open>SignatureHash\<close>; \<open>None\<close> is the exception of the serialiser.\<close>

definition SignatureHash :: "'a openssl_scheme \<Rightarrow> CScript \<Rightarrow> CTransaction \<Rightarrow> nat \<Rightarrow> int32 \<Rightarrow> uint256 option" where
  "SignatureHash lib scriptCode txTo nIn nHashType =
     (case sighash_tx scriptCode txTo nIn nHashType of
        None \<Rightarrow> Some 1
      | Some txTmp \<Rightarrow>
          (case Serialize_CTransaction txTmp of
             None \<Rightarrow> None
           | Some ss \<Rightarrow> Some (Hash lib (ss @ Serialize_word 4 nHashType))))"

section \<open>The signature cache\<close>

type_synonym sigdata = "uint256 \<times> bytes \<times> bytes"

text \<open>
  The cache with the configured bound and the stream of hashes \<^verbatim>\<open>GetRandHash\<close> will return.
\<close>

record sig_cache =
  setValid :: "sigdata set"
  nMaxCacheSize :: int
  randHashes :: "nat \<Rightarrow> uint256"
  nDrawn :: nat

definition Cache_Get :: "sig_cache \<Rightarrow> sigdata \<Rightarrow> bool" where
  "Cache_Get c k = (k \<in> setValid c)"

text \<open>\<^verbatim>\<open>lower_bound\<close> of the random hash, or the first entry when there is none.\<close>

definition evict_victim :: "uint256 \<Rightarrow> sigdata set \<Rightarrow> sigdata" where
  "evict_victim randomHash S =
     (let later = Set.filter (\<lambda>k. (randomHash, [], []) \<le> k) S
      in if later = {} then Min S else Min later)"

lemma evict_victim_in: "finite S \<Longrightarrow> S \<noteq> {} \<Longrightarrow> evict_victim h S \<in> S"
  using Min_in [of S] Min_in [of "Set.filter (\<lambda>k. (h, [], []) \<le> k) S"]
  by (auto simp: evict_victim_def Let_def)

function evict_loop :: "int \<Rightarrow> (nat \<Rightarrow> uint256) \<Rightarrow> nat \<Rightarrow> sigdata set \<Rightarrow> nat \<times> sigdata set" where
  "evict_loop nMax rnd i S =
     (if finite S \<and> S \<noteq> {} \<and> int (card S) > nMax
      then evict_loop nMax rnd (Suc i) (S - {evict_victim (rnd i) S}) else (i, S))"
  by pat_completeness auto
termination
  by (relation "measure (\<lambda>(nMax, rnd, i, S). card S)") (auto simp: evict_victim_in card_gt_0_iff card_Diff_singleton)

declare evict_loop.simps [simp del]

definition Cache_Set :: "sig_cache \<Rightarrow> sigdata \<Rightarrow> sig_cache" where
  "Cache_Set c k =
     (if nMaxCacheSize c \<le> 0 then c
      else let (i, S) = evict_loop (nMaxCacheSize c) (randHashes c) (nDrawn c) (setValid c)
           in c\<lparr> setValid := insert k S, nDrawn := i \<rparr>)"

section \<open>Checking a signature\<close>

text \<open>What a script is evaluated for: the spending transaction, the input, the hash type asked for.\<close>

record sig_env =
  env_tx :: CTransaction
  env_nIn :: nat
  env_nHashType :: int32

text \<open>\<^verbatim>\<open>CheckSig\<close>; \<open>None\<close> is an exception of \<^verbatim>\<open>SignatureHash\<close>.\<close>

definition CheckSig ::
  "'a openssl_scheme \<Rightarrow> sig_env \<Rightarrow> sig_cache \<Rightarrow> bytes \<Rightarrow> bytes \<Rightarrow> CScript \<Rightarrow> bool option \<times> sig_cache" where
  "CheckSig lib env c vchSig vchPubKey scriptCode =
     (if vchSig = [] then (Some False, c)
      else if env_nHashType env \<noteq> 0 \<and> env_nHashType env \<noteq> ucast (last vchSig) then (Some False, c)
      else
        let nHashType = ucast (last vchSig) :: int32; sig = butlast vchSig in
        case SignatureHash lib scriptCode (env_tx env) (env_nIn env) nHashType of
          None \<Rightarrow> (None, c)
        | Some sighash \<Rightarrow>
            if Cache_Get c (sighash, sig, vchPubKey) then (Some True, c)
            else case CKey_SetPubKey lib vchPubKey of
              None \<Rightarrow> (Some False, c)
            | Some key \<Rightarrow>
                if \<not> CKey_Verify lib key sighash sig then (Some False, c)
                else (Some True, Cache_Set c (sighash, sig, vchPubKey)))"

text \<open>The check without a cache.\<close>

definition CheckSig_spec :: "'a openssl_scheme \<Rightarrow> sig_env \<Rightarrow> bytes \<Rightarrow> bytes \<Rightarrow> CScript \<Rightarrow> bool option" where
  "CheckSig_spec lib env vchSig vchPubKey scriptCode =
     (if vchSig = [] \<or> (env_nHashType env \<noteq> 0 \<and> env_nHashType env \<noteq> ucast (last vchSig)) then Some False
      else map_option (\<lambda>h. o2i_ECPublicKey lib vchPubKey \<and> ECDSA_verify lib vchPubKey h (butlast vchSig))
             (SignatureHash lib scriptCode (env_tx env) (env_nIn env) (ucast (last vchSig))))"

text \<open>A cache is sound when everything in it verifies.\<close>

definition cache_sound :: "'a openssl_scheme \<Rightarrow> sig_cache \<Rightarrow> bool" where
  "cache_sound lib c =
     (finite (setValid c) \<and>
      (\<forall>(h, sig, key) \<in> setValid c. o2i_ECPublicKey lib key \<and> ECDSA_verify lib key h sig))"

lemma evict_loop_subset: "snd (evict_loop nMax rnd i S) \<subseteq> S"
proof (induction nMax rnd i S rule: evict_loop.induct)
  case (1 nMax rnd i S)
  then show ?case by (subst evict_loop.simps) auto
qed

lemma evict_loop_card: "finite S \<Longrightarrow> 0 \<le> nMax \<Longrightarrow> int (card (snd (evict_loop nMax rnd i S))) \<le> nMax"
proof (induction nMax rnd i S rule: evict_loop.induct)
  case (1 nMax rnd i S)
  then show ?case by (subst evict_loop.simps) auto
qed

lemma evict_loop_finite: "finite S \<Longrightarrow> finite (snd (evict_loop nMax rnd i S))"
  using evict_loop_subset finite_subset by metis

lemma Cache_Set_valid: "setValid (Cache_Set c k) \<subseteq> insert k (setValid c)"
  using evict_loop_subset [of "nMaxCacheSize c" "randHashes c" "nDrawn c" "setValid c"]
  by (auto simp: Cache_Set_def split: prod.splits)

lemma Cache_Set_card:
  assumes "finite (setValid c)"
  shows "finite (setValid (Cache_Set c k)) \<and>
    (int (card (setValid c)) \<le> max 0 (nMaxCacheSize c) + 1 \<longrightarrow>
     int (card (setValid (Cache_Set c k))) \<le> max 0 (nMaxCacheSize c) + 1)"
proof (cases "nMaxCacheSize c \<le> 0")
  case True
  then show ?thesis using assms by (simp add: Cache_Set_def)
next
  case False
  obtain i S where e: "evict_loop (nMaxCacheSize c) (randHashes c) (nDrawn c) (setValid c) = (i, S)"
    by fastforce
  then have "finite S" "int (card S) \<le> nMaxCacheSize c"
    using evict_loop_finite [OF assms, of "nMaxCacheSize c" "randHashes c" "nDrawn c"]
      evict_loop_card [OF assms, of "nMaxCacheSize c" "randHashes c" "nDrawn c"] False by simp_all
  then show ?thesis using e False card_insert_le_m1 [of "Suc (card S)" S k]
    by (auto simp: Cache_Set_def card_insert_if)
qed

lemma cache_sound_Set:
  assumes "cache_sound lib c" and "o2i_ECPublicKey lib key" and "ECDSA_verify lib key h sig"
  shows "cache_sound lib (Cache_Set c (h, sig, key))"
  using assms Cache_Set_valid [of c "(h, sig, key)"] Cache_Set_card [of c "(h, sig, key)"]
  unfolding cache_sound_def by blast

lemma CheckSig_eq:
  assumes "cache_sound lib c"
  shows "fst (CheckSig lib env c sig key code) = CheckSig_spec lib env sig key code"
    and "cache_sound lib (snd (CheckSig lib env c sig key code))"
proof -
  have hit: "o2i_ECPublicKey lib k \<and> ECDSA_verify lib k h s" if "Cache_Get c (h, s, k)" for h s k
    using assms that by (auto simp: cache_sound_def Cache_Get_def)
  show "fst (CheckSig lib env c sig key code) = CheckSig_spec lib env sig key code"
    using hit by (auto simp: CheckSig_def CheckSig_spec_def Let_def CKey_SetPubKey_def CKey_Verify_def
        split: option.splits)
  show "cache_sound lib (snd (CheckSig lib env c sig key code))"
    using assms cache_sound_Set [OF assms]
    by (auto simp: CheckSig_def Let_def CKey_SetPubKey_def CKey_Verify_def split: option.splits)
qed

end
