(* ===== verification/Interp.thy ===== *)
theory Interp
  imports SigCheck
begin

text \<open>
  The script interpreter, \<^verbatim>\<open>EvalScript\<close> of \<^verbatim>\<open>src/src/script.cpp\<close>. The switch is split by
  its own section comments into one definition per group of opcodes; \<open>None\<close> is a \<^verbatim>\<open>return false\<close>
  or an exception, which the function turns into false. Stacks are lists with the top first. The
  loop state also carries the signature cache, which survives a failing evaluation.
\<close>

section \<open>Stack values\<close>

definition vchFalse :: bytes where "vchFalse = []"
definition vchTrue :: bytes where "vchTrue = [1]"
definition nMaxNumSize :: nat where "nMaxNumSize = 4"

definition CastToBigNum :: "'a bignum_lib_scheme \<Rightarrow> bytes \<Rightarrow> int option" where
  "CastToBigNum lib vch =
     (if length vch > nMaxNumSize then None else Some (setvch lib (getvch lib (setvch lib vch))))"

fun CastToBool :: "bytes \<Rightarrow> bool" where
  "CastToBool [] = False"
| "CastToBool (b # bs) = (if b \<noteq> 0 then \<not> (bs = [] \<and> b = 0x80) else CastToBool bs)"

definition MakeSameSize :: "bytes \<Rightarrow> bytes \<Rightarrow> bytes \<times> bytes" where
  "MakeSameSize vch1 vch2 =
     (vch1 @ replicate (length vch2 - length vch1) 0, vch2 @ replicate (length vch1 - length vch2) 0)"

definition bool_vch :: "bool \<Rightarrow> bytes" where
  "bool_vch b = (if b then vchTrue else vchFalse)"

definition bool_int :: "bool \<Rightarrow> int" where
  "bool_int b = (if b then 1 else 0)"

type_synonym vstack = "bytes list"

section \<open>Groups of opcodes\<close>

subsection \<open>Push value\<close>

definition op_push_value :: "'a bignum_lib_scheme \<Rightarrow> nat \<Rightarrow> vstack \<Rightarrow> vstack" where
  "op_push_value lib opcode st = getvch lib (int opcode - int (OP_1 - 1)) # st"

subsection \<open>Control\<close>

text \<open>\<open>vf\<close> is \<^verbatim>\<open>vfExec\<close> with the innermost block first.\<close>

definition op_if :: "nat \<Rightarrow> bool \<Rightarrow> vstack \<times> bool list \<Rightarrow> (vstack \<times> bool list) option" where
  "op_if opcode fExec = (\<lambda>(st, vf).
     if fExec then
       (case st of
          [] \<Rightarrow> None
        | vch # r \<Rightarrow>
            let fValue = CastToBool vch; fValue = (if opcode = OP_NOTIF then \<not> fValue else fValue)
            in Some (r, fValue # vf))
     else Some (st, False # vf))"

definition op_else :: "bool list \<Rightarrow> bool list option" where
  "op_else vf = (case vf of [] \<Rightarrow> None | f # r \<Rightarrow> Some ((\<not> f) # r))"

definition op_endif :: "bool list \<Rightarrow> bool list option" where
  "op_endif vf = (case vf of [] \<Rightarrow> None | f # r \<Rightarrow> Some r)"

definition op_verify :: "vstack \<Rightarrow> vstack option" where
  "op_verify st = (case st of [] \<Rightarrow> None | vch # r \<Rightarrow> if CastToBool vch then Some r else None)"

subsection \<open>Stack ops\<close>

definition op_altstack :: "nat \<Rightarrow> vstack \<times> vstack \<Rightarrow> (vstack \<times> vstack) option" where
  "op_altstack opcode = (\<lambda>(st, alt).
     if opcode = OP_TOALTSTACK then (case st of [] \<Rightarrow> None | v # r \<Rightarrow> Some (r, v # alt))
     else (case alt of [] \<Rightarrow> None | v # r \<Rightarrow> Some (v # st, r)))"

definition op_pick_roll :: "'a bignum_lib_scheme \<Rightarrow> nat \<Rightarrow> vstack \<Rightarrow> vstack option" where
  "op_pick_roll lib opcode st =
     (case st of
        idx # v # r \<Rightarrow>
          (case CastToBigNum lib idx of
             None \<Rightarrow> None
           | Some bn \<Rightarrow>
               let n = getint bn; st = v # r in
               if n < 0 \<or> n \<ge> int (length st) then None
               else let vch = st ! nat n;
                        st = (if opcode = OP_ROLL then take (nat n) st @ drop (Suc (nat n)) st else st)
                    in Some (vch # st))
      | _ \<Rightarrow> None)"

definition op_stack :: "'a bignum_lib_scheme \<Rightarrow> nat \<Rightarrow> vstack \<Rightarrow> vstack option" where
  "op_stack lib opcode st =
     (if opcode = OP_2DROP then (case st of x2 # x1 # r \<Rightarrow> Some r | _ \<Rightarrow> None)
      else if opcode = OP_2DUP then (case st of x2 # x1 # r \<Rightarrow> Some (x2 # x1 # x2 # x1 # r) | _ \<Rightarrow> None)
      else if opcode = OP_3DUP then
        (case st of x3 # x2 # x1 # r \<Rightarrow> Some (x3 # x2 # x1 # x3 # x2 # x1 # r) | _ \<Rightarrow> None)
      else if opcode = OP_2OVER then
        (case st of x4 # x3 # x2 # x1 # r \<Rightarrow> Some (x2 # x1 # x4 # x3 # x2 # x1 # r) | _ \<Rightarrow> None)
      else if opcode = OP_2ROT then
        (case st of x6 # x5 # x4 # x3 # x2 # x1 # r \<Rightarrow> Some (x2 # x1 # x6 # x5 # x4 # x3 # r) | _ \<Rightarrow> None)
      else if opcode = OP_2SWAP then
        (case st of x4 # x3 # x2 # x1 # r \<Rightarrow> Some (x2 # x1 # x4 # x3 # r) | _ \<Rightarrow> None)
      else if opcode = OP_IFDUP then
        (case st of x # r \<Rightarrow> Some (if CastToBool x then x # x # r else x # r) | _ \<Rightarrow> None)
      else if opcode = OP_DEPTH then Some (getvch lib (int (length st)) # st)
      else if opcode = OP_DROP then (case st of x # r \<Rightarrow> Some r | _ \<Rightarrow> None)
      else if opcode = OP_DUP then (case st of x # r \<Rightarrow> Some (x # x # r) | _ \<Rightarrow> None)
      else if opcode = OP_NIP then (case st of x2 # x1 # r \<Rightarrow> Some (x2 # r) | _ \<Rightarrow> None)
      else if opcode = OP_OVER then (case st of x2 # x1 # r \<Rightarrow> Some (x1 # x2 # x1 # r) | _ \<Rightarrow> None)
      else if opcode = OP_PICK \<or> opcode = OP_ROLL then op_pick_roll lib opcode st
      else if opcode = OP_ROT then (case st of x3 # x2 # x1 # r \<Rightarrow> Some (x1 # x3 # x2 # r) | _ \<Rightarrow> None)
      else if opcode = OP_SWAP then (case st of x2 # x1 # r \<Rightarrow> Some (x1 # x2 # r) | _ \<Rightarrow> None)
      else (case st of x2 # x1 # r \<Rightarrow> Some (x2 # x1 # x2 # r) | _ \<Rightarrow> None))"

subsection \<open>Splice ops\<close>

text \<open>32-bit addition of C ints.\<close>

definition int_add32 :: "int \<Rightarrow> int \<Rightarrow> int" where
  "int_add32 a b = sint (of_int (a + b) :: int32)"

definition op_substr :: "'a bignum_lib_scheme \<Rightarrow> vstack \<Rightarrow> vstack option" where
  "op_substr lib st =
     (case st of
        sz # bg # vch # r \<Rightarrow>
          (case (CastToBigNum lib bg, CastToBigNum lib sz) of
             (Some b, Some s) \<Rightarrow>
               let nBegin = getint b; nEnd = int_add32 nBegin (getint s) in
               if nBegin < 0 \<or> nEnd < nBegin then None
               else let nBegin = min nBegin (int (length vch)); nEnd = min nEnd (int (length vch))
                    in Some (drop (nat nBegin) (take (nat nEnd) vch) # r)
           | _ \<Rightarrow> None)
      | _ \<Rightarrow> None)"

definition op_left_right :: "'a bignum_lib_scheme \<Rightarrow> nat \<Rightarrow> vstack \<Rightarrow> vstack option" where
  "op_left_right lib opcode st =
     (case st of
        sz # vch # r \<Rightarrow>
          (case CastToBigNum lib sz of
             None \<Rightarrow> None
           | Some s \<Rightarrow>
               let nSize = getint s in
               if nSize < 0 then None
               else let nSize = nat (min nSize (int (length vch)))
                    in Some ((if opcode = OP_LEFT then take nSize vch else drop (length vch - nSize) vch) # r))
      | _ \<Rightarrow> None)"

definition op_splice :: "'a bignum_lib_scheme \<Rightarrow> nat \<Rightarrow> vstack \<Rightarrow> vstack option" where
  "op_splice lib opcode st =
     (if opcode = OP_CAT then
        (case st of
           vch2 # vch1 # r \<Rightarrow> let v = vch1 @ vch2 in if length v > 520 then None else Some (v # r)
         | _ \<Rightarrow> None)
      else if opcode = OP_SUBSTR then op_substr lib st
      else if opcode = OP_LEFT \<or> opcode = OP_RIGHT then op_left_right lib opcode st
      else (case st of v # r \<Rightarrow> Some (getvch lib (int (length v)) # v # r) | _ \<Rightarrow> None))"

subsection \<open>Bitwise logic\<close>

definition op_bitlogic :: "nat \<Rightarrow> vstack \<Rightarrow> vstack option" where
  "op_bitlogic opcode st =
     (if opcode = OP_INVERT then (case st of v # r \<Rightarrow> Some (map (\<lambda>b. NOT b) v # r) | _ \<Rightarrow> None)
      else if opcode = OP_AND \<or> opcode = OP_OR \<or> opcode = OP_XOR then
        (case st of
           vch2 # vch1 # r \<Rightarrow>
             let (a, b) = MakeSameSize vch1 vch2
             in Some ((if opcode = OP_AND then map2 (\<lambda>x y. x AND y) a b
                       else if opcode = OP_OR then map2 (\<lambda>x y. x OR y) a b
                       else map2 (\<lambda>x y. x XOR y) a b) # r)
         | _ \<Rightarrow> None)
      else
        (case st of
           vch2 # vch1 # r \<Rightarrow>
             let fEqual = (vch1 = vch2) in
             if opcode = OP_EQUALVERIFY then (if fEqual then Some r else None)
             else Some (bool_vch fEqual # r)
         | _ \<Rightarrow> None))"

subsection \<open>Numeric\<close>

definition num1 :: "nat \<Rightarrow> int \<Rightarrow> int" where
  "num1 opcode bn =
     (if opcode = OP_1ADD then bn + 1
      else if opcode = OP_1SUB then bn - 1
      else if opcode = OP_2MUL then bn_shl bn 1
      else if opcode = OP_2DIV then bn_shr bn 1
      else if opcode = OP_NEGATE then - bn
      else if opcode = OP_ABS then (if bn < 0 then - bn else bn)
      else if opcode = OP_NOT then bool_int (bn = 0)
      else bool_int (bn \<noteq> 0))"

definition op_num1 :: "'a bignum_lib_scheme \<Rightarrow> nat \<Rightarrow> vstack \<Rightarrow> vstack option" where
  "op_num1 lib opcode st =
     (case st of
        v # r \<Rightarrow> map_option (\<lambda>bn. getvch lib (num1 opcode bn) # r) (CastToBigNum lib v)
      | _ \<Rightarrow> None)"

text \<open>A division by zero makes \<^verbatim>\<open>BN_div\<close> fail.\<close>

definition num2 :: "nat \<Rightarrow> int \<Rightarrow> int \<Rightarrow> int option" where
  "num2 opcode bn1 bn2 =
     (if opcode = OP_ADD then Some (bn1 + bn2)
      else if opcode = OP_SUB then Some (bn1 - bn2)
      else if opcode = OP_MUL then Some (bn1 * bn2)
      else if opcode = OP_DIV then (if bn2 = 0 then None else Some (bn_div bn1 bn2))
      else if opcode = OP_MOD then (if bn2 = 0 then None else Some (bn_mod bn1 bn2))
      else if opcode = OP_LSHIFT then (if bn2 < 0 \<or> bn2 > 2048 then None else Some (bn_shl bn1 (nat bn2)))
      else if opcode = OP_RSHIFT then (if bn2 < 0 \<or> bn2 > 2048 then None else Some (bn_shr bn1 (nat bn2)))
      else if opcode = OP_BOOLAND then Some (bool_int (bn1 \<noteq> 0 \<and> bn2 \<noteq> 0))
      else if opcode = OP_BOOLOR then Some (bool_int (bn1 \<noteq> 0 \<or> bn2 \<noteq> 0))
      else if opcode = OP_NUMEQUAL \<or> opcode = OP_NUMEQUALVERIFY then Some (bool_int (bn1 = bn2))
      else if opcode = OP_NUMNOTEQUAL then Some (bool_int (bn1 \<noteq> bn2))
      else if opcode = OP_LESSTHAN then Some (bool_int (bn1 < bn2))
      else if opcode = OP_GREATERTHAN then Some (bool_int (bn1 > bn2))
      else if opcode = OP_LESSTHANOREQUAL then Some (bool_int (bn1 \<le> bn2))
      else if opcode = OP_GREATERTHANOREQUAL then Some (bool_int (bn1 \<ge> bn2))
      else if opcode = OP_MIN then Some (if bn1 < bn2 then bn1 else bn2)
      else Some (if bn1 > bn2 then bn1 else bn2))"

definition op_num2 :: "'a bignum_lib_scheme \<Rightarrow> nat \<Rightarrow> vstack \<Rightarrow> vstack option" where
  "op_num2 lib opcode st =
     (case st of
        v2 # v1 # r \<Rightarrow> do {
          bn1 \<leftarrow> CastToBigNum lib v1;
          bn2 \<leftarrow> CastToBigNum lib v2;
          bn \<leftarrow> num2 opcode bn1 bn2;
          (if opcode = OP_NUMEQUALVERIFY
           then (if CastToBool (getvch lib bn) then Some r else None)
           else Some (getvch lib bn # r)) }
      | _ \<Rightarrow> None)"

definition op_within :: "'a bignum_lib_scheme \<Rightarrow> vstack \<Rightarrow> vstack option" where
  "op_within lib st =
     (case st of
        v3 # v2 # v1 # r \<Rightarrow> do {
          bn1 \<leftarrow> CastToBigNum lib v1;
          bn2 \<leftarrow> CastToBigNum lib v2;
          bn3 \<leftarrow> CastToBigNum lib v3;
          Some (bool_vch (bn2 \<le> bn1 \<and> bn1 < bn3) # r) }
      | _ \<Rightarrow> None)"

subsection \<open>Crypto\<close>

definition op_digest :: "'a openssl_scheme \<Rightarrow> nat \<Rightarrow> vstack \<Rightarrow> vstack option" where
  "op_digest lib opcode st =
     (case st of
        vch # r \<Rightarrow>
          Some ((if opcode = OP_RIPEMD160 then image160 (RIPEMD160 lib vch)
                 else if opcode = OP_SHA1 then image160 (SHA1 lib vch)
                 else if opcode = OP_SHA256 then image256 (SHA256 lib vch)
                 else if opcode = OP_HASH160 then image160 (Hash160 lib vch)
                 else image256 (Hash lib vch)) # r)
      | _ \<Rightarrow> None)"

text \<open>
  \<^verbatim>\<open>OP_CHECKSIG\<close>: the code hashed is the script from the last separator without the signature.
  \<open>Inl\<close> is a failing evaluation.
\<close>

definition op_checksig ::
  "'a openssl_scheme \<Rightarrow> sig_env \<Rightarrow> nat \<Rightarrow> bytes \<Rightarrow> sig_cache \<Rightarrow> vstack \<Rightarrow> sig_cache + (vstack \<times> sig_cache)" where
  "op_checksig lib env opcode codehash c st =
     (case st of
        vchPubKey # vchSig # r \<Rightarrow>
          let scriptCode = snd (FindAndDelete (push_vch vchSig []) codehash) in
          (case CheckSig lib env c vchSig vchPubKey scriptCode of
             (None, c') \<Rightarrow> Inl c'
           | (Some fSuccess, c') \<Rightarrow>
               if opcode = OP_CHECKSIGVERIFY then (if fSuccess then Inr (r, c') else Inl c')
               else Inr (bool_vch fSuccess # r, c'))
      | _ \<Rightarrow> Inl c)"

text \<open>
  The matching loop of \<^verbatim>\<open>OP_CHECKMULTISIG\<close>: the signatures and keys left, the next ones first.
  It ends because every iteration uses up a key.
\<close>

fun multisig_loop ::
  "'a openssl_scheme \<Rightarrow> sig_env \<Rightarrow> CScript \<Rightarrow> sig_cache \<Rightarrow> bytes list \<Rightarrow> bytes list \<Rightarrow> bool option \<times> sig_cache" where
  "multisig_loop lib env scriptCode c [] keys = (Some True, c)"
| "multisig_loop lib env scriptCode c (sig # sigs) [] = (None, c)"
| "multisig_loop lib env scriptCode c (sig # sigs) (key # keys) =
     (case CheckSig lib env c sig key scriptCode of
        (None, c') \<Rightarrow> (None, c')
      | (Some ok, c') \<Rightarrow>
          let sigs' = (if ok then sigs else sig # sigs) in
          if length sigs' > length keys then (Some False, c')
          else multisig_loop lib env scriptCode c' sigs' keys)"

text \<open>
  \<^verbatim>\<open>OP_CHECKMULTISIG\<close>. The stack holds, from the top, the number of keys, the keys, the number of
  signatures, the signatures, and one more element that the loop \<^verbatim>\<open>while (i-- > 0)\<close> pops. The
  operation count is checked before the signatures are.
\<close>

definition op_checkmultisig ::
  "'a openssl_scheme \<Rightarrow> sig_env \<Rightarrow> nat \<Rightarrow> bytes \<Rightarrow> nat \<Rightarrow> sig_cache \<Rightarrow> vstack \<Rightarrow>
     sig_cache + (vstack \<times> nat \<times> sig_cache)" where
  "op_checkmultisig lib env opcode codehash nOps c st =
     (if length st < 1 then Inl c
      else case CastToBigNum lib (st ! 0) of
        None \<Rightarrow> Inl c
      | Some bnKeys \<Rightarrow>
          if getint bnKeys < 0 \<or> getint bnKeys > 20 then Inl c
          else
            let nKeysCount = nat (getint bnKeys); nOps = nOps + nKeysCount in
            if nOps > 201 then Inl c
            else if length st < 2 + nKeysCount then Inl c
            else case CastToBigNum lib (st ! (1 + nKeysCount)) of
              None \<Rightarrow> Inl c
            | Some bnSigs \<Rightarrow>
                if getint bnSigs < 0 \<or> getint bnSigs > int nKeysCount then Inl c
                else
                  let nSigsCount = nat (getint bnSigs) in
                  if length st < 3 + nKeysCount + nSigsCount then Inl c
                  else
                    let keys = take nKeysCount (drop 1 st);
                        sigs = take nSigsCount (drop (2 + nKeysCount) st);
                        scriptCode = foldl (\<lambda>code sig. snd (FindAndDelete (push_vch sig []) code)) codehash sigs
                    in case multisig_loop lib env scriptCode c sigs keys of
                         (None, c') \<Rightarrow> Inl c'
                       | (Some fSuccess, c') \<Rightarrow>
                           let st' = drop (3 + nKeysCount + nSigsCount) st in
                           if opcode = OP_CHECKMULTISIGVERIFY
                           then (if fSuccess then Inr (st', nOps, c') else Inl c')
                           else Inr (bool_vch fSuccess # st', nOps, c'))"

section \<open>The loop\<close>

record eval_state =
  stack :: vstack
  altstack :: vstack
  vfExec :: "bool list"
  nOpCount :: nat
  pbegincodehash :: bytes
  cache :: sig_cache

text \<open>One case of the switch; \<open>pc\<close> is the position after the instruction.\<close>

definition lift_stack :: "eval_state \<Rightarrow> vstack option \<Rightarrow> sig_cache + eval_state" where
  "lift_stack s r = (case r of None \<Rightarrow> Inl (cache s) | Some st \<Rightarrow> Inr (s\<lparr> stack := st \<rparr>))"

definition exec_control :: "nat \<Rightarrow> bool \<Rightarrow> eval_state \<Rightarrow> sig_cache + eval_state" where
  "exec_control opcode fExec s =
     (if opcode = OP_NOP then Inr s
      else if opcode = OP_IF \<or> opcode = OP_NOTIF then
        (case op_if opcode fExec (stack s, vfExec s) of
           None \<Rightarrow> Inl (cache s)
         | Some (st, vf) \<Rightarrow> Inr (s\<lparr> stack := st, vfExec := vf \<rparr>))
      else if opcode = OP_ELSE then
        (case op_else (vfExec s) of None \<Rightarrow> Inl (cache s) | Some vf \<Rightarrow> Inr (s\<lparr> vfExec := vf \<rparr>))
      else if opcode = OP_ENDIF then
        (case op_endif (vfExec s) of None \<Rightarrow> Inl (cache s) | Some vf \<Rightarrow> Inr (s\<lparr> vfExec := vf \<rparr>))
      else if opcode = OP_VERIFY then lift_stack s (op_verify (stack s))
      else Inl (cache s))"

definition exec_op :: "'a openssl_scheme \<Rightarrow> sig_env \<Rightarrow> nat \<Rightarrow> bool \<Rightarrow> bytes \<Rightarrow> eval_state \<Rightarrow> sig_cache + eval_state" where
  "exec_op lib env opcode fExec pc s =
     (if opcode = OP_1NEGATE \<or> (OP_1 \<le> opcode \<and> opcode \<le> OP_16) then
        Inr (s\<lparr> stack := op_push_value lib opcode (stack s) \<rparr>)
      else if OP_NOP \<le> opcode \<and> opcode \<le> OP_RETURN then exec_control opcode fExec s
      else if OP_NOP1 \<le> opcode \<and> opcode \<le> OP_NOP10 then Inr s
      else if opcode = OP_TOALTSTACK \<or> opcode = OP_FROMALTSTACK then
        (case op_altstack opcode (stack s, altstack s) of
           None \<Rightarrow> Inl (cache s)
         | Some (st, alt) \<Rightarrow> Inr (s\<lparr> stack := st, altstack := alt \<rparr>))
      else if OP_2DROP \<le> opcode \<and> opcode \<le> OP_TUCK then lift_stack s (op_stack lib opcode (stack s))
      else if OP_CAT \<le> opcode \<and> opcode \<le> OP_SIZE then lift_stack s (op_splice lib opcode (stack s))
      else if OP_INVERT \<le> opcode \<and> opcode \<le> OP_EQUALVERIFY then lift_stack s (op_bitlogic opcode (stack s))
      else if OP_1ADD \<le> opcode \<and> opcode \<le> OP_0NOTEQUAL then lift_stack s (op_num1 lib opcode (stack s))
      else if OP_ADD \<le> opcode \<and> opcode \<le> OP_MAX then lift_stack s (op_num2 lib opcode (stack s))
      else if opcode = OP_WITHIN then lift_stack s (op_within lib (stack s))
      else if OP_RIPEMD160 \<le> opcode \<and> opcode \<le> OP_HASH256 then lift_stack s (op_digest lib opcode (stack s))
      else if opcode = OP_CODESEPARATOR then Inr (s\<lparr> pbegincodehash := pc \<rparr>)
      else if opcode = OP_CHECKSIG \<or> opcode = OP_CHECKSIGVERIFY then
        (case op_checksig lib env opcode (pbegincodehash s) (cache s) (stack s) of
           Inl c \<Rightarrow> Inl c
         | Inr (st, c) \<Rightarrow> Inr (s\<lparr> stack := st, cache := c \<rparr>))
      else if opcode = OP_CHECKMULTISIG \<or> opcode = OP_CHECKMULTISIGVERIFY then
        (case op_checkmultisig lib env opcode (pbegincodehash s) (nOpCount s) (cache s) (stack s) of
           Inl c \<Rightarrow> Inl c
         | Inr (st, n, c) \<Rightarrow> Inr (s\<lparr> stack := st, nOpCount := n, cache := c \<rparr>))
      else Inl (cache s))"

definition disabled :: "nat \<Rightarrow> bool" where
  "disabled opcode =
     (opcode = OP_CAT \<or> opcode = OP_SUBSTR \<or> opcode = OP_LEFT \<or> opcode = OP_RIGHT \<or>
      opcode = OP_INVERT \<or> opcode = OP_AND \<or> opcode = OP_OR \<or> opcode = OP_XOR \<or>
      opcode = OP_2MUL \<or> opcode = OP_2DIV \<or> opcode = OP_MUL \<or> opcode = OP_DIV \<or>
      opcode = OP_MOD \<or> opcode = OP_LSHIFT \<or> opcode = OP_RSHIFT)"

text \<open>The body of the loop for an instruction that was read.\<close>

definition eval_step :: "'a openssl_scheme \<Rightarrow> sig_env \<Rightarrow> nat \<Rightarrow> bytes \<Rightarrow> bytes \<Rightarrow> eval_state \<Rightarrow> sig_cache + eval_state" where
  "eval_step lib env opcode vchPushValue pc s =
     (let fExec = (\<not> (False \<in> set (vfExec s))) in
      if length vchPushValue > 520 then Inl (cache s)
      else
        let s = (if opcode > OP_16 then s\<lparr> nOpCount := Suc (nOpCount s) \<rparr> else s) in
        if opcode > OP_16 \<and> nOpCount s > 201 then Inl (cache s)
        else if disabled opcode then Inl (cache s)
        else
          case (if fExec \<and> opcode \<le> OP_PUSHDATA4 then Inr (s\<lparr> stack := vchPushValue # stack s \<rparr>)
                else if fExec \<or> (OP_IF \<le> opcode \<and> opcode \<le> OP_ENDIF) then exec_op lib env opcode fExec pc s
                else Inr s) of
            Inl c \<Rightarrow> Inl c
          | Inr s' \<Rightarrow> if length (stack s') + length (altstack s') > 1000 then Inl (cache s') else Inr s')"

function eval_loop :: "'a openssl_scheme \<Rightarrow> sig_env \<Rightarrow> bytes \<Rightarrow> eval_state \<Rightarrow> sig_cache + eval_state" where
  "eval_loop lib env pc s =
     (if pc = [] then Inr s
      else case GetOp2 pc of
        None \<Rightarrow> Inl (cache s)
      | Some (opcode, vchPushValue, pc') \<Rightarrow>
          (case eval_step lib env opcode vchPushValue pc' s of
             Inl c \<Rightarrow> Inl c
           | Inr s' \<Rightarrow> eval_loop lib env pc' s'))"
  by pat_completeness auto
termination
  by (relation "measure (\<lambda>(lib, env, pc, s). length pc)") (auto dest: GetOp2_shorter)

declare eval_loop.simps [simp del]

text \<open>\<^verbatim>\<open>EvalScript\<close>: the final stack, \<open>None\<close> for false, and the cache.\<close>

definition EvalScript :: "'a openssl_scheme \<Rightarrow> sig_env \<Rightarrow> vstack \<Rightarrow> CScript \<Rightarrow> sig_cache \<Rightarrow> vstack option \<times> sig_cache" where
  "EvalScript lib env st script c =
     (if length script > 10000 then (None, c)
      else
        case eval_loop lib env script
               \<lparr> stack = st, altstack = [], vfExec = [], nOpCount = 0, pbegincodehash = script, cache = c \<rparr> of
          Inl c' \<Rightarrow> (None, c')
        | Inr s \<Rightarrow> if vfExec s \<noteq> [] then (None, cache s) else (Some (stack s), cache s))"

definition VerifyScript :: "'a openssl_scheme \<Rightarrow> sig_env \<Rightarrow> CScript \<Rightarrow> CScript \<Rightarrow> sig_cache \<Rightarrow> bool \<times> sig_cache" where
  "VerifyScript lib env sig spk c =
     (case EvalScript lib env [] sig c of
        (None, c) \<Rightarrow> (False, c)
      | (Some st1, c) \<Rightarrow>
          (case EvalScript lib env st1 spk c of
             (None, c) \<Rightarrow> (False, c)
           | (Some st2, c) \<Rightarrow>
               if st2 = [] then (False, c)
               else if \<not> CastToBool (hd st2) then (False, c)
               else if IsPayToScriptHash spk then
                 (if \<not> IsPushOnly sig then (False, c)
                  else
                    case st1 of
                      [] \<Rightarrow> (False, c)
                    | pubKey2 # stackCopy \<Rightarrow>
                        (case EvalScript lib env stackCopy pubKey2 c of
                           (None, c) \<Rightarrow> (False, c)
                         | (Some st3, c) \<Rightarrow> if st3 = [] then (False, c) else (CastToBool (hd st3), c)))
               else (True, c)))"

text \<open>\<^verbatim>\<open>VerifySignature\<close>; \<open>None\<close> is the failed assertion on the input index or an exception of the hash.\<close>

definition VerifySignature ::
  "'a openssl_scheme \<Rightarrow> CTransaction \<Rightarrow> CTransaction \<Rightarrow> nat \<Rightarrow> int32 \<Rightarrow> sig_cache \<Rightarrow> bool option \<times> sig_cache" where
  "VerifySignature lib txFrom txTo nIn nHashType c =
     (if nIn \<ge> length (vin txTo) then (None, c)
      else
        let txin = vin txTo ! nIn; n = unat (op_n (prevout txin)) in
        if n \<ge> length (vout txFrom) then (Some False, c)
        else case CTransaction_GetHash lib txFrom of
          None \<Rightarrow> (None, c)
        | Some h \<Rightarrow>
            if op_hash (prevout txin) \<noteq> h then (Some False, c)
            else
              let (ok, c) = VerifyScript lib \<lparr> env_tx = txTo, env_nIn = nIn, env_nHashType = nHashType \<rparr>
                              (scriptSig txin) (scriptPubKey (vout txFrom ! n)) c
              in (Some ok, c))"

end
