(* ===== verification/InterpProps.thy ===== *)
theory InterpProps
  imports Interp "HOL-Library.Sublist"
begin

text \<open>
  Properties of the script interpreter: its resource limits, that the signature cache never changes
  a verdict, that disabled opcodes are fatal wherever they stand, and what the standard script
  forms accept.
\<close>

section \<open>Truth values and numbers\<close>

lemma be_val_snoc: "be_val (xs @ [b]) = 256 * be_val xs + unat b"
  by (simp add: be_val_append be_val_Cons)

lemma mpi_val_zero_Cons: "mpi_val (x # xs) = 0 \<longleftrightarrow> be_val ((x AND 0x7f) # xs) = 0"
  by (simp add: Let_def)

lemma byte_low7_zero: "b AND 0x7f = 0 \<longleftrightarrow> b = 0 \<or> b = 0x80" for b :: byte
proof
  assume z: "b AND 0x7f = 0"
  show "b = 0 \<or> b = 0x80"
  proof (cases "b AND 0x80 = 0")
    case True
    then show ?thesis using z byte_split [of b 0] by simp
  next
    case False
    then show ?thesis using z byte_split [of b "0x80"] by simp
  qed
qed auto

lemma CastToBool_mpi: "CastToBool vch \<longleftrightarrow> mpi_val (rev vch) \<noteq> 0"
proof (induction vch)
  case (Cons b bs)
  show ?case
  proof (cases "rev bs")
    case Nil
    have "mpi_val [b] = 0 \<longleftrightarrow> b = 0 \<or> b = 0x80"
      using mpi_val_zero_Cons [of b "[]"] byte_low7_zero [of b] by (simp add: be_val_Cons unat_eq_zero)
    then show ?thesis using Nil by (simp del: mpi_val.simps)
  next
    case (Cons x xs)
    then have "mpi_val (rev (b # bs)) = 0 \<longleftrightarrow> mpi_val (rev bs) = 0 \<and> b = 0"
      using be_val_snoc [of "(x AND 0x7f) # xs" b]
      by (simp only: rev.simps Cons append_Cons mpi_val_zero_Cons) (simp add: unat_eq_zero)
    moreover have "bs \<noteq> []" using Cons by auto
    ultimately show ?thesis using Cons.IH by auto
  qed
qed simp

lemma CastToBool_setvch:
  "mpi_format lib \<Longrightarrow> length vch < 2 ^ 32 \<Longrightarrow> CastToBool vch \<longleftrightarrow> setvch lib vch \<noteq> 0"
  by (simp add: CastToBool_mpi setvch_mpi_val)

lemma CastToBool_bool_vch [simp]: "CastToBool (bool_vch b) = b"
  by (simp add: bool_vch_def vchTrue_def vchFalse_def)

lemma CastToBigNum_eq:
  assumes "mpi_format lib" and "CastToBigNum lib vch = Some v"
  shows "v = setvch lib vch \<and> \<bar>v\<bar> < 256 ^ 4"
proof -
  have len: "length vch \<le> 4" using assms(2) by (auto simp: CastToBigNum_def nMaxNumSize_def split: if_splits)
  then have val: "setvch lib vch = mpi_val (rev vch)" using assms(1) by (simp add: setvch_mpi_val)
  have small: "\<bar>mpi_val (rev vch)\<bar> < 256 ^ 4"
  proof (cases "rev vch")
    case (Cons x xs)
    have "be_val ((x AND 0x7f) # xs) < 256 ^ length ((x AND 0x7f) # xs)" by (rule be_val_less)
    also have "\<dots> = 256 ^ length vch" using Cons by (metis length_Cons length_rev)
    also have "(256 :: nat) ^ length vch \<le> 256 ^ 4" using len by (intro power_increasing) simp_all
    finally show ?thesis using abs_mpi_val_Cons [of x xs] Cons by simp
  qed simp
  have "length (getvch lib (setvch lib vch)) \<le> 4 + 1"
    using getvch_length [OF assms(1)] small val by metis
  then have "setvch lib (getvch lib (setvch lib vch)) = setvch lib vch"
    using setvch_getvch_eq [OF assms(1)] by simp
  then show ?thesis using assms(2) small val by (auto simp: CastToBigNum_def split: if_splits)
qed

section \<open>Resource limits\<close>

definition small_elems :: "vstack \<Rightarrow> bool" where
  "small_elems st = list_all (\<lambda>v. length v \<le> 520) st"

lemma small_elems_Cons [simp]: "small_elems (v # st) \<longleftrightarrow> length v \<le> 520 \<and> small_elems st"
  by (simp add: small_elems_def)

lemma small_elems_Nil [simp]: "small_elems []"
  by (simp add: small_elems_def)

lemma small_elems_nth: "small_elems st \<Longrightarrow> i < length st \<Longrightarrow> length (st ! i) \<le> 520"
  by (simp add: small_elems_def list_all_length)

lemma small_elems_parts: "small_elems st \<Longrightarrow> small_elems (take n st) \<and> small_elems (drop n st)"
  by (metis append_take_drop_id list_all_append small_elems_def)

lemma small_elems_append [simp]: "small_elems (a @ b) \<longleftrightarrow> small_elems a \<and> small_elems b"
  by (simp add: small_elems_def)

lemma bool_vch_length [simp]: "length (bool_vch b) \<le> 520"
  by (simp add: bool_vch_def vchTrue_def vchFalse_def)

lemma getvch_small: "mpi_format lib \<Longrightarrow> \<bar>v\<bar> < 256 ^ 5 \<Longrightarrow> length (getvch lib v) \<le> 520"
  using getvch_length [of lib v 5] by simp

lemma op_pick_roll_set:
  assumes "op_pick_roll lib opcode st = Some st'"
  shows "set st' \<subseteq> set st"
proof -
  obtain idx v r bn where st: "st = idx # v # r" "CastToBigNum lib idx = Some bn"
    and n: "nat (getint bn) < length (v # r)"
    and st': "st' = (v # r) ! nat (getint bn) #
      (if opcode = OP_ROLL then take (nat (getint bn)) (v # r) @ drop (Suc (nat (getint bn))) (v # r) else v # r)"
    using assms by (simp add: op_pick_roll_def Let_def split: list.splits option.splits if_split_asm)
  have "(v # r) ! nat (getint bn) \<in> set (v # r)" using n by (rule nth_mem)
  moreover have "set (take (nat (getint bn)) (v # r)) \<subseteq> set (v # r)" by (rule set_take_subset)
  moreover have "set (drop (Suc (nat (getint bn))) (v # r)) \<subseteq> set (v # r)" by (rule set_drop_subset)
  ultimately have "set st' \<subseteq> set (v # r)" unfolding st' by (auto simp del: drop_Suc_Cons)
  then show ?thesis unfolding st(1) by auto
qed

lemma small_elems_subset: "set st' \<subseteq> set st \<Longrightarrow> small_elems st \<Longrightarrow> small_elems st'"
  by (auto simp: small_elems_def list_all_iff)

lemma if_split_asm_E: "(if b then x else y) = r \<Longrightarrow> (b \<Longrightarrow> x = r \<Longrightarrow> P) \<Longrightarrow> (\<not> b \<Longrightarrow> y = r \<Longrightarrow> P) \<Longrightarrow> P"
  by (cases b) auto

lemma op_stack_small:
  assumes lib: "mpi_format lib" and st: "small_elems st" "length st \<le> 1000" and r: "op_stack lib opcode st = Some st'"
  shows "small_elems st'"
proof (cases "opcode = OP_PICK \<or> opcode = OP_ROLL")
  case True
  then have "op_stack lib opcode st = op_pick_roll lib opcode st" by (auto simp: op_stack_def)
  then show ?thesis
    using op_pick_roll_set [of lib opcode st st'] st r by (simp add: small_elems_subset)
next
  case False
  moreover have "length (getvch lib (int (length st))) \<le> 520"
    using st(2) by (intro getvch_small [OF lib]) simp
  ultimately show ?thesis
    using st(1) r unfolding op_stack_def
    by (elim if_split_asm_E) (auto split: list.split_asm if_split_asm)
qed

lemma num1_small: "\<not> disabled opcode \<Longrightarrow> \<bar>v\<bar> < 256 ^ 4 \<Longrightarrow> \<bar>num1 opcode v\<bar> < 256 ^ 5"
  by (auto simp: num1_def disabled_def bool_int_def)

lemma num2_small:
  "\<not> disabled opcode \<Longrightarrow> \<bar>a\<bar> < 256 ^ 4 \<Longrightarrow> \<bar>b\<bar> < 256 ^ 4 \<Longrightarrow> num2 opcode a b = Some v \<Longrightarrow> \<bar>v\<bar> < 256 ^ 5"
  by (auto simp: num2_def disabled_def bool_int_def split: if_splits)

lemma op_num1_small:
  assumes "mpi_format lib" and "small_elems st" and "\<not> disabled opcode" and "op_num1 lib opcode st = Some st'"
  shows "small_elems st'"
  using assms(2-) getvch_small [OF assms(1)] num1_small [OF assms(3)] CastToBigNum_eq [OF assms(1)]
  by (fastforce simp: op_num1_def split: list.splits)

lemma op_num2_small:
  assumes "mpi_format lib" and "small_elems st" and "\<not> disabled opcode" and "op_num2 lib opcode st = Some st'"
  shows "small_elems st'"
proof -
  obtain v2 v1 r bn1 bn2 bn where st: "st = v2 # v1 # r" and b: "CastToBigNum lib v1 = Some bn1"
    "CastToBigNum lib v2 = Some bn2" "num2 opcode bn1 bn2 = Some bn"
    and st': "st' = r \<or> st' = getvch lib bn # r"
    using assms(4) by (auto simp: op_num2_def Option.bind_eq_Some_conv split: list.splits if_splits)
  have "\<bar>bn\<bar> < 256 ^ 5"
    using CastToBigNum_eq [OF assms(1) b(1)] CastToBigNum_eq [OF assms(1) b(2)]
    by (intro num2_small [OF assms(3) _ _ b(3)]) blast+
  then show ?thesis using st st' assms(2) getvch_small [OF assms(1)] by auto
qed

lemma op_misc_small:
  assumes "small_elems st"
  shows "op_within lib st = Some st' \<Longrightarrow> small_elems st'"
    and "op_digest olib opcode st = Some st' \<Longrightarrow> small_elems st'"
    and "op_verify st = Some st' \<Longrightarrow> small_elems st'"
    and "op_if opcode f (st, vf) = Some (st', vf') \<Longrightarrow> small_elems st'"
    and "\<not> disabled opcode \<Longrightarrow> op_bitlogic opcode st = Some st' \<Longrightarrow> small_elems st'"
  using assms
  by (auto simp: op_within_def op_digest_def op_verify_def op_if_def op_bitlogic_def disabled_def Let_def
      Option.bind_eq_Some_conv split: list.splits if_splits)

lemma op_splice_small:
  assumes "mpi_format lib" and "small_elems st" and "\<not> disabled opcode" and "OP_CAT \<le> opcode" and "opcode \<le> OP_SIZE"
    and "op_splice lib opcode st = Some st'"
  shows "small_elems st'"
  using assms getvch_small [OF assms(1)]
  by (auto simp: op_splice_def disabled_def split: list.splits if_splits)

section \<open>The cache never changes a verdict\<close>

text \<open>The matching loop of \<^verbatim>\<open>OP_CHECKMULTISIG\<close> over a check without a cache.\<close>

fun multisig_spec :: "(bytes \<Rightarrow> bytes \<Rightarrow> bool option) \<Rightarrow> bytes list \<Rightarrow> bytes list \<Rightarrow> bool option" where
  "multisig_spec chk [] keys = Some True"
| "multisig_spec chk (sig # sigs) [] = None"
| "multisig_spec chk (sig # sigs) (key # keys) =
     (case chk sig key of
        None \<Rightarrow> None
      | Some ok \<Rightarrow>
          let sigs' = (if ok then sigs else sig # sigs) in
          if length sigs' > length keys then Some False else multisig_spec chk sigs' keys)"

lemma multisig_loop_eq:
  assumes "cache_sound lib c"
  shows "fst (multisig_loop lib env code c sigs keys) =
      multisig_spec (\<lambda>sig key. CheckSig_spec lib env sig key code) sigs keys \<and>
    cache_sound lib (snd (multisig_loop lib env code c sigs keys))"
  using assms
proof (induction lib env code c sigs keys rule: multisig_loop.induct)
  case (3 lib env code c sig sigs key keys)
  obtain r c' where r: "CheckSig lib env c sig key code = (r, c')" by fastforce
  then have spec: "CheckSig_spec lib env sig key code = r" and c': "cache_sound lib c'"
    using CheckSig_eq [OF "3.prems", of env sig key code] by simp_all
  show ?case
  proof (cases r)
    case (Some ok)
    have "fst (multisig_loop lib env code c' sigs' keys) =
          multisig_spec (\<lambda>sig key. CheckSig_spec lib env sig key code) sigs' keys \<and>
        cache_sound lib (snd (multisig_loop lib env code c' sigs' keys))"
      if "sigs' = (if ok then sigs else sig # sigs)" "\<not> length keys < length sigs'" for sigs'
      using "3.IH" [OF r [symmetric] Some that] c' by blast
    then show ?thesis using r spec Some c' by (simp add: Let_def)
  qed (use r spec c' in simp)
qed simp_all

definition cache_rel :: "'a openssl_scheme \<Rightarrow> eval_state \<Rightarrow> eval_state \<Rightarrow> bool" where
  "cache_rel lib s s' \<longleftrightarrow> cache_sound lib (cache s) \<and> cache_sound lib (cache s') \<and> s' = s\<lparr> cache := cache s' \<rparr>"

definition result_rel :: "'a openssl_scheme \<Rightarrow> sig_cache + eval_state \<Rightarrow> sig_cache + eval_state \<Rightarrow> bool" where
  "result_rel lib = rel_sum (\<lambda>c c'. cache_sound lib c \<and> cache_sound lib c') (cache_rel lib)"

lemma cache_rel_fields:
  assumes "cache_rel lib s s'"
  shows "stack s' = stack s" "altstack s' = altstack s" "vfExec s' = vfExec s" "nOpCount s' = nOpCount s"
    "pbegincodehash s' = pbegincodehash s" "cache_sound lib (cache s)" "cache_sound lib (cache s')"
  using assms unfolding cache_rel_def by (metis eval_state.ext_inject eval_state.surjective eval_state.update_convs(6))+

lemma cache_relI:
  assumes "stack s' = stack s" "altstack s' = altstack s" "vfExec s' = vfExec s" "nOpCount s' = nOpCount s"
    "pbegincodehash s' = pbegincodehash s" "cache_sound lib (cache s)" "cache_sound lib (cache s')"
  shows "cache_rel lib s s'"
  using assms by (cases s; cases s') (simp add: cache_rel_def)

lemma result_rel_simps [simp]:
  "result_rel lib (Inl c) (Inl c') \<longleftrightarrow> cache_sound lib c \<and> cache_sound lib c'"
  "result_rel lib (Inr s) (Inr s') \<longleftrightarrow> cache_rel lib s s'"
  "\<not> result_rel lib (Inl c) (Inr s')" "\<not> result_rel lib (Inr s) (Inl c')"
  by (simp_all add: result_rel_def)

lemma result_rel_if:
  "(b \<Longrightarrow> result_rel lib x x') \<Longrightarrow> (\<not> b \<Longrightarrow> result_rel lib y y') \<Longrightarrow>
   result_rel lib (if b then x else y) (if b then x' else y')"
  by simp

lemma lift_stack_rel: "cache_rel lib s s' \<Longrightarrow> result_rel lib (lift_stack s r) (lift_stack s' r)"
  by (auto simp: lift_stack_def cache_rel_fields intro!: cache_relI split: option.splits)

lemma exec_control_rel:
  "cache_rel lib s s' \<Longrightarrow> result_rel lib (exec_control opcode fExec s) (exec_control opcode fExec s')"
  unfolding exec_control_def
  by (intro result_rel_if; (auto simp: cache_rel_fields lift_stack_rel intro!: cache_relI split: option.split)?)

lemma op_checksig_rel:
  assumes "cache_sound lib c" and "cache_sound lib c'"
  shows "rel_sum (\<lambda>c c'. cache_sound lib c \<and> cache_sound lib c')
           (rel_prod (=) (\<lambda>c c'. cache_sound lib c \<and> cache_sound lib c'))
           (op_checksig lib env opcode code c st) (op_checksig lib env opcode code c' st)"
proof (cases st rule: remdups_adj.cases)
  case (3 key sig r)
  obtain b c1 where 1: "CheckSig lib env c sig key (snd (FindAndDelete (push_vch sig []) code)) = (b, c1)" by fastforce
  obtain b' c1' where 2: "CheckSig lib env c' sig key (snd (FindAndDelete (push_vch sig []) code)) = (b', c1')" by fastforce
  have "b' = b" "cache_sound lib c1" "cache_sound lib c1'"
    using CheckSig_eq [OF assms(1), of env sig key] CheckSig_eq [OF assms(2), of env sig key] 1 2
    by (metis fst_conv snd_conv)+
  then show ?thesis using 1 2 3 by (cases b) (simp_all add: op_checksig_def)
qed (use assms in \<open>simp_all add: op_checksig_def\<close>)

text \<open>The part of \<^verbatim>\<open>OP_CHECKMULTISIG\<close> before the signatures are checked.\<close>

definition multisig_args :: "'a openssl_scheme \<Rightarrow> nat \<Rightarrow> vstack \<Rightarrow> (nat \<times> nat) option" where
  "multisig_args lib nOps st =
     (if length st < 1 then None
      else case CastToBigNum lib (st ! 0) of
        None \<Rightarrow> None
      | Some bnKeys \<Rightarrow>
          if getint bnKeys < 0 \<or> getint bnKeys > 20 then None
          else if nOps + nat (getint bnKeys) > 201 then None
          else if length st < 2 + nat (getint bnKeys) then None
          else case CastToBigNum lib (st ! (1 + nat (getint bnKeys))) of
            None \<Rightarrow> None
          | Some bnSigs \<Rightarrow>
              if getint bnSigs < 0 \<or> getint bnSigs > int (nat (getint bnKeys)) then None
              else if length st < 3 + nat (getint bnKeys) + nat (getint bnSigs) then None
              else Some (nat (getint bnKeys), nat (getint bnSigs)))"

definition multisig_code :: "nat \<Rightarrow> nat \<Rightarrow> bytes \<Rightarrow> vstack \<Rightarrow> bytes" where
  "multisig_code k m codehash st =
     foldl (\<lambda>code sig. snd (FindAndDelete (push_vch sig []) code)) codehash (take m (drop (2 + k) st))"

lemma op_checkmultisig_alt:
  "op_checkmultisig lib env opcode codehash nOps c st =
     (case multisig_args lib nOps st of
        None \<Rightarrow> Inl c
      | Some (k, m) \<Rightarrow>
          (case multisig_loop lib env (multisig_code k m codehash st) c (take m (drop (2 + k) st)) (take k (drop 1 st)) of
             (None, c') \<Rightarrow> Inl c'
           | (Some ok, c') \<Rightarrow>
               if opcode = OP_CHECKMULTISIGVERIFY \<and> \<not> ok then Inl c'
               else Inr ((if opcode = OP_CHECKMULTISIGVERIFY then [] else [bool_vch ok]) @ drop (3 + k + m) st,
                         nOps + k, c')))"
  unfolding op_checkmultisig_def multisig_args_def Let_def multisig_code_def
  by (simp split: option.split prod.split if_split)

lemma op_checkmultisig_rel:
  assumes "cache_sound lib c" and "cache_sound lib c'"
  shows "rel_sum (\<lambda>c c'. cache_sound lib c \<and> cache_sound lib c')
           (rel_prod (=) (rel_prod (=) (\<lambda>c c'. cache_sound lib c \<and> cache_sound lib c')))
           (op_checkmultisig lib env opcode code n c st) (op_checkmultisig lib env opcode code n c' st)"
proof (cases "multisig_args lib n st")
  case (Some a)
  obtain k m where a: "a = (k, m)" by fastforce
  let ?loop = "\<lambda>c. multisig_loop lib env (multisig_code k m code st) c (take m (drop (2 + k) st)) (take k (drop 1 st))"
  obtain b c1 c1' where "?loop c = (b, c1)" "?loop c' = (b, c1')" "cache_sound lib c1" "cache_sound lib c1'"
    using multisig_loop_eq [OF assms(1), of env] multisig_loop_eq [OF assms(2), of env] by (metis prod.collapse)
  then show ?thesis using Some a by (cases b) (simp_all add: op_checkmultisig_alt)
qed (use assms in \<open>simp add: op_checkmultisig_alt\<close>)

lemmas op_checksig_cases = op_checksig_rel [unfolded rel_sum.simps]

lemma exec_op_rel:
  assumes "cache_rel lib s s'"
  shows "result_rel lib (exec_op lib env opcode fExec pc s) (exec_op lib env opcode fExec pc s')"
proof -
  note f = cache_rel_fields [OF assms]
  have sig: "result_rel lib
      (case op_checksig lib env opcode (pbegincodehash s) (cache s) (stack s) of
         Inl c \<Rightarrow> Inl c | Inr (st, c) \<Rightarrow> Inr (s\<lparr> stack := st, cache := c \<rparr>))
      (case op_checksig lib env opcode (pbegincodehash s) (cache s') (stack s) of
         Inl c \<Rightarrow> Inl c | Inr (st, c) \<Rightarrow> Inr (s'\<lparr> stack := st, cache := c \<rparr>))"
    using op_checksig_rel [OF f(6,7), of env opcode "pbegincodehash s" "stack s"]
    by (auto elim!: rel_sum.cases simp: f intro!: cache_relI)
  have msig: "result_rel lib
      (case op_checkmultisig lib env opcode (pbegincodehash s) (nOpCount s) (cache s) (stack s) of
         Inl c \<Rightarrow> Inl c | Inr (st, n, c) \<Rightarrow> Inr (s\<lparr> stack := st, nOpCount := n, cache := c \<rparr>))
      (case op_checkmultisig lib env opcode (pbegincodehash s) (nOpCount s) (cache s') (stack s) of
         Inl c \<Rightarrow> Inl c | Inr (st, n, c) \<Rightarrow> Inr (s'\<lparr> stack := st, nOpCount := n, cache := c \<rparr>))"
    using op_checkmultisig_rel [OF f(6,7), of env opcode "pbegincodehash s" "nOpCount s" "stack s"]
    by (auto elim!: rel_sum.cases simp: f intro!: cache_relI)
  have alt: "result_rel lib
      (case r of None \<Rightarrow> Inl (cache s) | Some (st, alt) \<Rightarrow> Inr (s\<lparr> stack := st, altstack := alt \<rparr>))
      (case r of None \<Rightarrow> Inl (cache s') | Some (st, alt) \<Rightarrow> Inr (s'\<lparr> stack := st, altstack := alt \<rparr>))" for r
    by (auto simp: f intro!: cache_relI split: option.splits)
  show ?thesis
    unfolding exec_op_def f(1-5)
    by (intro result_rel_if sig msig alt lift_stack_rel [OF assms] exec_control_rel [OF assms])
       (simp_all add: f assms cache_relI)
qed

lemma eval_step_rel:
  assumes "cache_rel lib s s'"
  shows "result_rel lib (eval_step lib env opcode vch pc s) (eval_step lib env opcode vch pc s')"
proof -
  note f = cache_rel_fields [OF assms]
  have bump: "cache_rel lib (if b then s\<lparr> nOpCount := Suc (nOpCount s) \<rparr> else s)
      (if b then s'\<lparr> nOpCount := Suc (nOpCount s') \<rparr> else s')" for b
    using f assms by (auto intro!: cache_relI)
  have cap: "result_rel lib
      (case r of Inl c \<Rightarrow> Inl c
         | Inr s' \<Rightarrow> if length (stack s') + length (altstack s') > 1000 then Inl (cache s') else Inr s')
      (case r' of Inl c \<Rightarrow> Inl c
         | Inr s' \<Rightarrow> if length (stack s') + length (altstack s') > 1000 then Inl (cache s') else Inr s')"
    if "result_rel lib r r'" for r r'
    using that by (cases r; cases r') (auto simp: cache_rel_fields)
  show ?thesis
    unfolding eval_step_def Let_def f(3)
    using cache_rel_fields [OF bump] f
    by (simp only:) (intro result_rel_if cap exec_op_rel bump; (simp add: cache_relI bump)?)
qed

lemma eval_loop_rel:
  "cache_rel lib s s' \<Longrightarrow> result_rel lib (eval_loop lib env pc s) (eval_loop lib env pc s')"
proof (induction lib env pc s arbitrary: s' rule: eval_loop.induct)
  case (1 lib env pc s)
  note f = cache_rel_fields [OF "1.prems"]
  show ?case
  proof (cases "GetOp2 pc")
    case None
    then show ?thesis using f "1.prems" by (subst (1 2) eval_loop.simps) simp
  next
    case (Some i)
    obtain opcode vch pc' where i: "i = (opcode, vch, pc')" by (cases i)
    have pc: "pc \<noteq> []" using Some by (auto simp: GetOp2_def)
    have step: "result_rel lib (eval_step lib env opcode vch pc' s) (eval_step lib env opcode vch pc' s')"
      by (rule eval_step_rel [OF "1.prems"])
    show ?thesis
    proof (cases "eval_step lib env opcode vch pc' s")
      case (Inl c)
      then show ?thesis using step Some i pc
        by (cases "eval_step lib env opcode vch pc' s'") (subst (1 2) eval_loop.simps, simp)+
    next
      case (Inr t)
      then obtain t' where t': "eval_step lib env opcode vch pc' s' = Inr t'" "cache_rel lib t t'"
        using step by (cases "eval_step lib env opcode vch pc' s'") simp_all
      then have "result_rel lib (eval_loop lib env pc' t) (eval_loop lib env pc' t')"
        using "1.IH" [OF pc Some i [symmetric] refl Inr] by blast
      then show ?thesis using Some i pc Inr t'(1) by (subst (1 2) eval_loop.simps) simp
    qed
  qed
qed

lemma EvalScript_cache:
  assumes "cache_sound lib c" and "cache_sound lib c'"
  shows "fst (EvalScript lib env st script c) = fst (EvalScript lib env st script c')"
    and "cache_sound lib (snd (EvalScript lib env st script c))"
proof -
  let ?init = "\<lambda>c. \<lparr> stack = st, altstack = [], vfExec = [], nOpCount = 0, pbegincodehash = script, cache = c \<rparr>"
  have "cache_rel lib (?init c) (?init c')" using assms by (simp add: cache_rel_def)
  then have rel: "result_rel lib (eval_loop lib env script (?init c)) (eval_loop lib env script (?init c'))"
    by (rule eval_loop_rel)
  show "fst (EvalScript lib env st script c) = fst (EvalScript lib env st script c')"
    using rel by (cases "eval_loop lib env script (?init c)"; cases "eval_loop lib env script (?init c')")
      (simp_all add: EvalScript_def cache_rel_fields)
  show "cache_sound lib (snd (EvalScript lib env st script c))"
    using rel assms by (cases "eval_loop lib env script (?init c)"; cases "eval_loop lib env script (?init c')")
      (simp_all add: EvalScript_def cache_rel_fields)
qed

text \<open>What an evaluation returns, with an empty cache.\<close>

definition no_cache :: sig_cache where
  "no_cache = \<lparr> setValid = {}, nMaxCacheSize = 0, randHashes = (\<lambda>_. 0), nDrawn = 0 \<rparr>"

lemma no_cache_sound [simp]: "cache_sound lib no_cache"
  by (simp add: no_cache_def cache_sound_def)

definition Eval :: "'a openssl_scheme \<Rightarrow> sig_env \<Rightarrow> vstack \<Rightarrow> CScript \<Rightarrow> vstack option" where
  "Eval lib env st script = fst (EvalScript lib env st script no_cache)"

lemma EvalScript_Eval:
  assumes "cache_sound lib c"
  obtains c' where "EvalScript lib env st script c = (Eval lib env st script, c')" and "cache_sound lib c'"
  using EvalScript_cache [OF assms no_cache_sound, of env st script] unfolding Eval_def by (metis prod.collapse)

definition truthy :: "vstack option \<Rightarrow> bool" where
  "truthy r = (case r of Some (t # _) \<Rightarrow> CastToBool t | _ \<Rightarrow> False)"

text \<open>What \<^verbatim>\<open>VerifyScript\<close> decides, in terms of evaluations without a cache.\<close>

definition Verify_spec :: "'a openssl_scheme \<Rightarrow> sig_env \<Rightarrow> CScript \<Rightarrow> CScript \<Rightarrow> bool" where
  "Verify_spec lib env sig spk =
     (case Eval lib env [] sig of
        None \<Rightarrow> False
      | Some st1 \<Rightarrow>
          truthy (Eval lib env st1 spk) \<and>
          (IsPayToScriptHash spk \<longrightarrow>
             IsPushOnly sig \<and> (case st1 of [] \<Rightarrow> False | redeem # r \<Rightarrow> truthy (Eval lib env r redeem))))"

lemma VerifyScript_eq:
  assumes "cache_sound lib c"
  shows "fst (VerifyScript lib env sig spk c) = Verify_spec lib env sig spk \<and>
    cache_sound lib (snd (VerifyScript lib env sig spk c))"
proof -
  obtain c1 where 1: "EvalScript lib env [] sig c = (Eval lib env [] sig, c1)" "cache_sound lib c1"
    by (rule EvalScript_Eval [OF assms])
  show ?thesis
  proof (cases "Eval lib env [] sig")
    case None
    then show ?thesis using 1 by (simp add: VerifyScript_def Verify_spec_def)
  next
    case (Some st1)
    obtain c2 where 2: "EvalScript lib env st1 spk c1 = (Eval lib env st1 spk, c2)" "cache_sound lib c2"
      by (rule EvalScript_Eval [OF 1(2)])
    obtain c3 where 3: "EvalScript lib env (tl st1) (hd st1) c2 = (Eval lib env (tl st1) (hd st1), c3)" "cache_sound lib c3"
      by (rule EvalScript_Eval [OF 2(2)])
    show ?thesis using 1 2 3 Some
      by (auto simp: VerifyScript_def Verify_spec_def truthy_def hd_conv_nth split: option.splits list.splits)
  qed
qed

text \<open>
  C27. The signature cache never changes a verdict: starting from any two caches that hold only
  signatures that verify, \<^verbatim>\<open>VerifyScript\<close> and \<^verbatim>\<open>VerifySignature\<close> decide the same, the decision is
  the one made with no cache at all, and the caches left behind again hold only signatures that
  verify.
\<close>

theorem cache_transparent:
  assumes "cache_sound lib c" and "cache_sound lib c'"
  shows "fst (VerifyScript lib env sig spk c) = fst (VerifyScript lib env sig spk c') \<and>
    fst (VerifyScript lib env sig spk c) = Verify_spec lib env sig spk \<and>
    cache_sound lib (snd (VerifyScript lib env sig spk c)) \<and>
    fst (VerifySignature lib txFrom txTo nIn nHashType c) = fst (VerifySignature lib txFrom txTo nIn nHashType c') \<and>
    cache_sound lib (snd (VerifySignature lib txFrom txTo nIn nHashType c))"
proof -
  have "fst (VerifySignature lib txFrom txTo nIn nHashType c) = fst (VerifySignature lib txFrom txTo nIn nHashType c') \<and>
      cache_sound lib (snd (VerifySignature lib txFrom txTo nIn nHashType c))"
    using VerifyScript_eq [OF assms(1)] VerifyScript_eq [OF assms(2)] assms
    by (auto simp: VerifySignature_def Let_def split: option.split prod.split) (metis fst_conv snd_conv)+
  then show ?thesis using VerifyScript_eq [OF assms(1)] VerifyScript_eq [OF assms(2)] by simp
qed

definition demo_env :: sig_env where
  "demo_env = \<lparr> env_tx = demo_tx, env_nIn = 0, env_nHashType = 0 \<rparr>"

definition demo_cache :: sig_cache where
  "demo_cache = \<lparr> setValid = {(7, [5], [5])}, nMaxCacheSize = 1, randHashes = (\<lambda>_. 3), nDrawn = 0 \<rparr>"

lemma demo_cache_sound: "cache_sound demo_lib demo_cache"
  by (simp add: demo_cache_def cache_sound_def demo_lib_def)

theorem cache_transparent_witness:
  "setValid demo_cache \<noteq> {} \<and>
   fst (VerifyScript demo_lib demo_env [1, 9] [0xac] demo_cache) =
   fst (VerifyScript demo_lib demo_env [1, 9] [0xac] no_cache)"
  using cache_transparent [OF demo_cache_sound no_cache_sound] by (simp add: demo_cache_def)

section \<open>Every reachable state respects the limits\<close>

text \<open>The configurations the loop passes through, from a script and a state.\<close>

inductive eval_reach :: "'a openssl_scheme \<Rightarrow> sig_env \<Rightarrow> bytes \<times> eval_state \<Rightarrow> bytes \<times> eval_state \<Rightarrow> bool"
  for lib env where
  start: "eval_reach lib env c c"
| step: "eval_reach lib env c (pc, s) \<Longrightarrow> GetOp2 pc = Some (opcode, vch, pc') \<Longrightarrow>
    eval_step lib env opcode vch pc' s = Inr s' \<Longrightarrow> eval_reach lib env c (pc', s')"

definition limits :: "eval_state \<Rightarrow> bool" where
  "limits s \<longleftrightarrow> length (stack s) + length (altstack s) \<le> 1000 \<and> nOpCount s \<le> 201 \<and>
     small_elems (stack s) \<and> small_elems (altstack s)"

lemma op_checksig_small:
  "small_elems st \<Longrightarrow> op_checksig lib env opcode code c st = Inr (st', c') \<Longrightarrow> small_elems st'"
  by (auto simp: op_checksig_def Let_def split: list.splits option.splits prod.splits if_splits)

lemma multisig_args_ops: "multisig_args lib n st = Some (k, m) \<Longrightarrow> n + k \<le> 201"
  by (auto simp: multisig_args_def split: option.splits if_splits)

lemma op_checkmultisig_small:
  assumes "small_elems st" and "op_checkmultisig lib env opcode code n c st = Inr (st', n', c')"
  shows "small_elems st' \<and> n' \<le> 201"
  using assms small_elems_parts multisig_args_ops
  by (auto simp: op_checkmultisig_alt split: option.splits prod.splits if_splits)

lemma lift_stack_Inr: "lift_stack s r = Inr s' \<longleftrightarrow> (\<exists>st. r = Some st \<and> s' = s\<lparr> stack := st \<rparr>)"
  by (auto simp: lift_stack_def split: option.splits)

lemma op_push_value_small:
  "mpi_format lib \<Longrightarrow> small_elems st \<Longrightarrow> opcode \<le> OP_16 \<Longrightarrow> small_elems (op_push_value lib opcode st)"
  by (auto simp: op_push_value_def intro!: getvch_small)

text \<open>Everything but the number of elements is kept by one case of the switch.\<close>

definition limits' :: "eval_state \<Rightarrow> bool" where
  "limits' s \<longleftrightarrow> nOpCount s \<le> 201 \<and> small_elems (stack s) \<and> small_elems (altstack s)"

definition keeps :: "(eval_state \<Rightarrow> bool) \<Rightarrow> sig_cache + eval_state \<Rightarrow> bool" where
  "keeps P r \<longleftrightarrow> (\<forall>s'. r = Inr s' \<longrightarrow> P s')"

lemma keeps_simps [simp]: "keeps P (Inl c)" "keeps P (Inr s) \<longleftrightarrow> P s"
  by (simp_all add: keeps_def)

lemma keeps_if: "(b \<Longrightarrow> keeps P x) \<Longrightarrow> (\<not> b \<Longrightarrow> keeps P y) \<Longrightarrow> keeps P (if b then x else y)"
  by simp

lemma keeps_lift:
  assumes "limits' s" and "\<And>st. r = Some st \<Longrightarrow> small_elems st"
  shows "keeps limits' (lift_stack s r)"
  using assms by (cases r) (simp_all add: lift_stack_def limits'_def)

lemma exec_control_limits:
  assumes "limits' s"
  shows "keeps limits' (exec_control opcode fExec s)"
proof -
  have st: "small_elems (stack s)" using assms by (simp add: limits'_def)
  have op_if: "keeps limits' (case op_if opcode fExec (stack s, vfExec s) of
      None \<Rightarrow> Inl (cache s) | Some (st, vf) \<Rightarrow> Inr (s\<lparr> stack := st, vfExec := vf \<rparr>))"
    using assms op_misc_small(4) [OF st, of opcode fExec "vfExec s"] by (auto simp: limits'_def split: option.split)
  have vf: "keeps limits' (case r of None \<Rightarrow> Inl (cache s) | Some vf \<Rightarrow> Inr (s\<lparr> vfExec := vf \<rparr>))" for r
    using assms by (simp add: limits'_def split: option.split)
  show ?thesis
    unfolding exec_control_def
    by (intro keeps_if op_if vf keeps_lift [OF assms] op_misc_small(3) [OF st]) (simp_all add: assms)
qed

lemma exec_op_limits:
  assumes lib: "mpi_format lib" and s: "limits' s" "length (stack s) \<le> 1000" and op: "\<not> disabled opcode"
  shows "keeps limits' (exec_op lib env opcode fExec pc s)"
proof -
  have st: "small_elems (stack s)" "small_elems (altstack s)" using s by (simp_all add: limits'_def)
  have alt: "keeps limits' (case op_altstack opcode (stack s, altstack s) of
      None \<Rightarrow> Inl (cache s) | Some (st, alt) \<Rightarrow> Inr (s\<lparr> stack := st, altstack := alt \<rparr>))"
    using s by (auto simp: op_altstack_def limits'_def split: list.splits option.splits if_splits)
  have sig: "keeps limits' (case op_checksig lib env opcode (pbegincodehash s) (cache s) (stack s) of
      Inl c \<Rightarrow> Inl c | Inr (st, c) \<Rightarrow> Inr (s\<lparr> stack := st, cache := c \<rparr>))"
    using s op_checksig_small [OF st(1)] by (fastforce simp: limits'_def split: sum.split)
  have msig: "keeps limits' (case op_checkmultisig lib env opcode (pbegincodehash s) (nOpCount s) (cache s) (stack s) of
      Inl c \<Rightarrow> Inl c | Inr (st, n, c) \<Rightarrow> Inr (s\<lparr> stack := st, nOpCount := n, cache := c \<rparr>))"
    using s op_checkmultisig_small [OF st(1)] by (fastforce simp: limits'_def split: sum.split)
  have push: "keeps limits' (Inr (s\<lparr> stack := op_push_value lib opcode (stack s) \<rparr>))"
    if "opcode = OP_1NEGATE \<or> (OP_1 \<le> opcode \<and> opcode \<le> OP_16)"
    using that s by (auto simp: limits'_def intro: op_push_value_small [OF lib st(1)])
  have rest: "keeps limits' (Inr s)" "keeps limits' (Inr (s\<lparr> pbegincodehash := pc \<rparr>))" "keeps limits' (Inl (cache s))"
    using s by (simp_all add: limits'_def)
  have lifts: "keeps limits' (lift_stack s (op_stack lib opcode (stack s)))"
    "OP_CAT \<le> opcode \<and> opcode \<le> OP_SIZE \<Longrightarrow> keeps limits' (lift_stack s (op_splice lib opcode (stack s)))"
    "keeps limits' (lift_stack s (op_bitlogic opcode (stack s)))"
    "keeps limits' (lift_stack s (op_num1 lib opcode (stack s)))"
    "keeps limits' (lift_stack s (op_num2 lib opcode (stack s)))"
    "keeps limits' (lift_stack s (op_within lib (stack s)))"
    "keeps limits' (lift_stack s (op_digest lib opcode (stack s)))"
    using op_stack_small [OF lib st(1) s(2)] op_splice_small [OF lib st(1) op] op_misc_small(1,2) [OF st(1)]
      op_misc_small(5) [OF st(1) op] op_num1_small [OF lib st(1) op] op_num2_small [OF lib st(1) op]
    by (blast intro: keeps_lift [OF s(1)])+
  show ?thesis
    unfolding exec_op_def
    by (intro keeps_if push rest alt sig msig exec_control_limits [OF s(1)] lifts)
qed

lemma eval_step_limits:
  assumes "mpi_format lib" and s: "limits s" and r: "eval_step lib env opcode vch pc s = Inr s'"
  shows "limits s'"
proof -
  have v: "length vch \<le> 520" "\<not> disabled opcode"
    using r by (auto simp: eval_step_def Let_def split: if_splits)
  define t where "t = (if opcode > OP_16 then s\<lparr> nOpCount := Suc (nOpCount s) \<rparr> else s)"
  have t: "limits' t" "length (stack t) \<le> 1000"
    using r s by (auto simp: t_def limits_def limits'_def eval_step_def Let_def split: if_splits)
  obtain u where u: "(if (\<not> (False \<in> set (vfExec s))) \<and> opcode \<le> OP_PUSHDATA4 then Inr (t\<lparr> stack := vch # stack t \<rparr>)
      else if (\<not> (False \<in> set (vfExec s))) \<or> (OP_IF \<le> opcode \<and> opcode \<le> OP_ENDIF)
      then exec_op lib env opcode (\<not> (False \<in> set (vfExec s))) pc t else Inr t) = Inr u"
    and s': "s' = u" "length (stack u) + length (altstack u) \<le> 1000"
    using r unfolding eval_step_def Let_def t_def [symmetric]
    by (simp split: sum.split_asm if_split_asm)
  have "keeps limits' (Inr u)"
    unfolding u [symmetric]
    by (intro keeps_if exec_op_limits [OF assms(1) t v(2)]) (use t v in \<open>simp_all add: limits'_def\<close>)
  then show ?thesis using s' by (simp add: limits_def limits'_def)
qed

lemma eval_reach_limits:
  assumes "mpi_format lib" and "eval_reach lib env c d" and "limits (snd c)"
  shows "limits (snd d)"
  using assms(2) assms(3)
  by (induction rule: eval_reach.induct) (use eval_step_limits [OF assms(1)] in auto)

lemma eval_reach_trans: "eval_reach lib env b c \<Longrightarrow> eval_reach lib env a b \<Longrightarrow> eval_reach lib env a c"
  by (induction rule: eval_reach.induct) (auto intro: eval_reach.step)

lemma eval_loop_reach: "eval_loop lib env pc s = Inr s' \<Longrightarrow> eval_reach lib env (pc, s) ([], s')"
proof (induction lib env pc s rule: eval_loop.induct)
  case (1 lib env pc s)
  show ?case
  proof (cases "pc = []")
    case True
    then show ?thesis using "1.prems" by (simp add: eval_loop.simps eval_reach.start)
  next
    case False
    then obtain opcode vch pc' t where i: "GetOp2 pc = Some (opcode, vch, pc')"
      and t: "eval_step lib env opcode vch pc' s = Inr t" "eval_loop lib env pc' t = Inr s'"
      using "1.prems" by (subst (asm) eval_loop.simps) (auto split: option.splits sum.splits)
    have "eval_reach lib env (pc', t) ([], s')" using "1.IH" [OF False i refl refl t(1)] t(2) by blast
    moreover have "eval_reach lib env (pc, s) (pc', t)"
      by (rule eval_reach.step [OF eval_reach.start i t(1)])
    ultimately show ?thesis by (rule eval_reach_trans)
  qed
qed

definition eval_init :: "vstack \<Rightarrow> CScript \<Rightarrow> sig_cache \<Rightarrow> eval_state" where
  "eval_init st script c =
     \<lparr> stack = st, altstack = [], vfExec = [], nOpCount = 0, pbegincodehash = script, cache = c \<rparr>"

lemma EvalScript_reach:
  assumes "fst (EvalScript lib env st script c) = Some st'"
  obtains s where "eval_reach lib env (script, eval_init st script c) ([], s)" and "st' = stack s" and "vfExec s = []"
  using assms eval_loop_reach [of lib env script "eval_init st script c"]
  by (auto simp: EvalScript_def eval_init_def split: if_splits sum.splits)

text \<open>
  C28. The resource limits hold in every state the interpreter reaches, not only at its end: with a
  start stack within the limits, main and alternative stack together hold at most 1000 elements, no
  element is longer than 520 bytes, and at most 201 operations, counting each key of a multi-signature
  check, have been executed. The stack an evaluation returns is within the limits again, so the
  evaluations of one \<^verbatim>\<open>VerifyScript\<close> can be chained.
\<close>

theorem interpreter_limits:
  assumes "mpi_format lib" and "small_elems st" and "length st \<le> 1000"
  shows "(eval_reach lib env (script, eval_init st script c) (pc, s) \<longrightarrow>
      length (stack s) + length (altstack s) \<le> 1000 \<and> nOpCount s \<le> 201 \<and>
      small_elems (stack s) \<and> small_elems (altstack s)) \<and>
    (fst (EvalScript lib env st script c) = Some st' \<longrightarrow> small_elems st' \<and> length st' \<le> 1000)"
proof -
  have init: "limits (snd (script, eval_init st script c))" using assms by (simp add: eval_init_def limits_def)
  have reach: "limits s" if "eval_reach lib env (script, eval_init st script c) (pc, s)" for pc s
    using eval_reach_limits [OF assms(1) that init] by simp
  then show ?thesis by (auto simp: limits_def elim!: EvalScript_reach) (metis add_leD1)
qed

theorem interpreter_limits_witness:
  "fst (EvalScript demo_lib demo_env [] [2, 5, 6, 0x76] no_cache) = Some [[5, 6], [5, 6]] \<and>
   small_elems [[5, 6], [5, 6 :: byte]] \<and> nOpCount (eval_init [] [2, 5, 6, 0x76] no_cache) \<le> 201"
proof -
  have "fst (EvalScript demo_lib demo_env [] [2, 5, 6, 0x76] no_cache) = Some [[5, 6], [5, 6]]"
    by (simp add: EvalScript_def eval_loop.simps GetOp2_def push_size_def eval_step_def Let_def disabled_def
        exec_op_def lift_stack_def op_stack_def)
  then show ?thesis
    using interpreter_limits [OF demo_lib_format, of "[]" demo_env "[2, 5, 6, 0x76]" no_cache
        "[2, 5, 6, 0x76]" "eval_init [] [2, 5, 6, 0x76] no_cache"] eval_reach.start by fastforce
qed

section \<open>Scripts that always fail\<close>

text \<open>The instructions of a script, and whether the reader gets to its end.\<close>

function instrs :: "bytes \<Rightarrow> (nat \<times> bytes) list" where
  "instrs pc = (case GetOp2 pc of None \<Rightarrow> [] | Some (opcode, vch, pc') \<Rightarrow> (opcode, vch) # instrs pc')"
  by pat_completeness auto
termination
  by (relation "measure length") (auto dest: GetOp2_shorter)

function readable :: "bytes \<Rightarrow> bool" where
  "readable pc = (pc = [] \<or> (case GetOp2 pc of None \<Rightarrow> False | Some (opcode, vch, pc') \<Rightarrow> readable pc'))"
  by pat_completeness auto
termination
  by (relation "measure length") (auto dest: GetOp2_shorter)

declare instrs.simps [simp del] readable.simps [simp del]

lemma exec_control_ops: "exec_control opcode fExec s = Inr s' \<Longrightarrow> nOpCount s' = nOpCount s"
  by (auto simp: exec_control_def lift_stack_Inr split: if_splits option.splits)

lemma op_checkmultisig_ops: "op_checkmultisig lib env opcode code n c st = Inr (st', n', c') \<Longrightarrow> n \<le> n'"
  by (auto simp: op_checkmultisig_alt split: option.splits prod.splits if_splits)

lemma exec_op_ops:
  assumes "exec_op lib env opcode fExec pc s = Inr s'"
  shows "nOpCount s \<le> nOpCount s'"
proof -
  let ?P = "\<lambda>s'. nOpCount s \<le> nOpCount s'"
  have lift: "keeps ?P (lift_stack s r)" for r by (simp add: lift_stack_def split: option.split)
  have ctl: "keeps ?P (exec_control opcode fExec s)" using exec_control_ops by (fastforce simp: keeps_def)
  have alt: "keeps ?P (case r of None \<Rightarrow> Inl (cache s) | Some (st, alt) \<Rightarrow> Inr (s\<lparr> stack := st, altstack := alt \<rparr>))" for r
    by (simp split: option.split prod.split)
  have sig: "keeps ?P (case r of Inl c \<Rightarrow> Inl c | Inr (st, c) \<Rightarrow> Inr (s\<lparr> stack := st, cache := c \<rparr>))" for r
    by (simp split: sum.split prod.split)
  have msig: "keeps ?P (case op_checkmultisig lib env opcode code (nOpCount s) c st of
      Inl c \<Rightarrow> Inl c | Inr (st, n, c) \<Rightarrow> Inr (s\<lparr> stack := st, nOpCount := n, cache := c \<rparr>))" for code c st
    using op_checkmultisig_ops by (fastforce split: sum.split)
  have rest: "keeps ?P (Inr (s\<lparr> stack := st \<rparr>))" "keeps ?P (Inr s)" "keeps ?P (Inr (s\<lparr> pbegincodehash := pc \<rparr>))"
    "keeps ?P (Inl (cache s))" for st
    by simp_all
  have "keeps ?P (exec_op lib env opcode fExec pc s)"
    unfolding exec_op_def by (intro keeps_if lift ctl alt sig msig rest)
  then show ?thesis using assms by (simp add: keeps_def)
qed

lemma eval_step_ops:
  assumes "eval_step lib env opcode vch pc s = Inr s'"
  shows "\<not> disabled opcode \<and> length vch \<le> 520 \<and> nOpCount s + (if opcode > OP_16 then 1 else 0) \<le> nOpCount s'"
  using assms exec_op_ops
  by (fastforce simp: eval_step_def Let_def split: if_splits sum.splits)

definition counted_ops :: "(nat \<times> bytes) list \<Rightarrow> nat" where
  "counted_ops is = length (filter (\<lambda>(opcode, vch). opcode > OP_16) is)"

lemma eval_loop_instrs:
  assumes "eval_loop lib env pc s = Inr s'"
  shows "readable pc \<and> list_all (\<lambda>(opcode, vch). \<not> disabled opcode \<and> length vch \<le> 520) (instrs pc) \<and>
    nOpCount s + counted_ops (instrs pc) \<le> nOpCount s'"
  using assms
proof (induction lib env pc s rule: eval_loop.induct)
  case (1 lib env pc s)
  show ?case
  proof (cases "pc = []")
    case True
    then show ?thesis using "1.prems"
      by (simp add: eval_loop.simps readable.simps instrs.simps GetOp2_def counted_ops_def)
  next
    case False
    then obtain opcode vch pc' t where i: "GetOp2 pc = Some (opcode, vch, pc')"
      and t: "eval_step lib env opcode vch pc' s = Inr t" "eval_loop lib env pc' t = Inr s'"
      using "1.prems" by (subst (asm) eval_loop.simps) (auto split: option.splits sum.splits)
    have "readable pc' \<and> list_all (\<lambda>(opcode, vch). \<not> disabled opcode \<and> length vch \<le> 520) (instrs pc') \<and>
        nOpCount t + counted_ops (instrs pc') \<le> nOpCount s'"
      using "1.IH" [OF False i refl refl t(1)] t(2) by blast
    moreover have "readable pc = readable pc'" using i False by (subst readable.simps) simp
    moreover have "instrs pc = (opcode, vch) # instrs pc'" using i by (subst instrs.simps) simp
    ultimately show ?thesis using eval_step_ops [OF t(1)] by (auto simp: counted_ops_def split: if_splits)
  qed
qed

text \<open>
  Conditionals cannot hide an offending instruction. Whatever the stack, the cache and the
  branches taken, a script is rejected when it is longer than 10000 bytes, when an instruction is cut
  off at its end, when any of its instructions is a disabled opcode or pushes more than 520 bytes, or
  when it holds more than 201 instructions above \<^verbatim>\<open>OP_16\<close>.
\<close>

theorem EvalScript_rejects:
  assumes "mpi_format lib" and "small_elems st" and "length st \<le> 1000"
    and "length script > 10000 \<or> \<not> readable script \<or>
      list_ex (\<lambda>(opcode, vch). disabled opcode \<or> length vch > 520) (instrs script) \<or>
      counted_ops (instrs script) > 201"
  shows "fst (EvalScript lib env st script c) = None"
proof (rule ccontr)
  assume ok: "fst (EvalScript lib env st script c) \<noteq> None"
  then obtain s where len: "length script \<le> 10000" and s: "eval_loop lib env script (eval_init st script c) = Inr s"
    by (auto simp: EvalScript_def eval_init_def split: if_splits sum.splits)
  have "limits s"
    using eval_reach_limits [OF assms(1) eval_loop_reach [OF s]] assms(2,3) by (simp add: eval_init_def limits_def)
  then have "counted_ops (instrs script) \<le> 201"
    using eval_loop_instrs [OF s] by (simp add: eval_init_def limits_def)
  then show False using eval_loop_instrs [OF s] assms(4) len by (auto simp: list_all_iff list_ex_iff)
qed

text \<open>A disabled \<^verbatim>\<open>OP_CAT\<close> in the branch of an \<^verbatim>\<open>OP_IF\<close> that is not taken.\<close>

theorem EvalScript_rejects_witness:
  "fst (EvalScript demo_lib demo_env [] [0, 0x63, 0x7e, 0x68, 0x51] no_cache) = None"
proof -
  have "list_ex (\<lambda>(opcode, vch). disabled opcode \<or> length vch > 520) (instrs [0, 0x63, 0x7e, 0x68, 0x51])"
    by (simp add: instrs.simps GetOp2_def push_size_def Let_def disabled_def)
  then show ?thesis using EvalScript_rejects [OF demo_lib_format, of "[]"] by simp
qed

end
