(* ===== verification/ScriptForms.thy ===== *)
theory ScriptForms
  imports InterpProps
begin

text \<open>
  What the standard output scripts accept: pay to public key hash, pay to script hash, and the
  matching of signatures to keys in a multi-signature check.
\<close>

section \<open>Evaluating instruction by instruction\<close>

lemma eval_loop_push:
  assumes "length b \<le> 520" and "False \<notin> set (vfExec s)" and "length (stack s) + length (altstack s) < 1000"
  shows "eval_loop lib env (push_vch b [] @ pc) s = eval_loop lib env pc (s\<lparr> stack := b # stack s \<rparr>)"
proof -
  have "GetOp2 (push_vch b [] @ pc) = Some (push_op b, b, pc)" using assms(1) by (simp add: GetOp2_push_vch)
  moreover have "push_vch b [] \<noteq> []" by (simp add: push_vch_def)
  moreover have "eval_step lib env (push_op b) b pc s = Inr (s\<lparr> stack := b # stack s \<rparr>)"
    using assms push_op_le [of b] by (simp add: eval_step_def disabled_def)
  ultimately show ?thesis by (subst eval_loop.simps) simp
qed

lemma eval_loop_Nil [simp]: "eval_loop lib env [] s = Inr s"
  by (simp add: eval_loop.simps)

lemma eval_loop_op:
  assumes "OP_16 < op" and "op < 256" and "\<not> disabled op" and "nOpCount s < 201" and "False \<notin> set (vfExec s)"
    and "exec_op lib env op True pc (s\<lparr> nOpCount := Suc (nOpCount s) \<rparr>) = Inr s'"
    and "length (stack s') + length (altstack s') \<le> 1000"
  shows "eval_loop lib env (of_nat op # pc) s = eval_loop lib env pc s'"
proof -
  have "GetOp2 (of_nat op # pc) = Some (op, [], pc)" using assms(1,2) by (intro GetOp2_opcode) simp_all
  moreover have "eval_step lib env op [] pc s = Inr s'" using assms by (simp add: eval_step_def Let_def)
  ultimately show ?thesis by (subst eval_loop.simps) simp
qed

lemma eval_loop_op_fail:
  assumes "OP_16 < op" and "op < 256" and "False \<notin> set (vfExec s)"
    and "exec_op lib env op True pc (s\<lparr> nOpCount := Suc (nOpCount s) \<rparr>) = Inl c"
  shows "\<exists>c'. eval_loop lib env (of_nat op # pc) s = Inl c'"
proof -
  have "GetOp2 (of_nat op # pc) = Some (op, [], pc)" using assms(1,2) by (intro GetOp2_opcode) simp_all
  moreover have "\<exists>c'. eval_step lib env op [] pc s = Inl c'" using assms by (simp add: eval_step_def Let_def)
  ultimately show ?thesis by (subst eval_loop.simps) auto
qed

lemma eval_loop_push_full:
  assumes "length b \<le> 520" and "False \<notin> set (vfExec s)" and "length (stack s) + length (altstack s) \<ge> 1000"
  shows "\<exists>c. eval_loop lib env (push_vch b [] @ pc) s = Inl c"
proof -
  have "GetOp2 (push_vch b [] @ pc) = Some (push_op b, b, pc)" using assms(1) by (simp add: GetOp2_push_vch)
  moreover have "push_vch b [] \<noteq> []" by (simp add: push_vch_def)
  moreover have "eval_step lib env (push_op b) b pc s = Inl (cache s)"
    using assms push_op_le [of b] by (simp add: eval_step_def disabled_def)
  ultimately show ?thesis by (subst eval_loop.simps) simp
qed

lemma eval_loop_op_full:
  assumes "OP_16 < op" and "op < 256" and "False \<notin> set (vfExec s)"
    and "exec_op lib env op True pc (s\<lparr> nOpCount := Suc (nOpCount s) \<rparr>) = Inr s'"
    and "length (stack s') + length (altstack s') > 1000"
  shows "\<exists>c. eval_loop lib env (of_nat op # pc) s = Inl c"
proof -
  have "GetOp2 (of_nat op # pc) = Some (op, [], pc)" using assms(1,2) by (intro GetOp2_opcode) simp_all
  moreover have "\<exists>c. eval_step lib env op [] pc s = Inl c" using assms by (simp add: eval_step_def Let_def)
  ultimately show ?thesis by (subst eval_loop.simps) auto
qed

lemma push_uint160_eq: "push_uint160 h s = s @ push_vch (image160 h) []"
  by (simp add: push_uint160_def push_vch_def)

lemma Eval_pushes:
  assumes "length sig \<le> 520" and "length key \<le> 520"
  shows "Eval lib env [] (push_vch key (push_vch sig [])) = Some [key, sig]"
proof -
  have len: "length (push_vch key (push_vch sig [])) \<le> 10000"
    using assms by (simp add: push_vch_def)
  have "push_vch key (push_vch sig []) = push_vch sig [] @ push_vch key [] @ []"
    by (subst push_vch_append) simp
  then show ?thesis using len assms
    by (simp add: Eval_def EvalScript_def eval_loop_push del: append_Nil2)
qed

section \<open>Pay to public key hash\<close>

definition p2pkh :: "uint160 \<Rightarrow> CScript" where
  "p2pkh h = of_nat OP_DUP # of_nat OP_HASH160 # push_vch (image160 h) [] @ [of_nat OP_EQUALVERIFY, of_nat OP_CHECKSIG]"

lemma SetBitcoinAddress_p2pkh:
  assumes "GetHash160 address = Some h" and "\<not> IsScript fTestNet address"
  shows "SetBitcoinAddress fTestNet address = Some (p2pkh h)"
  using assms by (simp add: SetBitcoinAddress_def push_opcode_def push_uint160_eq p2pkh_def)

lemma p2pkh_length: "length (p2pkh h) = 25"
  by (simp add: p2pkh_def push_vch_def)

lemma p2pkh_not_p2sh: "\<not> IsPayToScriptHash (p2pkh h)"
  by (simp add: IsPayToScriptHash_def p2pkh_length)

lemma bytes_word_bytes160: "bytes_word (image160 h) = h"
  by (rule bytes_word_bytes) simp

lemma image160_inj [simp]: "image160 a = image160 b \<longleftrightarrow> a = b"
  by (metis bytes_word_bytes160)

lemma eval_loop_CHECKSIG:
  assumes "False \<notin> set (vfExec s)" and "nOpCount s < 201" and "stack s = key # sig # r"
    and "length (stack s) + length (altstack s) \<le> 1000" and "cache_sound lib (cache s)"
  shows "\<exists>c. eval_loop lib env [of_nat OP_CHECKSIG] s =
    (case CheckSig_spec lib env sig key (snd (FindAndDelete (push_vch sig []) (pbegincodehash s))) of
       None \<Rightarrow> Inl c
     | Some ok \<Rightarrow> Inr (s\<lparr> stack := bool_vch ok # r, nOpCount := Suc (nOpCount s), cache := c \<rparr>))"
proof -
  obtain b c where c: "CheckSig lib env (cache s) sig key (snd (FindAndDelete (push_vch sig []) (pbegincodehash s))) = (b, c)"
    by fastforce
  have b: "CheckSig_spec lib env sig key (snd (FindAndDelete (push_vch sig []) (pbegincodehash s))) = b"
    using CheckSig_eq(1) [OF assms(5), of env sig key] c by (metis fst_conv)
  let ?t = "s\<lparr> nOpCount := Suc (nOpCount s) \<rparr>"
  show ?thesis
  proof (cases b)
    case None
    then have "exec_op lib env OP_CHECKSIG True [] ?t = Inl c"
      using c assms(3) by (simp add: exec_op_def op_checksig_def)
    then show ?thesis using eval_loop_op_fail [of OP_CHECKSIG s lib env "[]" c] assms(1) b None by simp
  next
    case (Some ok)
    then have "exec_op lib env OP_CHECKSIG True [] ?t = Inr (?t\<lparr> stack := bool_vch ok # r, cache := c \<rparr>)"
      using c assms(3) by (simp add: exec_op_def op_checksig_def)
    then have "eval_loop lib env [of_nat OP_CHECKSIG] s = Inr (?t\<lparr> stack := bool_vch ok # r, cache := c \<rparr>)"
      using eval_loop_op [of OP_CHECKSIG s lib env "[]"] assms by (simp add: disabled_def)
    then show ?thesis using b Some by (intro exI [of _ c]) simp
  qed
qed

lemma Eval_p2pkh:
  assumes "length sig \<le> 520" and "length key \<le> 520"
  shows "truthy (Eval lib env [key, sig] (p2pkh h)) \<longleftrightarrow>
    Hash160 lib key = h \<and> CheckSig_spec lib env sig key (snd (FindAndDelete (push_vch sig []) (p2pkh h))) = Some True"
proof -
  define code where "code = p2pkh h"
  let ?s = "\<lambda>st n. \<lparr> stack = st, altstack = [], vfExec = [], nOpCount = n, pbegincodehash = code, cache = no_cache \<rparr>"
  let ?tail = "[of_nat OP_EQUALVERIFY, of_nat OP_CHECKSIG] :: bytes"
  let ?img = "image160 (Hash160 lib key)"
  have dup: "eval_loop lib env code (?s [key, sig] 0) =
      eval_loop lib env (of_nat OP_HASH160 # push_vch (image160 h) [] @ ?tail) (?s [key, key, sig] 1)"
    unfolding code_def p2pkh_def
    by (rule eval_loop_op) (simp_all add: disabled_def exec_op_def lift_stack_def op_stack_def)
  have hash: "\<dots> = eval_loop lib env (push_vch (image160 h) [] @ ?tail) (?s [?img, key, sig] 2)"
    by (rule eval_loop_op) (simp_all add: disabled_def exec_op_def lift_stack_def op_digest_def)
  have push: "\<dots> = eval_loop lib env ?tail (?s [image160 h, ?img, key, sig] 2)"
    by (subst eval_loop_push) simp_all
  show ?thesis
  proof (cases "Hash160 lib key = h")
    case False
    then have "exec_op lib env OP_EQUALVERIFY True [of_nat OP_CHECKSIG]
        ((?s [image160 h, ?img, key, sig] 2)\<lparr> nOpCount := Suc 2 \<rparr>) = Inl no_cache"
      by (simp add: exec_op_def lift_stack_def op_bitlogic_def)
    then have "\<exists>c'. eval_loop lib env ?tail (?s [image160 h, ?img, key, sig] 2) = Inl c'"
      using eval_loop_op_fail [of OP_EQUALVERIFY "?s [image160 h, ?img, key, sig] 2" lib env "[of_nat OP_CHECKSIG]" no_cache]
      by simp
    then have "Eval lib env [key, sig] (p2pkh h) = None"
      using dup hash push by (auto simp: Eval_def EvalScript_def code_def p2pkh_length)
    then show ?thesis using False by (simp add: truthy_def)
  next
    case True
    have "eval_loop lib env ?tail (?s [image160 h, ?img, key, sig] 2) =
        eval_loop lib env [of_nat OP_CHECKSIG] (?s [key, sig] 3)"
      by (rule eval_loop_op) (simp_all add: True disabled_def exec_op_def lift_stack_def op_bitlogic_def)
    moreover obtain c where "eval_loop lib env [of_nat OP_CHECKSIG] (?s [key, sig] 3) =
        (case CheckSig_spec lib env sig key (snd (FindAndDelete (push_vch sig []) code)) of
           None \<Rightarrow> Inl c | Some ok \<Rightarrow> Inr ((?s [bool_vch ok] 4)\<lparr> cache := c \<rparr>))"
      using eval_loop_CHECKSIG [of "?s [key, sig] 3" key sig "[]" lib env]
      by (auto cong: option.case_cong)
    ultimately have "eval_loop lib env code (?s [key, sig] 0) = 
        (case CheckSig_spec lib env sig key (snd (FindAndDelete (push_vch sig []) code)) of
           None \<Rightarrow> Inl c | Some ok \<Rightarrow> Inr ((?s [bool_vch ok] 4)\<lparr> cache := c \<rparr>))"
      using dup hash push by metis
    then have "Eval lib env [key, sig] (p2pkh h) =
        map_option (\<lambda>ok. [bool_vch ok]) (CheckSig_spec lib env sig key (snd (FindAndDelete (push_vch sig []) (p2pkh h))))"
      by (simp add: Eval_def EvalScript_def code_def p2pkh_length split: option.split)
    then show ?thesis using True by (auto simp: truthy_def split: option.split)
  qed
qed

text \<open>
  A coin sent to a key address is spent by a signature and a key exactly when the key hashes to
  the address and the signature, checked against the output script without the signature itself,
  verifies under that key; any cache that holds only signatures that verify gives the same answer.
\<close>

theorem pay_to_address:
  assumes "GetHash160 address = Some h" and "\<not> IsScript fTestNet address"
    and "SetBitcoinAddress fTestNet address = Some spk"
    and "length sig \<le> 520" and "length key \<le> 520" and "cache_sound lib c"
  shows "fst (VerifyScript lib env (push_vch key (push_vch sig [])) spk c) \<longleftrightarrow>
    Hash160 lib key = h \<and>
    CheckSig_spec lib env sig key (snd (FindAndDelete (push_vch sig []) spk)) = Some True"
proof -
  have spk: "spk = p2pkh h" using SetBitcoinAddress_p2pkh [OF assms(1,2)] assms(3) by simp
  have "fst (VerifyScript lib env (push_vch key (push_vch sig [])) spk c) =
      Verify_spec lib env (push_vch key (push_vch sig [])) spk"
    using VerifyScript_eq [OF assms(6)] by blast
  also have "\<dots> = truthy (Eval lib env [key, sig] (p2pkh h))"
    using Eval_pushes [OF assms(4,5), of lib env] p2pkh_not_p2sh by (simp add: Verify_spec_def spk)
  finally show ?thesis using Eval_p2pkh [OF assms(4,5)] spk by simp
qed

lemma sighash_tx_version: "sighash_tx code tx nIn ht = Some t \<Longrightarrow> tx_nVersion t = tx_nVersion tx"
  by (auto simp: sighash_tx_def Let_def split: if_splits)

lemma SignatureHash_Some:
  assumes "valid_version (tx_nVersion tx)"
  shows "\<exists>h. SignatureHash lib code tx nIn ht = Some h"
proof (cases "sighash_tx code tx nIn ht")
  case None
  then show ?thesis by (simp add: SignatureHash_def)
next
  case (Some t)
  then show ?thesis
    using assms sighash_tx_version [OF Some] by (simp add: SignatureHash_def Serialize_CTransaction_def)
qed

lemma demo_key_facts: "GetHash160 (SetHash160 False 32) = Some 32" "\<not> IsScript False (SetHash160 False 32)"
  by (simp_all add: SetHash160_def SetData_def GetHash160_def IsScript_def Address_IsValid_def address_versions bytes_word_bytes160)

theorem pay_to_address_witness:
  "fst (VerifyScript demo_lib demo_env (push_vch [9] (push_vch [9, 1] [])) (p2pkh 32) demo_cache) \<and>
   \<not> fst (VerifyScript demo_lib demo_env (push_vch [8] (push_vch [9, 1] [])) (p2pkh 32) demo_cache)"
proof -
  note pay = pay_to_address [OF demo_key_facts SetBitcoinAddress_p2pkh [OF demo_key_facts] _ _ demo_cache_sound]
  have ok: "\<exists>h. SignatureHash demo_lib code demo_tx nIn ht = Some h" for code nIn ht
    by (rule SignatureHash_Some) (simp add: demo_tx_def valid_version_def tx_types)
  have "CheckSig_spec demo_lib demo_env [9, 1] k code = Some (k = [9])" if "k = [9] \<or> k = [8]" for k code
    using ok [of code 0 1] that by (auto simp: CheckSig_spec_def demo_env_def demo_lib_def)
  then show ?thesis
    using pay [of "[9, 1]" "[9]" demo_env] pay [of "[9, 1]" "[8]" demo_env] by (simp add: Hash160_def demo_lib_def)
qed

section \<open>Pay to script hash\<close>

definition p2sh :: "uint160 \<Rightarrow> CScript" where
  "p2sh h = of_nat OP_HASH160 # push_vch (image160 h) [] @ [of_nat OP_EQUAL]"

lemma SetPayToScriptHash_p2sh: "script \<noteq> [] \<Longrightarrow> SetPayToScriptHash lib script = Some (p2sh (Hash160 lib script))"
  by (simp add: SetPayToScriptHash_def push_opcode_def push_uint160_eq p2sh_def)

lemma SetBitcoinAddress_p2sh:
  assumes "GetHash160 address = Some h" and "IsScript fTestNet address"
  shows "SetBitcoinAddress fTestNet address = Some (p2sh h)"
  using assms by (simp add: SetBitcoinAddress_def push_opcode_def push_uint160_eq p2sh_def)

lemma p2sh_length: "length (p2sh h) = 23"
  by (simp add: p2sh_def push_vch_def)

lemma p2sh_bytes: "p2sh h = [of_nat OP_HASH160, 20] @ image160 h @ [of_nat OP_EQUAL]"
  by (simp add: p2sh_def push_vch_def)

lemma p2sh_IsPayToScriptHash: "IsPayToScriptHash (p2sh h)"
  by (simp add: IsPayToScriptHash_def p2sh_bytes nth_append)

lemma Eval_p2sh:
  assumes "length (redeem # r) < 1000"
  shows "Eval lib env (redeem # r) (p2sh h) = Some (bool_vch (Hash160 lib redeem = h) # r)"
proof -
  define code where "code = p2sh h"
  let ?s = "\<lambda>st n. \<lparr> stack = st, altstack = [], vfExec = [], nOpCount = n, pbegincodehash = code, cache = no_cache \<rparr>"
  let ?img = "image160 (Hash160 lib redeem)"
  have "eval_loop lib env code (?s (redeem # r) 0) =
      eval_loop lib env (push_vch (image160 h) [] @ [of_nat OP_EQUAL]) (?s (?img # r) 1)"
    unfolding code_def p2sh_def
    by (rule eval_loop_op) (use assms in \<open>simp_all add: disabled_def exec_op_def lift_stack_def op_digest_def\<close>)
  also have "\<dots> = eval_loop lib env [of_nat OP_EQUAL] (?s (image160 h # ?img # r) 1)"
    by (subst eval_loop_push) (use assms in simp_all)
  also have "\<dots> = eval_loop lib env [] (?s (bool_vch (Hash160 lib redeem = h) # r) 2)"
    by (rule eval_loop_op) (use assms in \<open>simp_all add: disabled_def exec_op_def lift_stack_def op_bitlogic_def\<close>)
  finally show ?thesis by (simp add: Eval_def EvalScript_def code_def p2sh_length)
qed

lemma Eval_p2sh_empty: "Eval lib env [] (p2sh h) = None"
proof -
  let ?s = "\<lparr> stack = [], altstack = [], vfExec = [], nOpCount = 0, pbegincodehash = p2sh h, cache = no_cache \<rparr>"
  have "exec_op lib env OP_HASH160 True (push_vch (image160 h) [] @ [of_nat OP_EQUAL]) (?s\<lparr> nOpCount := Suc 0 \<rparr>) = Inl no_cache"
    by (simp add: exec_op_def lift_stack_def op_digest_def)
  then have "\<exists>c. eval_loop lib env (p2sh h) ?s = Inl c"
    using eval_loop_op_fail [of OP_HASH160 ?s lib env "push_vch (image160 h) [] @ [of_nat OP_EQUAL]" no_cache]
    by (simp add: p2sh_def)
  then show ?thesis by (auto simp: Eval_def EvalScript_def p2sh_length)
qed

lemma Eval_p2sh_full:
  assumes "length (redeem # r) \<ge> 1000"
  shows "Eval lib env (redeem # r) (p2sh h) = None"
proof -
  let ?s = "\<lambda>st n. \<lparr> stack = st, altstack = [], vfExec = [], nOpCount = n, pbegincodehash = p2sh h, cache = no_cache \<rparr>"
  let ?pc = "push_vch (image160 h) [] @ [of_nat OP_EQUAL]" and ?st = "image160 (Hash160 lib redeem) # r"
  have exec: "exec_op lib env OP_HASH160 True ?pc ((?s (redeem # r) 0)\<lparr> nOpCount := Suc 0 \<rparr>) = Inr (?s ?st 1)"
    by (simp add: exec_op_def lift_stack_def op_digest_def)
  have "\<exists>c. eval_loop lib env (of_nat OP_HASH160 # ?pc) (?s (redeem # r) 0) = Inl c"
  proof (cases "length ?st > 1000")
    case True
    then show ?thesis using exec by (intro eval_loop_op_full [where s' = "?s ?st 1"]) simp_all
  next
    case False
    then have "eval_loop lib env (of_nat OP_HASH160 # ?pc) (?s (redeem # r) 0) = eval_loop lib env ?pc (?s ?st 1)"
      using exec by (intro eval_loop_op [where s' = "?s ?st 1"]) (simp_all add: disabled_def)
    moreover have "\<exists>c. eval_loop lib env ?pc (?s ?st 1) = Inl c"
      by (rule eval_loop_push_full) (use assms in simp_all)
    ultimately show ?thesis by simp
  qed
  then show ?thesis unfolding p2sh_def [symmetric] by (auto simp: Eval_def EvalScript_def p2sh_length)
qed

text \<open>
  A coin sent to a script hash is spent exactly when the unlocking script consists of pushes
  only, leaves a script on top of the stack that hashes to the committed value, with at most 998
  arguments below it, and that script accepts those arguments.
\<close>

theorem pay_to_script_hash:
  assumes "cache_sound lib c"
  shows "fst (VerifyScript lib env sig (p2sh h) c) \<longleftrightarrow>
    IsPushOnly sig \<and>
    (\<exists>redeem args. fst (EvalScript lib env [] sig c) = Some (redeem # args) \<and> length args \<le> 998 \<and>
       Hash160 lib redeem = h \<and> truthy (fst (EvalScript lib env args redeem c)))"
proof -
  have ev: "fst (EvalScript lib env st script c) = Eval lib env st script" for st script
    using EvalScript_cache(1) [OF assms no_cache_sound] by (simp add: Eval_def)
  have verify: "fst (VerifyScript lib env sig (p2sh h) c) = Verify_spec lib env sig (p2sh h)"
    using VerifyScript_eq [OF assms] by blast
  show ?thesis
  proof (cases "\<exists>redeem args. Eval lib env [] sig = Some (redeem # args)")
    case False
    then show ?thesis using verify ev Eval_p2sh_empty [of lib env h]
      by (auto simp: Verify_spec_def truthy_def split: option.splits list.splits)
  next
    case True
    then obtain redeem args where r: "Eval lib env [] sig = Some (redeem # args)" by blast
    show ?thesis
    proof (cases "length args \<le> 998")
      case True
      then show ?thesis using verify ev r p2sh_IsPayToScriptHash [of h] Eval_p2sh [of redeem args lib env h]
        by (auto simp: Verify_spec_def truthy_def)
    next
      case False
      then show ?thesis using verify ev r Eval_p2sh_full [of redeem args lib env h]
        by (auto simp: Verify_spec_def truthy_def)
    qed
  qed
qed

theorem pay_to_script_hash_witness:
  "fst (VerifyScript demo_lib demo_env [1, 0x51] (p2sh 32) demo_cache) \<and>
   \<not> fst (VerifyScript demo_lib demo_env [1, 0x51] (p2sh 33) demo_cache)"
proof -
  have sig: "fst (EvalScript demo_lib demo_env [] [1, 0x51] demo_cache) = Some [[0x51]]"
    by (simp add: EvalScript_def eval_loop.simps GetOp2_def push_size_def eval_step_def Let_def disabled_def)
  have push: "IsPushOnly [1, 0x51]"
    by (simp add: IsPushOnly.simps GetOp2_def push_size_def Let_def)
  have "fst (EvalScript demo_lib demo_env [] [0x51] demo_cache) = Some [getvch demo_lib 1]"
    by (simp add: EvalScript_def eval_loop.simps GetOp2_def push_size_def eval_step_def Let_def disabled_def
        exec_op_def op_push_value_def)
  moreover have "CastToBool (getvch demo_lib 1)"
    using CastToBool_setvch [OF demo_lib_format, of "getvch demo_lib 1"] getvch_length [OF demo_lib_format, of 1 1]
      setvch_getvch_eq [OF demo_lib_format, of 1] by simp
  ultimately have "truthy (fst (EvalScript demo_lib demo_env [] [0x51] demo_cache))" by (simp add: truthy_def)
  moreover have "Hash160 demo_lib [0x51] = 32" by (simp add: Hash160_def demo_lib_def)
  ultimately show ?thesis
    using pay_to_script_hash [OF demo_cache_sound, of demo_env "[1, 0x51]"] sig push by simp
qed

section \<open>Matching signatures to keys\<close>

text \<open>
  The greedy loop finds a match exactly when the signatures embed, in order, into the keys:
  \<^const>\<open>list_emb\<close> asks for increasing positions of keys under which the signatures verify.
\<close>

lemma multisig_spec_emb:
  assumes "\<And>s k. chk s k = Some (ok s k)" and "length sigs \<le> length keys"
  shows "multisig_spec chk sigs keys = Some (list_emb ok sigs keys)"
  using assms
proof (induction chk sigs keys rule: multisig_spec.induct)
  case (3 chk sig sigs key keys)
  let ?sigs = "if ok sig key then sigs else sig # sigs"
  have emb: "list_emb ok (sig # sigs) (key # keys) = list_emb ok ?sigs keys" by simp
  show ?case
  proof (cases "length ?sigs > length keys")
    case True
    then have "\<not> list_emb ok ?sigs keys" using list_emb_length by fastforce
    then show ?thesis using "3.prems"(1) [of sig key] True emb by (simp only: multisig_spec.simps Let_def) simp
  next
    case False
    then have "multisig_spec chk ?sigs keys = Some (list_emb ok ?sigs keys)"
      using "3.IH" [OF "3.prems"(1) refl _ "3.prems"(1)] by simp
    then show ?thesis using "3.prems"(1) [of sig key] False emb by (simp only: multisig_spec.simps Let_def) simp
  qed
qed simp_all

lemma list_emb_snoc: "list_emb P xs ys \<Longrightarrow> P x y \<Longrightarrow> list_emb P (xs @ [x]) (ys @ [y])"
  by (intro list_emb_append_mono) auto

lemma list_emb_rev1: "list_emb P xs ys \<Longrightarrow> list_emb P (rev xs) (rev ys)"
  by (induction rule: list_emb.induct) (auto intro: list_emb_snoc list_emb_append2)

lemma list_emb_rev [simp]: "list_emb P (rev xs) (rev ys) = list_emb P xs ys"
  using list_emb_rev1 by (metis rev_rev_ident)

definition sig_ok :: "'a openssl_scheme \<Rightarrow> sig_env \<Rightarrow> CScript \<Rightarrow> bytes \<Rightarrow> bytes \<Rightarrow> bool" where
  "sig_ok lib env code sig key = (CheckSig_spec lib env sig key code = Some True)"

lemma CheckSig_spec_total:
  assumes "valid_version (tx_nVersion (env_tx env))"
  shows "CheckSig_spec lib env sig key code = Some (sig_ok lib env code sig key)"
  using SignatureHash_Some [OF assms, of lib code "env_nIn env" "ucast (last sig)"]
  by (auto simp: CheckSig_spec_def sig_ok_def)

lemma op_checkmultisig_emb:
  assumes "cache_sound lib c" and "valid_version (tx_nVersion (env_tx env))"
    and "multisig_args lib n st = Some (k, m)"
  obtains c' where "op_checkmultisig lib env OP_CHECKMULTISIG code n c st =
    Inr (bool_vch (list_emb (sig_ok lib env (multisig_code k m code st)) (take m (drop (2 + k) st)) (take k (drop 1 st)))
           # drop (3 + k + m) st, n + k, c')"
proof -
  have km: "m \<le> k" "length st \<ge> 3 + k + m"
    using assms(3) by (auto simp: multisig_args_def split: option.splits if_splits)
  let ?sigs = "take m (drop (2 + k) st)" and ?keys = "take k (drop 1 st)" and ?code = "multisig_code k m code st"
  obtain b c' where r: "multisig_loop lib env ?code c ?sigs ?keys = (b, c')" by fastforce
  have "multisig_spec (\<lambda>sig key. CheckSig_spec lib env sig key ?code) ?sigs ?keys =
      Some (list_emb (sig_ok lib env ?code) ?sigs ?keys)"
    using km by (intro multisig_spec_emb CheckSig_spec_total [OF assms(2)]) simp
  then have "b = Some (list_emb (sig_ok lib env ?code) ?sigs ?keys)"
    using multisig_loop_eq [OF assms(1), of env ?code ?sigs ?keys] r by simp
  then show thesis using r assms(3) that by (simp add: op_checkmultisig_alt)
qed

lemma CastToBigNum_getvch:
  assumes "mpi_format lib" and "n \<le> 16"
  shows "CastToBigNum lib (getvch lib (int n)) = Some (int n)"
proof -
  have "length (getvch lib (int n)) \<le> 1 + 1" using assms(2) by (intro getvch_length [OF assms(1)]) simp
  moreover have "setvch lib (getvch lib (int n)) = int n"
    using calculation by (intro setvch_getvch_eq [OF assms(1)]) simp
  ultimately show ?thesis by (simp add: CastToBigNum_def nMaxNumSize_def)
qed

section \<open>Multi-signature scripts\<close>

abbreviation pushes :: "bytes list \<Rightarrow> bytes" where
  "pushes bs \<equiv> concat (map (\<lambda>b. push_vch b []) bs)"

definition multisig_script :: "nat \<Rightarrow> bytes list \<Rightarrow> CScript" where
  "multisig_script m keys =
     of_nat (OP_1 + m - 1) # pushes keys @ [of_nat (OP_1 + length keys - 1), of_nat OP_CHECKMULTISIG]"

lemma foldl_push_vch: "foldl (\<lambda>s key. push_vch key s) a keys = a @ pushes keys"
proof (induction keys arbitrary: a)
  case (Cons key keys)
  then show ?case using push_vch_append [of key a] by simp
qed simp

lemma SetMultisig_script:
  assumes "1 \<le> m" and "m \<le> length keys" and "length keys \<le> 16"
  shows "SetMultisig m keys = Some (multisig_script m keys)"
proof -
  have "keys \<noteq> []" using assms by auto
  then show ?thesis
    using assms by (simp add: SetMultisig_def EncodeOP_N_def foldl_push_vch push_opcode_def multisig_script_def)
qed

lemma pushes_length: "list_all (\<lambda>b. length b \<le> 520) bs \<Longrightarrow> length (pushes bs) \<le> 523 * length bs"
  by (induction bs) (auto simp: push_vch_def)

lemma eval_loop_pushes:
  assumes "list_all (\<lambda>b. length b \<le> 520) bs" and "False \<notin> set (vfExec s)"
    and "length (stack s) + length (altstack s) + length bs \<le> 1000"
  shows "eval_loop lib env (pushes bs @ pc) s = eval_loop lib env pc (s\<lparr> stack := rev bs @ stack s \<rparr>)"
  using assms
proof (induction bs arbitrary: s)
  case (Cons b bs)
  then have "eval_loop lib env (push_vch b [] @ pushes bs @ pc) s =
      eval_loop lib env (pushes bs @ pc) (s\<lparr> stack := b # stack s \<rparr>)"
    by (intro eval_loop_push) simp_all
  then show ?case using Cons.IH [of "s\<lparr> stack := b # stack s \<rparr>"] Cons.prems by simp
qed simp

lemma eval_loop_small_int:
  assumes "1 \<le> n" and "n \<le> 16" and "False \<notin> set (vfExec s)" and "length (stack s) + length (altstack s) < 1000"
  shows "eval_loop lib env (of_nat (OP_1 + n - 1) # pc) s =
    eval_loop lib env pc (s\<lparr> stack := getvch lib (int n) # stack s \<rparr>)"
proof -
  have "GetOp2 (of_nat (OP_1 + n - 1) # pc) = Some (OP_1 + n - 1, [], pc)"
    using assms(1,2) by (intro GetOp2_opcode) simp_all
  moreover have "eval_step lib env (OP_1 + n - 1) [] pc s = Inr (s\<lparr> stack := getvch lib (int n) # stack s \<rparr>)"
    using assms by (simp add: eval_step_def disabled_def exec_op_def op_push_value_def of_nat_diff)
  ultimately show ?thesis by (subst eval_loop.simps) simp
qed

lemma Eval_pushes_list:
  assumes "list_all (\<lambda>b. length b \<le> 520) bs" and "length bs \<le> 17"
  shows "Eval lib env [] (pushes bs) = Some (rev bs)"
proof -
  have "length (pushes bs) \<le> 10000" using pushes_length [OF assms(1)] assms(2) by simp
  then show ?thesis using eval_loop_pushes [of bs _ lib env "[]"] assms by (simp add: Eval_def EvalScript_def)
qed

lemma getint_small: "n \<le> 16 \<Longrightarrow> getint (int n) = int n"
  by (simp add: getint_def BN_get_word_def Let_def)

lemma multisig_args_small:
  assumes "mpi_format lib" and "m \<le> length keys" and "length keys \<le> 16" and "length sigs = m"
  shows "multisig_args lib 1 (getvch lib (int (length keys)) # rev keys @ getvch lib (int m) # rev sigs @ [d]) =
    Some (length keys, m)"
  using assms CastToBigNum_getvch [OF assms(1)] by (simp add: multisig_args_def getint_small nth_append)

lemma Eval_multisig:
  assumes lib: "mpi_format lib" and ver: "valid_version (tx_nVersion (env_tx env))"
    and m: "1 \<le> m" "m \<le> length keys" "length keys \<le> 16" "length sigs = m"
    and keys: "list_all (\<lambda>b. length b \<le> 520) keys"
  shows "Eval lib env (rev sigs @ [d]) (multisig_script m keys) =
    Some [bool_vch (list_emb (sig_ok lib env (foldl (\<lambda>code sig. snd (FindAndDelete (push_vch sig []) code))
                                                (multisig_script m keys) (rev sigs))) sigs keys)]"
proof -
  define code where "code = multisig_script m keys"
  let ?s = "\<lambda>st n. \<lparr> stack = st, altstack = [], vfExec = [], nOpCount = n, pbegincodehash = code, cache = no_cache \<rparr>"
  let ?m = "getvch lib (int m)" and ?n = "getvch lib (int (length keys))"
  let ?st = "?n # rev keys @ ?m # rev sigs @ [d]"
  have n1: "1 \<le> length keys" using m by simp
  have "eval_loop lib env code (?s (rev sigs @ [d]) 0) = eval_loop lib env
      (pushes keys @ [of_nat (OP_1 + length keys - 1), of_nat OP_CHECKMULTISIG]) (?s (?m # rev sigs @ [d]) 0)"
    unfolding code_def multisig_script_def by (subst eval_loop_small_int) (use m in simp_all)
  also have "\<dots> = eval_loop lib env [of_nat (OP_1 + length keys - 1), of_nat OP_CHECKMULTISIG]
      (?s (rev keys @ ?m # rev sigs @ [d]) 0)"
    by (subst eval_loop_pushes [OF keys]) (use m in simp_all)
  also have "\<dots> = eval_loop lib env [of_nat OP_CHECKMULTISIG] (?s ?st 0)"
    by (subst eval_loop_small_int [OF n1]) (use m in simp_all)
  finally have loop: "eval_loop lib env code (?s (rev sigs @ [d]) 0) = eval_loop lib env [of_nat OP_CHECKMULTISIG] (?s ?st 0)" .
  have sel: "take m (drop (2 + length keys) ?st) = rev sigs" "take (length keys) (drop 1 ?st) = rev keys"
    "drop (3 + length keys + m) ?st = []"
    using m by simp_all
  let ?code = "foldl (\<lambda>code sig. snd (FindAndDelete (push_vch sig []) code)) code (rev sigs)"
  have code': "multisig_code (length keys) m code ?st = ?code"
    unfolding multisig_code_def sel ..
  obtain c' where "op_checkmultisig lib env OP_CHECKMULTISIG code 1 no_cache ?st =
      Inr ([bool_vch (list_emb (sig_ok lib env ?code) sigs keys)], 1 + length keys, c')"
    using op_checkmultisig_emb [OF no_cache_sound ver multisig_args_small [OF lib m(2-4)], of code d]
    unfolding code' sel list_emb_rev by blast
  then have exec: "exec_op lib env OP_CHECKMULTISIG True [] ((?s ?st 0)\<lparr> nOpCount := Suc 0 \<rparr>) =
      Inr ((?s [bool_vch (list_emb (sig_ok lib env ?code) sigs keys)] (1 + length keys))\<lparr> cache := c' \<rparr>)"
    by (simp add: exec_op_def)
  have "eval_loop lib env [of_nat OP_CHECKMULTISIG] (?s ?st 0) =
      Inr ((?s [bool_vch (list_emb (sig_ok lib env ?code) sigs keys)] (1 + length keys))\<lparr> cache := c' \<rparr>)"
    using eval_loop_op [of OP_CHECKMULTISIG "?s ?st 0" lib env "[]"] exec by (simp add: disabled_def)
  moreover have "length code \<le> 10000"
    using pushes_length [OF keys] m by (simp add: code_def multisig_script_def)
  ultimately show ?thesis using loop by (simp add: Eval_def EvalScript_def code_def)
qed

text \<open>
  C29. An output made for \<open>m\<close> of the given keys is spent by \<open>m\<close> signatures, after the extra element the
  check consumes, exactly when the signatures verify under keys that occur in the same order: there
  are increasing positions of the key list, one per signature, at which each signature verifies. The
  greedy matching loop of the interpreter neither accepts more nor misses an assignment.
\<close>

theorem multisig_spend:
  assumes "mpi_format lib" and "cache_sound lib c" and "valid_version (tx_nVersion (env_tx env))"
    and "1 \<le> m" and "m \<le> length keys" and "length keys \<le> 16" and "length sigs = m"
    and "list_all (\<lambda>b. length b \<le> 520) keys" and "list_all (\<lambda>b. length b \<le> 520) sigs"
    and "SetMultisig m keys = Some spk"
  shows "fst (VerifyScript lib env (pushes ([] # sigs)) spk c) \<longleftrightarrow>
    list_emb (\<lambda>sig key. CheckSig_spec lib env sig key
        (foldl (\<lambda>code sig. snd (FindAndDelete (push_vch sig []) code)) spk (rev sigs)) = Some True) sigs keys"
proof -
  have spk: "spk = multisig_script m keys" using SetMultisig_script [OF assms(4-6)] assms(10) by simp
  have len: "23 \<noteq> length spk \<or> spk ! 0 \<noteq> of_nat OP_HASH160"
  proof -
    have "(of_nat (OP_1 + m - 1) :: byte) \<noteq> of_nat OP_HASH160"
    proof
      assume "(of_nat (OP_1 + m - 1) :: byte) = of_nat OP_HASH160"
      then have "unat (of_nat (OP_1 + m - 1) :: byte) = unat (of_nat OP_HASH160 :: byte)" by simp
      then show False using assms(4-6) by (simp only: unat_of_nat) simp
    qed
    then show ?thesis by (simp add: spk multisig_script_def)
  qed
  then have nosh: "\<not> IsPayToScriptHash spk" by (auto simp: IsPayToScriptHash_def)
  have "Eval lib env [] (pushes ([] # sigs)) = Some (rev sigs @ [[]])"
    using Eval_pushes_list [of "[] # sigs" lib env] assms by simp
  then have "Verify_spec lib env (pushes ([] # sigs)) spk = truthy (Eval lib env (rev sigs @ [[]]) spk)"
    using nosh by (simp add: Verify_spec_def)
  then show ?thesis
    using VerifyScript_eq [OF assms(2), of env "pushes ([] # sigs)" spk]
      Eval_multisig [OF assms(1,3-8), of "[]"]
    by (simp add: spk truthy_def sig_ok_def [abs_def])
qed

theorem multisig_spend_witness:
  "fst (VerifyScript demo_lib demo_env (pushes [[], [8, 1], [6, 1]]) (multisig_script 2 [[7], [8], [6]]) demo_cache) \<and>
   \<not> fst (VerifyScript demo_lib demo_env (pushes [[], [6, 1], [8, 1]]) (multisig_script 2 [[7], [8], [6]]) demo_cache)"
proof -
  have v: "valid_version (tx_nVersion (env_tx demo_env))"
    by (simp add: demo_env_def demo_tx_def valid_version_def tx_types)
  have "\<exists>h. SignatureHash demo_lib code demo_tx nIn ht = Some h" for code nIn ht
    by (rule SignatureHash_Some) (simp add: demo_tx_def valid_version_def tx_types)
  then have chk: "CheckSig_spec demo_lib demo_env [a, 1] [k] code = Some (k = a)" for a k code
    by (auto simp: CheckSig_spec_def demo_env_def demo_lib_def)
  have set: "SetMultisig 2 [[7], [8], [6]] = Some (multisig_script 2 [[7], [8], [6]])"
    by (rule SetMultisig_script) simp_all
  show ?thesis
    using multisig_spend [OF demo_lib_format demo_cache_sound v _ _ _ _ _ _ set, of "[[8, 1], [6, 1]]"]
      multisig_spend [OF demo_lib_format demo_cache_sound v _ _ _ _ _ _ set, of "[[6, 1], [8, 1]]"]
    by (simp add: chk)
qed

end
