(* ===== verification/Solver.thy ===== *)
theory Solver
  imports ScriptForms
begin

text \<open>
  Recognising the standard output scripts, \<^verbatim>\<open>Solver\<close> and its clients in
  \<^verbatim>\<open>src/src/script.cpp\<close>: the templates, their matching, and the addresses a script pays.
\<close>

section \<open>Templates\<close>

definition mTemplates :: "(txnouttype \<times> CScript) list" where
  "mTemplates =
     [(TX_PUBKEY, push_opcode OP_CHECKSIG (push_opcode OP_PUBKEY [])),
      (TX_PUBKEYHASH, push_opcode OP_CHECKSIG (push_opcode OP_EQUALVERIFY (push_opcode OP_PUBKEYHASH
         (push_opcode OP_HASH160 (push_opcode OP_DUP []))))),
      (TX_MULTISIG, push_opcode OP_CHECKMULTISIG (push_opcode OP_SMALLINTEGER (push_opcode OP_PUBKEYS
         (push_opcode OP_SMALLINTEGER []))))]"

definition pubkey_size :: "bytes \<Rightarrow> bool" where
  "pubkey_size vch = (length vch \<ge> 33 \<and> length vch \<le> 120)"

text \<open>
  The inner loop for \<^verbatim>\<open>OP_PUBKEYS\<close>. A failing read leaves \<^verbatim>\<open>OP_INVALIDOPCODE\<close> and no data, which no
  template opcode matches, so the position it leaves is not used again.
\<close>

function pubkeys_loop :: "bytes \<Rightarrow> nat \<Rightarrow> bytes \<Rightarrow> bytes list \<Rightarrow> bytes \<times> nat \<times> bytes \<times> bytes list" where
  "pubkeys_loop pc1 opcode1 vch1 sols =
     (if pubkey_size vch1 then
        (case GetOp2 pc1 of
           None \<Rightarrow> ([], OP_INVALIDOPCODE, [], sols @ [vch1])
         | Some (opcode, vch, pc) \<Rightarrow> pubkeys_loop pc opcode vch (sols @ [vch1]))
      else (pc1, opcode1, vch1, sols))"
  by pat_completeness auto
termination
  by (relation "measure (\<lambda>(pc1, a, b, c). length pc1)") (auto dest: GetOp2_shorter)

declare pubkeys_loop.simps [simp del]

lemma pubkeys_loop_length: "length (fst (pubkeys_loop pc1 opcode1 vch1 sols)) \<le> length pc1"
proof (induction pc1 opcode1 vch1 sols rule: pubkeys_loop.induct)
  case (1 pc1 opcode1 vch1 sols)
  then show ?case
    by (subst pubkeys_loop.simps) (fastforce split: option.splits dest: GetOp2_shorter)
qed

text \<open>One comparison after the instructions were read: the solutions, or \<open>None\<close> for a mismatch.\<close>

definition match_one :: "nat \<Rightarrow> nat \<Rightarrow> bytes \<Rightarrow> bytes \<Rightarrow> bytes list \<Rightarrow> bytes list option" where
  "match_one opcode2 opcode1 vch1 vch2 sols =
     (if opcode2 = OP_PUBKEY then (if pubkey_size vch1 then Some (sols @ [vch1]) else None)
      else if opcode2 = OP_PUBKEYHASH then (if length vch1 = 20 then Some (sols @ [vch1]) else None)
      else if opcode2 = OP_SMALLINTEGER then
        (case DecodeOP_N opcode1 of Some n \<Rightarrow> Some (sols @ [[of_nat n]]) | None \<Rightarrow> None)
      else if opcode1 \<noteq> opcode2 \<or> vch1 \<noteq> vch2 then None
      else Some sols)"

text \<open>The comparison of a script with a template; \<open>None\<close> where the code breaks out of its loop.\<close>

function match_loop :: "bytes \<Rightarrow> bytes \<Rightarrow> bytes list \<Rightarrow> bytes list option" where
  "match_loop pc1 pc2 sols =
     (if pc1 = [] \<and> pc2 = [] then Some sols
      else
        case GetOp2 pc1 of
          None \<Rightarrow> None
        | Some (opcode1, vch1, pc1) \<Rightarrow>
            (case GetOp2 pc2 of
               None \<Rightarrow> None
             | Some (opcode2, vch2, pc2) \<Rightarrow>
                 if opcode2 = OP_PUBKEYS then
                   (case pubkeys_loop pc1 opcode1 vch1 sols of
                      (pc1, opcode1, vch1, sols) \<Rightarrow>
                        (case GetOp2 pc2 of
                           None \<Rightarrow> None
                         | Some (opcode2, vch2, pc2) \<Rightarrow>
                             (case match_one opcode2 opcode1 vch1 vch2 sols of
                                None \<Rightarrow> None
                              | Some sols \<Rightarrow> match_loop pc1 pc2 sols)))
                 else
                   (case match_one opcode2 opcode1 vch1 vch2 sols of
                      None \<Rightarrow> None
                    | Some sols \<Rightarrow> match_loop pc1 pc2 sols)))"
  by pat_completeness auto
termination
  by (relation "measure (\<lambda>(pc1, pc2, sols). length pc2)") (fastforce dest!: GetOp2_shorter)+

declare match_loop.simps [simp del]

text \<open>The scan over the templates: the result, the type and the solutions.\<close>

fun scan_templates :: "CScript \<Rightarrow> (txnouttype \<times> CScript) list \<Rightarrow> bool \<times> txnouttype \<times> bytes list" where
  "scan_templates script1 [] = (False, TX_NONSTANDARD, [])"
| "scan_templates script1 ((t, script2) # ts) =
     (case match_loop script1 script2 [] of
        None \<Rightarrow> scan_templates script1 ts
      | Some sols \<Rightarrow>
          if t = TX_MULTISIG then
            (let m = unat (hd (hd sols)); n = unat (hd (last sols))
             in (\<not> (m < 1 \<or> n < 1 \<or> m > n \<or> length sols - 2 \<noteq> n), t, sols))
          else (True, t, sols))"

definition Solver :: "CScript \<Rightarrow> bool \<times> txnouttype \<times> bytes list" where
  "Solver spk =
     (if IsPayToScriptHash spk then (True, TX_SCRIPTHASH, [take 20 (drop 2 spk)])
      else scan_templates spk mTemplates)"

definition ScriptSigArgsExpected :: "txnouttype \<Rightarrow> bytes list \<Rightarrow> int" where
  "ScriptSigArgsExpected t sols =
     (case t of
        TX_NONSTANDARD \<Rightarrow> - 1
      | TX_PUBKEY \<Rightarrow> 1
      | TX_PUBKEYHASH \<Rightarrow> 2
      | TX_MULTISIG \<Rightarrow> if length sols < 1 \<or> length (sols ! 0) < 1 then - 1 else uint (sols ! 0 ! 0) + 1
      | TX_SCRIPTHASH \<Rightarrow> 1)"

definition IsStandard :: "CScript \<Rightarrow> bool" where
  "IsStandard spk =
     (case Solver spk of
        (False, _, _) \<Rightarrow> False
      | (True, whichType, sols) \<Rightarrow>
          if whichType = TX_MULTISIG \<and>
             (let m = unat (hd (hd sols)); n = unat (hd (last sols)) in n < 1 \<or> n > 3 \<or> m < 1 \<or> m > n)
          then False
          else whichType \<noteq> TX_NONSTANDARD)"

text \<open>\<^verbatim>\<open>uint160(vector)\<close>: the bytes when there are 20 of them, else zero.\<close>

definition uint160_of :: "bytes \<Rightarrow> uint160" where
  "uint160_of vch = (if length vch = 20 then bytes_word vch else 0)"

definition ExtractAddress :: "'a openssl_scheme \<Rightarrow> bool \<Rightarrow> CScript \<Rightarrow> CBitcoinAddress option" where
  "ExtractAddress lib fTestNet spk =
     (case Solver spk of
        (False, _, _) \<Rightarrow> None
      | (True, whichType, sols) \<Rightarrow>
          if whichType = TX_PUBKEY then Some (SetPubKey lib fTestNet (sols ! 0))
          else if whichType = TX_PUBKEYHASH then Some (SetHash160 fTestNet (uint160_of (sols ! 0)))
          else if whichType = TX_SCRIPTHASH then Some (SetScriptHash160 fTestNet (uint160_of (sols ! 0)))
          else None)"

text \<open>\<^verbatim>\<open>ExtractAddresses\<close>: the type, the addresses and the number of signatures required.\<close>

definition ExtractAddresses ::
  "'a openssl_scheme \<Rightarrow> bool \<Rightarrow> CScript \<Rightarrow> (txnouttype \<times> CBitcoinAddress list \<times> int) option" where
  "ExtractAddresses lib fTestNet spk =
     (case Solver spk of
        (False, _, _) \<Rightarrow> None
      | (True, typeRet, sols) \<Rightarrow>
          if typeRet = TX_MULTISIG then
            Some (typeRet, map (SetPubKey lib fTestNet) (butlast (tl sols)), uint (hd (hd sols)))
          else
            let address =
              (if typeRet = TX_PUBKEYHASH then SetHash160 fTestNet (uint160_of (hd sols))
               else if typeRet = TX_SCRIPTHASH then SetScriptHash160 fTestNet (uint160_of (hd sols))
               else SetPubKey lib fTestNet (hd sols))
            in Some (typeRet, [address], 1))"

section \<open>What a match says about a script\<close>

lemma instrs_step:
  assumes "GetOp2 pc = Some (opcode, vch, pc')"
  shows "instrs pc = (opcode, vch) # instrs pc'" "readable pc = readable pc'"
proof -
  have "pc \<noteq> []" using assms by (auto simp: GetOp2_def)
  then show "instrs pc = (opcode, vch) # instrs pc'" "readable pc = readable pc'"
    using assms by (subst instrs.simps, simp, subst readable.simps, simp)
qed

lemma instrs_end [simp]: "instrs [] = []" "readable []"
  by (simp_all add: instrs.simps readable.simps GetOp2_def)

lemma pubkeys_loop_sound:
  assumes "pubkeys_loop pc1 op1 v1 sols = (pc', op', v', sols')" and "op' \<noteq> OP_INVALIDOPCODE"
  shows "\<exists>ks. sols' = sols @ map snd ks \<and> list_all (\<lambda>(opcode, key). pubkey_size key) ks \<and>
    (op1, v1) # instrs pc1 = ks @ (op', v') # instrs pc' \<and> readable pc1 = readable pc'"
  using assms
proof (induction pc1 op1 v1 sols rule: pubkeys_loop.induct)
  case (1 pc1 op1 v1 sols)
  show ?case
  proof (cases "pubkey_size v1")
    case False
    then show ?thesis using "1.prems" by (subst (asm) pubkeys_loop.simps) (auto intro: exI [of _ "[]"])
  next
    case True
    then obtain opcode vch pc where g: "GetOp2 pc1 = Some (opcode, vch, pc)"
      and r: "pubkeys_loop pc opcode vch (sols @ [v1]) = (pc', op', v', sols')"
      using "1.prems" by (subst (asm) pubkeys_loop.simps) (auto split: option.splits)
    obtain ks where "sols' = (sols @ [v1]) @ map snd ks" "list_all (\<lambda>(opcode, key). pubkey_size key) ks"
      "(opcode, vch) # instrs pc = ks @ (op', v') # instrs pc'" "readable pc = readable pc'"
      using "1.IH" [OF True g refl refl r "1.prems"(2)] by blast
    then show ?thesis using True instrs_step [OF g] by (intro exI [of _ "(op1, v1) # ks"]) simp
  qed
qed

lemma match_loop_end [simp]: "match_loop pc1 [] sols = (if pc1 = [] then Some sols else None)"
proof -
  have "GetOp2 [] = None" by (simp add: GetOp2_def)
  then show ?thesis by (subst match_loop.simps) (simp split: option.split)
qed

lemma match_step:
  assumes "op2 \<noteq> OP_PUBKEYS" and "OP_PUSHDATA4 < op2" and "op2 < 256"
  shows "match_loop pc1 (of_nat op2 # pc2) sols =
    (case GetOp2 pc1 of
       None \<Rightarrow> None
     | Some (op1, v1, pc1') \<Rightarrow>
         (case match_one op2 op1 v1 [] sols of None \<Rightarrow> None | Some s \<Rightarrow> match_loop pc1' pc2 s))"
  using assms by (subst match_loop.simps) (simp add: GetOp2_opcode split: option.split)

lemma match_step_pubkeys:
  assumes "OP_PUSHDATA4 < op2" and "op2 < 256"
  shows "match_loop pc1 (of_nat OP_PUBKEYS # of_nat op2 # pc2) sols =
    (case GetOp2 pc1 of
       None \<Rightarrow> None
     | Some (op1, v1, pc1') \<Rightarrow>
         (case pubkeys_loop pc1' op1 v1 sols of
            (pc, op, v, s) \<Rightarrow>
              (case match_one op2 op v [] s of None \<Rightarrow> None | Some s \<Rightarrow> match_loop pc pc2 s)))"
  using assms GetOp2_opcode [of OP_PUBKEYS "of_nat op2 # pc2"] GetOp2_opcode [of op2 pc2]
  by (subst match_loop.simps) (simp split: option.split)

lemma match_one_op:
  assumes "op2 \<notin> {OP_PUBKEY, OP_PUBKEYHASH, OP_SMALLINTEGER}"
  shows "match_one op2 op1 v1 [] sols = (if op1 = op2 \<and> v1 = [] then Some sols else None)"
  using assms by (simp add: match_one_def)

lemma match_one_int:
  "match_one OP_SMALLINTEGER op1 v1 v2 sols = Some s \<longleftrightarrow> (\<exists>n. DecodeOP_N op1 = Some n \<and> s = sols @ [[of_nat n]])"
  by (auto simp: match_one_def split: option.splits)

lemma match_one_hash: "length v = 20 \<Longrightarrow> match_one OP_PUBKEYHASH op1 v v2 sols = Some (sols @ [v])"
  by (simp add: match_one_def)

lemma match_one_key: "pubkey_size v \<Longrightarrow> match_one OP_PUBKEY op1 v v2 sols = Some (sols @ [v])"
  by (simp add: match_one_def)

lemma match_pubkey:
  assumes "match_loop spk (push_opcode OP_CHECKSIG (push_opcode OP_PUBKEY [])) [] = Some sols"
  shows "readable spk \<and> (\<exists>opcode key. instrs spk = [(opcode, key), (OP_CHECKSIG, [])] \<and> pubkey_size key \<and> sols = [key])"
  using assms match_step [of OP_PUBKEY spk "[of_nat OP_CHECKSIG]" "[]"] match_step [of OP_CHECKSIG _ "[]"]
  by (auto simp: push_opcode_def match_one_op match_one_def [of OP_PUBKEY] instrs_step split: option.splits if_splits)

lemma match_pubkeyhash:
  assumes "match_loop spk (push_opcode OP_CHECKSIG (push_opcode OP_EQUALVERIFY (push_opcode OP_PUBKEYHASH
         (push_opcode OP_HASH160 (push_opcode OP_DUP []))))) [] = Some sols"
  shows "readable spk \<and> (\<exists>opcode h. instrs spk = [(OP_DUP, []), (OP_HASH160, []), (opcode, h), (OP_EQUALVERIFY, []), (OP_CHECKSIG, [])] \<and>
    length h = 20 \<and> sols = [h])"
  using assms match_step [of OP_DUP spk _ "[]"] match_step [of OP_HASH160] match_step [of OP_PUBKEYHASH]
    match_step [of OP_EQUALVERIFY] match_step [of OP_CHECKSIG _ "[]"]
  by (auto simp: push_opcode_def match_one_op match_one_def [of OP_PUBKEYHASH] instrs_step split: option.splits if_splits)

lemma DecodeOP_N_Some: "DecodeOP_N op = Some n \<Longrightarrow> n \<le> 16 \<and> op \<noteq> OP_INVALIDOPCODE \<and> EncodeOP_N n = Some op"
  by (auto simp: DecodeOP_N_def EncodeOP_N_def split: if_splits)

lemma match_multisig:
  assumes "match_loop spk (push_opcode OP_CHECKMULTISIG (push_opcode OP_SMALLINTEGER (push_opcode OP_PUBKEYS
         (push_opcode OP_SMALLINTEGER [])))) [] = Some sols"
  shows "\<exists>m n v v' opm opn ks. readable spk \<and>
    instrs spk = (opm, v) # ks @ [(opn, v'), (OP_CHECKMULTISIG, [])] \<and>
    DecodeOP_N opm = Some m \<and> DecodeOP_N opn = Some n \<and>
    list_all (\<lambda>(opcode, key). pubkey_size key) ks \<and> sols = [of_nat m] # map snd ks @ [[of_nat n]]"
proof -
  have t: "match_loop spk [of_nat OP_SMALLINTEGER, of_nat OP_PUBKEYS, of_nat OP_SMALLINTEGER, of_nat OP_CHECKMULTISIG] [] = Some sols"
    using assms by (simp add: push_opcode_def)
  obtain opm v pc m where 1: "GetOp2 spk = Some (opm, v, pc)" "DecodeOP_N opm = Some m"
    and t1: "match_loop pc [of_nat OP_PUBKEYS, of_nat OP_SMALLINTEGER, of_nat OP_CHECKMULTISIG] [[of_nat m]] = Some sols"
    using t by (subst (asm) match_step) (auto simp: match_one_int split: option.splits prod.splits)
  obtain op1 v1 pc1 pc2 opn v' s n where 2: "GetOp2 pc = Some (op1, v1, pc1)"
    "pubkeys_loop pc1 op1 v1 [[of_nat m]] = (pc2, opn, v', s)" "DecodeOP_N opn = Some n"
    and t2: "match_loop pc2 [of_nat OP_CHECKMULTISIG] (s @ [[of_nat n]]) = Some sols"
    using t1 by (subst (asm) match_step_pubkeys) (auto simp: match_one_int split: option.splits prod.splits)
  have 3: "GetOp2 pc2 = Some (OP_CHECKMULTISIG, [], []) \<and> sols = s @ [[of_nat n]]"
    using t2 by (subst (asm) match_step) (auto simp: match_one_op split: option.splits prod.splits if_splits)
  obtain ks where ks: "s = [[of_nat m]] @ map snd ks" "list_all (\<lambda>(opcode, key). pubkey_size key) ks"
    "(op1, v1) # instrs pc1 = ks @ (opn, v') # instrs pc2" "readable pc1 = readable pc2"
    using pubkeys_loop_sound [OF 2(2)] DecodeOP_N_Some [OF 2(3)] by blast
  have "instrs spk = (opm, v) # ks @ [(opn, v'), (OP_CHECKMULTISIG, [])]"
    using instrs_step [OF 1(1)] instrs_step [OF 2(1)] ks(3) instrs_step [OF conjunct1 [OF 3]] by simp
  moreover have "readable spk"
    using instrs_step [OF 1(1)] instrs_step [OF 2(1)] ks(4) instrs_step [OF conjunct1 [OF 3]] by simp
  ultimately show ?thesis using 1(2) 2(3) 3 ks by auto
qed

lemma IsPayToScriptHash_p2sh:
  assumes "IsPayToScriptHash spk"
  shows "\<exists>h. spk = p2sh h \<and> take 20 (drop 2 spk) = image160 h"
proof -
  have len: "length spk = 23" and b: "spk ! 0 = of_nat OP_HASH160" "spk ! 1 = 0x14" "spk ! 22 = of_nat OP_EQUAL"
    using assms by (simp_all add: IsPayToScriptHash_def)
  let ?b = "take 20 (drop 2 spk)"
  have img: "image160 (bytes_word ?b) = ?b" using word_bytes_word [of ?b, where 'a = 160] len by simp
  have "drop 2 spk = ?b @ drop 22 spk" using append_take_drop_id [of 20 "drop 2 spk"] by simp
  then have "spk = take 2 spk @ ?b @ drop 22 spk" by (metis append_take_drop_id)
  moreover have "take 2 spk = [spk ! 0, spk ! 1]" using len by (simp add: list_eq_iff_nth_eq less_Suc_eq numeral_2_eq_2)
  moreover have "drop 22 spk = [spk ! 22]" using len Cons_nth_drop_Suc [of 22 spk] by simp
  ultimately have "spk = p2sh (bytes_word ?b)" using b img by (simp add: p2sh_bytes)
  then show ?thesis using img by metis
qed

text \<open>
  C30. \<^verbatim>\<open>Solver\<close> recognises nothing but the standard forms. When it answers true, the script is read to its
  end and its instructions are exactly those of the reported form, with the solutions in it: a key of
  33 to 120 bytes and a signature check, the five instructions of a key hash, a script hash, or
  \<open>m\<close>, \<open>n\<close> keys, \<open>n\<close> and a multi-signature check with \<open>1 \<le> m \<le> n\<close>.
\<close>

theorem Solver_sound:
  assumes "Solver spk = (True, t, sols)"
  shows "(t = TX_SCRIPTHASH \<and> (\<exists>h. spk = p2sh h \<and> sols = [image160 h])) \<or>
    (t = TX_PUBKEY \<and> readable spk \<and>
      (\<exists>op key. instrs spk = [(op, key), (OP_CHECKSIG, [])] \<and> pubkey_size key \<and> sols = [key])) \<or>
    (t = TX_PUBKEYHASH \<and> readable spk \<and>
      (\<exists>op h. instrs spk = [(OP_DUP, []), (OP_HASH160, []), (op, h), (OP_EQUALVERIFY, []), (OP_CHECKSIG, [])] \<and>
         length h = 20 \<and> sols = [h])) \<or>
    (t = TX_MULTISIG \<and> readable spk \<and>
      (\<exists>m n v v' opm opn ks. instrs spk = (opm, v) # ks @ [(opn, v'), (OP_CHECKMULTISIG, [])] \<and>
         DecodeOP_N opm = Some m \<and> DecodeOP_N opn = Some n \<and> 1 \<le> m \<and> m \<le> n \<and> length ks = n \<and>
         list_all (\<lambda>(opcode, key). pubkey_size key) ks \<and> sols = [of_nat m] # map snd ks @ [[of_nat n]]))"
proof (cases "IsPayToScriptHash spk")
  case True
  then obtain h where "spk = p2sh h \<and> take 20 (drop 2 spk) = image160 h" using IsPayToScriptHash_p2sh by blast
  then show ?thesis using True assms by (auto simp: Solver_def)
next
  case False
  then have scan: "scan_templates spk mTemplates = (True, t, sols)" using assms by (simp add: Solver_def)
  consider (key) "match_loop spk (snd (mTemplates ! 0)) [] = Some sols" "t = TX_PUBKEY"
    | (hash) "match_loop spk (snd (mTemplates ! 1)) [] = Some sols" "t = TX_PUBKEYHASH"
    | (multi) "match_loop spk (snd (mTemplates ! 2)) [] = Some sols" "t = TX_MULTISIG"
        "1 \<le> unat (hd (hd sols))" "unat (hd (hd sols)) \<le> unat (hd (last sols))" "length sols - 2 = unat (hd (last sols))"
    using scan by (auto simp: mTemplates_def Let_def split: option.splits)
  then show ?thesis
  proof cases
    case key
    then show ?thesis using match_pubkey [of spk sols] by (simp add: mTemplates_def)
  next
    case hash
    then show ?thesis using match_pubkeyhash [of spk sols] by (simp add: mTemplates_def)
  next
    case multi
    obtain m n v v' opm opn ks where r: "readable spk"
      "instrs spk = (opm, v) # ks @ [(opn, v'), (OP_CHECKMULTISIG, [])]"
      "DecodeOP_N opm = Some m" "DecodeOP_N opn = Some n"
      "list_all (\<lambda>(opcode, key). pubkey_size key) ks" "sols = [of_nat m] # map snd ks @ [[of_nat n]]"
      using match_multisig [of spk sols] multi(1) by (auto simp: mTemplates_def)
    have "m \<le> 16" "n \<le> 16" using DecodeOP_N_Some r(3,4) by blast+
    then have "unat (hd (hd sols)) = m" "unat (hd (last sols)) = n" using r(6) by (simp_all add: unat_of_nat)
    then show ?thesis using multi r by auto
  qed
qed

theorem Solver_sound_witness:
  "Solver (p2sh 5) = (True, TX_SCRIPTHASH, [image160 5]) \<and> (\<exists>h. p2sh 5 = p2sh h \<and> [image160 5] = [image160 h])"
proof -
  have s: "Solver (p2sh 5) = (True, TX_SCRIPTHASH, [image160 5])"
    by (simp add: Solver_def p2sh_IsPayToScriptHash) (simp add: p2sh_bytes)
  then show ?thesis using Solver_sound [OF s] by simp
qed

section \<open>The scripts the node builds\<close>

definition p2pk :: "bytes \<Rightarrow> CScript" where
  "p2pk key = push_opcode OP_CHECKSIG (push_vch key [])"

lemma Solver_p2sh: "Solver (p2sh h) = (True, TX_SCRIPTHASH, [image160 h])"
  by (simp add: Solver_def p2sh_IsPayToScriptHash) (simp add: p2sh_bytes)

lemma GetOp2_ops: "GetOp2 (0x76 # r) = Some (OP_DUP, [], r)" "GetOp2 (0xa9 # r) = Some (OP_HASH160, [], r)"
  "GetOp2 (0x88 # r) = Some (OP_EQUALVERIFY, [], r)" "GetOp2 (0xac # r) = Some (OP_CHECKSIG, [], r)"
  "GetOp2 (0xae # r) = Some (OP_CHECKMULTISIG, [], r)"
  by (simp_all add: GetOp2_def Let_def)

lemma Solver_p2pkh: "Solver (p2pkh h) = (True, TX_PUBKEYHASH, [image160 h])"
proof -
  have spk: "p2pkh h = 0x76 # 0xa9 # push_vch (image160 h) [] @ [0x88, 0xac]" by (simp add: p2pkh_def)
  have g: "GetOp2 (push_vch (image160 h) [] @ r) = Some (push_op (image160 h), image160 h, r)" for r
    by (rule GetOp2_push_vch) simp
  have "match_loop (p2pkh h) [0xfe, 0xac] [] = None"
    using match_step [of OP_PUBKEY "p2pkh h" "[0xac]" "[]"] by (simp add: spk GetOp2_ops match_one_def pubkey_size_def)
  moreover have "match_loop (p2pkh h) [0x76, 0xa9, 0xfd, 0x88, 0xac] [] = Some [image160 h]"
    using match_step [of OP_DUP _ "[0xa9, 0xfd, 0x88, 0xac]"] match_step [of OP_HASH160 _ "[0xfd, 0x88, 0xac]"]
      match_step [of OP_PUBKEYHASH _ "[0x88, 0xac]"] match_step [of OP_EQUALVERIFY _ "[0xac]"] match_step [of OP_CHECKSIG _ "[]"]
    by (simp add: spk GetOp2_ops g match_one_op match_one_hash)
  ultimately show ?thesis
    by (simp add: Solver_def p2pkh_not_p2sh mTemplates_def push_opcode_def)
qed

lemma GetOp2_pushed: "pubkey_size key \<Longrightarrow> GetOp2 (push_vch key [] @ r) = Some (push_op key, key, r)"
  by (rule GetOp2_push_vch) (simp add: pubkey_size_def)

lemma not_p2sh_head: "b \<noteq> of_nat OP_HASH160 \<Longrightarrow> \<not> IsPayToScriptHash (b # r)"
  by (simp add: IsPayToScriptHash_def)

lemma Solver_p2pk:
  assumes "pubkey_size key"
  shows "Solver (p2pk key) = (True, TX_PUBKEY, [key])"
proof -
  have spk: "p2pk key = push_vch key [] @ [0xac]" by (simp add: p2pk_def push_opcode_def)
  have "length (p2pk key) \<noteq> 23" using assms by (simp add: spk pubkey_size_def push_vch_def)
  then have "\<not> IsPayToScriptHash (p2pk key)" by (simp add: IsPayToScriptHash_def)
  moreover have "match_loop (p2pk key) [0xfe, 0xac] [] = Some [key]"
    using match_step [of OP_PUBKEY "p2pk key" "[0xac]" "[]"] match_step [of OP_CHECKSIG _ "[]"] assms
    by (simp add: spk GetOp2_ops GetOp2_pushed match_one_op match_one_key)
  ultimately show ?thesis by (simp add: Solver_def mTemplates_def push_opcode_def)
qed

lemma pubkeys_loop_pushes:
  assumes "list_all pubkey_size (key # keys)" and "OP_PUSHDATA4 < opn" and "opn < 256"
  shows "pubkeys_loop (pushes keys @ of_nat opn # r) op key sols = (r, opn, [], sols @ key # keys)"
  using assms(1)
proof (induction keys arbitrary: op key sols)
  case Nil
  then show ?case using GetOp2_opcode [OF assms(2,3)]
    by (subst pubkeys_loop.simps, simp, subst pubkeys_loop.simps, simp add: pubkey_size_def)
next
  case (Cons k keys)
  then have "GetOp2 (push_vch k [] @ pushes keys @ of_nat opn # r) = Some (push_op k, k, pushes keys @ of_nat opn # r)"
    by (intro GetOp2_pushed) simp
  then show ?case using Cons.IH [of k "push_op k" "sols @ [key]"] Cons.prems
    by (subst pubkeys_loop.simps) simp
qed

lemma DecodeOP_N_small: "1 \<le> n \<Longrightarrow> n \<le> 16 \<Longrightarrow> DecodeOP_N (OP_1 + n - 1) = Some n"
  by (simp add: DecodeOP_N_def)

lemma Solver_multisig:
  assumes m: "1 \<le> m" "m \<le> length keys" "length keys \<le> 16" and keys: "list_all pubkey_size keys"
  shows "Solver (multisig_script m keys) = (True, TX_MULTISIG, [of_nat m] # keys @ [[of_nat (length keys)]])"
proof -
  obtain k ks where kk: "keys = k # ks" using m by (cases keys) simp_all
  let ?n = "length keys" and ?opm = "OP_1 + m - 1" and ?opn = "OP_1 + length keys - 1"
  let ?spk = "multisig_script m keys"
  have spk: "?spk = of_nat ?opm # pushes keys @ [of_nat ?opn, 0xae]" by (simp add: multisig_script_def)
  have opm: "GetOp2 ?spk = Some (?opm, [], pushes keys @ [of_nat ?opn, 0xae])"
    unfolding spk using m by (intro GetOp2_opcode) simp_all
  have first: "GetOp2 (pushes keys @ [of_nat ?opn, 0xae]) = Some (push_op k, k, pushes ks @ [of_nat ?opn, 0xae])"
    using keys kk GetOp2_pushed [of k "pushes ks @ [of_nat ?opn, 0xae]"] by simp
  have lp: "pubkeys_loop (pushes ks @ [of_nat ?opn, 0xae]) (push_op k) k [[of_nat m]] = ([0xae], ?opn, [], [[of_nat m]] @ keys)"
    using pubkeys_loop_pushes [of k ks ?opn "[0xae]"] keys kk m by simp
  have "match_loop ?spk [0xfe, 0xac] [] = None"
    using match_step [of OP_PUBKEY ?spk "[0xac]" "[]"] opm by (simp add: match_one_def pubkey_size_def)
  moreover have "match_loop ?spk [0x76, 0xa9, 0xfd, 0x88, 0xac] [] = None"
    using match_step [of OP_DUP ?spk "[0xa9, 0xfd, 0x88, 0xac]" "[]"] opm m by (simp add: match_one_op)
  moreover have "match_loop ?spk [0xfa, 0xfb, 0xfa, 0xae] [] = Some ([of_nat m] # keys @ [[of_nat ?n]])"
  proof -
    have "match_one OP_SMALLINTEGER ?opm [] [] [] = Some [[of_nat m]]"
      using m DecodeOP_N_small [of m] by (simp add: match_one_int)
    then have "match_loop ?spk [0xfa, 0xfb, 0xfa, 0xae] [] =
        match_loop (pushes keys @ [of_nat ?opn, 0xae]) [0xfb, 0xfa, 0xae] [[of_nat m]]"
      using match_step [of OP_SMALLINTEGER ?spk "[0xfb, 0xfa, 0xae]" "[]"] opm by simp
    also have "\<dots> = match_loop [0xae] [0xae] ([[of_nat m]] @ keys @ [[of_nat ?n]])"
    proof -
      have "match_one OP_SMALLINTEGER ?opn [] [] ([[of_nat m]] @ keys) = Some ([[of_nat m]] @ keys @ [[of_nat ?n]])"
        using m DecodeOP_N_small [of ?n] by (simp add: match_one_int)
      then show ?thesis
        using match_step_pubkeys [of OP_SMALLINTEGER "pushes keys @ [of_nat ?opn, 0xae]" "[0xae]" "[[of_nat m]]"] first lp
        by simp
    qed
    also have "\<dots> = Some ([of_nat m] # keys @ [[of_nat ?n]])"
      using match_step [of OP_CHECKMULTISIG "[0xae]" "[]"] by (simp add: GetOp2_ops match_one_op)
    finally show ?thesis .
  qed
  moreover have "(of_nat ?opm :: byte) \<noteq> of_nat OP_HASH160"
  proof
    assume "(of_nat ?opm :: byte) = of_nat OP_HASH160"
    then have "unat (of_nat ?opm :: byte) = unat (of_nat OP_HASH160 :: byte)" by simp
    then show False using m by (simp only: unat_of_nat) simp
  qed
  then have "\<not> IsPayToScriptHash ?spk" unfolding spk by (rule not_p2sh_head)
  moreover have "unat (of_nat m :: byte) = m" "unat (of_nat ?n :: byte) = ?n" using m by (simp_all add: unat_of_nat)
  ultimately show ?thesis
    using m by (auto simp: Solver_def mTemplates_def push_opcode_def Let_def)
qed

text \<open>
  The scripts the node builds are recognised as what they are. The output for an address is
  standard, solves to the hash of the address, and extracting its address gives the address back, on
  either network, for key and script addresses; so does the script hash of any non-empty script. A
  multi-signature script solves to \<open>m\<close>, the keys and \<open>n\<close>, lists the addresses of its keys, and is
  standard up to three keys.
\<close>

theorem ExtractAddress_round_trip:
  assumes "1 \<le> m" and "m \<le> length keys" and "length keys \<le> 16" and "list_all pubkey_size keys" and "script \<noteq> []"
  shows "(\<exists>spk. SetBitcoinAddress net (SetHash160 net h) = Some spk \<and> IsStandard spk \<and>
      ExtractAddress lib net spk = Some (SetHash160 net h)) \<and>
    (\<exists>spk. SetBitcoinAddress net (SetScriptHash160 net h) = Some spk \<and> IsStandard spk \<and>
      ExtractAddress lib net spk = Some (SetScriptHash160 net h)) \<and>
    (\<exists>spk. SetPayToScriptHash lib script = Some spk \<and>
      ExtractAddress lib net spk = Some (SetScriptHash160 net (Hash160 lib script))) \<and>
    (\<exists>spk. SetMultisig m keys = Some spk \<and> (IsStandard spk \<longleftrightarrow> length keys \<le> 3) \<and>
      ExtractAddresses lib net spk = Some (TX_MULTISIG, map (SetPubKey lib net) keys, int m))"
proof -
  have h: "uint160_of (image160 x) = x" for x by (simp add: uint160_of_def bytes_word_bytes160)
  have key: "GetHash160 (SetHash160 net h) = Some h" "\<not> IsScript net (SetHash160 net h)"
    by (simp_all add: SetHash160_def SetData_def GetHash160_def IsScript_def Address_IsValid_def address_versions
        bytes_word_bytes160)
  have scr: "GetHash160 (SetScriptHash160 net h) = Some h" "IsScript net (SetScriptHash160 net h)"
    by (simp_all add: SetScriptHash160_def SetData_def GetHash160_def IsScript_def Address_IsValid_def address_versions
        bytes_word_bytes160)
  have "uint (of_nat m :: byte) = int m" "unat (of_nat m :: byte) = m" "unat (of_nat (length keys) :: byte) = length keys"
    using assms(1-3) by (simp_all add: uint_nat unat_of_nat)
  then show ?thesis
    using SetBitcoinAddress_p2pkh [OF key] SetBitcoinAddress_p2sh [OF scr] SetPayToScriptHash_p2sh [OF assms(5), of lib]
      SetMultisig_script [OF assms(1-3)] Solver_multisig [OF assms(1-4)] assms(1-3)
    by (auto simp: Solver_p2pkh Solver_p2sh ExtractAddress_def ExtractAddresses_def IsStandard_def h Let_def)
qed

theorem ExtractAddress_round_trip_witness:
  "\<exists>spk. SetMultisig 1 [replicate 33 2, replicate 65 4] = Some spk \<and> IsStandard spk \<and>
     ExtractAddresses demo_lib False spk =
       Some (TX_MULTISIG, map (SetPubKey demo_lib False) [replicate 33 2, replicate 65 4], 1)"
  using ExtractAddress_round_trip [of 1 "[replicate 33 2, replicate 65 4]" "[0x51]" False 0 demo_lib]
  by (simp add: pubkey_size_def)

end
