(* ===== verification/TxChecks.thy ===== *)
theory TxChecks
  imports Solver
begin

text \<open>
  Checks of a transaction on its own, \<^verbatim>\<open>CTransaction::CheckTransaction\<close>, \<^verbatim>\<open>IsStandard\<close> and
  \<^verbatim>\<open>GetLegacySigOpCount\<close> of \<^verbatim>\<open>src/src/main.cpp\<close>. A rejection carries the penalty the code adds to
  \<^verbatim>\<open>nDoS\<close>, 0 for a plain \<^verbatim>\<open>return false\<close>.
\<close>

datatype check_result = Accepted | Rejected nat

definition MAX_BLOCK_SIZE :: nat where "MAX_BLOCK_SIZE = 1000000"
definition MAX_BLOCK_SIZE_GEN :: nat where "MAX_BLOCK_SIZE_GEN = MAX_BLOCK_SIZE div 2"
definition MAX_BLOCK_SIGOPS :: nat where "MAX_BLOCK_SIGOPS = MAX_BLOCK_SIZE div 50"

section \<open>The checks\<close>

text \<open>The loop over the outputs: the penalty, or the total, which wraps at 64 bits.\<close>

fun check_outputs :: "bool \<Rightarrow> int64 \<Rightarrow> CTxOut list \<Rightarrow> nat + int64" where
  "check_outputs user nValueOut [] = Inr nValueOut"
| "check_outputs user nValueOut (txout # outs) =
     (if CTxOut_IsEmpty txout \<and> user then Inl 100
      else if sint (nValue txout) > MAX_MONEY then Inl 100
      else if sint (nValue txout) < 0 then Inl 100
      else check_outputs user (nValueOut + nValue txout) outs)"

fun has_duplicate :: "COutPoint set \<Rightarrow> CTxIn list \<Rightarrow> bool" where
  "has_duplicate vInOutPoints [] = False"
| "has_duplicate vInOutPoints (txin # ins) =
     (if prevout txin \<in> vInOutPoints then True else has_duplicate (insert (prevout txin) vInOutPoints) ins)"

definition CheckTransaction :: "CTransaction \<Rightarrow> check_result" where
  "CheckTransaction tx =
     (if tx_nVersion tx \<noteq> 1 then Rejected 10
      else if list_ex (\<lambda>txout. subCurrency txout \<noteq> []) (vout tx) then Rejected 10
      else if vin tx = [] then Rejected 10
      else if list_ex (\<lambda>txin. \<not> CTxIn_CheckTxInfos txin) (vin tx) then Rejected 10
      else if vout tx = [] \<and> \<not> list_ex (\<lambda>txin. infos txin \<noteq> []) (vin tx) then Rejected 10
      else if length (tx_bytes tx) > MAX_BLOCK_SIZE then Rejected 100
      else
        case check_outputs (\<not> IsCoinBase tx \<and> \<not> IsCoinStake tx) 0 (vout tx) of
          Inl nDoS \<Rightarrow> Rejected nDoS
        | Inr nValueOut \<Rightarrow>
            if \<not> MoneyRange nValueOut then Rejected 100
            else if has_duplicate {} (vin tx) then Rejected 0
            else if IsCoinBase tx then
              (if length (scriptSig (vin tx ! 0)) < 2 \<or> length (scriptSig (vin tx ! 0)) > 100 then Rejected 100
               else Accepted)
            else if list_ex (\<lambda>txin. COutPoint_IsNull (prevout txin)) (vin tx) then Rejected 10
            else Accepted)"

definition CTransaction_IsStandard :: "CTransaction \<Rightarrow> bool" where
  "CTransaction_IsStandard tx =
     (list_all (\<lambda>txin. \<not> length (scriptSig txin) > 500 \<and> IsPushOnly (scriptSig txin)) (vin tx) \<and>
      list_all (\<lambda>txout. IsStandard (scriptPubKey txout)) (vout tx))"

definition GetLegacySigOpCount :: "CTransaction \<Rightarrow> uint32" where
  "GetLegacySigOpCount tx =
     foldl (\<lambda>n txout. n + GetSigOpCount False (scriptPubKey txout))
       (foldl (\<lambda>n txin. n + GetSigOpCount False (scriptSig txin)) 0 (vin tx)) (vout tx)"

section \<open>What an accepted transaction satisfies\<close>

lemma has_duplicate_distinct:
  "\<not> has_duplicate S ins \<longleftrightarrow> distinct (map prevout ins) \<and> set (map prevout ins) \<inter> S = {}"
  by (induction S ins rule: has_duplicate.induct) auto

abbreviation sum_out :: "CTxOut list \<Rightarrow> int" where
  "sum_out outs \<equiv> sum_list (map (\<lambda>out. sint (nValue out)) outs)"

lemma check_outputs_Inr:
  "check_outputs user acc outs = Inr v \<longleftrightarrow>
     list_all (\<lambda>out. MoneyRange (nValue out) \<and> \<not> (CTxOut_IsEmpty out \<and> user)) outs \<and>
     v = acc + of_int (sum_out outs)"
  by (induction user acc outs rule: check_outputs.induct) (auto simp: MoneyRange_def add.assoc)

lemma sum_out_nonneg: "list_all (\<lambda>out. MoneyRange (nValue out)) outs \<Longrightarrow> 0 \<le> sum_out outs \<and> sum_out outs \<le> int (length outs) * MAX_MONEY"
  by (induction outs) (auto simp: MoneyRange_def algebra_simps)

lemma sint_of_int_id:
  assumes "- (2 ^ 63) \<le> x" and "x < 2 ^ 63"
  shows "sint (of_int x :: int64) = x"
  using signed_take_bit_int_eq_self [of 63 x] assms by (simp add: sint_sbintrunc')

lemma CheckTransaction_Accepted:
  "CheckTransaction tx = Accepted \<longleftrightarrow>
     tx_nVersion tx = 1 \<and> vin tx \<noteq> [] \<and> (vout tx = [] \<longrightarrow> (\<exists>txin \<in> set (vin tx). infos txin \<noteq> [])) \<and>
     list_all CTxIn_CheckTxInfos (vin tx) \<and> length (tx_bytes tx) \<le> MAX_BLOCK_SIZE \<and>
     list_all (\<lambda>out. subCurrency out = [] \<and> MoneyRange (nValue out) \<and>
       (\<not> IsCoinBase tx \<and> \<not> IsCoinStake tx \<longrightarrow> \<not> CTxOut_IsEmpty out)) (vout tx) \<and>
     MoneyRange (of_int (sum_out (vout tx))) \<and> distinct (map prevout (vin tx)) \<and>
     (if IsCoinBase tx then 2 \<le> length (scriptSig (vin tx ! 0)) \<and> length (scriptSig (vin tx ! 0)) \<le> 100
      else list_all (\<lambda>txin. \<not> COutPoint_IsNull (prevout txin)) (vin tx))"
  (is "_ \<longleftrightarrow> ?R")
proof (cases "check_outputs (\<not> IsCoinBase tx \<and> \<not> IsCoinStake tx) 0 (vout tx)")
  case (Inl n)
  then have "\<not> ?R" using check_outputs_Inr [of "\<not> IsCoinBase tx \<and> \<not> IsCoinStake tx" 0 "vout tx"]
    by (auto simp: list_all_iff)
  moreover have "CheckTransaction tx \<noteq> Accepted" using Inl by (simp add: CheckTransaction_def)
  ultimately show ?thesis by (simp only: simp_thms)
next
  case (Inr v)
  then show ?thesis
    using check_outputs_Inr [of "\<not> IsCoinBase tx \<and> \<not> IsCoinStake tx" 0 "vout tx" v] has_duplicate_distinct [of "{}" "vin tx"]
    unfolding CheckTransaction_def by (auto simp: list_all_iff list_ex_iff not_less split: if_splits)
qed

text \<open>
  C35. \<^verbatim>\<open>CheckTransaction\<close> accepts exactly the transactions of version 1 in the base currency that fit a
  block, spend at least one and no outpoint twice, carry valid infos, have only outputs within the
  money range, none of them empty in an ordinary transaction, and, for a coinbase, a script of 2 to 100
  bytes, else no null outpoint. With up to 4611 outputs their exact total is then within the range.
\<close>

theorem CheckTransaction_correct:
  shows "(CheckTransaction tx = Accepted \<longleftrightarrow>
     tx_nVersion tx = 1 \<and> vin tx \<noteq> [] \<and> (vout tx = [] \<longrightarrow> (\<exists>txin \<in> set (vin tx). infos txin \<noteq> [])) \<and>
     list_all CTxIn_CheckTxInfos (vin tx) \<and> length (tx_bytes tx) \<le> MAX_BLOCK_SIZE \<and>
     list_all (\<lambda>out. subCurrency out = [] \<and> MoneyRange (nValue out) \<and>
       (\<not> IsCoinBase tx \<and> \<not> IsCoinStake tx \<longrightarrow> \<not> CTxOut_IsEmpty out)) (vout tx) \<and>
     MoneyRange (of_int (sum_out (vout tx))) \<and> distinct (map prevout (vin tx)) \<and>
     (if IsCoinBase tx then 2 \<le> length (scriptSig (vin tx ! 0)) \<and> length (scriptSig (vin tx ! 0)) \<le> 100
      else list_all (\<lambda>txin. \<not> COutPoint_IsNull (prevout txin)) (vin tx))) \<and>
    (CheckTransaction tx = Accepted \<and> length (vout tx) \<le> 4611 \<longrightarrow>
       0 \<le> sum_out (vout tx) \<and> sum_out (vout tx) \<le> MAX_MONEY)"
proof -
  have "0 \<le> sum_out (vout tx) \<and> sum_out (vout tx) \<le> MAX_MONEY"
    if ok: "CheckTransaction tx = Accepted" and n: "length (vout tx) \<le> 4611"
  proof -
    have r: "list_all (\<lambda>out. MoneyRange (nValue out)) (vout tx)" "MoneyRange (of_int (sum_out (vout tx)))"
      using ok unfolding CheckTransaction_Accepted by (auto simp: list_all_iff)
    have b: "0 \<le> sum_out (vout tx)" "sum_out (vout tx) \<le> int (length (vout tx)) * MAX_MONEY"
      using sum_out_nonneg [OF r(1)] by simp_all
    have "int (length (vout tx)) * MAX_MONEY \<le> 4611 * MAX_MONEY"
      using n by (intro mult_right_mono) (simp_all add: MAX_MONEY_def COIN_def)
    then have "sint (of_int (sum_out (vout tx)) :: int64) = sum_out (vout tx)"
      using b by (simp add: sint_of_int_id MAX_MONEY_def COIN_def)
    then show ?thesis using b r(2) by (simp add: MoneyRange_def)
  qed
  then show ?thesis using CheckTransaction_Accepted [of tx] by blast
qed

lemma compact_size_le: "GetSizeOfCompactSize n \<le> 9"
  by (simp add: GetSizeOfCompactSize_def)

lemma vector_bytes_le: "length (Serialize_vector_bytes v) \<le> 9 + length v"
  using compact_size_le [of "size_word v"] by (simp add: length_Serialize_vector_bytes)

lemma vector_le: "length (Serialize_vector enc v) \<le> 9 + sum_list (map (length \<circ> enc) v)"
  using compact_size_le [of "size_word v"] by (simp add: length_Serialize_vector)

lemma txout_le: "length (Serialize_CTxOut out) \<le> 26 + length (subCurrency out) + length (scriptPubKey out)"
  using vector_bytes_le [of "subCurrency out"] vector_bytes_le [of "scriptPubKey out"] by (simp add: Serialize_CTxOut_def)

lemma tx_bytes_le:
  assumes "tx_nVersion tx = 1"
  shows "length (tx_bytes tx) \<le> 30 + sum_list (map (length \<circ> Serialize_CTxIn) (vin tx)) +
    sum_list (map (length \<circ> Serialize_CTxOut) (vout tx))"
  using vector_le [of Serialize_CTxIn "vin tx"] vector_le [of Serialize_CTxOut "vout tx"] assms
  by (simp add: tx_bytes_def mint_bytes_def tx_types)

lemma demo_in_le: "length (Serialize_CTxIn (vin demo_tx ! 0)) \<le> 60"
  using vector_bytes_le [of "[1, 2]"]
  by (simp add: demo_tx_def Serialize_CTxIn_def Serialize_COutPoint_def length_Serialize_vector GetSizeOfCompactSize_def size_word_def)

lemma demo_tx_plain: "\<not> IsCoinBase (demo_tx\<lparr> vout := outs \<rparr>)" "\<not> COutPoint_IsNull (prevout (vin demo_tx ! 0))"
  "vin demo_tx = [vin demo_tx ! 0]" "CTxIn_CheckTxInfos (vin demo_tx ! 0)"
  by (simp_all add: demo_tx_def IsCoinBase_def COutPoint_IsNull_def CTxIn_CheckTxInfos_def)

theorem CheckTransaction_correct_witness:
  "CheckTransaction demo_tx = Accepted \<and> sum_out (vout demo_tx) \<le> MAX_MONEY"
proof -
  have "length (tx_bytes demo_tx) \<le> MAX_BLOCK_SIZE"
    using tx_bytes_le [of demo_tx] demo_in_le txout_le [of "vout demo_tx ! 0"]
    by (simp add: demo_tx_def MAX_BLOCK_SIZE_def)
  then have "CheckTransaction demo_tx = Accepted"
    by (simp add: CheckTransaction_Accepted)
       (simp add: demo_tx_def IsCoinBase_def COutPoint_IsNull_def CTxIn_CheckTxInfos_def MoneyRange_def MAX_MONEY_def
          COIN_def CTxOut_IsEmpty_def)
  then show ?thesis using CheckTransaction_correct [of demo_tx] by (simp add: demo_tx_def)
qed

section \<open>The total of the outputs can wrap\<close>

text \<open>9223 outputs of the whole money supply and one that brings the total to \<open>2 ^ 64\<close>.\<close>

definition big_out :: "int64 \<Rightarrow> CTxOut" where
  "big_out v = \<lparr> subCurrency = [], nValue = v, scriptPubKey = [0x51] \<rparr>"

definition wrap_tx :: CTransaction where
  "wrap_tx = demo_tx\<lparr> vout := replicate 9223 (big_out 2000000000000000) @ [big_out 744073709551616] \<rparr>"

lemma sum_out_replicate: "sum_out (replicate n out) = int n * sint (nValue out)"
  by (induction n) (simp_all add: algebra_simps)

lemma wrap_total: "sum_out (vout wrap_tx) = 2 ^ 64"
proof -
  have v: "sint (2000000000000000 :: int64) = 2000000000000000" "sint (744073709551616 :: int64) = 744073709551616"
    by simp_all
  have "sum_out (vout wrap_tx) = sum_out (replicate 9223 (big_out 2000000000000000)) + sint (nValue (big_out 744073709551616))"
    by (simp add: wrap_tx_def)
  then show ?thesis unfolding sum_out_replicate by (simp add: big_out_def)
qed

lemma sum_list_replicate_nat: "sum_list (replicate n k) = n * k" for k :: nat
  by (induction n) simp_all

lemma wrap_size: "length (tx_bytes wrap_tx) \<le> MAX_BLOCK_SIZE"
proof -
  have b: "length (Serialize_CTxOut (big_out v)) \<le> 27" for v
    using txout_le [of "big_out v"] by (simp add: big_out_def)
  have o: "sum_list (map (length \<circ> Serialize_CTxOut) (vout wrap_tx)) \<le> 9223 * 27 + 27"
    using b [of 2000000000000000] b [of 744073709551616] by (simp add: wrap_tx_def sum_list_replicate_nat)
  have "sum_list (map (length \<circ> Serialize_CTxIn) (vin wrap_tx)) \<le> 60"
    using demo_in_le by (simp add: wrap_tx_def demo_tx_def)
  then show ?thesis
    using tx_bytes_le [of wrap_tx] o by (simp add: wrap_tx_def demo_tx_def MAX_BLOCK_SIZE_def)
qed

text \<open>
  C36. \<^verbatim>\<open>CheckTransaction\<close> tests the range of the total only after the loop, so a total that wraps around
  64 bits passes: there is a transaction it accepts whose outputs add up to \<open>2 ^ 64\<close>, more than all
  money. \<^verbatim>\<open>GetValueOut\<close>, which tests every partial sum, throws on it.
\<close>

theorem CheckTransaction_total_wraps:
  "\<exists>tx. CheckTransaction tx = Accepted \<and> MAX_MONEY < sum_out (vout tx) \<and> GetValueOut tx = None"
proof -
  have r: "MoneyRange 2000000000000000" "MoneyRange 744073709551616" "MoneyRange (of_int (2 ^ 64))"
    by (simp_all add: MoneyRange_def MAX_MONEY_def COIN_def)
  obtain txin where txin: "vin wrap_tx = [txin]" "\<not> COutPoint_IsNull (prevout txin)" "CTxIn_CheckTxInfos txin"
    using demo_tx_plain(2-4) by (simp add: wrap_tx_def)
  have plain: "\<not> IsCoinBase wrap_tx" "tx_nVersion wrap_tx = 1" "vout wrap_tx \<noteq> []"
    using demo_tx_plain(1) by (simp_all add: wrap_tx_def demo_tx_def)
  have outs: "list_all (\<lambda>out. subCurrency out = [] \<and> MoneyRange (nValue out) \<and> \<not> CTxOut_IsEmpty out) (vout wrap_tx)"
    using r by (simp add: wrap_tx_def list_all_iff big_out_def CTxOut_IsEmpty_def)
  then have "list_all (\<lambda>out. subCurrency out = [] \<and> MoneyRange (nValue out) \<and>
      (\<not> IsCoinBase wrap_tx \<and> \<not> IsCoinStake wrap_tx \<longrightarrow> \<not> CTxOut_IsEmpty out)) (vout wrap_tx)"
    by (auto simp: list_all_iff)
  then have "CheckTransaction wrap_tx = Accepted"
    unfolding CheckTransaction_Accepted wrap_total using plain txin r(3) wrap_size by simp
  moreover have "GetValueOut wrap_tx = None"
  proof (rule ccontr)
    assume "GetValueOut wrap_tx \<noteq> None"
    then obtain v where "GetValueOut wrap_tx = Some v" by blast
    then show False using wrap_total unfolding GetValueOut_Some by (simp add: MAX_MONEY_def COIN_def)
  qed
  ultimately show ?thesis using wrap_total by (intro exI [of _ wrap_tx]) (simp add: MAX_MONEY_def COIN_def)
qed

end
