(* ===== verification/Chain.thy ===== *)
theory Chain
  imports Transaction Complex_Main "HOL-Library.Signed_Division"
begin

text \<open>
  The block index and the rules that depend on it, \<^verbatim>\<open>src/src/main.h\<close> and \<^verbatim>\<open>src/src/main.cpp\<close>:
  proof-of-work and proof-of-stake rewards, the minimum work after a checkpoint, the last block of a
  kind, the median time and the proof-of-work check. A block index with its chain of \<^verbatim>\<open>pprev\<close>
  pointers is the list of its blocks, the newest first; the null pointer is the empty list.
\<close>

section \<open>The block index\<close>

record CBlockIndex =
  bi_hash :: uint256
  bi_nFile :: uint32
  bi_nBlockPos :: uint32
  bi_bnChainTrust :: int
  bi_nHeight :: int
  bi_nPoWHeight :: int
  bi_nMint :: int
  bi_nMoneySupply :: int
  bi_nPoSTotalMint :: int
  bi_nPoSDebt :: int
  bi_nFlags :: uint32
  bi_nStakeModifier :: uint64
  bi_nStakeModifierChecksum :: uint32
  bi_prevoutStake :: COutPoint
  bi_nStakeTime :: uint32
  bi_hashProofOfStake :: uint256
  bi_nVersion :: int32
  bi_hashMerkleRoot :: uint256
  bi_nTime :: uint32
  bi_nBits :: uint32
  bi_nNonce :: uint32

type_synonym chain = "CBlockIndex list"

definition BLOCK_PROOF_OF_STAKE :: uint32 where "BLOCK_PROOF_OF_STAKE = 1"
definition BLOCK_STAKE_ENTROPY :: uint32 where "BLOCK_STAKE_ENTROPY = 2"
definition BLOCK_STAKE_MODIFIER :: uint32 where "BLOCK_STAKE_MODIFIER = 4"

definition bi_IsProofOfStake :: "CBlockIndex \<Rightarrow> bool" where
  "bi_IsProofOfStake b = (bi_nFlags b AND BLOCK_PROOF_OF_STAKE \<noteq> 0)"

definition bi_IsProofOfWork :: "CBlockIndex \<Rightarrow> bool" where
  "bi_IsProofOfWork b = (\<not> bi_nFlags b AND BLOCK_PROOF_OF_STAKE \<noteq> 0)"

definition bi_SetProofOfStake :: "CBlockIndex \<Rightarrow> CBlockIndex" where
  "bi_SetProofOfStake b = b\<lparr> bi_nFlags := bi_nFlags b OR BLOCK_PROOF_OF_STAKE \<rparr>"

definition bi_GetStakeEntropyBit :: "CBlockIndex \<Rightarrow> uint32" where
  "bi_GetStakeEntropyBit b = drop_bit 1 (bi_nFlags b AND BLOCK_STAKE_ENTROPY)"

definition bi_SetStakeEntropyBit :: "uint32 \<Rightarrow> CBlockIndex \<Rightarrow> CBlockIndex option" where
  "bi_SetStakeEntropyBit nEntropyBit b =
     (if nEntropyBit > 1 then None
      else Some (b\<lparr> bi_nFlags := bi_nFlags b OR (if nEntropyBit \<noteq> 0 then BLOCK_STAKE_ENTROPY else 0) \<rparr>))"

definition bi_GeneratedStakeModifier :: "CBlockIndex \<Rightarrow> bool" where
  "bi_GeneratedStakeModifier b = (bi_nFlags b AND BLOCK_STAKE_MODIFIER \<noteq> 0)"

definition bi_SetStakeModifier :: "uint64 \<Rightarrow> bool \<Rightarrow> CBlockIndex \<Rightarrow> CBlockIndex" where
  "bi_SetStakeModifier nModifier fGenerated b =
     b\<lparr> bi_nStakeModifier := nModifier, bi_nFlags := (if fGenerated then bi_nFlags b OR BLOCK_STAKE_MODIFIER else bi_nFlags b) \<rparr>"

definition bi_GetBlockTime :: "CBlockIndex \<Rightarrow> int" where
  "bi_GetBlockTime b = uint (bi_nTime b)"

text \<open>The trust a block adds to its chain.\<close>

definition bi_GetBlockTrust :: "'a bignum_lib_scheme \<Rightarrow> CBlockIndex \<Rightarrow> int" where
  "bi_GetBlockTrust lib b =
     (let bnTarget = SetCompact lib (bi_nBits b) in
      if bnTarget \<le> 0 then 0
      else if bi_IsProofOfStake b then bn_div (bn_shl 1 256) (bnTarget + 1) else 1)"

definition nMedianTimeSpan :: nat where "nMedianTimeSpan = 11"

definition GetMedianTimePast :: "chain \<Rightarrow> int" where
  "GetMedianTimePast c =
     (let times = sort (rev (map bi_GetBlockTime (take nMedianTimeSpan c))) in times ! (length times div 2))"

text \<open>\<^verbatim>\<open>GetLastBlockIndex\<close> stops at the first block; \<^verbatim>\<open>GetLastBlockIndex2\<close> runs off the chain.\<close>

fun GetLastBlockIndex :: "chain \<Rightarrow> bool \<Rightarrow> chain" where
  "GetLastBlockIndex [] fProofOfStake = []"
| "GetLastBlockIndex [b] fProofOfStake = [b]"
| "GetLastBlockIndex (b # p # ps) fProofOfStake =
     (if bi_IsProofOfStake b \<noteq> fProofOfStake then GetLastBlockIndex (p # ps) fProofOfStake else b # p # ps)"

fun GetLastBlockIndex2 :: "chain \<Rightarrow> bool \<Rightarrow> chain" where
  "GetLastBlockIndex2 [] fProofOfStake = []"
| "GetLastBlockIndex2 (b # ps) fProofOfStake =
     (if bi_IsProofOfStake b \<noteq> fProofOfStake then GetLastBlockIndex2 ps fProofOfStake else b # ps)"

definition GetTypeHeight :: "chain \<Rightarrow> bool \<Rightarrow> int" where
  "GetTypeHeight c fProofOfStake =
     (case c of
        [] \<Rightarrow> 0
      | b # _ \<Rightarrow> if fProofOfStake then bi_nHeight b - bi_nPoWHeight b else bi_nPoWHeight b)"

section \<open>Rewards\<close>

text \<open>A 64-bit signed result, with the wrap-around of the machine.\<close>

definition i64 :: "int \<Rightarrow> int" where
  "i64 x = signed_take_bit 63 x"

definition MAX_MINT_PROOF_OF_WORK :: int where "MAX_MINT_PROOF_OF_WORK = 400 * COIN"

definition full_subsidy :: "int \<Rightarrow> int" where
  "full_subsidy nPoWHeight =
     (if nPoWHeight < 576
      then i64 (COIN + i64 (i64 (i64 (399 * COIN) * (nPoWHeight - 1)) * (nPoWHeight - 1)) sdiv 575 sdiv 575)
      else i64 (i64 (i64 (400 * COIN) * 26280) * 26280) sdiv i64 (nPoWHeight * nPoWHeight))"

definition GetNextProofOfWorkReward :: "chain \<Rightarrow> bool \<Rightarrow> int" where
  "GetNextProofOfWorkReward pPrev fAccountForPoS =
     (case pPrev of
        [] \<Rightarrow> COIN
      | b # _ \<Rightarrow>
          let nFullSubsidy = min (full_subsidy (bi_nPoWHeight b + 1)) MAX_MINT_PROOF_OF_WORK in
          if \<not> fAccountForPoS then nFullSubsidy
          else max (nFullSubsidy sdiv 4) (i64 (nFullSubsidy - bi_nPoSDebt b)))"

definition GetProofOfStakeReward :: "int \<Rightarrow> int" where
  "GetProofOfStakeReward nCoinAgeSeconds =
     i64 (i64 (CENT * nCoinAgeSeconds) * 33) sdiv 60 sdiv 60 sdiv 24 sdiv (365 * 33 + 8)"

section \<open>Work\<close>

text \<open>The limits of the network: main or test.\<close>

definition bnNewProofOfWorkLimit :: "bool \<Rightarrow> int" where
  "bnNewProofOfWorkLimit fTestNet = (if fTestNet then (2 ^ 256 - 1) div 2 ^ 5 else (2 ^ 256 - 1) div 2 ^ 10)"

definition bnOldProofOfWorkLimit :: "bool \<Rightarrow> int" where
  "bnOldProofOfWorkLimit fTestNet = (if fTestNet then (2 ^ 256 - 1) div 2 ^ 5 else (2 ^ 256 - 1) div 2 ^ 17)"

definition bnInitialPoSTarget :: "bool \<Rightarrow> int" where
  "bnInitialPoSTarget fTestNet = (if fTestNet then (2 ^ 256 - 1) div 2 ^ 14 else (2 ^ 256 - 1) div 2 ^ 36)"

definition nPoWSwitchHeight :: int where "nPoWSwitchHeight = 8"

definition GetProofOfWorkLimit :: "bool \<Rightarrow> int \<Rightarrow> int" where
  "GetProofOfWorkLimit fTestNet nHeight =
     (if nHeight < nPoWSwitchHeight then bnOldProofOfWorkLimit fTestNet else bnNewProofOfWorkLimit fTestNet)"

function min_work_loop :: "int \<Rightarrow> int \<Rightarrow> int \<Rightarrow> int" where
  "min_work_loop bnLimit nTime bnResult =
     (if nTime > 0 \<and> bnResult < bnLimit
      then min_work_loop bnLimit (nTime - 24 * 60 * 60) (bnResult * 2) else bnResult)"
  by pat_completeness auto
termination
  by (relation "measure (\<lambda>(l, t, r). nat t)") auto

declare min_work_loop.simps [simp del]

definition ComputeMinWork :: "'a bignum_lib_scheme \<Rightarrow> bool \<Rightarrow> CBlockIndex \<Rightarrow> int \<Rightarrow> uint32" where
  "ComputeMinWork lib fTestNet plast nTime =
     (let bnLimit = bnNewProofOfWorkLimit fTestNet;
          bnResult = min_work_loop bnLimit nTime (SetCompact lib (bi_nBits plast) * 2)
      in GetCompact lib (if bnResult > bnLimit then bnLimit else bnResult))"

definition CheckProofOfWork :: "'a bignum_lib_scheme \<Rightarrow> bool \<Rightarrow> uint256 \<Rightarrow> uint32 \<Rightarrow> bool" where
  "CheckProofOfWork lib fTestNet hash nBits =
     (let bnTarget = SetCompact lib nBits in
      if bnTarget \<le> 0 \<or> bnTarget > bnNewProofOfWorkLimit fTestNet then False
      else if hash > getuint256 lib bnTarget then False
      else True)"

section \<open>Properties of the rewards\<close>

lemma i64_id: "- (2 ^ 63) \<le> x \<Longrightarrow> x < 2 ^ 63 \<Longrightarrow> i64 x = x"
  unfolding i64_def by (rule signed_take_bit_int_eq_self)

lemma i64_mod: "i64 x = (x + 2 ^ 63) mod 2 ^ 64 - 2 ^ 63"
  by (simp add: i64_def signed_take_bit_eq_take_bit_shift take_bit_int_def)

lemma sdiv_nonneg: "0 \<le> a \<Longrightarrow> 0 < b \<Longrightarrow> a sdiv b = a div b" for a b :: int
  by (cases "a = 0") (simp_all add: signed_divide_int_def)

lemma full_subsidy_rising:
  assumes "1 \<le> h" and "h < 576"
  shows "full_subsidy h = COIN + 399 * COIN * (h - 1)\<^sup>2 div 330625"
proof -
  define q where "q = (h - 1) * (h - 1)"
  have "q \<le> 575 * 575" unfolding q_def using assms by (intro mult_mono) auto
  then have q: "0 \<le> q" "q \<le> 330625" by (simp_all add: q_def)
  have 1: "i64 (399 * COIN) = 399 * COIN" by (rule i64_id) (simp_all add: COIN_def)
  have 2: "i64 (399 * COIN * (h - 1)) = 399 * COIN * (h - 1)"
    using assms by (intro i64_id) (simp_all add: COIN_def)
  have 3: "i64 (399 * COIN * q) = 399 * COIN * q"
    by (rule i64_id) (use q in \<open>simp_all add: COIN_def\<close>)
  have 4: "399 * COIN * (h - 1) * (h - 1) = 399 * COIN * q" by (simp add: q_def)
  have d: "399 * COIN * q sdiv 575 sdiv 575 = 399 * COIN * q div 330625"
    using q by (simp add: sdiv_nonneg COIN_def zdiv_zmult2_eq [of 575 _ 575, simplified])
  have "399 * COIN * q div 330625 \<le> 399 * COIN * 330625 div 330625"
    using q by (intro zdiv_mono1) (simp_all add: COIN_def)
  then have b: "0 \<le> 399 * COIN * q div 330625" "399 * COIN * q div 330625 \<le> 399 * COIN"
    using q by (simp_all add: COIN_def)
  have "full_subsidy h = i64 (COIN + 399 * COIN * q div 330625)"
    using assms unfolding full_subsidy_def 1 2 4 3 d by simp
  also have "\<dots> = COIN + 399 * COIN * q div 330625"
    by (rule i64_id) (use b in \<open>simp_all add: COIN_def\<close>)
  finally show ?thesis by (simp add: power2_eq_square q_def)
qed

lemma full_subsidy_falling:
  assumes "576 \<le> h" and "h < 2 ^ 31"
  shows "full_subsidy h = 400 * COIN * 26280\<^sup>2 div h\<^sup>2"
proof -
  have "h * h < 2 ^ 31 * 2 ^ 31" using assms by (intro mult_strict_mono) simp_all
  then have "i64 (h * h) = h * h" using assms by (intro i64_id) (simp_all add: order_trans [of _ 0])
  moreover have "i64 (i64 (i64 (400 * COIN) * 26280) * 26280) = 400 * COIN * 26280\<^sup>2"
    by (simp add: COIN_def i64_id)
  moreover have "0 < h * h" using assms by simp
  ultimately show ?thesis using assms by (simp add: full_subsidy_def sdiv_nonneg COIN_def power2_eq_square)
qed

definition pow_reward :: "int \<Rightarrow> int" where
  "pow_reward h = min (full_subsidy h) MAX_MINT_PROOF_OF_WORK"

lemma GetNextProofOfWorkReward_full: "GetNextProofOfWorkReward (b # ps) False = pow_reward (bi_nPoWHeight b + 1)"
  by (simp add: GetNextProofOfWorkReward_def pow_reward_def Let_def)

lemma div_int_nonneg: "0 \<le> a \<Longrightarrow> 0 \<le> b \<Longrightarrow> 0 \<le> a div b" for a b :: int
  by (cases "b = 0") (simp_all add: pos_imp_zdiv_nonneg_iff)

lemma pow_reward_range:
  assumes "1 \<le> h" and "h < 2 ^ 31"
  shows "0 \<le> pow_reward h \<and> pow_reward h \<le> 400 * COIN"
proof (cases "h < 576")
  case True
  moreover have "0 \<le> 399 * COIN * (h - 1)\<^sup>2 div 330625" by (simp add: COIN_def pos_imp_zdiv_nonneg_iff)
  ultimately have "0 \<le> full_subsidy h" using assms full_subsidy_rising [of h] by (simp add: COIN_def)
  then show ?thesis by (simp add: pow_reward_def MAX_MINT_PROOF_OF_WORK_def COIN_def)
next
  case False
  moreover have "0 \<le> 400 * COIN * 26280\<^sup>2 div h\<^sup>2" by (rule div_int_nonneg) (simp_all add: COIN_def)
  ultimately have "0 \<le> full_subsidy h" using assms full_subsidy_falling [of h] by simp
  then show ?thesis by (simp add: pow_reward_def MAX_MINT_PROOF_OF_WORK_def COIN_def)
qed

lemma inverse_square_step:
  fixes n :: nat
  assumes "n \<ge> 1"
  shows "1 / (real (Suc n))\<^sup>2 \<le> 1 / real n - 1 / real (Suc n)"
proof -
  have "1 / real n - 1 / real (Suc n) = 1 / (real n * real (Suc n))" using assms by (simp add: divide_simps)
  moreover have "real n * real (Suc n) \<le> (real (Suc n))\<^sup>2" by (simp add: power2_eq_square)
  moreover have "0 < real n * real (Suc n)" using assms by simp
  ultimately show ?thesis by (simp add: frac_le)
qed

lemma pow_reward_tail:
  assumes "26280 \<le> n" and "int n < 2 ^ 31 - 1"
  shows "real_of_int (pow_reward (int (Suc n))) \<le> 400 * real_of_int COIN * 26280\<^sup>2 * (1 / real n - 1 / real (Suc n))"
proof -
  have "pow_reward (int (Suc n)) \<le> 400 * COIN * 26280\<^sup>2 div (int (Suc n))\<^sup>2"
    using assms full_subsidy_falling [of "int (Suc n)"] by (simp add: pow_reward_def)
  then have "real_of_int (pow_reward (int (Suc n))) \<le> real_of_int (400 * COIN * 26280\<^sup>2 div (int (Suc n))\<^sup>2)"
    by (rule of_int_le_iff [THEN iffD2])
  also have "\<dots> \<le> real_of_int (400 * COIN * 26280\<^sup>2) / real_of_int ((int (Suc n))\<^sup>2)"
    by (rule real_of_int_div4)
  also have "\<dots> = 400 * real_of_int COIN * 26280\<^sup>2 * (1 / (real (Suc n))\<^sup>2)" by simp
  also have "\<dots> \<le> 400 * real_of_int COIN * 26280\<^sup>2 * (1 / real n - 1 / real (Suc n))"
    using inverse_square_step [of n] assms by (intro mult_left_mono) (simp_all add: COIN_def)
  finally show ?thesis .
qed

lemma pow_reward_sum_real:
  assumes "26280 \<le> n" and "int n < 2 ^ 31"
  shows "real_of_int (\<Sum>h = 1..n. pow_reward (int h)) \<le>
    400 * real_of_int COIN * 26280 * 2 - 400 * real_of_int COIN * 26280\<^sup>2 / real n"
  using assms
proof (induction n rule: dec_induct)
  case base
  have "(\<Sum>h = 1..26280. pow_reward (int h)) \<le> (\<Sum>h = 1..26280::nat. 400 * COIN)"
    using pow_reward_range by (intro sum_mono) simp
  then have "(\<Sum>h = 1..26280. pow_reward (int h)) \<le> 26280 * (400 * COIN)" by simp
  then have "real_of_int (\<Sum>h = 1..26280. pow_reward (int h)) \<le> real_of_int (26280 * (400 * COIN))"
    by (rule of_int_le_iff [THEN iffD2])
  then show ?case by (simp add: power2_eq_square)
next
  case (step n)
  have "(\<Sum>h = 1..Suc n. pow_reward (int h)) = (\<Sum>h = 1..n. pow_reward (int h)) + pow_reward (int (Suc n))"
    by simp
  then show ?case
    using step pow_reward_tail [of n] by (simp add: algebra_simps)
qed

lemma pow_reward_sum:
  assumes "int n < 2 ^ 31"
  shows "(\<Sum>h = 1..n. pow_reward (int h)) \<le> 21024000 * COIN"
proof (cases "26280 \<le> n")
  case True
  have "0 \<le> 400 * real_of_int COIN * 26280\<^sup>2 / real n" by (simp add: COIN_def)
  then have "real_of_int (\<Sum>h = 1..n. pow_reward (int h)) \<le> real_of_int (21024000 * COIN)"
    using pow_reward_sum_real [OF True assms] by simp
  then show ?thesis by (simp only: of_int_le_iff)
next
  case False
  then have "(\<Sum>h = 1..n. pow_reward (int h)) \<le> (\<Sum>h = 1..n. 400 * COIN)"
    using pow_reward_range by (intro sum_mono) simp
  also have "\<dots> = int n * (400 * COIN)" by simp
  also have "\<dots> \<le> 26280 * (400 * COIN)" using False by (intro mult_right_mono) (simp_all add: COIN_def)
  also have "\<dots> \<le> 21024000 * COIN" by (simp add: COIN_def)
  finally show ?thesis .
qed

text \<open>
  Proof-of-work creates a bounded amount of money. The full reward of the block at proof-of-work
  height \<open>h\<close> is computed without overflow and lies between 0 and 400 coins; the rewards of all blocks
  of a chain together stay below 21024000 coins, well under \<^verbatim>\<open>MAX_MONEY\<close>. With a non-negative
  proof-of-stake debt the reward paid is at least a quarter of the full one and at most the full one,
  and what is withheld never exceeds the debt.
\<close>

theorem proof_of_work_issuance:
  assumes "0 \<le> bi_nPoWHeight b" and "bi_nPoWHeight b < 2 ^ 31 - 1" and "int n < 2 ^ 31"
    and "0 \<le> bi_nPoSDebt b" and "bi_nPoSDebt b < 2 ^ 63"
  shows "GetNextProofOfWorkReward (b # ps) False = pow_reward (bi_nPoWHeight b + 1) \<and>
    0 \<le> GetNextProofOfWorkReward (b # ps) False \<and> GetNextProofOfWorkReward (b # ps) False \<le> 400 * COIN \<and>
    (\<Sum>h = 1..n. pow_reward (int h)) \<le> 21024000 * COIN \<and> 21024000 * COIN < MAX_MONEY \<and>
    GetNextProofOfWorkReward (b # ps) False div 4 \<le> GetNextProofOfWorkReward (b # ps) True \<and>
    GetNextProofOfWorkReward (b # ps) True \<le> GetNextProofOfWorkReward (b # ps) False \<and>
    GetNextProofOfWorkReward (b # ps) False - GetNextProofOfWorkReward (b # ps) True \<le> bi_nPoSDebt b"
proof -
  define r where "r = pow_reward (bi_nPoWHeight b + 1)"
  have full: "GetNextProofOfWorkReward (b # ps) False = r" by (simp add: GetNextProofOfWorkReward_full r_def)
  have r: "0 \<le> r" "r \<le> 400 * COIN" using pow_reward_range [of "bi_nPoWHeight b + 1"] assms by (simp_all add: r_def)
  have "i64 (r - bi_nPoSDebt b) = r - bi_nPoSDebt b"
    using r assms by (intro i64_id) (simp_all add: COIN_def)
  then have "GetNextProofOfWorkReward (b # ps) True = max (r div 4) (r - bi_nPoSDebt b)"
    using r by (simp add: GetNextProofOfWorkReward_def Let_def pow_reward_def [symmetric] r_def [symmetric] sdiv_nonneg)
  moreover have "r div 4 \<le> r" using r by simp
  ultimately show ?thesis
    using full r pow_reward_sum [OF assms(3)] assms(4) r_def by (auto simp: MAX_MONEY_def COIN_def max_def)
qed

definition demo_index :: CBlockIndex where
  "demo_index = \<lparr> bi_hash = 0, bi_nFile = 1, bi_nBlockPos = 8, bi_bnChainTrust = 0, bi_nHeight = 600, bi_nPoWHeight = 599,
     bi_nMint = 0, bi_nMoneySupply = 0, bi_nPoSTotalMint = 0, bi_nPoSDebt = 5000000, bi_nFlags = 0, bi_nStakeModifier = 0,
     bi_nStakeModifierChecksum = 0, bi_prevoutStake = COutPoint_SetNull, bi_nStakeTime = 0, bi_hashProofOfStake = 0,
     bi_nVersion = 1, bi_hashMerkleRoot = 0, bi_nTime = 1000, bi_nBits = 0x1e0fffff, bi_nNonce = 0 \<rparr>"

theorem proof_of_work_issuance_witness:
  "GetNextProofOfWorkReward [demo_index] False = 400 * COIN \<and> GetNextProofOfWorkReward [demo_index] True \<le> 400 * COIN \<and>
   400 * COIN - GetNextProofOfWorkReward [demo_index] True \<le> 5000000"
proof -
  have "full_subsidy 600 = 400 * COIN * 26280\<^sup>2 div 600\<^sup>2" by (rule full_subsidy_falling) simp_all
  then have "pow_reward 600 = 400 * COIN" by (simp add: pow_reward_def MAX_MINT_PROOF_OF_WORK_def COIN_def)
  moreover have f: "0 \<le> bi_nPoWHeight demo_index" "bi_nPoWHeight demo_index < 2 ^ 31 - 1" "int 0 < 2 ^ 31"
    "0 \<le> bi_nPoSDebt demo_index" "bi_nPoSDebt demo_index < 2 ^ 63"
    by (simp_all add: demo_index_def)
  moreover have "bi_nPoWHeight demo_index + 1 = 600" "bi_nPoSDebt demo_index = 5000000" by (simp_all add: demo_index_def)
  ultimately show ?thesis using proof_of_work_issuance [OF f, of "[]"] by simp
qed

text \<open>
  The stake reward is one hundredth of a coin per coin-year, a year counting \<open>365 + 8 / 33\<close> days,
  rounded down, as long as the coin age stays within 27949612232893 coin-seconds. One coin-second
  more and the 64-bit product overflows: the reward becomes negative.
\<close>

theorem stake_reward_exact:
  assumes "0 \<le> age" and "age \<le> 27949612232893"
  shows "GetProofOfStakeReward age = CENT * 33 * age div (60 * 60 * 24 * (365 * 33 + 8)) \<and>
    0 \<le> GetProofOfStakeReward age \<and> GetProofOfStakeReward (27949612232893 + 1) < 0"
proof -
  have 1: "i64 (CENT * age) = CENT * age" using assms by (intro i64_id) (simp_all add: CENT_def)
  have 2: "i64 (CENT * age * 33) = CENT * age * 33" using assms by (intro i64_id) (simp_all add: CENT_def)
  have nn: "0 \<le> CENT * age * 33" using assms by (simp add: CENT_def)
  have "GetProofOfStakeReward age = CENT * age * 33 sdiv 60 sdiv 60 sdiv 24 sdiv 12053"
    by (simp add: GetProofOfStakeReward_def 1 2)
  also have "\<dots> = CENT * age * 33 div 60 div 60 div 24 div 12053"
    using nn by (simp add: sdiv_nonneg pos_imp_zdiv_nonneg_iff)
  also have "\<dots> = CENT * age * 33 div (60 * 60 * 24 * 12053)" by (simp add: zdiv_zmult2_eq)
  also have "CENT * age * 33 = CENT * 33 * age" by simp
  finally have e: "GetProofOfStakeReward age = CENT * 33 * age div (60 * 60 * 24 * (365 * 33 + 8))" by simp
  moreover have "GetProofOfStakeReward (27949612232893 + 1) < 0"
    by (simp add: GetProofOfStakeReward_def CENT_def i64_mod signed_divide_int_def)
  ultimately show ?thesis using assms by (simp add: CENT_def)
qed

theorem stake_reward_exact_witness: "GetProofOfStakeReward (1000 * 31556400) = 9999827"
  using stake_reward_exact [of "1000 * 31556400"] by (simp add: CENT_def)

text \<open>
  A block passes the proof-of-work check exactly when its compact target is positive and within
  the limit of the network and its hash, as a number, does not exceed the target.
\<close>

theorem CheckProofOfWork_correct:
  assumes "mpi_format lib"
  shows "CheckProofOfWork lib fTestNet hash nBits \<longleftrightarrow>
    0 < SetCompact lib nBits \<and> SetCompact lib nBits \<le> bnNewProofOfWorkLimit fTestNet \<and> uint hash \<le> SetCompact lib nBits"
proof -
  let ?t = "SetCompact lib nBits"
  have "uint (getuint256 lib ?t) = ?t" if "0 < ?t" "?t \<le> bnNewProofOfWorkLimit fTestNet"
  proof -
    have "?t < 2 ^ 256" using that by (auto simp: bnNewProofOfWorkLimit_def split: if_splits)
    then show ?thesis using that assms by (simp add: getuint256_eq uint_word_of_int of_nat_nat)
  qed
  then show ?thesis by (auto simp: CheckProofOfWork_def Let_def word_less_def)
qed

lemma demo_SetCompact: "SetCompact demo_lib 0x01100000 = 16"
  by code_simp

theorem CheckProofOfWork_correct_witness:
  "CheckProofOfWork demo_lib False 16 0x01100000 \<and> \<not> CheckProofOfWork demo_lib False 17 0x01100000"
  using CheckProofOfWork_correct [OF demo_lib_format, of False 16 "0x01100000"]
    CheckProofOfWork_correct [OF demo_lib_format, of False 17 "0x01100000"]
  by (simp add: demo_SetCompact bnNewProofOfWorkLimit_def)

text \<open>
  The easiest target accepted some time after a base target never exceeds the limit of the network:
  the loop ends, its result, capped, is the smaller of the limit and the base doubled once per day
  begun, and no later time gives a smaller target.
\<close>

theorem ComputeMinWork_correct:
  assumes "0 < bnBase" and "0 \<le> nTime" and "nTime \<le> nTime'"
  shows "min bnLimit (min_work_loop bnLimit nTime bnBase) =
      min bnLimit (bnBase * 2 ^ nat ((nTime + 86399) div 86400)) \<and>
    min bnLimit (min_work_loop bnLimit nTime bnBase) \<le> min bnLimit (min_work_loop bnLimit nTime' bnBase) \<and>
    ComputeMinWork lib fTestNet b nTime =
      GetCompact lib (min (bnNewProofOfWorkLimit fTestNet)
        (min_work_loop (bnNewProofOfWorkLimit fTestNet) nTime (SetCompact lib (bi_nBits b) * 2)))"
proof -
  let ?days = "\<lambda>t. nat ((t + 86399) div 86400) :: nat"
  have days: "(t + 86399) div 86400 = (t - 86400 + 86399) div 86400 + 1" for t :: int
    using div_add_self2 [of 86400 "t - 86400 + 86399"] by simp
  have days0: "?days t = 0" if "t \<le> 0" for t
  proof -
    have "(t + 86399) div 86400 \<le> 86399 div 86400" using that by (intro zdiv_mono1) simp_all
    then show ?thesis by simp
  qed
  have days1: "?days t = Suc (?days (t - 86400))" if "t > 0" for t
  proof -
    have "0 \<le> (t - 86400 + 86399) div 86400" using that by (simp add: pos_imp_zdiv_nonneg_iff)
    then show ?thesis unfolding days [of t] by (simp add: nat_add_distrib)
  qed
  have loop: "min bnLimit (min_work_loop bnLimit t r) = min bnLimit (r * 2 ^ ?days t)" if "0 < r" for t r
    using that
  proof (induction bnLimit t r rule: min_work_loop.induct)
    case (1 l t r)
    show ?case
    proof (cases "t > 0 \<and> r < l")
      case True
      then show ?thesis using 1 days1 [of t] by (subst min_work_loop.simps) (simp add: mult.assoc mult.commute)
    next
      case False
      then show ?thesis
      proof (cases "t > 0")
        case True
        then have "l \<le> r" using False by simp
        moreover have "r \<le> r * 2 ^ ?days t" using "1.prems" by simp
        ultimately show ?thesis using False by (subst min_work_loop.simps) simp
      next
        case False
        then show ?thesis using days0 [of t] by (subst min_work_loop.simps) simp
      qed
    qed
  qed
  have "bnBase * 2 ^ ?days nTime \<le> bnBase * 2 ^ ?days nTime'"
    using assms by (intro mult_left_mono power_increasing nat_mono zdiv_mono1) simp_all
  then show ?thesis
    using loop [OF assms(1)] by (auto simp: ComputeMinWork_def Let_def min_def)
qed

theorem ComputeMinWork_correct_witness:
  "min 1000 (min_work_loop 1000 100000 10) = 40"
  using ComputeMinWork_correct [of 10 100000 100000 1000 demo_lib False demo_index] by simp

end
