(* ===== verification/Connect.thy ===== *)
theory Connect
  imports TxChecks Chain
begin

text \<open>
  Spending: the transaction index of \<^verbatim>\<open>src/src/db.cpp\<close> and \<^verbatim>\<open>FetchInputs\<close>, \<^verbatim>\<open>GetValueIn\<close>,
  \<^verbatim>\<open>GetMinFee\<close>, \<^verbatim>\<open>GetCoinAge\<close>, \<^verbatim>\<open>ConnectInputs\<close> and \<^verbatim>\<open>DisconnectInputs\<close> of \<^verbatim>\<open>src/src/main.cpp\<close>.
  The database is the map from transaction hashes to index entries; writes to it are taken to succeed.
  The block files are maps from positions to what is read there, \<open>None\<close> for a failed read.
\<close>

section \<open>The transaction index\<close>

record CDiskTxPos =
  pos_nFile :: uint32
  pos_nBlockPos :: uint32
  pos_nTxPos :: uint32

definition CDiskTxPos_SetNull :: CDiskTxPos where
  "CDiskTxPos_SetNull = \<lparr> pos_nFile = - 1, pos_nBlockPos = 0, pos_nTxPos = 0 \<rparr>"

definition CDiskTxPos_IsNull :: "CDiskTxPos \<Rightarrow> bool" where
  "CDiskTxPos_IsNull p = (pos_nFile p = - 1)"

record CTxIndex =
  ix_pos :: CDiskTxPos
  vSpent :: "CDiskTxPos list"

definition CTxIndex_new :: "CDiskTxPos \<Rightarrow> nat \<Rightarrow> CTxIndex" where
  "CTxIndex_new pos nOutputs = \<lparr> ix_pos = pos, vSpent = replicate nOutputs CDiskTxPos_SetNull \<rparr>"

record CTxDB =
  mapTxIndex :: "uint256 \<rightharpoonup> CTxIndex"
  disk_tx :: "CDiskTxPos \<rightharpoonup> CTransaction"
  disk_block_time :: "uint32 \<times> uint32 \<rightharpoonup> uint32"

definition ReadTxIndex :: "CTxDB \<Rightarrow> uint256 \<Rightarrow> CTxIndex option" where
  "ReadTxIndex db hash = mapTxIndex db hash"

definition UpdateTxIndex :: "uint256 \<Rightarrow> CTxIndex \<Rightarrow> CTxDB \<Rightarrow> CTxDB" where
  "UpdateTxIndex hash ix db = db\<lparr> mapTxIndex := (mapTxIndex db)(hash \<mapsto> ix) \<rparr>"

definition EraseTxIndex :: "uint256 \<Rightarrow> CTxDB \<Rightarrow> CTxDB" where
  "EraseTxIndex hash db = db\<lparr> mapTxIndex := (mapTxIndex db)(hash := None) \<rparr>"

text \<open>\<^verbatim>\<open>CTransaction::ReadFromDisk(txdb, prevout, txindex)\<close>\<close>

definition ReadFromDisk :: "CTxDB \<Rightarrow> COutPoint \<Rightarrow> (CTransaction \<times> CTxIndex) option" where
  "ReadFromDisk db out =
     (case ReadTxIndex db (op_hash out) of
        None \<Rightarrow> None
      | Some ix \<Rightarrow>
          (case disk_tx db (ix_pos ix) of
             None \<Rightarrow> None
           | Some tx \<Rightarrow> if unat (op_n out) \<ge> length (vout tx) then None else Some (tx, ix)))"

section \<open>Fetching the inputs\<close>

type_synonym MapPrevTx = "uint256 \<rightharpoonup> CTxIndex \<times> CTransaction"

definition pos_mempool :: CDiskTxPos where
  "pos_mempool = \<lparr> pos_nFile = 1, pos_nBlockPos = 1, pos_nTxPos = 1 \<rparr>"

fun fetch_loop :: "CTxDB \<Rightarrow> (uint256 \<rightharpoonup> CTxIndex) \<Rightarrow> (uint256 \<rightharpoonup> CTransaction) \<Rightarrow> bool \<Rightarrow> MapPrevTx \<Rightarrow> CTxIn list \<Rightarrow> MapPrevTx option" where
  "fetch_loop db pool mem inBlock inputs [] = Some inputs"
| "fetch_loop db pool mem inBlock inputs (txin # ins) =
     (let h = op_hash (prevout txin) in
      if inputs h \<noteq> None then fetch_loop db pool mem inBlock inputs ins
      else
        let found = (if inBlock \<and> pool h \<noteq> None then pool h else ReadTxIndex db h) in
        if found = None \<and> inBlock then None
        else
          case found of
            None \<Rightarrow>
              (case mem h of
                 None \<Rightarrow> None
               | Some txPrev \<Rightarrow>
                   fetch_loop db pool mem inBlock
                     (inputs(h \<mapsto> (CTxIndex_new CDiskTxPos_SetNull (length (vout txPrev)), txPrev))) ins)
          | Some ix \<Rightarrow>
              (case (if ix_pos ix = pos_mempool then mem h else disk_tx db (ix_pos ix)) of
                 None \<Rightarrow> None
               | Some txPrev \<Rightarrow> fetch_loop db pool mem inBlock (inputs(h \<mapsto> (ix, txPrev))) ins))"

definition prevout_in_range :: "MapPrevTx \<Rightarrow> CTxIn \<Rightarrow> bool" where
  "prevout_in_range inputs txin =
     (case inputs (op_hash (prevout txin)) of
        None \<Rightarrow> False
      | Some (ix, txPrev) \<Rightarrow>
          unat (op_n (prevout txin)) < length (vout txPrev) \<and> unat (op_n (prevout txin)) < length (vSpent ix))"

text \<open>\<^verbatim>\<open>FetchInputs\<close>: the inputs, or \<open>Inl fInvalid\<close>. \<open>inBlock\<close> is \<^verbatim>\<open>fBlock || fMiner\<close>.\<close>

definition FetchInputs ::
  "CTxDB \<Rightarrow> (uint256 \<rightharpoonup> CTxIndex) \<Rightarrow> (uint256 \<rightharpoonup> CTransaction) \<Rightarrow> bool \<Rightarrow> CTransaction \<Rightarrow> bool + MapPrevTx" where
  "FetchInputs db pool mem inBlock tx =
     (if IsCoinBase tx then Inr Map.empty
      else
        case fetch_loop db pool mem inBlock Map.empty (vin tx) of
          None \<Rightarrow> Inl False
        | Some inputs \<Rightarrow> if list_all (prevout_in_range inputs) (vin tx) then Inr inputs else Inl True)"

text \<open>\<open>None\<close> is the exception.\<close>

definition GetOutputFor :: "CTxIn \<Rightarrow> MapPrevTx \<Rightarrow> CTxOut option" where
  "GetOutputFor input inputs =
     (case inputs (op_hash (prevout input)) of
        None \<Rightarrow> None
      | Some (ix, txPrev) \<Rightarrow>
          if unat (op_n (prevout input)) \<ge> length (vout txPrev) then None
          else Some (vout txPrev ! unat (op_n (prevout input))))"

fun value_in_loop :: "MapPrevTx \<Rightarrow> int64 \<Rightarrow> CTxIn list \<Rightarrow> int64 option" where
  "value_in_loop inputs nResult [] = Some nResult"
| "value_in_loop inputs nResult (txin # ins) =
     (case GetOutputFor txin inputs of
        None \<Rightarrow> None
      | Some out \<Rightarrow> value_in_loop inputs (nResult + nValue out) ins)"

definition GetValueIn :: "CTransaction \<Rightarrow> MapPrevTx \<Rightarrow> int64 option" where
  "GetValueIn tx inputs = (if IsCoinBase tx then Some 0 else value_in_loop inputs 0 (vin tx))"

fun p2sh_sigop_loop :: "MapPrevTx \<Rightarrow> uint32 \<Rightarrow> CTxIn list \<Rightarrow> uint32 option" where
  "p2sh_sigop_loop inputs nSigOps [] = Some nSigOps"
| "p2sh_sigop_loop inputs nSigOps (txin # ins) =
     (case GetOutputFor txin inputs of
        None \<Rightarrow> None
      | Some out \<Rightarrow>
          p2sh_sigop_loop inputs
            (if IsPayToScriptHash (scriptPubKey out)
             then nSigOps + GetSigOpCount_sig (scriptPubKey out) (scriptSig txin) else nSigOps) ins)"

definition GetP2SHSigOpCount :: "CTransaction \<Rightarrow> MapPrevTx \<Rightarrow> uint32 option" where
  "GetP2SHSigOpCount tx inputs = (if IsCoinBase tx then Some 0 else p2sh_sigop_loop inputs 0 (vin tx))"

text \<open>
  \<^verbatim>\<open>AreInputsStandard\<close>: the script arguments of every input are as many as the form of its output asks
  for. \<open>None\<close> is the exception of \<^verbatim>\<open>GetOutputFor\<close>. The top of the script stack is its first element.
\<close>

fun standard_inputs_loop ::
  "'a openssl_scheme \<Rightarrow> CTransaction \<Rightarrow> MapPrevTx \<Rightarrow> nat \<Rightarrow> CTxIn list \<Rightarrow> sig_cache \<Rightarrow> bool option \<times> sig_cache" where
  "standard_inputs_loop lib tx inputs i [] c = (Some True, c)"
| "standard_inputs_loop lib tx inputs i (txin # ins) c =
     (case GetOutputFor txin inputs of
        None \<Rightarrow> (None, c)
      | Some prev \<Rightarrow>
          (case Solver (scriptPubKey prev) of
             (False, _, _) \<Rightarrow> (Some False, c)
           | (True, whichType, sols) \<Rightarrow>
               let nArgsExpected = ScriptSigArgsExpected whichType sols in
               if nArgsExpected < 0 then (Some False, c)
               else
                 case EvalScript lib \<lparr> env_tx = tx, env_nIn = i, env_nHashType = 0 \<rparr> [] (scriptSig txin) c of
                   (None, c) \<Rightarrow> (Some False, c)
                 | (Some st, c) \<Rightarrow>
                     (case
                        (if whichType = TX_SCRIPTHASH then
                           (case st of
                              [] \<Rightarrow> None
                            | subscript # _ \<Rightarrow>
                                (case Solver subscript of
                                   (False, _, _) \<Rightarrow> None
                                 | (True, whichType2, sols2) \<Rightarrow>
                                     if whichType2 = TX_SCRIPTHASH then None
                                     else
                                       let tmpExpected = ScriptSigArgsExpected whichType2 sols2
                                       in if tmpExpected < 0 then None else Some (nArgsExpected + tmpExpected)))
                         else Some nArgsExpected) of
                        None \<Rightarrow> (Some False, c)
                      | Some nArgsExpected \<Rightarrow>
                          if int (length st) \<noteq> nArgsExpected then (Some False, c)
                          else standard_inputs_loop lib tx inputs (Suc i) ins c)))"

definition AreInputsStandard ::
  "'a openssl_scheme \<Rightarrow> CTransaction \<Rightarrow> MapPrevTx \<Rightarrow> sig_cache \<Rightarrow> bool option \<times> sig_cache" where
  "AreInputsStandard lib tx inputs c =
     (if IsCoinBase tx then (Some True, c) else standard_inputs_loop lib tx inputs 0 (vin tx) c)"

section \<open>Fees\<close>

datatype GetMinFee_mode = GMF_BLOCK | GMF_RELAY | GMF_SEND

definition BASE_TX_FEE :: int where "BASE_TX_FEE = CENT div 10"
definition BASE_RELAY_TX_FEE :: int where "BASE_RELAY_TX_FEE = CENT div 10"
definition TX_INFO_FEE :: int where "TX_INFO_FEE = CENT div 10"
definition DUST_FEE :: int where "DUST_FEE = CENT div 10"
definition MIN_TX_FEE :: int where "MIN_TX_FEE = CENT"
definition MIN_RELAY_TX_FEE :: int where "MIN_RELAY_TX_FEE = CENT"

definition raised_fee :: "uint32 \<Rightarrow> uint32 \<Rightarrow> int \<Rightarrow> int option" where
  "raised_fee nBlockSize nNewBlockSize nMinFee =
     (if nBlockSize \<noteq> 1 \<and> unat nNewBlockSize \<ge> MAX_BLOCK_SIZE_GEN div 2 then
        (if unat nNewBlockSize \<ge> MAX_BLOCK_SIZE_GEN then None
         else Some (i64 (nMinFee * int (MAX_BLOCK_SIZE_GEN div (MAX_BLOCK_SIZE_GEN - unat nNewBlockSize)))))
      else Some nMinFee)"

text \<open>\<^verbatim>\<open>GetMinFee\<close> of a transaction of a known version.\<close>

definition GetMinFee :: "uint32 \<Rightarrow> GetMinFee_mode \<Rightarrow> CTransaction \<Rightarrow> int" where
  "GetMinFee nBlockSize mode tx =
     (let nBaseFee = (if mode = GMF_RELAY then BASE_RELAY_TX_FEE else BASE_TX_FEE);
          nBytes = of_nat (length (tx_bytes tx)) :: uint32;
          nNewBlockSize = nBlockSize + nBytes;
          nMinFee = (1 + uint nBytes div 1000) * nBaseFee;
          nMinFee = foldl (\<lambda>fee out. if sint (nValue out) < CENT then i64 (fee + DUST_FEE) else fee) nMinFee (vout tx);
          nMinFee = i64 (nMinFee + uint (CountInfoTxs tx) * TX_INFO_FEE)
      in case raised_fee nBlockSize nNewBlockSize nMinFee of
           None \<Rightarrow> MAX_MONEY
         | Some nMinFee \<Rightarrow>
             let nMinFee = max nMinFee (if mode = GMF_RELAY then MIN_RELAY_TX_FEE else MIN_TX_FEE)
             in if 0 \<le> nMinFee \<and> nMinFee \<le> MAX_MONEY then nMinFee else MAX_MONEY)"

section \<open>Coin age\<close>

text \<open>The loop of \<^verbatim>\<open>GetCoinAge\<close>; \<open>None\<close> is a \<^verbatim>\<open>return false\<close>.\<close>

fun coin_age_loop :: "CTxDB \<Rightarrow> uint32 \<Rightarrow> uint32 \<Rightarrow> int \<Rightarrow> CTxIn list \<Rightarrow> int option" where
  "coin_age_loop db nStakeMinAge nTime bnCentSecond [] = Some bnCentSecond"
| "coin_age_loop db nStakeMinAge nTime bnCentSecond (txin # ins) =
     (case ReadFromDisk db (prevout txin) of
        None \<Rightarrow> coin_age_loop db nStakeMinAge nTime bnCentSecond ins
      | Some (txPrev, ix) \<Rightarrow>
          if nTime < tx_nTime txPrev then None
          else
            case disk_block_time db (pos_nFile (ix_pos ix), pos_nBlockPos (ix_pos ix)) of
              None \<Rightarrow> None
            | Some blockTime \<Rightarrow>
                if uint blockTime + uint nStakeMinAge > uint nTime
                then coin_age_loop db nStakeMinAge nTime bnCentSecond ins
                else
                  let nValueIn = sint (nValue (vout txPrev ! unat (op_n (prevout txin))))
                  in coin_age_loop db nStakeMinAge nTime
                       (bnCentSecond + bn_div (nValueIn * uint (nTime - tx_nTime txPrev)) CENT) ins)"

definition GetCoinAge :: "'a bignum_lib_scheme \<Rightarrow> CTxDB \<Rightarrow> uint32 \<Rightarrow> CTransaction \<Rightarrow> uint64 option" where
  "GetCoinAge lib db nStakeMinAge tx =
     (if IsCoinBase tx then Some 0
      else map_option (\<lambda>bnCentSecond. getuint64 lib (bn_div (bnCentSecond * CENT) COIN))
             (coin_age_loop db nStakeMinAge (tx_nTime tx) 0 (vin tx)))"

section \<open>Connecting and disconnecting\<close>

text \<open>How \<^verbatim>\<open>ConnectInputs\<close> can end early: a failed assertion, an exception, or false with a penalty.\<close>

datatype conn_error = Assertion | Exception | Failure nat

text \<open>The walk back from the block that looks for an immature coinbase or coinstake.\<close>

fun immature :: "int \<Rightarrow> int \<Rightarrow> CDiskTxPos \<Rightarrow> chain \<Rightarrow> bool" where
  "immature nHeight nMaturity pos [] = False"
| "immature nHeight nMaturity pos (b # ps) =
     (if nHeight - bi_nHeight b < nMaturity
      then (if bi_nBlockPos b = pos_nBlockPos pos \<and> bi_nFile b = pos_nFile pos then True
            else immature nHeight nMaturity pos ps)
      else False)"

text \<open>The first loop: the cheap checks; the value of the inputs.\<close>

fun check_inputs :: "int \<Rightarrow> chain \<Rightarrow> MapPrevTx \<Rightarrow> uint32 \<Rightarrow> int64 \<Rightarrow> CTxIn list \<Rightarrow> conn_error + int64" where
  "check_inputs nMaturity pindexBlock inputs nTime nValueIn [] = Inr nValueIn"
| "check_inputs nMaturity pindexBlock inputs nTime nValueIn (txin # ins) =
     (case inputs (op_hash (prevout txin)) of
        None \<Rightarrow> Inl Assertion
      | Some (ix, txPrev) \<Rightarrow>
          let n = unat (op_n (prevout txin)) in
          if n \<ge> length (vout txPrev) \<or> n \<ge> length (vSpent ix) then Inl (Failure 100)
          else if (IsCoinBase txPrev \<or> IsCoinStake txPrev) \<and> pindexBlock \<noteq> [] \<and>
                  immature (bi_nHeight (hd pindexBlock)) nMaturity (ix_pos ix) pindexBlock then Inl (Failure 0)
          else if tx_nTime txPrev > nTime then Inl (Failure 100)
          else
            let nValueIn = nValueIn + nValue (vout txPrev ! n) in
            if \<not> MoneyRange (nValue (vout txPrev ! n)) \<or> \<not> MoneyRange nValueIn then Inl (Failure 100)
            else check_inputs nMaturity pindexBlock inputs nTime nValueIn ins)"

text \<open>
  The second loop, from input \<open>i\<close>: signatures are verified unless \<open>skip\<close>, outputs are marked as spent
  in the fetched inputs and, for a block, queued in the pool.
\<close>

fun spend_inputs ::
  "'a openssl_scheme \<Rightarrow> bool \<Rightarrow> bool \<Rightarrow> CDiskTxPos \<Rightarrow> CTransaction \<Rightarrow> nat \<Rightarrow> CTxIn list \<Rightarrow>
     MapPrevTx \<Rightarrow> (uint256 \<rightharpoonup> CTxIndex) \<Rightarrow> sig_cache \<Rightarrow>
     conn_error + MapPrevTx \<times> (uint256 \<rightharpoonup> CTxIndex) \<times> sig_cache" where
  "spend_inputs lib skip inBlock posThisTx tx i [] inputs pool c = Inr (inputs, pool, c)"
| "spend_inputs lib skip inBlock posThisTx tx i (txin # ins) inputs pool c =
     (case inputs (op_hash (prevout txin)) of
        None \<Rightarrow> Inl Assertion
      | Some (ix, txPrev) \<Rightarrow>
          let h = op_hash (prevout txin); n = unat (op_n (prevout txin)) in
          if \<not> CDiskTxPos_IsNull (vSpent ix ! n) then Inl (Failure 0)
          else
            case (if skip then (Some True, c) else VerifySignature lib txPrev tx i 0 c) of
              (None, c) \<Rightarrow> Inl Exception
            | (Some False, c) \<Rightarrow> Inl (Failure 100)
            | (Some True, c) \<Rightarrow>
                let ix = ix\<lparr> vSpent := (vSpent ix)[n := posThisTx] \<rparr>
                in spend_inputs lib skip inBlock posThisTx tx (Suc i) ins (inputs(h \<mapsto> (ix, txPrev)))
                     (if inBlock then pool(h \<mapsto> ix) else pool) c)"

text \<open>The comparison of what comes in with what goes out.\<close>

definition check_value :: "'a openssl_scheme \<Rightarrow> CTxDB \<Rightarrow> uint32 \<Rightarrow> CTransaction \<Rightarrow> int64 \<Rightarrow> conn_error + unit" where
  "check_value lib db nStakeMinAge tx nValueIn =
     (if IsCoinStake tx then
        (case GetCoinAge lib db nStakeMinAge tx of
           None \<Rightarrow> Inl (Failure 0)
         | Some nCoinAgeSeconds \<Rightarrow>
             (case GetValueOut tx of
                None \<Rightarrow> Inl Exception
              | Some nValueOut \<Rightarrow>
                  if sint (nValueOut - nValueIn) >
                     i64 (i64 (GetProofOfStakeReward (sint nCoinAgeSeconds) - GetMinFee 1 GMF_BLOCK tx) + MIN_TX_FEE)
                  then Inl (Failure 100) else Inr ()))
      else
        (case GetValueOut tx of
           None \<Rightarrow> Inl Exception
         | Some nValueOut \<Rightarrow>
             if sint nValueIn < sint nValueOut then Inl (Failure 100)
             else
               let nTxFee = nValueIn - nValueOut in
               if sint nTxFee < 0 then Inl (Failure 100)
               else if \<not> MoneyRange (0 + nTxFee) then Inl (Failure 100)
               else Inr ()))"

definition ConnectInputs ::
  "'a openssl_scheme \<Rightarrow> CTxDB \<Rightarrow> int \<Rightarrow> uint32 \<Rightarrow> bool \<Rightarrow> bool \<Rightarrow> chain \<Rightarrow> CDiskTxPos \<Rightarrow> CTransaction \<Rightarrow>
     MapPrevTx \<Rightarrow> (uint256 \<rightharpoonup> CTxIndex) \<Rightarrow> sig_cache \<Rightarrow> conn_error + (uint256 \<rightharpoonup> CTxIndex) \<times> sig_cache" where
  "ConnectInputs lib db nMaturity nStakeMinAge skip inBlock pindexBlock posThisTx tx inputs pool c =
     (if IsCoinBase tx then Inr (pool, c)
      else
        case check_inputs nMaturity pindexBlock inputs (tx_nTime tx) 0 (vin tx) of
          Inl e \<Rightarrow> Inl e
        | Inr nValueIn \<Rightarrow>
            (case spend_inputs lib skip inBlock posThisTx tx 0 (vin tx) inputs pool c of
               Inl e \<Rightarrow> Inl e
             | Inr (inputs, pool, c) \<Rightarrow>
                 (case check_value lib db nStakeMinAge tx nValueIn of
                    Inl e \<Rightarrow> Inl e
                  | Inr _ \<Rightarrow> Inr (pool, c))))"

text \<open>\<^verbatim>\<open>DisconnectInputs\<close>; \<open>None\<close> is false. The hash of the transaction is an argument.\<close>

fun unspend_loop :: "CTxIn list \<Rightarrow> CTxDB \<Rightarrow> CTxDB option" where
  "unspend_loop [] db = Some db"
| "unspend_loop (txin # ins) db =
     (let h = op_hash (prevout txin); n = unat (op_n (prevout txin)) in
      case ReadTxIndex db h of
        None \<Rightarrow> None
      | Some ix \<Rightarrow>
          if n \<ge> length (vSpent ix) then None
          else unspend_loop ins (UpdateTxIndex h (ix\<lparr> vSpent := (vSpent ix)[n := CDiskTxPos_SetNull] \<rparr>) db))"

definition DisconnectInputs :: "uint256 \<Rightarrow> CTransaction \<Rightarrow> CTxDB \<Rightarrow> CTxDB option" where
  "DisconnectInputs txid tx db =
     (case (if IsCoinBase tx then Some db else unspend_loop (vin tx) db) of
        None \<Rightarrow> None
      | Some db \<Rightarrow> Some (EraseTxIndex txid db))"

section \<open>What connecting guarantees\<close>

lemma check_inputs_Inr:
  assumes "check_inputs nM c inputs t acc ins = Inr v" and "MoneyRange acc"
  shows "\<exists>outs. list_all2 (\<lambda>txin out. \<exists>ix prev. inputs (op_hash (prevout txin)) = Some (ix, prev) \<and>
        unat (op_n (prevout txin)) < length (vSpent ix) \<and> unat (op_n (prevout txin)) < length (vout prev) \<and>
        out = vout prev ! unat (op_n (prevout txin)) \<and> tx_nTime prev \<le> t) ins outs \<and>
    sint v = sint acc + sum_out outs \<and> MoneyRange v"
  using assms
proof (induction nM c inputs t acc ins rule: check_inputs.induct)
  case (1 nM c inputs t acc)
  then show ?case by (intro exI [of _ "[]"]) simp
next
  case (2 nM c inputs t acc txin ins)
  obtain ix prev where i: "inputs (op_hash (prevout txin)) = Some (ix, prev)"
    using "2.prems"(1) by (auto split: option.splits)
  let ?n = "unat (op_n (prevout txin))" and ?v = "nValue (vout prev ! unat (op_n (prevout txin)))"
  have c: "?n < length (vout prev)" "?n < length (vSpent ix)" "tx_nTime prev \<le> t" "MoneyRange ?v" "MoneyRange (acc + ?v)"
    and r: "check_inputs nM c inputs t (acc + ?v) ins = Inr v"
    using "2.prems"(1) i by (simp_all add: Let_def split: if_split_asm)
  obtain outs where o: "list_all2 (\<lambda>txin out. \<exists>ix prev. inputs (op_hash (prevout txin)) = Some (ix, prev) \<and>
        unat (op_n (prevout txin)) < length (vSpent ix) \<and> unat (op_n (prevout txin)) < length (vout prev) \<and>
        out = vout prev ! unat (op_n (prevout txin)) \<and> tx_nTime prev \<le> t) ins outs"
    "sint v = sint (acc + ?v) + sum_out outs" "MoneyRange v"
    using "2.IH" [OF i refl refl _ _ _ refl _ r] c "2.prems"(1) i by (auto simp: Let_def split: if_split_asm)
  then show ?case using i c MoneyRange_add [OF "2.prems"(2) c(4)]
    by (intro exI [of _ "vout prev ! ?n # outs"]) simp
qed

fun spends :: "CTxIn list \<Rightarrow> uint256 \<Rightarrow> nat \<Rightarrow> bool" where
  "spends [] h k = False"
| "spends (txin # ins) h k = (op_hash (prevout txin) = h \<and> unat (op_n (prevout txin)) = k \<or> spends ins h k)"

lemma spends_iff: "spends ins h k \<longleftrightarrow> (\<exists>txin\<in>set ins. op_hash (prevout txin) = h \<and> unat (op_n (prevout txin)) = k)"
  by (induction ins) auto

text \<open>The spent pointers of transaction \<open>h\<close> once the inputs have set theirs to \<open>pos\<close>.\<close>

definition marked :: "CDiskTxPos \<Rightarrow> CTxIn list \<Rightarrow> uint256 \<Rightarrow> CTxIndex \<Rightarrow> CTxIndex" where
  "marked pos ins h ix =
     ix\<lparr> vSpent := map (\<lambda>k. if spends ins h k then pos else vSpent ix ! k) [0..<length (vSpent ix)] \<rparr>"

abbreviation in_range :: "(uint256 \<rightharpoonup> CTxIndex) \<Rightarrow> CTxIn \<Rightarrow> bool" where
  "in_range m txin \<equiv> \<exists>ix. m (op_hash (prevout txin)) = Some ix \<and> unat (op_n (prevout txin)) < length (vSpent ix)"

lemma CTxIndex_eqI: "ix_pos a = ix_pos b \<Longrightarrow> vSpent a = vSpent b \<Longrightarrow> a = (b :: CTxIndex)"
  by (cases a; cases b) simp

lemma marked_fields [simp]: "length (vSpent (marked pos ins h ix)) = length (vSpent ix)" "ix_pos (marked pos ins h ix) = ix_pos ix"
  by (simp_all add: marked_def)

lemma marked_nth [simp]:
  "k < length (vSpent ix) \<Longrightarrow> vSpent (marked pos ins h ix) ! k = (if spends ins h k then pos else vSpent ix ! k)"
  by (simp add: marked_def)

lemma marked_Nil [simp]: "marked pos [] h ix = ix"
  by (rule CTxIndex_eqI) (simp_all add: marked_def map_nth)

lemma marked_Nil_id: "marked pos [] h = id"
  by (simp add: fun_eq_iff)

lemma marked_other: "h \<notin> op_hash ` prevout ` set ins \<Longrightarrow> marked pos ins h ix = ix"
  by (rule CTxIndex_eqI) (auto intro!: nth_equalityI simp: spends_iff)

lemma marked_Cons:
  "unat (op_n (prevout txin)) < length (vSpent ix) \<Longrightarrow>
   marked pos (txin # ins) (op_hash (prevout txin)) ix =
     marked pos ins (op_hash (prevout txin)) (ix\<lparr> vSpent := (vSpent ix)[unat (op_n (prevout txin)) := pos] \<rparr>)"
  by (rule CTxIndex_eqI) (auto intro!: nth_equalityI simp: nth_list_update)

lemma marked_Cons_other: "h \<noteq> op_hash (prevout txin) \<Longrightarrow> marked pos (txin # ins) h = marked pos ins h"
  by (rule ext, rule CTxIndex_eqI) (auto intro!: nth_equalityI)

lemma marked_marked:
  assumes "\<And>k. k < length (vSpent ix) \<Longrightarrow> spends ins h k \<Longrightarrow> vSpent ix ! k = pos'"
  shows "marked pos' ins h (marked pos ins h ix) = ix"
  by (rule CTxIndex_eqI) (auto intro!: nth_equalityI simp: assms)

text \<open>What the second loop does to the index, and what it has checked.\<close>

lemma spend_inputs_Inr:
  assumes "spend_inputs lib skip inBlock pos tx i ins inputs pool c = Inr (inputs', pool', c')"
    and "list_all (in_range (map_option fst \<circ> inputs)) ins" and "\<not> CDiskTxPos_IsNull pos"
  shows "distinct (map prevout ins) \<and>
    (\<forall>txin\<in>set ins. \<forall>ix prev. inputs (op_hash (prevout txin)) = Some (ix, prev) \<longrightarrow>
        CDiskTxPos_IsNull (vSpent ix ! unat (op_n (prevout txin)))) \<and>
    inputs' = (\<lambda>h. map_option (apfst (marked pos ins h)) (inputs h)) \<and>
    pool' = (\<lambda>h. if inBlock \<and> h \<in> op_hash ` prevout ` set ins then map_option fst (inputs' h) else pool h)"
  using assms
proof (induction ins arbitrary: i inputs pool c)
  case Nil
  then show ?case by (auto simp: apfst_def map_prod_def option.map_ident split_beta')
next
  case (Cons txin ins)
  let ?h = "op_hash (prevout txin)" and ?n = "unat (op_n (prevout txin))"
  obtain ix prev where i: "inputs ?h = Some (ix, prev)" and n: "?n < length (vSpent ix)"
    using Cons.prems(2) by auto
  let ?ix = "ix\<lparr> vSpent := (vSpent ix)[?n := pos] \<rparr>"
  obtain c1 where null: "CDiskTxPos_IsNull (vSpent ix ! ?n)"
    and v: "(if skip then (Some True, c) else VerifySignature lib prev tx i 0 c) = (Some True, c1)"
    and r: "spend_inputs lib skip inBlock pos tx (Suc i) ins (inputs(?h \<mapsto> (?ix, prev)))
        (if inBlock then pool(?h \<mapsto> ?ix) else pool) c1 = Inr (inputs', pool', c')"
    using Cons.prems(1) i by (auto simp: Let_def split: if_split_asm prod.splits option.splits bool.splits)
  have range: "list_all (in_range (map_option fst \<circ> inputs(?h \<mapsto> (?ix, prev)))) ins"
    using Cons.prems(2) i by (auto simp: list_all_iff)
  note IH = Cons.IH [OF r range Cons.prems(3)]
  have new: "CDiskTxPos_IsNull (vSpent ix' ! unat (op_n (prevout txin')))" "prevout txin' \<noteq> prevout txin"
    if "txin' \<in> set ins" "inputs (op_hash (prevout txin')) = Some (ix', prev')" for txin' ix' prev'
  proof -
    have *: "\<forall>ix'' prev''. (inputs(?h \<mapsto> (?ix, prev))) (op_hash (prevout txin')) = Some (ix'', prev'') \<longrightarrow>
        CDiskTxPos_IsNull (vSpent ix'' ! unat (op_n (prevout txin')))"
      using IH that(1) by blast
    show "prevout txin' \<noteq> prevout txin" using * n Cons.prems(3) by auto
    show "CDiskTxPos_IsNull (vSpent ix' ! unat (op_n (prevout txin')))"
      using * that(2) i n Cons.prems(3) by (cases "op_hash (prevout txin') = ?h"; cases "unat (op_n (prevout txin')) = ?n") auto
  qed
  have "prevout txin \<notin> prevout ` set ins"
  proof
    assume "prevout txin \<in> prevout ` set ins"
    then obtain txin' where "txin' \<in> set ins" "prevout txin' = prevout txin" by auto
    then show False using new(2) [of txin'] i by auto
  qed
  moreover have "inputs' = (\<lambda>h. map_option (apfst (marked pos (txin # ins) h)) (inputs h))"
    using IH i n by (auto simp: fun_eq_iff marked_Cons marked_Cons_other)
  moreover have "pool' = (\<lambda>h. if inBlock \<and> h \<in> op_hash ` prevout ` set (txin # ins) then map_option fst (inputs' h) else pool h)"
    using IH i marked_other [of ?h ins pos ?ix] by (auto simp: fun_eq_iff)
  ultimately show ?case using IH new(1) null i by auto
qed

text \<open>The input \<open>k\<close> of \<open>tx\<close> may spend its output of \<open>prev\<close>.\<close>

definition authorised :: "'a openssl_scheme \<Rightarrow> CTransaction \<Rightarrow> nat \<Rightarrow> CTransaction \<Rightarrow> bool" where
  "authorised lib tx k prev =
     (let txin = vin tx ! k; n = unat (op_n (prevout txin)) in
      k < length (vin tx) \<and> n < length (vout prev) \<and> CTransaction_GetHash lib prev = Some (op_hash (prevout txin)) \<and>
      Verify_spec lib \<lparr> env_tx = tx, env_nIn = k, env_nHashType = 0 \<rparr> (scriptSig txin) (scriptPubKey (vout prev ! n)))"

lemma VerifySignature_authorised:
  assumes "VerifySignature lib prev tx k 0 c = (Some True, c')" and "cache_sound lib c"
  shows "authorised lib tx k prev \<and> cache_sound lib c'"
proof -
  let ?v = "VerifyScript lib \<lparr> env_tx = tx, env_nIn = k, env_nHashType = 0 \<rparr> (scriptSig (vin tx ! k))
    (scriptPubKey (vout prev ! unat (op_n (prevout (vin tx ! k))))) c"
  obtain ok c1 where v: "?v = (ok, c1)" by (cases ?v)
  show ?thesis using assms(1) v VerifyScript_eq [OF assms(2), of "\<lparr> env_tx = tx, env_nIn = k, env_nHashType = 0 \<rparr>"
        "scriptSig (vin tx ! k)" "scriptPubKey (vout prev ! unat (op_n (prevout (vin tx ! k))))"]
    by (simp add: VerifySignature_def authorised_def Let_def split: if_split_asm option.split_asm)
qed

lemma spend_inputs_authorised:
  assumes "spend_inputs lib False inBlock pos tx i ins inputs pool c = Inr r" and "cache_sound lib c"
  shows "\<forall>j<length ins. \<exists>ix prev. inputs (op_hash (prevout (ins ! j))) = Some (ix, prev) \<and> authorised lib tx (i + j) prev"
  using assms
proof (induction ins arbitrary: i inputs pool c)
  case Nil
  then show ?case by simp
next
  case (Cons txin ins)
  let ?h = "op_hash (prevout txin)" and ?n = "unat (op_n (prevout txin))"
  obtain ix prev where i: "inputs ?h = Some (ix, prev)"
    using Cons.prems(1) by (auto split: option.split_asm)
  let ?ix = "ix\<lparr> vSpent := (vSpent ix)[?n := pos] \<rparr>"
  obtain c1 where v: "VerifySignature lib prev tx i 0 c = (Some True, c1)"
    and r: "spend_inputs lib False inBlock pos tx (Suc i) ins (inputs(?h \<mapsto> (?ix, prev)))
        (if inBlock then pool(?h \<mapsto> ?ix) else pool) c1 = Inr r"
    using Cons.prems(1) i by (auto simp: Let_def split: if_split_asm prod.splits option.splits bool.splits)
  note a = VerifySignature_authorised [OF v Cons.prems(2)]
  note IH = Cons.IH [OF r conjunct2 [OF a]]
  show ?case
  proof (intro allI impI)
    fix j assume "j < length (txin # ins)"
    then show "\<exists>ix prev. inputs (op_hash (prevout ((txin # ins) ! j))) = Some (ix, prev) \<and> authorised lib tx (i + j) prev"
      using IH a i by (cases j) (auto split: if_split_asm)
  qed
qed

text \<open>The exact value of the inputs.\<close>

definition value_in :: "MapPrevTx \<Rightarrow> CTxIn list \<Rightarrow> int" where
  "value_in inputs ins =
     sum_list (map (\<lambda>txin. case inputs (op_hash (prevout txin)) of None \<Rightarrow> 0
       | Some (ix, prev) \<Rightarrow> sint (nValue (vout prev ! unat (op_n (prevout txin))))) ins)"

lemma check_inputs_value:
  assumes "check_inputs nM c inputs t 0 ins = Inr v"
  shows "sint v = value_in inputs ins" "MoneyRange v"
    "\<forall>txin\<in>set ins. \<exists>ix prev. inputs (op_hash (prevout txin)) = Some (ix, prev) \<and>
        unat (op_n (prevout txin)) < length (vSpent ix) \<and> unat (op_n (prevout txin)) < length (vout prev) \<and> tx_nTime prev \<le> t"
proof -
  have "MoneyRange 0" by (simp add: MoneyRange_def MAX_MONEY_def COIN_def)
  then obtain outs where o: "list_all2 (\<lambda>txin out. \<exists>ix prev. inputs (op_hash (prevout txin)) = Some (ix, prev) \<and>
        unat (op_n (prevout txin)) < length (vSpent ix) \<and> unat (op_n (prevout txin)) < length (vout prev) \<and>
        out = vout prev ! unat (op_n (prevout txin)) \<and> tx_nTime prev \<le> t) ins outs"
    and v: "sint v = sum_out outs" "MoneyRange v"
    using check_inputs_Inr [OF assms] by auto
  have "value_in inputs ins = sum_out outs"
    using o by (induction rule: list_all2_induct) (auto simp: value_in_def)
  then show "sint v = value_in inputs ins" "MoneyRange v" using v by simp_all
  show "\<forall>txin\<in>set ins. \<exists>ix prev. inputs (op_hash (prevout txin)) = Some (ix, prev) \<and>
        unat (op_n (prevout txin)) < length (vSpent ix) \<and> unat (op_n (prevout txin)) < length (vout prev) \<and> tx_nTime prev \<le> t"
    using o by (induction rule: list_all2_induct) auto
qed

lemma ConnectInputs_Inr:
  assumes "ConnectInputs lib db nM nAge skip inBlock c pos tx inputs pool ca = Inr (pool', ca')" and "\<not> IsCoinBase tx"
  obtains v inputs' where "check_inputs nM c inputs (tx_nTime tx) 0 (vin tx) = Inr v"
    and "spend_inputs lib skip inBlock pos tx 0 (vin tx) inputs pool ca = Inr (inputs', pool', ca')"
    and "check_value lib db nAge tx v = Inr ()"
  using assms by (auto simp: ConnectInputs_def split: sum.split_asm)

lemma ConnectInputs_range:
  assumes "check_inputs nM c inputs t 0 ins = Inr v"
  shows "list_all (in_range (map_option fst \<circ> inputs)) ins"
  using check_inputs_value(3) [OF assms] by (fastforce simp: list_all_iff)


lemma GetMinFee_range: "MIN_TX_FEE \<le> GetMinFee b m tx \<and> GetMinFee b m tx \<le> MAX_MONEY"
  by (simp add: GetMinFee_def Let_def MIN_TX_FEE_def MIN_RELAY_TX_FEE_def MAX_MONEY_def COIN_def CENT_def split: option.split)

lemma i64_bounds: "- (2 ^ 63) \<le> i64 x" "i64 x < 2 ^ 63"
  unfolding i64_def using signed_take_bit_int_greater_eq_minus_exp [of 63 x] signed_take_bit_int_less_exp [of 63 x] by simp_all

lemma abs_sdiv: "0 < b \<Longrightarrow> \<bar>a sdiv b\<bar> = \<bar>a\<bar> div b" for a b :: int
  by (cases a "0 :: int" rule: linorder_cases)
    (simp_all add: signed_divide_int_def abs_mult pos_imp_zdiv_nonneg_iff)

lemma GetProofOfStakeReward_bound: "\<bar>GetProofOfStakeReward n\<bar> \<le> 8856881371"
proof -
  have "\<bar>i64 (i64 (CENT * n) * 33)\<bar> \<le> 2 ^ 63" using i64_bounds [of "i64 (CENT * n) * 33"] by simp
  then have "\<bar>i64 (i64 (CENT * n) * 33)\<bar> div 60 div 60 div 24 div 12053 \<le> 2 ^ 63 div 60 div 60 div 24 div 12053"
    by (intro zdiv_mono1) simp_all
  then show ?thesis by (simp add: GetProofOfStakeReward_def abs_sdiv)
qed

text \<open>
  C33. A coinstake that \<^verbatim>\<open>ConnectInputs\<close> accepts creates at most the stake reward of its coin age, reduced by
  the fee above the minimum; the 64-bit comparison is exact, and whatever the coin age no coinstake creates
  more than 8856.881371 coins.
\<close>

theorem coinstake_creates_at_most:
  assumes "ConnectInputs lib db nM nAge skip inBlock c pos tx inputs pool ca = Inr (pool', ca')"
    and "\<not> IsCoinBase tx" and "IsCoinStake tx"
  shows "\<exists>age. GetCoinAge lib db nAge tx = Some age \<and>
    sum_out (vout tx) - value_in inputs (vin tx) \<le> GetProofOfStakeReward (sint age) - (GetMinFee 1 GMF_BLOCK tx - MIN_TX_FEE) \<and>
    0 \<le> GetMinFee 1 GMF_BLOCK tx - MIN_TX_FEE \<and> sum_out (vout tx) - value_in inputs (vin tx) \<le> 8856881371"
proof -
  obtain v inputs' where ci: "check_inputs nM c inputs (tx_nTime tx) 0 (vin tx) = Inr v"
    and cv: "check_value lib db nAge tx v = Inr ()"
    by (rule ConnectInputs_Inr [OF assms(1,2)])
  obtain age out where age: "GetCoinAge lib db nAge tx = Some age" and out: "GetValueOut tx = Some out"
    and le: "sint (out - v) \<le> i64 (i64 (GetProofOfStakeReward (sint age) - GetMinFee 1 GMF_BLOCK tx) + MIN_TX_FEE)"
    using cv assms(3) by (auto simp: check_value_def split: option.split_asm if_split_asm)
  have o: "sint out = sum_out (vout tx)" "0 \<le> sint out" "sint out \<le> MAX_MONEY"
    using out sum_out_nonneg [of "vout tx"] by (auto simp: GetValueOut_Some)
  have i: "sint v = value_in inputs (vin tx)" "0 \<le> sint v" "sint v \<le> MAX_MONEY"
    using check_inputs_value(1,2) [OF ci] by (auto simp: MoneyRange_def)
  have "sint (out - v) = i64 (sint out - sint v)"
    by (simp add: i64_def sint_word_ariths)
  then have d: "sint (out - v) = sum_out (vout tx) - value_in inputs (vin tx)"
    using o i by (simp add: i64_id MAX_MONEY_def COIN_def)
  have r: "- 8856881371 \<le> GetProofOfStakeReward (sint age)" "GetProofOfStakeReward (sint age) \<le> 8856881371"
    using GetProofOfStakeReward_bound [of "sint age"] by linarith+
  have f: "MIN_TX_FEE \<le> GetMinFee 1 GMF_BLOCK tx" "GetMinFee 1 GMF_BLOCK tx \<le> MAX_MONEY"
    using GetMinFee_range [of 1 GMF_BLOCK tx] by simp_all
  have "i64 (GetProofOfStakeReward (sint age) - GetMinFee 1 GMF_BLOCK tx) = GetProofOfStakeReward (sint age) - GetMinFee 1 GMF_BLOCK tx"
    using r f by (intro i64_id) (simp_all add: MIN_TX_FEE_def MAX_MONEY_def COIN_def CENT_def)
  moreover have "i64 (GetProofOfStakeReward (sint age) - GetMinFee 1 GMF_BLOCK tx + MIN_TX_FEE) =
      GetProofOfStakeReward (sint age) - GetMinFee 1 GMF_BLOCK tx + MIN_TX_FEE"
    using r f by (intro i64_id) (simp_all add: MIN_TX_FEE_def MAX_MONEY_def COIN_def CENT_def)
  ultimately have le': "sum_out (vout tx) - value_in inputs (vin tx) \<le> GetProofOfStakeReward (sint age) - GetMinFee 1 GMF_BLOCK tx + MIN_TX_FEE"
    using le d by simp
  show ?thesis by (intro exI [of _ age] conjI; (rule age | use le' r f in linarith))
qed

section \<open>Disconnecting undoes connecting\<close>

lemma unspend_loop_marked:
  assumes "list_all (in_range (mapTxIndex db)) ins"
  shows "unspend_loop ins db =
    Some (db\<lparr> mapTxIndex := \<lambda>h. map_option (marked CDiskTxPos_SetNull ins h) (mapTxIndex db h) \<rparr>)"
  using assms
proof (induction ins arbitrary: db)
  case Nil
  then show ?case by (simp add: option.map_ident)
next
  case (Cons txin ins)
  let ?h = "op_hash (prevout txin)" and ?n = "unat (op_n (prevout txin))"
  obtain ix where i: "mapTxIndex db ?h = Some ix" and n: "?n < length (vSpent ix)" using Cons.prems by auto
  let ?db = "UpdateTxIndex ?h (ix\<lparr> vSpent := (vSpent ix)[?n := CDiskTxPos_SetNull] \<rparr>) db"
  have "list_all (in_range (mapTxIndex ?db)) ins"
    using Cons.prems i by (auto simp: list_all_iff UpdateTxIndex_def)
  then have "unspend_loop (txin # ins) db =
      Some (?db\<lparr> mapTxIndex := \<lambda>h. map_option (marked CDiskTxPos_SetNull ins h) (mapTxIndex ?db h) \<rparr>)"
    using Cons.IH i n by (simp add: ReadTxIndex_def Let_def)
  moreover have "(\<lambda>h. map_option (marked CDiskTxPos_SetNull ins h) (mapTxIndex ?db h)) =
      (\<lambda>h. map_option (marked CDiskTxPos_SetNull (txin # ins) h) (mapTxIndex db h))"
    using i n by (auto simp: fun_eq_iff UpdateTxIndex_def marked_Cons marked_Cons_other)
  ultimately show ?case by (simp add: UpdateTxIndex_def)
qed

text \<open>The index a block sees while it is being connected: the queued changes before the database.\<close>

definition index_view :: "CTxDB \<Rightarrow> (uint256 \<rightharpoonup> CTxIndex) \<Rightarrow> (uint256 \<rightharpoonup> CTxIndex)" where
  "index_view db pool = mapTxIndex db ++ pool"

lemma fetch_loop_view:
  assumes "fetch_loop db pool mem True inputs ins = Some inputs'"
    and "\<And>h ix prev. inputs h = Some (ix, prev) \<Longrightarrow> index_view db pool h = Some ix"
  shows "inputs' h = Some (ix, prev) \<Longrightarrow> index_view db pool h = Some ix"
  using assms
proof (induction ins arbitrary: inputs)
  case Nil
  then show ?case by simp
next
  case (Cons txin ins)
  let ?h = "op_hash (prevout txin)"
  let ?found = "if pool ?h \<noteq> None then pool ?h else ReadTxIndex db ?h"
  have v: "?found = index_view db pool ?h" by (auto simp: ReadTxIndex_def index_view_def map_add_def split: option.split)
  show ?case
  proof (cases "inputs ?h = None")
    case False
    then show ?thesis using Cons by simp
  next
    case True
    then obtain ix' prev' where f: "index_view db pool ?h = Some ix'"
      and r: "fetch_loop db pool mem True (inputs(?h \<mapsto> (ix', prev'))) ins = Some inputs'"
      using Cons.prems(2) True unfolding fetch_loop.simps Let_def simp_thms v by (auto split: option.split_asm if_split_asm)
    show ?thesis by (rule Cons.IH [OF Cons.prems(1) r]) (use f Cons.prems(3) in \<open>auto split: if_split_asm\<close>)
  qed
qed

text \<open>Null pointers of the index are the ones \<^verbatim>\<open>SetNull\<close> writes.\<close>

definition index_ok :: "(uint256 \<rightharpoonup> CTxIndex) \<Rightarrow> bool" where
  "index_ok m \<longleftrightarrow> (\<forall>ix\<in>ran m. \<forall>p\<in>set (vSpent ix). CDiskTxPos_IsNull p \<longrightarrow> p = CDiskTxPos_SetNull)"

lemma index_ok_nth: "index_ok m \<Longrightarrow> m h = Some ix \<Longrightarrow> k < length (vSpent ix) \<Longrightarrow> CDiskTxPos_IsNull (vSpent ix ! k) \<Longrightarrow>
  vSpent ix ! k = CDiskTxPos_SetNull"
  by (metis index_ok_def nth_mem ranI)

text \<open>What connecting a transaction in a block does to the index, the entry of the transaction itself apart.\<close>

lemma ConnectInputs_view:
  assumes "FetchInputs db pool mem True tx = Inr inputs"
    and "ConnectInputs lib db nM nAge skip True c pos tx inputs pool ca = Inr (pool', ca')" and "\<not> CDiskTxPos_IsNull pos"
  shows "index_view db pool' = (\<lambda>h. map_option (marked pos (if IsCoinBase tx then [] else vin tx) h) (index_view db pool h))"
    and "\<not> IsCoinBase tx \<Longrightarrow> list_all (in_range (index_view db pool)) (vin tx)"
    and "\<not> IsCoinBase tx \<Longrightarrow> spends (vin tx) h k \<Longrightarrow>
      \<exists>ix. index_view db pool h = Some ix \<and> k < length (vSpent ix) \<and> CDiskTxPos_IsNull (vSpent ix ! k)"
    and "\<not> IsCoinBase tx \<Longrightarrow> distinct (map prevout (vin tx))"
proof -
  have *: "distinct (map prevout (vin tx)) \<and> list_all (in_range (index_view db pool)) (vin tx) \<and>
    (spends (vin tx) h k \<longrightarrow> (\<exists>ix. index_view db pool h = Some ix \<and> k < length (vSpent ix) \<and> CDiskTxPos_IsNull (vSpent ix ! k))) \<and>
    index_view db pool' = (\<lambda>h. map_option (marked pos (vin tx) h) (index_view db pool h))" if nc: "\<not> IsCoinBase tx"
  proof -
    obtain v inputs' where ci: "check_inputs nM c inputs (tx_nTime tx) 0 (vin tx) = Inr v"
      and sp: "spend_inputs lib skip True pos tx 0 (vin tx) inputs pool ca = Inr (inputs', pool', ca')"
      by (rule ConnectInputs_Inr [OF assms(2) nc])
    note s = spend_inputs_Inr [OF sp ConnectInputs_range [OF ci] assms(3)]
    have "fetch_loop db pool mem True Map.empty (vin tx) = Some inputs"
      using assms(1) nc by (simp add: FetchInputs_def split: option.split_asm if_split_asm)
    then have view: "index_view db pool h = Some ix" if "inputs h = Some (ix, prev)" for h ix prev
      using fetch_loop_view that by (metis option.distinct(1))
    have range: "list_all (in_range (index_view db pool)) (vin tx)"
      using check_inputs_value(3) [OF ci] view by (fastforce simp: list_all_iff)
    have null: "\<exists>ix. index_view db pool h = Some ix \<and> k < length (vSpent ix) \<and> CDiskTxPos_IsNull (vSpent ix ! k)" if "spends (vin tx) h k"
    proof -
      obtain txin where t: "txin \<in> set (vin tx)" "op_hash (prevout txin) = h" "unat (op_n (prevout txin)) = k"
        using \<open>spends (vin tx) h k\<close> by (auto simp: spends_iff)
      then obtain ix prev where "inputs h = Some (ix, prev)" "k < length (vSpent ix)" using check_inputs_value(3) [OF ci] by blast
      then show ?thesis using view s t by blast
    qed
    have "index_view db pool' h = map_option (marked pos (vin tx) h) (index_view db pool h)" for h
    proof (cases "h \<in> op_hash ` prevout ` set (vin tx)")
      case True
      then obtain ix prev where "inputs h = Some (ix, prev)" using check_inputs_value(3) [OF ci] by blast
      then show ?thesis using s True view by (simp add: index_view_def map_add_def)
    next
      case False
      then have "map_option (marked pos (vin tx) h) (index_view db pool h) = index_view db pool h"
        by (cases "index_view db pool h") (simp_all add: marked_other)
      then show ?thesis using s False by (simp add: index_view_def map_add_def)
    qed
    then show ?thesis using s range null by blast
  qed
  show "list_all (in_range (index_view db pool)) (vin tx)" if "\<not> IsCoinBase tx" using * [OF that] by blast
  show "distinct (map prevout (vin tx))" if "\<not> IsCoinBase tx" using * [OF that] by blast
  show "\<exists>ix. index_view db pool h = Some ix \<and> k < length (vSpent ix) \<and> CDiskTxPos_IsNull (vSpent ix ! k)"
    if "\<not> IsCoinBase tx" "spends (vin tx) h k" using * [OF that(1)] that(2) by blast
  show "index_view db pool' = (\<lambda>h. map_option (marked pos (if IsCoinBase tx then [] else vin tx) h) (index_view db pool h))"
    using * assms(2) by (cases "IsCoinBase tx") (simp_all add: ConnectInputs_def option.map_id0 marked_Nil_id)
qed

section \<open>A spend\<close>

text \<open>A transaction whose output anybody can spend and one that spends it.\<close>

definition demo_prev :: CTransaction where
  "demo_prev = demo_tx\<lparr> vout := [\<lparr> subCurrency = [], nValue = 7000000, scriptPubKey = [0x51] \<rparr>] \<rparr>"

definition demo_spend :: CTransaction where
  "demo_spend = demo_tx\<lparr> vin := [\<lparr> prevout = \<lparr> op_hash = 32, op_n = 0 \<rparr>, scriptSig = [], nSequence = 0, infos = [] \<rparr>] \<rparr>"

definition demo_pos :: CDiskTxPos where
  "demo_pos = \<lparr> pos_nFile = 1, pos_nBlockPos = 8, pos_nTxPos = 99 \<rparr>"

definition demo_db :: CTxDB where
  "demo_db = \<lparr> mapTxIndex = [32 \<mapsto> CTxIndex_new (demo_pos\<lparr> pos_nBlockPos := 0 \<rparr>) 1],
               disk_tx = (\<lambda>_. Some demo_prev), disk_block_time = (\<lambda>_. Some 5) \<rparr>"

definition demo_inputs :: MapPrevTx where
  "demo_inputs = [32 \<mapsto> (CTxIndex_new (demo_pos\<lparr> pos_nBlockPos := 0 \<rparr>) 1, demo_prev)]"

lemma demo_fetch: "FetchInputs demo_db Map.empty Map.empty True demo_spend = Inr demo_inputs"
  by (simp add: FetchInputs_def demo_spend_def demo_tx_def IsCoinBase_def COutPoint_IsNull_def demo_db_def ReadTxIndex_def
      CTxIndex_new_def demo_pos_def pos_mempool_def prevout_in_range_def demo_inputs_def demo_prev_def)

lemma demo_prev_hash: "CTransaction_GetHash demo_lib demo_prev = Some 32"
  by (simp add: CTransaction_GetHash_def demo_prev_def demo_tx_def Serialize_CTransaction_def Hash_def demo_lib_def
      valid_version_def tx_types)

lemma demo_true: "CastToBool (getvch demo_lib 1)"
  by code_simp

lemma demo_verify: "VerifySignature demo_lib demo_prev demo_spend 0 0 no_cache = (Some True, no_cache)"
  using demo_prev_hash demo_true
  by (simp add: VerifySignature_def demo_spend_def demo_prev_def demo_tx_def VerifyScript_def EvalScript_def eval_loop.simps
      GetOp2_def push_size_def eval_step_def Let_def disabled_def exec_op_def lift_stack_def op_push_value_def
      IsPayToScriptHash_def)

lemma demo_connect: "\<exists>pool' ca'. ConnectInputs demo_lib demo_db 500 100 False True [] demo_pos demo_spend demo_inputs Map.empty no_cache =
  Inr (pool', ca')"
proof -
  have ci: "check_inputs 500 [] demo_inputs (tx_nTime demo_spend) 0 (vin demo_spend) = Inr 7000000"
    by (simp add: demo_inputs_def demo_spend_def demo_tx_def demo_prev_def CTxIndex_new_def MoneyRange_def MAX_MONEY_def COIN_def Let_def)
  have sp: "\<exists>r. spend_inputs demo_lib False True demo_pos demo_spend 0 (vin demo_spend) demo_inputs Map.empty no_cache = Inr r"
    using demo_verify
    by (simp add: demo_inputs_def demo_spend_def demo_tx_def CTxIndex_new_def CDiskTxPos_IsNull_def CDiskTxPos_SetNull_def Let_def)
  have cv: "check_value demo_lib demo_db 100 demo_spend 7000000 = Inr ()"
    by (simp add: check_value_def demo_spend_def demo_tx_def IsCoinStake_def GetValueOut_def MoneyRange_def MAX_MONEY_def COIN_def Let_def)
  show ?thesis using ci sp cv by (fastforce simp: ConnectInputs_def split: sum.split)
qed

lemma demo_facts: "\<not> IsCoinBase demo_spend" "\<not> CDiskTxPos_IsNull demo_pos" "\<not> IsCoinStake demo_spend"
  by (simp_all add: demo_spend_def demo_tx_def IsCoinBase_def IsCoinStake_def COutPoint_IsNull_def demo_pos_def CDiskTxPos_IsNull_def)


text \<open>A coinstake that turns seven coins into 7.001 after 1000000 seconds.\<close>

definition demo_stake :: CTransaction where
  "demo_stake = demo_spend\<lparr> tx_nTime := 1000007,
     vout := [\<lparr> subCurrency = [], nValue = 0, scriptPubKey = [] \<rparr>, \<lparr> subCurrency = [], nValue = 7001000, scriptPubKey = [0x51] \<rparr>] \<rparr>"

lemma demo_age: "GetCoinAge demo_lib demo_db 100 demo_stake = Some 7000000"
  using getuint64_eq [OF demo_lib_format, of 7000000]
  by (simp add: GetCoinAge_def demo_stake_def demo_spend_def demo_tx_def IsCoinBase_def COutPoint_IsNull_def ReadFromDisk_def ReadTxIndex_def
      demo_db_def demo_prev_def CENT_def COIN_def bn_div_def Let_def)

lemma demo_fee: "GetMinFee 1 GMF_BLOCK demo_stake = 10000"
proof -
  have l: "length (tx_bytes demo_stake) < 1000"
    using tx_bytes_le [of demo_stake] txout_le [of "vout demo_stake ! 0"] txout_le [of "vout demo_stake ! 1"]
      vector_bytes_le [of "[]"]
    by (simp add: demo_stake_def demo_spend_def demo_tx_def Serialize_CTxIn_def Serialize_COutPoint_def length_Serialize_vector
        GetSizeOfCompactSize_def size_word_def)
  then have "uint (of_nat (length (tx_bytes demo_stake)) :: uint32) div 1000 = 0"
    by (simp add: uint_word_of_int take_bit_int_def unsigned_of_nat take_bit_nat_def)
  then show ?thesis
    by (simp add: GetMinFee_def Let_def raised_fee_def BASE_TX_FEE_def CENT_def MIN_TX_FEE_def MAX_MONEY_def COIN_def
        TX_INFO_FEE_def i64_id CountInfoTxs_def) (simp add: demo_stake_def demo_spend_def demo_tx_def DUST_FEE_def CENT_def i64_id)
qed

lemma demo_stake_facts: "\<not> IsCoinBase demo_stake" "IsCoinStake demo_stake"
  by (simp_all add: demo_stake_def demo_spend_def demo_tx_def IsCoinBase_def IsCoinStake_def COutPoint_IsNull_def CTxOut_IsEmpty_def)

theorem coinstake_creates_at_most_witness:
  "sum_out (vout demo_stake) - value_in demo_inputs (vin demo_stake) = 1000 \<and> GetProofOfStakeReward 7000000 = 2218 \<and>
   sum_out (vout demo_stake) - value_in demo_inputs (vin demo_stake) \<le> 8856881371"
proof -
  have ci: "check_inputs 500 [] demo_inputs (tx_nTime demo_stake) 0 (vin demo_stake) = Inr 7000000"
    by (simp add: demo_inputs_def demo_stake_def demo_spend_def demo_tx_def demo_prev_def CTxIndex_new_def MoneyRange_def MAX_MONEY_def COIN_def
        Let_def)
  have sp: "\<exists>r. spend_inputs demo_lib True True demo_pos demo_stake 0 (vin demo_stake) demo_inputs Map.empty no_cache = Inr r"
    by (simp add: demo_inputs_def demo_stake_def demo_spend_def demo_tx_def CTxIndex_new_def CDiskTxPos_IsNull_def CDiskTxPos_SetNull_def Let_def)
  have reward: "GetProofOfStakeReward 7000000 = 2218"
    by (simp add: GetProofOfStakeReward_def CENT_def i64_id signed_divide_int_def)
  have out: "GetValueOut demo_stake = Some 7001000"
    by (simp add: demo_stake_def demo_spend_def demo_tx_def GetValueOut_def MoneyRange_def MAX_MONEY_def COIN_def)
  have "check_value demo_lib demo_db 100 demo_stake 7000000 = Inr ()"
    by (simp add: check_value_def demo_stake_facts demo_age demo_fee out reward MIN_TX_FEE_def CENT_def i64_id)
  then obtain pool' ca' where "ConnectInputs demo_lib demo_db 500 100 True True [] demo_pos demo_stake demo_inputs Map.empty no_cache =
      Inr (pool', ca')"
    using ci sp demo_stake_facts(1) by (fastforce simp: ConnectInputs_def split: sum.split)
  then have "sum_out (vout demo_stake) - value_in demo_inputs (vin demo_stake) \<le> 8856881371"
    using coinstake_creates_at_most demo_stake_facts by blast
  moreover have "sum_out (vout demo_stake) - value_in demo_inputs (vin demo_stake) = 1000"
    by (simp add: demo_stake_def demo_spend_def demo_tx_def demo_inputs_def value_in_def demo_prev_def)
  ultimately show ?thesis using reward by simp
qed

end
