(* ===== verification/Merkle.thy ===== *)
theory Merkle
  imports Crypto
begin

text \<open>
  The hash tree of a block, \<^verbatim>\<open>BuildMerkleTree\<close>, \<^verbatim>\<open>GetMerkleBranch\<close> and \<^verbatim>\<open>CheckMerkleBranch\<close> of
  \<^verbatim>\<open>CBlock\<close> in \<^verbatim>\<open>src/src/main.h\<close>. The tree is the flat vector of the code: the transaction hashes
  first, then one row after the other, the root last.
\<close>

section \<open>The routines\<close>

definition hash_pair :: "'a openssl_scheme \<Rightarrow> uint256 \<Rightarrow> uint256 \<Rightarrow> uint256" where
  "hash_pair lib a b = Hash2 lib (image256 a) (image256 b)"

text \<open>The inner loop: the hashes pushed for the row of \<open>nSize\<close> entries that starts at \<open>j\<close>.\<close>

function merkle_row :: "'a openssl_scheme \<Rightarrow> uint256 list \<Rightarrow> nat \<Rightarrow> nat \<Rightarrow> nat \<Rightarrow> uint256 list" where
  "merkle_row lib tree j nSize i =
     (if i < nSize then
        (let i2 = min (i + 1) (nSize - 1)
         in hash_pair lib (tree ! (j + i)) (tree ! (j + i2)) # merkle_row lib tree j nSize (i + 2))
      else [])"
  by pat_completeness auto
termination
  by (relation "measure (\<lambda>(lib, tree, j, nSize, i). nSize - i)") auto

function merkle_loop :: "'a openssl_scheme \<Rightarrow> nat \<Rightarrow> nat \<Rightarrow> uint256 list \<Rightarrow> uint256 list" where
  "merkle_loop lib j nSize tree =
     (if nSize > 1
      then merkle_loop lib (j + nSize) ((nSize + 1) div 2) (tree @ merkle_row lib tree j nSize 0)
      else tree)"
  by pat_completeness auto
termination
  by (relation "measure (\<lambda>(lib, j, nSize, tree). nSize)") auto

declare merkle_row.simps [simp del] merkle_loop.simps [simp del]

definition merkle_tree :: "'a openssl_scheme \<Rightarrow> uint256 list \<Rightarrow> uint256 list" where
  "merkle_tree lib hashes = merkle_loop lib 0 (length hashes) hashes"

definition BuildMerkleTree :: "'a openssl_scheme \<Rightarrow> uint256 list \<Rightarrow> uint256" where
  "BuildMerkleTree lib hashes =
     (let tree = merkle_tree lib hashes in if tree = [] then 0 else last tree)"

function branch_loop :: "uint256 list \<Rightarrow> nat \<Rightarrow> nat \<Rightarrow> nat \<Rightarrow> uint256 list" where
  "branch_loop tree j nSize nIndex =
     (if nSize > 1 then
        (let i = min (nIndex XOR 1) (nSize - 1)
         in tree ! (j + i) # branch_loop tree (j + nSize) ((nSize + 1) div 2) (nIndex div 2))
      else [])"
  by pat_completeness auto
termination
  by (relation "measure (\<lambda>(tree, j, nSize, nIndex). nSize)") auto

declare branch_loop.simps [simp del]

definition GetMerkleBranch :: "'a openssl_scheme \<Rightarrow> uint256 list \<Rightarrow> nat \<Rightarrow> uint256 list" where
  "GetMerkleBranch lib hashes nIndex = branch_loop (merkle_tree lib hashes) 0 (length hashes) nIndex"

fun check_branch :: "'a openssl_scheme \<Rightarrow> uint256 \<Rightarrow> uint256 list \<Rightarrow> int \<Rightarrow> uint256" where
  "check_branch lib hash [] nIndex = hash"
| "check_branch lib hash (otherside # branch) nIndex =
     check_branch lib (if odd nIndex then hash_pair lib otherside hash else hash_pair lib hash otherside)
       branch (nIndex div 2)"

definition CheckMerkleBranch :: "'a openssl_scheme \<Rightarrow> uint256 \<Rightarrow> uint256 list \<Rightarrow> int \<Rightarrow> uint256" where
  "CheckMerkleBranch lib hash branch nIndex = (if nIndex = - 1 then 0 else check_branch lib hash branch nIndex)"

section \<open>Rows as lists\<close>

text \<open>A row of the tree from the row below it; the last entry of an odd row is paired with itself.\<close>

fun row :: "'a openssl_scheme \<Rightarrow> uint256 list \<Rightarrow> uint256 list" where
  "row lib [] = []"
| "row lib [x] = [hash_pair lib x x]"
| "row lib (x # y # r) = hash_pair lib x y # row lib r"

lemma length_row [simp]: "length (row lib hs) = (length hs + 1) div 2"
  by (induction lib hs rule: row.induct) simp_all

lemma row_nth:
  "k < (length hs + 1) div 2 \<Longrightarrow>
   row lib hs ! k = hash_pair lib (hs ! (2 * k)) (hs ! min (2 * k + 1) (length hs - 1))"
proof (induction lib hs arbitrary: k rule: row.induct)
  case (3 lib x y r)
  show ?case
  proof (cases k)
    case (Suc m)
    have "r \<noteq> []" using 3 Suc by auto
    then have "(x # y # r) ! min (2 * k + 1) (length (x # y # r) - 1) = r ! min (2 * m + 1) (length r - 1)"
      using Suc by (cases r) (auto simp: min_def nth_Cons')
    then show ?thesis using 3 Suc by simp
  qed (simp add: min_def)
qed simp_all

lemma merkle_row_eq:
  assumes "length tree = length pre + length hs" and "take (length pre) tree = pre" and "drop (length pre) tree = hs" and "even i"
  shows "merkle_row lib tree (length pre) (length hs) i = drop (i div 2) (row lib hs)"
  using assms(4)
proof (induction "length hs - i" arbitrary: i rule: less_induct)
  case less
  have tree: "tree = pre @ hs" using assms(2,3) by (metis append_take_drop_id)
  show ?case
  proof (cases "i < length hs")
    case False
    then have "(length hs + 1) div 2 \<le> i div 2" using less.prems by (auto elim!: evenE)
    then show ?thesis using False by (subst merkle_row.simps) simp
  next
    case True
    then have k: "i div 2 < (length hs + 1) div 2" and i: "i = 2 * (i div 2)" using less.prems by auto
    have "merkle_row lib tree (length pre) (length hs) i =
        row lib hs ! (i div 2) # merkle_row lib tree (length pre) (length hs) (i + 2)"
      using True row_nth [OF k, of lib] i by (subst merkle_row.simps) (simp add: tree nth_append)
    also have "\<dots> = row lib hs ! (i div 2) # drop ((i + 2) div 2) (row lib hs)"
      using less.hyps [of "i + 2"] True less.prems by simp
    also have "\<dots> = drop (i div 2) (row lib hs)"
      using Cons_nth_drop_Suc [of "i div 2" "row lib hs"] k by simp
    finally show ?thesis .
  qed
qed

lemma merkle_loop_step:
  assumes "length hs > 1"
  shows "merkle_loop lib (length pre) (length hs) (pre @ hs) =
    merkle_loop lib (length (pre @ hs)) (length (row lib hs)) ((pre @ hs) @ row lib hs)"
proof -
  have "merkle_row lib (pre @ hs) (length pre) (length hs) 0 = row lib hs"
    using merkle_row_eq [of "pre @ hs" pre hs 0 lib] by simp
  then show ?thesis using assms by (subst merkle_loop.simps) simp
qed

text \<open>The root, row by row.\<close>

function root :: "'a openssl_scheme \<Rightarrow> uint256 list \<Rightarrow> uint256" where
  "root lib hs = (if length hs > 1 then root lib (row lib hs) else if hs = [] then 0 else hd hs)"
  by pat_completeness auto
termination
  by (relation "measure (\<lambda>(lib, hs). length hs)") auto

declare root.simps [simp del]

lemma merkle_loop_root:
  "\<exists>r. merkle_loop lib (length pre) (length hs) (pre @ hs) = pre @ hs @ r \<and> (hs \<noteq> [] \<longrightarrow> last (hs @ r) = root lib hs)"
proof (induction lib hs arbitrary: pre rule: root.induct)
  case (1 lib hs)
  show ?case
  proof (cases "length hs > 1")
    case True
    then have ne: "row lib hs \<noteq> []" by (simp flip: length_greater_0_conv)
    obtain r where "merkle_loop lib (length (pre @ hs)) (length (row lib hs)) ((pre @ hs) @ row lib hs) = (pre @ hs) @ row lib hs @ r"
      "last (row lib hs @ r) = root lib (row lib hs)"
      using "1.IH" [OF True, of "pre @ hs"] ne by auto
    then show ?thesis using merkle_loop_step [OF True, of lib pre] True ne
      by (intro exI [of _ "row lib hs @ r"]) (simp add: root.simps [of lib hs])
  next
    case False
    then have "hs = [] \<or> (\<exists>x. hs = [x])" by (cases hs rule: remdups_adj.cases) auto
    then show ?thesis using False by (auto simp: merkle_loop.simps root.simps)
  qed
qed

lemma BuildMerkleTree_root: "BuildMerkleTree lib hs = root lib hs"
proof (cases "hs = []")
  case True
  then show ?thesis by (simp add: BuildMerkleTree_def merkle_tree_def merkle_loop.simps root.simps)
next
  case False
  then show ?thesis using merkle_loop_root [of lib "[]" hs] by (auto simp: BuildMerkleTree_def merkle_tree_def)
qed

section \<open>Branches\<close>

lemma xor_one_nat: "n XOR Suc 0 = (if even n then n + 1 else n - 1)" for n :: nat
  by (simp add: xor_Suc_0_eq)

lemma row_pair:
  assumes "idx < length hs" and "length hs > 1"
  shows "row lib hs ! (idx div 2) =
    (if odd idx then hash_pair lib (hs ! min (idx XOR 1) (length hs - 1)) (hs ! idx)
     else hash_pair lib (hs ! idx) (hs ! min (idx XOR 1) (length hs - 1)))"
proof -
  have k: "idx div 2 < (length hs + 1) div 2" using assms by auto
  show ?thesis
  proof (cases "even idx")
    case True
    then have "2 * (idx div 2) = idx" "idx XOR 1 = idx + 1" by (auto simp: xor_one_nat)
    then show ?thesis using row_nth [OF k, of lib] True by simp
  next
    case False
    then have "2 * (idx div 2) = idx - 1" "2 * (idx div 2) + 1 = idx" "idx XOR 1 = idx - 1"
      by (auto simp: xor_one_nat elim!: oddE)
    moreover have "min idx (length hs - 1) = idx" "min (idx - 1) (length hs - 1) = idx - 1" using assms by simp_all
    ultimately show ?thesis using row_nth [OF k, of lib] False by simp
  qed
qed

lemma branch_complete:
  assumes "idx < length hs"
  shows "check_branch lib (hs ! idx)
      (branch_loop (merkle_loop lib (length pre) (length hs) (pre @ hs)) (length pre) (length hs) idx) (int idx) = root lib hs"
  using assms
proof (induction lib hs arbitrary: pre idx rule: root.induct)
  case (1 lib hs)
  show ?case
  proof (cases "length hs > 1")
    case False
    then obtain x where "hs = [x]" "idx = 0" using "1.prems" by (cases hs rule: remdups_adj.cases) auto
    then show ?thesis by (simp add: branch_loop.simps root.simps)
  next
    case True
    define tree where "tree = merkle_loop lib (length pre) (length hs) (pre @ hs)"
    have tree': "tree = merkle_loop lib (length (pre @ hs)) (length (row lib hs)) ((pre @ hs) @ row lib hs)"
      unfolding tree_def by (rule merkle_loop_step [OF True])
    obtain r where tr: "tree = pre @ hs @ r" using merkle_loop_root [of lib pre hs] tree_def by blast
    let ?i = "min (idx XOR 1) (length hs - 1)"
    have "?i < length hs" using True by auto
    then have side: "tree ! (length pre + ?i) = hs ! ?i" by (simp add: tr nth_append)
    have br: "branch_loop tree (length pre) (length hs) idx =
        hs ! ?i # branch_loop tree (length (pre @ hs)) (length (row lib hs)) (idx div 2)"
      using True side by (subst branch_loop.simps) (simp add: Let_def)
    have "idx div 2 < length (row lib hs)" using "1.prems" by auto
    then have "check_branch lib (row lib hs ! (idx div 2))
        (branch_loop tree (length (pre @ hs)) (length (row lib hs)) (idx div 2)) (int (idx div 2)) = root lib hs"
      using "1.IH" [OF True, of "idx div 2" "pre @ hs"] True unfolding tree' by (simp add: root.simps [of lib hs])
    then show ?thesis
      unfolding row_pair [OF "1.prems" True, of lib] tree_def [symmetric] br check_branch.simps
      by (simp add: zdiv_int)
  qed
qed

section \<open>Collisions\<close>

text \<open>
  The byte strings a computation of a root or a branch feeds to SHA-256. A collision is claimed only
  among these: it can be read off the two computations.
\<close>

definition pair_inputs :: "'a openssl_scheme \<Rightarrow> uint256 \<Rightarrow> uint256 \<Rightarrow> bytes list" where
  "pair_inputs lib a b = [image256 a @ image256 b, image256 (SHA256 lib (image256 a @ image256 b))]"

fun row_inputs :: "'a openssl_scheme \<Rightarrow> uint256 list \<Rightarrow> bytes list" where
  "row_inputs lib [] = []"
| "row_inputs lib [x] = pair_inputs lib x x"
| "row_inputs lib (x # y # r) = pair_inputs lib x y @ row_inputs lib r"

function tree_inputs :: "'a openssl_scheme \<Rightarrow> uint256 list \<Rightarrow> bytes list" where
  "tree_inputs lib hs = (if length hs > 1 then row_inputs lib hs @ tree_inputs lib (row lib hs) else [])"
  by pat_completeness auto
termination
  by (relation "measure (\<lambda>(lib, hs). length hs)") (auto simp: length_row)

declare tree_inputs.simps [simp del]

fun branch_inputs :: "'a openssl_scheme \<Rightarrow> uint256 \<Rightarrow> uint256 list \<Rightarrow> int \<Rightarrow> bytes list" where
  "branch_inputs lib h [] i = []"
| "branch_inputs lib h (z # b) i =
     (if odd i then pair_inputs lib z h @ branch_inputs lib (hash_pair lib z h) b (i div 2)
      else pair_inputs lib h z @ branch_inputs lib (hash_pair lib h z) b (i div 2))"

definition collides :: "'a openssl_scheme \<Rightarrow> bytes list \<Rightarrow> bytes list \<Rightarrow> bool" where
  "collides lib as bs = (\<exists>a\<in>set as. \<exists>b\<in>set bs. a \<noteq> b \<and> SHA256 lib a = SHA256 lib b)"

lemma collides_append [simp]:
  "collides lib as bs \<Longrightarrow> collides lib (as @ as') (bs @ bs')" "collides lib as' bs' \<Longrightarrow> collides lib (as @ as') (bs @ bs')"
  by (auto simp: collides_def)

lemma image256_inj: "image256 a = image256 b \<longleftrightarrow> a = b"
proof -
  have "bytes_word (image256 h) = h" for h :: uint256 by (rule bytes_word_bytes) simp
  then show ?thesis by metis
qed

lemma hash_pair_inj:
  assumes "hash_pair lib a b = hash_pair lib c d"
  shows "(a = c \<and> b = d) \<or> collides lib (pair_inputs lib a b) (pair_inputs lib c d)"
  using assms image256_inj by (fastforce simp: collides_def pair_inputs_def hash_pair_def Hash2_def Let_def)

lemma check_branch_inj:
  "length b = length b' \<Longrightarrow> check_branch lib h b i = check_branch lib h' b' i \<Longrightarrow>
   (h = h' \<and> b = b') \<or> collides lib (branch_inputs lib h b i) (branch_inputs lib h' b' i)"
proof (induction b b' arbitrary: h h' i rule: list_induct2)
  case (Cons x xs y ys)
  let ?f = "\<lambda>z h. if odd i then hash_pair lib z h else hash_pair lib h z"
  have "(?f x h = ?f y h' \<and> xs = ys) \<or> collides lib (branch_inputs lib (?f x h) xs (i div 2)) (branch_inputs lib (?f y h') ys (i div 2))"
    using Cons.IH [of "?f x h" "i div 2" "?f y h'"] Cons.prems by simp
  then show ?case using hash_pair_inj [of lib x h y h'] hash_pair_inj [of lib h x h' y] by (cases "odd i") auto
qed simp

lemma row_inj:
  "length hs = length gs \<Longrightarrow> row lib hs = row lib gs \<Longrightarrow> hs = gs \<or> collides lib (row_inputs lib hs) (row_inputs lib gs)"
proof (induction "length hs" arbitrary: hs gs rule: less_induct)
  case less
  show ?case
  proof (cases hs rule: remdups_adj.cases)
    case 1
    then show ?thesis using less.prems by simp
  next
    case (2 x)
    then obtain y where "gs = [y]" using less.prems by (cases gs rule: remdups_adj.cases) auto
    then show ?thesis using 2 less.prems hash_pair_inj [of lib x x y y] by simp
  next
    case (3 x y r)
    then obtain x' y' r' where gs: "gs = x' # y' # r'" using less.prems by (cases gs rule: remdups_adj.cases) auto
    then have "r = r' \<or> collides lib (row_inputs lib r) (row_inputs lib r')" using less.hyps [of r r'] less.prems 3 by simp
    then show ?thesis using less.prems 3 gs hash_pair_inj [of lib x y x' y'] by auto
  qed
qed

lemma root_inj:
  "length hs = length gs \<Longrightarrow> root lib hs = root lib gs \<Longrightarrow> hs = gs \<or> collides lib (tree_inputs lib hs) (tree_inputs lib gs)"
proof (induction "length hs" arbitrary: hs gs rule: less_induct)
  case less
  show ?case
  proof (cases "length hs > 1")
    case True
    then have "row lib hs = row lib gs \<or> collides lib (tree_inputs lib (row lib hs)) (tree_inputs lib (row lib gs))"
      using less.hyps [of "row lib hs" "row lib gs"] less.prems by (simp add: root.simps [of lib hs] root.simps [of lib gs])
    then show ?thesis using row_inj [of hs gs lib] less.prems True by (auto simp: tree_inputs.simps [of lib hs] tree_inputs.simps [of lib gs])
  next
    case False
    then have "hs = [] \<and> gs = [] \<or> (\<exists>x y. hs = [x] \<and> gs = [y])"
      using less.prems by (cases hs rule: remdups_adj.cases; cases gs rule: remdups_adj.cases) auto
    then show ?thesis using less.prems by (auto simp: root.simps)
  qed
qed

lemma row_duplicate: "odd (length hs) \<Longrightarrow> row lib (hs @ [last hs]) = row lib hs"
  by (induction lib hs rule: row.induct) auto

text \<open>
  Every transaction hash of a block has a branch that proves it: the branch read off the flat
  tree, checked at the index of the hash, gives the root.
\<close>

theorem merkle_branch_complete:
  assumes "n < length hashes"
  shows "CheckMerkleBranch lib (hashes ! n) (GetMerkleBranch lib hashes n) (int n) = BuildMerkleTree lib hashes"
  using branch_complete [OF assms, of lib "[]"]
  by (simp add: CheckMerkleBranch_def GetMerkleBranch_def merkle_tree_def BuildMerkleTree_root)

theorem merkle_branch_complete_witness:
  "CheckMerkleBranch demo_lib 30 (GetMerkleBranch demo_lib [10, 20, 30] 2) 2 = BuildMerkleTree demo_lib [10, 20, 30]"
  using merkle_branch_complete [of 2 "[10, 20, 30]" demo_lib] by (simp add: numeral_2_eq_2)

text \<open>
  C34. The root commits to the transactions. Two lists of hashes of the same length with the same
  root are equal, and two branches of the same length that lead from the same index to the same root
  start at the same hash and are equal, unless the two computations feed two different strings with the
  same digest to SHA-256. The length is needed: repeating the last hash of an odd list of at least three
  leaves the root as it is.
\<close>

theorem merkle_root_binding:
  "(length hs = length gs \<and> BuildMerkleTree lib hs = BuildMerkleTree lib gs \<longrightarrow>
      hs = gs \<or> collides lib (tree_inputs lib hs) (tree_inputs lib gs)) \<and>
   (length b = length b' \<and> n \<noteq> - 1 \<and> CheckMerkleBranch lib h b n = CheckMerkleBranch lib h' b' n \<longrightarrow>
      h = h' \<and> b = b' \<or> collides lib (branch_inputs lib h b n) (branch_inputs lib h' b' n)) \<and>
   (odd (length hs) \<and> length hs \<ge> 3 \<longrightarrow> BuildMerkleTree lib (hs @ [last hs]) = BuildMerkleTree lib hs)"
proof -
  have "BuildMerkleTree lib (hs @ [last hs]) = BuildMerkleTree lib hs" if "odd (length hs)" "length hs \<ge> 3"
    using that row_duplicate [of hs lib]
    by (auto simp: BuildMerkleTree_root root.simps [of lib "hs @ _"] root.simps [of lib hs])
  then show ?thesis
    using root_inj [of hs gs lib] check_branch_inj [of b b' lib h n h'] by (auto simp: BuildMerkleTree_root CheckMerkleBranch_def)
qed

theorem merkle_root_binding_witness:
  "BuildMerkleTree demo_lib ([1, 2, 3] @ [3]) = BuildMerkleTree demo_lib [1, 2, 3]"
  using merkle_root_binding [of "[1, 2, 3]" "[]" demo_lib "[]" "[]" 0 0 0] by simp

end
