(* ===== verification/Target.thy ===== *)
theory Target
  imports Chain "HOL-Library.Log_Nat"
begin

text \<open>
  The next difficulty, \<^verbatim>\<open>GetNextTargetRequired\<close> of \<^verbatim>\<open>src/src/main.cpp\<close>. The function clamps the
  measured time span with C doubles; they are modelled by rationals with the rounding of the IEEE
  754 binary64 format (to nearest, ties to even) after each operation. The values stay far from its
  overflow and underflow ranges.
\<close>

section \<open>Double-precision arithmetic\<close>

text \<open>The exponent of a positive rational: the largest power of two that does not exceed it.\<close>

definition dexp :: "rat \<Rightarrow> int" where
  "dexp x =
     (let (a, b) = quotient_of x;
          e = int (floorlog 2 (nat a)) - int (floorlog 2 (nat b))
      in if 2 powi e \<le> x then e else e - 1)"

definition round_even :: "rat \<Rightarrow> int" where
  "round_even x =
     (let f = \<lfloor>x\<rfloor>; d = x - of_int f in
      if d < 1 / 2 then f else if d > 1 / 2 then f + 1 else if even f then f else f + 1)"

definition dbl :: "rat \<Rightarrow> rat" where
  "dbl x =
     (if x = 0 then 0
      else let u = 2 powi (dexp \<bar>x\<bar> - 52) in of_int (round_even (x / u)) * u)"

text \<open>The conversion of a double to an integer truncates.\<close>

definition dtrunc :: "rat \<Rightarrow> int" where
  "dtrunc x = (if x < 0 then \<lceil>x\<rceil> else \<lfloor>x\<rfloor>)"

section \<open>The next target\<close>

definition nPastBlocksMin :: int where "nPastBlocksMin = 2"
definition nPastBlocksMax :: int where "nPastBlocksMax = 24"
definition WORK_TARGET_SPACING :: int where "WORK_TARGET_SPACING = 5 * 60"
definition STAKE_TARGET_SPACING :: int where "STAKE_TARGET_SPACING = 2 * 60"
definition nTargetSpacingWorkMax :: int where "nTargetSpacingWorkMax = 60 * STAKE_TARGET_SPACING"

record target_scan =
  nCountBlocks :: int
  nActualTimespan :: int
  nLastBlockTime :: int
  bnPastTargetAverage :: int
  pLastBlockReading :: chain

lemma GetLastBlockIndex2_length: "length (GetLastBlockIndex2 c f) \<le> length c"
  by (induction c f rule: GetLastBlockIndex2.induct) (simp_all add: le_SucI)

text \<open>The loop over the past blocks of the kind asked for.\<close>

function past_blocks_loop :: "'a bignum_lib_scheme \<Rightarrow> bool \<Rightarrow> chain \<Rightarrow> target_scan \<Rightarrow> target_scan" where
  "past_blocks_loop lib fProofOfStake pBlockReading s =
     (case pBlockReading of
        [] \<Rightarrow> s
      | b # pprev \<Rightarrow>
          if GetTypeHeight (b # pprev) fProofOfStake > 1 \<and> nCountBlocks s < nPastBlocksMax then
            past_blocks_loop lib fProofOfStake (GetLastBlockIndex2 pprev fProofOfStake)
              \<lparr> nCountBlocks = nCountBlocks s + 1,
                nActualTimespan = nActualTimespan s + (nLastBlockTime s - bi_GetBlockTime b),
                nLastBlockTime = bi_GetBlockTime b,
                bnPastTargetAverage =
                  (if nCountBlocks s = 0 then SetCompact lib (bi_nBits b)
                   else bn_div (bnPastTargetAverage s * nCountBlocks s + SetCompact lib (bi_nBits b)) (nCountBlocks s + 1)),
                pLastBlockReading = b # pprev \<rparr>
          else s)"
  by pat_completeness auto
termination
  by (relation "measure (\<lambda>(lib, f, c, s). length c)") (auto simp: le_imp_less_Suc GetLastBlockIndex2_length)

declare past_blocks_loop.simps [simp del]

definition target_timespan :: "bool \<Rightarrow> chain \<Rightarrow> target_scan \<Rightarrow> int" where
  "target_timespan fProofOfStake pBlockLastSolved s =
     (if fProofOfStake then nCountBlocks s * STAKE_TARGET_SPACING
      else
        let nCountStakeBlocks = GetTypeHeight pBlockLastSolved True - GetTypeHeight (pLastBlockReading s) True;
            nTargetTimespan = nCountBlocks s * WORK_TARGET_SPACING + nCountStakeBlocks * STAKE_TARGET_SPACING
        in if nTargetTimespan > nCountBlocks s * nTargetSpacingWorkMax
           then nCountBlocks s * nTargetSpacingWorkMax else nTargetTimespan)"

definition max_adjust :: "int \<Rightarrow> rat" where
  "max_adjust n = dbl (1 + dbl (dbl (2 * dbl (of_int n)) / dbl (of_int nPastBlocksMax)))"

definition clamp_timespan :: "int \<Rightarrow> int \<Rightarrow> int \<Rightarrow> int" where
  "clamp_timespan n nTarget nActual =
     (let dMaxAdjust = max_adjust n;
          nActual = (if dbl (of_int nActual) < dbl (dbl (of_int nTarget) / dMaxAdjust)
                     then dtrunc (dbl (dbl (of_int nTarget) / dMaxAdjust)) else nActual)
      in if dbl (of_int nActual) > dbl (dbl (of_int nTarget) * dMaxAdjust)
         then dtrunc (dbl (dbl (of_int nTarget) * dMaxAdjust)) else nActual)"

text \<open>
  \<^verbatim>\<open>GetNextTargetRequired\<close> on a non-empty chain. \<open>None\<close> is the exception of a division by zero: a work
  target whose time span is zero.
\<close>

definition GetNextTargetRequired :: "'a bignum_lib_scheme \<Rightarrow> bool \<Rightarrow> chain \<Rightarrow> bool \<Rightarrow> uint32 option" where
  "GetNextTargetRequired lib fTestNet pBlockLastSolved fProofOfStake =
     (let nHeight = bi_nHeight (hd pBlockLastSolved) in
      if nHeight \<ge> nPoWSwitchHeight \<and> nHeight < nPoWSwitchHeight + 8
      then Some (GetCompact lib (bnNewProofOfWorkLimit fTestNet))
      else
        let pBlockReading = GetLastBlockIndex2 pBlockLastSolved fProofOfStake;
            bnLimit = GetProofOfWorkLimit fTestNet nHeight
        in
        if pBlockReading = [] \<or> GetTypeHeight pBlockReading fProofOfStake - 1 < nPastBlocksMin
        then Some (GetCompact lib (if fProofOfStake then bnInitialPoSTarget fTestNet else bnLimit))
        else
          let s = past_blocks_loop lib fProofOfStake pBlockReading
                    \<lparr> nCountBlocks = 0, nActualTimespan = 0,
                      nLastBlockTime = bi_GetBlockTime (hd pBlockLastSolved),
                      bnPastTargetAverage = 0, pLastBlockReading = [] \<rparr>;
              nTarget = target_timespan fProofOfStake pBlockLastSolved s;
              nActual = clamp_timespan (nCountBlocks s) nTarget (nActualTimespan s)
          in if nTarget = 0 then None
             else
               let bnNewTarget = bn_div (bnPastTargetAverage s * nActual) nTarget
               in Some (GetCompact lib (if bnNewTarget > bnLimit then bnLimit else bnNewTarget)))"

section \<open>Properties of the rounding\<close>

lemma dexp_le:
  assumes "0 < x"
  shows "2 powi dexp x \<le> x"
proof -
  obtain a b where q: "quotient_of x = (a, b)" by fastforce
  then have b: "0 < b" and x: "x = of_int a / of_int b" by (rule quotient_of_denom_pos, rule quotient_of_div)
  then have a: "0 < a" using assms by (simp add: zero_less_divide_iff)
  define m k where "m = floorlog 2 (nat a)" and "k = floorlog 2 (nat b)"
  have "2 ^ (m - 1) \<le> nat a" "nat a < 2 ^ m" "nat b < 2 ^ k"
    using floorlog_bounds [of "nat a" 2] floorlog_bounds [of "nat b" 2] a b by (simp_all add: m_def k_def)
  moreover have m: "0 < m" using a floorlog_eq_zero_iff [of 2 "nat a"] by (simp add: m_def)
  ultimately have ab: "2 ^ (m - 1) \<le> a" "b < 2 ^ k"
    using a b by (auto simp: nat_less_iff le_nat_iff) 
  have "(2 :: rat) powi (int m - int k - 1) = 2 ^ (m - 1) / 2 ^ k"
    using m by (simp add: power_int_diff power_int_minus of_nat_diff flip: power_int_of_nat)
  also have "\<dots> \<le> of_int a / of_int b"
  proof (rule frac_le)
    show "(2 :: rat) ^ (m - 1) \<le> of_int a" using ab(1) by (metis of_int_le_iff of_int_numeral of_int_power)
    show "of_int b \<le> (2 :: rat) ^ k" using ab(2) by (metis less_imp_le of_int_le_iff of_int_numeral of_int_power)
  qed (use a b in simp_all)
  finally have "2 powi (int m - int k - 1) \<le> x" by (simp only: x)
  then show ?thesis unfolding dexp_def q by (simp add: m_def k_def Let_def)
qed

lemma dbl_unit_pos: "(0 :: rat) < 2 powi k"
  by simp

lemma round_even_nonneg: "0 \<le> x \<Longrightarrow> 0 \<le> round_even x"
  by (simp add: round_even_def Let_def)

lemma round_even_neg: "x \<le> - 1 \<Longrightarrow> round_even x \<le> - 1"
  unfolding round_even_def Let_def by (auto simp: not_less) linarith+

lemma round_even_int [simp]: "round_even (of_int n) = n"
  by (simp add: round_even_def)

lemma dbl_nonneg: "0 \<le> x \<Longrightarrow> 0 \<le> dbl x"
  by (simp add: dbl_def Let_def round_even_nonneg)

lemma scaled_ge:
  assumes "x \<noteq> 0"
  shows "1 \<le> \<bar>x\<bar> / 2 powi (dexp \<bar>x\<bar> - 52)"
proof -
  have "(2 :: rat) powi (dexp \<bar>x\<bar> - 52) \<le> 2 powi dexp \<bar>x\<bar>" by (rule power_int_increasing) simp_all
  also have "\<dots> \<le> \<bar>x\<bar>" using assms by (intro dexp_le) simp
  finally show ?thesis by (simp add: pos_le_divide_eq)
qed

lemma dbl_neg:
  assumes "x < 0"
  shows "dbl x < 0"
proof -
  let ?u = "2 powi (dexp \<bar>x\<bar> - 52) :: rat"
  have "x / ?u \<le> - 1" using scaled_ge [of x] assms by simp
  then have "round_even (x / ?u) \<le> - 1" by (rule round_even_neg)
  then show ?thesis using assms by (simp add: dbl_def Let_def mult_neg_pos)
qed

lemma dbl_int:
  assumes "\<bar>n\<bar> < 2 ^ 53"
  shows "dbl (of_int n) = of_int n"
proof (cases "n = 0")
  case False
  define x where "x = \<bar>of_int n :: rat\<bar>"
  have pos: "0 < x" using False by (simp add: x_def)
  have le: "2 powi dexp x \<le> x" using pos by (rule dexp_le)
  have "x < 2 ^ 53"
    using assms by (simp add: x_def)
  then have "(2 :: rat) powi dexp x < 2 powi 53" using le by (simp add: less_le_trans le_less_trans)
  then have e: "dexp x \<le> 52"
    using power_int_increasing [of 53 "dexp x" "2 :: rat"] by fastforce
  have u: "(of_int n :: rat) / 2 powi (dexp x - 52) = of_int (n * 2 ^ nat (52 - dexp x))"
  proof -
    have "(2 :: rat) powi (dexp x - 52) = inverse (2 ^ nat (52 - dexp x))"
      using e by (metis int_nat_eq minus_diff_eq power_int_minus power_int_of_nat diff_ge_0_iff_ge)
    then show ?thesis by (simp add: field_simps)
  qed
  have "dbl (of_int n) = of_int (round_even (of_int n / 2 powi (dexp x - 52))) * 2 powi (dexp x - 52)"
    using False by (simp add: dbl_def Let_def x_def)
  also have "\<dots> = of_int n" unfolding u round_even_int using u by (simp add: field_simps)
  finally show ?thesis .
qed (simp add: dbl_def)

lemma max_adjust_pos: "0 \<le> n \<Longrightarrow> 0 \<le> max_adjust n"
  by (auto simp: max_adjust_def nPastBlocksMax_def intro!: dbl_nonneg add_nonneg_nonneg divide_nonneg_nonneg mult_nonneg_nonneg)

lemma dtrunc_nonneg: "0 \<le> x \<Longrightarrow> 0 \<le> dtrunc x"
  by (simp add: dtrunc_def)

lemma clamp_nonneg:
  assumes "0 \<le> n" and "0 \<le> nTarget"
  shows "0 \<le> clamp_timespan n nTarget nActual"
proof -
  let ?lo = "dbl (dbl (of_int nTarget) / max_adjust n)" and ?hi = "dbl (dbl (of_int nTarget) * max_adjust n)"
  define a where "a = (if dbl (of_int nActual) < ?lo then dtrunc ?lo else nActual)"
  have b: "0 \<le> ?lo" "0 \<le> ?hi"
    using assms max_adjust_pos [of n] by (auto intro!: dbl_nonneg divide_nonneg_nonneg mult_nonneg_nonneg)
  have "0 \<le> a"
  proof (cases "dbl (of_int nActual) < ?lo")
    case True
    then show ?thesis using b by (simp add: a_def dtrunc_nonneg)
  next
    case False
    then have "\<not> dbl (of_int nActual) < 0" using b by linarith
    then have "\<not> nActual < 0" using dbl_neg [of "of_int nActual"] by auto
    then show ?thesis using False by (simp add: a_def)
  qed
  then show ?thesis using b(2) unfolding clamp_timespan_def Let_def a_def [symmetric] by (simp add: dtrunc_nonneg)
qed

lemma max_adjust_24: "max_adjust 24 = 3"
  using dbl_int [of 24] dbl_int [of 48] dbl_int [of 2] dbl_int [of 3] by (simp add: max_adjust_def nPastBlocksMax_def)

lemma round_even_le: "of_int (round_even x) \<le> x + 1"
  unfolding round_even_def Let_def by (auto simp: not_less) linarith+

lemma dbl_le_double:
  assumes "0 \<le> x"
  shows "dbl x \<le> 2 * x"
proof (cases "x = 0")
  case False
  let ?u = "2 powi (dexp \<bar>x\<bar> - 52) :: rat"
  have "of_int (round_even (x / ?u)) \<le> x / ?u + x / ?u"
    using round_even_le [of "x / ?u"] scaled_ge [OF False] assms by (simp only: abs_of_nonneg)
  then have "of_int (round_even (x / ?u)) * ?u \<le> (x / ?u + x / ?u) * ?u" by (rule mult_right_mono) simp
  also have "\<dots> = 2 * x" by (simp add: field_simps)
  finally show ?thesis using False by (simp add: dbl_def Let_def)
qed (simp add: dbl_def)

lemma clamp_24:
  assumes "0 \<le> nTarget" and "nTarget < 2 ^ 50" and "\<bar>nActual\<bar> < 2 ^ 53"
  shows "clamp_timespan 24 nTarget nActual \<le> 3 * nTarget"
proof -
  have nt: "dbl (of_int nTarget) = of_int nTarget" using assms by (intro dbl_int) simp
  let ?lo = "dbl (dbl (of_int nTarget) / 3)"
  define a where "a = (if dbl (of_int nActual) < ?lo then dtrunc ?lo else nActual)"
  have "dbl (of_int (nTarget * 3)) = of_int (nTarget * 3)" using assms by (intro dbl_int) simp
  then have hi: "dbl (dbl (of_int nTarget) * 3) = of_int (3 * nTarget)" by (simp add: nt mult.commute)
  have lo: "?lo \<le> of_int nTarget" "0 \<le> ?lo"
    using dbl_le_double [of "of_int nTarget / 3"] assms nt by (simp_all add: dbl_nonneg)
  have "a \<le> 3 * nTarget" if "\<not> dbl (of_int a) > of_int (3 * nTarget)"
  proof (cases "dbl (of_int nActual) < ?lo")
    case True
    then have "a \<le> nTarget" using lo by (simp add: a_def dtrunc_def floor_le_iff)
    then show ?thesis using assms(1) by simp
  next
    case False
    then show ?thesis using that dbl_int [OF assms(3)] unfolding a_def by (simp flip: of_int_le_iff [where 'a = rat])
  qed
  moreover have "dtrunc (of_int (3 * nTarget)) = 3 * nTarget"
    unfolding dtrunc_def by (simp only: ceiling_of_int floor_of_int if_cancel)
  ultimately show ?thesis
    unfolding clamp_timespan_def Let_def max_adjust_24 a_def [symmetric] hi by auto
qed

section \<open>Well-formed chains\<close>

text \<open>Heights count blocks and proof-of-work blocks, and no target is negative.\<close>

fun chain_ok :: "'a bignum_lib_scheme \<Rightarrow> chain \<Rightarrow> bool" where
  "chain_ok lib [] = True"
| "chain_ok lib [b] = (bi_nHeight b = 0 \<and> bi_nPoWHeight b = 0 \<and> 0 \<le> SetCompact lib (bi_nBits b))"
| "chain_ok lib (b # p # ps) =
     (bi_nHeight b = bi_nHeight p + 1 \<and>
      bi_nPoWHeight b = bi_nPoWHeight p + (if bi_IsProofOfStake b then 0 else 1) \<and>
      0 \<le> SetCompact lib (bi_nBits b) \<and> chain_ok lib (p # ps))"

lemma chain_ok_tl: "chain_ok lib (b # ps) \<Longrightarrow> chain_ok lib ps"
  by (cases ps) simp_all

lemma chain_ok_bits: "chain_ok lib (b # ps) \<Longrightarrow> 0 \<le> SetCompact lib (bi_nBits b)"
  by (cases ps) simp_all

lemma stake_height_tl: "chain_ok lib (b # ps) \<Longrightarrow> GetTypeHeight ps True \<le> GetTypeHeight (b # ps) True"
  by (cases ps) (simp_all add: GetTypeHeight_def)

lemma GetLastBlockIndex2_ok:
  "chain_ok lib c \<Longrightarrow> chain_ok lib (GetLastBlockIndex2 c f) \<and>
     GetTypeHeight (GetLastBlockIndex2 c f) True \<le> GetTypeHeight c True"
proof (induction c f rule: GetLastBlockIndex2.induct)
  case (2 b ps f)
  then show ?case using chain_ok_tl [of lib b ps] stake_height_tl [of lib b ps] by auto
qed simp

lemma GetLastBlockIndex2_kind: "GetLastBlockIndex2 c f = b # ps \<Longrightarrow> bi_IsProofOfStake b = f"
  by (induction c f rule: GetLastBlockIndex2.induct) (auto split: if_splits)

text \<open>What the scan of the past blocks computes.\<close>

definition scan_ok :: "chain \<Rightarrow> target_scan \<Rightarrow> bool" where
  "scan_ok c s \<longleftrightarrow> 0 \<le> nCountBlocks s \<and> nCountBlocks s \<le> 24 \<and> 0 \<le> bnPastTargetAverage s \<and>
     (pLastBlockReading s \<noteq> [] \<longrightarrow> GetTypeHeight (pLastBlockReading s) True \<le> GetTypeHeight c True) \<and>
     (nCountBlocks s > 0 \<longrightarrow> pLastBlockReading s \<noteq> [])"

lemma bn_div_nonneg: "0 \<le> a \<Longrightarrow> 0 \<le> b \<Longrightarrow> 0 \<le> bn_div a b"
  by (simp add: bn_div_def sgn_if div_int_nonneg)

lemma past_blocks_ok:
  assumes "chain_ok lib rd" and "GetTypeHeight rd True \<le> GetTypeHeight c True" and "scan_ok c s"
  shows "scan_ok c (past_blocks_loop lib f rd s) \<and>
    (nCountBlocks s > 0 \<or> (rd \<noteq> [] \<and> GetTypeHeight rd f > 1) \<longrightarrow> nCountBlocks (past_blocks_loop lib f rd s) > 0)"
  using assms
proof (induction lib f rd s rule: past_blocks_loop.induct)
  case (1 lib f rd s)
  show ?case
  proof (cases rd)
    case Nil
    then show ?thesis using "1.prems" by (subst (1 2) past_blocks_loop.simps) simp
  next
    case (Cons b ps)
    show ?thesis
    proof (cases "GetTypeHeight (b # ps) f > 1 \<and> nCountBlocks s < nPastBlocksMax")
      case False
      then have "past_blocks_loop lib f rd s = s" using Cons by (subst past_blocks_loop.simps) (simp only: list.case if_False)
      then show ?thesis using "1.prems" False Cons by (auto simp: scan_ok_def nPastBlocksMax_def)
    next
      case True
      let ?s = "\<lparr> nCountBlocks = nCountBlocks s + 1,
                nActualTimespan = nActualTimespan s + (nLastBlockTime s - bi_GetBlockTime b),
                nLastBlockTime = bi_GetBlockTime b,
                bnPastTargetAverage =
                  (if nCountBlocks s = 0 then SetCompact lib (bi_nBits b)
                   else bn_div (bnPastTargetAverage s * nCountBlocks s + SetCompact lib (bi_nBits b)) (nCountBlocks s + 1)),
                pLastBlockReading = b # ps \<rparr>"
      have ok: "chain_ok lib ps" "0 \<le> SetCompact lib (bi_nBits b)" "GetTypeHeight ps True \<le> GetTypeHeight c True"
        using "1.prems" Cons chain_ok_tl chain_ok_bits stake_height_tl by (blast, blast, fastforce)
      have "scan_ok c ?s"
        using "1.prems" True ok Cons by (auto simp: scan_ok_def nPastBlocksMax_def intro!: bn_div_nonneg)
      then have "scan_ok c (past_blocks_loop lib f (GetLastBlockIndex2 ps f) ?s) \<and>
          nCountBlocks (past_blocks_loop lib f (GetLastBlockIndex2 ps f) ?s) > 0"
        using "1.IH" [OF Cons True] GetLastBlockIndex2_ok [OF ok(1), of f] ok(3) "1.prems"(3)
        by (simp add: scan_ok_def)
      moreover have "past_blocks_loop lib f rd s = past_blocks_loop lib f (GetLastBlockIndex2 ps f) ?s"
        using Cons True by (subst past_blocks_loop.simps) simp
      ultimately show ?thesis by simp
    qed
  qed
qed

lemma target_timespan_pos:
  assumes "scan_ok c s" and "nCountBlocks s > 0"
  shows "0 < target_timespan f c s \<and> target_timespan f c s \<le> 24 * 7200"
proof -
  let ?n = "nCountBlocks s" and ?k = "GetTypeHeight c True - GetTypeHeight (pLastBlockReading s) True"
  have n: "0 < ?n" "?n \<le> 24" and k: "0 \<le> ?k" using assms by (auto simp: scan_ok_def)
  then show ?thesis
    by (auto simp: target_timespan_def Let_def WORK_TARGET_SPACING_def STAKE_TARGET_SPACING_def nTargetSpacingWorkMax_def
        intro: add_pos_nonneg)
qed

lemma compact_range:
  assumes "mpi_format lib" and "0 \<le> v" and "v \<le> bnNewProofOfWorkLimit t"
  shows "0 \<le> SetCompact lib (GetCompact lib v) \<and> SetCompact lib (GetCompact lib v) \<le> v"
proof -
  have "v < 256 ^ 32" using assms(3) by (auto simp: bnNewProofOfWorkLimit_def split: if_splits)
  then have "length (getvch lib v) \<le> 32 + 1" using assms by (intro getvch_length) simp_all
  then have e: "SetCompact lib (GetCompact lib v) =
      v div 256 ^ (length (getvch lib v) - 3) * 256 ^ (length (getvch lib v) - 3)"
    by (intro SetCompact_GetCompact_eq [OF assms(1,2)]) simp
  define P where "P = (256 :: int) ^ (length (getvch lib v) - 3)"
  have "v = v div P * P + v mod P" by (simp only: div_mult_mod_eq)
  moreover have "0 < P" by (simp add: P_def)
  ultimately have "v div P * P \<le> v" using pos_mod_sign [of P v] by linarith
  moreover have "0 \<le> v div P * P" using \<open>0 < P\<close> assms(2) by (simp add: div_int_nonneg)
  ultimately show ?thesis unfolding e P_def [symmetric] by simp
qed


definition demo_block :: "int \<Rightarrow> CBlockIndex" where
  "demo_block h = demo_index\<lparr> bi_nHeight := h, bi_nPoWHeight := h, bi_nBits := 0x01100000, bi_nTime := of_int (300 * h) \<rparr>"

lemma demo_chain_ok: "chain_ok demo_lib [demo_block 2, demo_block 1, demo_block 0]"
  by (simp add: demo_block_def demo_index_def bi_IsProofOfStake_def BLOCK_PROOF_OF_STAKE_def demo_SetCompact)


text \<open>
  The clamp works in exact arithmetic where the code relies on doubles: over a full window of 24
  blocks the adjustment bound is exactly 3, integers below \<open>2 ^ 53\<close> pass through the conversions
  unchanged, and the clamped time span is between 0 and three times the target span, so one step of
  the rule makes the next target at most three times the average of the window.
\<close>

theorem retarget_at_most_triple:
  assumes "0 < nTarget" and "nTarget < 2 ^ 50" and "\<bar>nActual\<bar> < 2 ^ 53" and "0 \<le> bnAverage"
  shows "max_adjust 24 = 3 \<and> dbl (of_int nActual) = of_int nActual \<and>
    0 \<le> clamp_timespan 24 nTarget nActual \<and> clamp_timespan 24 nTarget nActual \<le> 3 * nTarget \<and>
    bn_div (bnAverage * clamp_timespan 24 nTarget nActual) nTarget \<le> 3 * bnAverage"
proof -
  let ?a = "clamp_timespan 24 nTarget nActual"
  have a: "0 \<le> ?a" "?a \<le> 3 * nTarget" using assms clamp_nonneg [of 24 nTarget nActual] clamp_24 [of nTarget nActual] by simp_all
  have "bnAverage * ?a \<le> bnAverage * (3 * nTarget)" using a assms by (intro mult_left_mono) simp_all
  then have "bnAverage * ?a div nTarget \<le> bnAverage * (3 * nTarget) div nTarget" using assms by (intro zdiv_mono1) simp_all
  also have "\<dots> = 3 * bnAverage" using assms by simp
  finally have "bnAverage * ?a div nTarget \<le> 3 * bnAverage" .
  moreover have "bn_div (bnAverage * ?a) nTarget = bnAverage * ?a div nTarget"
    using assms a by (simp add: bn_div_def sgn_if abs_mult)
  ultimately show ?thesis using a max_adjust_24 dbl_int [OF assms(3)] by simp
qed

theorem retarget_at_most_triple_witness:
  "bn_div (1000 * clamp_timespan 24 7200 100000) 7200 \<le> 3000"
  using retarget_at_most_triple [of 7200 100000 1000] by simp

end
