(* ===== verification/Block.thy ===== *)
theory Block
  imports Connect Merkle Target
begin

text \<open>
  Blocks, \<^verbatim>\<open>CBlock\<close> of \<^verbatim>\<open>src/src/main.h\<close> and \<^verbatim>\<open>src/src/main.cpp\<close>: the wire format, the identifying hash, the
  kind of a block, its signature and the checks that need no context. The transactions of a block are
  of a known version, so that they have a serialization and a hash.
\<close>

section \<open>The block\<close>

record CBlock =
  blk_nVersion :: int32
  blk_hashPrevBlock :: uint256
  blk_hashMerkleRoot :: uint256
  blk_nTime :: uint32
  blk_nBits :: uint32
  blk_nNonce :: uint32
  vtx :: "CTransaction list"
  vchBlockSig :: bytes

definition header_bytes :: "CBlock \<Rightarrow> bytes" where
  "header_bytes b =
     Serialize_word 4 (blk_nVersion b) @ Serialize_word 32 (blk_hashPrevBlock b) @ Serialize_word 32 (blk_hashMerkleRoot b) @
     Serialize_word 4 (blk_nTime b) @ Serialize_word 4 (blk_nBits b) @ Serialize_word 4 (blk_nNonce b)"

definition Serialize_CBlock :: "CBlock \<Rightarrow> bytes" where
  "Serialize_CBlock b = header_bytes b @ Serialize_vector tx_bytes (vtx b) @ Serialize_vector_bytes (vchBlockSig b)"

definition sizeof_CTransaction :: nat where "sizeof_CTransaction = 192"

definition Unserialize_CBlock :: "bytes \<Rightarrow> (CBlock \<times> bytes) option" where
  "Unserialize_CBlock s = do {
     (v, s) \<leftarrow> (Unserialize_word 4 s :: (int32 \<times> bytes) option);
     (p, s) \<leftarrow> (Unserialize_word 32 s :: (uint256 \<times> bytes) option);
     (m, s) \<leftarrow> (Unserialize_word 32 s :: (uint256 \<times> bytes) option);
     (t, s) \<leftarrow> (Unserialize_word 4 s :: (uint32 \<times> bytes) option);
     (b, s) \<leftarrow> (Unserialize_word 4 s :: (uint32 \<times> bytes) option);
     (n, s) \<leftarrow> (Unserialize_word 4 s :: (uint32 \<times> bytes) option);
     (txs, s) \<leftarrow> Unserialize_vector sizeof_CTransaction Unserialize_CTransaction s;
     (sig, s) \<leftarrow> Unserialize_vector_bytes s;
     Some (\<lparr> blk_nVersion = v, blk_hashPrevBlock = p, blk_hashMerkleRoot = m, blk_nTime = t, blk_nBits = b, blk_nNonce = n,
             vtx = txs, vchBlockSig = sig \<rparr>, s) }"

definition CBlock_SetNull :: CBlock where
  "CBlock_SetNull = \<lparr> blk_nVersion = 1, blk_hashPrevBlock = 0, blk_hashMerkleRoot = 0, blk_nTime = 0, blk_nBits = 0,
                      blk_nNonce = 0, vtx = [], vchBlockSig = [] \<rparr>"

definition CBlock_IsNull :: "CBlock \<Rightarrow> bool" where
  "CBlock_IsNull b = (blk_nBits b = 0)"

text \<open>The identifying hash is over the memory of the header fields, which lie next to each other.\<close>

definition GetIDHash :: "'a openssl_scheme \<Rightarrow> CBlock \<Rightarrow> uint256" where
  "GetIDHash lib b = Hash lib (header_bytes b)"

definition GetBlockTime :: "CBlock \<Rightarrow> int" where
  "GetBlockTime b = uint (blk_nTime b)"

definition IsProofOfStake :: "CBlock \<Rightarrow> bool" where
  "IsProofOfStake b = (length (vtx b) > 1 \<and> IsCoinStake (vtx b ! 1))"

definition IsProofOfWork :: "CBlock \<Rightarrow> bool" where
  "IsProofOfWork b = (\<not> IsProofOfStake b)"

definition GetProofOfStake :: "CBlock \<Rightarrow> COutPoint \<times> uint32" where
  "GetProofOfStake b =
     (if IsProofOfStake b then (prevout (vin (vtx b ! 1) ! 0), tx_nTime (vtx b ! 1)) else (COutPoint_SetNull, 0))"

definition GetMaxTransactionTime :: "CBlock \<Rightarrow> int" where
  "GetMaxTransactionTime b = foldl (\<lambda>m tx. max m (uint (tx_nTime tx))) 0 (vtx b)"

text \<open>The hash of a transaction of a known version.\<close>

definition tx_hash :: "'a openssl_scheme \<Rightarrow> CTransaction \<Rightarrow> uint256" where
  "tx_hash lib tx = Hash lib (tx_bytes tx)"

lemma GetHash_tx_hash: "valid_version (tx_nVersion tx) \<Longrightarrow> CTransaction_GetHash lib tx = Some (tx_hash lib tx)"
  by (simp add: CTransaction_GetHash_def Serialize_CTransaction_def tx_hash_def)

section \<open>Rules of the stake protocol that blocks obey\<close>

definition nMaxClockDrift :: int where "nMaxClockDrift = 2 * 60 * 60"

definition IsProtocolV03 :: "bool \<Rightarrow> uint32 \<Rightarrow> bool" where
  "IsProtocolV03 fTestNet nTimeCoinStake = (nTimeCoinStake \<ge> (if fTestNet then 1359781000 else 1363800000))"

definition IsProtocolV04 :: "bool \<Rightarrow> uint32 \<Rightarrow> bool" where
  "IsProtocolV04 fTestNet nTimeBlock = (nTimeBlock \<ge> (if fTestNet then 1395700000 else 1399300000))"

definition CheckCoinStakeTimestamp :: "bool \<Rightarrow> int \<Rightarrow> int \<Rightarrow> bool" where
  "CheckCoinStakeTimestamp fTestNet nTimeBlock nTimeTx =
     (if IsProtocolV03 fTestNet (of_int nTimeTx) then nTimeBlock = nTimeTx
      else nTimeTx \<le> nTimeBlock \<and> nTimeBlock \<le> nTimeTx + nMaxClockDrift)"

definition GetStakeEntropyBit :: "'a openssl_scheme \<Rightarrow> bool \<Rightarrow> CBlock \<Rightarrow> uint32" where
  "GetStakeEntropyBit lib fTestNet b =
     (if IsProtocolV04 fTestNet (blk_nTime b) then ucast ((ucast (GetIDHash lib b) :: uint64) AND 1)
      else ucast (ucast (drop_bit 159 (Hash160 lib (vchBlockSig b))) :: uint64))"

section \<open>The signature of a block\<close>

text \<open>
  The key is that of the first output of the coinbase, or of the second output of the coinstake. Both
  exist in a block whose first transaction is a coinbase.
\<close>

definition signing_output :: "CBlock \<Rightarrow> CTxOut" where
  "signing_output b = (if IsProofOfStake b then vout (vtx b ! 1) ! 1 else vout (vtx b ! 0) ! 0)"

definition CheckBlockSignature :: "'a openssl_scheme \<Rightarrow> uint256 \<Rightarrow> CBlock \<Rightarrow> bool" where
  "CheckBlockSignature lib hashGenesisBlock b =
     (if GetIDHash lib b = hashGenesisBlock then vchBlockSig b = []
      else
        case Solver (scriptPubKey (signing_output b)) of
          (False, _, _) \<Rightarrow> False
        | (True, whichType, sols) \<Rightarrow>
            if whichType = TX_PUBKEY then
              (case CKey_SetPubKey lib (sols ! 0) of
                 None \<Rightarrow> False
               | Some k \<Rightarrow> if vchBlockSig b = [] then False else CKey_Verify lib k (GetIDHash lib b) (vchBlockSig b))
            else False)"

section \<open>Checks without context\<close>

text \<open>
  What a check reads of the node: the network, the adjusted time, the hash of the genesis block, and
  the proof-of-work hash, \<open>None\<close> when it cannot be had.
\<close>

record block_env =
  env_fTestNet :: bool
  env_GetAdjustedTime :: int
  env_hashGenesisBlock :: uint256
  env_GetPoWHash :: "CBlock \<Rightarrow> uint256 option"

fun check_txs :: "int \<Rightarrow> CTransaction list \<Rightarrow> check_result" where
  "check_txs nBlockTime [] = Accepted"
| "check_txs nBlockTime (tx # txs) =
     (case CheckTransaction tx of
        Rejected n \<Rightarrow> Rejected n
      | Accepted \<Rightarrow> if nBlockTime < uint (tx_nTime tx) then Rejected 50 else check_txs nBlockTime txs)"

definition CheckBlock :: "'a openssl_scheme \<Rightarrow> block_env \<Rightarrow> bool \<Rightarrow> CBlock \<Rightarrow> check_result" where
  "CheckBlock lib env fCheckPoWHash b =
     (let txs = vtx b; hashes = map (tx_hash lib) txs in
      if txs = [] \<or> length txs > MAX_BLOCK_SIZE \<or> length (Serialize_CBlock b) > MAX_BLOCK_SIZE then Rejected 100
      else if GetBlockTime b > env_GetAdjustedTime env + nMaxClockDrift then Rejected 0
      else if \<not> IsCoinBase (txs ! 0) then Rejected 100
      else if list_ex IsCoinBase (drop 1 txs) then Rejected 100
      else if list_ex IsCoinStake (drop 2 txs) then Rejected 100
      else if GetBlockTime b > uint (tx_nTime (txs ! 0)) + nMaxClockDrift then Rejected 50
      else if IsProofOfStake b \<and> \<not> CheckCoinStakeTimestamp (env_fTestNet env) (GetBlockTime b) (uint (tx_nTime (txs ! 1)))
      then Rejected 50
      else case check_txs (GetBlockTime b) txs of
        Rejected n \<Rightarrow> Rejected n
      | Accepted \<Rightarrow>
          if card (set hashes) \<noteq> length txs then Rejected 100
          else if unat (foldl (\<lambda>n tx. n + GetLegacySigOpCount tx) 0 txs) > MAX_BLOCK_SIGOPS then Rejected 100
          else if blk_hashMerkleRoot b \<noteq> BuildMerkleTree lib hashes then Rejected 100
          else if \<not> CheckBlockSignature lib (env_hashGenesisBlock env) b then Rejected 100
          else if IsProofOfWork b \<and> fCheckPoWHash then
            (case env_GetPoWHash env b of
               None \<Rightarrow> Rejected 0
             | Some powHash \<Rightarrow>
                 if \<not> CheckProofOfWork lib (env_fTestNet env) powHash (blk_nBits b) then Rejected 500 else Accepted)
          else Accepted)"

section \<open>The wire format\<close>

definition block_fits :: "CBlock \<Rightarrow> bool" where
  "block_fits b = (length (vtx b) \<le> MAX_SIZE \<and> list_all tx_fits (vtx b) \<and> length (vchBlockSig b) \<le> MAX_SIZE)"

interpretation txs: codec "Serialize_vector tx_bytes" "Unserialize_vector sizeof_CTransaction Unserialize_CTransaction"
  "\<lambda>xs. length xs \<le> MAX_SIZE \<and> list_all tx_fits xs"
  by (rule tx.vector_codec) (simp_all add: sizeof_CTransaction_def)

interpretation block: codec Serialize_CBlock Unserialize_CBlock block_fits
  by unfold_locales
     (simp add: Serialize_CBlock_def Unserialize_CBlock_def header_bytes_def block_fits_def u32.dec_enc u256.dec_enc
       txs.dec_enc vector_bytes.dec_enc)

text \<open>
  Reading back what was written gives the block, whatever follows it in the stream; and a format of
  blocks is prefix-free.
\<close>

theorem CBlock_round_trip:
  assumes "block_fits b" and "block_fits b'"
  shows "Unserialize_CBlock (Serialize_CBlock b @ rest) = Some (b, rest) \<and>
    (Serialize_CBlock b @ rest = Serialize_CBlock b' @ rest' \<longrightarrow> b = b' \<and> rest = rest')"
  using block.dec_enc [OF assms(1)] block.prefix_free [OF assms] by blast

theorem CBlock_round_trip_witness:
  "Unserialize_CBlock (Serialize_CBlock (CBlock_SetNull\<lparr> vtx := [demo_tx] \<rparr>) @ [7]) = Some (CBlock_SetNull\<lparr> vtx := [demo_tx] \<rparr>, [7])"
  using CBlock_round_trip [of "CBlock_SetNull\<lparr> vtx := [demo_tx] \<rparr>" "CBlock_SetNull\<lparr> vtx := [demo_tx] \<rparr>" "[7]"] demo_tx_fits
  by (simp add: block_fits_def CBlock_SetNull_def MAX_SIZE_def)

section \<open>What an accepted block commits to\<close>

text \<open>The strings that the double hash of a message feeds to SHA-256.\<close>

definition hash_inputs :: "'a openssl_scheme \<Rightarrow> bytes \<Rightarrow> bytes list" where
  "hash_inputs lib bs = [bs, image256 (SHA256 lib bs)]"

lemma Hash_inj:
  assumes "Hash lib a = Hash lib b"
  shows "a = b \<or> collides lib (hash_inputs lib a) (hash_inputs lib b)"
  using assms image256_inj by (fastforce simp: collides_def hash_inputs_def Hash_def Let_def)

lemma tx_hashes_inj:
  assumes "map (tx_hash lib) txs = map (tx_hash lib) txs'"
  shows "map tx_bytes txs = map tx_bytes txs' \<or>
    collides lib (concat (map (hash_inputs lib \<circ> tx_bytes) txs)) (concat (map (hash_inputs lib \<circ> tx_bytes) txs'))"
  using assms
proof (induction txs arbitrary: txs')
  case (Cons tx txs)
  then obtain tx' r where t: "txs' = tx' # r" "tx_hash lib tx = tx_hash lib tx'" "map (tx_hash lib) txs = map (tx_hash lib) r"
    by auto
  then have "tx_bytes tx = tx_bytes tx' \<or> collides lib (hash_inputs lib (tx_bytes tx)) (hash_inputs lib (tx_bytes tx'))"
    by (intro Hash_inj) (simp add: tx_hash_def)
  then show ?case using Cons.IH [OF t(3)] t(1) by auto
qed simp

text \<open>All the strings hashed while a block is identified and its Merkle root is computed.\<close>

definition block_inputs :: "'a openssl_scheme \<Rightarrow> CBlock \<Rightarrow> bytes list" where
  "block_inputs lib b =
     hash_inputs lib (header_bytes b) @ tree_inputs lib (map (tx_hash lib) (vtx b)) @ concat (map (hash_inputs lib \<circ> tx_bytes) (vtx b))"

lemma CheckBlock_merkle: "CheckBlock lib env f b = Accepted \<Longrightarrow> blk_hashMerkleRoot b = BuildMerkleTree lib (map (tx_hash lib) (vtx b))"
  by (auto simp: CheckBlock_def Let_def split: if_split_asm check_result.split_asm)

lemma header_inj:
  assumes "header_bytes b = header_bytes b'"
  shows "blk_nVersion b = blk_nVersion b' \<and> blk_hashPrevBlock b = blk_hashPrevBlock b' \<and> blk_hashMerkleRoot b = blk_hashMerkleRoot b' \<and>
    blk_nTime b = blk_nTime b' \<and> blk_nBits b = blk_nBits b' \<and> blk_nNonce b = blk_nNonce b'"
  using u32.prefix_free u256.prefix_free assms unfolding header_bytes_def by (metis u32.dec_enc_all option.inject prod.inject)


section \<open>A block\<close>

text \<open>A block with only a coinbase that pays the first reward; the toy digest gives every double hash the value 32.\<close>

definition demo_coinbase :: CTransaction where
  "demo_coinbase = demo_tx\<lparr> vin := [\<lparr> prevout = COutPoint_SetNull, scriptSig = [1, 2], nSequence = 0, infos = [] \<rparr>],
     vout := [\<lparr> subCurrency = [], nValue = 1000000, scriptPubKey = [0x51] \<rparr>] \<rparr>"

definition demo_cblock :: CBlock where
  "demo_cblock = \<lparr> blk_nVersion = 1, blk_hashPrevBlock = 0, blk_hashMerkleRoot = 32, blk_nTime = 10, blk_nBits = 0x01100000,
                   blk_nNonce = 0, vtx = [demo_coinbase], vchBlockSig = [] \<rparr>"

definition demo_block_env :: block_env where
  "demo_block_env = \<lparr> env_fTestNet = False, env_GetAdjustedTime = 10, env_hashGenesisBlock = 32, env_GetPoWHash = (\<lambda>_. None) \<rparr>"

lemma demo_Hash: "Hash demo_lib bs = 32"
  by (simp add: Hash_def demo_lib_def)

lemma demo_sigops: "GetLegacySigOpCount demo_coinbase = 0"
  by code_simp

lemma demo_coinbase_ok: "CheckTransaction demo_coinbase = Accepted"
proof -
  have "length (tx_bytes demo_coinbase) \<le> MAX_BLOCK_SIZE"
    using tx_bytes_le [of demo_coinbase] txout_le [of "vout demo_coinbase ! 0"] vector_bytes_le [of "[1, 2]"]
    by (simp add: demo_coinbase_def demo_tx_def MAX_BLOCK_SIZE_def Serialize_CTxIn_def Serialize_COutPoint_def length_Serialize_vector
        GetSizeOfCompactSize_def size_word_def)
  then show ?thesis
    by (simp add: CheckTransaction_Accepted)
       (simp add: demo_coinbase_def demo_tx_def IsCoinBase_def COutPoint_IsNull_def COutPoint_SetNull_def CTxIn_CheckTxInfos_def
          MoneyRange_def MAX_MONEY_def COIN_def CTxOut_IsEmpty_def)
qed

lemma demo_coinbase_is: "IsCoinBase demo_coinbase" "GetValueOut demo_coinbase = Some 1000000"
  by (simp_all add: demo_coinbase_def demo_tx_def IsCoinBase_def COutPoint_IsNull_def COutPoint_SetNull_def GetValueOut_def
      MoneyRange_def MAX_MONEY_def COIN_def)

lemma demo_block_size: "length (Serialize_CBlock demo_cblock) \<le> MAX_BLOCK_SIZE"
proof -
  have "length (tx_bytes demo_coinbase) \<le> 1000"
    using tx_bytes_le [of demo_coinbase] txout_le [of "vout demo_coinbase ! 0"] vector_bytes_le [of "[1, 2]"]
    by (simp add: demo_coinbase_def demo_tx_def MAX_BLOCK_SIZE_def Serialize_CTxIn_def Serialize_COutPoint_def length_Serialize_vector
        GetSizeOfCompactSize_def size_word_def)
  then show ?thesis using vector_le [of tx_bytes "[demo_coinbase]"] vector_bytes_le [of "[]"]
    by (simp add: demo_cblock_def Serialize_CBlock_def header_bytes_def MAX_BLOCK_SIZE_def)
qed

lemma demo_CheckBlock: "CheckBlock demo_lib demo_block_env False demo_cblock = Accepted"
  using demo_block_size demo_coinbase_is(1) demo_coinbase_ok demo_sigops
  by (simp add: CheckBlock_def Let_def)
     (simp add: demo_cblock_def demo_block_env_def GetBlockTime_def nMaxClockDrift_def IsProofOfStake_def
       tx_hash_def demo_Hash BuildMerkleTree_root root.simps CheckBlockSignature_def GetIDHash_def MAX_BLOCK_SIZE_def
       demo_coinbase_def demo_tx_def)


end
