(* ===== verification/Ledger.thy ===== *)
theory Ledger
  imports Main
begin

text \<open>
  What a ledger promises, independently of how it is stored: steps that can be undone, and coins that
  are spent once. The lemmas are about sequences of steps, the transactions of a block.
\<close>

section \<open>Steps that can be undone\<close>

locale undoable =
  fixes inv :: "'s \<Rightarrow> bool"
    and step :: "'op \<Rightarrow> 's \<Rightarrow> 's \<Rightarrow> bool"
    and undo :: "'op \<Rightarrow> 's \<Rightarrow> 's option"
  assumes step_inv: "inv s \<Longrightarrow> step op s s' \<Longrightarrow> inv s'"
    and undo_step: "inv s \<Longrightarrow> step op s s' \<Longrightarrow> undo op s' = Some s"
begin

inductive steps :: "'op list \<Rightarrow> 's \<Rightarrow> 's \<Rightarrow> bool" where
  none: "steps [] s s"
| more: "step op s t \<Longrightarrow> steps ops t s' \<Longrightarrow> steps (op # ops) s s'"

inductive_cases steps_NilE [elim!]: "steps [] s s'"
inductive_cases steps_ConsE [elim!]: "steps (op # ops) s s'"

fun undos :: "'op list \<Rightarrow> 's \<Rightarrow> 's option" where
  "undos [] s = Some s"
| "undos (op # ops) s = (case undo op s of None \<Rightarrow> None | Some s' \<Rightarrow> undos ops s')"

lemma undos_append: "undos (xs @ ys) s = (case undos xs s of None \<Rightarrow> None | Some t \<Rightarrow> undos ys t)"
  by (induction xs arbitrary: s) (simp_all split: option.split)

lemma steps_inv: "steps ops s s' \<Longrightarrow> inv s \<Longrightarrow> inv s'"
  by (induction rule: steps.induct) (auto intro: step_inv)

text \<open>Undoing the steps in reverse order gives the state before them.\<close>

lemma undos_steps: "steps ops s s' \<Longrightarrow> inv s \<Longrightarrow> undos (rev ops) s' = Some s"
proof (induction rule: steps.induct)
  case (more op s t ops s')
  then show ?case using step_inv [OF more.prems more.hyps(1)] undo_step [OF more.prems more.hyps(1)] by (simp add: undos_append)
qed simp

end

section \<open>Coins\<close>

text \<open>
  A state has coins that can be spent among coins it knows. A step takes some of the former and gives
  new ones, which it did not know.
\<close>

locale coin_ledger = undoable inv step undo
  for inv :: "'s \<Rightarrow> bool" and step :: "'op \<Rightarrow> 's \<Rightarrow> 's \<Rightarrow> bool" and undo :: "'op \<Rightarrow> 's \<Rightarrow> 's option" +
  fixes coins :: "'s \<Rightarrow> 'c set"
    and known :: "'s \<Rightarrow> 'c set"
    and takes :: "'op \<Rightarrow> 'c list"
    and gives :: "'op \<Rightarrow> 'c set"
  assumes coins_known: "coins s \<subseteq> known s"
    and takes_distinct: "inv s \<Longrightarrow> step op s s' \<Longrightarrow> distinct (takes op)"
    and takes_coins: "inv s \<Longrightarrow> step op s s' \<Longrightarrow> set (takes op) \<subseteq> coins s"
    and gives_fresh: "inv s \<Longrightarrow> step op s s' \<Longrightarrow> gives op \<inter> known s = {}"
    and coins_step: "inv s \<Longrightarrow> step op s s' \<Longrightarrow> coins s' = (coins s - set (takes op)) \<union> gives op"
    and known_step: "inv s \<Longrightarrow> step op s s' \<Longrightarrow> known s' = known s \<union> gives op"
begin

lemma known_steps: "steps ops s s' \<Longrightarrow> inv s \<Longrightarrow> known s' = known s \<union> \<Union> (gives ` set ops)"
  by (induction rule: steps.induct) (auto simp: known_step dest: step_inv)

text \<open>A known coin that cannot be spent stays so.\<close>

lemma spent_stays: "steps ops s s' \<Longrightarrow> inv s \<Longrightarrow> c \<in> known s \<Longrightarrow> c \<notin> coins s \<Longrightarrow> c \<notin> set (concat (map takes ops))"
proof (induction rule: steps.induct)
  case (more op s t ops s')
  have "c \<in> known t" "c \<notin> coins t"
    using more.prems known_step [OF more.prems(1) more.hyps(1)] coins_step [OF more.prems(1) more.hyps(1)]
      gives_fresh [OF more.prems(1) more.hyps(1)] by auto
  then show ?case
    using more.IH step_inv [OF more.prems(1) more.hyps(1)] more.prems takes_coins [OF more.prems(1) more.hyps(1)] by auto
qed simp

text \<open>Over any sequence of steps no coin is taken twice, and the coins are accounted for.\<close>

lemma takes_once: "steps ops s s' \<Longrightarrow> inv s \<Longrightarrow> distinct (concat (map takes ops))"
proof (induction rule: steps.induct)
  case (more op s t ops s')
  note ok = more.prems(1) and st = more.hyps(1)
  have "c \<notin> set (concat (map takes ops))" if "c \<in> set (takes op)" for c
  proof (rule spent_stays [OF more.hyps(2) step_inv [OF ok st]])
    show "c \<in> known t" "c \<notin> coins t"
      using that takes_coins [OF ok st] coins_known [of s] known_step [OF ok st] coins_step [OF ok st] gives_fresh [OF ok st] by auto
  qed
  then show ?case using more.IH [OF step_inv [OF ok st]] takes_distinct [OF ok st] by auto
qed simp

lemma coins_steps:
  "steps ops s s' \<Longrightarrow> inv s \<Longrightarrow>
     set (concat (map takes ops)) \<subseteq> coins s \<union> \<Union> (gives ` set ops) \<and>
     coins s' = (coins s \<union> \<Union> (gives ` set ops)) - set (concat (map takes ops))"
proof (induction rule: steps.induct)
  case (more op s t ops s')
  note ok = more.prems(1) and st = more.hyps(1)
  note IH = more.IH [OF step_inv [OF ok st]]
  have "gives op' \<inter> set (takes op) = {}" if "op' \<in> set ops" for op'
    using that more.hyps(2) step_inv [OF ok st] ok
  proof -
    have "gives op' \<inter> known t = {}"
      using more.hyps(2) step_inv [OF ok st] that
    proof (induction rule: steps.induct)
      case (more op2 u v ops2 u')
      then show ?case using gives_fresh [OF more.prems(1) more.hyps(1)] known_step [OF more.prems(1) more.hyps(1)]
          step_inv [OF more.prems(1) more.hyps(1)] by auto
    qed simp
    then show ?thesis using known_step [OF ok st] takes_coins [OF ok st] coins_known [of s] by auto
  qed
  then have "\<Union> (gives ` set ops) \<inter> set (takes op) = {}" by auto
  moreover have "gives op \<inter> set (takes op) = {}"
    using gives_fresh [OF ok st] takes_coins [OF ok st] coins_known [of s] by auto
  ultimately show ?case using IH coins_step [OF ok st] takes_coins [OF ok st] by auto
qed simp

end

end
