(* ===== verification/BlockConnect.thy ===== *)
theory BlockConnect
  imports Block Ledger
begin

text \<open>
  Connecting and disconnecting whole blocks: \<^verbatim>\<open>_procUndoTxInfos\<close>, \<^verbatim>\<open>CBlock::ConnectBlock\<close> and
  \<^verbatim>\<open>CBlock::DisconnectBlock\<close> of \<^verbatim>\<open>src/src/main.cpp\<close>. They change the transaction index, the block index on disk
  and the info store; wallets, which are told afterwards, are not part of the model.
\<close>

section \<open>Infos of a transaction\<close>

definition ReadDiskTx :: "CTxDB \<Rightarrow> uint256 \<Rightarrow> CTransaction option" where
  "ReadDiskTx db hash = (case ReadTxIndex db hash of None \<Rightarrow> None | Some ix \<Rightarrow> disk_tx db (ix_pos ix))"

text \<open>
  The inner loop, over the infos of input \<open>i\<close> with their numbers, and the outer loop over the inputs
  with theirs. Reading past the outputs of the previous transaction, which \<^verbatim>\<open>FetchInputs\<close> excludes, is undefined in
  the code and stops the model like an exception.
\<close>

fun proc_infos ::
  "'a openssl_scheme \<Rightarrow> bool \<Rightarrow> CBitcoinAddress \<Rightarrow> uint256 \<Rightarrow> int \<Rightarrow> int \<Rightarrow> (nat \<times> CTxInfo) list \<Rightarrow> CTxInfoStore \<Rightarrow>
     answer \<times> CTxInfoStore" where
  "proc_infos lib undoing addr blockHash nTx i [] s = (Yes, s)"
| "proc_infos lib undoing addr blockHash nTx i ((j, txinfo) # is) s =
     (let record = \<lparr> rec_addr = addr, rec_info = txinfo, rec_blockHash = blockHash, rec_indexTx = nTx,
                     rec_indexTxIn = i, rec_indexInfo = int j \<rparr> in
      case (if undoing then Store_Undo lib s record else Store_Process lib s record) of
        (Yes, s) \<Rightarrow> proc_infos lib undoing addr blockHash nTx i is s
      | (a, s) \<Rightarrow> (a, s))"

fun proc_inputs ::
  "'a openssl_scheme \<Rightarrow> bool \<Rightarrow> bool \<Rightarrow> uint256 \<Rightarrow> int \<Rightarrow> CTxDB \<Rightarrow> (nat \<times> CTxIn) list \<Rightarrow> CTxInfoStore \<Rightarrow> answer \<times> CTxInfoStore" where
  "proc_inputs lib fTestNet undoing blockHash nTx db [] s = (Yes, s)"
| "proc_inputs lib fTestNet undoing blockHash nTx db ((i, txin) # ins) s =
     (if infos txin = [] then proc_inputs lib fTestNet undoing blockHash nTx db ins s
      else
        case ReadDiskTx db (op_hash (prevout txin)) of
          None \<Rightarrow> (No ''previous transaction not found'', s)
        | Some prevTx \<Rightarrow>
            if unat (op_n (prevout txin)) \<ge> length (vout prevTx) then (Throws ''vout out of range'', s)
            else
              case ExtractAddress lib fTestNet (scriptPubKey (vout prevTx ! unat (op_n (prevout txin)))) of
                None \<Rightarrow> (No ''no address'', s)
              | Some addr \<Rightarrow>
                  let js = enumerate 0 (infos txin) in
                  (case proc_infos lib undoing addr blockHash nTx (int i) (if undoing then rev js else js) s of
                     (Yes, s) \<Rightarrow> proc_inputs lib fTestNet undoing blockHash nTx db ins s
                   | (a, s) \<Rightarrow> (a, s)))"

definition procUndoTxInfos ::
  "'a openssl_scheme \<Rightarrow> bool \<Rightarrow> CTxDB \<Rightarrow> bool \<Rightarrow> uint256 \<Rightarrow> int \<Rightarrow> CTransaction \<Rightarrow> CTxInfoStore \<Rightarrow> answer \<times> CTxInfoStore" where
  "procUndoTxInfos lib fTestNet db undoing blockHash nTxInBlock tx s =
     (if \<not> InTransaction s then (Throws ''Proc info without store in transaction'', s)
      else
        let is = enumerate 0 (vin tx)
        in proc_inputs lib fTestNet undoing blockHash nTxInBlock db (if undoing then rev is else is) s)"

definition ProcessTxInfos ::
  "'a openssl_scheme \<Rightarrow> bool \<Rightarrow> CTxDB \<Rightarrow> uint256 \<Rightarrow> int \<Rightarrow> CTransaction \<Rightarrow> CTxInfoStore \<Rightarrow> answer \<times> CTxInfoStore" where
  "ProcessTxInfos lib fTestNet db blockHash nTxInBlock tx s = procUndoTxInfos lib fTestNet db False blockHash nTxInBlock tx s"

definition UndoTxInfos ::
  "'a openssl_scheme \<Rightarrow> bool \<Rightarrow> CTxDB \<Rightarrow> uint256 \<Rightarrow> int \<Rightarrow> CTransaction \<Rightarrow> CTxInfoStore \<Rightarrow> answer \<times> CTxInfoStore" where
  "UndoTxInfos lib fTestNet db blockHash nTxInBlock tx s = procUndoTxInfos lib fTestNet db True blockHash nTxInBlock tx s"

section \<open>The block index on disk\<close>

record CDiskBlockIndex =
  dbi_index :: CBlockIndex
  hashPrev :: uint256
  hashNext :: uint256

text \<open>\<^verbatim>\<open>CDiskBlockIndex(pindex)\<close>; \<open>next\<close> is the hash of \<^verbatim>\<open>pnext\<close>, or 0.\<close>

definition CDiskBlockIndex_new :: "chain \<Rightarrow> uint256 \<Rightarrow> CDiskBlockIndex" where
  "CDiskBlockIndex_new c next =
     \<lparr> dbi_index = hd c, hashPrev = (case tl c of [] \<Rightarrow> 0 | p # _ \<Rightarrow> bi_hash p), hashNext = next \<rparr>"

definition dbi_GetBlockIDHash :: "'a openssl_scheme \<Rightarrow> CDiskBlockIndex \<Rightarrow> uint256" where
  "dbi_GetBlockIDHash lib d =
     GetIDHash lib \<lparr> blk_nVersion = bi_nVersion (dbi_index d), blk_hashPrevBlock = hashPrev d,
                     blk_hashMerkleRoot = bi_hashMerkleRoot (dbi_index d), blk_nTime = bi_nTime (dbi_index d),
                     blk_nBits = bi_nBits (dbi_index d), blk_nNonce = bi_nNonce (dbi_index d), vtx = [], vchBlockSig = [] \<rparr>"

type_synonym block_map = "uint256 \<rightharpoonup> CDiskBlockIndex"

definition WriteBlockIndex :: "'a openssl_scheme \<Rightarrow> CDiskBlockIndex \<Rightarrow> block_map \<Rightarrow> block_map" where
  "WriteBlockIndex lib d m = m(dbi_GetBlockIDHash lib d \<mapsto> d)"

section \<open>Disconnecting a block\<close>

text \<open>
  The transactions in reverse; \<^verbatim>\<open>UndoTxInfos\<close> is called with its default arguments, the null hash and
  transaction \<open>- 1\<close>. \<open>None\<close> is false or an exception; the caller aborts the database transaction.
\<close>

fun disconnect_txs ::
  "'a openssl_scheme \<Rightarrow> bool \<Rightarrow> CTransaction list \<Rightarrow> CTxDB \<Rightarrow> CTxInfoStore \<Rightarrow> (CTxDB \<times> CTxInfoStore) option" where
  "disconnect_txs lib fTestNet [] db s = Some (db, s)"
| "disconnect_txs lib fTestNet (tx # txs) db s =
     (case DisconnectInputs (tx_hash lib tx) tx db of
        None \<Rightarrow> None
      | Some db \<Rightarrow>
          (case UndoTxInfos lib fTestNet db 0 (- 1) tx s of
             (Yes, s) \<Rightarrow> disconnect_txs lib fTestNet txs db s
           | _ \<Rightarrow> None))"

text \<open>\<open>next\<close> is the \<^verbatim>\<open>pnext\<close> of the block's predecessor, which the code overwrites with 0.\<close>

definition DisconnectBlock ::
  "'a openssl_scheme \<Rightarrow> bool \<Rightarrow> chain \<Rightarrow> CBlock \<Rightarrow> CTxDB \<Rightarrow> block_map \<Rightarrow> CTxInfoStore \<Rightarrow>
     (CTxDB \<times> block_map \<times> CTxInfoStore) option" where
  "DisconnectBlock lib fTestNet pindex b db m s =
     (case disconnect_txs lib fTestNet (rev (vtx b)) db s of
        None \<Rightarrow> None
      | Some (db, s) \<Rightarrow>
          Some (db, (if tl pindex \<noteq> [] then WriteBlockIndex lib (CDiskBlockIndex_new (tl pindex) 0) m else m), s))"

section \<open>Connecting a block\<close>

text \<open>What connecting reads of the node besides the database.\<close>

record connect_env = block_env +
  env_nCoinbaseMaturity :: int
  env_nStakeMinAge :: uint32
  env_nPoSMinHeight :: int
  env_nBestHeight :: int
  env_GetTotalBlocksEstimate :: int
  env_mempool :: "uint256 \<rightharpoonup> CTransaction"

record connect_state =
  cs_nTxPos :: uint32
  mapQueuedChanges :: "uint256 \<rightharpoonup> CTxIndex"
  cs_nFees :: int64
  cs_nValueIn :: int64
  cs_nValueOut :: int64
  cs_nSigOps :: uint32
  cs_nTx :: uint32
  cs_store :: CTxInfoStore
  cs_cache :: sig_cache

text \<open>A transaction with the same hash that still has an unspent output.\<close>

definition overwrites :: "'a openssl_scheme \<Rightarrow> CTxDB \<Rightarrow> CTransaction \<Rightarrow> bool" where
  "overwrites lib db tx =
     (case ReadTxIndex db (tx_hash lib tx) of None \<Rightarrow> False | Some ix \<Rightarrow> list_ex CDiskTxPos_IsNull (vSpent ix))"

text \<open>The part of the loop for a transaction that is not a coinbase.\<close>

definition connect_spend ::
  "'a openssl_scheme \<Rightarrow> connect_env \<Rightarrow> CTxDB \<Rightarrow> chain \<Rightarrow> uint256 \<Rightarrow> CDiskTxPos \<Rightarrow> CTransaction \<Rightarrow> connect_state \<Rightarrow>
     conn_error + connect_state" where
  "connect_spend lib env db pindex blockHash pos tx s =
     (case FetchInputs db (mapQueuedChanges s) (env_mempool env) True tx of
        Inl fInvalid \<Rightarrow> Inl (Failure 0)
      | Inr inputs \<Rightarrow>
          (case GetP2SHSigOpCount tx inputs of
             None \<Rightarrow> Inl Exception
           | Some n \<Rightarrow>
               let nSigOps = cs_nSigOps s + n in
               if unat nSigOps > MAX_BLOCK_SIGOPS then Inl (Failure 100)
               else case (GetValueIn tx inputs, GetValueOut tx) of
                 (Some nTxValueIn, Some nTxValueOut) \<Rightarrow>
                   (case ConnectInputs lib db (env_nCoinbaseMaturity env) (env_nStakeMinAge env)
                           (env_nBestHeight env < env_GetTotalBlocksEstimate env) True pindex pos tx inputs
                           (mapQueuedChanges s) (cs_cache s) of
                      Inl e \<Rightarrow> Inl e
                    | Inr (pool, c) \<Rightarrow>
                        (case ProcessTxInfos lib (env_fTestNet env) db blockHash (uint (cs_nTx s)) tx (cs_store s) of
                           (Yes, store) \<Rightarrow>
                             Inr (s\<lparr> mapQueuedChanges := pool,
                                     cs_nFees := (if IsCoinStake tx then cs_nFees s else cs_nFees s + (nTxValueIn - nTxValueOut)),
                                     cs_nValueIn := cs_nValueIn s + nTxValueIn, cs_nValueOut := cs_nValueOut s + nTxValueOut,
                                     cs_nSigOps := nSigOps, cs_store := store, cs_cache := c \<rparr>)
                         | (No _, _) \<Rightarrow> Inl (Failure 0)
                         | (Throws _, _) \<Rightarrow> Inl Exception))
               | _ \<Rightarrow> Inl Exception))"

definition connect_tx ::
  "'a openssl_scheme \<Rightarrow> connect_env \<Rightarrow> CTxDB \<Rightarrow> chain \<Rightarrow> uint256 \<Rightarrow> CTransaction \<Rightarrow> connect_state \<Rightarrow> conn_error + connect_state" where
  "connect_tx lib env db pindex blockHash tx s =
     (let nSigOps = cs_nSigOps s + GetLegacySigOpCount tx in
      if unat nSigOps > MAX_BLOCK_SIGOPS then Inl (Failure 100)
      else
        let pos = \<lparr> pos_nFile = bi_nFile (hd pindex), pos_nBlockPos = bi_nBlockPos (hd pindex), pos_nTxPos = cs_nTxPos s \<rparr>;
            s = s\<lparr> cs_nSigOps := nSigOps, cs_nTxPos := cs_nTxPos s + of_nat (length (tx_bytes tx)) \<rparr>
        in
        case (if IsCoinBase tx then
                (case GetValueOut tx of
                   None \<Rightarrow> Inl Exception
                 | Some v \<Rightarrow> Inr (s\<lparr> cs_nValueOut := cs_nValueOut s + v \<rparr>))
              else connect_spend lib env db pindex blockHash pos tx s) of
          Inl e \<Rightarrow> Inl e
        | Inr s \<Rightarrow>
            Inr (s\<lparr> mapQueuedChanges := (mapQueuedChanges s)(tx_hash lib tx \<mapsto> CTxIndex_new pos (length (vout tx))),
                    cs_nTx := cs_nTx s + 1 \<rparr>))"

fun connect_txs ::
  "'a openssl_scheme \<Rightarrow> connect_env \<Rightarrow> CTxDB \<Rightarrow> chain \<Rightarrow> uint256 \<Rightarrow> CTransaction list \<Rightarrow> connect_state \<Rightarrow> conn_error + connect_state" where
  "connect_txs lib env db pindex blockHash [] s = Inr s"
| "connect_txs lib env db pindex blockHash (tx # txs) s =
     (case connect_tx lib env db pindex blockHash tx s of
        Inl e \<Rightarrow> Inl e
      | Inr s \<Rightarrow> connect_txs lib env db pindex blockHash txs s)"

text \<open>The position of the first transaction: the size of an empty block, its two counts replaced by the count of the block.\<close>

definition first_tx_pos :: "CBlock \<Rightarrow> CBlockIndex \<Rightarrow> uint32" where
  "first_tx_pos b p =
     bi_nBlockPos p + of_nat (length (Serialize_CBlock CBlock_SetNull)) - 2 * of_nat (GetSizeOfCompactSize 0) +
     of_nat (GetSizeOfCompactSize (size_word (vtx b)))"

text \<open>The money supply, the mint and the stake debt recorded in the index of the block.\<close>

definition mint_fields :: "CBlock \<Rightarrow> chain \<Rightarrow> connect_state \<Rightarrow> int \<Rightarrow> CBlockIndex" where
  "mint_fields b pindex s nCoinbaseOut =
     (let p = hd pindex; prev = (\<lambda>f. case tl pindex of [] \<Rightarrow> 0 | q # _ \<Rightarrow> f q);
          created = sint (cs_nValueOut s) - sint (cs_nValueIn s)
      in p\<lparr> bi_nMint := i64 (created + sint (cs_nFees s)),
            bi_nMoneySupply := i64 (prev bi_nMoneySupply + created),
            bi_nPoSTotalMint := i64 (prev bi_nPoSTotalMint + (if IsProofOfStake b then i64 created else 0)),
            bi_nPoSDebt :=
              (if IsProofOfStake b then i64 (prev bi_nPoSDebt + i64 created)
               else i64 (prev bi_nPoSDebt - i64 (GetNextProofOfWorkReward (tl pindex) False - i64 (nCoinbaseOut - sint (cs_nFees s))))) \<rparr>)"

definition ConnectBlock ::
  "'a openssl_scheme \<Rightarrow> connect_env \<Rightarrow> chain \<Rightarrow> CBlock \<Rightarrow> CTxDB \<Rightarrow> block_map \<Rightarrow> CTxInfoStore \<Rightarrow> sig_cache \<Rightarrow>
     conn_error + CBlockIndex \<times> CTxDB \<times> block_map \<times> CTxInfoStore \<times> sig_cache" where
  "ConnectBlock lib env pindex b db m store c =
     (case CheckBlock lib (block_env.truncate env) False b of
        Rejected n \<Rightarrow> Inl (Failure n)
      | Accepted \<Rightarrow>
          if IsProofOfStake b \<and> bi_nHeight (hd pindex) < env_nPoSMinHeight env then Inl (Failure 10)
          else if list_ex (overwrites lib db) (vtx b) then Inl (Failure 0)
          else
            case connect_txs lib env db pindex (GetIDHash lib b) (vtx b)
                   \<lparr> cs_nTxPos = first_tx_pos b (hd pindex), mapQueuedChanges = Map.empty, cs_nFees = 0, cs_nValueIn = 0,
                     cs_nValueOut = 0, cs_nSigOps = 0, cs_nTx = 0, cs_store = store, cs_cache = c \<rparr> of
              Inl e \<Rightarrow> Inl e
            | Inr s \<Rightarrow>
                let nCoinbaseReward =
                      i64 (sint (cs_nFees s) + (if IsProofOfWork b then GetNextProofOfWorkReward (tl pindex) True else 0))
                in
                case GetValueOut (vtx b ! 0) of
                  None \<Rightarrow> Inl Exception
                | Some nOut \<Rightarrow>
                    if sint nOut > nCoinbaseReward then Inl (Failure 50)
                    else
                      let p = mint_fields b pindex s (sint nOut);
                          m = WriteBlockIndex lib (CDiskBlockIndex_new (p # tl pindex) 0) m;
                          db = db\<lparr> mapTxIndex := mapTxIndex db ++ mapQueuedChanges s \<rparr>;
                          m = (if tl pindex \<noteq> [] then WriteBlockIndex lib (CDiskBlockIndex_new (tl pindex) (bi_hash p)) m else m)
                      in Inr (p, db, m, cs_store s, cs_cache s))"

section \<open>The index as a ledger\<close>

text \<open>The inputs a transaction spends: none for a coinbase.\<close>

definition spending :: "CTransaction \<Rightarrow> CTxIn list" where
  "spending tx = (if IsCoinBase tx then [] else vin tx)"

definition coin_of :: "CTxIn \<Rightarrow> uint256 \<times> nat" where
  "coin_of txin = (op_hash (prevout txin), unat (op_n (prevout txin)))"

definition unspent :: "CTxDB \<Rightarrow> (uint256 \<times> nat) set" where
  "unspent db = {(h, k). \<exists>ix. mapTxIndex db h = Some ix \<and> k < length (vSpent ix) \<and> CDiskTxPos_IsNull (vSpent ix ! k)}"

definition outputs_known :: "CTxDB \<Rightarrow> (uint256 \<times> nat) set" where
  "outputs_known db = {(h, k). \<exists>ix. mapTxIndex db h = Some ix \<and> k < length (vSpent ix)}"

type_synonym tx_op = "uint256 \<times> CTransaction \<times> CDiskTxPos"

text \<open>A transaction taken into the index: new, spending distinct unspent outputs, which it marks.\<close>

definition tx_step :: "tx_op \<Rightarrow> CTxDB \<Rightarrow> CTxDB \<Rightarrow> bool" where
  "tx_step op db db' =
     (case op of (txid, tx, pos) \<Rightarrow>
        mapTxIndex db txid = None \<and> \<not> CDiskTxPos_IsNull pos \<and> distinct (map prevout (spending tx)) \<and>
        coin_of ` set (spending tx) \<subseteq> unspent db \<and>
        db' = db\<lparr> mapTxIndex := (\<lambda>h. map_option (marked pos (spending tx) h) (mapTxIndex db h))
                     (txid \<mapsto> CTxIndex_new pos (length (vout tx))) \<rparr>)"

definition tx_undo :: "tx_op \<Rightarrow> CTxDB \<Rightarrow> CTxDB option" where
  "tx_undo op db = (case op of (txid, tx, pos) \<Rightarrow> DisconnectInputs txid tx db)"

definition tx_takes :: "tx_op \<Rightarrow> (uint256 \<times> nat) list" where
  "tx_takes op = map coin_of (spending (fst (snd op)))"

definition tx_gives :: "tx_op \<Rightarrow> (uint256 \<times> nat) set" where
  "tx_gives op = {fst op} \<times> {0..<length (vout (fst (snd op)))}"

lemma coin_of_inj: "coin_of a = coin_of b \<longleftrightarrow> prevout a = prevout b"
  by (cases "prevout a"; cases "prevout b") (auto simp: coin_of_def word_unat_eq_iff)

lemma spends_coin_of: "spends ins h k \<longleftrightarrow> (h, k) \<in> coin_of ` set ins"
  by (auto simp: spends_iff coin_of_def image_iff)

lemma CTxIndex_new_nth [simp]: "k < n \<Longrightarrow> vSpent (CTxIndex_new pos n) ! k = CDiskTxPos_SetNull"
  "length (vSpent (CTxIndex_new pos n)) = n"
  by (simp_all add: CTxIndex_new_def)

lemma SetNull_IsNull [simp]: "CDiskTxPos_IsNull CDiskTxPos_SetNull"
  by (simp add: CDiskTxPos_IsNull_def CDiskTxPos_SetNull_def)

lemma tx_step_unspent:
  assumes "tx_step (txid, tx, pos) db db'"
  shows "unspent db' = (unspent db - coin_of ` set (spending tx)) \<union> {txid} \<times> {0..<length (vout tx)}"
    and "outputs_known db' = outputs_known db \<union> {txid} \<times> {0..<length (vout tx)}"
proof -
  have m': "mapTxIndex db' h = (if h = txid then Some (CTxIndex_new pos (length (vout tx)))
      else map_option (marked pos (spending tx) h) (mapTxIndex db h))" for h
    using assms by (simp add: tx_step_def)
  have fresh: "mapTxIndex db txid = None" and nn: "\<not> CDiskTxPos_IsNull pos"
    using assms by (simp_all add: tx_step_def)
  show "unspent db' = (unspent db - coin_of ` set (spending tx)) \<union> {txid} \<times> {0..<length (vout tx)}"
    using fresh nn unfolding unspent_def m' by (auto simp: spends_coin_of split: if_split_asm)
  show "outputs_known db' = outputs_known db \<union> {txid} \<times> {0..<length (vout tx)}"
    using fresh unfolding outputs_known_def m' by (auto split: if_split_asm)
qed

lemma tx_step_ok:
  assumes "index_ok (mapTxIndex db)" and "tx_step op db db'"
  shows "index_ok (mapTxIndex db')"
proof -
  obtain txid tx pos where op: "op = (txid, tx, pos)" by (cases op)
  have "p = CDiskTxPos_SetNull" if "mapTxIndex db' h = Some ix" "p \<in> set (vSpent ix)" "CDiskTxPos_IsNull p" for h ix p
    using that assms op by (auto simp: tx_step_def in_set_conv_nth CTxIndex_new_def split: if_split_asm intro: index_ok_nth)
  then show ?thesis by (auto simp: index_ok_def ran_def)
qed

lemma unspend_spending:
  assumes "list_all (in_range (mapTxIndex db)) (spending tx)"
  shows "DisconnectInputs txid tx db = Some (db\<lparr> mapTxIndex :=
    (\<lambda>h. map_option (marked CDiskTxPos_SetNull (spending tx) h) (mapTxIndex db h))(txid := None) \<rparr>)"
  using unspend_loop_marked [OF assms]
  by (auto simp: DisconnectInputs_def spending_def EraseTxIndex_def option.map_id0 marked_Nil_id)

lemma tx_undo_step:
  assumes "index_ok (mapTxIndex db)" and "tx_step op db db'"
  shows "tx_undo op db' = Some db"
proof -
  obtain txid tx pos where op: "op = (txid, tx, pos)" by (cases op)
  let ?ins = "spending tx"
  have fresh: "mapTxIndex db txid = None" and sub: "coin_of ` set ?ins \<subseteq> unspent db"
    and db': "db' = db\<lparr> mapTxIndex := (\<lambda>h. map_option (marked pos ?ins h) (mapTxIndex db h))(txid \<mapsto> CTxIndex_new pos (length (vout tx))) \<rparr>"
    using assms(2) op by (simp_all add: tx_step_def)
  have range: "in_range (mapTxIndex db) txin" "op_hash (prevout txin) \<noteq> txid" if "txin \<in> set ?ins" for txin
    using sub that fresh by (auto simp: unspent_def coin_of_def)
  have "list_all (in_range (mapTxIndex db')) ?ins"
    using range by (fastforce simp: list_all_iff db')
  then have "tx_undo op db' = Some (db'\<lparr> mapTxIndex :=
      (\<lambda>h. map_option (marked CDiskTxPos_SetNull ?ins h) (mapTxIndex db' h))(txid := None) \<rparr>)"
    by (simp add: tx_undo_def op unspend_spending)
  moreover have "((\<lambda>h. map_option (marked CDiskTxPos_SetNull ?ins h) (mapTxIndex db' h))(txid := None)) h = mapTxIndex db h" for h
  proof -
    have "marked CDiskTxPos_SetNull ?ins h (marked pos ?ins h ix) = ix" if "mapTxIndex db h = Some ix" for ix
    proof (rule marked_marked)
      fix k assume k: "k < length (vSpent ix)" "spends ?ins h k"
      then have "(h, k) \<in> unspent db" using sub by (auto simp: spends_coin_of)
      then show "vSpent ix ! k = CDiskTxPos_SetNull"
        using that k index_ok_nth [OF assms(1) that k(1)] by (simp add: unspent_def)
    qed
    then show ?thesis using fresh by (cases "mapTxIndex db h") (auto simp: db')
  qed
  ultimately show ?thesis by (simp add: db' fun_eq_iff cong: if_cong)
qed

interpretation index: coin_ledger "\<lambda>db. index_ok (mapTxIndex db)" tx_step tx_undo unspent outputs_known tx_takes tx_gives
proof
  fix db db' :: CTxDB and op :: tx_op
  assume ok: "index_ok (mapTxIndex db)" and st: "tx_step op db db'"
  obtain txid tx pos where op: "op = (txid, tx, pos)" by (cases op)
  show "index_ok (mapTxIndex db')" by (rule tx_step_ok [OF ok st])
  show "tx_undo op db' = Some db" by (rule tx_undo_step [OF ok st])
  have "inj_on coin_of (set (spending tx))" if "inj_on prevout (set (spending tx))"
    using that by (auto simp: inj_on_def coin_of_inj)
  then show "distinct (tx_takes op)" using st by (auto simp: tx_step_def op tx_takes_def distinct_map)
  show "set (tx_takes op) \<subseteq> unspent db" using st by (auto simp: tx_step_def op tx_takes_def)
  show "tx_gives op \<inter> outputs_known db = {}" using st by (auto simp: tx_step_def op tx_gives_def outputs_known_def)
  show "unspent db' = (unspent db - set (tx_takes op)) \<union> tx_gives op"
    using tx_step_unspent(1) [of txid tx pos db db'] st by (simp add: op tx_takes_def tx_gives_def)
  show "outputs_known db' = outputs_known db \<union> tx_gives op"
    using tx_step_unspent(2) [of txid tx pos db db'] st by (simp add: op tx_gives_def)
next
  show "unspent db \<subseteq> outputs_known db" for db by (auto simp: unspent_def outputs_known_def)
qed

text \<open>The database with the queued changes applied.\<close>

definition view_db :: "CTxDB \<Rightarrow> (uint256 \<rightharpoonup> CTxIndex) \<Rightarrow> CTxDB" where
  "view_db db pool = db\<lparr> mapTxIndex := index_view db pool \<rparr>"

lemma view_db_simps [simp]: "mapTxIndex (view_db db pool) = index_view db pool" "view_db db Map.empty = db"
  by (simp_all add: view_db_def index_view_def)

lemma index_view_upd [simp]: "index_view db (pool(h \<mapsto> ix)) = (index_view db pool)(h \<mapsto> ix)"
  by (simp add: index_view_def)

lemma ConnectInputs_step:
  assumes "FetchInputs db pool mem True tx = Inr inputs"
    and "ConnectInputs lib db nM nAge skip True c pos tx inputs pool ca = Inr (pool', ca')"
    and "\<not> CDiskTxPos_IsNull pos" and "index_view db pool txid = None"
  shows "tx_step (txid, tx, pos) (view_db db pool) (view_db db (pool'(txid \<mapsto> CTxIndex_new pos (length (vout tx)))))"
proof -
  note view = ConnectInputs_view [OF assms(1-3)]
  have "coin_of ` set (spending tx) \<subseteq> unspent (view_db db pool)"
  proof
    fix hk assume "hk \<in> coin_of ` set (spending tx)"
    then have "\<not> IsCoinBase tx" "spends (vin tx) (fst hk) (snd hk)" by (auto simp: spending_def spends_coin_of split: if_split_asm)
    then show "hk \<in> unspent (view_db db pool)" using view(3) by (cases hk) (auto simp: unspent_def)
  qed
  then show ?thesis using assms(3,4) view(1,4)
    by (auto simp: tx_step_def spending_def view_db_def simp del: index_view_upd intro!: arg_cong [of _ _ "\<lambda>m. db\<lparr> mapTxIndex := m \<rparr>"])
       (simp_all add: index_view_upd)
qed

lemma connect_tx_step:
  assumes "connect_tx lib env db pindex blockHash tx s = Inr s'" and "bi_nFile (hd pindex) \<noteq> - 1"
    and "index_view db (mapQueuedChanges s) (tx_hash lib tx) = None"
  shows "\<exists>pos. tx_step (tx_hash lib tx, tx, pos) (view_db db (mapQueuedChanges s)) (view_db db (mapQueuedChanges s'))"
proof -
  let ?pos = "\<lparr> pos_nFile = bi_nFile (hd pindex), pos_nBlockPos = bi_nBlockPos (hd pindex), pos_nTxPos = cs_nTxPos s \<rparr>"
  have nn: "\<not> CDiskTxPos_IsNull ?pos" using assms(2) by (simp add: CDiskTxPos_IsNull_def)
  show ?thesis
  proof (cases "IsCoinBase tx")
    case True
    then have "mapQueuedChanges s' = (mapQueuedChanges s)(tx_hash lib tx \<mapsto> CTxIndex_new ?pos (length (vout tx)))"
      using assms(1) by (auto simp: connect_tx_def Let_def split: if_split_asm option.split_asm)
    then show ?thesis using True nn assms(3)
      by (intro exI [of _ ?pos]) (simp add: tx_step_def spending_def view_db_def option.map_id0 marked_Nil_id)
  next
    case False
    obtain inputs pool c c' nM nAge skip where f: "FetchInputs db (mapQueuedChanges s) (env_mempool env) True tx = Inr inputs"
      and ci: "ConnectInputs lib db nM nAge skip True pindex ?pos tx inputs (mapQueuedChanges s) c = Inr (pool, c')"
      and "mapQueuedChanges s' = pool(tx_hash lib tx \<mapsto> CTxIndex_new ?pos (length (vout tx)))"
      using assms(1) False
      by (auto simp: connect_tx_def connect_spend_def Let_def split: if_split_asm option.split_asm sum.split_asm prod.split_asm answer.split_asm)
    then show ?thesis using ConnectInputs_step [OF f ci nn assms(3)] by auto
  qed
qed

definition ops_of :: "'a openssl_scheme \<Rightarrow> CTransaction list \<Rightarrow> tx_op list \<Rightarrow> bool" where
  "ops_of lib txs ops = list_all2 (\<lambda>tx (h, tx', pos). h = tx_hash lib tx \<and> tx' = tx) txs ops"

lemma connect_txs_steps:
  assumes "connect_txs lib env db pindex blockHash txs s = Inr s'" and "bi_nFile (hd pindex) \<noteq> - 1"
    and "distinct (map (tx_hash lib) txs)" and "\<forall>tx\<in>set txs. index_view db (mapQueuedChanges s) (tx_hash lib tx) = None"
  shows "\<exists>ops. ops_of lib txs ops \<and> index.steps ops (view_db db (mapQueuedChanges s)) (view_db db (mapQueuedChanges s'))"
  using assms
proof (induction txs arbitrary: s)
  case Nil
  then show ?case by (intro exI [of _ "[]"]) (auto simp: ops_of_def intro: index.steps.none)
next
  case (Cons tx txs)
  obtain t where t: "connect_tx lib env db pindex blockHash tx s = Inr t"
    and r: "connect_txs lib env db pindex blockHash txs t = Inr s'"
    using Cons.prems(1) by (auto split: sum.split_asm)
  obtain pos where st: "tx_step (tx_hash lib tx, tx, pos) (view_db db (mapQueuedChanges s)) (view_db db (mapQueuedChanges t))"
    using connect_tx_step [OF t Cons.prems(2)] Cons.prems(4) by auto
  let ?m = "(\<lambda>h. map_option (marked pos (spending tx) h) (index_view db (mapQueuedChanges s) h))
      (tx_hash lib tx \<mapsto> CTxIndex_new pos (length (vout tx)))"
  have e: "view_db db (mapQueuedChanges t) = (view_db db (mapQueuedChanges s))\<lparr> mapTxIndex := ?m \<rparr>"
    using st by (simp add: tx_step_def)
  have "mapTxIndex (view_db db (mapQueuedChanges t)) = ?m" unfolding e by simp
  then have m: "index_view db (mapQueuedChanges t) = ?m" by simp
  have "\<forall>tx'\<in>set txs. index_view db (mapQueuedChanges t) (tx_hash lib tx') = None"
    using Cons.prems(3,4) by (auto simp: m) (metis imageI)
  then obtain ops where "ops_of lib txs ops" "index.steps ops (view_db db (mapQueuedChanges t)) (view_db db (mapQueuedChanges s'))"
    using Cons.IH [OF r Cons.prems(2)] Cons.prems(3) by auto
  then show ?case using st
    by (intro exI [of _ "(tx_hash lib tx, tx, pos) # ops"]) (auto simp: ops_of_def intro: index.steps.more)
qed

lemma ConnectBlock_Inr:
  assumes "ConnectBlock lib env pindex b db m store c = Inr (p, db', m', store', c')"
  obtains s nOut where "CheckBlock lib (block_env.truncate env) False b = Accepted"
    and "connect_txs lib env db pindex (GetIDHash lib b) (vtx b)
           \<lparr> cs_nTxPos = first_tx_pos b (hd pindex), mapQueuedChanges = Map.empty, cs_nFees = 0, cs_nValueIn = 0,
             cs_nValueOut = 0, cs_nSigOps = 0, cs_nTx = 0, cs_store = store, cs_cache = c \<rparr> = Inr s"
    and "GetValueOut (vtx b ! 0) = Some nOut"
    and "sint nOut \<le> i64 (sint (cs_nFees s) + (if IsProofOfWork b then GetNextProofOfWorkReward (tl pindex) True else 0))"
    and "p = mint_fields b pindex s (sint nOut)" and "db' = view_db db (mapQueuedChanges s)" and "store' = cs_store s"
    and "\<not> list_ex (overwrites lib db) (vtx b)"
  using assms
  by (auto simp: ConnectBlock_def Let_def view_db_def index_view_def
      split: check_result.split_asm if_split_asm sum.split_asm option.split_asm)

lemma CheckBlock_distinct:
  "CheckBlock lib env f b = Accepted \<Longrightarrow> distinct (map (tx_hash lib) (vtx b))"
  by (auto simp: CheckBlock_def Let_def card_distinct split: if_split_asm check_result.split_asm)

lemma ConnectBlock_steps:
  assumes "ConnectBlock lib env pindex b db m store c = Inr (p, db', m', store', c')" and "bi_nFile (hd pindex) \<noteq> - 1"
    and "\<forall>tx\<in>set (vtx b). mapTxIndex db (tx_hash lib tx) = None"
  shows "\<exists>ops. ops_of lib (vtx b) ops \<and> index.steps ops db db'"
proof -
  obtain s nOut where ck: "CheckBlock lib (block_env.truncate env) False b = Accepted"
    and cn: "connect_txs lib env db pindex (GetIDHash lib b) (vtx b)
           \<lparr> cs_nTxPos = first_tx_pos b (hd pindex), mapQueuedChanges = Map.empty, cs_nFees = 0, cs_nValueIn = 0,
             cs_nValueOut = 0, cs_nSigOps = 0, cs_nTx = 0, cs_store = store, cs_cache = c \<rparr> = Inr s"
    and db': "db' = view_db db (mapQueuedChanges s)"
    by (rule ConnectBlock_Inr [OF assms(1)])
  show ?thesis using connect_txs_steps [OF cn assms(2) CheckBlock_distinct [OF ck]] assms(3)
    by (auto simp: db' index_view_def)
qed

section \<open>Blocks without infos\<close>

definition no_infos :: "CTransaction \<Rightarrow> bool" where
  "no_infos tx = list_all (\<lambda>txin. infos txin = []) (vin tx)"

lemma proc_inputs_no_infos:
  "list_all (\<lambda>(i, txin). infos txin = []) ins \<Longrightarrow> proc_inputs lib fTestNet undoing blockHash nTx db ins s = (Yes, s)"
  by (induction ins) auto

lemma UndoTxInfos_no_infos:
  assumes "no_infos tx" and "InTransaction s"
  shows "UndoTxInfos lib fTestNet db blockHash nTx tx s = (Yes, s)"
proof -
  have "list_all (\<lambda>(i, txin). infos txin = []) (rev (enumerate 0 (vin tx)))"
    using assms(1) by (auto simp: no_infos_def list_all_iff in_set_enumerate_eq)
  then show ?thesis using assms(2) by (simp add: UndoTxInfos_def procUndoTxInfos_def proc_inputs_no_infos)
qed

lemma tx_undo_op: "tx_undo (txid, tx, pos) db = DisconnectInputs txid tx db"
  by (simp add: tx_undo_def)

lemma disconnect_txs_undos:
  assumes "ops_of lib txs ops" and "list_all no_infos txs" and "InTransaction s"
  shows "disconnect_txs lib fTestNet txs db s = map_option (\<lambda>db. (db, s)) (index.undos ops db)"
  using assms
proof (induction txs arbitrary: ops db)
  case Nil
  then show ?case by (simp add: ops_of_def)
next
  case (Cons tx txs)
  then obtain pos ops' where "ops = (tx_hash lib tx, tx, pos) # ops'" "ops_of lib txs ops'"
    by (auto simp: ops_of_def list_all2_Cons1)
  then show ?case using Cons.IH Cons.prems
    by (auto simp: tx_undo_op UndoTxInfos_no_infos split: option.split)
qed

lemma DisconnectBlock_undo:
  assumes "ConnectBlock lib env pindex b db m store c = Inr (p, db', m', store', c')" and "bi_nFile (hd pindex) \<noteq> - 1"
    and "\<forall>tx\<in>set (vtx b). mapTxIndex db (tx_hash lib tx) = None" and "index_ok (mapTxIndex db)"
    and "list_all no_infos (vtx b)" and "InTransaction s"
  shows "\<exists>bm''. DisconnectBlock lib fTestNet pindex' b db' bm' s = Some (db, bm'', s)" and "index_ok (mapTxIndex db')"
proof -
  obtain ops where ops: "ops_of lib (vtx b) ops" "index.steps ops db db'" using ConnectBlock_steps [OF assms(1-3)] by blast
  have "ops_of lib (rev (vtx b)) (rev ops)" using ops(1) by (simp add: ops_of_def list_all2_rev)
  then have "disconnect_txs lib fTestNet (rev (vtx b)) db' s = Some (db, s)"
    using disconnect_txs_undos [of lib "rev (vtx b)" "rev ops" s] index.undos_steps [OF ops(2)] assms(4-6) by simp
  then show "\<exists>bm''. DisconnectBlock lib fTestNet pindex' b db' bm' s = Some (db, bm'', s)" by (simp add: DisconnectBlock_def)
  show "index_ok (mapTxIndex db')" using index.steps_inv [OF ops(2)] assms(4) by simp
qed

text \<open>
  C3. Disconnecting the block just connected restores the transaction index exactly, spent pointers
  included, when its transactions are new and carry no infos.
\<close>

theorem DisconnectBlock_ConnectBlock:
  assumes "ConnectBlock lib env pindex b db m store c = Inr (p, db', m', store', c')" and "bi_nFile (hd pindex) \<noteq> - 1"
    and "\<forall>tx\<in>set (vtx b). mapTxIndex db (tx_hash lib tx) = None" and "index_ok (mapTxIndex db)"
    and "list_all no_infos (vtx b)" and "InTransaction s"
  shows "\<exists>m''. DisconnectBlock lib fTestNet pindex b db' m' s = Some (db, m'', s) \<and> index_ok (mapTxIndex db')"
  using DisconnectBlock_undo [OF assms] by blast


section \<open>Money supply and stake debt\<close>

lemma i64_word: "i64 x = sint (of_int x :: int64)"
  by (simp add: i64_def sint_sbintrunc')

lemma of_int_i64 [simp]: "(of_int (i64 x) :: int64) = of_int x"
  by (simp add: i64_word)

lemma i64_cong: "(of_int x :: int64) = of_int y \<Longrightarrow> i64 x = i64 y"
  by (simp add: i64_word)

text \<open>What the block creates beyond its fees.\<close>

definition minted :: "connect_state \<Rightarrow> int64" where
  "minted s = cs_nValueOut s - cs_nValueIn s + cs_nFees s"

lemma coinbase_not_coinstake: "IsCoinBase tx \<Longrightarrow> \<not> IsCoinStake tx"
  by (auto simp: IsCoinBase_def IsCoinStake_def)

lemma connect_tx_minted:
  assumes "connect_tx lib env db pindex blockHash tx s = Inr s'" and "\<not> IsCoinStake tx"
  shows "minted s' = minted s + (if IsCoinBase tx then the (GetValueOut tx) else 0)"
  using assms
  by (auto simp: connect_tx_def connect_spend_def minted_def Let_def algebra_simps
      split: if_split_asm option.split_asm sum.split_asm prod.split_asm answer.split_asm)

lemma connect_txs_minted:
  assumes "connect_txs lib env db pindex blockHash txs s = Inr s'" and "\<forall>tx\<in>set txs. \<not> IsCoinStake tx \<and> \<not> IsCoinBase tx"
  shows "minted s' = minted s"
  using assms by (induction txs arbitrary: s) (auto simp: connect_tx_minted split: sum.split_asm)

lemma CheckBlock_shape:
  assumes "CheckBlock lib env f b = Accepted"
  obtains cb txs where "vtx b = cb # txs" and "IsCoinBase cb" and "\<forall>tx\<in>set txs. \<not> IsCoinBase tx"
    and "IsProofOfWork b \<longrightarrow> (\<forall>tx\<in>set txs. \<not> IsCoinStake tx)"
proof -
  have *: "vtx b \<noteq> []" "IsCoinBase (vtx b ! 0)" "\<not> list_ex IsCoinBase (drop 1 (vtx b))" "\<not> list_ex IsCoinStake (drop 2 (vtx b))"
    using assms by (simp_all add: CheckBlock_def Let_def split: if_split_asm)
  then obtain cb txs where b: "vtx b = cb # txs" by (cases "vtx b") auto
  have "\<forall>tx\<in>set txs. \<not> IsCoinStake tx" if "IsProofOfWork b"
    using that * b by (cases txs) (auto simp: IsProofOfWork_def IsProofOfStake_def list_ex_iff)
  then show ?thesis using that b * by (auto simp: list_ex_iff)
qed

text \<open>
  C4. The books of the two kinds of blocks agree. Connecting a block changes the money supply less the stake
  debt by the full subsidy of a proof-of-work block and not at all for a proof-of-stake block, in the
  64-bit arithmetic of the code: what stake blocks create is withheld from later work blocks, to the last unit. A work
  block records as minted exactly what its coinbase pays, which is at most the fees and the reward
  after the debt.
\<close>

theorem supply_minus_debt:
  assumes "ConnectBlock lib env pindex b db m store c = Inr (p, db', m', store', c')"
  defines "prev \<equiv> \<lambda>f. case tl pindex of [] \<Rightarrow> 0 | q # _ \<Rightarrow> f q"
  shows "i64 (bi_nMoneySupply p - bi_nPoSDebt p) =
      i64 (prev bi_nMoneySupply - prev bi_nPoSDebt + (if IsProofOfWork b then GetNextProofOfWorkReward (tl pindex) False else 0)) \<and>
    (IsProofOfWork b \<longrightarrow> bi_nMint p = sum_out (vout (vtx b ! 0)) \<and>
       (\<exists>nFees. sum_out (vout (vtx b ! 0)) \<le> i64 (nFees + GetNextProofOfWorkReward (tl pindex) True) \<and>
          bi_nMoneySupply p = i64 (prev bi_nMoneySupply + sum_out (vout (vtx b ! 0)) - nFees)))"
proof -
  obtain s nOut where ck: "CheckBlock lib (block_env.truncate env) False b = Accepted"
    and cn: "connect_txs lib env db pindex (GetIDHash lib b) (vtx b)
           \<lparr> cs_nTxPos = first_tx_pos b (hd pindex), mapQueuedChanges = Map.empty, cs_nFees = 0, cs_nValueIn = 0,
             cs_nValueOut = 0, cs_nSigOps = 0, cs_nTx = 0, cs_store = store, cs_cache = c \<rparr> = Inr s"
    and out: "GetValueOut (vtx b ! 0) = Some nOut"
    and le: "sint nOut \<le> i64 (sint (cs_nFees s) + (if IsProofOfWork b then GetNextProofOfWorkReward (tl pindex) True else 0))"
    and p: "p = mint_fields b pindex s (sint nOut)"
    by (rule ConnectBlock_Inr [OF assms(1)])
  obtain cb txs where b: "vtx b = cb # txs" and cb: "IsCoinBase cb" and ncb: "\<forall>tx\<in>set txs. \<not> IsCoinBase tx"
    and ncs: "IsProofOfWork b \<longrightarrow> (\<forall>tx\<in>set txs. \<not> IsCoinStake tx)"
    by (rule CheckBlock_shape [OF ck])
  have o: "sint nOut = sum_out (vout (vtx b ! 0))" using out by (simp add: GetValueOut_Some)
  have mint: "cs_nValueOut s - cs_nValueIn s + cs_nFees s = nOut" if w: "IsProofOfWork b"
  proof -
    obtain t where t: "connect_tx lib env db pindex (GetIDHash lib b) cb
           \<lparr> cs_nTxPos = first_tx_pos b (hd pindex), mapQueuedChanges = Map.empty, cs_nFees = 0, cs_nValueIn = 0,
             cs_nValueOut = 0, cs_nSigOps = 0, cs_nTx = 0, cs_store = store, cs_cache = c \<rparr> = Inr t"
      and r: "connect_txs lib env db pindex (GetIDHash lib b) txs t = Inr s"
      using cn b by (auto split: sum.split_asm)
    have "minted s = minted t" using connect_txs_minted [OF r] ncb ncs w by blast
    also have "\<dots> = nOut"
      using connect_tx_minted [OF t coinbase_not_coinstake [OF cb]] out b cb by (simp add: minted_def)
    finally show ?thesis by (simp add: minted_def)
  qed
  let ?prev = "\<lambda>f. case tl pindex of [] \<Rightarrow> 0 | q # _ \<Rightarrow> f q"
  have diff: "i64 (bi_nMoneySupply p - bi_nPoSDebt p) =
      i64 (prev bi_nMoneySupply - prev bi_nPoSDebt + (if IsProofOfWork b then GetNextProofOfWorkReward (tl pindex) False else 0))"
  proof (cases "IsProofOfWork b")
    case True
    then show ?thesis using mint [OF True]
      by (intro i64_cong) (simp add: p mint_fields_def Let_def IsProofOfWork_def prev_def, simp add: algebra_simps)
  next
    case False
    then show ?thesis by (intro i64_cong) (simp add: p mint_fields_def Let_def IsProofOfWork_def prev_def)
  qed
  have work: "bi_nMint p = sum_out (vout (vtx b ! 0)) \<and> bi_nMoneySupply p = i64 (prev bi_nMoneySupply + sum_out (vout (vtx b ! 0)) - sint (cs_nFees s))"
    if w: "IsProofOfWork b"
  proof -
    have "bi_nMint p = i64 (sint nOut)" "bi_nMoneySupply p = i64 (prev bi_nMoneySupply + sint nOut - sint (cs_nFees s))"
      using mint [OF w] by (auto simp: p mint_fields_def Let_def prev_def intro!: i64_cong)
    then show ?thesis by (simp add: o [symmetric] i64_word)
  qed
  show ?thesis using diff work le o by auto
qed

section \<open>Blocks with infos\<close>

text \<open>Every row of the store names the transaction of a block: its number is not negative.\<close>

definition rows_from_blocks :: "CTxInfoStore \<Rightarrow> bool" where
  "rows_from_blocks s = (\<forall>r\<in>set (rows s). 0 \<le> row_index_tx r)"

lemma Store_Undo_stuck:
  assumes "rows_from_blocks s" and "rec_indexTx r < 0"
  shows "fst (do_Undo lib s r) \<noteq> Yes"
proof -
  have "filter (undo_matches lib r) (rows s) = []"
    using assms by (auto simp: filter_empty_conv rows_from_blocks_def undo_matches_def)
  then show ?thesis by (simp add: do_Undo_def Let_def)
qed

lemma proc_inputs_stuck:
  assumes "rows_from_blocks s" and "InTransaction s" and "nTx < 0" and "\<exists>(i, txin)\<in>set ins. infos txin \<noteq> []"
  shows "fst (proc_inputs lib fTestNet True blockHash nTx db ins s) \<noteq> Yes"
  using assms(4)
proof (induction ins)
  case Nil
  then show ?case by simp
next
  case (Cons a ins)
  obtain i txin where a: "a = (i, txin)" by (cases a)
  have stuck: "fst (proc_infos lib True addr blockHash nTx j is s) \<noteq> Yes" if ne: "is \<noteq> []" for addr j "is"
  proof -
    obtain k info rest where i: "is = (k, info) # rest" using ne by (cases "is") auto
    let ?r = "\<lparr> rec_addr = addr, rec_info = info, rec_blockHash = blockHash, rec_indexTx = nTx, rec_indexTxIn = j, rec_indexInfo = int k \<rparr>"
    have "fst (Store_Undo lib s ?r) \<noteq> Yes"
      using assms(2,3) Store_Undo_stuck [OF assms(1), of ?r lib] by (simp add: Store_Undo_def with_view_def)
    then show ?thesis unfolding i by (cases "Store_Undo lib s ?r") (auto simp: Let_def split: answer.split)
  qed
  show ?case
  proof (cases "infos txin = []")
    case True
    then show ?thesis using Cons a by simp
  next
    case False
    then have "rev (enumerate 0 (infos txin)) \<noteq> []" by (cases "infos txin") simp_all
    then show ?thesis using False a stuck [of "rev (enumerate 0 (infos txin))"]
      by (auto simp: Let_def split: option.split prod.split answer.split) (metis fst_conv)+
  qed
qed

lemma disconnect_txs_stuck:
  assumes "rows_from_blocks s" and "InTransaction s" and "\<exists>tx\<in>set txs. \<not> no_infos tx"
  shows "disconnect_txs lib fTestNet txs db s = None"
  using assms(3)
proof (induction txs arbitrary: db)
  case (Cons tx txs)
  show ?case
  proof (cases "no_infos tx")
    case True
    then show ?thesis using Cons assms(2) by (auto simp: UndoTxInfos_no_infos split: option.split)
  next
    case False
    then obtain k where "k < length (vin tx)" "infos (vin tx ! k) \<noteq> []"
      by (auto simp: no_infos_def list_all_length)
    then have "(k, vin tx ! k) \<in> set (rev (enumerate 0 (vin tx)))" "infos (vin tx ! k) \<noteq> []"
      by (simp_all add: in_set_enumerate_eq)
    then have ex: "\<exists>(i, txin)\<in>set (rev (enumerate 0 (vin tx))). infos txin \<noteq> []" by blast
    have "fst (UndoTxInfos lib fTestNet db' 0 (- 1) tx s) \<noteq> Yes" for db'
      using proc_inputs_stuck [OF assms(1,2) _ ex, of "- 1"] assms(2) by (simp add: UndoTxInfos_def procUndoTxInfos_def)
    then show ?thesis by (auto split: option.split prod.split answer.split) (metis fst_conv)
  qed
qed simp

lemma do_Process_rows_from_blocks:
  assumes "do_Process lib s r = (Yes, s')" and "rows_from_blocks s" and "0 \<le> rec_indexTx r"
  shows "rows_from_blocks s' \<and> (InTransaction s' \<longleftrightarrow> InTransaction s)"
  using do_Process_rows [OF assms(1)] assms(2,3)
  by (auto simp: rows_from_blocks_def InTransaction_def clear_def insert_row_def)

lemma proc_infos_rows:
  assumes "proc_infos lib False addr blockHash nTx i is s = (Yes, s')" and "rows_from_blocks s" and "InTransaction s" and "0 \<le> nTx"
  shows "rows_from_blocks s' \<and> InTransaction s'"
  using assms(1-3)
proof (induction "is" arbitrary: s)
  case (Cons a "is")
  obtain j info where a: "a = (j, info)" by (cases a)
  let ?r = "\<lparr> rec_addr = addr, rec_info = info, rec_blockHash = blockHash, rec_indexTx = nTx, rec_indexTxIn = i, rec_indexInfo = int j \<rparr>"
  obtain t where t: "do_Process lib s ?r = (Yes, t)" "proc_infos lib False addr blockHash nTx i is t = (Yes, s')"
    using Cons.prems a by (auto simp: Let_def Store_Process_def with_view_def split: prod.split_asm answer.split_asm)
  then show ?case using Cons.IH [OF t(2)] do_Process_rows_from_blocks [OF t(1) Cons.prems(2)] Cons.prems(3) assms(4) by simp
qed simp

lemma proc_inputs_rows:
  assumes "proc_inputs lib fTestNet False blockHash nTx db ins s = (Yes, s')" and "rows_from_blocks s" and "InTransaction s" and "0 \<le> nTx"
  shows "rows_from_blocks s' \<and> InTransaction s'"
  using assms(1-3)
proof (induction ins arbitrary: s)
  case (Cons a ins)
  obtain i txin where a: "a = (i, txin)" by (cases a)
  show ?case
  proof (cases "infos txin = []")
    case True
    then show ?thesis using Cons a by simp
  next
    case False
    then obtain addr t where "proc_infos lib False addr blockHash nTx (int i) (enumerate 0 (infos txin)) s = (Yes, t)"
      and "proc_inputs lib fTestNet False blockHash nTx db ins t = (Yes, s')"
      using Cons.prems(1) a by (auto simp: Let_def split: option.split_asm if_split_asm prod.split_asm answer.split_asm)
    then show ?thesis using Cons.IH proc_infos_rows [OF _ Cons.prems(2,3) assms(4)] by blast
  qed
qed simp

lemma connect_tx_rows:
  assumes "connect_tx lib env db pindex blockHash tx s = Inr s'" and "rows_from_blocks (cs_store s)"
  shows "rows_from_blocks (cs_store s')"
proof -
  consider "cs_store s' = cs_store s" | n :: uint32 where "ProcessTxInfos lib (env_fTestNet env) db blockHash (uint n) tx (cs_store s) = (Yes, cs_store s')"
    using assms(1)
    by (auto simp: connect_tx_def connect_spend_def Let_def split: if_split_asm option.split_asm sum.split_asm prod.split_asm answer.split_asm)
  then show ?thesis
  proof cases
    case 2
    then show ?thesis using proc_inputs_rows [OF _ assms(2)]
      by (auto simp: ProcessTxInfos_def procUndoTxInfos_def split: if_split_asm) blast
  qed (use assms(2) in simp)
qed

lemma connect_txs_rows:
  "connect_txs lib env db pindex blockHash txs s = Inr s' \<Longrightarrow> rows_from_blocks (cs_store s) \<Longrightarrow> rows_from_blocks (cs_store s')"
  by (induction txs arbitrary: s) (auto dest: connect_tx_rows split: sum.split_asm)


section \<open>Connecting the block\<close>

definition demo_connect_env :: connect_env where
  "demo_connect_env = \<lparr> env_fTestNet = False, env_GetAdjustedTime = 10, env_hashGenesisBlock = 32, env_GetPoWHash = (\<lambda>_. None),
     env_nCoinbaseMaturity = 250, env_nStakeMinAge = 100, env_nPoSMinHeight = 0, env_nBestHeight = 0,
     env_GetTotalBlocksEstimate = 0, env_mempool = Map.empty \<rparr>"

definition empty_db :: CTxDB where
  "empty_db = \<lparr> mapTxIndex = Map.empty, disk_tx = Map.empty, disk_block_time = Map.empty \<rparr>"

lemma demo_env_truncate: "block_env.truncate demo_connect_env = demo_block_env"
  by (simp add: demo_connect_env_def demo_block_env_def block_env.truncate_def)

lemma demo_no_infos: "no_infos demo_coinbase"
  by (simp add: demo_coinbase_def no_infos_def)

lemma demo_ConnectBlock:
  "\<exists>p db' m' store' c'. ConnectBlock demo_lib demo_connect_env [demo_index] demo_cblock empty_db Map.empty Store_Initialize no_cache =
     Inr (p, db', m', store', c')"
proof -
  have v: "vtx demo_cblock = [demo_coinbase]" by (simp add: demo_cblock_def)
  have w: "IsProofOfWork demo_cblock" by (simp add: IsProofOfWork_def IsProofOfStake_def v)
  show ?thesis
    using w demo_sigops demo_coinbase_is(1,2)
    by (simp add: ConnectBlock_def demo_env_truncate demo_CheckBlock IsProofOfWork_def v overwrites_def ReadTxIndex_def empty_db_def connect_tx_def Let_def
        GetNextProofOfWorkReward_def COIN_def i64_id MAX_BLOCK_SIGOPS_def)
qed

lemma demo_fresh: "\<forall>tx\<in>set (vtx demo_cblock). mapTxIndex empty_db (tx_hash demo_lib tx) = None" "index_ok (mapTxIndex empty_db)"
  "bi_nFile (hd [demo_index]) \<noteq> - 1" "list_all no_infos (vtx demo_cblock)" "InTransaction (snd (BeginTransaction Store_Initialize))"
  by (simp_all add: empty_db_def index_ok_def demo_index_def demo_cblock_def demo_no_infos BeginTransaction_def InTransaction_def Store_Initialize_def)

theorem DisconnectBlock_ConnectBlock_witness:
  "\<exists>p db' m' store' c' m''. ConnectBlock demo_lib demo_connect_env [demo_index] demo_cblock empty_db Map.empty Store_Initialize no_cache =
       Inr (p, db', m', store', c') \<and>
     DisconnectBlock demo_lib False [demo_index] demo_cblock db' m' (snd (BeginTransaction Store_Initialize)) =
       Some (empty_db, m'', snd (BeginTransaction Store_Initialize))"
proof -
  obtain p db' m' store' c' where c: "ConnectBlock demo_lib demo_connect_env [demo_index] demo_cblock empty_db Map.empty Store_Initialize no_cache =
      Inr (p, db', m', store', c')" using demo_ConnectBlock by blast
  then show ?thesis using DisconnectBlock_ConnectBlock [OF c demo_fresh(3,1,2,4,5), of False] by blast
qed


theorem supply_minus_debt_witness:
  "\<exists>p db' m' store' c'. ConnectBlock demo_lib demo_connect_env [demo_index] demo_cblock empty_db Map.empty Store_Initialize no_cache =
       Inr (p, db', m', store', c') \<and> bi_nMint p = 1000000 \<and> i64 (bi_nMoneySupply p - bi_nPoSDebt p) = COIN"
proof -
  obtain p db' m' store' c' where c: "ConnectBlock demo_lib demo_connect_env [demo_index] demo_cblock empty_db Map.empty Store_Initialize no_cache =
      Inr (p, db', m', store', c')" using demo_ConnectBlock by blast
  have w: "IsProofOfWork demo_cblock" by (simp add: IsProofOfWork_def IsProofOfStake_def demo_cblock_def)
  have "bi_nMint p = 1000000 \<and> i64 (bi_nMoneySupply p - bi_nPoSDebt p) = COIN"
    using supply_minus_debt [OF c] w
    by (simp add: demo_cblock_def demo_coinbase_def GetNextProofOfWorkReward_def COIN_def i64_id)
  then show ?thesis using c by blast
qed

text \<open>A block whose only transaction carries an info.\<close>

definition info_block :: CBlock where
  "info_block = demo_cblock\<lparr> vtx := [demo_tx\<lparr> vin := [(vin demo_tx ! 0)\<lparr> infos := [rec_info demo_record] \<rparr>] \<rparr>] \<rparr>"


end
