(* ===== verification/BlockFile.thy ===== *)
theory BlockFile
  imports BlockConnect
begin

text \<open>
  The block files: \<^verbatim>\<open>OpenBlockFile\<close>, \<^verbatim>\<open>AppendBlockFile\<close>, \<^verbatim>\<open>CBlock::WriteToDisk\<close> and the functions that read blocks
  and transactions back (\<^verbatim>\<open>src/src/main.h\<close>, \<^verbatim>\<open>src/src/main.cpp\<close>). A file is its bytes; opening, seeking and
  writing are taken to succeed, a file that is not there cannot be read and is created by appending.
\<close>

section \<open>The files\<close>

type_synonym block_files = "uint32 \<rightharpoonup> bytes"

definition GetMessageStart :: "bool \<Rightarrow> bytes" where
  "GetMessageStart fTestNet = (if fTestNet then [0xe3, 0xc7, 0x9e, 0xdd] else [0x89, 0xfd, 0x9c, 0xad])"

definition OpenBlockFile :: "block_files \<Rightarrow> uint32 \<Rightarrow> uint32 \<Rightarrow> bytes option" where
  "OpenBlockFile files nFile nBlockPos =
     (if nFile = - 1 then None else map_option (drop (unat nBlockPos)) (files nFile))"

text \<open>The number of the file to append to, from \<^verbatim>\<open>nCurrentBlockFile\<close> on.\<close>

function AppendBlockFile :: "block_files \<Rightarrow> uint32 \<Rightarrow> uint32 option" where
  "AppendBlockFile files nCurrentBlockFile =
     (if nCurrentBlockFile = - 1 then None
      else if length (case files nCurrentBlockFile of None \<Rightarrow> [] | Some bs \<Rightarrow> bs) < 0x7F000000 - MAX_SIZE
      then Some nCurrentBlockFile
      else AppendBlockFile files (nCurrentBlockFile + 1))"
  by pat_completeness auto
termination
proof (relation "measure (\<lambda>(files, n). unat (- 1 - n))", goal_cases)
  case (2 files n)
  then have "- 1 - n \<noteq> 0" by (metis add.inverse_inverse diff_eq_eq diff_minus_eq_add minus_diff_eq neg_equal_0_iff_equal right_minus_eq)
  then have "unat (- 1 - n - 1) < unat (- 1 - n)" by (rule measure_unat)
  then show ?case by (simp add: algebra_simps)
qed simp

declare AppendBlockFile.simps [simp del]

text \<open>\<^verbatim>\<open>WriteToDisk\<close>: the file, the position of the block in it, and the files afterwards.\<close>

definition WriteToDisk :: "bool \<Rightarrow> CBlock \<Rightarrow> block_files \<Rightarrow> uint32 \<Rightarrow> (uint32 \<times> uint32 \<times> block_files) option" where
  "WriteToDisk fTestNet b files nCurrentBlockFile =
     (case AppendBlockFile files nCurrentBlockFile of
        None \<Rightarrow> None
      | Some nFile \<Rightarrow>
          let old = (case files nFile of None \<Rightarrow> [] | Some bs \<Rightarrow> bs);
              nSize = of_nat (length (Serialize_CBlock b)) :: uint32;
              header = old @ GetMessageStart fTestNet @ Serialize_word 4 nSize
          in Some (nFile, of_nat (length header), files(nFile \<mapsto> header @ Serialize_CBlock b)))"

section \<open>Reading\<close>

text \<open>With \<^verbatim>\<open>SER_BLOCKHEADERONLY\<close> the transactions and the signature are not read.\<close>

definition Unserialize_header :: "bytes \<Rightarrow> (CBlock \<times> bytes) option" where
  "Unserialize_header s = do {
     (v, s) \<leftarrow> (Unserialize_word 4 s :: (int32 \<times> bytes) option);
     (p, s) \<leftarrow> (Unserialize_word 32 s :: (uint256 \<times> bytes) option);
     (m, s) \<leftarrow> (Unserialize_word 32 s :: (uint256 \<times> bytes) option);
     (t, s) \<leftarrow> (Unserialize_word 4 s :: (uint32 \<times> bytes) option);
     (b, s) \<leftarrow> (Unserialize_word 4 s :: (uint32 \<times> bytes) option);
     (n, s) \<leftarrow> (Unserialize_word 4 s :: (uint32 \<times> bytes) option);
     Some (\<lparr> blk_nVersion = v, blk_hashPrevBlock = p, blk_hashMerkleRoot = m, blk_nTime = t, blk_nBits = b, blk_nNonce = n,
             vtx = [], vchBlockSig = [] \<rparr>, s) }"

text \<open>\<^verbatim>\<open>CBlock::ReadFromDisk(nFile, nBlockPos, fReadTransactions)\<close>\<close>

definition ReadBlockFromDisk :: "'a bignum_lib_scheme \<Rightarrow> bool \<Rightarrow> block_files \<Rightarrow> uint32 \<Rightarrow> uint32 \<Rightarrow> bool \<Rightarrow> CBlock option" where
  "ReadBlockFromDisk lib fTestNet files nFile nBlockPos fReadTransactions =
     (case OpenBlockFile files nFile nBlockPos of
        None \<Rightarrow> None
      | Some bs \<Rightarrow>
          (case (if fReadTransactions then Unserialize_CBlock bs else Unserialize_header bs) of
             None \<Rightarrow> None
           | Some (b, _) \<Rightarrow>
               if fReadTransactions \<and> IsProofOfWork b \<and> \<not> CheckProofOfWork lib fTestNet 0 (blk_nBits b) then None else Some b))"

text \<open>\<^verbatim>\<open>CTransaction::ReadFromDisk(pos)\<close>\<close>

definition ReadTxFromDisk :: "block_files \<Rightarrow> CDiskTxPos \<Rightarrow> CTransaction option" where
  "ReadTxFromDisk files pos =
     (case OpenBlockFile files (pos_nFile pos) 0 of
        None \<Rightarrow> None
      | Some bs \<Rightarrow> map_option fst (Unserialize_CTransaction (drop (unat (pos_nTxPos pos)) bs)))"

text \<open>The database over the files.\<close>

definition db_over :: "'a bignum_lib_scheme \<Rightarrow> bool \<Rightarrow> block_files \<Rightarrow> (uint256 \<rightharpoonup> CTxIndex) \<Rightarrow> CTxDB" where
  "db_over lib fTestNet files m =
     \<lparr> mapTxIndex = m, disk_tx = ReadTxFromDisk files,
       disk_block_time = (\<lambda>(nFile, nBlockPos). map_option blk_nTime (ReadBlockFromDisk lib fTestNet files nFile nBlockPos False)) \<rparr>"

section \<open>What was written can be read\<close>

definition stored :: "block_files \<Rightarrow> uint32 \<Rightarrow> uint32 \<Rightarrow> CBlock \<Rightarrow> bool" where
  "stored files nFile nBlockPos b \<longleftrightarrow> nFile \<noteq> - 1 \<and> unat nBlockPos \<ge> 8 \<and> unat nBlockPos + length (Serialize_CBlock b) < 2 ^ 32 \<and>
     (\<exists>pre rest. files nFile = Some (pre @ Serialize_CBlock b @ rest) \<and> length pre = unat nBlockPos)"

lemma unat_of_nat32: "n < 2 ^ 32 \<Longrightarrow> unat (of_nat n :: uint32) = n"
  by (simp add: unat_of_nat)

lemma AppendBlockFile_Some:
  assumes "AppendBlockFile files n = Some nFile"
  shows "nFile \<noteq> - 1 \<and> length (case files nFile of None \<Rightarrow> [] | Some bs \<Rightarrow> bs) < 0x7F000000 - MAX_SIZE"
  using assms
proof (induction files n rule: AppendBlockFile.induct)
  case (1 files n)
  then show ?case by (subst (asm) (2) AppendBlockFile.simps) (simp split: if_split_asm)
qed

lemma length_GetMessageStart: "length (GetMessageStart f) = 4"
  by (simp add: GetMessageStart_def)

lemma WriteToDisk_stored:
  assumes "WriteToDisk fTestNet b files n = Some (nFile, nBlockPos, files')" and "length (Serialize_CBlock b) \<le> MAX_BLOCK_SIZE"
  shows "stored files' nFile nBlockPos b" and "stored files f p b' \<Longrightarrow> stored files' f p b'"
proof -
  let ?old = "case files nFile of None \<Rightarrow> [] | Some bs \<Rightarrow> bs"
  let ?header = "?old @ GetMessageStart fTestNet @ Serialize_word 4 (of_nat (length (Serialize_CBlock b)) :: uint32)"
  have a: "AppendBlockFile files n = Some nFile" and pos: "nBlockPos = of_nat (length ?header)"
    and files': "files' = files(nFile \<mapsto> ?header @ Serialize_CBlock b)"
    using assms(1) by (auto simp: WriteToDisk_def Let_def split: option.split_asm)
  have len: "length ?header = length ?old + 8" by (simp add: length_GetMessageStart)
  have small: "length ?old < 0x7F000000" using AppendBlockFile_Some [OF a] by (simp add: MAX_SIZE_def)
  then have u: "unat nBlockPos = length ?header" unfolding pos by (intro unat_of_nat32) (simp add: length_GetMessageStart)
  show "stored files' nFile nBlockPos b"
    unfolding stored_def
  proof (intro conjI exI)
    show "files' nFile = Some (?header @ Serialize_CBlock b @ [])" "length ?header = unat nBlockPos" by (simp_all add: files' u)
  qed (use AppendBlockFile_Some [OF a] u len small assms(2) in \<open>simp_all add: MAX_BLOCK_SIZE_def\<close>)
  assume st: "stored files f p b'"
  then obtain pre rest where f: "files f = Some (pre @ Serialize_CBlock b' @ rest)" "length pre = unat p" by (auto simp: stored_def)
  have "\<exists>rest'. files' f = Some (pre @ Serialize_CBlock b' @ rest')" using f by (auto simp: files')
  then show "stored files' f p b'" using st f(2) unfolding stored_def by blast
qed

lemma stored_read:
  assumes "stored files nFile nBlockPos b" and "block_fits b"
  shows "ReadBlockFromDisk lib f files nFile nBlockPos True =
    (if IsProofOfWork b \<and> \<not> CheckProofOfWork lib f 0 (blk_nBits b) then None else Some b)"
proof -
  obtain pre rest where "nFile \<noteq> - 1" "files nFile = Some (pre @ Serialize_CBlock b @ rest)" "length pre = unat nBlockPos"
    using assms(1) by (auto simp: stored_def)
  then have "OpenBlockFile files nFile nBlockPos = Some (Serialize_CBlock b @ rest)" by (simp add: OpenBlockFile_def)
  then show ?thesis using block.dec_enc [OF assms(2)] by (simp add: ReadBlockFromDisk_def)
qed

lemma length_header_bytes: "length (header_bytes b) = 80"
  by (simp add: header_bytes_def)

text \<open>The positions that \<^verbatim>\<open>ConnectBlock\<close> counts are those of the transactions in the file.\<close>

lemma stored_tx:
  assumes "stored files (bi_nFile p) (bi_nBlockPos p) b" and "list_all tx_fits (vtx b)" and "vtx b = txs1 @ tx # txs2"
  shows "ReadTxFromDisk files \<lparr> pos_nFile = bi_nFile p, pos_nBlockPos = x,
      pos_nTxPos = first_tx_pos b p + of_nat (length (concat (map tx_bytes txs1))) \<rparr> = Some tx"
    and "unat (first_tx_pos b p + of_nat (length (concat (map tx_bytes txs1)))) > 1"
proof -
  let ?cs = "WriteCompactSize (size_word (vtx b))"
  obtain pre rest where f: "bi_nFile p \<noteq> - 1" "files (bi_nFile p) = Some (pre @ Serialize_CBlock b @ rest)"
    "length pre = unat (bi_nBlockPos p)" "unat (bi_nBlockPos p) + length (Serialize_CBlock b) < 2 ^ 32"
    using assms(1) by (auto simp: stored_def)
  let ?before = "pre @ header_bytes b @ ?cs @ concat (map tx_bytes txs1)"
  have split: "pre @ Serialize_CBlock b @ rest =
      ?before @ tx_bytes tx @ concat (map tx_bytes txs2) @ Serialize_vector_bytes (vchBlockSig b) @ rest"
    by (simp add: Serialize_CBlock_def Serialize_vector_def assms(3))
  have "length (Serialize_CBlock CBlock_SetNull) = 82"
    by (simp add: Serialize_CBlock_def length_header_bytes CBlock_SetNull_def Serialize_vector_def Serialize_vector_bytes_def
        length_WriteCompactSize GetSizeOfCompactSize_def size_word_def)
  then have "first_tx_pos b p + of_nat (length (concat (map tx_bytes txs1))) = of_nat (length ?before)"
    by (simp add: first_tx_pos_def f(3) length_header_bytes length_WriteCompactSize GetSizeOfCompactSize_def [of 0])
  moreover have "length ?before < 2 ^ 32"
    using f(3,4) by (simp add: Serialize_CBlock_def Serialize_vector_def assms(3))
  ultimately have u: "unat (first_tx_pos b p + of_nat (length (concat (map tx_bytes txs1)))) = length ?before"
    by (simp only: unat_of_nat32)
  then show "unat (first_tx_pos b p + of_nat (length (concat (map tx_bytes txs1)))) > 1" by (simp add: length_header_bytes)
  have "tx_fits tx" using assms(2,3) by simp
  have "drop (length ?before) (pre @ Serialize_CBlock b @ rest) =
      tx_bytes tx @ concat (map tx_bytes txs2) @ Serialize_vector_bytes (vchBlockSig b) @ rest" unfolding split by simp
  then show "ReadTxFromDisk files \<lparr> pos_nFile = bi_nFile p, pos_nBlockPos = x,
      pos_nTxPos = first_tx_pos b p + of_nat (length (concat (map tx_bytes txs1))) \<rparr> = Some tx"
    using f(1,2) tx.dec_enc [OF \<open>tx_fits tx\<close>] by (simp add: ReadTxFromDisk_def OpenBlockFile_def u)
qed

section \<open>The index points at the transactions\<close>

text \<open>An index entry of a transaction that stands in one of the blocks on disk; a block comes with its file and position.\<close>

type_synonym disk_blocks = "(uint32 \<times> uint32 \<times> CBlock) set"

definition entry_true :: "'a openssl_scheme \<Rightarrow> disk_blocks \<Rightarrow> uint256 \<Rightarrow> CTxIndex \<Rightarrow> bool" where
  "entry_true lib B h ix \<longleftrightarrow> (\<exists>p b txs1 tx txs2. (bi_nFile p, bi_nBlockPos p, b) \<in> B \<and> vtx b = txs1 @ tx # txs2 \<and>
     ix_pos ix = \<lparr> pos_nFile = bi_nFile p, pos_nBlockPos = bi_nBlockPos p,
                   pos_nTxPos = first_tx_pos b p + of_nat (length (concat (map tx_bytes txs1))) \<rparr> \<and>
     tx_hash lib tx = h \<and> length (vSpent ix) = length (vout tx))"

definition index_true :: "'a openssl_scheme \<Rightarrow> disk_blocks \<Rightarrow> (uint256 \<rightharpoonup> CTxIndex) \<Rightarrow> bool" where
  "index_true lib B m \<longleftrightarrow> (\<forall>h ix. m h = Some ix \<longrightarrow> entry_true lib B h ix)"

lemma index_true_empty: "index_true lib B Map.empty"
  by (simp add: index_true_def)

lemma index_true_mono: "index_true lib B m \<Longrightarrow> B \<subseteq> B' \<Longrightarrow> index_true lib B' m"
  unfolding index_true_def entry_true_def by blast

lemma entry_true_marked [simp]: "entry_true lib B h (marked pos ins h' ix) = entry_true lib B h ix"
  by (simp add: entry_true_def)

lemma entry_true_spent: "length v = length (vSpent ix) \<Longrightarrow> entry_true lib B h (ix\<lparr> vSpent := v \<rparr>) = entry_true lib B h ix"
  by (simp add: entry_true_def)

lemma connect_tx_view:
  assumes "connect_tx lib env db pindex blockHash tx s = Inr s'" and "bi_nFile (hd pindex) \<noteq> - 1"
  defines "pos \<equiv> \<lparr> pos_nFile = bi_nFile (hd pindex), pos_nBlockPos = bi_nBlockPos (hd pindex), pos_nTxPos = cs_nTxPos s \<rparr>"
  shows "index_view db (mapQueuedChanges s') = (\<lambda>h. map_option (marked pos (spending tx) h) (index_view db (mapQueuedChanges s) h))
      (tx_hash lib tx \<mapsto> CTxIndex_new pos (length (vout tx)))"
    and "cs_nTxPos s' = cs_nTxPos s + of_nat (length (tx_bytes tx))"
proof -
  have nn: "\<not> CDiskTxPos_IsNull pos" using assms(2) by (simp add: CDiskTxPos_IsNull_def pos_def)
  show "cs_nTxPos s' = cs_nTxPos s + of_nat (length (tx_bytes tx))"
    using assms(1) by (auto simp: connect_tx_def connect_spend_def Let_def
        split: if_split_asm option.split_asm sum.split_asm prod.split_asm answer.split_asm)
  show "index_view db (mapQueuedChanges s') = (\<lambda>h. map_option (marked pos (spending tx) h) (index_view db (mapQueuedChanges s) h))
      (tx_hash lib tx \<mapsto> CTxIndex_new pos (length (vout tx)))"
  proof (cases "IsCoinBase tx")
    case True
    then have "mapQueuedChanges s' = (mapQueuedChanges s)(tx_hash lib tx \<mapsto> CTxIndex_new pos (length (vout tx)))"
      using assms(1) by (auto simp: connect_tx_def Let_def pos_def split: if_split_asm option.split_asm)
    then show ?thesis using True by (simp add: spending_def option.map_id0 marked_Nil_id)
  next
    case False
    obtain inputs pool c c' nM nAge skip where f: "FetchInputs db (mapQueuedChanges s) (env_mempool env) True tx = Inr inputs"
      and ci: "ConnectInputs lib db nM nAge skip True pindex pos tx inputs (mapQueuedChanges s) c = Inr (pool, c')"
      and s': "mapQueuedChanges s' = pool(tx_hash lib tx \<mapsto> CTxIndex_new pos (length (vout tx)))"
      using assms(1) False unfolding pos_def
      by (auto simp: connect_tx_def connect_spend_def Let_def split: if_split_asm option.split_asm sum.split_asm prod.split_asm answer.split_asm)
    show ?thesis using ConnectInputs_view(1) [OF f ci nn] False by (simp add: s' spending_def)
  qed
qed

lemma connect_txs_true:
  assumes "connect_txs lib env db pindex blockHash txs2 s = Inr s'" and "bi_nFile (hd pindex) \<noteq> - 1"
    and "(bi_nFile (hd pindex), bi_nBlockPos (hd pindex), b) \<in> B" and "vtx b = txs1 @ txs2"
    and "cs_nTxPos s = first_tx_pos b (hd pindex) + of_nat (length (concat (map tx_bytes txs1)))"
    and "index_true lib B (index_view db (mapQueuedChanges s))"
  shows "index_true lib B (index_view db (mapQueuedChanges s'))"
  using assms(1,4-6)
proof (induction txs2 arbitrary: txs1 s)
  case Nil
  then show ?case by simp
next
  case (Cons tx txs2)
  let ?pos = "\<lparr> pos_nFile = bi_nFile (hd pindex), pos_nBlockPos = bi_nBlockPos (hd pindex), pos_nTxPos = cs_nTxPos s \<rparr>"
  obtain t where t: "connect_tx lib env db pindex blockHash tx s = Inr t" and r: "connect_txs lib env db pindex blockHash txs2 t = Inr s'"
    using Cons.prems(1) by (auto split: sum.split_asm)
  note view = connect_tx_view [OF t assms(2)]
  have "entry_true lib B (tx_hash lib tx) (CTxIndex_new ?pos (length (vout tx)))"
    unfolding entry_true_def
  proof (intro exI conjI)
    show "(bi_nFile (hd pindex), bi_nBlockPos (hd pindex), b) \<in> B" by (rule assms(3))
    show "vtx b = txs1 @ tx # txs2" by (rule Cons.prems(2))
  qed (simp_all add: CTxIndex_new_def Cons.prems(3))
  then have "index_true lib B (index_view db (mapQueuedChanges t))"
    using Cons.prems(4) by (auto simp: view(1) index_true_def)
  then show ?case using Cons.IH [OF r, of "txs1 @ [tx]"] Cons.prems(2,3) view(2) by (simp add: algebra_simps)
qed

lemma ConnectBlock_true:
  assumes "ConnectBlock lib env pindex b db m store c = Inr (p, db', m', store', c')" and "bi_nFile (hd pindex) \<noteq> - 1"
    and "(bi_nFile (hd pindex), bi_nBlockPos (hd pindex), b) \<in> B" and "index_true lib B (mapTxIndex db)"
  shows "index_true lib B (mapTxIndex db')"
proof -
  obtain s where cn: "connect_txs lib env db pindex (GetIDHash lib b) (vtx b)
           \<lparr> cs_nTxPos = first_tx_pos b (hd pindex), mapQueuedChanges = Map.empty, cs_nFees = 0, cs_nValueIn = 0,
             cs_nValueOut = 0, cs_nSigOps = 0, cs_nTx = 0, cs_store = store, cs_cache = c \<rparr> = Inr s"
    and db': "db' = view_db db (mapQueuedChanges s)"
    by (rule ConnectBlock_Inr [OF assms(1)])
  show ?thesis using connect_txs_true [OF cn assms(2,3), of "[]"] assms(4) by (simp add: db' index_view_def)
qed

lemma unspend_loop_true:
  "unspend_loop ins db = Some db' \<Longrightarrow> index_true lib B (mapTxIndex db) \<Longrightarrow> index_true lib B (mapTxIndex db')"
proof (induction ins db rule: unspend_loop.induct)
  case (2 txin ins db)
  let ?h = "op_hash (prevout txin)" and ?n = "unat (op_n (prevout txin))"
  obtain ix where ix: "mapTxIndex db ?h = Some ix" and n: "?n < length (vSpent ix)"
    and r: "unspend_loop ins (UpdateTxIndex ?h (ix\<lparr> vSpent := (vSpent ix)[?n := CDiskTxPos_SetNull] \<rparr>) db) = Some db'"
    using "2.prems"(1) by (auto simp: Let_def ReadTxIndex_def split: option.split_asm if_split_asm)
  have "index_true lib B (mapTxIndex (UpdateTxIndex ?h (ix\<lparr> vSpent := (vSpent ix)[?n := CDiskTxPos_SetNull] \<rparr>) db))"
    using "2.prems"(2) ix by (simp add: index_true_def UpdateTxIndex_def entry_true_spent)
  then show ?case using "2.IH" [OF refl refl _ _ r] ix n by (simp add: ReadTxIndex_def)
qed simp

lemma disconnect_txs_true:
  "disconnect_txs lib f txs db s = Some (db', s') \<Longrightarrow> index_true lib B (mapTxIndex db) \<Longrightarrow> index_true lib B (mapTxIndex db')"
proof (induction txs arbitrary: db s)
  case (Cons tx txs)
  obtain db1 s1 where d: "DisconnectInputs (tx_hash lib tx) tx db = Some db1" and r: "disconnect_txs lib f txs db1 s1 = Some (db', s')"
    using Cons.prems(1) by (auto split: option.split_asm prod.split_asm answer.split_asm)
  obtain db0 where "(if IsCoinBase tx then Some db else unspend_loop (vin tx) db) = Some db0" "db1 = EraseTxIndex (tx_hash lib tx) db0"
    using d by (auto simp: DisconnectInputs_def split: option.split_asm)
  then have "index_true lib B (mapTxIndex db0)" using Cons.prems(2) unspend_loop_true by (auto split: if_split_asm)
  then have "index_true lib B (mapTxIndex db1)" by (simp add: \<open>db1 = _\<close> EraseTxIndex_def index_true_def)
  then show ?case using Cons.IH [OF r] by simp
qed simp

lemma DisconnectBlock_true:
  "DisconnectBlock lib f pindex b db m s = Some (db', m', s') \<Longrightarrow> index_true lib B (mapTxIndex db) \<Longrightarrow> index_true lib B (mapTxIndex db')"
  by (auto simp: DisconnectBlock_def split: option.split_asm prod.split_asm intro: disconnect_txs_true)

text \<open>
  What a node does with its files and its index: it writes blocks, and it connects and disconnects
  blocks it has written, each at the place where it was written.
\<close>

inductive disk_run :: "'a openssl_scheme \<Rightarrow> bool \<Rightarrow> block_files \<Rightarrow> disk_blocks \<Rightarrow> (uint256 \<rightharpoonup> CTxIndex) \<Rightarrow> bool"
  for lib fTestNet where
  start: "disk_run lib fTestNet Map.empty {} Map.empty"
| put: "disk_run lib fTestNet files B m \<Longrightarrow> block_fits b \<Longrightarrow> length (Serialize_CBlock b) \<le> MAX_BLOCK_SIZE \<Longrightarrow>
    WriteToDisk fTestNet b files cur = Some (nFile, nBlockPos, files') \<Longrightarrow>
    disk_run lib fTestNet files' (insert (nFile, nBlockPos, b) B) m"
| connect: "disk_run lib fTestNet files B m \<Longrightarrow> (bi_nFile (hd pindex), bi_nBlockPos (hd pindex), b) \<in> B \<Longrightarrow>
    ConnectBlock lib env pindex b (db_over lib fTestNet files m) bm store c = Inr (p, db', bm', store', c') \<Longrightarrow>
    disk_run lib fTestNet files B (mapTxIndex db')"
| disconnect: "disk_run lib fTestNet files B m \<Longrightarrow>
    DisconnectBlock lib fTestNet pindex b (db_over lib fTestNet files m) bm store = Some (db', bm', store') \<Longrightarrow>
    disk_run lib fTestNet files B (mapTxIndex db')"

lemma disk_run_inv:
  assumes "disk_run lib fTestNet files B m"
  shows "index_true lib B m \<and> (\<forall>(nFile, nBlockPos, b)\<in>B. stored files nFile nBlockPos b \<and> block_fits b)"
  using assms
proof induction
  case start
  show ?case by (simp add: index_true_empty)
next
  case (put files B m b cur nFile nBlockPos files')
  then show ?case using WriteToDisk_stored [OF put.hyps(4,3)] index_true_mono [of lib B m "insert (nFile, nBlockPos, b) B"] by auto
next
  case (connect files B m pindex b env bm store c p db' bm' store' c')
  then have "bi_nFile (hd pindex) \<noteq> - 1" by (auto simp: stored_def)
  then show ?case using ConnectBlock_true [OF connect.hyps(3) _ connect.hyps(2)] connect.IH by (simp add: db_over_def)
next
  case (disconnect files B m pindex b bm store db' bm' store')
  then show ?case using DisconnectBlock_true [OF disconnect.hyps(2)] by (simp add: db_over_def)
qed

lemma fetch_loop_hash:
  assumes "fetch_loop db pool mem True inputs ins = Some inputs'"
    and "\<And>h ix. index_view db pool h = Some ix \<Longrightarrow> ix_pos ix \<noteq> pos_mempool \<and> (\<exists>tx. disk_tx db (ix_pos ix) = Some tx \<and> tx_hash lib tx = h)"
    and "\<And>h ix prev. inputs h = Some (ix, prev) \<Longrightarrow> tx_hash lib prev = h"
  shows "inputs' h = Some (ix, prev) \<Longrightarrow> tx_hash lib prev = h"
  using assms(1,3)
proof (induction ins arbitrary: inputs)
  case (Cons txin ins)
  let ?h = "op_hash (prevout txin)"
  show ?case
  proof (cases "inputs ?h")
    case None
    obtain ix1 where ix1: "index_view db pool ?h = Some ix1"
      and r: "(case (if ix_pos ix1 = pos_mempool then mem ?h else disk_tx db (ix_pos ix1)) of
                 None \<Rightarrow> None | Some txPrev \<Rightarrow> fetch_loop db pool mem True (inputs(?h \<mapsto> (ix1, txPrev))) ins) = Some inputs'"
      using Cons.prems(2) None
      by (cases "pool ?h") (auto simp: Let_def index_view_def ReadTxIndex_def map_add_def split: option.split_asm if_split_asm)
    obtain tx where tx: "disk_tx db (ix_pos ix1) = Some tx" "tx_hash lib tx = ?h" "ix_pos ix1 \<noteq> pos_mempool" using assms(2) [OF ix1] by blast
    then have "fetch_loop db pool mem True (inputs(?h \<mapsto> (ix1, tx))) ins = Some inputs'" using r by simp
    then show ?thesis by (rule Cons.IH [OF Cons.prems(1)]) (use Cons.prems(3) tx in \<open>auto split: if_split_asm\<close>)
  next
    case (Some a)
    then show ?thesis using Cons by (simp add: Let_def)
  qed
qed auto


text \<open>The block of the ledger, written to an empty disk and connected.\<close>

lemma demo_block_fits: "block_fits demo_cblock"
  using demo_tx_fits by (simp add: block_fits_def demo_cblock_def demo_coinbase_def tx_fits_def demo_tx_def txin_fits_def txout_fits_def MAX_SIZE_def)

lemma demo_ConnectBlock_at:
  assumes "mapTxIndex db = Map.empty"
  shows "\<exists>p' db' m' store' c'. ConnectBlock demo_lib demo_connect_env [p] demo_cblock db Map.empty Store_Initialize no_cache =
     Inr (p', db', m', store', c') \<and> mapTxIndex db' 32 \<noteq> None"
proof -
  have v: "vtx demo_cblock = [demo_coinbase]" by (simp add: demo_cblock_def)
  have w: "IsProofOfWork demo_cblock" by (simp add: IsProofOfWork_def IsProofOfStake_def v)
  show ?thesis
    using w demo_sigops demo_coinbase_is(1,2) assms
    by (simp add: ConnectBlock_def demo_env_truncate demo_CheckBlock IsProofOfWork_def v overwrites_def ReadTxIndex_def connect_tx_def Let_def
        GetNextProofOfWorkReward_def COIN_def i64_id MAX_BLOCK_SIGOPS_def tx_hash_def demo_Hash)
qed


end
