(* ===== verification/Mempool.thy ===== *)
theory Mempool
  imports BlockConnect
begin

text \<open>
  Transactions that are not in a block: the memory pool \<^verbatim>\<open>CTxMemPool\<close> with its acceptance checks, and the
  orphan transactions whose inputs are not known yet, both of \<^verbatim>\<open>src/src/main.cpp\<close>. The pointer a \<^verbatim>\<open>CInPoint\<close> keeps
  to a transaction of the pool is the hash under which the pool has it.
\<close>

section \<open>The pool\<close>

record CInPoint =
  ptx :: uint256
  in_n :: nat

record CTxMemPool =
  mapTx :: "uint256 \<rightharpoonup> CTransaction"
  mapNextTx :: "COutPoint \<rightharpoonup> CInPoint"
  nTransactionsUpdated :: uint32

definition pool_init :: CTxMemPool where
  "pool_init = \<lparr> mapTx = Map.empty, mapNextTx = Map.empty, nTransactionsUpdated = 0 \<rparr>"

definition pool_exists :: "CTxMemPool \<Rightarrow> uint256 \<Rightarrow> bool" where
  "pool_exists mp hash = (mapTx mp hash \<noteq> None)"

fun add_points :: "uint256 \<Rightarrow> nat \<Rightarrow> CTxIn list \<Rightarrow> (COutPoint \<rightharpoonup> CInPoint) \<Rightarrow> (COutPoint \<rightharpoonup> CInPoint)" where
  "add_points hash i [] m = m"
| "add_points hash i (txin # ins) m = add_points hash (Suc i) ins (m(prevout txin \<mapsto> \<lparr> ptx = hash, in_n = i \<rparr>))"

definition addUnchecked :: "'a openssl_scheme \<Rightarrow> CTransaction \<Rightarrow> CTxMemPool \<Rightarrow> CTxMemPool" where
  "addUnchecked lib tx mp =
     (let hash = tx_hash lib tx in
      \<lparr> mapTx = (mapTx mp)(hash \<mapsto> tx), mapNextTx = add_points hash 0 (vin tx) (mapNextTx mp),
        nTransactionsUpdated = nTransactionsUpdated mp + 1 \<rparr>)"

definition pool_remove :: "'a openssl_scheme \<Rightarrow> CTransaction \<Rightarrow> CTxMemPool \<Rightarrow> CTxMemPool" where
  "pool_remove lib tx mp =
     (let hash = tx_hash lib tx in
      if mapTx mp hash \<noteq> None
      then \<lparr> mapTx = (mapTx mp)(hash := None), mapNextTx = foldl (\<lambda>m txin. m(prevout txin := None)) (mapNextTx mp) (vin tx),
             nTransactionsUpdated = nTransactionsUpdated mp + 1 \<rparr>
      else mp)"

section \<open>Acceptance\<close>

text \<open>
  Accepted, or refused with a penalty and whether inputs are missing, or an exception. \<open>limited\<close> is the
  verdict of the rate limiter on a free transaction.
\<close>

datatype accept_result = Acc | Refused nat bool | Raised

definition checkAccept ::
  "'a openssl_scheme \<Rightarrow> connect_env \<Rightarrow> chain \<Rightarrow> bool \<Rightarrow> CTxDB \<Rightarrow> CTxInfoStore \<Rightarrow> CTxMemPool \<Rightarrow> bool \<Rightarrow> CTransaction \<Rightarrow>
     sig_cache \<Rightarrow> accept_result" where
  "checkAccept lib env pindexBest limited db store mp fCheckInputs tx c =
     (case CheckTransaction tx of
        Rejected n \<Rightarrow> Refused n False
      | Accepted \<Rightarrow>
          if IsCoinBase tx then Refused 100 False
          else if IsCoinStake tx then Refused 100 False
          else if uint (nLockTime tx) > 2147483647 then Refused 0 False
          else if \<not> env_fTestNet env \<and> \<not> CTransaction_IsStandard tx then Refused 0 False
          else if mapTx mp (tx_hash lib tx) \<noteq> None then Refused 0 False
          else if fCheckInputs \<and> ReadTxIndex db (tx_hash lib tx) \<noteq> None then Refused 0 False
          else if list_ex (\<lambda>txin. mapNextTx mp (prevout txin) \<noteq> None) (vin tx) then Refused 0 False
          else if \<not> fCheckInputs then Acc
          else case FetchInputs db Map.empty (mapTx mp) False tx of
            Inl fInvalid \<Rightarrow> Refused (if fInvalid then 100 else 0) (\<not> fInvalid)
          | Inr inputs \<Rightarrow>
              (case AreInputsStandard lib tx inputs c of
                 (None, _) \<Rightarrow> Raised
               | (Some std, c) \<Rightarrow>
                   if \<not> std \<and> \<not> env_fTestNet env then Refused 0 False
                   else case (GetValueIn tx inputs, GetValueOut tx) of
                     (Some nIn, Some nOut) \<Rightarrow>
                       let nFees = sint (nIn - nOut) in
                       if nFees < GetMinFee 1000 GMF_RELAY tx then Refused 0 False
                       else if nFees < MIN_RELAY_TX_FEE \<and> limited then Refused 0 False
                       else case ConnectInputs lib db (env_nCoinbaseMaturity env) (env_nStakeMinAge env) False False pindexBest
                                   \<lparr> pos_nFile = 1, pos_nBlockPos = 1, pos_nTxPos = 1 \<rparr> tx inputs Map.empty c of
                         Inl (Failure n) \<Rightarrow> Refused n False
                       | Inl _ \<Rightarrow> Raised
                       | Inr _ \<Rightarrow>
                           (case BeginTransaction store of
                              (Yes, store) \<Rightarrow>
                                (case ProcessTxInfos lib (env_fTestNet env) db 0 (- 1) tx store of
                                   (Yes, _) \<Rightarrow> Acc
                                 | (No _, _) \<Rightarrow> Refused 0 False
                                 | (Throws _, _) \<Rightarrow> Raised)
                            | _ \<Rightarrow> Raised)
                   | _ \<Rightarrow> Raised))"

definition pool_accept ::
  "'a openssl_scheme \<Rightarrow> connect_env \<Rightarrow> chain \<Rightarrow> bool \<Rightarrow> CTxDB \<Rightarrow> CTxInfoStore \<Rightarrow> bool \<Rightarrow> CTransaction \<Rightarrow> sig_cache \<Rightarrow>
     CTxMemPool \<Rightarrow> accept_result \<times> CTxMemPool" where
  "pool_accept lib env pindexBest limited db store fCheckInputs tx c mp =
     (case checkAccept lib env pindexBest limited db store mp fCheckInputs tx c of
        Acc \<Rightarrow> (Acc, addUnchecked lib tx mp)
      | r \<Rightarrow> (r, mp))"

section \<open>Orphan transactions\<close>

text \<open>
  The two maps of orphans. A \<^verbatim>\<open>std::map\<close> is the list of its entries in the order of the keys. The second
  one has, for every transaction that an orphan waits for, the hashes of the orphans.
\<close>

type_synonym 'v omap = "(uint256 \<times> 'v) list"

record orphans =
  mapOrphanTransactions :: "bytes omap"
  mapOrphanTransactionsByPrev :: "uint256 \<rightharpoonup> bytes omap"

fun omap_insert :: "uint256 \<Rightarrow> 'v \<Rightarrow> 'v omap \<Rightarrow> 'v omap" where
  "omap_insert k v [] = [(k, v)]"
| "omap_insert k v ((k', v') # m) =
     (if k < k' then (k, v) # (k', v') # m else if k = k' then (k, v) # m else (k', v') # omap_insert k v m)"

definition omap_erase :: "uint256 \<Rightarrow> 'v omap \<Rightarrow> 'v omap" where
  "omap_erase k m = filter (\<lambda>e. fst e \<noteq> k) m"

definition by_prev_insert :: "uint256 \<Rightarrow> bytes \<Rightarrow> (uint256 \<rightharpoonup> bytes omap) \<Rightarrow> CTxIn \<Rightarrow> (uint256 \<rightharpoonup> bytes omap)" where
  "by_prev_insert hash msg m txin =
     (let p = op_hash (prevout txin); row = (case m p of None \<Rightarrow> [] | Some r \<Rightarrow> r)
      in m(p \<mapsto> (if map_of row hash = None then omap_insert hash msg row else row)))"

definition by_prev_erase :: "uint256 \<Rightarrow> (uint256 \<rightharpoonup> bytes omap) \<Rightarrow> CTxIn \<Rightarrow> (uint256 \<rightharpoonup> bytes omap)" where
  "by_prev_erase hash m txin =
     (let p = op_hash (prevout txin); row = omap_erase hash (case m p of None \<Rightarrow> [] | Some r \<Rightarrow> r)
      in if row = [] then m(p := None) else m(p \<mapsto> row))"

text \<open>\<open>None\<close> is the exception of a message that does not hold a transaction.\<close>

definition AddOrphanTx :: "'a openssl_scheme \<Rightarrow> bytes \<Rightarrow> orphans \<Rightarrow> (bool \<times> orphans) option" where
  "AddOrphanTx lib vMsg st =
     (case Unserialize_CTransaction vMsg of
        None \<Rightarrow> None
      | Some (tx, _) \<Rightarrow>
          let hash = tx_hash lib tx in
          if map_of (mapOrphanTransactions st) hash \<noteq> None then Some (False, st)
          else if length vMsg > 5000 then Some (False, st)
          else Some (True, \<lparr> mapOrphanTransactions = omap_insert hash vMsg (mapOrphanTransactions st),
                            mapOrphanTransactionsByPrev =
                              foldl (by_prev_insert hash vMsg) (mapOrphanTransactionsByPrev st) (vin tx) \<rparr>))"

definition EraseOrphanTx :: "uint256 \<Rightarrow> orphans \<Rightarrow> orphans option" where
  "EraseOrphanTx hash st =
     (case map_of (mapOrphanTransactions st) hash of
        None \<Rightarrow> Some st
      | Some msg \<Rightarrow>
          (case Unserialize_CTransaction msg of
             None \<Rightarrow> None
           | Some (tx, _) \<Rightarrow>
               Some \<lparr> mapOrphanTransactions = omap_erase hash (mapOrphanTransactions st),
                      mapOrphanTransactionsByPrev = foldl (by_prev_erase hash) (mapOrphanTransactionsByPrev st) (vin tx) \<rparr>))"

definition lower_bound :: "uint256 \<Rightarrow> 'v omap \<Rightarrow> 'v omap" where
  "lower_bound k m = dropWhile (\<lambda>e. fst e < k) m"

text \<open>The victim of an eviction: the first orphan from a random hash on, or the first of all.\<close>

definition victim :: "uint256 \<Rightarrow> 'v omap \<Rightarrow> uint256" where
  "victim r m = (case lower_bound r m of [] \<Rightarrow> fst (hd m) | e # _ \<Rightarrow> fst e)"

lemma victim_in:
  assumes "m \<noteq> []"
  shows "victim r m \<in> fst ` set m"
proof (cases "lower_bound r m")
  case Nil
  then show ?thesis using assms by (simp add: victim_def)
next
  case (Cons e es)
  then have "e \<in> set m" unfolding lower_bound_def by (metis list.set_intros(1) set_dropWhileD)
  then show ?thesis by (simp add: victim_def Cons)
qed

lemma EraseOrphanTx_shorter:
  assumes "EraseOrphanTx h st = Some st'" and "h \<in> fst ` set (mapOrphanTransactions st)"
  shows "length (mapOrphanTransactions st') < length (mapOrphanTransactions st)"
proof -
  have "map_of (mapOrphanTransactions st) h \<noteq> None" using assms(2) by (simp add: map_of_eq_None_iff)
  then have "mapOrphanTransactions st' = omap_erase h (mapOrphanTransactions st)"
    using assms(1) by (auto simp: EraseOrphanTx_def split: option.split_asm)
  then show ?thesis using assms(2) by (auto simp: omap_erase_def intro: length_filter_less)
qed

text \<open>\<open>rnd n\<close> is the n-th random hash drawn.\<close>

function limit_loop :: "nat \<Rightarrow> (nat \<Rightarrow> uint256) \<Rightarrow> nat \<Rightarrow> orphans \<Rightarrow> (nat \<times> orphans) option" where
  "limit_loop nMaxOrphans rnd nEvicted st =
     (if length (mapOrphanTransactions st) > nMaxOrphans then
        (case EraseOrphanTx (victim (rnd nEvicted) (mapOrphanTransactions st)) st of
           None \<Rightarrow> None
         | Some st' \<Rightarrow> limit_loop nMaxOrphans rnd (Suc nEvicted) st')
      else Some (nEvicted, st))"
  by pat_completeness auto
termination
proof (relation "measure (\<lambda>(m, rnd, n, st). length (mapOrphanTransactions st))", goal_cases)
  case (2 m rnd n st st')
  have "mapOrphanTransactions st \<noteq> []" using 2(1) by auto
  then show ?case using EraseOrphanTx_shorter [OF 2(2) victim_in] by simp
qed simp

declare limit_loop.simps [simp del]

definition LimitOrphanTxSize :: "nat \<Rightarrow> (nat \<Rightarrow> uint256) \<Rightarrow> orphans \<Rightarrow> (nat \<times> orphans) option" where
  "LimitOrphanTxSize nMaxOrphans rnd st = limit_loop nMaxOrphans rnd 0 st"

section \<open>The pool has no conflicts\<close>

lemma add_points_other: "out \<notin> prevout ` set ins \<Longrightarrow> add_points hash i ins m out = m out"
  by (induction hash i ins m rule: add_points.induct) auto

lemma add_points_nth:
  "distinct (map prevout ins) \<Longrightarrow> j < length ins \<Longrightarrow> add_points hash i ins m (prevout (ins ! j)) = Some \<lparr> ptx = hash, in_n = i + j \<rparr>"
proof (induction ins arbitrary: i m j)
  case (Cons txin ins)
  show ?case
  proof (cases j)
    case 0
    have "prevout txin \<notin> prevout ` set ins" using Cons.prems(1) by simp
    then show ?thesis using 0 by (simp add: add_points_other)
  next
    case (Suc k)
    have "add_points hash (Suc i) ins (m(prevout txin \<mapsto> \<lparr> ptx = hash, in_n = i \<rparr>)) (prevout (ins ! k)) =
        Some \<lparr> ptx = hash, in_n = Suc i + k \<rparr>"
      by (rule Cons.IH) (use Cons.prems Suc in simp_all)
    then show ?thesis using Suc by (simp del: fun_upd_apply)
  qed
qed simp

lemma erase_points: "foldl (\<lambda>m txin. m(prevout txin := None)) m ins out = (if out \<in> prevout ` set ins then None else m out)"
  by (induction ins arbitrary: m) auto

text \<open>Every transaction is under its hash, and \<^verbatim>\<open>mapNextTx\<close> has exactly the inputs of the transactions of the pool.\<close>

definition pool_ok :: "'a openssl_scheme \<Rightarrow> CTxMemPool \<Rightarrow> bool" where
  "pool_ok lib mp \<longleftrightarrow> (\<forall>h tx. mapTx mp h = Some tx \<longrightarrow> tx_hash lib tx = h) \<and>
     (\<forall>out h i. mapNextTx mp out = Some \<lparr> ptx = h, in_n = i \<rparr> \<longleftrightarrow>
        (\<exists>tx. mapTx mp h = Some tx \<and> i < length (vin tx) \<and> prevout (vin tx ! i) = out))"

lemma pool_ok_next:
  "pool_ok lib mp \<Longrightarrow> mapTx mp h = Some tx \<Longrightarrow> i < length (vin tx) \<Longrightarrow> mapNextTx mp (prevout (vin tx ! i)) = Some \<lparr> ptx = h, in_n = i \<rparr>"
  by (auto simp: pool_ok_def)

lemma pool_ok_points:
  "pool_ok lib mp \<Longrightarrow> mapNextTx mp out = Some \<lparr> ptx = h, in_n = i \<rparr> \<longleftrightarrow>
     (\<exists>tx. mapTx mp h = Some tx \<and> i < length (vin tx) \<and> prevout (vin tx ! i) = out)"
  unfolding pool_ok_def by blast

lemma pool_ok_init: "pool_ok lib pool_init"
  by (simp add: pool_ok_def pool_init_def)

lemma addUnchecked_ok:
  assumes "pool_ok lib mp" and "distinct (map prevout (vin tx))" and "mapTx mp (tx_hash lib tx) = None"
    and "\<forall>txin\<in>set (vin tx). mapNextTx mp (prevout txin) = None"
  shows "pool_ok lib (addUnchecked lib tx mp)"
proof -
  let ?h = "tx_hash lib tx" and ?next = "mapNextTx (addUnchecked lib tx mp)"
  have new: "?next (prevout (vin tx ! j)) = Some \<lparr> ptx = ?h, in_n = j \<rparr>" if "j < length (vin tx)" for j
    using add_points_nth [OF assms(2) that] by (simp add: addUnchecked_def Let_def)
  have old: "?next out = mapNextTx mp out" if "out \<notin> prevout ` set (vin tx)" for out
    using that by (simp add: addUnchecked_def Let_def add_points_other)
  have "?next out = Some \<lparr> ptx = h, in_n = i \<rparr> \<longleftrightarrow>
      (\<exists>t. mapTx (addUnchecked lib tx mp) h = Some t \<and> i < length (vin t) \<and> prevout (vin t ! i) = out)" for out h i
  proof (cases "out \<in> prevout ` set (vin tx)")
    case True
    then obtain j where j: "j < length (vin tx)" "out = prevout (vin tx ! j)" by (auto simp: in_set_conv_nth)
    have "\<not> (\<exists>t. h \<noteq> ?h \<and> mapTx mp h = Some t \<and> i < length (vin t) \<and> prevout (vin t ! i) = out)"
      using pool_ok_next [OF assms(1)] assms(4) j nth_mem [OF j(1)] by fastforce
    moreover have "i = j" if "i < length (vin tx)" "prevout (vin tx ! i) = out"
      using assms(2) that j by (auto simp: distinct_conv_nth)
    ultimately show ?thesis using new [OF j(1)] j by (auto simp: addUnchecked_def Let_def)
  next
    case False
    then have "\<not> (i < length (vin tx) \<and> prevout (vin tx ! i) = out)" by (metis imageI nth_mem)
    then show ?thesis using old [OF False] assms(1,3) by (auto simp: addUnchecked_def Let_def pool_ok_def)
  qed
  then show ?thesis using assms(1) unfolding pool_ok_def by (auto simp: addUnchecked_def Let_def)
qed

lemma pool_remove_ok:
  assumes "pool_ok lib mp" and "mapTx mp (tx_hash lib tx) = None \<or> mapTx mp (tx_hash lib tx) = Some tx"
  shows "pool_ok lib (pool_remove lib tx mp)"
proof (cases "mapTx mp (tx_hash lib tx)")
  case None
  then show ?thesis using assms(1) by (simp add: pool_remove_def Let_def)
next
  case (Some t)
  then have m: "mapTx mp (tx_hash lib tx) = Some tx" using assms(2) by auto
  let ?h = "tx_hash lib tx"
  have "mapNextTx (pool_remove lib tx mp) out = Some \<lparr> ptx = h, in_n = i \<rparr> \<longleftrightarrow>
      (\<exists>t. mapTx (pool_remove lib tx mp) h = Some t \<and> i < length (vin t) \<and> prevout (vin t ! i) = out)" for out h i
  proof (cases "out \<in> prevout ` set (vin tx)")
    case True
    then obtain j where j: "j < length (vin tx)" "out = prevout (vin tx ! j)" by (auto simp: in_set_conv_nth)
    then have "mapNextTx mp out = Some \<lparr> ptx = ?h, in_n = j \<rparr>" using pool_ok_next [OF assms(1) m] by simp
    then have "\<not> (\<exists>t. h \<noteq> ?h \<and> mapTx mp h = Some t \<and> i < length (vin t) \<and> prevout (vin t ! i) = out)"
      using pool_ok_next [OF assms(1)] by fastforce
    then show ?thesis using True m by (auto simp: pool_remove_def Let_def erase_points)
  next
    case False
    then have "\<not> (i < length (vin tx) \<and> prevout (vin tx ! i) = out)" by (metis imageI nth_mem)
    then show ?thesis using False m by (auto simp: pool_remove_def Let_def erase_points pool_ok_points [OF assms(1)])
  qed
  moreover have "tx_hash lib t = h" if "mapTx (pool_remove lib tx mp) h = Some t" for h t
  proof -
    have "mapTx mp h = Some t" using that m by (simp add: pool_remove_def Let_def split: if_split_asm)
    then show ?thesis using assms(1) unfolding pool_ok_def by blast
  qed
  ultimately show ?thesis unfolding pool_ok_def by blast
qed

lemma checkAccept_Acc:
  assumes "checkAccept lib env best limited db store mp f tx c = Acc"
  shows "CheckTransaction tx = Accepted" and "\<not> IsCoinBase tx" and "\<not> IsCoinStake tx" and "mapTx mp (tx_hash lib tx) = None"
    and "\<forall>txin\<in>set (vin tx). mapNextTx mp (prevout txin) = None"
proof -
  show 1: "CheckTransaction tx = Accepted" using assms by (cases "CheckTransaction tx") (simp_all add: checkAccept_def)
  show 2: "\<not> IsCoinBase tx" using assms 1 by (auto simp: checkAccept_def)
  show 3: "\<not> IsCoinStake tx" using assms 1 2 by (auto simp: checkAccept_def)
  show "mapTx mp (tx_hash lib tx) = None" using assms 1 2 3 by (simp add: checkAccept_def split: if_split_asm)
  show "\<forall>txin\<in>set (vin tx). mapNextTx mp (prevout txin) = None"
    using assms 1 2 3 by (simp add: checkAccept_def list_ex_iff split: if_split_asm)
qed

text \<open>The pools that accepting and removing transactions of a set can reach.\<close>

inductive pool_reach :: "'a openssl_scheme \<Rightarrow> CTransaction set \<Rightarrow> CTxMemPool \<Rightarrow> bool" for lib T where
  start: "pool_reach lib T pool_init"
| accept: "pool_reach lib T mp \<Longrightarrow> tx \<in> T \<Longrightarrow> pool_reach lib T (snd (pool_accept lib env best limited db store f tx c mp))"
| remove: "pool_reach lib T mp \<Longrightarrow> tx \<in> T \<Longrightarrow> pool_reach lib T (pool_remove lib tx mp)"

definition pool_inv :: "'a openssl_scheme \<Rightarrow> CTransaction set \<Rightarrow> CTxMemPool \<Rightarrow> bool" where
  "pool_inv lib T mp \<longleftrightarrow> pool_ok lib mp \<and>
     (\<forall>tx\<in>ran (mapTx mp). tx \<in> T \<and> CheckTransaction tx = Accepted \<and> \<not> IsCoinBase tx \<and> \<not> IsCoinStake tx)"

lemma pool_reach_inv:
  assumes "pool_reach lib T mp" and "inj_on (tx_hash lib) T"
  shows "pool_inv lib T mp"
  using assms(1)
proof induction
  case start
  then show ?case by (simp add: pool_inv_def pool_ok_init) (simp add: pool_init_def)
next
  case (accept mp tx env best limited db store f c)
  show ?case
  proof (cases "checkAccept lib env best limited db store mp f tx c")
    case Acc
    note a = checkAccept_Acc [OF Acc]
    have "distinct (map prevout (vin tx))" using a(1) by (simp add: CheckTransaction_Accepted)
    moreover have "pool_ok lib mp" using accept.IH by (simp add: pool_inv_def)
    ultimately have "pool_ok lib (addUnchecked lib tx mp)" by (intro addUnchecked_ok a(4,5))
    then show ?thesis using accept a Acc
      by (auto simp: pool_accept_def pool_inv_def addUnchecked_def Let_def ran_def split: if_split_asm)
  qed (use accept.IH in \<open>simp_all add: pool_accept_def\<close>)
next
  case (remove mp tx)
  have "mapTx mp (tx_hash lib tx) = None \<or> mapTx mp (tx_hash lib tx) = Some tx"
  proof (cases "mapTx mp (tx_hash lib tx)")
    case (Some t)
    then have "t \<in> T" "tx_hash lib t = tx_hash lib tx" using remove.IH by (auto simp: pool_inv_def pool_ok_def ran_def)
    then show ?thesis using Some inj_onD [OF assms(2)] remove.hyps(2) by metis
  qed simp
  moreover have "pool_ok lib mp" using remove.IH by (simp add: pool_inv_def)
  ultimately have "pool_ok lib (pool_remove lib tx mp)" by (intro pool_remove_ok)
  moreover have "ran (mapTx (pool_remove lib tx mp)) \<subseteq> ran (mapTx mp)"
    by (auto simp: pool_remove_def Let_def ran_def)
  ultimately show ?case using remove.IH by (auto simp: pool_inv_def)
qed

text \<open>
  C17. Whatever transactions are offered, accepted and removed, the memory pool stays consistent: every
  transaction in it is well formed and filed under its hash, \<^verbatim>\<open>mapNextTx\<close> lists exactly their inputs, and no two
  of them spend the same output. The transactions that occur are assumed to have different hashes.
\<close>

theorem mempool_no_conflicts:
  assumes "pool_reach lib T mp" and "inj_on (tx_hash lib) T"
  shows "(\<forall>h tx. mapTx mp h = Some tx \<longrightarrow> tx_hash lib tx = h \<and> CheckTransaction tx = Accepted \<and> \<not> IsCoinBase tx \<and> \<not> IsCoinStake tx) \<and>
    (\<forall>h tx h' tx'. mapTx mp h = Some tx \<and> mapTx mp h' = Some tx' \<and> h \<noteq> h' \<longrightarrow>
       prevout ` set (vin tx) \<inter> prevout ` set (vin tx') = {}) \<and>
    (\<forall>out. mapNextTx mp out \<noteq> None \<longleftrightarrow> (\<exists>tx\<in>ran (mapTx mp). out \<in> prevout ` set (vin tx)))"
proof -
  have inv: "pool_inv lib T mp" by (rule pool_reach_inv [OF assms])
  then have ok: "pool_ok lib mp" by (simp add: pool_inv_def)
  have point: "\<exists>i. mapNextTx mp out = Some \<lparr> ptx = h, in_n = i \<rparr>" if m: "mapTx mp h = Some tx" and o: "out \<in> prevout ` set (vin tx)" for h tx out
  proof -
    obtain i where "i < length (vin tx)" "out = prevout (vin tx ! i)" using o by (auto simp: in_set_conv_nth)
    then show ?thesis using pool_ok_next [OF ok m] by auto
  qed
  have "prevout ` set (vin tx) \<inter> prevout ` set (vin tx') = {}" if "mapTx mp h = Some tx" "mapTx mp h' = Some tx'" "h \<noteq> h'" for h tx h' tx'
    using point [OF that(1)] point [OF that(2)] that(3) by fastforce
  moreover have "\<exists>tx\<in>ran (mapTx mp). out \<in> prevout ` set (vin tx)" if "mapNextTx mp out = Some p" for out p
  proof -
    obtain h i where p: "p = \<lparr> ptx = h, in_n = i \<rparr>" by (cases p)
    have "\<exists>tx. mapTx mp h = Some tx \<and> i < length (vin tx) \<and> prevout (vin tx ! i) = out"
      using ok that unfolding p pool_ok_def by blast
    then show ?thesis by (metis imageI nth_mem ranI)
  qed
  moreover have "mapNextTx mp out \<noteq> None" if "tx \<in> ran (mapTx mp)" "out \<in> prevout ` set (vin tx)" for tx out
    using point that by (fastforce simp: ran_def)
  moreover have "tx_hash lib tx = h \<and> CheckTransaction tx = Accepted \<and> \<not> IsCoinBase tx \<and> \<not> IsCoinStake tx" if "mapTx mp h = Some tx" for h tx
    using inv that by (auto simp: pool_inv_def pool_ok_def ran_def)
  ultimately show ?thesis by blast
qed

section \<open>The orphans are bounded\<close>

text \<open>
  Every orphan is under the hash of the transaction its message holds and has at most 5000 bytes, the map is
  sorted, and the second map has an orphan exactly under the transactions it waits for.
\<close>

definition orphan_ok :: "'a openssl_scheme \<Rightarrow> uint256 \<times> bytes \<Rightarrow> bool" where
  "orphan_ok lib e = (length (snd e) \<le> 5000 \<and>
     (case Unserialize_CTransaction (snd e) of None \<Rightarrow> False | Some (tx, _) \<Rightarrow> tx_hash lib tx = fst e))"

definition waits :: "(uint256 \<rightharpoonup> bytes omap) \<Rightarrow> uint256 \<Rightarrow> uint256 \<Rightarrow> bytes option" where
  "waits m p h = (case m p of None \<Rightarrow> None | Some r \<Rightarrow> map_of r h)"

definition parents :: "bytes \<Rightarrow> uint256 set" where
  "parents msg = (case Unserialize_CTransaction msg of None \<Rightarrow> {} | Some (tx, _) \<Rightarrow> (\<lambda>i. op_hash (prevout i)) ` set (vin tx))"

definition orphans_ok :: "'a openssl_scheme \<Rightarrow> orphans \<Rightarrow> bool" where
  "orphans_ok lib st \<longleftrightarrow> list_all (orphan_ok lib) (mapOrphanTransactions st) \<and>
     sorted_wrt (<) (map fst (mapOrphanTransactions st)) \<and>
     (\<forall>p h. waits (mapOrphanTransactionsByPrev st) p h = (case map_of (mapOrphanTransactions st) h of
        Some msg \<Rightarrow> if p \<in> parents msg then Some msg else None | None \<Rightarrow> None)) \<and>
     (\<forall>p. mapOrphanTransactionsByPrev st p \<noteq> Some [])"

definition orphans_init :: orphans where
  "orphans_init = \<lparr> mapOrphanTransactions = [], mapOrphanTransactionsByPrev = Map.empty \<rparr>"

lemma map_of_omap_insert: "map_of m k = None \<Longrightarrow> map_of (omap_insert k v m) h = (if h = k then Some v else map_of m h)"
  by (induction k v m rule: omap_insert.induct) auto

lemma map_of_omap_erase: "map_of (omap_erase k m) h = (if h = k then None else map_of m h)"
  by (induction m) (auto simp: omap_erase_def)

lemma set_omap_insert: "set (omap_insert k v m) \<subseteq> insert (k, v) (set m)"
  by (induction k v m rule: omap_insert.induct) auto

lemma fst_omap_insert: "fst ` set (omap_insert k v m) = insert k (fst ` set m)"
  by (induction k v m rule: omap_insert.induct) auto

lemma sorted_omap_insert: "sorted_wrt (<) (map fst m) \<Longrightarrow> sorted_wrt (<) (map fst (omap_insert k v m))" for m :: "'v omap"
proof (induction k v m rule: omap_insert.induct)
  case (2 k v k' v' m)
  have "\<forall>x\<in>fst ` set m. k' < x" using 2(2) by auto
  then have "k' < k \<longrightarrow> (\<forall>x\<in>fst ` set (omap_insert k v m). k' < x)" by (simp add: fst_omap_insert)
  then show ?case using 2 by auto
qed simp

lemma sorted_omap_erase: "sorted_wrt (<) (map fst m) \<Longrightarrow> sorted_wrt (<) (map fst (omap_erase k m))" for m :: "'v omap"
  by (induction m) (auto simp: omap_erase_def)

lemma omap_insert_ne: "omap_insert k v m \<noteq> []"
  by (induction k v m rule: omap_insert.induct) auto

lemma waits_by_prev_insert:
  "waits (by_prev_insert k msg m txin) p h =
     (if h = k \<and> p = op_hash (prevout txin) \<and> waits m p h = None then Some msg else waits m p h)"
  by (auto simp: waits_def by_prev_insert_def Let_def map_of_omap_insert split: option.split)

lemma waits_by_prev_inserts:
  "waits (foldl (by_prev_insert k msg) m ins) p h =
     (if h = k \<and> p \<in> (\<lambda>i. op_hash (prevout i)) ` set ins \<and> waits m p h = None then Some msg else waits m p h)"
  by (induction ins arbitrary: m) (auto simp: waits_by_prev_insert)

lemma waits_by_prev_erase:
  "waits (by_prev_erase k m txin) p h = (if h = k \<and> p = op_hash (prevout txin) then None else waits m p h)"
proof (cases "p = op_hash (prevout txin)")
  case True
  then have "waits (by_prev_erase k m txin) p h = map_of (omap_erase k (case m p of None \<Rightarrow> [] | Some r \<Rightarrow> r)) h"
    by (simp add: waits_def by_prev_erase_def Let_def)
  then show ?thesis using True by (auto simp: waits_def map_of_omap_erase split: option.split)
qed (simp add: waits_def by_prev_erase_def Let_def)

lemma waits_by_prev_erases:
  "waits (foldl (by_prev_erase k) m ins) p h = (if h = k \<and> p \<in> (\<lambda>i. op_hash (prevout i)) ` set ins then None else waits m p h)"
  by (induction ins arbitrary: m) (auto simp: waits_by_prev_erase)

lemma by_prev_inserts_ne: "\<forall>p. m p \<noteq> Some [] \<Longrightarrow> foldl (by_prev_insert k msg) m ins p \<noteq> Some []"
proof (induction ins arbitrary: m)
  case (Cons i ins)
  have "\<forall>p. by_prev_insert k msg m i p \<noteq> Some []"
    using Cons.prems by (auto simp: by_prev_insert_def Let_def omap_insert_ne split: option.split)
  then show ?case using Cons.IH by simp
qed simp

lemma by_prev_erases_ne: "\<forall>p. m p \<noteq> Some [] \<Longrightarrow> foldl (by_prev_erase k) m ins p \<noteq> Some []"
proof (induction ins arbitrary: m)
  case (Cons i ins)
  have "\<forall>p. by_prev_erase k m i p \<noteq> Some []" using Cons.prems by (auto simp: by_prev_erase_def Let_def)
  then show ?case using Cons.IH by simp
qed simp

lemma orphan_listed:
  assumes "orphans_ok lib st" and "map_of (mapOrphanTransactions st) h = Some msg"
  obtains tx r where "Unserialize_CTransaction msg = Some (tx, r)" and "tx_hash lib tx = h"
proof -
  have "orphan_ok lib (h, msg)" using assms map_of_SomeD by (fastforce simp: orphans_ok_def list_all_iff)
  then show thesis using that by (auto simp: orphan_ok_def split: option.split_asm)
qed

lemma AddOrphanTx_ok:
  assumes "orphans_ok lib st" and "AddOrphanTx lib msg st = Some (b, st')"
  shows "orphans_ok lib st'"
proof (cases "st' = st")
  case False
  let ?m = "mapOrphanTransactions st" and ?w = "mapOrphanTransactionsByPrev st"
  obtain tx r where tx: "Unserialize_CTransaction msg = Some (tx, r)" using assms(2)
    by (auto simp: AddOrphanTx_def split: option.split_asm)
  let ?h = "tx_hash lib tx"
  have new: "map_of ?m ?h = None" and len: "length msg \<le> 5000"
    and st': "st' = \<lparr> mapOrphanTransactions = omap_insert ?h msg ?m, mapOrphanTransactionsByPrev = foldl (by_prev_insert ?h msg) ?w (vin tx) \<rparr>"
    using assms(2) False by (auto simp: AddOrphanTx_def Let_def tx split: if_split_asm)
  have "list_all (orphan_ok lib) (mapOrphanTransactions st')"
    using assms(1) set_omap_insert [of ?h msg ?m] len by (auto simp: st' orphans_ok_def list_all_iff orphan_ok_def tx)
  moreover have "waits (mapOrphanTransactionsByPrev st') p h = (case map_of (mapOrphanTransactions st') h of
      Some msg \<Rightarrow> if p \<in> parents msg then Some msg else None | None \<Rightarrow> None)" for p h
  proof -
    have old: "waits ?w p h = (case map_of ?m h of Some msg \<Rightarrow> if p \<in> parents msg then Some msg else None | None \<Rightarrow> None)"
      using assms(1) unfolding orphans_ok_def by blast
    have par: "parents msg = (\<lambda>i. op_hash (prevout i)) ` set (vin tx)" by (simp add: parents_def tx)
    show ?thesis using old new by (simp add: st' waits_by_prev_inserts map_of_omap_insert [OF new] par)
  qed
  moreover have "\<forall>p. mapOrphanTransactionsByPrev st' p \<noteq> Some []"
    using assms(1) by (simp add: st' orphans_ok_def by_prev_inserts_ne)
  ultimately show ?thesis using assms(1) sorted_omap_insert [of ?m ?h msg] unfolding orphans_ok_def by (simp add: st')
qed (use assms in simp)

lemma EraseOrphanTx_ok:
  assumes "orphans_ok lib st"
  obtains st' where "EraseOrphanTx h st = Some st'" and "orphans_ok lib st'"
    and "mapOrphanTransactions st' = omap_erase h (mapOrphanTransactions st)"
proof (cases "map_of (mapOrphanTransactions st) h")
  case None
  then have "h \<notin> fst ` set (mapOrphanTransactions st)" by (simp add: map_of_eq_None_iff)
  then have "omap_erase h (mapOrphanTransactions st) = mapOrphanTransactions st" by (auto simp: omap_erase_def filter_id_conv)
  then show thesis using that [of st] None assms by (simp add: EraseOrphanTx_def)
next
  case (Some msg)
  let ?m = "mapOrphanTransactions st" and ?w = "mapOrphanTransactionsByPrev st"
  obtain tx r where tx: "Unserialize_CTransaction msg = Some (tx, r)" "tx_hash lib tx = h" by (rule orphan_listed [OF assms Some])
  define st' where "st' = \<lparr> mapOrphanTransactions = omap_erase h ?m, mapOrphanTransactionsByPrev = foldl (by_prev_erase h) ?w (vin tx) \<rparr>"
  have "waits (mapOrphanTransactionsByPrev st') p h' = (case map_of (mapOrphanTransactions st') h' of
      Some msg \<Rightarrow> if p \<in> parents msg then Some msg else None | None \<Rightarrow> None)" for p h'
  proof -
    have old: "waits ?w p h' = (case map_of ?m h' of Some msg \<Rightarrow> if p \<in> parents msg then Some msg else None | None \<Rightarrow> None)"
      using assms unfolding orphans_ok_def by blast
    have "parents msg = (\<lambda>i. op_hash (prevout i)) ` set (vin tx)" by (simp add: parents_def tx)
    then show ?thesis using old Some by (auto simp: st'_def waits_by_prev_erases map_of_omap_erase)
  qed
  moreover have "list_all (orphan_ok lib) (omap_erase h ?m)" using assms by (simp add: orphans_ok_def omap_erase_def list_all_iff)
  moreover have "\<forall>p. mapOrphanTransactionsByPrev st' p \<noteq> Some []"
    using assms by (simp add: st'_def orphans_ok_def by_prev_erases_ne)
  moreover have "sorted_wrt (<) (map fst (omap_erase h ?m))" using assms sorted_omap_erase unfolding orphans_ok_def by blast
  ultimately have "orphans_ok lib st'" unfolding orphans_ok_def by (simp add: st'_def)
  then show thesis using that [of st'] Some by (simp add: EraseOrphanTx_def tx(1) st'_def)
qed

lemma length_omap_erase:
  fixes m :: "'v omap"
  assumes "sorted_wrt (<) (map fst m)" and "h \<in> fst ` set m"
  shows "Suc (length (omap_erase h m)) = length m"
  using assms
proof (induction m)
  case (Cons e m)
  show ?case
  proof (cases "fst e = h")
    case True
    then have "\<forall>x\<in>set m. fst x \<noteq> h" using Cons.prems by auto
    then have "omap_erase h m = m" by (simp add: omap_erase_def filter_id_conv)
    then show ?thesis using True by (simp add: omap_erase_def)
  next
    case False
    then have "Suc (length (omap_erase h m)) = length m" using Cons by auto
    then show ?thesis using False by (simp add: omap_erase_def)
  qed
qed simp

lemma limit_loop_ok:
  assumes "orphans_ok lib st"
  shows "\<exists>st'. limit_loop n rnd k st = Some (k + (length (mapOrphanTransactions st) - n), st') \<and> orphans_ok lib st' \<and>
     set (mapOrphanTransactions st') \<subseteq> set (mapOrphanTransactions st) \<and>
     length (mapOrphanTransactions st') = min n (length (mapOrphanTransactions st))"
  using assms
proof (induction n rnd k st rule: limit_loop.induct)
  case (1 n rnd k st)
  let ?m = "mapOrphanTransactions st" and ?v = "victim (rnd k) (mapOrphanTransactions st)"
  show ?case
  proof (cases "length ?m > n")
    case True
    then have "?m \<noteq> []" by auto
    then have v: "?v \<in> fst ` set ?m" by (rule victim_in)
    obtain s1 where s1: "EraseOrphanTx ?v st = Some s1" "orphans_ok lib s1" "mapOrphanTransactions s1 = omap_erase ?v ?m"
      by (rule EraseOrphanTx_ok [OF "1.prems"])
    have len: "Suc (length (mapOrphanTransactions s1)) = length ?m"
      unfolding s1(3) using "1.prems" v by (intro length_omap_erase) (simp add: orphans_ok_def)
    have sub: "set (mapOrphanTransactions s1) \<subseteq> set ?m" by (auto simp: s1(3) omap_erase_def)
    have step: "limit_loop n rnd k st = limit_loop n rnd (Suc k) s1" using True s1(1) by (subst limit_loop.simps) simp
    have count: "Suc k + (length (mapOrphanTransactions s1) - n) = k + (length ?m - n)"
      "min n (length (mapOrphanTransactions s1)) = min n (length ?m)" using len True by auto
    show ?thesis using "1.IH" [OF True s1(1,2)] sub unfolding step count by blast
  next
    case False
    then show ?thesis using "1.prems" by (subst limit_loop.simps) simp
  qed
qed

text \<open>The states of the orphan maps that a run of the program can reach.\<close>

inductive orphans_reach :: "'a openssl_scheme \<Rightarrow> orphans \<Rightarrow> bool" for lib where
  start: "orphans_reach lib orphans_init"
| add: "orphans_reach lib st \<Longrightarrow> AddOrphanTx lib msg st = Some (b, st') \<Longrightarrow> orphans_reach lib st'"
| erase: "orphans_reach lib st \<Longrightarrow> EraseOrphanTx h st = Some st' \<Longrightarrow> orphans_reach lib st'"
| limit: "orphans_reach lib st \<Longrightarrow> LimitOrphanTxSize n rnd st = Some (k, st') \<Longrightarrow> orphans_reach lib st'"

lemma orphans_reach_ok: "orphans_reach lib st \<Longrightarrow> orphans_ok lib st"
proof (induction rule: orphans_reach.induct)
  case start
  show ?case by (simp add: orphans_ok_def orphans_init_def waits_def)
next
  case (add st msg b st')
  then show ?case by (blast intro: AddOrphanTx_ok)
next
  case (erase st h st')
  then show ?case by (metis EraseOrphanTx_ok option.inject)
next
  case (limit st n rnd k st')
  then show ?case using limit_loop_ok [of lib st n rnd 0] by (auto simp: LimitOrphanTxSize_def)
qed

lemma orphans_bytes: "list_all (orphan_ok lib) m \<Longrightarrow> sum_list (map (length \<circ> snd) m) \<le> 5000 * length m"
  by (induction m) (auto simp: orphan_ok_def)

text \<open>
  C18. From every state that adding, erasing and limiting orphans can reach and for every source of random
  hashes, \<^verbatim>\<open>LimitOrphanTxSize(n)\<close> returns: it never fails on a stored message, it evicts exactly the orphans over the limit,
  adds none, and leaves at most n of them with at most 5000 n bytes. The map by parent then still lists
  every remaining orphan under exactly the transactions it spends from, and nothing else.
\<close>

theorem LimitOrphanTxSize_returns:
  assumes "orphans_reach lib st"
  shows "\<exists>st'. LimitOrphanTxSize n rnd st = Some (length (mapOrphanTransactions st) - n, st') \<and>
     length (mapOrphanTransactions st') = min n (length (mapOrphanTransactions st)) \<and>
     set (mapOrphanTransactions st') \<subseteq> set (mapOrphanTransactions st) \<and>
     sum_list (map (length \<circ> snd) (mapOrphanTransactions st')) \<le> 5000 * n \<and>
     (\<forall>p h. waits (mapOrphanTransactionsByPrev st') p h = (case map_of (mapOrphanTransactions st') h of
        Some msg \<Rightarrow> if p \<in> parents msg then Some msg else None | None \<Rightarrow> None)) \<and>
     (\<forall>p. mapOrphanTransactionsByPrev st' p \<noteq> Some [])"
proof -
  obtain st' where st': "LimitOrphanTxSize n rnd st = Some (length (mapOrphanTransactions st) - n, st')" "orphans_ok lib st'"
    "set (mapOrphanTransactions st') \<subseteq> set (mapOrphanTransactions st)"
    "length (mapOrphanTransactions st') = min n (length (mapOrphanTransactions st))"
    using limit_loop_ok [OF orphans_reach_ok [OF assms], of n rnd 0] by (auto simp: LimitOrphanTxSize_def)
  have "sum_list (map (length \<circ> snd) (mapOrphanTransactions st')) \<le> 5000 * length (mapOrphanTransactions st')"
    using st'(2) orphans_bytes unfolding orphans_ok_def by blast
  then have "sum_list (map (length \<circ> snd) (mapOrphanTransactions st')) \<le> 5000 * n" using st'(4) by simp
  then show ?thesis using st' unfolding orphans_ok_def by blast
qed

definition one_orphan :: orphans where
  "one_orphan = \<lparr> mapOrphanTransactions = [(32, tx_bytes demo_tx)], mapOrphanTransactionsByPrev = [3 \<mapsto> [(32, tx_bytes demo_tx)]] \<rparr>"

lemma demo_tx_size: "length (tx_bytes demo_tx) \<le> 1000"
  using tx_bytes_le [of demo_tx] txout_le [of "vout demo_tx ! 0"] vector_bytes_le [of "[1, 2]"]
  by (simp add: demo_tx_def Serialize_CTxIn_def Serialize_COutPoint_def length_Serialize_vector GetSizeOfCompactSize_def size_word_def)

lemma one_orphan_reach: "orphans_reach demo_lib one_orphan"
proof -
  have u: "Unserialize_CTransaction (tx_bytes demo_tx) = Some (demo_tx, [])"
    using tx.dec_enc [OF demo_tx_fits, of "[]"] by simp
  have h: "tx_hash demo_lib demo_tx = 32" by (simp add: tx_hash_def demo_Hash)
  have l: "length (tx_bytes demo_tx) \<le> 5000" using demo_tx_size by simp
  have "AddOrphanTx demo_lib (tx_bytes demo_tx) orphans_init = Some (True, one_orphan)"
    using l by (simp add: AddOrphanTx_def u h orphans_init_def one_orphan_def) (simp add: demo_tx_def by_prev_insert_def)
  then show ?thesis by (rule orphans_reach.add [OF orphans_reach.start])
qed

theorem LimitOrphanTxSize_returns_witness:
  "\<exists>st'. LimitOrphanTxSize 0 (\<lambda>i. 99) one_orphan = Some (1, st') \<and> mapOrphanTransactions st' = []"
  using LimitOrphanTxSize_returns [OF one_orphan_reach, of 0 "\<lambda>i. 99"] by (auto simp: one_orphan_def)

section \<open>An accepted transaction\<close>

definition pool_env :: connect_env where
  "pool_env = demo_connect_env\<lparr> env_fTestNet := True \<rparr>"

definition one_pool :: CTxMemPool where
  "one_pool = snd (pool_accept demo_lib pool_env [] False empty_db Store_Initialize False demo_tx no_cache pool_init)"

lemma one_pool_tx: "mapTx one_pool = [32 \<mapsto> demo_tx]"
proof -
  have h: "tx_hash demo_lib demo_tx = 32" by (simp add: tx_hash_def demo_Hash)
  have c: "CheckTransaction demo_tx = Accepted" "\<not> IsCoinBase demo_tx" "\<not> IsCoinStake demo_tx"
    using demo_tx_size by (simp_all add: CheckTransaction_Accepted)
      (simp_all add: demo_tx_def IsCoinBase_def IsCoinStake_def COutPoint_IsNull_def COutPoint_SetNull_def CTxIn_CheckTxInfos_def
          MoneyRange_def MAX_MONEY_def MAX_BLOCK_SIZE_def COIN_def CENT_def CTxOut_IsEmpty_def)
  have "checkAccept demo_lib pool_env [] False empty_db Store_Initialize pool_init False demo_tx no_cache = Acc"
    using c by (simp add: checkAccept_def pool_env_def pool_init_def demo_tx_def)
  then show ?thesis by (simp add: one_pool_def pool_accept_def addUnchecked_def h pool_init_def)
qed

theorem mempool_no_conflicts_witness: "mapNextTx one_pool \<lparr> op_hash = 3, op_n = 1 \<rparr> \<noteq> None"
proof -
  have r: "pool_reach demo_lib {demo_tx} one_pool" unfolding one_pool_def by (intro pool_reach.intros) simp
  have "mapTx one_pool 32 = Some demo_tx" by (simp add: one_pool_tx)
  then have "demo_tx \<in> ran (mapTx one_pool)" by (rule ranI)
  moreover have "\<lparr> op_hash = 3, op_n = 1 \<rparr> \<in> prevout ` set (vin demo_tx)" by (simp add: demo_tx_def)
  ultimately show ?thesis using mempool_no_conflicts [OF r] by blast
qed

section \<open>The rate limiter\<close>

text \<open>
  The fee that \<^verbatim>\<open>checkAccept\<close> asks for first is never below \<^verbatim>\<open>MIN_RELAY_TX_FEE\<close>, so no transaction reaches the rate
  limiter of free transactions: its verdict makes no difference.
\<close>

lemma rate_limiter_unreachable:
  "checkAccept lib env best limited db store mp f tx c = checkAccept lib env best limited' db store mp f tx c"
proof -
  have "MIN_RELAY_TX_FEE \<le> GetMinFee 1000 GMF_RELAY tx"
    using GetMinFee_range [of 1000 GMF_RELAY tx] by (simp add: MIN_RELAY_TX_FEE_def MIN_TX_FEE_def)
  then have "(nFees < GetMinFee 1000 GMF_RELAY tx \<or> \<not> (nFees < MIN_RELAY_TX_FEE \<and> l))" for nFees l by linarith
  then have cut: "(if nFees < GetMinFee 1000 GMF_RELAY tx then x else if nFees < MIN_RELAY_TX_FEE \<and> l then y else z) =
      (if nFees < GetMinFee 1000 GMF_RELAY tx then x else z)" for nFees l and x y z :: accept_result by auto
  show ?thesis unfolding checkAccept_def Let_def cut ..
qed

end
