(* ===== verification/BestChain.thy ===== *)
theory BestChain
  imports BlockFile Mempool
begin

text \<open>
  The choice of the best chain: \<^verbatim>\<open>Reorganize\<close>, \<^verbatim>\<open>SetBestChainInner\<close> and \<^verbatim>\<open>SetBestChain\<close> of \<^verbatim>\<open>src/src/main.cpp\<close> on the
  tree of block index objects, which the code shares between branches and updates in place. An object is the number
  under which it was allocated, so that the tree is the list of the objects, and pointers are numbers. The
  wallets and the command told about a new best block are left out.
\<close>

section \<open>The tree\<close>

record index_node =
  nd_bi :: CBlockIndex
  nd_pprev :: "nat option"
  nd_pnext :: "nat option"

type_synonym block_tree = "index_node list"

text \<open>
  The predecessor of a block exists before the block: a pointer to a later object does not arise, and is read as null.
\<close>

definition pprev :: "block_tree \<Rightarrow> nat \<Rightarrow> nat option" where
  "pprev t i = (case nd_pprev (t ! i) of None \<Rightarrow> None | Some j \<Rightarrow> if j < i then Some j else None)"

definition bi_at :: "block_tree \<Rightarrow> nat \<Rightarrow> CBlockIndex" where
  "bi_at t i = nd_bi (t ! i)"

lemma pprev_less: "pprev t i = Some j \<Longrightarrow> j < i"
  by (auto simp: pprev_def split: option.split_asm if_split_asm)

function chain_at :: "block_tree \<Rightarrow> nat \<Rightarrow> chain" where
  "chain_at t i = bi_at t i # (case pprev t i of None \<Rightarrow> [] | Some j \<Rightarrow> chain_at t j)"
  by pat_completeness auto
termination by (relation "measure snd") (auto dest: pprev_less)

text \<open>The inner loop of the search for the fork: back to a height.\<close>

function back_to :: "block_tree \<Rightarrow> int \<Rightarrow> nat \<Rightarrow> nat option" where
  "back_to t h i =
     (if bi_nHeight (bi_at t i) > h then (case pprev t i of None \<Rightarrow> None | Some j \<Rightarrow> back_to t h j) else Some i)"
  by pat_completeness auto
termination by (relation "measure (\<lambda>(t, h, i). i)") (auto dest: pprev_less)

function find_fork :: "block_tree \<Rightarrow> nat \<Rightarrow> nat \<Rightarrow> nat option" where
  "find_fork t pfork plonger =
     (if pfork = plonger then Some pfork
      else case back_to t (bi_nHeight (bi_at t pfork)) plonger of
        None \<Rightarrow> None
      | Some plonger \<Rightarrow>
          if pfork = plonger then Some pfork
          else case pprev t pfork of None \<Rightarrow> None | Some pfork \<Rightarrow> find_fork t pfork plonger)"
  by pat_completeness auto
termination by (relation "measure (\<lambda>(t, f, l). f)") (auto dest: pprev_less)

text \<open>The blocks from one down to an ancestor, which is not included.\<close>

function branch :: "block_tree \<Rightarrow> nat \<Rightarrow> nat \<Rightarrow> nat list option" where
  "branch t i pfork =
     (if i = pfork then Some []
      else case pprev t i of None \<Rightarrow> None | Some j \<Rightarrow> map_option ((#) i) (branch t j pfork))"
  by pat_completeness auto
termination by (relation "measure (\<lambda>(t, i, f). i)") (auto dest: pprev_less)

declare chain_at.simps [simp del] back_to.simps [simp del] find_fork.simps [simp del] branch.simps [simp del]

section \<open>The node\<close>

text \<open>
  The first group of fields is the database: what a database transaction writes and an abort takes back. The
  files, the store of infos with its own transaction, the cache of signatures, the pool and the globals follow.
\<close>

record node =
  nd_index :: "uint256 \<rightharpoonup> CTxIndex"
  nd_blocks :: block_map
  nd_hashBest :: uint256
  nd_files :: block_files
  nd_store :: CTxInfoStore
  nd_cache :: sig_cache
  nd_mempool :: CTxMemPool
  nd_tree :: block_tree
  pindexGenesisBlock :: "nat option"
  pindexBest :: "nat option"
  hashBestChain :: uint256
  nBestHeight :: int
  bnBestChainTrust :: int
  bnBestInvalidTrust :: int

text \<open>A function of the node returns true or false, or an exception leaves it.\<close>

datatype outcome = Done | Failed | Threw

definition TxnAbort :: "node \<Rightarrow> node \<Rightarrow> node" where
  "TxnAbort saved st = st\<lparr> nd_index := nd_index saved, nd_blocks := nd_blocks saved, nd_hashBest := nd_hashBest saved \<rparr>"

definition node_db :: "'a openssl_scheme \<Rightarrow> connect_env \<Rightarrow> node \<Rightarrow> CTxDB" where
  "node_db lib env st = db_over lib (env_fTestNet env) (nd_files st) (nd_index st)"

definition node_env :: "connect_env \<Rightarrow> node \<Rightarrow> connect_env" where
  "node_env env st = env\<lparr> env_nBestHeight := nBestHeight st, env_mempool := mapTx (nd_mempool st) \<rparr>"

definition InvalidChainFound :: "nat \<Rightarrow> node \<Rightarrow> node" where
  "InvalidChainFound i st =
     (if bi_bnChainTrust (bi_at (nd_tree st) i) > bnBestInvalidTrust st
      then st\<lparr> bnBestInvalidTrust := bi_bnChainTrust (bi_at (nd_tree st) i) \<rparr> else st)"

text \<open>\<^verbatim>\<open>CBlock::ReadFromDisk(pindex)\<close>\<close>

definition ReadFromDisk_index :: "'a openssl_scheme \<Rightarrow> connect_env \<Rightarrow> node \<Rightarrow> nat \<Rightarrow> CBlock option" where
  "ReadFromDisk_index lib env st i =
     (let p = bi_at (nd_tree st) i in
      case ReadBlockFromDisk lib (env_fTestNet env) (nd_files st) (bi_nFile p) (bi_nBlockPos p) True of
        None \<Rightarrow> None
      | Some b \<Rightarrow> if GetIDHash lib b \<noteq> bi_hash p then None else Some b)"

text \<open>
  The store of infos when \<^verbatim>\<open>ConnectBlock\<close> gives up: the infos of the transactions before stay in it, those of the
  transaction that failed if it failed on them, until the caller's view is rolled back.
\<close>

definition failed_tx_store ::
  "'a openssl_scheme \<Rightarrow> connect_env \<Rightarrow> CTxDB \<Rightarrow> chain \<Rightarrow> uint256 \<Rightarrow> CTransaction \<Rightarrow> connect_state \<Rightarrow> CTxInfoStore" where
  "failed_tx_store lib env db pindex blockHash tx s =
     (let nSigOps = cs_nSigOps s + GetLegacySigOpCount tx;
          pos = \<lparr> pos_nFile = bi_nFile (hd pindex), pos_nBlockPos = bi_nBlockPos (hd pindex), pos_nTxPos = cs_nTxPos s \<rparr>
      in
      if unat nSigOps > MAX_BLOCK_SIGOPS \<or> IsCoinBase tx then cs_store s
      else case FetchInputs db (mapQueuedChanges s) (env_mempool env) True tx of
        Inl _ \<Rightarrow> cs_store s
      | Inr inputs \<Rightarrow>
          (case GetP2SHSigOpCount tx inputs of
             None \<Rightarrow> cs_store s
           | Some n \<Rightarrow>
               if unat (nSigOps + n) > MAX_BLOCK_SIGOPS \<or> GetValueIn tx inputs = None \<or> GetValueOut tx = None then cs_store s
               else case ConnectInputs lib db (env_nCoinbaseMaturity env) (env_nStakeMinAge env)
                           (env_nBestHeight env < env_GetTotalBlocksEstimate env) True pindex pos tx inputs
                           (mapQueuedChanges s) (cs_cache s) of
                 Inl _ \<Rightarrow> cs_store s
               | Inr _ \<Rightarrow> snd (ProcessTxInfos lib (env_fTestNet env) db blockHash (uint (cs_nTx s)) tx (cs_store s))))"

fun failed_txs_store ::
  "'a openssl_scheme \<Rightarrow> connect_env \<Rightarrow> CTxDB \<Rightarrow> chain \<Rightarrow> uint256 \<Rightarrow> CTransaction list \<Rightarrow> connect_state \<Rightarrow> CTxInfoStore" where
  "failed_txs_store lib env db pindex blockHash [] s = cs_store s"
| "failed_txs_store lib env db pindex blockHash (tx # txs) s =
     (case connect_tx lib env db pindex blockHash tx s of
        Inl e \<Rightarrow> failed_tx_store lib env db pindex blockHash tx s
      | Inr s \<Rightarrow> failed_txs_store lib env db pindex blockHash txs s)"

definition failed_store ::
  "'a openssl_scheme \<Rightarrow> connect_env \<Rightarrow> chain \<Rightarrow> CBlock \<Rightarrow> CTxDB \<Rightarrow> CTxInfoStore \<Rightarrow> sig_cache \<Rightarrow> CTxInfoStore" where
  "failed_store lib env pindex b db store c =
     (if CheckBlock lib (block_env.truncate env) False b \<noteq> Accepted \<or>
         (IsProofOfStake b \<and> bi_nHeight (hd pindex) < env_nPoSMinHeight env) \<or> list_ex (overwrites lib db) (vtx b)
      then store
      else failed_txs_store lib env db pindex (GetIDHash lib b) (vtx b)
             \<lparr> cs_nTxPos = first_tx_pos b (hd pindex), mapQueuedChanges = Map.empty, cs_nFees = 0, cs_nValueIn = 0,
               cs_nValueOut = 0, cs_nSigOps = 0, cs_nTx = 0, cs_store = store, cs_cache = c \<rparr>)"

text \<open>\<^verbatim>\<open>ConnectBlock\<close> on the node; it writes the mint of the block into the tree.\<close>

definition node_ConnectBlock :: "'a openssl_scheme \<Rightarrow> connect_env \<Rightarrow> nat \<Rightarrow> CBlock \<Rightarrow> node \<Rightarrow> outcome \<times> node" where
  "node_ConnectBlock lib env i b st =
     (let c = chain_at (nd_tree st) i; db = node_db lib env st; e = node_env env st in
      case ConnectBlock lib e c b db (nd_blocks st) (nd_store st) (nd_cache st) of
        Inl err \<Rightarrow> ((case err of Failure n \<Rightarrow> Failed | _ \<Rightarrow> Threw),
                   st\<lparr> nd_store := failed_store lib e c b db (nd_store st) (nd_cache st) \<rparr>)
      | Inr (p, db', m', store', c') \<Rightarrow>
          (Done, st\<lparr> nd_tree := (nd_tree st)[i := (nd_tree st ! i)\<lparr> nd_bi := p \<rparr>], nd_index := mapTxIndex db',
                     nd_blocks := m', nd_store := store', nd_cache := c' \<rparr>))"

section \<open>Reorganizing\<close>

text \<open>
  The blocks to leave, from the best one down; the transactions to put back into the pool are collected. \<open>None\<close> is
  false, or an exception.
\<close>

fun disconnect_loop ::
  "'a openssl_scheme \<Rightarrow> connect_env \<Rightarrow> nat list \<Rightarrow> node \<Rightarrow> CTransaction list \<Rightarrow> (node \<times> CTransaction list) option" where
  "disconnect_loop lib env [] st vResurrect = Some (st, vResurrect)"
| "disconnect_loop lib env (i # is) st vResurrect =
     (case ReadFromDisk_index lib env st i of
        None \<Rightarrow> None
      | Some b \<Rightarrow>
          (case DisconnectBlock lib (env_fTestNet env) (chain_at (nd_tree st) i) b (node_db lib env st) (nd_blocks st) (nd_store st) of
             None \<Rightarrow> None
           | Some (db', m', store') \<Rightarrow>
               disconnect_loop lib env is (st\<lparr> nd_index := mapTxIndex db', nd_blocks := m', nd_store := store' \<rparr>)
                 (vResurrect @ filter (\<lambda>tx. \<not> (IsCoinBase tx \<or> IsCoinStake tx)) (vtx b))))"

fun connect_loop ::
  "'a openssl_scheme \<Rightarrow> connect_env \<Rightarrow> nat list \<Rightarrow> node \<Rightarrow> CTransaction list \<Rightarrow> outcome \<times> node \<times> CTransaction list" where
  "connect_loop lib env [] st vDelete = (Done, st, vDelete)"
| "connect_loop lib env (i # is) st vDelete =
     (case ReadFromDisk_index lib env st i of
        None \<Rightarrow> (Failed, st, vDelete)
      | Some b \<Rightarrow>
          (case node_ConnectBlock lib env i b st of
             (Done, st) \<Rightarrow> connect_loop lib env is st (vDelete @ vtx b)
           | (r, st) \<Rightarrow> (r, st, vDelete)))"

text \<open>The assignments to \<^verbatim>\<open>pindex->pprev->pnext\<close>.\<close>

definition set_pnext :: "(nat \<Rightarrow> nat option) \<Rightarrow> block_tree \<Rightarrow> nat \<Rightarrow> block_tree" where
  "set_pnext f t i = (case pprev t i of None \<Rightarrow> t | Some j \<Rightarrow> t[j := (t ! j)\<lparr> nd_pnext := f i \<rparr>])"

definition resurrect :: "'a openssl_scheme \<Rightarrow> connect_env \<Rightarrow> node \<Rightarrow> CTransaction list \<Rightarrow> CTxMemPool" where
  "resurrect lib env st txs =
     foldl (\<lambda>mp tx. snd (pool_accept lib env [] False (node_db lib env st) (nd_store st) False tx (nd_cache st) mp)) (nd_mempool st) txs"

definition remove_all :: "'a openssl_scheme \<Rightarrow> CTransaction list \<Rightarrow> CTxMemPool \<Rightarrow> CTxMemPool" where
  "remove_all lib txs mp = foldl (\<lambda>mp tx. pool_remove lib tx mp) mp txs"

text \<open>A null \<^verbatim>\<open>pindexBest\<close> or \<^verbatim>\<open>pprev\<close>, which the code would follow, is taken as an exception.\<close>

definition Reorganize :: "'a openssl_scheme \<Rightarrow> connect_env \<Rightarrow> uint256 \<Rightarrow> nat \<Rightarrow> node \<Rightarrow> outcome \<times> node" where
  "Reorganize lib env hashSyncCheckpoint pindexNew st =
     (case pindexBest st of
        None \<Rightarrow> (Threw, st)
      | Some best \<Rightarrow>
          (case find_fork (nd_tree st) best pindexNew of
             None \<Rightarrow> (Failed, st)
           | Some pfork \<Rightarrow>
               (case (branch (nd_tree st) best pfork, branch (nd_tree st) pindexNew pfork) of
                  (Some vDisconnect, Some vConnect) \<Rightarrow>
                    if list_ex (\<lambda>i. bi_hash (bi_at (nd_tree st) i) = hashSyncCheckpoint) vDisconnect then (Failed, st)
                    else
                      (case disconnect_loop lib env vDisconnect st [] of
                         None \<Rightarrow> (Failed, st)
                       | Some (st, vResurrect) \<Rightarrow>
                           (case connect_loop lib env (rev vConnect) st [] of
                              (Done, st, vDelete) \<Rightarrow>
                                let st = st\<lparr> nd_hashBest := bi_hash (bi_at (nd_tree st) pindexNew) \<rparr>;
                                    t = foldl (set_pnext (\<lambda>_. None)) (nd_tree st) vDisconnect;
                                    t = foldl (set_pnext Some) t (rev vConnect);
                                    st = st\<lparr> nd_tree := t \<rparr>;
                                    st = st\<lparr> nd_mempool := remove_all lib vDelete (resurrect lib env st vResurrect) \<rparr>
                                in (Done, st)
                            | (r, st, _) \<Rightarrow> (r, st)))
                | _ \<Rightarrow> (Threw, st))))"

section \<open>Setting the best chain\<close>

definition SetBestChainInner :: "'a openssl_scheme \<Rightarrow> connect_env \<Rightarrow> nat \<Rightarrow> CBlock \<Rightarrow> node \<Rightarrow> outcome \<times> node" where
  "SetBestChainInner lib env pindexNew b saved =
     (case node_ConnectBlock lib env pindexNew b saved of
        (Done, st) \<Rightarrow>
          (Done, st\<lparr> nd_hashBest := GetIDHash lib b, nd_tree := set_pnext Some (nd_tree st) pindexNew,
                     nd_mempool := remove_all lib (vtx b) (nd_mempool st) \<rparr>)
      | (Failed, st) \<Rightarrow> (Failed, InvalidChainFound pindexNew (TxnAbort saved st))
      | (Threw, st) \<Rightarrow> (Threw, TxnAbort saved st))"

text \<open>The loop that looks for the first block whose chain becomes the best; the others are postponed.\<close>

function postpone :: "block_tree \<Rightarrow> int \<Rightarrow> nat \<Rightarrow> nat list \<Rightarrow> nat \<times> nat list" where
  "postpone t bestTrust i vSecondary =
     (case pprev t i of
        None \<Rightarrow> (i, vSecondary)
      | Some j \<Rightarrow>
          if bi_bnChainTrust (bi_at t j) > bestTrust then postpone t bestTrust j (vSecondary @ [i]) else (i, vSecondary))"
  by pat_completeness auto
termination by (relation "measure (\<lambda>(t, b, i, v). i)") (auto dest: pprev_less)

declare postpone.simps [simp del]

text \<open>Connecting the postponed blocks, each in a transaction of its own. A failure ends the loop and is forgotten.\<close>

fun secondary_loop :: "'a openssl_scheme \<Rightarrow> connect_env \<Rightarrow> nat list \<Rightarrow> node \<Rightarrow> outcome \<times> node" where
  "secondary_loop lib env [] st = (Done, st)"
| "secondary_loop lib env (i # is) st =
     (case ReadFromDisk_index lib env st i of
        None \<Rightarrow> (Done, st)
      | Some b \<Rightarrow>
          (case SetBestChainInner lib env i b st of
             (Done, st) \<Rightarrow> secondary_loop lib env is st
           | (Failed, st) \<Rightarrow> (Done, st)
           | (Threw, st) \<Rightarrow> (Threw, st)))"

definition advance :: "'a openssl_scheme \<Rightarrow> connect_env \<Rightarrow> uint256 \<Rightarrow> nat \<Rightarrow> CBlock \<Rightarrow> node \<Rightarrow> outcome \<times> node" where
  "advance lib env hashSyncCheckpoint pindexNew b st =
     (let hash = GetIDHash lib b in
      if pindexGenesisBlock st = None \<and> hash = env_hashGenesisBlock env
      then (Done, st\<lparr> nd_hashBest := hash, pindexGenesisBlock := Some pindexNew \<rparr>)
      else if blk_hashPrevBlock b = hashBestChain st then SetBestChainInner lib env pindexNew b st
      else case pindexBest st of
        None \<Rightarrow> (Threw, st)
      | Some best \<Rightarrow>
          let (pindexIntermediate, vSecondary) = postpone (nd_tree st) (bi_bnChainTrust (bi_at (nd_tree st) best)) pindexNew []
          in
          case Reorganize lib env hashSyncCheckpoint pindexIntermediate st of
            (Done, st) \<Rightarrow> secondary_loop lib env (rev vSecondary) st
          | (Failed, st') \<Rightarrow> (Failed, InvalidChainFound pindexNew (TxnAbort st st'))
          | (Threw, st') \<Rightarrow> (Threw, TxnAbort st st'))"

text \<open>
  \<^verbatim>\<open>SetBestChain\<close>: \<open>advance\<close> is its part before the new best block is recorded. The view of the info store is
  rolled back unless that part returns.
\<close>

definition SetBestChain :: "'a openssl_scheme \<Rightarrow> connect_env \<Rightarrow> uint256 \<Rightarrow> nat \<Rightarrow> CBlock \<Rightarrow> node \<Rightarrow> outcome \<times> node" where
  "SetBestChain lib env hashSyncCheckpoint pindexNew b st =
     (case BeginTransaction (nd_store st) of
        (Yes, store) \<Rightarrow>
          (case advance lib env hashSyncCheckpoint pindexNew b (st\<lparr> nd_store := store \<rparr>) of
             (Done, st) \<Rightarrow>
               (Done, st\<lparr> nd_store := snd (Store_Commit (nd_store st)), hashBestChain := GetIDHash lib b,
                          pindexBest := Some pindexNew, nBestHeight := bi_nHeight (bi_at (nd_tree st) pindexNew),
                          bnBestChainTrust := bi_bnChainTrust (bi_at (nd_tree st) pindexNew),
                          nd_mempool := (nd_mempool st)\<lparr> nTransactionsUpdated := nTransactionsUpdated (nd_mempool st) + 1 \<rparr> \<rparr>)
           | (r, st) \<Rightarrow> (r, st\<lparr> nd_store := snd (Store_Rollback (nd_store st)) \<rparr>))
      | _ \<Rightarrow> (Threw, st))"

section \<open>The fork\<close>

text \<open>
  A tree of blocks with one root, each block one higher than its predecessor.
\<close>

definition node_ok :: "block_tree \<Rightarrow> nat \<Rightarrow> bool" where
  "node_ok t i = (case pprev t i of
     None \<Rightarrow> i = 0 \<and> bi_nHeight (bi_at t i) = 0
   | Some j \<Rightarrow> bi_nHeight (bi_at t i) = bi_nHeight (bi_at t j) + 1)"

definition tree_ok :: "block_tree \<Rightarrow> bool" where
  "tree_ok t = list_all (node_ok t) [0..<length t]"

function ancestors :: "block_tree \<Rightarrow> nat \<Rightarrow> nat list" where
  "ancestors t i = i # (case pprev t i of None \<Rightarrow> [] | Some j \<Rightarrow> ancestors t j)"
  by pat_completeness auto
termination by (relation "measure snd") (auto dest: pprev_less)

declare ancestors.simps [simp del]

lemma pprev_cases:
  assumes "tree_ok t" and "i < length t"
  obtains (root) "i = 0" and "pprev t i = None" and "bi_nHeight (bi_at t i) = 0"
    | (child) j where "pprev t i = Some j" and "j < i" and "bi_nHeight (bi_at t i) = bi_nHeight (bi_at t j) + 1"
proof -
  have "node_ok t i" using assms by (simp add: tree_ok_def list_all_iff)
  then show thesis using that pprev_less [of t i] by (cases "pprev t i") (auto simp: node_ok_def)
qed

lemma ancestors_self [simp]: "i \<in> set (ancestors t i)"
  by (subst ancestors.simps) simp

lemma ancestors_step: "pprev t i = Some j \<Longrightarrow> set (ancestors t i) = insert i (set (ancestors t j))"
  by (subst ancestors.simps) simp

lemma ancestors_root: "pprev t i = None \<Longrightarrow> set (ancestors t i) = {i}"
  by (subst ancestors.simps) simp

lemma height_ancestor:
  assumes "tree_ok t" and "i < length t" and "k \<in> set (ancestors t i)"
  shows "k \<le> i \<and> 0 \<le> bi_nHeight (bi_at t k) \<and> (k \<noteq> i \<longrightarrow> bi_nHeight (bi_at t k) < bi_nHeight (bi_at t i))"
  using assms(2,3)
proof (induction i arbitrary: k rule: less_induct)
  case (less i)
  show ?case using assms(1) less.prems(1)
  proof (cases rule: pprev_cases)
    case root
    then show ?thesis using less.prems(2) by (simp add: ancestors_root)
  next
    case (child j)
    have j: "bi_nHeight (bi_at t j) \<ge> 0" using less.IH [OF child(2) _ ancestors_self] child(2) less.prems(1) by simp
    show ?thesis
    proof (cases "k = i")
      case False
      then have "k \<in> set (ancestors t j)" using less.prems(2) ancestors_step [OF child(1)] by simp
      then have "k \<le> j \<and> 0 \<le> bi_nHeight (bi_at t k) \<and> (k \<noteq> j \<longrightarrow> bi_nHeight (bi_at t k) < bi_nHeight (bi_at t j))"
        using less.IH [OF child(2)] child(2) less.prems(1) by simp
      then show ?thesis using child by (cases "k = j") auto
    qed (use j child in simp)
  qed
qed

lemma back_to_spec:
  assumes "tree_ok t" and "i < length t" and "0 \<le> h"
  shows "\<exists>k. back_to t h i = Some k \<and> k \<in> set (ancestors t i) \<and> bi_nHeight (bi_at t k) \<le> h \<and>
    {a \<in> set (ancestors t i). bi_nHeight (bi_at t a) \<le> h} = set (ancestors t k)"
  using assms(2)
proof (induction i rule: less_induct)
  case (less i)
  show ?case
  proof (cases "bi_nHeight (bi_at t i) > h")
    case True
    obtain j where j: "pprev t i = Some j" "j < i" using assms(1) less.prems
      by (cases rule: pprev_cases) (use True assms(3) in auto)
    have "back_to t h i = back_to t h j" using True j by (subst back_to.simps) simp
    then show ?thesis using less.IH [OF j(2)] j less.prems True by (auto simp: ancestors_step [OF j(1)])
  next
    case False
    then have "{a \<in> set (ancestors t i). bi_nHeight (bi_at t a) \<le> h} = set (ancestors t i)"
      using height_ancestor [OF assms(1) less.prems] by force
    then show ?thesis using False by (subst back_to.simps) auto
  qed
qed

lemma find_fork_spec:
  assumes "tree_ok t" and "f < length t" and "l < length t"
  shows "\<exists>k. find_fork t f l = Some k \<and> k \<in> set (ancestors t f) \<and> k \<in> set (ancestors t l) \<and>
    set (ancestors t f) \<inter> set (ancestors t l) = set (ancestors t k)"
  using assms(2,3)
proof (induction f arbitrary: l rule: less_induct)
  case (less f)
  let ?h = "bi_nHeight (bi_at t f)"
  have h0: "0 \<le> ?h" using height_ancestor [OF assms(1) less.prems(1), of f] by simp
  show ?case
  proof (cases "f = l")
    case True
    then show ?thesis by (subst find_fork.simps) auto
  next
    case False
    obtain k where k: "back_to t ?h l = Some k" "k \<in> set (ancestors t l)" "bi_nHeight (bi_at t k) \<le> ?h"
      "{a \<in> set (ancestors t l). bi_nHeight (bi_at t a) \<le> ?h} = set (ancestors t k)"
      using back_to_spec [OF assms(1) less.prems(2) h0] by blast
    have "a \<in> set (ancestors t f) \<Longrightarrow> bi_nHeight (bi_at t a) \<le> ?h" for a
      using height_ancestor [OF assms(1) less.prems(1), of a] by force
    then have same: "set (ancestors t f) \<inter> set (ancestors t l) = set (ancestors t f) \<inter> set (ancestors t k)"
      using k(4) by auto
    have kl: "k < length t" using height_ancestor [OF assms(1) less.prems(2) k(2)] less.prems(2) by simp
    show ?thesis
    proof (cases "f = k")
      case True
      then have "find_fork t f l = Some f" using False k(1) by (subst find_fork.simps) simp
      then show ?thesis using same True k(2) by auto
    next
      case ne: False
      have notf: "f \<notin> set (ancestors t k)"
        using height_ancestor [OF assms(1) kl, of f] k(3) ne by force
      show ?thesis using assms(1) less.prems(1)
      proof (cases rule: pprev_cases)
        case root
        have "k = 0" using assms(1) kl
        proof (cases rule: pprev_cases)
          case (child j)
          then have "0 \<le> bi_nHeight (bi_at t j)" using height_ancestor [OF assms(1), of j j] kl by simp
          then show ?thesis using child(3) k(3) root(3) by simp
        qed
        then show ?thesis using ne root(1) by simp
      next
        case (child j)
        have j: "j < length t" using child(2) less.prems(1) by simp
        have "find_fork t f l = find_fork t j k" using False ne k(1) child(1) by (subst find_fork.simps) simp
        moreover have "set (ancestors t f) \<inter> set (ancestors t l) = set (ancestors t j) \<inter> set (ancestors t k)"
          using same notf by (simp add: ancestors_step [OF child(1)])
        moreover obtain r where r: "find_fork t j k = Some r" "r \<in> set (ancestors t j)" "r \<in> set (ancestors t k)"
          "set (ancestors t j) \<inter> set (ancestors t k) = set (ancestors t r)" using less.IH [OF child(2) j kl] by blast
        moreover have "r \<in> set (ancestors t r)" by simp
        ultimately show ?thesis by (intro exI [of _ r]) (simp, blast)
      qed
    qed
  qed
qed

lemma branch_spec: "k \<in> set (ancestors t i) \<Longrightarrow> \<exists>v. branch t i k = Some v \<and> ancestors t i = v @ ancestors t k"
proof (induction i rule: less_induct)
  case (less i)
  show ?case
  proof (cases "i = k")
    case True
    then show ?thesis by (subst branch.simps) simp
  next
    case False
    then obtain j where j: "pprev t i = Some j" "k \<in> set (ancestors t j)"
      using less.prems by (cases "pprev t i") (auto simp: ancestors_root ancestors_step)
    then obtain v where v: "branch t j k = Some v" "ancestors t j = v @ ancestors t k" using less.IH [OF pprev_less [OF j(1)]] by blast
    have "branch t i k = Some (i # v)" using False j(1) v(1) by (subst branch.simps) simp
    moreover have "ancestors t i = (i # v) @ ancestors t k" using j(1) v(2) by (subst ancestors.simps) simp
    ultimately show ?thesis by blast
  qed
qed

lemma distinct_ancestors:
  assumes "tree_ok t" and "i < length t"
  shows "distinct (ancestors t i)"
  using assms(2)
proof (induction i rule: less_induct)
  case (less i)
  show ?case using assms(1) less.prems
  proof (cases rule: pprev_cases)
    case root
    then show ?thesis by (subst ancestors.simps) simp
  next
    case (child j)
    have "i \<notin> set (ancestors t j)" using height_ancestor [OF assms(1), of j i] child(2) less.prems by fastforce
    then show ?thesis using less.IH [OF child(2)] child less.prems by (subst ancestors.simps) simp
  qed
qed

text \<open>
  C9. On every well-formed tree the search for the fork ends and finds the last common ancestor of the two
  blocks; the lists of blocks to disconnect and to connect are the two paths down to it, and share no block.
\<close>

theorem fork_is_last_common_ancestor:
  assumes "tree_ok t" and "best < length t" and "new < length t"
  shows "\<exists>k vDisconnect vConnect. find_fork t best new = Some k \<and> branch t best k = Some vDisconnect \<and> branch t new k = Some vConnect \<and>
    ancestors t best = vDisconnect @ ancestors t k \<and> ancestors t new = vConnect @ ancestors t k \<and> set vDisconnect \<inter> set vConnect = {}"
proof -
  obtain k where k: "find_fork t best new = Some k" "k \<in> set (ancestors t best)" "k \<in> set (ancestors t new)"
    "set (ancestors t best) \<inter> set (ancestors t new) = set (ancestors t k)" using find_fork_spec [OF assms] by blast
  obtain v w where v: "branch t best k = Some v" "ancestors t best = v @ ancestors t k"
    and w: "branch t new k = Some w" "ancestors t new = w @ ancestors t k" using branch_spec k(2,3) by blast
  have "distinct (v @ ancestors t k)" using distinct_ancestors [OF assms(1,2)] by (simp add: v(2))
  then have "set v \<inter> set w = {}" using k(4) v(2) w(2) by auto
  then show ?thesis using k(1) v w by blast
qed

section \<open>What reorganizing does to the index\<close>

text \<open>An index that connecting blocks, in order, makes of another.\<close>

inductive connects :: "'a openssl_scheme \<Rightarrow> bool \<Rightarrow> block_files \<Rightarrow> (uint256 \<rightharpoonup> CTxIndex) \<Rightarrow> CBlock list \<Rightarrow> (uint256 \<rightharpoonup> CTxIndex) \<Rightarrow> bool"
  for lib fTestNet files where
  none: "connects lib fTestNet files m [] m"
| more: "connects lib fTestNet files m bs m1 \<Longrightarrow> bi_nFile (hd pindex) \<noteq> - 1 \<Longrightarrow>
    ConnectBlock lib env pindex b (db_over lib fTestNet files m1) bm store c = Inr (p, db', bm', store', c') \<Longrightarrow>
    connects lib fTestNet files m (bs @ [b]) (mapTxIndex db')"

lemma connects_trans: "connects lib f files m1 bs' m2 \<Longrightarrow> connects lib f files m bs m1 \<Longrightarrow> connects lib f files m (bs @ bs') m2"
proof (induction rule: connects.induct)
  case (more m1 bs' m2 pindex env b bm store c p db' bm' store' c')
  then show ?case using connects.more [of lib f files m "bs @ bs'"] by simp
qed simp

lemma connects_Cons:
  assumes "ConnectBlock lib env pindex b (db_over lib f files m) bm store c = Inr (p, db', bm', store', c')"
    and "bi_nFile (hd pindex) \<noteq> - 1" and "connects lib f files (mapTxIndex db') bs m'"
  shows "connects lib f files m (b # bs) m'"
  using connects_trans [OF assms(3)] connects.more [OF connects.none assms(2,1)] by (metis append_Cons append_Nil)

lemma ConnectBlock_db_over:
  assumes "ConnectBlock lib env pindex b (db_over lib f files m) bm store c = Inr (p, db', bm', store', c')"
  shows "db_over lib f files (mapTxIndex db') = db'"
proof -
  obtain s :: connect_state where "db' = view_db (db_over lib f files m) (mapQueuedChanges s)" by (rule ConnectBlock_Inr [OF assms])
  then show ?thesis by (simp add: db_over_def view_db_def)
qed

lemma connect_txs_dom:
  assumes "connect_txs lib env db pindex blockHash txs s = Inr s'" and "bi_nFile (hd pindex) \<noteq> - 1"
  shows "dom (index_view db (mapQueuedChanges s')) = dom (index_view db (mapQueuedChanges s)) \<union> tx_hash lib ` set txs"
  using assms(1)
proof (induction txs arbitrary: s)
  case (Cons tx txs)
  obtain t where t: "connect_tx lib env db pindex blockHash tx s = Inr t" and r: "connect_txs lib env db pindex blockHash txs t = Inr s'"
    using Cons.prems by (auto split: sum.split_asm)
  have "dom (index_view db (mapQueuedChanges t)) = insert (tx_hash lib tx) (dom (index_view db (mapQueuedChanges s)))"
    unfolding connect_tx_view(1) [OF t assms(2)] by (auto simp: dom_def)
  then show ?case using Cons.IH [OF r] by simp
qed simp

lemma ConnectBlock_dom:
  assumes "ConnectBlock lib env pindex b db bm store c = Inr (p, db', bm', store', c')" and "bi_nFile (hd pindex) \<noteq> - 1"
  shows "dom (mapTxIndex db') = dom (mapTxIndex db) \<union> tx_hash lib ` set (vtx b)"
proof -
  obtain s where cn: "connect_txs lib env db pindex (GetIDHash lib b) (vtx b)
           \<lparr> cs_nTxPos = first_tx_pos b (hd pindex), mapQueuedChanges = Map.empty, cs_nFees = 0, cs_nValueIn = 0,
             cs_nValueOut = 0, cs_nSigOps = 0, cs_nTx = 0, cs_store = store, cs_cache = c \<rparr> = Inr s"
    and db': "db' = view_db db (mapQueuedChanges s)" by (rule ConnectBlock_Inr [OF assms(1)])
  show ?thesis using connect_txs_dom [OF cn assms(2)] by (simp add: db' index_view_def)
qed

lemma connects_dom: "connects lib f files m bs m' \<Longrightarrow> dom m' = dom m \<union> tx_hash lib ` (\<Union>b\<in>set bs. set (vtx b))"
  by (induction rule: connects.induct) (auto simp: ConnectBlock_dom db_over_def)

text \<open>The transactions of the blocks are new, and carry no infos.\<close>

definition plain_blocks :: "'a openssl_scheme \<Rightarrow> (uint256 \<rightharpoonup> CTxIndex) \<Rightarrow> CBlock list \<Rightarrow> bool" where
  "plain_blocks lib m bs \<longleftrightarrow> list_all (\<lambda>b. list_all no_infos (vtx b)) bs \<and>
     distinct (concat (map (\<lambda>b. map (tx_hash lib) (vtx b)) bs)) \<and> (\<forall>b\<in>set bs. \<forall>tx\<in>set (vtx b). m (tx_hash lib tx) = None)"

lemma connects_fresh:
  assumes "connects lib f files m bs m1" and "plain_blocks lib m (bs @ [b])"
  shows "\<forall>tx\<in>set (vtx b). m1 (tx_hash lib tx) = None" and "list_all no_infos (vtx b)" and "plain_blocks lib m bs"
proof -
  show "list_all no_infos (vtx b)" "plain_blocks lib m bs" using assms(2) by (auto simp: plain_blocks_def)
  have "tx_hash lib tx \<notin> dom m1" if "tx \<in> set (vtx b)" for tx
    using assms(2) that connects_dom [OF assms(1)] by (auto simp: plain_blocks_def dom_def)
  then show "\<forall>tx\<in>set (vtx b). m1 (tx_hash lib tx) = None" by blast
qed

lemma connects_index_ok:
  assumes "connects lib f files m bs m'" and "plain_blocks lib m bs" and "index_ok m"
  shows "index_ok m'"
  using assms
proof (induction rule: connects.induct)
  case (more m bs m1 pindex env b bm store c p db' bm' store' c')
  note fresh = connects_fresh [OF more.hyps(1) more.prems(1)]
  have "mapTxIndex (db_over lib f files m1) = m1" by (simp add: db_over_def)
  then have "\<exists>ops. index.steps ops (db_over lib f files m1) db'" using ConnectBlock_steps [OF more.hyps(3,2)] fresh(1) by auto
  then show ?case using index.steps_inv more.IH [OF fresh(3) more.prems(2)] by (fastforce simp: db_over_def)
qed simp

lemma disconnect_loop_connects:
  assumes "connects lib (env_fTestNet env) files m bs m'" and "plain_blocks lib m bs" and "index_ok m"
    and "nd_files st = files" and "nd_index st = m'" and "InTransaction (nd_store st)"
    and "map (ReadFromDisk_index lib env st) is = map Some (rev bs)"
  shows "\<exists>bm. disconnect_loop lib env is st v = Some (st\<lparr> nd_index := m, nd_blocks := bm \<rparr>,
    v @ filter (\<lambda>tx. \<not> (IsCoinBase tx \<or> IsCoinStake tx)) (concat (map vtx (rev bs))))"
  using assms
proof (induction arbitrary: st "is" v rule: connects.induct)
  case (none m)
  then show ?case by (intro exI [of _ "nd_blocks st"]) simp
next
  case (more m bs m1 pindex env' b bm store c p db' bm' store' c')
  note fresh = connects_fresh [OF more.hyps(1) more.prems(1)]
  obtain i js where "is": "is = i # js" and i: "ReadFromDisk_index lib env st i = Some b"
    and js: "map (ReadFromDisk_index lib env st) js = map Some (rev bs)" using more.prems(6) by auto
  let ?db = "db_over lib (env_fTestNet env) files m1"
  have db: "node_db lib env st = db'" unfolding node_db_def more.prems(3,4) by (rule ConnectBlock_db_over [OF more.hyps(3)])
  have m1: "\<forall>tx\<in>set (vtx b). mapTxIndex ?db (tx_hash lib tx) = None" "index_ok (mapTxIndex ?db)" "mapTxIndex ?db = m1"
    using fresh(1) connects_index_ok [OF more.hyps(1) fresh(3) more.prems(2)] by (simp_all add: db_over_def)
  obtain bm1 where d: "DisconnectBlock lib (env_fTestNet env) (chain_at (nd_tree st) i) b db' (nd_blocks st) (nd_store st) = Some (?db, bm1, nd_store st)"
    using DisconnectBlock_undo(1) [OF more.hyps(3,2) m1(1,2) fresh(2) more.prems(5)] by blast
  define st1 where "st1 = st\<lparr> nd_index := m1, nd_blocks := bm1 \<rparr>"
  have "ReadFromDisk_index lib env st1 = ReadFromDisk_index lib env st" by (simp add: fun_eq_iff st1_def ReadFromDisk_index_def)
  then have "map (ReadFromDisk_index lib env st1) js = map Some (rev bs)" using js by simp
  then obtain bm2 where "disconnect_loop lib env js st1 (v @ filter (\<lambda>tx. \<not> (IsCoinBase tx \<or> IsCoinStake tx)) (vtx b)) =
      Some (st1\<lparr> nd_index := m, nd_blocks := bm2 \<rparr>, (v @ filter (\<lambda>tx. \<not> (IsCoinBase tx \<or> IsCoinStake tx)) (vtx b)) @
        filter (\<lambda>tx. \<not> (IsCoinBase tx \<or> IsCoinStake tx)) (concat (map vtx (rev bs))))"
    using more.IH [OF fresh(3) more.prems(2), of st1 js "v @ filter (\<lambda>tx. \<not> (IsCoinBase tx \<or> IsCoinStake tx)) (vtx b)"] more.prems(3,5)
    by (auto simp: st1_def)
  moreover have "disconnect_loop lib env is st v = disconnect_loop lib env js st1 (v @ filter (\<lambda>tx. \<not> (IsCoinBase tx \<or> IsCoinStake tx)) (vtx b))"
    using d by (simp add: "is" i db m1(3) st1_def)
  ultimately show ?case by (intro exI [of _ bm2]) (simp add: st1_def)
qed

text \<open>Connecting changes a block in the tree in its mint alone.\<close>

definition no_mint :: "CBlockIndex \<Rightarrow> CBlockIndex" where
  "no_mint p = p\<lparr> bi_nMint := 0, bi_nMoneySupply := 0, bi_nPoSTotalMint := 0, bi_nPoSDebt := 0 \<rparr>"

definition same_places :: "block_tree \<Rightarrow> block_tree \<Rightarrow> bool" where
  "same_places t t' \<longleftrightarrow> length t' = length t \<and> (\<forall>i. pprev t' i = pprev t i \<and> no_mint (bi_at t' i) = no_mint (bi_at t i))"

lemma same_places_refl [simp]: "same_places t t"
  by (simp add: same_places_def)

lemma same_places_trans: "same_places t t' \<Longrightarrow> same_places t' t'' \<Longrightarrow> same_places t t''"
  by (simp add: same_places_def)

lemma no_mint_fields:
  "bi_hash p = bi_hash (no_mint p)" "bi_nFile p = bi_nFile (no_mint p)" "bi_nBlockPos p = bi_nBlockPos (no_mint p)"
  "bi_nHeight p = bi_nHeight (no_mint p)" "bi_bnChainTrust p = bi_bnChainTrust (no_mint p)"
  by (simp_all add: no_mint_def)

lemma same_places_field:
  assumes "same_places t t'"
  shows "bi_hash (bi_at t' i) = bi_hash (bi_at t i)" "bi_nFile (bi_at t' i) = bi_nFile (bi_at t i)"
    "bi_nBlockPos (bi_at t' i) = bi_nBlockPos (bi_at t i)" "bi_nHeight (bi_at t' i) = bi_nHeight (bi_at t i)"
    "bi_bnChainTrust (bi_at t' i) = bi_bnChainTrust (bi_at t i)"
  using assms no_mint_fields unfolding same_places_def by metis+

lemma mint_fields_no_mint: "no_mint (mint_fields b c s n) = no_mint (hd c)"
  by (simp add: mint_fields_def no_mint_def Let_def)

lemma hd_chain_at [simp]: "hd (chain_at t i) = bi_at t i"
  by (subst chain_at.simps) simp

lemma nth_update: "t[i := x] ! j = (if j = i \<and> i < length t then x else t ! j)"
  by (cases "i < length t") (auto simp: nth_list_update list_update_beyond not_less)

lemma same_places_upd:
  assumes "no_mint p = no_mint (bi_at t i)"
  shows "same_places t (t[i := (t ! i)\<lparr> nd_bi := p \<rparr>])"
  using assms by (auto simp: same_places_def bi_at_def pprev_def nth_update)

lemma same_places_pnext: "same_places t (foldl (set_pnext f) t is)"
proof (induction "is" rule: rev_induct)
  case (snoc i "is")
  let ?t = "foldl (set_pnext f) t is"
  have "same_places ?t (?t[j := (?t ! j)\<lparr> nd_pnext := x \<rparr>])" for j x
    by (auto simp: same_places_def bi_at_def pprev_def nth_update)
  then have "same_places ?t (set_pnext f ?t i)" by (simp add: set_pnext_def split: option.split)
  then show ?case using snoc same_places_trans by simp
qed simp

lemma node_ConnectBlock_cases:
  obtains (conn) p db' m' store' c' where "node_ConnectBlock lib env i b st =
        (Done, st\<lparr> nd_tree := (nd_tree st)[i := (nd_tree st ! i)\<lparr> nd_bi := p \<rparr>], nd_index := mapTxIndex db',
                   nd_blocks := m', nd_store := store', nd_cache := c' \<rparr>)"
      and "ConnectBlock lib (node_env env st) (chain_at (nd_tree st) i) b (node_db lib env st) (nd_blocks st) (nd_store st) (nd_cache st) =
        Inr (p, db', m', store', c')" and "no_mint p = no_mint (bi_at (nd_tree st) i)"
    | (refused) r where "r \<noteq> Done" and "node_ConnectBlock lib env i b st = (r, st\<lparr> nd_store :=
        failed_store lib (node_env env st) (chain_at (nd_tree st) i) b (node_db lib env st) (nd_store st) (nd_cache st) \<rparr>)"
proof (cases "ConnectBlock lib (node_env env st) (chain_at (nd_tree st) i) b (node_db lib env st) (nd_blocks st) (nd_store st) (nd_cache st)")
  case (Inl e)
  then show thesis using refused by (cases e) (auto simp: node_ConnectBlock_def Let_def)
next
  case (Inr q)
  obtain p db' m' store' c' where q: "q = (p, db', m', store', c')" by (cases q)
  note c = Inr [unfolded q]
  obtain s n where "p = mint_fields b (chain_at (nd_tree st) i) s n" by (rule ConnectBlock_Inr [OF c])
  then have "no_mint p = no_mint (bi_at (nd_tree st) i)" by (simp add: mint_fields_no_mint)
  then show thesis using conn c by (simp add: node_ConnectBlock_def Let_def)
qed

lemma ReadFromDisk_index_places:
  assumes "same_places (nd_tree st) (nd_tree st')" and "nd_files st' = nd_files st"
  shows "ReadFromDisk_index lib env st' i = ReadFromDisk_index lib env st i"
  by (simp add: ReadFromDisk_index_def Let_def same_places_field [OF assms(1)] assms(2) split: option.split)

lemma ReadFromDisk_index_file: "ReadFromDisk_index lib env st i = Some b \<Longrightarrow> bi_nFile (bi_at (nd_tree st) i) \<noteq> - 1"
  by (auto simp: ReadFromDisk_index_def ReadBlockFromDisk_def OpenBlockFile_def Let_def split: option.split_asm if_split_asm)

text \<open>Globals that reorganizing leaves alone.\<close>

definition same_globals :: "node \<Rightarrow> node \<Rightarrow> bool" where
  "same_globals st st' \<longleftrightarrow> nd_files st' = nd_files st \<and> pindexGenesisBlock st' = pindexGenesisBlock st \<and> pindexBest st' = pindexBest st \<and>
     hashBestChain st' = hashBestChain st \<and> nBestHeight st' = nBestHeight st \<and> bnBestChainTrust st' = bnBestChainTrust st \<and>
     bnBestInvalidTrust st' = bnBestInvalidTrust st"

lemma same_globals_refl [simp]: "same_globals st st"
  by (simp add: same_globals_def)

lemma same_globals_trans: "same_globals a b \<Longrightarrow> same_globals b c \<Longrightarrow> same_globals a c"
  by (simp add: same_globals_def)

lemma node_ConnectBlock_same:
  assumes "node_ConnectBlock lib env i b st = (r, st')"
  shows "same_places (nd_tree st) (nd_tree st') \<and> same_globals st st' \<and> nd_mempool st' = nd_mempool st"
proof (cases rule: node_ConnectBlock_cases [of lib env i b st])
  case (conn p db' m' store' c')
  then show ?thesis using assms same_places_upd [OF conn(3)] by (auto simp: same_globals_def)
qed (use assms in \<open>auto simp: same_globals_def\<close>)

lemma connect_loop_connects:
  assumes "connect_loop lib env is st v = (Done, st', v')"
  shows "same_places (nd_tree st) (nd_tree st') \<and> same_globals st st' \<and> nd_mempool st' = nd_mempool st \<and>
    (\<exists>bs. map (ReadFromDisk_index lib env st) is = map Some bs \<and> v' = v @ concat (map vtx bs) \<and>
      connects lib (env_fTestNet env) (nd_files st) (nd_index st) bs (nd_index st'))"
  using assms
proof (induction "is" arbitrary: st v)
  case Nil
  then show ?case by (auto intro: connects.none)
next
  case (Cons i js)
  obtain b st1 where b: "ReadFromDisk_index lib env st i = Some b" and s1: "node_ConnectBlock lib env i b st = (Done, st1)"
    and r: "connect_loop lib env js st1 (v @ vtx b) = (Done, st', v')"
    using Cons.prems by (auto split: option.split_asm prod.split_asm outcome.split_asm)
  note same = node_ConnectBlock_same [OF s1]
  have files: "nd_files st1 = nd_files st" using same by (simp add: same_globals_def)
  obtain bs where bs: "map (ReadFromDisk_index lib env st1) js = map Some bs" "v' = (v @ vtx b) @ concat (map vtx bs)"
    and cn: "connects lib (env_fTestNet env) (nd_files st1) (nd_index st1) bs (nd_index st')" using Cons.IH [OF r] by blast
  have "ReadFromDisk_index lib env st1 = ReadFromDisk_index lib env st"
    using same files by (simp add: fun_eq_iff ReadFromDisk_index_places)
  then have "map (ReadFromDisk_index lib env st) (i # js) = map Some (b # bs)" using b bs(1) by simp
  moreover have "connects lib (env_fTestNet env) (nd_files st) (nd_index st) (b # bs) (nd_index st')"
  proof (cases rule: node_ConnectBlock_cases [of lib env i b st])
    case (conn p db' m' store' c')
    have "nd_index st1 = mapTxIndex db'" using conn(1) s1 by auto
    then show ?thesis using connects_Cons [OF conn(2) [unfolded node_db_def]] ReadFromDisk_index_file [OF b] cn files by simp
  qed (use s1 in simp)
  moreover have "v' = v @ concat (map vtx (b # bs))" using bs(2) by simp
  ultimately show ?case using Cons.IH [OF r] same same_places_trans same_globals_trans by (metis (no_types, lifting))
qed


section \<open>A chain that is refused\<close>

text \<open>Everything that happens to the store keeps the snapshot its open transaction can be rolled back to.\<close>

abbreviation same_snapshot :: "CTxInfoStore \<Rightarrow> CTxInfoStore \<Rightarrow> bool" where
  "same_snapshot s s' \<equiv> curTransaction s' = curTransaction s"

lemma InTransaction_snapshot: "same_snapshot s s' \<Longrightarrow> InTransaction s' = InTransaction s"
  by (simp add: InTransaction_def)

lemma Store_Process_snapshot: "InTransaction s \<Longrightarrow> same_snapshot s (snd (Store_Process lib s r))"
  by (simp add: Store_Process_def with_view_def do_Process_def Let_def split: answer.split)

lemma Store_Undo_snapshot: "InTransaction s \<Longrightarrow> same_snapshot s (snd (Store_Undo lib s r))"
  by (simp add: Store_Undo_def with_view_def do_Undo_def Let_def)

lemma proc_infos_snapshot: "InTransaction s \<Longrightarrow> same_snapshot s (snd (proc_infos lib u addr h n i is s))"
proof (induction "is" arbitrary: s)
  case (Cons a "is")
  obtain j info where a: "a = (j, info)" by (cases a)
  let ?r = "\<lparr> rec_addr = addr, rec_info = info, rec_blockHash = h, rec_indexTx = n, rec_indexTxIn = i, rec_indexInfo = int j \<rparr>"
  obtain x s1 where x: "(if u then Store_Undo lib s ?r else Store_Process lib s ?r) = (x, s1)" by fastforce
  then have "same_snapshot s s1"
    using Store_Process_snapshot [OF Cons.prems, of lib ?r] Store_Undo_snapshot [OF Cons.prems, of lib ?r] by (auto split: if_split_asm)
  then have "same_snapshot s s1" "InTransaction s1" using Cons.prems by (simp_all add: InTransaction_def)
  then show ?case using x Cons.IH [of s1] by (simp add: a Let_def split: answer.split)
qed simp

lemma proc_inputs_snapshot: "InTransaction s \<Longrightarrow> same_snapshot s (snd (proc_inputs lib f u h n db ins s))"
proof (induction ins arbitrary: s)
  case (Cons a ins)
  obtain i txin where a: "a = (i, txin)" by (cases a)
  have "same_snapshot s (snd (case proc_infos lib u addr h n (int i) js s of (Yes, s) \<Rightarrow> proc_inputs lib f u h n db ins s | (x, s) \<Rightarrow> (x, s)))"
    for addr js
  proof -
    obtain x s1 where x: "proc_infos lib u addr h n (int i) js s = (x, s1)" by fastforce
    have "same_snapshot s s1" using proc_infos_snapshot [OF Cons.prems, of lib u addr h n "int i" js] x by simp
    moreover have "InTransaction s1" using calculation Cons.prems by (simp add: InTransaction_def)
    ultimately show ?thesis using x Cons.IH [of s1] by (simp split: answer.split)
  qed
  then show ?case using Cons.IH [OF Cons.prems] by (simp add: a Let_def split: option.split)
qed simp

lemma ProcessTxInfos_snapshot: "same_snapshot s (snd (ProcessTxInfos lib f db h n tx s))"
  and UndoTxInfos_snapshot: "same_snapshot s (snd (UndoTxInfos lib f db h n tx s))"
  by (simp_all add: ProcessTxInfos_def UndoTxInfos_def procUndoTxInfos_def Let_def proc_inputs_snapshot)

lemma connect_tx_snapshot:
  assumes "connect_tx lib env db pindex blockHash tx s = Inr s'"
  shows "same_snapshot (cs_store s) (cs_store s')"
proof (cases "IsCoinBase tx")
  case True
  then show ?thesis using assms by (auto simp: connect_tx_def Let_def split: if_split_asm option.split_asm)
next
  case False
  obtain f d h n where "ProcessTxInfos lib f d h n tx (cs_store s) = (Yes, cs_store s')"
    using assms False
    by (auto simp: connect_tx_def connect_spend_def Let_def split: if_split_asm option.split_asm sum.split_asm prod.split_asm answer.split_asm)
  then show ?thesis using ProcessTxInfos_snapshot [of lib f d h n tx "cs_store s"] by simp
qed

lemma connect_txs_snapshot: "connect_txs lib env db pindex blockHash txs s = Inr s' \<Longrightarrow> same_snapshot (cs_store s) (cs_store s')"
  by (induction txs arbitrary: s) (auto dest: connect_tx_snapshot split: sum.split_asm)

lemma failed_txs_snapshot: "same_snapshot (cs_store s) (failed_txs_store lib env db pindex blockHash txs s)"
proof (induction txs arbitrary: s)
  case (Cons tx txs)
  have "same_snapshot (cs_store s) (failed_tx_store lib env db pindex blockHash tx s)"
    by (simp add: failed_tx_store_def Let_def ProcessTxInfos_snapshot split: sum.split option.split)
  then show ?case using Cons by (auto dest: connect_tx_snapshot split: sum.split)
qed simp

lemma node_ConnectBlock_snapshot:
  assumes "node_ConnectBlock lib env i b st = (r, st')"
  shows "same_snapshot (nd_store st) (nd_store st')"
proof (cases rule: node_ConnectBlock_cases [of lib env i b st])
  case (conn p db' m' store' c')
  obtain s where cn: "connect_txs lib (node_env env st) (node_db lib env st) (chain_at (nd_tree st) i) (GetIDHash lib b) (vtx b)
       \<lparr> cs_nTxPos = first_tx_pos b (hd (chain_at (nd_tree st) i)), mapQueuedChanges = Map.empty, cs_nFees = 0, cs_nValueIn = 0,
         cs_nValueOut = 0, cs_nSigOps = 0, cs_nTx = 0, cs_store = nd_store st, cs_cache = nd_cache st \<rparr> = Inr s"
    and "store' = cs_store s" by (rule ConnectBlock_Inr [OF conn(2)])
  then show ?thesis using connect_txs_snapshot [OF cn] conn(1) assms by auto
next
  case (refused r)
  have "same_snapshot (nd_store st) (failed_store lib e c b db (nd_store st) ca)" for e c db ca
    by (simp add: failed_store_def failed_txs_snapshot)
  then show ?thesis using refused(2) assms by auto
qed

lemma disconnect_txs_snapshot: "disconnect_txs lib f txs db s = Some (db', s') \<Longrightarrow> same_snapshot s s'"
proof (induction txs arbitrary: db s)
  case (Cons tx txs)
  obtain d s1 where u: "UndoTxInfos lib f d 0 (- 1) tx s = (Yes, s1)" and r: "\<exists>d. disconnect_txs lib f txs d s1 = Some (db', s')"
    using Cons.prems by (auto split: option.split_asm prod.split_asm answer.split_asm)
  then show ?case using Cons.IH UndoTxInfos_snapshot [of lib f d 0 "- 1" tx s] by auto
qed simp

lemma disconnect_loop_same:
  assumes "disconnect_loop lib env is st v = Some (st', v')"
  shows "nd_tree st' = nd_tree st \<and> same_globals st st' \<and> nd_mempool st' = nd_mempool st \<and> same_snapshot (nd_store st) (nd_store st')"
  using assms
proof (induction "is" arbitrary: st v)
  case (Cons i "is")
  obtain st1 v1 where r: "disconnect_loop lib env is st1 v1 = Some (st', v')"
    and s1: "nd_tree st1 = nd_tree st" "same_globals st st1" "nd_mempool st1 = nd_mempool st" "same_snapshot (nd_store st) (nd_store st1)"
    using Cons.prems
    by (auto simp: DisconnectBlock_def same_globals_def dest: disconnect_txs_snapshot split: option.split_asm prod.split_asm)
  then show ?case using Cons.IH [OF r] same_globals_trans by metis
qed simp

lemma connect_loop_same:
  assumes "connect_loop lib env is st v = (r, st', v')"
  shows "same_places (nd_tree st) (nd_tree st') \<and> same_globals st st' \<and> nd_mempool st' = nd_mempool st \<and> same_snapshot (nd_store st) (nd_store st')"
  using assms
proof (induction "is" arbitrary: st v)
  case (Cons i "is")
  show ?case
  proof (cases "ReadFromDisk_index lib env st i")
    case (Some b)
    obtain r1 st1 where n: "node_ConnectBlock lib env i b st = (r1, st1)" by fastforce
    note same = node_ConnectBlock_same [OF n] node_ConnectBlock_snapshot [OF n]
    show ?thesis
    proof (cases "r1 = Done")
      case True
      then have "connect_loop lib env is st1 (v @ vtx b) = (r, st', v')" using Cons.prems Some n by simp
      then show ?thesis using Cons.IH same same_places_trans same_globals_trans by metis
    next
      case False
      then have "st' = st1" using Cons.prems Some n by (cases r1) auto
      then show ?thesis using same by simp
    qed
  qed (use Cons.prems in auto)
qed simp

lemma Reorganize_not_done:
  assumes "Reorganize lib env hashSync new st = (r, st')" and "r \<noteq> Done"
  shows "same_places (nd_tree st) (nd_tree st') \<and> same_globals st st' \<and> nd_mempool st' = nd_mempool st \<and> same_snapshot (nd_store st) (nd_store st')"
proof -
  have loop: "same_places (nd_tree st) (nd_tree s2) \<and> same_globals st s2 \<and> nd_mempool s2 = nd_mempool st \<and> same_snapshot (nd_store st) (nd_store s2)"
    if "disconnect_loop lib env is st [] = Some (s1, v)" "connect_loop lib env js s1 [] = (q, s2, w)" for "is" js s1 v q s2 w
    using disconnect_loop_same [OF that(1)] connect_loop_same [OF that(2)] same_globals_trans by metis
  show ?thesis using assms loop
    by (auto simp: Reorganize_def Let_def split: option.split_asm prod.split_asm if_split_asm outcome.split_asm)
qed

lemma advance_failed:
  assumes "advance lib env hashSync new b st = (Failed, st')"
  shows "nd_index st' = nd_index st \<and> nd_blocks st' = nd_blocks st \<and> nd_hashBest st' = nd_hashBest st \<and> nd_mempool st' = nd_mempool st \<and>
    same_places (nd_tree st) (nd_tree st') \<and> same_globals (st\<lparr> bnBestInvalidTrust := bnBestInvalidTrust st' \<rparr>) st' \<and>
    same_snapshot (nd_store st) (nd_store st')"
proof -
  have abort: ?thesis if "st' = InvalidChainFound j (TxnAbort st s)" "same_places (nd_tree st) (nd_tree s)" "same_globals st s"
    "nd_mempool s = nd_mempool st" "same_snapshot (nd_store st) (nd_store s)" for j s
    using that by (auto simp: InvalidChainFound_def TxnAbort_def same_globals_def)
  have inner: ?thesis if i: "SetBestChainInner lib env new b st = (Failed, st')"
  proof -
    obtain s where s: "node_ConnectBlock lib env new b st = (Failed, s)" "st' = InvalidChainFound new (TxnAbort st s)"
      using i by (auto simp: SetBestChainInner_def split: prod.split_asm outcome.split_asm)
    then show ?thesis using abort node_ConnectBlock_same [OF s(1)] node_ConnectBlock_snapshot [OF s(1)] by blast
  qed
  have "fst (secondary_loop lib env is s) \<noteq> Failed" for "is" s
    by (induction "is" arbitrary: s) (auto split: option.split prod.split outcome.split)
  then have none: "secondary_loop lib env is s \<noteq> (Failed, st')" for "is" s by (metis fst_conv)
  show ?thesis
  proof (cases "\<not> (pindexGenesisBlock st = None \<and> GetIDHash lib b = env_hashGenesisBlock env) \<and> blk_hashPrevBlock b \<noteq> hashBestChain st")
    case True
    obtain best where best: "pindexBest st = Some best"
      using assms True by (cases "pindexBest st") (auto simp: advance_def Let_def split: if_split_asm)
    obtain mid vs where "postpone (nd_tree st) (bi_bnChainTrust (bi_at (nd_tree st) best)) new [] = (mid, vs)" by fastforce
    then obtain s where "Reorganize lib env hashSync mid st = (Failed, s)" "st' = InvalidChainFound new (TxnAbort st s)"
      using assms True none best by (auto simp: advance_def Let_def split: prod.split_asm outcome.split_asm)
    then show ?thesis using abort Reorganize_not_done by blast
  qed (use assms inner in \<open>auto simp: advance_def Let_def split: if_split_asm\<close>)
qed


section \<open>A postponed block that does not connect\<close>


section \<open>Three blocks\<close>

text \<open>A root and blocks above it, the block of the ledger on disk for each of them.\<close>

definition demo_root :: CBlockIndex where
  "demo_root = demo_index\<lparr> bi_hash := 32, bi_nHeight := 0, bi_nPoWHeight := 0, bi_nPoSDebt := 0 \<rparr>"

definition demo_child :: "uint32 \<Rightarrow> uint32 \<Rightarrow> int \<Rightarrow> int \<Rightarrow> CBlockIndex" where
  "demo_child nFile nBlockPos h trust = demo_root\<lparr> bi_nFile := nFile, bi_nBlockPos := nBlockPos, bi_nHeight := h, bi_bnChainTrust := trust \<rparr>"

definition demo_node :: "block_files \<Rightarrow> (uint256 \<rightharpoonup> CTxIndex) \<Rightarrow> block_tree \<Rightarrow> nat \<Rightarrow> node" where
  "demo_node files m t best = \<lparr> nd_index = m, nd_blocks = Map.empty, nd_hashBest = 0, nd_files = files,
     nd_store = Store_Initialize, nd_cache = no_cache, nd_mempool = pool_init, nd_tree = t, pindexGenesisBlock = Some 0,
     pindexBest = Some best, hashBestChain = 5, nBestHeight = 0, bnBestChainTrust = 0, bnBestInvalidTrust = 0 \<rparr>"

lemma demo_reward: "GetNextProofOfWorkReward [demo_root] True = COIN"
  by (simp add: GetNextProofOfWorkReward_def demo_root_def demo_index_def full_subsidy_def MAX_MINT_PROOF_OF_WORK_def COIN_def i64_id)

lemma demo_connect_on:
  assumes "mapTxIndex db = Map.empty" and "block_env.truncate env = demo_block_env"
  shows "\<exists>p db' m' store' c'. ConnectBlock demo_lib env [q, demo_root] demo_cblock db bm store ca = Inr (p, db', m', store', c')"
proof -
  have v: "vtx demo_cblock = [demo_coinbase]" by (simp add: demo_cblock_def)
  have w: "IsProofOfWork demo_cblock" by (simp add: IsProofOfWork_def IsProofOfStake_def v)
  show ?thesis
    using w demo_sigops demo_coinbase_is(1,2) assms
    by (simp add: ConnectBlock_def demo_CheckBlock IsProofOfWork_def v overwrites_def ReadTxIndex_def connect_tx_def Let_def
        demo_reward COIN_def i64_id MAX_BLOCK_SIGOPS_def)
qed

lemma demo_written:
  obtains nFile nBlockPos files where "stored files nFile nBlockPos demo_cblock" and "nFile \<noteq> - 1"
proof -
  have "AppendBlockFile Map.empty 1 = Some 1" by (subst AppendBlockFile.simps) (simp add: MAX_SIZE_def)
  then obtain nFile nBlockPos files where w: "WriteToDisk False demo_cblock Map.empty 1 = Some (nFile, nBlockPos, files)"
    by (auto simp: WriteToDisk_def Let_def)
  have st: "stored files nFile nBlockPos demo_cblock" by (rule WriteToDisk_stored(1) [OF w demo_block_size])
  then have "nFile \<noteq> - 1" by (simp add: stored_def)
  then show thesis using that st by blast
qed

lemma demo_readable:
  assumes "stored files nFile nBlockPos demo_cblock" and "nd_files st = files" and "bi_at (nd_tree st) i = demo_child nFile nBlockPos h trust"
  shows "ReadFromDisk_index demo_lib demo_connect_env st i = Some demo_cblock"
proof -
  have "CheckProofOfWork demo_lib False 0 0x01100000"
    by (simp add: CheckProofOfWork_def Let_def demo_SetCompact bnNewProofOfWorkLimit_def)
  then show ?thesis using stored_read [OF assms(1) demo_block_fits, of demo_lib False] assms(2,3)
    by (simp add: ReadFromDisk_index_def Let_def demo_child_def demo_root_def demo_connect_env_def GetIDHash_def demo_Hash)
       (simp add: demo_cblock_def)
qed

lemma demo_node_connects:
  assumes "nd_index st = Map.empty" and "chain_at (nd_tree st) i = [q, demo_root]"
  shows "\<exists>st'. node_ConnectBlock demo_lib demo_connect_env i demo_cblock st = (Done, st')"
proof -
  have "mapTxIndex (node_db demo_lib demo_connect_env st) = Map.empty" "block_env.truncate (node_env demo_connect_env st) = demo_block_env"
    using assms(1) demo_env_truncate by (simp_all add: node_db_def db_over_def node_env_def block_env.truncate_def)
  then obtain p db' m' store' c' where "ConnectBlock demo_lib (node_env demo_connect_env st) [q, demo_root] demo_cblock
      (node_db demo_lib demo_connect_env st) (nd_blocks st) (nd_store st) (nd_cache st) = Inr (p, db', m', store', c')"
    using demo_connect_on by blast
  then show ?thesis by (simp add: node_ConnectBlock_def assms(2) Let_def)
qed

definition fork_tree :: "uint32 \<Rightarrow> uint32 \<Rightarrow> block_tree" where
  "fork_tree nFile nBlockPos =
     [\<lparr> nd_bi = demo_root, nd_pprev = None, nd_pnext = Some 1 \<rparr>,
      \<lparr> nd_bi = demo_child nFile nBlockPos 1 1, nd_pprev = Some 0, nd_pnext = None \<rparr>,
      \<lparr> nd_bi = demo_child nFile nBlockPos 1 1, nd_pprev = Some 0, nd_pnext = None \<rparr>]"

lemma fork_tree_shape:
  "pprev (fork_tree f p) 0 = None" "pprev (fork_tree f p) (Suc 0) = Some 0" "pprev (fork_tree f p) 2 = Some 0"
  "bi_at (fork_tree f p) 0 = demo_root" "bi_at (fork_tree f p) (Suc 0) = demo_child f p 1 1" "bi_at (fork_tree f p) 2 = demo_child f p 1 1"
  by (simp_all add: pprev_def fork_tree_def bi_at_def)

lemma fork_tree_fork:
  "find_fork (fork_tree f p) 1 2 = Some 0" "branch (fork_tree f p) 1 0 = Some [1]" "branch (fork_tree f p) 2 0 = Some [2]"
  "chain_at (fork_tree f p) 2 = [demo_child f p 1 1, demo_root]"
  by (simp_all add: fork_tree_shape demo_child_def demo_root_def find_fork.simps back_to.simps branch.simps chain_at.simps)

theorem fork_is_last_common_ancestor_witness:
  "tree_ok (fork_tree 1 8) \<and> (\<exists>k vDisconnect vConnect. find_fork (fork_tree 1 8) 1 2 = Some k \<and>
     branch (fork_tree 1 8) 1 k = Some vDisconnect \<and> branch (fork_tree 1 8) 2 k = Some vConnect \<and> set vDisconnect \<inter> set vConnect = {})"
proof -
  have ok: "tree_ok (fork_tree 1 8)"
    by (simp add: tree_ok_def node_ok_def pprev_def fork_tree_def bi_at_def demo_child_def demo_root_def upt_rec)
  have "1 < length (fork_tree 1 8)" "2 < length (fork_tree 1 8)" by (simp_all add: fork_tree_def)
  then show ?thesis using fork_is_last_common_ancestor [OF ok, of 1 2] ok by blast
qed


lemma ConnectBlock_no_txs:
  assumes "vtx b = []"
  shows "\<exists>n. ConnectBlock lib env c b db bm store ca = Inl (Failure n)"
proof -
  have "CheckBlock lib (block_env.truncate env) False b \<noteq> Accepted" using assms by (simp add: CheckBlock_def Let_def)
  then obtain n where "CheckBlock lib (block_env.truncate env) False b = Rejected n" by (metis check_result.exhaust)
  then show ?thesis by (simp add: ConnectBlock_def)
qed


definition tall_tree :: "uint32 \<Rightarrow> uint32 \<Rightarrow> block_tree" where
  "tall_tree nFile nBlockPos =
     [\<lparr> nd_bi = demo_root, nd_pprev = None, nd_pnext = None \<rparr>,
      \<lparr> nd_bi = demo_child nFile nBlockPos 1 1, nd_pprev = Some 0, nd_pnext = None \<rparr>,
      \<lparr> nd_bi = demo_child (- 1) 0 2 2, nd_pprev = Some 1, nd_pnext = None \<rparr>]"

lemma tall_tree_shape:
  "pprev (tall_tree f p) 0 = None" "pprev (tall_tree f p) (Suc 0) = Some 0" "pprev (tall_tree f p) 2 = Some (Suc 0)"
  "bi_at (tall_tree f p) 0 = demo_root" "bi_at (tall_tree f p) (Suc 0) = demo_child f p 1 1" "bi_at (tall_tree f p) 2 = demo_child (- 1) 0 2 2"
  by (simp_all add: pprev_def tall_tree_def bi_at_def)

lemma tall_tree_fork:
  "find_fork (tall_tree f p) 0 1 = Some 0" "branch (tall_tree f p) 0 0 = Some []" "branch (tall_tree f p) 1 0 = Some [1]"
  "chain_at (tall_tree f p) 1 = [demo_child f p 1 1, demo_root]" "postpone (tall_tree f p) 0 2 [] = (1, [] @ [2])"
  by (simp_all add: tall_tree_shape demo_child_def demo_root_def find_fork.simps back_to.simps branch.simps chain_at.simps postpone.simps demo_index_def)


end
