(* ===== verification/Kernel.thy ===== *)
theory Kernel
  imports BestChain "HOL-Library.Product_Lexorder"
begin

text \<open>
  The proof-of-stake kernel, \<^verbatim>\<open>src/src/kernel.cpp\<close>: the stake modifier that a block contributes to, the hash of a
  kernel and the check of a coinstake. A chain is the list of a block and its predecessors; the modifier of a
  kernel is looked for along the forward pointers of the tree. The debug output is left out.
\<close>

section \<open>The stake modifier\<close>

definition MODIFIER_INTERVAL :: uint32 where "MODIFIER_INTERVAL = 5400"
definition MODIFIER_INTERVAL_RATIO :: int where "MODIFIER_INTERVAL_RATIO = 3"
definition STAKE_MAX_AGE :: int where "STAKE_MAX_AGE = 60 * 60 * 24 * 60"

text \<open>The loop goes back to a block that generated a modifier, or to the first block.\<close>

fun GetLastStakeModifier :: "chain \<Rightarrow> (uint64 \<times> int) option" where
  "GetLastStakeModifier [] = None"
| "GetLastStakeModifier (p # c) =
     (if c \<noteq> [] \<and> \<not> bi_GeneratedStakeModifier p then GetLastStakeModifier c
      else if \<not> bi_GeneratedStakeModifier p then None
      else Some (bi_nStakeModifier p, bi_GetBlockTime p))"

definition GetStakeModifierSelectionIntervalSection :: "uint32 \<Rightarrow> nat \<Rightarrow> int" where
  "GetStakeModifierSelectionIntervalSection nModifierInterval nSection =
     uint (nModifierInterval * 63 div (63 + of_int ((63 - int nSection) * (MODIFIER_INTERVAL_RATIO - 1))))"

definition GetStakeModifierSelectionInterval :: "uint32 \<Rightarrow> int" where
  "GetStakeModifierSelectionInterval nModifierInterval =
     sum_list (map (GetStakeModifierSelectionIntervalSection nModifierInterval) [0..<64])"

text \<open>
  The hash by which a candidate is chosen; it favours proof-of-stake blocks. The loop keeps the best candidate
  so far, if there is one; \<open>index\<close> is the map of all blocks.
\<close>

definition hashSelection :: "'a openssl_scheme \<Rightarrow> uint64 \<Rightarrow> CBlockIndex \<Rightarrow> uint256" where
  "hashSelection lib nStakeModifierPrev p =
     (let hashProof = (if bi_IsProofOfStake p then bi_hashProofOfStake p else bi_hash p);
          h = Hash lib (Serialize_word 32 hashProof @ Serialize_word 8 nStakeModifierPrev)
      in if bi_IsProofOfStake p then drop_bit 32 h else h)"

fun select_loop ::
  "'a openssl_scheme \<Rightarrow> (uint256 \<rightharpoonup> CBlockIndex) \<Rightarrow> uint256 set \<Rightarrow> int \<Rightarrow> uint64 \<Rightarrow> (uint256 \<times> CBlockIndex) option \<Rightarrow>
     (int \<times> uint256) list \<Rightarrow> CBlockIndex option" where
  "select_loop lib index sel stop prev best [] = map_option snd best"
| "select_loop lib index sel stop prev best (item # items) =
     (case index (snd item) of
        None \<Rightarrow> None
      | Some p \<Rightarrow>
          if best \<noteq> None \<and> bi_GetBlockTime p > stop then map_option snd best
          else if bi_hash p \<in> sel then select_loop lib index sel stop prev best items
          else
            let h = hashSelection lib prev p in
            (case best of
               Some (hashBest, q) \<Rightarrow>
                 select_loop lib index sel stop prev (if h < hashBest then Some (h, p) else best) items
             | None \<Rightarrow> select_loop lib index sel stop prev (Some (h, p)) items))"

definition SelectBlockFromCandidates ::
  "'a openssl_scheme \<Rightarrow> (uint256 \<rightharpoonup> CBlockIndex) \<Rightarrow> (int \<times> uint256) list \<Rightarrow> uint256 set \<Rightarrow> int \<Rightarrow> uint64 \<Rightarrow> CBlockIndex option" where
  "SelectBlockFromCandidates lib index vSortedByTimestamp sel nSelectionIntervalStop nStakeModifierPrev =
     select_loop lib index sel nSelectionIntervalStop nStakeModifierPrev None vSortedByTimestamp"

text \<open>The rounds that are left, with the round, the end of its interval, the selected blocks and the modifier.\<close>

fun modifier_rounds ::
  "'a openssl_scheme \<Rightarrow> (uint256 \<rightharpoonup> CBlockIndex) \<Rightarrow> uint32 \<Rightarrow> (int \<times> uint256) list \<Rightarrow> uint64 \<Rightarrow> nat \<Rightarrow> nat \<Rightarrow> int \<Rightarrow> uint256 set \<Rightarrow>
     uint64 \<Rightarrow> uint64 option" where
  "modifier_rounds lib index nModifierInterval v prev 0 nRound stop sel modifier = Some modifier"
| "modifier_rounds lib index nModifierInterval v prev (Suc n) nRound stop sel modifier =
     (let stop = stop + GetStakeModifierSelectionIntervalSection nModifierInterval nRound in
      case SelectBlockFromCandidates lib index v sel stop prev of
        None \<Rightarrow> None
      | Some p \<Rightarrow>
          modifier_rounds lib index nModifierInterval v prev n (Suc nRound) stop (insert (bi_hash p) sel)
            (modifier OR push_bit nRound (ucast (bi_GetStakeEntropyBit p))))"

definition candidates :: "uint32 \<Rightarrow> chain \<Rightarrow> (int \<times> uint256) list" where
  "candidates nModifierInterval c =
     (let nSelectionIntervalStart = bi_GetBlockTime (hd c) div uint nModifierInterval * uint nModifierInterval -
            GetStakeModifierSelectionInterval nModifierInterval
      in sort (rev (map (\<lambda>p. (bi_GetBlockTime p, bi_hash p)) (takeWhile (\<lambda>p. bi_GetBlockTime p \<ge> nSelectionIntervalStart) c))))"

text \<open>\<^verbatim>\<open>ComputeNextStakeModifier(pindexCurrent)\<close>: the modifier and whether it was generated.\<close>

definition ComputeNextStakeModifier ::
  "'a openssl_scheme \<Rightarrow> bool \<Rightarrow> uint32 \<Rightarrow> (uint256 \<rightharpoonup> CBlockIndex) \<Rightarrow> chain \<Rightarrow> (uint64 \<times> bool) option" where
  "ComputeNextStakeModifier lib fTestNet nModifierInterval index c =
     (case tl c of
        [] \<Rightarrow> Some (0, True)
      | pindexPrev # _ \<Rightarrow>
          (case GetLastStakeModifier (tl c) of
             None \<Rightarrow> None
           | Some (nStakeModifier, nModifierTime) \<Rightarrow>
               let i = uint nModifierInterval in
               if nModifierTime div i \<ge> bi_GetBlockTime pindexPrev div i then Some (nStakeModifier, False)
               else if nModifierTime div i \<ge> bi_GetBlockTime (hd c) div i \<and> IsProtocolV04 fTestNet (bi_nTime (hd c))
               then Some (nStakeModifier, False)
               else
                 let v = candidates nModifierInterval (tl c);
                     nSelectionIntervalStart = bi_GetBlockTime pindexPrev div i * i - GetStakeModifierSelectionInterval nModifierInterval
                 in map_option (\<lambda>m. (m, True))
                      (modifier_rounds lib index nModifierInterval v nStakeModifier (min 64 (length v)) 0 nSelectionIntervalStart {} 0)))"

text \<open>The checksum; a first block that is not the genesis block fails the assertion.\<close>

definition GetStakeModifierChecksum :: "'a openssl_scheme \<Rightarrow> uint256 \<Rightarrow> chain \<Rightarrow> uint32 option" where
  "GetStakeModifierChecksum lib hashGenesisBlock c =
     (if tl c = [] \<and> bi_hash (hd c) \<noteq> hashGenesisBlock then None
      else
        let ss = (case tl c of [] \<Rightarrow> [] | q # _ \<Rightarrow> Serialize_word 4 (bi_nStakeModifierChecksum q)) @
                 Serialize_word 4 (bi_nFlags (hd c)) @ Serialize_word 32 (bi_hashProofOfStake (hd c)) @
                 Serialize_word 8 (bi_nStakeModifier (hd c))
        in Some (ucast (ucast (drop_bit (256 - 32) (Hash lib ss)) :: uint64)))"

text \<open>The table of modifier checkpoints is empty.\<close>

definition mapStakeModifierCheckpoints :: "int \<rightharpoonup> uint32" where
  "mapStakeModifierCheckpoints = Map.empty"

definition CheckStakeModifierCheckpoints :: "bool \<Rightarrow> int \<Rightarrow> uint32 \<Rightarrow> bool" where
  "CheckStakeModifierCheckpoints fTestNet nHeight nStakeModifierChecksum =
     (if fTestNet then True
      else case mapStakeModifierCheckpoints nHeight of None \<Rightarrow> True | Some x \<Rightarrow> nStakeModifierChecksum = x)"

section \<open>The kernel hash\<close>

text \<open>The next block on the best chain; it was allocated after the block.\<close>

definition pnext :: "block_tree \<Rightarrow> nat \<Rightarrow> nat option" where
  "pnext t i = (case nd_pnext (t ! i) of None \<Rightarrow> None | Some j \<Rightarrow> if i < j \<and> j < length t then Some j else None)"

function kernel_modifier_loop :: "block_tree \<Rightarrow> int \<Rightarrow> int \<Rightarrow> nat \<Rightarrow> uint64 option" where
  "kernel_modifier_loop t until nStakeModifierTime i =
     (if nStakeModifierTime < until then
        (case pnext t i of
           None \<Rightarrow> None
         | Some j \<Rightarrow>
             kernel_modifier_loop t until
               (if bi_GeneratedStakeModifier (bi_at t j) then bi_GetBlockTime (bi_at t j) else nStakeModifierTime) j)
      else Some (bi_nStakeModifier (bi_at t i)))"
  by pat_completeness auto
termination
  by (relation "measure (\<lambda>(t, u, m, i). length t - i)") (auto simp: pnext_def split: option.split_asm if_split_asm)

declare kernel_modifier_loop.simps [simp del]

definition GetKernelStakeModifier :: "uint32 \<Rightarrow> (uint256 \<rightharpoonup> nat) \<Rightarrow> block_tree \<Rightarrow> uint256 \<Rightarrow> uint64 option" where
  "GetKernelStakeModifier nModifierInterval mapBlockIndex t hashBlockFrom =
     (case mapBlockIndex hashBlockFrom of
        None \<Rightarrow> None
      | Some i \<Rightarrow>
          let nTime = bi_GetBlockTime (bi_at t i)
          in kernel_modifier_loop t (nTime + GetStakeModifierSelectionInterval nModifierInterval) nTime i)"

definition coin_day_weight :: "bool \<Rightarrow> uint32 \<Rightarrow> int \<Rightarrow> uint32 \<Rightarrow> uint32 \<Rightarrow> int" where
  "coin_day_weight fTestNet nStakeMinAge nValueIn nTimeTxPrev nTimeTx =
     (let nTimeWeight = min (uint nTimeTx - uint nTimeTxPrev) STAKE_MAX_AGE - (if IsProtocolV03 fTestNet nTimeTx then uint nStakeMinAge else 0)
      in bn_div (bn_div (nValueIn * nTimeWeight) COIN) (24 * 60 * 60))"

text \<open>What the kernel reads of the node.\<close>

record kernel_env =
  k_fTestNet :: bool
  k_nStakeMinAge :: uint32
  k_nModifierInterval :: uint32
  k_mapBlockIndex :: "uint256 \<rightharpoonup> nat"
  k_tree :: block_tree

text \<open>
  \<^verbatim>\<open>CheckStakeKernelHash\<close>: the verdict and the hash of the kernel, 0 when it was not computed. The output that is staked
  exists: the caller has read its transaction by it.
\<close>

definition CheckStakeKernelHash ::
  "'a openssl_scheme \<Rightarrow> kernel_env \<Rightarrow> uint32 \<Rightarrow> CBlock \<Rightarrow> uint32 \<Rightarrow> CTransaction \<Rightarrow> COutPoint \<Rightarrow> uint32 \<Rightarrow> bool \<times> uint256" where
  "CheckStakeKernelHash lib env nBits blockFrom nTxPrevOffset txPrev out nTimeTx =
     (let nTimeBlockFrom = blk_nTime blockFrom in
      if nTimeTx < tx_nTime txPrev then (False, 0)
      else if nTimeBlockFrom + k_nStakeMinAge env > nTimeTx then (False, 0)
      else
        let bnTargetPerCoinDay = SetCompact lib nBits;
            bnCoinDayWeight = coin_day_weight (k_fTestNet env) (k_nStakeMinAge env)
              (sint (nValue (vout txPrev ! unat (op_n out)))) (tx_nTime txPrev) nTimeTx
        in
        case (if IsProtocolV03 (k_fTestNet env) nTimeTx then
                map_option (Serialize_word 8)
                  (GetKernelStakeModifier (k_nModifierInterval env) (k_mapBlockIndex env) (k_tree env) (GetIDHash lib blockFrom))
              else Some (Serialize_word 4 nBits)) of
          None \<Rightarrow> (False, 0)
        | Some ss \<Rightarrow>
            let hashProofOfStake = Hash lib (ss @ Serialize_word 4 nTimeBlockFrom @ Serialize_word 4 nTxPrevOffset @
                  Serialize_word 4 (tx_nTime txPrev) @ Serialize_word 4 (op_n out) @ Serialize_word 4 nTimeTx)
            in (\<not> setuint256 lib hashProofOfStake > bnCoinDayWeight * bnTargetPerCoinDay, hashProofOfStake))"

text \<open>\<^verbatim>\<open>CheckProofOfStake\<close>: the hash of an accepted kernel, or the penalty of the transaction.\<close>

datatype stake_result = Stake uint256 | NoStake nat | StakeThrows

definition CheckProofOfStake ::
  "'a openssl_scheme \<Rightarrow> kernel_env \<Rightarrow> block_files \<Rightarrow> CTxDB \<Rightarrow> CTransaction \<Rightarrow> uint32 \<Rightarrow> sig_cache \<Rightarrow> stake_result \<times> sig_cache" where
  "CheckProofOfStake lib env files db tx nBits c =
     (if \<not> IsCoinStake tx then (NoStake 0, c)
      else
        let txin = vin tx ! 0 in
        case ReadFromDisk db (prevout txin) of
          None \<Rightarrow> (NoStake 1, c)
        | Some (txPrev, txindex) \<Rightarrow>
            (case VerifySignature lib txPrev tx 0 0 c of
               (None, c) \<Rightarrow> (StakeThrows, c)
             | (Some False, c) \<Rightarrow> (NoStake 100, c)
             | (Some True, c) \<Rightarrow>
                 (case ReadBlockFromDisk lib (k_fTestNet env) files (pos_nFile (ix_pos txindex)) (pos_nBlockPos (ix_pos txindex)) False of
                    None \<Rightarrow> (NoStake 0, c)
                  | Some b \<Rightarrow>
                      (case CheckStakeKernelHash lib env nBits b (pos_nTxPos (ix_pos txindex) - pos_nBlockPos (ix_pos txindex))
                              txPrev (prevout txin) (tx_nTime tx) of
                         (True, h) \<Rightarrow> (Stake h, c)
                       | (False, _) \<Rightarrow> (NoStake 1, c)))))"

section \<open>The modifier always exists\<close>

lemma select_loop_Some:
  assumes "\<forall>item\<in>set items. \<exists>p. index (snd item) = Some p \<and> bi_hash p = snd item"
    and "best \<noteq> None \<or> (\<exists>item\<in>set items. snd item \<notin> sel)" and "\<forall>h q. best = Some (h, q) \<longrightarrow> bi_hash q \<notin> sel \<and> bi_hash q \<in> H"
    and "snd ` set items \<subseteq> H"
  shows "\<exists>p. select_loop lib index sel stop prev best items = Some p \<and> bi_hash p \<notin> sel \<and> bi_hash p \<in> H"
  using assms
proof (induction items arbitrary: best)
  case Nil
  then show ?case by auto
next
  case (Cons item items)
  obtain p where p: "index (snd item) = Some p" "bi_hash p = snd item" using Cons.prems(1) by auto
  have IH: "\<exists>p. select_loop lib index sel stop prev b items = Some p \<and> bi_hash p \<notin> sel \<and> bi_hash p \<in> H"
    if "b \<noteq> None \<or> (\<exists>item\<in>set items. snd item \<notin> sel)" "\<forall>h q. b = Some (h, q) \<longrightarrow> bi_hash q \<notin> sel \<and> bi_hash q \<in> H" for b
    using Cons.IH [of b] Cons.prems(1,4) that by simp
  have H: "bi_hash p \<in> H" using p(2) Cons.prems(4) by simp
  show ?case
  proof (cases "best \<noteq> None \<and> bi_GetBlockTime p > stop")
    case True
    then show ?thesis using Cons.prems(3) p(1) by auto
  next
    case False
    show ?thesis
    proof (cases "bi_hash p \<in> sel")
      case in_sel: True
      have "select_loop lib index sel stop prev best (item # items) = select_loop lib index sel stop prev best items"
        using False in_sel p(1) by auto
      then show ?thesis using IH [OF _ Cons.prems(3)] Cons.prems(2) in_sel p(2) by auto
    next
      case out: False
      define b where "b = (case best of Some (h, q) \<Rightarrow> if hashSelection lib prev p < h then Some (hashSelection lib prev p, p) else best
                            | None \<Rightarrow> Some (hashSelection lib prev p, p))"
      have "select_loop lib index sel stop prev best (item # items) = select_loop lib index sel stop prev b items"
        using False out p(1) by (auto simp: b_def Let_def split: option.split prod.split)
      moreover have "b \<noteq> None" "\<forall>h q. b = Some (h, q) \<longrightarrow> bi_hash q \<notin> sel \<and> bi_hash q \<in> H"
        using Cons.prems(3) out H by (auto simp: b_def split: option.split prod.split)
      ultimately show ?thesis using IH [of b] by simp
    qed
  qed
qed

lemma entropy_bit: "bit (push_bit n (ucast (bi_GetStakeEntropyBit p)) :: uint64) k \<Longrightarrow> k = n"
  by (auto simp: bi_GetStakeEntropyBit_def BLOCK_STAKE_ENTROPY_def bit_push_bit_iff bit_ucast_iff bit_drop_bit_eq bit_and_iff bit_numeral_rec bit_1_iff)

lemma modifier_rounds_Some:
  assumes "\<forall>item\<in>set v. \<exists>p. index (snd item) = Some p \<and> bi_hash p = snd item"
    and "sel \<subseteq> snd ` set v" and "n + card sel \<le> card (snd ` set v)" and "\<forall>k\<ge>nRound. \<not> bit modifier k"
  shows "\<exists>m. modifier_rounds lib index i v prev n nRound stop sel modifier = Some m \<and> (\<forall>k\<ge>nRound + n. \<not> bit m k)"
  using assms(2-4)
proof (induction n arbitrary: nRound stop sel modifier)
  case (Suc n)
  have fin: "finite sel" using Suc.prems(1) finite_subset by blast
  have "\<not> snd ` set v \<subseteq> sel"
  proof
    assume "snd ` set v \<subseteq> sel"
    then have "card (snd ` set v) \<le> card sel" by (rule card_mono [OF fin])
    then show False using Suc.prems(2) by simp
  qed
  then have "\<exists>item\<in>set v. snd item \<notin> sel" by auto
  then obtain p where p: "SelectBlockFromCandidates lib index v sel (stop + GetStakeModifierSelectionIntervalSection i nRound) prev = Some p"
    "bi_hash p \<notin> sel" "bi_hash p \<in> snd ` set v"
    using select_loop_Some [OF assms(1), of None sel "snd ` set v" lib "stop + GetStakeModifierSelectionIntervalSection i nRound" prev]
    unfolding SelectBlockFromCandidates_def by auto
  let ?m = "modifier OR push_bit nRound (ucast (bi_GetStakeEntropyBit p))"
  have sub: "insert (bi_hash p) sel \<subseteq> snd ` set v" and card: "n + card (insert (bi_hash p) sel) \<le> card (snd ` set v)"
    using p(2,3) Suc.prems(1,2) fin by simp_all
  have bits: "\<not> bit ?m k" if "k \<ge> Suc nRound" for k
  proof -
    have "\<not> bit (push_bit nRound (ucast (bi_GetStakeEntropyBit p)) :: uint64) k" using that entropy_bit [of nRound p k] by linarith
    moreover have "\<not> bit modifier k" using Suc.prems(3) that by simp
    ultimately show ?thesis by (simp only: bit_or_iff simp_thms)
  qed
  have "modifier_rounds lib index i v prev (Suc n) nRound stop sel modifier =
      modifier_rounds lib index i v prev n (Suc nRound) (stop + GetStakeModifierSelectionIntervalSection i nRound) (insert (bi_hash p) sel) ?m"
    using p(1) by (simp add: Let_def)
  moreover have "nRound + Suc n = Suc nRound + n" by simp
  ultimately show ?case using Suc.IH [OF sub card] bits by metis
qed auto

lemma GetLastStakeModifier_Some: "c \<noteq> [] \<Longrightarrow> bi_GeneratedStakeModifier (last c) \<Longrightarrow> \<exists>m t. GetLastStakeModifier c = Some (m, t)"
  by (induction c rule: GetLastStakeModifier.induct) auto

text \<open>
  C32. A new block always has a stake modifier. On a chain whose blocks are all in the index under distinct hashes
  and whose first block generated a modifier, \<^verbatim>\<open>ComputeNextStakeModifier\<close> succeeds: every one of its rounds finds a
  block that was not selected before. It keeps the last modifier, or generates one with a bit for every round, at
  most 64, and as many as there are candidates.
\<close>

theorem ComputeNextStakeModifier_total:
  assumes "list_all (\<lambda>p. index (bi_hash p) = Some p) (tl c)" and "distinct (map bi_hash (tl c))"
    and "tl c \<noteq> [] \<longrightarrow> bi_GeneratedStakeModifier (last (tl c))"
  shows "\<exists>m generated. ComputeNextStakeModifier lib fTestNet i index c = Some (m, generated) \<and>
    (\<not> generated \<longrightarrow> (\<exists>t. GetLastStakeModifier (tl c) = Some (m, t))) \<and>
    (generated \<longrightarrow> (\<forall>k\<ge>(if tl c = [] then 0 else min 64 (length (candidates i (tl c)))). \<not> bit m k))"
proof (cases "tl c")
  case Nil
  then show ?thesis by (intro exI [of _ 0] exI [of _ True]) (simp add: ComputeNextStakeModifier_def)
next
  case (Cons q ps)
  define v where "v = candidates i (tl c)"
  obtain s where v: "v = sort (rev (map (\<lambda>p. (bi_GetBlockTime p, bi_hash p)) (takeWhile (\<lambda>p. bi_GetBlockTime p \<ge> s) (tl c))))"
    unfolding v_def candidates_def Let_def by blast
  have inv: "\<forall>item\<in>set v. \<exists>p. index (snd item) = Some p \<and> bi_hash p = snd item"
    using assms(1) by (auto simp: v list_all_iff dest!: set_takeWhileD)
  let ?tw = "takeWhile (\<lambda>p. bi_GetBlockTime p \<ge> s) (tl c)"
  have "snd ` set v = set (map bi_hash ?tw)" by (simp add: v image_image)
  moreover have "distinct (map bi_hash ?tw)"
    using assms(2) by (metis (no_types, lifting) distinct_append map_append takeWhile_dropWhile_id)
  ultimately have card: "card (snd ` set v) = length v" by (simp only: distinct_card) (simp add: v)
  obtain m t where lm: "GetLastStakeModifier (tl c) = Some (m, t)" using GetLastStakeModifier_Some [of "tl c"] assms(3) Cons by auto
  have "\<exists>m'. modifier_rounds lib index i v m (min 64 (length v)) 0 stop {} 0 = Some m' \<and> (\<forall>k\<ge>min 64 (length v). \<not> bit m' k)" for stop
    using modifier_rounds_Some [OF inv, of "{}" "min 64 (length v)" 0 0] card by simp
  then obtain f where f: "modifier_rounds lib index i v m (min 64 (length v)) 0 stop {} 0 = Some (f stop)"
    "k \<ge> min 64 (length v) \<Longrightarrow> \<not> bit (f stop) k" for stop k by metis
  have "candidates i (q # ps) = v" using Cons v_def by simp
  then show ?thesis using lm f(1) f(2) unfolding ComputeNextStakeModifier_def Cons Let_def
    by (simp only: list.case option.case prod.case option.map split: if_split) auto
qed

text \<open>A second block on a first one that generated the modifier 0 in an earlier interval.\<close>

definition demo_first :: CBlockIndex where
  "demo_first = demo_index\<lparr> bi_hash := 7, bi_nFlags := BLOCK_STAKE_MODIFIER OR BLOCK_STAKE_ENTROPY, bi_nTime := 5000 \<rparr>"

theorem ComputeNextStakeModifier_total_witness:
  "\<exists>m generated. ComputeNextStakeModifier demo_lib False 5400 [7 \<mapsto> demo_first] [demo_index, demo_first] = Some (m, generated)"
proof -
  have "bi_GeneratedStakeModifier demo_first"
    by (simp add: bi_GeneratedStakeModifier_def demo_first_def BLOCK_STAKE_MODIFIER_def BLOCK_STAKE_ENTROPY_def)
  moreover have "bi_hash demo_first = 7" by (simp add: demo_first_def)
  ultimately show ?thesis
    using ComputeNextStakeModifier_total [of "[7 \<mapsto> demo_first]" "[demo_index, demo_first]" demo_lib False 5400] by auto
qed

section \<open>An accepted stake\<close>

lemma bn_div_pos: "0 \<le> a \<Longrightarrow> 0 < b \<Longrightarrow> bn_div a b = a div b"
  by (cases "a = 0") (simp_all add: bn_div_def)

lemma coin_day_weight_bound:
  assumes "0 \<le> v"
  shows "coin_day_weight f a v t t' \<le> v * 60 div COIN"
proof -
  define w where "w = min (uint t' - uint t) STAKE_MAX_AGE - (if IsProtocolV03 f t' then uint a else 0)"
  have "0 \<le> (if IsProtocolV03 f t' then uint a else 0)" by simp
  moreover have "min (uint t' - uint t) STAKE_MAX_AGE \<le> STAKE_MAX_AGE" by simp
  ultimately have w: "w \<le> STAKE_MAX_AGE" unfolding w_def by linarith
  have c: "coin_day_weight f a v t t' = bn_div (bn_div (v * w) COIN) 86400" by (simp add: coin_day_weight_def w_def)
  show ?thesis
  proof (cases "0 \<le> w")
    case True
    then have "0 \<le> v * w div COIN" using assms by (simp add: COIN_def div_int_nonneg)
    then have "coin_day_weight f a v t t' = v * w div COIN div 86400" using True assms unfolding c by (simp add: bn_div_pos COIN_def)
    also have "\<dots> \<le> v * (60 * 86400) div COIN div 86400"
      using w assms by (intro zdiv_mono1 mult_left_mono) (simp_all add: COIN_def STAKE_MAX_AGE_def)
    also have "\<dots> = v * 60 div COIN" by (simp add: zdiv_zmult2_eq [symmetric] COIN_def mult.assoc [symmetric])
    finally show ?thesis .
  next
    case False
    then have "v * w \<le> 0" using assms by (simp add: mult_nonneg_nonpos)
    then have "coin_day_weight f a v t t' \<le> 0" unfolding c by (auto simp: bn_div_def sgn_if COIN_def)
    moreover have "0 \<le> v * 60 div COIN" using assms by (simp add: COIN_def)
    ultimately show ?thesis by simp
  qed
qed

text \<open>
  C31. What \<^verbatim>\<open>CheckProofOfStake\<close> accepts is a stake. The transaction is a coinstake whose first input is authorised by the
  script of an output in the index; the output is not younger than the coinstake, and the block that holds it is
  older by the minimum age, in 32-bit arithmetic. The hash of the kernel is at most the target times the weight
  of the output in coin-days, which is at most sixty times its coins.
\<close>

theorem CheckProofOfStake_sound:
  assumes "CheckProofOfStake lib env files db tx nBits c = (Stake h, c')" and "cache_sound lib c" and "mpi_format lib"
  shows "IsCoinStake tx \<and> (\<exists>txPrev ix b. ReadFromDisk db (prevout (vin tx ! 0)) = Some (txPrev, ix) \<and> authorised lib tx 0 txPrev \<and>
    ReadBlockFromDisk lib (k_fTestNet env) files (pos_nFile (ix_pos ix)) (pos_nBlockPos (ix_pos ix)) False = Some b \<and>
    tx_nTime txPrev \<le> tx_nTime tx \<and> blk_nTime b + k_nStakeMinAge env \<le> tx_nTime tx \<and>
    (let v = sint (nValue (vout txPrev ! unat (op_n (prevout (vin tx ! 0)))));
         weight = coin_day_weight (k_fTestNet env) (k_nStakeMinAge env) v (tx_nTime txPrev) (tx_nTime tx)
     in uint h \<le> weight * SetCompact lib nBits \<and> (0 \<le> v \<longrightarrow> weight \<le> v * 60 div COIN))) \<and> cache_sound lib c'"
proof -
  have cs: "IsCoinStake tx" using assms(1) by (auto simp: CheckProofOfStake_def split: if_split_asm)
  obtain txPrev ix b c1 where r: "ReadFromDisk db (prevout (vin tx ! 0)) = Some (txPrev, ix)" and v: "VerifySignature lib txPrev tx 0 0 c = (Some True, c1)"
    and b: "ReadBlockFromDisk lib (k_fTestNet env) files (pos_nFile (ix_pos ix)) (pos_nBlockPos (ix_pos ix)) False = Some b"
    and k: "CheckStakeKernelHash lib env nBits b (pos_nTxPos (ix_pos ix) - pos_nBlockPos (ix_pos ix)) txPrev (prevout (vin tx ! 0)) (tx_nTime tx) = (True, h)"
    and c': "c' = c1"
    using assms(1) cs
    by (auto simp: CheckProofOfStake_def Let_def split: option.split_asm prod.split_asm bool.split_asm)
  have "tx_nTime txPrev \<le> tx_nTime tx" "blk_nTime b + k_nStakeMinAge env \<le> tx_nTime tx"
    using k by (auto simp: CheckStakeKernelHash_def Let_def split: if_split_asm)
  moreover have "uint h \<le> coin_day_weight (k_fTestNet env) (k_nStakeMinAge env) (sint (nValue (vout txPrev ! unat (op_n (prevout (vin tx ! 0))))))
      (tx_nTime txPrev) (tx_nTime tx) * SetCompact lib nBits"
    using k setuint256_uint [OF assms(3)] by (auto simp: CheckStakeKernelHash_def Let_def split: if_split_asm option.split_asm)
  ultimately show ?thesis
    using cs r b c' VerifySignature_authorised [OF v assms(2)] coin_day_weight_bound unfolding Let_def by blast
qed

definition demo_kernel_env :: kernel_env where
  "demo_kernel_env = \<lparr> k_fTestNet = False, k_nStakeMinAge = 100, k_nModifierInterval = MODIFIER_INTERVAL, k_mapBlockIndex = Map.empty, k_tree = [] \<rparr>"

lemma Unserialize_header_bytes: "Unserialize_header (header_bytes b @ rest) = Some (b\<lparr> vtx := [], vchBlockSig := [] \<rparr>, rest)"
  by (cases b) (simp add: Unserialize_header_def header_bytes_def u32.dec_enc u256.dec_enc)

lemma demo_stake_verify: "VerifySignature demo_lib demo_prev demo_stake 0 0 no_cache = (Some True, no_cache)"
  using demo_prev_hash demo_true
  by (simp add: VerifySignature_def demo_stake_def demo_spend_def demo_prev_def demo_tx_def VerifyScript_def EvalScript_def eval_loop.simps
      GetOp2_def push_size_def eval_step_def Let_def disabled_def exec_op_def lift_stack_def op_push_value_def
      IsPayToScriptHash_def)

theorem CheckProofOfStake_sound_witness:
  "\<exists>c'. CheckProofOfStake demo_lib demo_kernel_env [1 \<mapsto> header_bytes demo_cblock] demo_db demo_stake 0x01100000 no_cache = (Stake 32, c') \<and>
     authorised demo_lib demo_stake 0 demo_prev"
proof -
  have r: "ReadFromDisk demo_db (prevout (vin demo_stake ! 0)) = Some (demo_prev, CTxIndex_new (demo_pos\<lparr> pos_nBlockPos := 0 \<rparr>) 1)"
    by (simp add: ReadFromDisk_def ReadTxIndex_def demo_db_def demo_stake_def demo_spend_def demo_prev_def CTxIndex_new_def)
  have b: "ReadBlockFromDisk demo_lib False [1 \<mapsto> header_bytes demo_cblock] 1 0 False = Some (demo_cblock\<lparr> vtx := [], vchBlockSig := [] \<rparr>)"
    using Unserialize_header_bytes [of demo_cblock "[]"] by (simp add: ReadBlockFromDisk_def OpenBlockFile_def)
  have w: "coin_day_weight False 100 7000000 7 1000007 = 81"
    by (simp add: coin_day_weight_def IsProtocolV03_def STAKE_MAX_AGE_def bn_div_def COIN_def)
  have "CheckStakeKernelHash demo_lib demo_kernel_env 0x01100000 (demo_cblock\<lparr> vtx := [], vchBlockSig := [] \<rparr>) 99 demo_prev
      (prevout (vin demo_stake ! 0)) (tx_nTime demo_stake) = (True, 32)"
    using w by (simp add: CheckStakeKernelHash_def Let_def demo_kernel_env_def demo_cblock_def demo_prev_def demo_tx_def demo_stake_def
        demo_spend_def IsProtocolV03_def demo_Hash setuint256_uint [OF demo_lib_format] demo_SetCompact)
  then have c: "CheckProofOfStake demo_lib demo_kernel_env [1 \<mapsto> header_bytes demo_cblock] demo_db demo_stake 0x01100000 no_cache = (Stake 32, no_cache)"
    using r b demo_stake_verify demo_stake_facts(2)
    by (simp add: CheckProofOfStake_def Let_def CTxIndex_new_def demo_pos_def demo_kernel_env_def)
  then show ?thesis using CheckProofOfStake_sound [OF c no_cache_sound demo_lib_format] r by auto
qed

end
