(* ===== verification/SignedHash.thy ===== *)
theory SignedHash
  imports Ramhog Kernel
begin

text \<open>
  The proof-of-work hashes of \<^verbatim>\<open>src/src/signedhash.cpp\<close>. A node need not compute the hash of a block: it keeps the hashes it
  computed, and those that came in messages signed by a master key. The locks are left out, and writing to the database is taken
  to succeed. Inventory pushed to the peers is returned by the operation that pushes it.
\<close>

section \<open>Hexadecimal text\<close>

text \<open>The table of \<^verbatim>\<open>src/src/util.cpp\<close>; \<open>None\<close> is its -1, which the terminating null has too.\<close>

definition hex_digit :: "char \<Rightarrow> byte option" where
  "hex_digit c =
     (let n = of_char c :: nat in
      if 48 \<le> n \<and> n \<le> 57 then Some (of_nat (n - 48))
      else if 65 \<le> n \<and> n \<le> 70 then Some (of_nat (n - 55))
      else if 97 \<le> n \<and> n \<le> 102 then Some (of_nat (n - 87))
      else None)"

definition IsHex :: "string \<Rightarrow> bool" where
  "IsHex str = (\<not> list_ex (\<lambda>c. hex_digit c = None) str \<and> length str > 0 \<and> length str mod 2 = 0)"

function ParseHex :: "string \<Rightarrow> bytes" where
  "ParseHex psz =
     (case dropWhile isspace psz of
        c # d # psz \<Rightarrow>
          (case (hex_digit c, hex_digit d) of
             (Some m, Some n) \<Rightarrow> (push_bit 4 m OR n) # ParseHex psz
           | _ \<Rightarrow> [])
      | _ \<Rightarrow> [])"
  by pat_completeness auto
termination
proof (relation "measure length", goal_cases)
  case (2 psz c ps d rest)
  then have "length (dropWhile isspace psz) = Suc (Suc (length rest))" by simp
  then show ?case using length_dropWhile_le [of isspace psz] by simp
qed simp

declare ParseHex.simps [simp del]

section \<open>The message\<close>

record CSignedHash =
  sh_nVersion :: int32
  sh_idHash :: uint256
  sh_powHash :: uint256
  sh_vchMsg :: bytes
  sh_vchSig :: bytes

definition SignedHash_SetNull :: CSignedHash where
  "SignedHash_SetNull = \<lparr> sh_nVersion = 1, sh_idHash = 0, sh_powHash = 0, sh_vchMsg = [], sh_vchSig = [] \<rparr>"

definition SignedHash_IsNull :: "CSignedHash \<Rightarrow> bool" where
  "SignedHash_IsNull h = (sh_idHash h = 0)"

definition Serialize_CUnsignedHash :: "CSignedHash \<Rightarrow> bytes" where
  "Serialize_CUnsignedHash h = Serialize_word 4 (sh_nVersion h) @ Serialize_word 32 (sh_idHash h) @ Serialize_word 32 (sh_powHash h)"

definition Unserialize_CUnsignedHash :: "CSignedHash \<Rightarrow> bytes \<Rightarrow> (CSignedHash \<times> bytes) option" where
  "Unserialize_CUnsignedHash h s = do {
     (v, s) \<leftarrow> (Unserialize_word 4 s :: (int32 \<times> bytes) option);
     (i, s) \<leftarrow> (Unserialize_word 32 s :: (uint256 \<times> bytes) option);
     (p, s) \<leftarrow> (Unserialize_word 32 s :: (uint256 \<times> bytes) option);
     Some (h\<lparr> sh_nVersion := v, sh_idHash := i, sh_powHash := p \<rparr>, s) }"

text \<open>Reading a message unpacks its content; so does writing it, which changes nothing then.\<close>

definition Serialize_CSignedHash :: "CSignedHash \<Rightarrow> bytes" where
  "Serialize_CSignedHash h = Serialize_vector_bytes (sh_vchMsg h) @ Serialize_vector_bytes (sh_vchSig h)"

definition Unserialize_CSignedHash :: "bytes \<Rightarrow> (CSignedHash \<times> bytes) option" where
  "Unserialize_CSignedHash s = do {
     (m, s) \<leftarrow> Unserialize_vector_bytes s;
     (g, s) \<leftarrow> Unserialize_vector_bytes s;
     (h, _) \<leftarrow> Unserialize_CUnsignedHash (SignedHash_SetNull\<lparr> sh_vchMsg := m, sh_vchSig := g \<rparr>) m;
     Some (h, s) }"

definition SignedHash_GetHash :: "'a openssl_scheme \<Rightarrow> CSignedHash \<Rightarrow> uint256" where
  "SignedHash_GetHash lib h = Hash lib (Serialize_CSignedHash h)"

definition signedhash_strMasterPubKey :: string where
  "signedhash_strMasterPubKey =
     ''04de9cd6a14a2174db54c597a88248022b6bf0d51513ec00f789abe82096db245dc2fe5eb8a8d7163c5005b507da48771b41a65051687865a7ba825705f5eb0e04''"

text \<open>A content that is too short raises an exception.\<close>

definition SignedHash_CheckSignature :: "'a openssl_scheme \<Rightarrow> CSignedHash \<Rightarrow> outcome \<times> CSignedHash" where
  "SignedHash_CheckSignature lib h =
     (case CKey_SetPubKey lib (ParseHex signedhash_strMasterPubKey) of
        None \<Rightarrow> (Failed, h)
      | Some key \<Rightarrow>
          if \<not> CKey_Verify lib key (Hash lib (sh_vchMsg h)) (sh_vchSig h) then (Failed, h)
          else case Unserialize_CUnsignedHash h (sh_vchMsg h) of
            None \<Rightarrow> (Threw, h)
          | Some (h, _) \<Rightarrow> (Done, h))"

definition SetSignature :: "'a openssl_scheme \<Rightarrow> bytes \<Rightarrow> CSignedHash \<Rightarrow> outcome \<times> CSignedHash" where
  "SetSignature lib vchSigIn h =
     (case SignedHash_CheckSignature lib (h\<lparr> sh_vchSig := vchSigIn \<rparr>) of
        (Failed, h) \<Rightarrow> (Failed, h\<lparr> sh_vchSig := [] \<rparr>)
      | r \<Rightarrow> r)"

definition SetHashes :: "uint256 \<Rightarrow> uint256 \<Rightarrow> CSignedHash \<Rightarrow> CSignedHash" where
  "SetHashes idHashIn powHashIn h =
     (let h = h\<lparr> sh_vchSig := [], sh_idHash := idHashIn, sh_powHash := powHashIn \<rparr>
      in h\<lparr> sh_vchMsg := Serialize_CUnsignedHash h \<rparr>)"

text \<open>The signature of OpenSSL under a private key is a parameter.\<close>

definition SignHashes :: "'a openssl_scheme \<Rightarrow> (bytes \<Rightarrow> uint256 \<Rightarrow> bytes option) \<Rightarrow> string \<Rightarrow> uint256 \<Rightarrow> uint256 \<Rightarrow> CSignedHash \<Rightarrow>
    CSignedHash option" where
  "SignHashes lib sign strMasterPrivKey idHashIn powHashIn h =
     (if strMasterPrivKey = [] then None
      else
        let h = SetHashes idHashIn powHashIn h in
        map_option (\<lambda>g. h\<lparr> sh_vchSig := g \<rparr>) (sign (ParseHex strMasterPrivKey) (Hash lib (sh_vchMsg h))))"

section \<open>The caches\<close>

record signed_hashes =
  mapPoWCache :: "uint256 \<rightharpoonup> uint256"
  mapSigCache :: "uint256 \<rightharpoonup> uint256 \<times> bytes"
  mapInvSignedHash :: "uint256 \<rightharpoonup> CSignedHash"
  db_powhash :: "uint256 \<rightharpoonup> uint256"
  db_signedhash :: "uint256 \<rightharpoonup> uint256 \<times> bytes"
  db_strSignedHashPubKey :: "string option"

definition GetSignedPoWHash :: "signed_hashes \<Rightarrow> uint256 \<Rightarrow> (uint256 \<times> bytes) option" where
  "GetSignedPoWHash s idHash = mapSigCache s idHash"

definition CountSignedHashes :: "signed_hashes \<Rightarrow> nat" where
  "CountSignedHashes s = card (dom (mapSigCache s))"

definition SignedHash_GetPoWHash :: "bool \<Rightarrow> signed_hashes \<Rightarrow> uint256 \<Rightarrow> uint256 option" where
  "SignedHash_GetPoWHash usesignedhashes s idHash =
     (case (if usesignedhashes then GetSignedPoWHash s idHash else None) of
        Some (powHash, _) \<Rightarrow> Some powHash
      | None \<Rightarrow> mapPoWCache s idHash)"

definition UncheckedAddHash :: "uint256 \<Rightarrow> uint256 \<Rightarrow> signed_hashes \<Rightarrow> signed_hashes" where
  "UncheckedAddHash idHash powHash s =
     s\<lparr> mapPoWCache := (mapPoWCache s)(idHash \<mapsto> powHash), db_powhash := (db_powhash s)(idHash \<mapsto> powHash) \<rparr>"

definition UncheckedAddSignedHash :: "uint256 \<Rightarrow> uint256 \<Rightarrow> bytes \<Rightarrow> signed_hashes \<Rightarrow> signed_hashes" where
  "UncheckedAddSignedHash idHash powHash vchSig s =
     s\<lparr> mapSigCache := (mapSigCache s)(idHash \<mapsto> (powHash, vchSig)), db_signedhash := (db_signedhash s)(idHash \<mapsto> (powHash, vchSig)) \<rparr>"

text \<open>The loop of \<^verbatim>\<open>LoadHashCache\<close> over the blocks of the best chain above the first; an exception leaves it.\<close>

fun load_loop :: "'a openssl_scheme \<Rightarrow> uint256 list \<Rightarrow> signed_hashes \<Rightarrow> outcome \<times> signed_hashes" where
  "load_loop lib [] s = (Done, s)"
| "load_loop lib (idHash # ids) s =
     (let s = (case db_powhash s idHash of None \<Rightarrow> s | Some powHash \<Rightarrow> s\<lparr> mapPoWCache := (mapPoWCache s)(idHash \<mapsto> powHash) \<rparr>)
      in
      case db_signedhash s idHash of
        None \<Rightarrow> load_loop lib ids s
      | Some (powHash, vchSig) \<Rightarrow>
          (case SetSignature lib vchSig (SetHashes idHash powHash SignedHash_SetNull) of
             (Done, h) \<Rightarrow>
               load_loop lib ids (s\<lparr> mapSigCache := (mapSigCache s)(idHash \<mapsto> (powHash, vchSig)),
                                     mapInvSignedHash := (mapInvSignedHash s)(SignedHash_GetHash lib h \<mapsto> h) \<rparr>)
           | (Failed, _) \<Rightarrow> load_loop lib ids s
           | (Threw, _) \<Rightarrow> (Threw, s)))"

definition LoadHashCache :: "'a openssl_scheme \<Rightarrow> chain \<Rightarrow> signed_hashes \<Rightarrow> outcome \<times> signed_hashes" where
  "LoadHashCache lib best s =
     (let ids = map bi_hash (butlast best) in
      if db_strSignedHashPubKey s \<noteq> Some signedhash_strMasterPubKey then
        (Done, s\<lparr> mapSigCache := Map.empty, mapInvSignedHash := Map.empty, db_strSignedHashPubKey := Some signedhash_strMasterPubKey,
                  db_signedhash := foldl (\<lambda>m h. m(h := None)) (db_signedhash s) ids \<rparr>)
      else load_loop lib ids s)"

text \<open>With the hash of the message that is announced.\<close>

definition ProcessRelaySignedHash :: "'a openssl_scheme \<Rightarrow> CSignedHash \<Rightarrow> signed_hashes \<Rightarrow> outcome \<times> uint256 option \<times> signed_hashes" where
  "ProcessRelaySignedHash lib h s =
     (case SignedHash_CheckSignature lib h of
        (Done, h) \<Rightarrow>
          let s = UncheckedAddSignedHash (sh_idHash h) (sh_powHash h) (sh_vchSig h) s
          in (Done, Some (SignedHash_GetHash lib h), s\<lparr> mapInvSignedHash := (mapInvSignedHash s)(SignedHash_GetHash lib h \<mapsto> h) \<rparr>)
      | (r, _) \<Rightarrow> (r, None, s))"

text \<open>\<^verbatim>\<open>CBlock::GetPoWHash\<close>: the caches first, then the pool of threads.\<close>

record pow_env =
  pow_pool :: CRamhogThreadPool
  pow_usesignedhashes :: bool

definition CBlock_GetPoWHash :: "'a openssl_scheme \<Rightarrow> pow_env \<Rightarrow> CBlock \<Rightarrow> signed_hashes \<Rightarrow> uint256 option \<times> signed_hashes" where
  "CBlock_GetPoWHash lib env b s =
     (case SignedHash_GetPoWHash (pow_usesignedhashes env) s (GetIDHash lib b) of
        Some powHash \<Rightarrow> (Some powHash, s)
      | None \<Rightarrow>
          (case pool_ramhog lib (pow_pool env) False True False (header_bytes b) 32 of
             None \<Rightarrow> (None, s)
           | Some out \<Rightarrow> (Some (bytes_word out), UncheckedAddHash (GetIDHash lib b) (bytes_word out) s)))"

text \<open>The header of an index object, for which \<^verbatim>\<open>ComputeBlockPoWHash\<close> asks for the hash.\<close>

definition GetBlockHeader :: "chain \<Rightarrow> CBlock" where
  "GetBlockHeader c =
     (let p = hd c in
      CBlock_SetNull\<lparr> blk_nVersion := bi_nVersion p, blk_hashPrevBlock := (case tl c of [] \<Rightarrow> 0 | q # _ \<Rightarrow> bi_hash q),
        blk_hashMerkleRoot := bi_hashMerkleRoot p, blk_nTime := bi_nTime p, blk_nBits := bi_nBits p, blk_nNonce := bi_nNonce p \<rparr>)"

definition ComputeBlockPoWHash :: "'a openssl_scheme \<Rightarrow> pow_env \<Rightarrow> chain \<Rightarrow> signed_hashes \<Rightarrow> uint256 option \<times> signed_hashes" where
  "ComputeBlockPoWHash lib env c s = CBlock_GetPoWHash lib env (GetBlockHeader c) s"

definition SetSignedHashPrivKey :: "'a openssl_scheme \<Rightarrow> (bytes \<Rightarrow> uint256 \<Rightarrow> bytes option) \<Rightarrow> string \<Rightarrow> string \<Rightarrow> bool \<times> string" where
  "SetSignedHashPrivKey lib sign strPrivKey strPrevPrivKey =
     (case SignHashes lib sign strPrivKey 11111 22222 SignedHash_SetNull of
        None \<Rightarrow> (False, strPrevPrivKey)
      | Some _ \<Rightarrow> (True, strPrivKey))"

text \<open>\<^verbatim>\<open>SendSignedHash\<close>, on the chain of the block in the index, if it is there.\<close>

definition SendSignedHash ::
  "'a openssl_scheme \<Rightarrow> pow_env \<Rightarrow> (bytes \<Rightarrow> uint256 \<Rightarrow> bytes option) \<Rightarrow> string \<Rightarrow> chain option \<Rightarrow> uint256 \<Rightarrow> signed_hashes \<Rightarrow>
     outcome \<times> uint256 option \<times> signed_hashes" where
  "SendSignedHash lib env sign strMasterPrivKey pblockIndex idHash s =
     (case pblockIndex of
        None \<Rightarrow> (Failed, None, s)
      | Some c \<Rightarrow>
          (case ComputeBlockPoWHash lib env c s of
             (None, s) \<Rightarrow> (Failed, None, s)
           | (Some powHash, s) \<Rightarrow>
               (case SignHashes lib sign strMasterPrivKey idHash powHash SignedHash_SetNull of
                  None \<Rightarrow> (Failed, None, s)
                | Some h \<Rightarrow> ProcessRelaySignedHash lib h s)))"

section \<open>Where the hashes come from\<close>

text \<open>A pair of hashes signed by the master key, and a hash that the pool computed for a header with the identifying hash.\<close>

definition attested :: "'a openssl_scheme \<Rightarrow> uint256 \<Rightarrow> uint256 \<Rightarrow> bytes \<Rightarrow> bool" where
  "attested lib idHash powHash vchSig \<longleftrightarrow>
     (\<exists>key msg h0 h rest. CKey_SetPubKey lib (ParseHex signedhash_strMasterPubKey) = Some key \<and> CKey_Verify lib key (Hash lib msg) vchSig \<and>
        Unserialize_CUnsignedHash h0 msg = Some (h, rest) \<and> sh_idHash h = idHash \<and> sh_powHash h = powHash)"

definition computed :: "'a openssl_scheme \<Rightarrow> pow_env \<Rightarrow> uint256 \<Rightarrow> uint256 \<Rightarrow> bool" where
  "computed lib env idHash powHash \<longleftrightarrow>
     (\<exists>b out. GetIDHash lib b = idHash \<and> pool_ramhog lib (pow_pool env) False True False (header_bytes b) 32 = Some out \<and> powHash = bytes_word out)"

definition hashes_ok :: "'a openssl_scheme \<Rightarrow> pow_env \<Rightarrow> signed_hashes \<Rightarrow> bool" where
  "hashes_ok lib env s \<longleftrightarrow>
     (\<forall>i p g. mapSigCache s i = Some (p, g) \<longrightarrow> attested lib i p g) \<and>
     (\<forall>x h. mapInvSignedHash s x = Some h \<longrightarrow> attested lib (sh_idHash h) (sh_powHash h) (sh_vchSig h)) \<and>
     (\<forall>i p. mapPoWCache s i = Some p \<longrightarrow> computed lib env i p) \<and> (\<forall>i p. db_powhash s i = Some p \<longrightarrow> computed lib env i p)"

text \<open>A node starts with empty caches and no hash of its own; the signed hashes in its database may be anything.\<close>

definition hashes_init :: "(uint256 \<rightharpoonup> uint256 \<times> bytes) \<Rightarrow> signed_hashes" where
  "hashes_init db = \<lparr> mapPoWCache = Map.empty, mapSigCache = Map.empty, mapInvSignedHash = Map.empty, db_powhash = Map.empty,
     db_signedhash = db, db_strSignedHashPubKey = Some signedhash_strMasterPubKey \<rparr>"

inductive hash_step :: "'a openssl_scheme \<Rightarrow> pow_env \<Rightarrow> signed_hashes \<Rightarrow> signed_hashes \<Rightarrow> bool" for lib env where
  relay: "ProcessRelaySignedHash lib h s = (r, x, s') \<Longrightarrow> hash_step lib env s s'"
| load: "LoadHashCache lib c s = (r, s') \<Longrightarrow> hash_step lib env s s'"
| compute: "CBlock_GetPoWHash lib env b s = (r, s') \<Longrightarrow> hash_step lib env s s'"

inductive_cases hash_stepE: "hash_step lib env s s'"

lemma CheckSignature_attested:
  assumes "SignedHash_CheckSignature lib h = (Done, h')"
  shows "attested lib (sh_idHash h') (sh_powHash h') (sh_vchSig h)" and "sh_vchSig h' = sh_vchSig h" and "sh_vchMsg h' = sh_vchMsg h"
proof -
  obtain key rest where k: "CKey_SetPubKey lib (ParseHex signedhash_strMasterPubKey) = Some key"
    "CKey_Verify lib key (Hash lib (sh_vchMsg h)) (sh_vchSig h)" and u: "Unserialize_CUnsignedHash h (sh_vchMsg h) = Some (h', rest)"
    using assms by (auto simp: SignedHash_CheckSignature_def split: option.split_asm if_split_asm)
  then show "attested lib (sh_idHash h') (sh_powHash h') (sh_vchSig h)" unfolding attested_def by blast
  show "sh_vchSig h' = sh_vchSig h" "sh_vchMsg h' = sh_vchMsg h"
    using u by (auto simp: Unserialize_CUnsignedHash_def Option.bind_eq_Some_conv split: prod.split_asm)
qed

lemma SetHashes_content:
  assumes "SignedHash_CheckSignature lib ((SetHashes i p h0)\<lparr> sh_vchSig := g \<rparr>) = (Done, h)"
  shows "sh_idHash h = i" and "sh_powHash h = p"
proof -
  have "Unserialize_CUnsignedHash ((SetHashes i p h0)\<lparr> sh_vchSig := g \<rparr>) (sh_vchMsg (SetHashes i p h0)) =
      Some ((SetHashes i p h0)\<lparr> sh_vchSig := g \<rparr>, [])"
    using u256.dec_enc [of p "[]"]
    by (simp add: Unserialize_CUnsignedHash_def SetHashes_def Let_def Serialize_CUnsignedHash_def u32.dec_enc u256.dec_enc)
  then have "h = (SetHashes i p h0)\<lparr> sh_vchSig := g \<rparr>"
    using assms by (auto simp: SignedHash_CheckSignature_def split: option.split_asm if_split_asm)
  then show "sh_idHash h = i" "sh_powHash h = p" by (simp_all add: SetHashes_def Let_def)
qed

lemma load_loop_ok:
  assumes "load_loop lib ids s = (r, s')" and "hashes_ok lib env s"
  shows "hashes_ok lib env s'"
  using assms
proof (induction ids arbitrary: s)
  case (Cons i ids)
  define s1 where "s1 = (case db_powhash s i of None \<Rightarrow> s | Some p \<Rightarrow> s\<lparr> mapPoWCache := (mapPoWCache s)(i \<mapsto> p) \<rparr>)"
  have s1: "hashes_ok lib env s1" using Cons.prems(2) by (auto simp: s1_def hashes_ok_def split: option.split)
  show ?case
  proof (cases "db_signedhash s1 i")
    case None
    then have "load_loop lib ids s1 = (r, s')" using Cons.prems(1) by (simp add: s1_def [symmetric] Let_def)
    then show ?thesis using Cons.IH s1 by blast
  next
    case (Some pg)
    obtain p g where pg: "pg = (p, g)" by fastforce
    obtain q h where set: "SetSignature lib g (SetHashes i p SignedHash_SetNull) = (q, h)" by fastforce
    show ?thesis
    proof (cases q)
      case Done
      then have c: "SignedHash_CheckSignature lib ((SetHashes i p SignedHash_SetNull)\<lparr> sh_vchSig := g \<rparr>) = (Done, h)"
        using set by (auto simp: SetSignature_def split: prod.split_asm outcome.split_asm)
      define s2 where "s2 = s1\<lparr> mapSigCache := (mapSigCache s1)(i \<mapsto> (p, g)),
          mapInvSignedHash := (mapInvSignedHash s1)(SignedHash_GetHash lib h \<mapsto> h) \<rparr>"
      have "attested lib i p g" "sh_vchSig h = g" "sh_idHash h = i" "sh_powHash h = p"
        using CheckSignature_attested [OF c] SetHashes_content [OF c] by auto
      then have "hashes_ok lib env s2" using s1 by (auto simp: s2_def hashes_ok_def)
      moreover have "load_loop lib ids s2 = (r, s')"
        using Cons.prems(1) Some pg set Done by (simp add: s1_def [symmetric] Let_def s2_def)
      ultimately show ?thesis using Cons.IH by blast
    next
      case Failed
      then have "load_loop lib ids s1 = (r, s')" using Cons.prems(1) Some pg set by (simp add: s1_def [symmetric] Let_def)
      then show ?thesis using Cons.IH s1 by blast
    next
      case Threw
      then show ?thesis using Cons.prems(1) Some pg set s1 by (simp add: s1_def [symmetric] Let_def)
    qed
  qed
qed simp

lemma LoadHashCache_ok:
  assumes "LoadHashCache lib c s = (r, s')" and "hashes_ok lib env s"
  shows "hashes_ok lib env s'"
proof (cases "db_strSignedHashPubKey s = Some signedhash_strMasterPubKey")
  case True
  then have "load_loop lib (map bi_hash (butlast c)) s = (r, s')" using assms(1) by (simp add: LoadHashCache_def)
  then show ?thesis by (rule load_loop_ok [OF _ assms(2)])
next
  case False
  then show ?thesis using assms by (auto simp: LoadHashCache_def Let_def hashes_ok_def)
qed

lemma ProcessRelaySignedHash_ok:
  assumes "ProcessRelaySignedHash lib h s = (r, x, s')" and "hashes_ok lib env s"
  shows "hashes_ok lib env s'"
proof -
  obtain q h' where c: "SignedHash_CheckSignature lib h = (q, h')" by fastforce
  show ?thesis
  proof (cases q)
    case Done
    then show ?thesis using assms c CheckSignature_attested [of lib h h']
      by (auto simp: ProcessRelaySignedHash_def UncheckedAddSignedHash_def Let_def hashes_ok_def split: if_split_asm)
  qed (use assms c in \<open>auto simp: ProcessRelaySignedHash_def\<close>)
qed

lemma CBlock_GetPoWHash_ok:
  assumes "CBlock_GetPoWHash lib env b s = (r, s')" and "hashes_ok lib env s"
  shows "hashes_ok lib env s' \<and> (\<forall>pow. r = Some pow \<longrightarrow>
    pow_usesignedhashes env \<and> (\<exists>g. attested lib (GetIDHash lib b) pow g) \<or> computed lib env (GetIDHash lib b) pow)"
proof (cases "SignedHash_GetPoWHash (pow_usesignedhashes env) s (GetIDHash lib b)")
  case None
  have "computed lib env (GetIDHash lib b) (bytes_word out)" if "pool_ramhog lib (pow_pool env) False True False (header_bytes b) 32 = Some out" for out
    using that unfolding computed_def by blast
  then show ?thesis using assms None
    by (auto simp: CBlock_GetPoWHash_def UncheckedAddHash_def hashes_ok_def split: option.split_asm if_split_asm)
next
  case (Some pow)
  then have "pow_usesignedhashes env \<and> (\<exists>g. mapSigCache s (GetIDHash lib b) = Some (pow, g)) \<or> mapPoWCache s (GetIDHash lib b) = Some pow"
    by (auto simp: SignedHash_GetPoWHash_def GetSignedPoWHash_def split: option.split_asm if_split_asm)
  then have "pow_usesignedhashes env \<and> (\<exists>g. attested lib (GetIDHash lib b) pow g) \<or> computed lib env (GetIDHash lib b) pow"
    using assms(2) unfolding hashes_ok_def by blast
  then show ?thesis using assms Some by (auto simp: CBlock_GetPoWHash_def)
qed

lemma hash_step_ok: "hash_step lib env s s' \<Longrightarrow> hashes_ok lib env s \<Longrightarrow> hashes_ok lib env s'"
  by (auto elim!: hash_stepE dest: ProcessRelaySignedHash_ok LoadHashCache_ok CBlock_GetPoWHash_ok)

lemma hash_steps_ok: "(hash_step lib env)\<^sup>*\<^sup>* s s' \<Longrightarrow> hashes_ok lib env s \<Longrightarrow> hashes_ok lib env s'"
  by (induction rule: rtranclp_induct) (auto dest: hash_step_ok)

text \<open>
  C15. A proof-of-work hash is signed or computed. After any sequence of relayed messages, reloads of the caches and
  computations, whatever signed hashes the database held at the start, the hash that \<^verbatim>\<open>CBlock::GetPoWHash\<close> returns for a block was
  named for its identifying hash in a message signed by the master key, and this only when signed hashes are in use, or it is
  the hash the pool computes for a header with that identifying hash.
\<close>

theorem pow_hash_signed_or_computed:
  assumes "(hash_step lib env)\<^sup>*\<^sup>* (hashes_init db) s" and "CBlock_GetPoWHash lib env b s = (Some pow, s')"
  shows "pow_usesignedhashes env \<and> (\<exists>g. attested lib (GetIDHash lib b) pow g) \<or> computed lib env (GetIDHash lib b) pow"
proof -
  have "hashes_ok lib env (hashes_init db)" by (simp add: hashes_ok_def hashes_init_def)
  then have "hashes_ok lib env s" using hash_steps_ok [OF assms(1)] by blast
  then show ?thesis using CBlock_GetPoWHash_ok [OF assms(2)] by blast
qed

definition demo_pow_env :: pow_env where
  "demo_pow_env = \<lparr> pow_pool = \<lparr> pool_N = MAIN_SHINY_PADS, pool_C = MAIN_SHINY_CHUNKS, pool_I = MAIN_SHINY_ITERS,
     numSimultaneous = 0, numWorkers = 4 \<rparr>, pow_usesignedhashes = True \<rparr>"

definition demo_signed :: CSignedHash where
  "demo_signed = (SetHashes 32 5 SignedHash_SetNull)\<lparr> sh_vchSig := ParseHex signedhash_strMasterPubKey \<rparr>"

lemma signed_key: "ParseHex signedhash_strMasterPubKey \<noteq> []"
  by (simp add: signedhash_strMasterPubKey_def ParseHex.simps [of "CHR ''0'' # _"] isspace_def hex_digit_def)

theorem pow_hash_signed_or_computed_witness:
  "\<exists>s. (hash_step demo_lib demo_pow_env)\<^sup>*\<^sup>* (hashes_init Map.empty) s \<and> CBlock_GetPoWHash demo_lib demo_pow_env demo_cblock s = (Some 5, s) \<and>
     ((\<exists>g. attested demo_lib 32 5 g) \<or> computed demo_lib demo_pow_env 32 5)"
proof -
  let ?s0 = "hashes_init Map.empty"
  have u: "Unserialize_CUnsignedHash demo_signed (sh_vchMsg demo_signed) = Some (demo_signed, [])"
    using u256.dec_enc [of 5 "[]"]
    by (simp add: demo_signed_def SetHashes_def Let_def Unserialize_CUnsignedHash_def Serialize_CUnsignedHash_def u32.dec_enc u256.dec_enc SignedHash_SetNull_def)
  have "SignedHash_CheckSignature demo_lib demo_signed = (Done, demo_signed)"
    using signed_key u by (simp add: SignedHash_CheckSignature_def CKey_SetPubKey_def CKey_Verify_def demo_lib_def) (simp add: demo_signed_def)
  then obtain r x s where p: "ProcessRelaySignedHash demo_lib demo_signed ?s0 = (r, x, s)" and m: "mapSigCache s 32 = Some (5, sh_vchSig demo_signed)"
    by (auto simp: ProcessRelaySignedHash_def UncheckedAddSignedHash_def Let_def demo_signed_def SetHashes_def)
  have steps: "(hash_step demo_lib demo_pow_env)\<^sup>*\<^sup>* ?s0 s" using hash_step.relay [OF p] by blast
  have i: "GetIDHash demo_lib demo_cblock = 32" by (simp add: GetIDHash_def demo_Hash)
  have g: "CBlock_GetPoWHash demo_lib demo_pow_env demo_cblock s = (Some 5, s)"
    using m by (simp add: CBlock_GetPoWHash_def i SignedHash_GetPoWHash_def GetSignedPoWHash_def demo_pow_env_def)
  show ?thesis using pow_hash_signed_or_computed [OF steps g] steps g unfolding i by blast
qed

end
