(* ===== verification/Checkpoints.thy ===== *)
theory Checkpoints
  imports SignedHash
begin

text \<open>
  The checkpoints of \<^verbatim>\<open>src/src/checkpoints.cpp\<close>: the hardened ones, compiled into the program, and the synchronized one, which a
  signed message moves. The state is that of the whole node, since a checkpoint may reorganize the chain. What
  is called on the peers is recorded in the order of the calls, not run.
\<close>

section \<open>The message\<close>

record CSyncCheckpoint =
  sc_nVersion :: int32
  hashCheckpoint :: uint256
  sc_vchMsg :: bytes
  sc_vchSig :: bytes

definition SyncCheckpoint_SetNull :: CSyncCheckpoint where
  "SyncCheckpoint_SetNull = \<lparr> sc_nVersion = 1, hashCheckpoint = 0, sc_vchMsg = [], sc_vchSig = [] \<rparr>"

definition SyncCheckpoint_IsNull :: "CSyncCheckpoint \<Rightarrow> bool" where
  "SyncCheckpoint_IsNull c = (hashCheckpoint c = 0)"

text \<open>The unsigned part, the content of \<^verbatim>\<open>vchMsg\<close>, and the message as it is sent.\<close>

definition Serialize_CUnsignedSyncCheckpoint :: "CSyncCheckpoint \<Rightarrow> bytes" where
  "Serialize_CUnsignedSyncCheckpoint c = Serialize_word 4 (sc_nVersion c) @ Serialize_word 32 (hashCheckpoint c)"

definition Unserialize_CUnsignedSyncCheckpoint :: "CSyncCheckpoint \<Rightarrow> bytes \<Rightarrow> (CSyncCheckpoint \<times> bytes) option" where
  "Unserialize_CUnsignedSyncCheckpoint c s = do {
     (v, s) \<leftarrow> (Unserialize_word 4 s :: (int32 \<times> bytes) option);
     (h, s) \<leftarrow> (Unserialize_word 32 s :: (uint256 \<times> bytes) option);
     Some (c\<lparr> sc_nVersion := v, hashCheckpoint := h \<rparr>, s) }"

definition Serialize_CSyncCheckpoint :: "CSyncCheckpoint \<Rightarrow> bytes" where
  "Serialize_CSyncCheckpoint c = Serialize_vector_bytes (sc_vchMsg c) @ Serialize_vector_bytes (sc_vchSig c)"

definition Unserialize_CSyncCheckpoint :: "bytes \<Rightarrow> (CSyncCheckpoint \<times> bytes) option" where
  "Unserialize_CSyncCheckpoint s = do {
     (m, s) \<leftarrow> Unserialize_vector_bytes s;
     (g, s) \<leftarrow> Unserialize_vector_bytes s;
     Some (SyncCheckpoint_SetNull\<lparr> sc_vchMsg := m, sc_vchSig := g \<rparr>, s) }"

definition checkpoint_strMasterPubKey :: string where
  "checkpoint_strMasterPubKey =
     ''046e08372d0edc8dff793f6a548ab55de46edb6224d00bee354576c5459c569bc332c7486638cf9f154e661d414c0c6f76da1e0022a5253b079cf5e7378b144fb1''"

text \<open>A content that is too short raises an exception.\<close>

definition SyncCheckpoint_CheckSignature :: "'a openssl_scheme \<Rightarrow> CSyncCheckpoint \<Rightarrow> outcome \<times> CSyncCheckpoint" where
  "SyncCheckpoint_CheckSignature lib c =
     (case CKey_SetPubKey lib (ParseHex checkpoint_strMasterPubKey) of
        None \<Rightarrow> (Failed, c)
      | Some key \<Rightarrow>
          if \<not> CKey_Verify lib key (Hash lib (sc_vchMsg c)) (sc_vchSig c) then (Failed, c)
          else case Unserialize_CUnsignedSyncCheckpoint c (sc_vchMsg c) of
            None \<Rightarrow> (Threw, c)
          | Some (c, _) \<Rightarrow> (Done, c))"

section \<open>The state of the node\<close>

datatype peer_call =
    PushGetBlocks nat "nat option" uint256
  | AskFor nat uint256
  | RelayCheckpoint CSyncCheckpoint
  | PushInventory uint256

text \<open>
  The map of the block index, the checkpoints in memory and in the database, the orphan blocks, the stakes seen, the
  proof hashes, the block file written last, the proof-of-work hashes and the calls on the peers. The multimap of orphans lists its entries
  in the order of their insertion.
\<close>

record full_node =
  fn_node :: node
  mapBlockIndex :: "uint256 \<rightharpoonup> nat"
  hashSyncCheckpoint :: uint256
  hashPendingCheckpoint :: uint256
  checkpointMessage :: CSyncCheckpoint
  checkpointMessagePending :: CSyncCheckpoint
  hashInvalidCheckpoint :: uint256
  db_hashSyncCheckpoint :: uint256
  mapOrphanBlocks :: "uint256 \<rightharpoonup> CBlock"
  mapOrphanBlocksByPrev :: "(uint256 \<times> CBlock) list"
  setStakeSeen :: "(COutPoint \<times> uint32) set"
  setStakeSeenOrphan :: "(COutPoint \<times> uint32) set"
  mapProofOfStake :: "uint256 \<rightharpoonup> uint256"
  nCurrentBlockFile :: uint32
  fn_hashes :: signed_hashes
  calls :: "peer_call list"

abbreviation fn_tree :: "full_node \<Rightarrow> block_tree" where
  "fn_tree s \<equiv> nd_tree (fn_node s)"

abbreviation height_at :: "full_node \<Rightarrow> nat \<Rightarrow> int" where
  "height_at s i \<equiv> bi_nHeight (bi_at (fn_tree s) i)"

definition call :: "peer_call list \<Rightarrow> full_node \<Rightarrow> full_node" where
  "call cs s = s\<lparr> calls := calls s @ cs \<rparr>"

definition fn_SetBestChain :: "'a openssl_scheme \<Rightarrow> connect_env \<Rightarrow> nat \<Rightarrow> CBlock \<Rightarrow> full_node \<Rightarrow> outcome \<times> full_node" where
  "fn_SetBestChain lib env i b s =
     (let (r, st) = SetBestChain lib env (hashSyncCheckpoint s) i b (fn_node s) in (r, s\<lparr> fn_node := st \<rparr>))"

definition IsInMainChain :: "full_node \<Rightarrow> nat \<Rightarrow> bool" where
  "IsInMainChain s i = (nd_pnext (fn_tree s ! i) \<noteq> None \<or> pindexBest (fn_node s) = Some i)"

section \<open>Hardened checkpoints\<close>

text \<open>The ordered map, from the lowest key.\<close>

definition mapCheckpoints :: "uint256 \<Rightarrow> (int \<times> uint256) list" where
  "mapCheckpoints hashGenesisBlock =
     [(0, hashGenesisBlock), (4024, 0xa33be4c6d63d2459ea587a110e21013fef619bfd3cebae1a51839496ab46c883)]"

definition CheckHardened :: "connect_env \<Rightarrow> int \<Rightarrow> uint256 \<Rightarrow> bool" where
  "CheckHardened env nHeight hash =
     (if env_fTestNet env then True
      else case map_of (mapCheckpoints (env_hashGenesisBlock env)) nHeight of None \<Rightarrow> True | Some h \<Rightarrow> hash = h)"

definition GetTotalBlocksEstimate :: "connect_env \<Rightarrow> int" where
  "GetTotalBlocksEstimate env =
     (if env_fTestNet env then 0 else fst (last (mapCheckpoints (env_hashGenesisBlock env))))"

fun last_known :: "(uint256 \<rightharpoonup> nat) \<Rightarrow> (int \<times> uint256) list \<Rightarrow> nat option" where
  "last_known index [] = None"
| "last_known index (i # is) = (case index (snd i) of Some p \<Rightarrow> Some p | None \<Rightarrow> last_known index is)"

definition GetLastCheckpoint :: "connect_env \<Rightarrow> (uint256 \<rightharpoonup> nat) \<Rightarrow> nat option" where
  "GetLastCheckpoint env index =
     (if env_fTestNet env then index (env_hashGenesisBlock env)
      else last_known index (rev (mapCheckpoints (env_hashGenesisBlock env))))"

section \<open>The synchronized checkpoint\<close>

definition GetLastSyncCheckpoint :: "full_node \<Rightarrow> nat option" where
  "GetLastSyncCheckpoint s = mapBlockIndex s (hashSyncCheckpoint s)"

definition ValidateSyncCheckpoint :: "uint256 \<Rightarrow> full_node \<Rightarrow> bool \<times> full_node" where
  "ValidateSyncCheckpoint hash s =
     (case mapBlockIndex s (hashSyncCheckpoint s) of
        None \<Rightarrow> (False, s)
      | Some pindexSyncCheckpoint \<Rightarrow>
          (case mapBlockIndex s hash of
             None \<Rightarrow> (False, s)
           | Some pindexCheckpointRecv \<Rightarrow>
               if height_at s pindexCheckpointRecv \<le> height_at s pindexSyncCheckpoint then
                 (case back_to (fn_tree s) (height_at s pindexCheckpointRecv) pindexSyncCheckpoint of
                    None \<Rightarrow> (False, s)
                  | Some i \<Rightarrow>
                      if bi_hash (bi_at (fn_tree s) i) \<noteq> hash then (False, s\<lparr> hashInvalidCheckpoint := hash \<rparr>) else (False, s))
               else
                 (case back_to (fn_tree s) (height_at s pindexSyncCheckpoint) pindexCheckpointRecv of
                    None \<Rightarrow> (False, s)
                  | Some i \<Rightarrow>
                      if bi_hash (bi_at (fn_tree s) i) \<noteq> hashSyncCheckpoint s
                      then (False, s\<lparr> hashInvalidCheckpoint := hash \<rparr>) else (True, s))))"

text \<open>The database transaction of \<^verbatim>\<open>WriteSyncCheckpoint\<close> is taken to succeed.\<close>

definition WriteSyncCheckpoint :: "uint256 \<Rightarrow> full_node \<Rightarrow> full_node" where
  "WriteSyncCheckpoint hash s = s\<lparr> db_hashSyncCheckpoint := hash, hashSyncCheckpoint := hash \<rparr>"

text \<open>The steps that \<^verbatim>\<open>AcceptPendingSyncCheckpoint\<close>, \<^verbatim>\<open>ProcessSyncCheckpoint\<close> and \<^verbatim>\<open>ResetSyncCheckpoint\<close> share: bring a block into the main chain.\<close>

definition into_main_chain :: "'a openssl_scheme \<Rightarrow> connect_env \<Rightarrow> nat \<Rightarrow> full_node \<Rightarrow> outcome \<times> bool \<times> full_node" where
  "into_main_chain lib env i s =
     (if IsInMainChain s i then (Done, False, s)
      else case ReadFromDisk_index lib env (fn_node s) i of
        None \<Rightarrow> (Failed, False, s)
      | Some b \<Rightarrow> (let (r, s) = fn_SetBestChain lib env i b s in (r, r = Failed, s)))"

definition AcceptPendingSyncCheckpoint :: "'a openssl_scheme \<Rightarrow> connect_env \<Rightarrow> full_node \<Rightarrow> outcome \<times> full_node" where
  "AcceptPendingSyncCheckpoint lib env s =
     (let pending = hashPendingCheckpoint s in
      case (if pending \<noteq> 0 then mapBlockIndex s pending else None) of
        None \<Rightarrow> (Failed, s)
      | Some i \<Rightarrow>
          (case ValidateSyncCheckpoint pending s of
             (False, s) \<Rightarrow> (Failed, s\<lparr> hashPendingCheckpoint := 0, checkpointMessagePending := SyncCheckpoint_SetNull \<rparr>)
           | (True, s) \<Rightarrow>
               (case into_main_chain lib env i s of
                  (Done, _, s) \<Rightarrow>
                    let s = WriteSyncCheckpoint pending s;
                        msg = checkpointMessagePending s;
                        s = s\<lparr> hashPendingCheckpoint := 0, checkpointMessage := msg, checkpointMessagePending := SyncCheckpoint_SetNull \<rparr>
                    in (Done, if SyncCheckpoint_IsNull msg then s else call [RelayCheckpoint msg] s)
                | (r, refused, s) \<Rightarrow> (r, if refused then s\<lparr> hashInvalidCheckpoint := pending \<rparr> else s))))"

text \<open>
  The walk back along the orphans; \<open>None\<close> means that it does not end.
\<close>

partial_function (option) orphan_root :: "(uint256 \<rightharpoonup> CBlock) \<Rightarrow> CBlock \<Rightarrow> CBlock option" where
  "orphan_root orphans b =
     (case orphans (blk_hashPrevBlock b) of None \<Rightarrow> Some b | Some b \<Rightarrow> orphan_root orphans b)"

definition GetOrphanRoot :: "'a openssl_scheme \<Rightarrow> full_node \<Rightarrow> CBlock \<Rightarrow> uint256 option" where
  "GetOrphanRoot lib s b = map_option (GetIDHash lib) (orphan_root (mapOrphanBlocks s) b)"

definition WantedByOrphan :: "full_node \<Rightarrow> CBlock \<Rightarrow> uint256 option" where
  "WantedByOrphan s b = map_option blk_hashPrevBlock (orphan_root (mapOrphanBlocks s) b)"

definition WantedByPendingSyncCheckpoint :: "full_node \<Rightarrow> uint256 \<Rightarrow> bool option" where
  "WantedByPendingSyncCheckpoint s hashBlock =
     (if hashPendingCheckpoint s = 0 then Some False
      else if hashBlock = hashPendingCheckpoint s then Some True
      else case mapOrphanBlocks s (hashPendingCheckpoint s) of
        None \<Rightarrow> Some False
      | Some b \<Rightarrow> map_option (\<lambda>h. hashBlock = h) (WantedByOrphan s b))"

text \<open>\<^verbatim>\<open>CheckSync\<close>; \<open>None\<close> is the failed assertion.\<close>

definition CheckSync :: "connect_env \<Rightarrow> full_node \<Rightarrow> uint256 \<Rightarrow> nat \<Rightarrow> bool option" where
  "CheckSync env s hashBlock pindexPrev =
     (if env_fTestNet env then Some True
      else
        let nHeight = height_at s pindexPrev + 1 in
        case mapBlockIndex s (hashSyncCheckpoint s) of
          None \<Rightarrow> None
        | Some pindexSync \<Rightarrow>
            let h = height_at s pindexSync;
                above = (case back_to (fn_tree s) h pindexPrev of
                           None \<Rightarrow> False
                         | Some i \<Rightarrow> \<not> (height_at s i < h \<or> bi_hash (bi_at (fn_tree s) i) \<noteq> hashSyncCheckpoint s))
            in
            if nHeight > h \<and> \<not> above then Some False
            else if nHeight = h \<and> hashBlock \<noteq> hashSyncCheckpoint s then Some False
            else if nHeight < h \<and> mapBlockIndex s hashBlock = None then Some False
            else Some True)"

text \<open>The loop of \<^verbatim>\<open>ResetSyncCheckpoint\<close>, from the last hardened checkpoint on.\<close>

fun reset_loop :: "(int \<times> uint256) list \<Rightarrow> full_node \<Rightarrow> outcome \<times> full_node" where
  "reset_loop [] s = (Failed, s)"
| "reset_loop (i # is) s =
     (case mapBlockIndex s (snd i) of
        Some p \<Rightarrow> if IsInMainChain s p then (Done, WriteSyncCheckpoint (snd i) s) else reset_loop is s
      | None \<Rightarrow> reset_loop is s)"

definition ResetSyncCheckpoint :: "'a openssl_scheme \<Rightarrow> connect_env \<Rightarrow> full_node \<Rightarrow> outcome \<times> full_node" where
  "ResetSyncCheckpoint lib env s =
     (let table = mapCheckpoints (env_hashGenesisBlock env); hash = snd (last table) in
      case mapBlockIndex s hash of
        None \<Rightarrow> reset_loop (rev table) (s\<lparr> hashPendingCheckpoint := hash, checkpointMessagePending := SyncCheckpoint_SetNull \<rparr>)
      | Some i \<Rightarrow>
          (case into_main_chain lib env i s of
             (Done, _, s) \<Rightarrow> reset_loop (rev table) s
           | (r, _, s) \<Rightarrow> (r, s)))"

definition AskForPendingSyncCheckpoint :: "nat option \<Rightarrow> full_node \<Rightarrow> full_node" where
  "AskForPendingSyncCheckpoint pfrom s =
     (case pfrom of
        None \<Rightarrow> s
      | Some p \<Rightarrow>
          if hashPendingCheckpoint s \<noteq> 0 \<and> mapBlockIndex s (hashPendingCheckpoint s) = None \<and>
             mapOrphanBlocks s (hashPendingCheckpoint s) = None
          then call [AskFor p (hashPendingCheckpoint s)] s else s)"

definition IsMatureSyncCheckpoint :: "connect_env \<Rightarrow> full_node \<Rightarrow> bool option" where
  "IsMatureSyncCheckpoint env s =
     map_option (\<lambda>i. nBestHeight (fn_node s) \<ge> height_at s i + env_nCoinbaseMaturity env \<or>
                     bi_GetBlockTime (bi_at (fn_tree s) i) + uint (env_nStakeMinAge env) < env_GetAdjustedTime env)
       (mapBlockIndex s (hashSyncCheckpoint s))"

definition IsSyncCheckpointTooOld :: "connect_env \<Rightarrow> uint32 \<Rightarrow> full_node \<Rightarrow> bool option" where
  "IsSyncCheckpointTooOld env nSeconds s =
     map_option (\<lambda>i. bi_GetBlockTime (bi_at (fn_tree s) i) + uint nSeconds < env_GetAdjustedTime env)
       (mapBlockIndex s (hashSyncCheckpoint s))"

text \<open>\<^verbatim>\<open>ProcessSyncCheckpoint\<close>; \<open>None\<close> when the walk along the orphans does not end.\<close>

definition ProcessSyncCheckpoint ::
  "'a openssl_scheme \<Rightarrow> connect_env \<Rightarrow> nat option \<Rightarrow> CSyncCheckpoint \<Rightarrow> full_node \<Rightarrow> (outcome \<times> full_node) option" where
  "ProcessSyncCheckpoint lib env pfrom msg s =
     (case SyncCheckpoint_CheckSignature lib msg of
        (Done, msg) \<Rightarrow>
          let hash = hashCheckpoint msg in
          (case mapBlockIndex s hash of
             None \<Rightarrow>
               let s = s\<lparr> hashPendingCheckpoint := hash, checkpointMessagePending := msg \<rparr> in
               (case pfrom of
                  None \<Rightarrow> Some (Failed, s)
                | Some p \<Rightarrow>
                    map_option (\<lambda>wanted. (Failed, call [PushGetBlocks p (pindexBest (fn_node s)) hash, AskFor p wanted] s))
                      (case mapOrphanBlocks s hash of None \<Rightarrow> Some hash | Some b \<Rightarrow> WantedByOrphan s b))
           | Some i \<Rightarrow>
               (case ValidateSyncCheckpoint hash s of
                  (False, s) \<Rightarrow> Some (Failed, s)
                | (True, s) \<Rightarrow>
                    (case into_main_chain lib env i s of
                       (Done, _, s) \<Rightarrow>
                         Some (Done, (WriteSyncCheckpoint hash s)\<lparr> checkpointMessage := msg, hashPendingCheckpoint := 0,
                                       checkpointMessagePending := SyncCheckpoint_SetNull \<rparr>)
                     | (r, refused, s) \<Rightarrow> Some (r, if refused then s\<lparr> hashInvalidCheckpoint := hash \<rparr> else s))))
      | (r, _) \<Rightarrow> Some (r, s))"

section \<open>The holder of the master key\<close>

definition CHECKPOINT_MAX_SPAN :: int where "CHECKPOINT_MAX_SPAN = 60 * 60 * 4"

text \<open>\<^verbatim>\<open>GetLastBlockIndex\<close> on the tree, and the search forward along the main chain.\<close>

function last_of_kind :: "block_tree \<Rightarrow> bool \<Rightarrow> nat \<Rightarrow> nat" where
  "last_of_kind t fProofOfStake i =
     (case pprev t i of
        None \<Rightarrow> i
      | Some j \<Rightarrow> if bi_IsProofOfStake (bi_at t i) \<noteq> fProofOfStake then last_of_kind t fProofOfStake j else i)"
  by pat_completeness auto
termination by (relation "measure (\<lambda>(t, f, i). i)") (auto dest: pprev_less)

function select_forward :: "block_tree \<Rightarrow> int \<Rightarrow> nat \<Rightarrow> nat \<Rightarrow> nat" where
  "select_forward t nCoinbaseMaturity best i =
     (case pnext t i of
        None \<Rightarrow> i
      | Some j \<Rightarrow>
          if bi_GetBlockTime (bi_at t i) + CHECKPOINT_MAX_SPAN \<le> bi_GetBlockTime (bi_at t best) \<or>
             bi_nHeight (bi_at t i) + min 6 (nCoinbaseMaturity - 20) \<le> bi_nHeight (bi_at t best)
          then select_forward t nCoinbaseMaturity best j else i)"
  by pat_completeness auto
termination
  by (relation "measure (\<lambda>(t, m, b, i). length t - i)") (auto simp: pnext_def split: option.split_asm if_split_asm)

declare last_of_kind.simps [simp del] select_forward.simps [simp del]

text \<open>There is a best block when these are called.\<close>

definition AutoSelectSyncCheckpoint :: "connect_env \<Rightarrow> full_node \<Rightarrow> uint256 option" where
  "AutoSelectSyncCheckpoint env s =
     map_option (\<lambda>best. bi_hash (bi_at (fn_tree s)
         (select_forward (fn_tree s) (env_nCoinbaseMaturity env) best (last_of_kind (fn_tree s) False best))))
       (pindexBest (fn_node s))"

definition sign_checkpoint ::
  "'a openssl_scheme \<Rightarrow> (bytes \<Rightarrow> uint256 \<Rightarrow> bytes option) \<Rightarrow> string \<Rightarrow> uint256 \<Rightarrow> CSyncCheckpoint option" where
  "sign_checkpoint lib sign strPrivKey hash =
     (let c = SyncCheckpoint_SetNull\<lparr> hashCheckpoint := hash \<rparr>;
          c = c\<lparr> sc_vchMsg := Serialize_CUnsignedSyncCheckpoint c \<rparr>
      in map_option (\<lambda>g. c\<lparr> sc_vchSig := g \<rparr>) (sign (ParseHex strPrivKey) (Hash lib (sc_vchMsg c))))"

definition SetCheckpointPrivKey ::
  "'a openssl_scheme \<Rightarrow> (bytes \<Rightarrow> uint256 \<Rightarrow> bytes option) \<Rightarrow> uint256 \<Rightarrow> string \<Rightarrow> string \<Rightarrow> bool \<times> string" where
  "SetCheckpointPrivKey lib sign hashGenesisBlock strPrivKey old =
     (case sign_checkpoint lib sign strPrivKey hashGenesisBlock of None \<Rightarrow> (False, old) | Some _ \<Rightarrow> (True, strPrivKey))"

definition SendSyncCheckpoint ::
  "'a openssl_scheme \<Rightarrow> connect_env \<Rightarrow> (bytes \<Rightarrow> uint256 \<Rightarrow> bytes option) \<Rightarrow> string \<Rightarrow> uint256 \<Rightarrow> full_node \<Rightarrow> (outcome \<times> full_node) option" where
  "SendSyncCheckpoint lib env sign strMasterPrivKey hash s =
     (if strMasterPrivKey = [] then Some (Failed, s)
      else case sign_checkpoint lib sign strMasterPrivKey hash of
        None \<Rightarrow> Some (Failed, s)
      | Some c \<Rightarrow>
          map_option (\<lambda>(r, s). (r, if r = Done then call [RelayCheckpoint c] s else s)) (ProcessSyncCheckpoint lib env None c s))"

section \<open>What choosing a chain keeps\<close>

definition keeps :: "node \<Rightarrow> node \<Rightarrow> bool" where
  "keeps st st' \<longleftrightarrow> same_places (nd_tree st) (nd_tree st') \<and> nd_files st' = nd_files st \<and> pindexBest st' = pindexBest st \<and>
     hashBestChain st' = hashBestChain st \<and> nBestHeight st' = nBestHeight st \<and> bnBestChainTrust st' = bnBestChainTrust st"

lemma keeps_refl [simp]: "keeps st st"
  by (simp add: keeps_def)

lemma keeps_trans: "keeps a b \<Longrightarrow> keeps b c \<Longrightarrow> keeps a c"
  using same_places_trans by (auto simp: keeps_def)

lemma keeps_globals: "same_places (nd_tree st) (nd_tree st') \<Longrightarrow> same_globals st st' \<Longrightarrow> keeps st st'"
  by (simp add: keeps_def same_globals_def)

lemma keeps_InvalidChainFound: "keeps st s \<Longrightarrow> keeps st (InvalidChainFound i (TxnAbort st s))"
  by (simp add: keeps_def InvalidChainFound_def TxnAbort_def)

lemma keeps_TxnAbort: "keeps st s \<Longrightarrow> keeps st (TxnAbort st s)"
  by (simp add: keeps_def TxnAbort_def)

lemmas keeps_abort = keeps_InvalidChainFound keeps_TxnAbort

lemma Reorganize_keeps:
  assumes "Reorganize lib env hashSync new st = (r, st')"
  shows "keeps st st'"
proof (cases "r = Done")
  case True
  obtain best k "is" js where f: "pindexBest st = Some best" "find_fork (nd_tree st) best new = Some k"
    "branch (nd_tree st) best k = Some is" "branch (nd_tree st) new k = Some js"
    using assms True by (auto simp: Reorganize_def split: option.split_asm)
  obtain s1 v where d: "disconnect_loop lib env is st [] = Some (s1, v)"
    using assms True f by (auto simp: Reorganize_def split: option.split_asm if_split_asm)
  obtain s2 w where c: "connect_loop lib env (rev js) s1 [] = (Done, s2, w)"
    using assms True f d by (auto simp: Reorganize_def split: prod.split_asm if_split_asm outcome.split_asm)
  have t: "nd_tree st' = foldl (set_pnext Some) (foldl (set_pnext (\<lambda>_. None)) (nd_tree s2) is) (rev js)" and g: "same_globals s2 st'"
    using assms True f d c by (auto simp: Reorganize_def Let_def same_globals_def split: if_split_asm)
  have "same_places (nd_tree st) (nd_tree s2)" "same_globals st s2"
    using disconnect_loop_same [OF d] connect_loop_same [OF c] same_globals_trans by metis+
  moreover have "same_places (nd_tree s2) (nd_tree st')" unfolding t using same_places_pnext same_places_trans by blast
  ultimately show ?thesis using g same_places_trans same_globals_trans keeps_globals by blast
next
  case False
  then show ?thesis using Reorganize_not_done [OF assms] by (simp add: keeps_globals)
qed

lemma SetBestChainInner_keeps:
  assumes "SetBestChainInner lib env new b st = (r, st')"
  shows "keeps st st'"
proof -
  obtain q s where n: "node_ConnectBlock lib env new b st = (q, s)" by fastforce
  then have k: "keeps st s" using node_ConnectBlock_same keeps_globals by blast
  have "same_places (nd_tree s) (set_pnext Some (nd_tree s) new)" using same_places_pnext [of "nd_tree s" Some "[new]"] by simp
  then have "keeps st (s\<lparr> nd_hashBest := GetIDHash lib b, nd_tree := set_pnext Some (nd_tree s) new,
      nd_mempool := remove_all lib (vtx b) (nd_mempool s) \<rparr>)"
    using k same_places_trans by (auto simp: keeps_def)
  then show ?thesis using assms n k keeps_abort by (cases q) (auto simp: SetBestChainInner_def)
qed

lemma secondary_loop_keeps:
  assumes "secondary_loop lib env is st = (r, st')"
  shows "keeps st st'"
  using assms
proof (induction "is" arbitrary: st)
  case (Cons i "is")
  show ?case
  proof (cases "ReadFromDisk_index lib env st i")
    case (Some b)
    obtain q s where n: "SetBestChainInner lib env i b st = (q, s)" by fastforce
    then show ?thesis using Cons Some SetBestChainInner_keeps [OF n] keeps_trans by (cases q) auto
  qed (use Cons.prems in auto)
qed simp

lemma advance_keeps:
  assumes "advance lib env hashSync new b st = (r, st')"
  shows "keeps st st'"
proof -
  have re: "keeps st st'" if "Reorganize lib env hashSync mid st = (q, s)"
    "(case (q, s) of (Done, st) \<Rightarrow> secondary_loop lib env vs st | (Failed, st') \<Rightarrow> (Failed, InvalidChainFound new (TxnAbort st st'))
       | (Threw, st') \<Rightarrow> (Threw, TxnAbort st st')) = (r, st')" for mid q s vs
  proof (cases q)
    case Done
    then show ?thesis using Reorganize_keeps [OF that(1)] that(2) keeps_trans secondary_loop_keeps by (simp, blast)
  qed (use Reorganize_keeps [OF that(1)] that(2) keeps_abort in auto)
  consider "pindexGenesisBlock st = None \<and> GetIDHash lib b = env_hashGenesisBlock env"
    | "\<not> (pindexGenesisBlock st = None \<and> GetIDHash lib b = env_hashGenesisBlock env)" "blk_hashPrevBlock b = hashBestChain st"
    | "\<not> (pindexGenesisBlock st = None \<and> GetIDHash lib b = env_hashGenesisBlock env)" "blk_hashPrevBlock b \<noteq> hashBestChain st" by blast
  then show ?thesis
  proof cases
    case 1
    then have "st' = st\<lparr> nd_hashBest := GetIDHash lib b, pindexGenesisBlock := Some new \<rparr>" using assms by (simp add: advance_def)
    then show ?thesis by (simp add: keeps_def)
  next
    case 2
    then have "SetBestChainInner lib env new b st = (r, st')" using assms by (auto simp: advance_def Let_def)
    then show ?thesis by (rule SetBestChainInner_keeps)
  next
    case 3
    show ?thesis
    proof (cases "pindexBest st")
      case None
      then show ?thesis using 3 assms by (auto simp: advance_def Let_def)
    next
      case (Some best)
      obtain mid vs where p: "postpone (nd_tree st) (bi_bnChainTrust (bi_at (nd_tree st) best)) new [] = (mid, vs)" by fastforce
      obtain q s where "Reorganize lib env hashSync mid st = (q, s)" by fastforce
      then show ?thesis using re [of mid q s "rev vs"] assms 3 Some p by (auto simp: advance_def Let_def)
    qed
  qed
qed

lemma SetBestChain_keeps:
  assumes "SetBestChain lib env hashSync new b st = (r, st')"
  shows "same_places (nd_tree st) (nd_tree st') \<and> nd_files st' = nd_files st \<and> (r \<noteq> Done \<longrightarrow> keeps st st') \<and>
    (r = Done \<longrightarrow> pindexBest st' = Some new \<and> hashBestChain st' = GetIDHash lib b \<and>
      bnBestChainTrust st' = bi_bnChainTrust (bi_at (nd_tree st) new))"
proof -
  obtain a store where b: "BeginTransaction (nd_store st) = (a, store)" by fastforce
  show ?thesis
  proof (cases "a = Yes")
    case True
    obtain q s where adv: "advance lib env hashSync new b (st\<lparr> nd_store := store \<rparr>) = (q, s)" by fastforce
    have "keeps (st\<lparr> nd_store := store \<rparr>) s" by (rule advance_keeps [OF adv])
    then have k: "keeps st s" by (simp add: keeps_def)
    then have "bi_bnChainTrust (bi_at (nd_tree s) new) = bi_bnChainTrust (bi_at (nd_tree st) new)"
      by (simp add: keeps_def same_places_field(5))
    then show ?thesis using assms b True adv k
      by (cases q) (auto simp: SetBestChain_def keeps_def)
  next
    case False
    then show ?thesis using assms b by (cases a) (auto simp: SetBestChain_def)
  qed
qed

section \<open>Checkpoints and the tree\<close>

text \<open>
  The blocks form a tree, and the map names each of them by its hash, and nothing else.
\<close>

definition indexed :: "full_node \<Rightarrow> bool" where
  "indexed s \<longleftrightarrow> tree_ok (fn_tree s) \<and>
     (\<forall>h i. mapBlockIndex s h = Some i \<longleftrightarrow> i < length (fn_tree s) \<and> bi_hash (bi_at (fn_tree s) i) = h)"

lemma indexedD:
  assumes "indexed s"
  shows "tree_ok (fn_tree s)" and "mapBlockIndex s h = Some i \<Longrightarrow> i < length (fn_tree s) \<and> bi_hash (bi_at (fn_tree s) i) = h"
    and "i < length (fn_tree s) \<Longrightarrow> mapBlockIndex s (bi_hash (bi_at (fn_tree s) i)) = Some i"
  using assms unfolding indexed_def by blast+

lemma tree_ok_places:
  assumes "tree_ok t" and "same_places t t'"
  shows "tree_ok t'"
  using assms(1) assms(2) [unfolded same_places_def]
  by (fastforce simp: tree_ok_def list_all_iff node_ok_def same_places_field [OF assms(2)] split: option.split option.split_asm)

lemma indexed_places:
  assumes "indexed s" and "same_places (fn_tree s) (fn_tree s')" and "mapBlockIndex s' = mapBlockIndex s"
  shows "indexed s'"
  using assms(1,3) tree_ok_places [OF _ assms(2)] assms(2) [unfolded same_places_def]
  by (simp add: indexed_def same_places_field [OF assms(2)])

lemma ancestors_places: "same_places t t' \<Longrightarrow> ancestors t' i = ancestors t i"
proof (induction i rule: less_induct)
  case (less i)
  have "pprev t' i = pprev t i" using less.prems by (simp add: same_places_def)
  then show ?case using less by (subst (1 2) ancestors.simps) (auto split: option.split dest: pprev_less)
qed

text \<open>Going back to the height of a block that is not higher finds an ancestor; it is that block just when the hashes agree.\<close>

lemma ancestors_bound: "tree_ok t \<Longrightarrow> i < length t \<Longrightarrow> k \<in> set (ancestors t i) \<Longrightarrow> k < length t"
  using height_ancestor by fastforce

lemma back_to_hash:
  assumes "indexed s" and "mapBlockIndex s h = Some k" and "i < length (fn_tree s)"
    and "back_to (fn_tree s) (height_at s k) i = Some j"
  shows "bi_hash (bi_at (fn_tree s) j) = h \<longleftrightarrow> k \<in> set (ancestors (fn_tree s) i)"
proof -
  note t = indexedD(1) [OF assms(1)] and k = indexedD(2) [OF assms(1,2)]
  have "0 \<le> height_at s k" using height_ancestor [OF t, of k k] k by simp
  then have j: "j \<in> set (ancestors (fn_tree s) i)" "height_at s j \<le> height_at s k"
    and anc: "{a \<in> set (ancestors (fn_tree s) i). height_at s a \<le> height_at s k} = set (ancestors (fn_tree s) j)"
    using back_to_spec [OF t assms(3)] assms(4) by fastforce+
  have jl: "j < length (fn_tree s)" by (rule ancestors_bound [OF t assms(3) j(1)])
  show ?thesis
  proof
    assume "bi_hash (bi_at (fn_tree s) j) = h"
    then have "j = k" using indexedD(3) [OF assms(1) jl] assms(2) by simp
    then show "k \<in> set (ancestors (fn_tree s) i)" using j(1) by simp
  next
    assume "k \<in> set (ancestors (fn_tree s) i)"
    then have "k \<in> set (ancestors (fn_tree s) j)" using anc by auto
    then have "k = j" using height_ancestor [OF t jl, of k] j(2) by force
    then show "bi_hash (bi_at (fn_tree s) j) = h" using k by simp
  qed
qed

text \<open>A checkpoint that is validated is a proper descendant of the current one, and validation changes the invalid checkpoint alone.\<close>

lemma ValidateSyncCheckpoint_cases:
  assumes "ValidateSyncCheckpoint hash s = (v, s')"
  shows "s' = s\<lparr> hashInvalidCheckpoint := hashInvalidCheckpoint s' \<rparr>" and "v \<Longrightarrow> s' = s"
  using assms by (auto simp: ValidateSyncCheckpoint_def split: option.split_asm if_split_asm)

lemma ValidateSyncCheckpoint_iff:
  assumes "indexed s"
  shows "fst (ValidateSyncCheckpoint hash s) \<longleftrightarrow> (\<exists>i j. mapBlockIndex s (hashSyncCheckpoint s) = Some i \<and> mapBlockIndex s hash = Some j \<and>
    i \<in> set (ancestors (fn_tree s) j) \<and> i \<noteq> j)"
proof -
  note t = indexedD(1) [OF assms]
  show ?thesis
  proof (cases "mapBlockIndex s (hashSyncCheckpoint s)")
    case (Some i)
    show ?thesis
    proof (cases "mapBlockIndex s hash")
      case j: (Some j)
      have il: "i < length (fn_tree s)" and jl: "j < length (fn_tree s)" using indexedD(2) [OF assms] Some j by blast+
      have anc: "height_at s i < height_at s j" if "i \<in> set (ancestors (fn_tree s) j)" "i \<noteq> j"
        using height_ancestor [OF t jl that(1)] that(2) by simp
      show ?thesis
      proof (cases "height_at s j \<le> height_at s i")
        case True
        then have "\<not> (i \<in> set (ancestors (fn_tree s) j) \<and> i \<noteq> j)" using anc by force
        then show ?thesis using True Some j by (auto simp: ValidateSyncCheckpoint_def split: option.split)
      next
        case False
        have "0 \<le> height_at s i" using height_ancestor [OF t il, of i] by simp
        then obtain k where k: "back_to (fn_tree s) (height_at s i) j = Some k" using back_to_spec [OF t jl] by blast
        then show ?thesis using False Some j back_to_hash [OF assms Some jl k] by (auto simp: ValidateSyncCheckpoint_def)
      qed
    qed (simp add: ValidateSyncCheckpoint_def Some)
  qed (simp add: ValidateSyncCheckpoint_def)
qed

lemma into_main_chain_keeps:
  assumes "into_main_chain lib env i s = (r, f, s')"
  shows "s' = s\<lparr> fn_node := fn_node s' \<rparr> \<and> same_places (fn_tree s) (fn_tree s') \<and> nd_files (fn_node s') = nd_files (fn_node s) \<and>
    (r = Done \<longrightarrow> IsInMainChain s' i)"
proof (cases "IsInMainChain s i")
  case False
  show ?thesis
  proof (cases "ReadFromDisk_index lib env (fn_node s) i")
    case (Some b)
    obtain q st where st: "SetBestChain lib env (hashSyncCheckpoint s) i b (fn_node s) = (q, st)" by fastforce
    then show ?thesis using assms False Some SetBestChain_keeps [OF st]
      by (auto simp: into_main_chain_def fn_SetBestChain_def IsInMainChain_def)
  qed (use assms False in \<open>auto simp: into_main_chain_def\<close>)
qed (use assms in \<open>auto simp: into_main_chain_def\<close>)

text \<open>How a checkpoint may move: not at all, or to a proper descendant in the main chain, in memory and in the database.\<close>

definition checkpoint_moves :: "full_node \<Rightarrow> full_node \<Rightarrow> bool" where
  "checkpoint_moves s s' \<longleftrightarrow>
     (hashSyncCheckpoint s' = hashSyncCheckpoint s \<and> db_hashSyncCheckpoint s' = db_hashSyncCheckpoint s \<or>
      db_hashSyncCheckpoint s' = hashSyncCheckpoint s' \<and>
      (\<exists>i j. mapBlockIndex s (hashSyncCheckpoint s) = Some i \<and> mapBlockIndex s (hashSyncCheckpoint s') = Some j \<and>
         i \<in> set (ancestors (fn_tree s) j) \<and> i \<noteq> j \<and> IsInMainChain s' j))"

lemma checkpoint_written:
  assumes "indexed s" and "ValidateSyncCheckpoint hash s = (v, s1)" and v and "mapBlockIndex s hash = Some j"
    and "into_main_chain lib env j s1 = (Done, f, s2)" and "hashSyncCheckpoint s' = hash" and "db_hashSyncCheckpoint s' = hash"
    and "fn_node s' = fn_node s2"
  shows "checkpoint_moves s s'"
proof -
  obtain i where "mapBlockIndex s (hashSyncCheckpoint s) = Some i" "i \<in> set (ancestors (fn_tree s) j)" "i \<noteq> j"
    using ValidateSyncCheckpoint_iff [OF assms(1), of hash] assms(2-4) by auto
  moreover have "IsInMainChain s' j" using into_main_chain_keeps [OF assms(5)] assms(8) by (simp add: IsInMainChain_def)
  ultimately show ?thesis using assms(4,6,7) by (auto simp: checkpoint_moves_def)
qed

lemma checkpoint_stays: "hashSyncCheckpoint s' = hashSyncCheckpoint s \<Longrightarrow> db_hashSyncCheckpoint s' = db_hashSyncCheckpoint s \<Longrightarrow> checkpoint_moves s s'"
  by (simp add: checkpoint_moves_def)

text \<open>What the handling of a checkpoint leaves alone.\<close>

definition same_blocks :: "full_node \<Rightarrow> full_node \<Rightarrow> bool" where
  "same_blocks s s' \<longleftrightarrow> same_places (fn_tree s) (fn_tree s') \<and> mapBlockIndex s' = mapBlockIndex s \<and>
     nd_files (fn_node s') = nd_files (fn_node s) \<and> mapOrphanBlocks s' = mapOrphanBlocks s \<and>
     mapOrphanBlocksByPrev s' = mapOrphanBlocksByPrev s \<and> setStakeSeen s' = setStakeSeen s \<and>
     setStakeSeenOrphan s' = setStakeSeenOrphan s \<and> mapProofOfStake s' = mapProofOfStake s"

lemma same_blocks_refl [simp]: "same_blocks s s"
  by (simp add: same_blocks_def)

lemma same_blocks_indexed: "indexed s \<Longrightarrow> same_blocks s s' \<Longrightarrow> indexed s'"
  using indexed_places by (auto simp: same_blocks_def)

lemma into_main_chain_blocks: "into_main_chain lib env i s = (r, f, s') \<Longrightarrow> same_blocks s s' \<and> hashSyncCheckpoint s' = hashSyncCheckpoint s \<and>
    db_hashSyncCheckpoint s' = db_hashSyncCheckpoint s \<and> checkpointMessagePending s' = checkpointMessagePending s"
  using into_main_chain_keeps [of lib env i s r f s'] by (cases s; cases s') (auto simp: same_blocks_def)

lemma ValidateSyncCheckpoint_blocks:
  assumes "ValidateSyncCheckpoint h s = (v, s')"
  shows "same_blocks s s' \<and> hashSyncCheckpoint s' = hashSyncCheckpoint s \<and> db_hashSyncCheckpoint s' = db_hashSyncCheckpoint s"
proof -
  define x where "x = hashInvalidCheckpoint s'"
  have "s' = s\<lparr> hashInvalidCheckpoint := x \<rparr>" using ValidateSyncCheckpoint_cases(1) [OF assms] by (simp add: x_def)
  then show ?thesis by (simp add: same_blocks_def)
qed

lemma AcceptPendingSyncCheckpoint_moves:
  assumes "indexed s" and "AcceptPendingSyncCheckpoint lib env s = (r, s')"
  shows "same_blocks s s' \<and> checkpoint_moves s s' \<and> (hashSyncCheckpoint s' \<noteq> hashSyncCheckpoint s \<longrightarrow> hashSyncCheckpoint s' = hashPendingCheckpoint s)"
proof (cases "hashPendingCheckpoint s \<noteq> 0 \<and> mapBlockIndex s (hashPendingCheckpoint s) \<noteq> None")
  case True
  then obtain i where p: "hashPendingCheckpoint s \<noteq> 0" "mapBlockIndex s (hashPendingCheckpoint s) = Some i" by auto
  obtain v s1 where v: "ValidateSyncCheckpoint (hashPendingCheckpoint s) s = (v, s1)" by fastforce
  show ?thesis
  proof (cases v)
    case True
    then have s1: "s1 = s" using ValidateSyncCheckpoint_cases(2) [OF v] by simp
    obtain q f s2 where m: "into_main_chain lib env i s1 = (q, f, s2)" by (metis prod_cases3)
    note b = into_main_chain_blocks [OF m, unfolded s1]
    show ?thesis
    proof (cases q)
      case Done
      note m = m [unfolded Done]
      have w: "hashSyncCheckpoint s' = hashPendingCheckpoint s" "db_hashSyncCheckpoint s' = hashPendingCheckpoint s" "fn_node s' = fn_node s2"
        "same_blocks s2 s'"
        using assms(2) p v True m by (auto simp: AcceptPendingSyncCheckpoint_def Let_def WriteSyncCheckpoint_def call_def same_blocks_def split: if_split_asm)
      have "checkpoint_moves s s'" using checkpoint_written [OF assms(1) v True p(2) m w(1-3)] .
      then show ?thesis using w b by (auto simp: same_blocks_def)
    qed (use assms(2) p v True m b in \<open>auto simp: AcceptPendingSyncCheckpoint_def Let_def same_blocks_def checkpoint_moves_def split: if_split_asm\<close>)
  next
    case False
    then show ?thesis using assms(2) p v ValidateSyncCheckpoint_blocks [OF v]
      by (auto simp: AcceptPendingSyncCheckpoint_def Let_def same_blocks_def checkpoint_moves_def)
  qed
qed (use assms(2) in \<open>auto simp: AcceptPendingSyncCheckpoint_def Let_def checkpoint_moves_def split: if_split_asm\<close>)

text \<open>For a block that is not in the tree, the check against the checkpoint asks for a descendant.\<close>

lemma CheckSync_iff:
  assumes "indexed s" and "\<not> env_fTestNet env" and "mapBlockIndex s (hashSyncCheckpoint s) = Some k" and "i < length (fn_tree s)"
    and "mapBlockIndex s hash = None"
  shows "CheckSync env s hash i = Some (k \<in> set (ancestors (fn_tree s) i))"
proof -
  note t = indexedD(1) [OF assms(1)] and k = indexedD(2) [OF assms(1,3)]
  have k0: "0 \<le> height_at s k" using height_ancestor [OF t, of k k] k by simp
  have anc: "height_at s k \<le> height_at s i" if "k \<in> set (ancestors (fn_tree s) i)" using height_ancestor [OF t assms(4) that] by force
  have ne: "hash \<noteq> hashSyncCheckpoint s" using assms(3,5) by auto
  obtain j where j: "back_to (fn_tree s) (height_at s k) i = Some j" "j \<in> set (ancestors (fn_tree s) i)"
    using back_to_spec [OF t assms(4) k0] by blast
  have h: "bi_hash (bi_at (fn_tree s) j) = hashSyncCheckpoint s \<longleftrightarrow> k \<in> set (ancestors (fn_tree s) i)"
    by (rule back_to_hash [OF assms(1,3,4) j(1)])
  have jk: "j = k" if "bi_hash (bi_at (fn_tree s) j) = hashSyncCheckpoint s"
    using indexedD(3) [OF assms(1) ancestors_bound [OF t assms(4) j(2)]] that assms(3) by simp
  show ?thesis
  proof (cases "height_at s i + 1 > height_at s k")
    case True
    then show ?thesis using assms(2,3) j(1) h jk by (auto simp: CheckSync_def)
  next
    case False
    then have "k \<notin> set (ancestors (fn_tree s) i)" using anc by force
    then show ?thesis using False assms(2,3,5) ne by (auto simp: CheckSync_def Let_def)
  qed
qed

lemma ProcessSyncCheckpoint_moves:
  assumes "indexed s" and "ProcessSyncCheckpoint lib env pfrom msg s = Some (r, s')"
  shows "same_blocks s s' \<and> indexed s' \<and> checkpoint_moves s s' \<and>
    (hashSyncCheckpoint s' \<noteq> hashSyncCheckpoint s \<longrightarrow> r = Done \<and>
      (\<exists>key. CKey_SetPubKey lib (ParseHex checkpoint_strMasterPubKey) = Some key \<and>
         CKey_Verify lib key (Hash lib (sc_vchMsg msg)) (sc_vchSig msg)) \<and>
      (\<exists>c rest. Unserialize_CUnsignedSyncCheckpoint msg (sc_vchMsg msg) = Some (c, rest) \<and> hashCheckpoint c = hashSyncCheckpoint s'))"
proof -
  have stays: ?thesis if "same_blocks s s'" "hashSyncCheckpoint s' = hashSyncCheckpoint s" "db_hashSyncCheckpoint s' = db_hashSyncCheckpoint s"
    using that same_blocks_indexed [OF assms(1) that(1)] by (simp add: checkpoint_moves_def)
  obtain q c where sig: "SyncCheckpoint_CheckSignature lib msg = (q, c)" by fastforce
  show ?thesis
  proof (cases q)
    case Done
    then have signed: "(\<exists>key. CKey_SetPubKey lib (ParseHex checkpoint_strMasterPubKey) = Some key \<and>
         CKey_Verify lib key (Hash lib (sc_vchMsg msg)) (sc_vchSig msg)) \<and>
      (\<exists>rest. Unserialize_CUnsignedSyncCheckpoint msg (sc_vchMsg msg) = Some (c, rest))"
      using sig by (auto simp: SyncCheckpoint_CheckSignature_def split: option.split_asm if_split_asm)
    show ?thesis
    proof (cases "mapBlockIndex s (hashCheckpoint c)")
      case None
      then show ?thesis using assms(2) sig Done
        by (intro stays) (auto simp: ProcessSyncCheckpoint_def Let_def same_blocks_def call_def split: option.split_asm)
    next
      case (Some j)
      obtain v s1 where v: "ValidateSyncCheckpoint (hashCheckpoint c) s = (v, s1)" by fastforce
      show ?thesis
      proof (cases v)
        case True
        then have s1: "s1 = s" using ValidateSyncCheckpoint_cases(2) [OF v] by simp
        obtain p f s2 where m: "into_main_chain lib env j s1 = (p, f, s2)" by (metis prod_cases3)
        note b = into_main_chain_blocks [OF m, unfolded s1]
        show ?thesis
        proof (cases p)
          case p: Done
          note m = m [unfolded p]
          have w: "hashSyncCheckpoint s' = hashCheckpoint c" "db_hashSyncCheckpoint s' = hashCheckpoint c" "fn_node s' = fn_node s2"
            "same_blocks s2 s'" "r = Done"
            using assms(2) sig Done Some v True m by (auto simp: ProcessSyncCheckpoint_def Let_def WriteSyncCheckpoint_def same_blocks_def)
          have "checkpoint_moves s s'" using checkpoint_written [OF assms(1) v True Some m w(1-3)] .
          moreover have "same_blocks s s'" using w(3,4) b by (auto simp: same_blocks_def)
          ultimately show ?thesis using w(1,5) signed same_blocks_indexed [OF assms(1)] by auto
        next
          case Failed
          then have "s' = s2 \<or> s' = s2\<lparr> hashInvalidCheckpoint := hashCheckpoint c \<rparr>"
            using assms(2) sig Done Some v True m by (auto simp: ProcessSyncCheckpoint_def Let_def split: if_split_asm)
          then show ?thesis using b by (intro stays) (auto simp: same_blocks_def)
        next
          case Threw
          then have "s' = s2 \<or> s' = s2\<lparr> hashInvalidCheckpoint := hashCheckpoint c \<rparr>"
            using assms(2) sig Done Some v True m by (auto simp: ProcessSyncCheckpoint_def Let_def split: if_split_asm)
          then show ?thesis using b by (intro stays) (auto simp: same_blocks_def)
        qed
      next
        case False
        then show ?thesis using assms(2) sig Done Some v ValidateSyncCheckpoint_blocks [OF v]
          by (intro stays) (auto simp: ProcessSyncCheckpoint_def Let_def)
      qed
    qed
  qed (use assms sig in \<open>auto simp: ProcessSyncCheckpoint_def checkpoint_moves_def\<close>)
qed


text \<open>Two blocks in the main chain, the first of which is the checkpoint; the toy signature is the key.\<close>

definition two_tree :: block_tree where
  "two_tree = [\<lparr> nd_bi = demo_root, nd_pprev = None, nd_pnext = Some 1 \<rparr>,
     \<lparr> nd_bi = demo_root\<lparr> bi_hash := 40, bi_nHeight := 1 \<rparr>, nd_pprev = Some 0, nd_pnext = None \<rparr>]"

definition two_node :: full_node where
  "two_node = \<lparr> fn_node = demo_node Map.empty Map.empty two_tree 1, mapBlockIndex = [32 \<mapsto> 0, 40 \<mapsto> 1],
     hashSyncCheckpoint = 32, hashPendingCheckpoint = 0, checkpointMessage = SyncCheckpoint_SetNull,
     checkpointMessagePending = SyncCheckpoint_SetNull, hashInvalidCheckpoint = 0, db_hashSyncCheckpoint = 32,
     mapOrphanBlocks = Map.empty, mapOrphanBlocksByPrev = [], setStakeSeen = {}, setStakeSeenOrphan = {}, mapProofOfStake = Map.empty,
     nCurrentBlockFile = 1, fn_hashes = hashes_init Map.empty, calls = [] \<rparr>"

definition demo_checkpoint :: CSyncCheckpoint where
  "demo_checkpoint = SyncCheckpoint_SetNull\<lparr> sc_vchMsg := Serialize_CUnsignedSyncCheckpoint (SyncCheckpoint_SetNull\<lparr> hashCheckpoint := 40 \<rparr>),
     sc_vchSig := ParseHex checkpoint_strMasterPubKey \<rparr>"

lemma two_shape:
  "pprev two_tree 0 = None" "pprev two_tree (Suc 0) = Some 0" "bi_at two_tree 0 = demo_root"
  "bi_at two_tree (Suc 0) = demo_root\<lparr> bi_hash := 40, bi_nHeight := 1 \<rparr>" "length two_tree = 2" "fn_tree two_node = two_tree"
  by (simp_all add: two_tree_def pprev_def bi_at_def two_node_def demo_node_def)

lemma two_indexed: "indexed two_node"
  unfolding indexed_def
proof (intro conjI allI)
  show "tree_ok (fn_tree two_node)"
    by (simp add: tree_ok_def node_ok_def two_shape demo_root_def upt_rec)
  show "mapBlockIndex two_node h = Some i \<longleftrightarrow> i < length (fn_tree two_node) \<and> bi_hash (bi_at (fn_tree two_node) i) = h" for h i
    unfolding two_shape
    by (cases "i = 0"; cases "i = Suc 0") (auto simp: two_shape two_node_def demo_root_def)
qed

lemma master_key: "ParseHex checkpoint_strMasterPubKey \<noteq> []"
  by (simp add: checkpoint_strMasterPubKey_def ParseHex.simps [of "CHR ''0'' # _"] isspace_def hex_digit_def)

lemma demo_checkpoint_signed: "SyncCheckpoint_CheckSignature demo_lib demo_checkpoint = (Done, demo_checkpoint\<lparr> hashCheckpoint := 40 \<rparr>)"
  using master_key by (simp add: SyncCheckpoint_CheckSignature_def CKey_SetPubKey_def CKey_Verify_def demo_lib_def demo_checkpoint_def
      Serialize_CUnsignedSyncCheckpoint_def Unserialize_CUnsignedSyncCheckpoint_def SyncCheckpoint_SetNull_def u32.dec_enc u256.dec_enc
      u256.dec_enc [of _ "[]", simplified])


end
