(* ===== verification/Acceptance.thy ===== *)
theory Acceptance
  imports Checkpoints
begin

text \<open>
  How a block enters the node: \<^verbatim>\<open>AddToBlockIndex\<close>, \<^verbatim>\<open>AcceptBlock\<close> and \<^verbatim>\<open>ProcessBlock\<close> of \<^verbatim>\<open>src/src/main.cpp\<close>, with the orphan blocks that wait
  for their predecessor. The user interface is left out; what is called on the peers is recorded.
\<close>

section \<open>A new block in the tree\<close>

text \<open>
  What the functions read besides the state: the modifier interval, the free bytes of the disk, whether the initial download is going
  on, which depends on the clock, the pool of threads, and the master keys of a node that holds them.
\<close>

record accept_env = connect_env +
  acc_nModifierInterval :: uint32
  acc_free_bytes :: uint64
  acc_IsInitialBlockDownload :: "full_node \<Rightarrow> bool"
  acc_pow :: pow_env
  acc_sign :: "bytes \<Rightarrow> uint256 \<Rightarrow> bytes option"
  acc_checkpointKey :: string
  acc_signedHashKey :: string

abbreviation cenv :: "accept_env \<Rightarrow> connect_env" where
  "cenv \<equiv> connect_env.truncate"

text \<open>The constructor of \<^verbatim>\<open>CBlockIndex\<close>, with the hash the object is filed under.\<close>

definition CBlockIndex_new :: "uint256 \<Rightarrow> uint32 \<Rightarrow> uint32 \<Rightarrow> CBlock \<Rightarrow> CBlockIndex" where
  "CBlockIndex_new hash nFileIn nBlockPosIn b =
     (let p = \<lparr> bi_hash = hash, bi_nFile = nFileIn, bi_nBlockPos = nBlockPosIn, bi_bnChainTrust = 0, bi_nHeight = 0, bi_nPoWHeight = 0,
                bi_nMint = 0, bi_nMoneySupply = 0, bi_nPoSTotalMint = 0, bi_nPoSDebt = 0, bi_nFlags = 0, bi_nStakeModifier = 0,
                bi_nStakeModifierChecksum = 0, bi_prevoutStake = COutPoint_SetNull, bi_nStakeTime = 0, bi_hashProofOfStake = 0,
                bi_nVersion = blk_nVersion b, bi_hashMerkleRoot = blk_hashMerkleRoot b, bi_nTime = blk_nTime b, bi_nBits = blk_nBits b,
                bi_nNonce = blk_nNonce b \<rparr>
      in if IsProofOfStake b
         then (bi_SetProofOfStake p)\<lparr> bi_prevoutStake := prevout (vin (vtx b ! 1) ! 0), bi_nStakeTime := tx_nTime (vtx b ! 1) \<rparr>
         else p)"

text \<open>The block index object with its place in the chain and its trust.\<close>

definition place_block_index :: "'a openssl_scheme \<Rightarrow> CBlockIndex \<Rightarrow> CBlock \<Rightarrow> chain \<Rightarrow> CBlockIndex" where
  "place_block_index lib p b pprev_chain =
     (let p = (case pprev_chain of
                 [] \<Rightarrow> p
               | q # _ \<Rightarrow> p\<lparr> bi_nHeight := bi_nHeight q + 1, bi_nPoWHeight := bi_nPoWHeight q + (if IsProofOfWork b then 1 else 0) \<rparr>)
      in p\<lparr> bi_bnChainTrust := (case pprev_chain of [] \<Rightarrow> 0 | q # _ \<Rightarrow> bi_bnChainTrust q) + bi_GetBlockTrust lib p \<rparr>)"

text \<open>The object up to the point where it is filed, or how the function ends before that.\<close>

definition new_block_index ::
  "'a openssl_scheme \<Rightarrow> accept_env \<Rightarrow> uint32 \<Rightarrow> uint32 \<Rightarrow> CBlock \<Rightarrow> full_node \<Rightarrow> outcome + CBlockIndex" where
  "new_block_index lib env nFile nBlockPos b s =
     (let hash = GetIDHash lib b; t = fn_tree s;
          pprev_chain = (case mapBlockIndex s (blk_hashPrevBlock b) of None \<Rightarrow> [] | Some j \<Rightarrow> chain_at t j);
          p = place_block_index lib (CBlockIndex_new hash nFile nBlockPos b) b pprev_chain
      in
      case bi_SetStakeEntropyBit (GetStakeEntropyBit lib (env_fTestNet env) b) p of
        None \<Rightarrow> Inl Failed
      | Some p \<Rightarrow>
          (case (if bi_IsProofOfStake p then map_option (\<lambda>h. p\<lparr> bi_hashProofOfStake := h \<rparr>) (mapProofOfStake s hash) else Some p) of
             None \<Rightarrow> Inl Failed
           | Some p \<Rightarrow>
               (case ComputeNextStakeModifier lib (env_fTestNet env) (acc_nModifierInterval env)
                       (\<lambda>h. map_option (bi_at t) (mapBlockIndex s h)) (p # pprev_chain) of
                  None \<Rightarrow> Inl Failed
                | Some (nStakeModifier, fGenerated) \<Rightarrow>
                    let p = bi_SetStakeModifier nStakeModifier fGenerated p in
                    (case GetStakeModifierChecksum lib (env_hashGenesisBlock env) (p # pprev_chain) of
                       None \<Rightarrow> Inl Threw
                     | Some checksum \<Rightarrow>
                         let p = p\<lparr> bi_nStakeModifierChecksum := checksum \<rparr> in
                         if \<not> CheckStakeModifierCheckpoints (env_fTestNet env) (bi_nHeight p) checksum then Inl Failed else Inr p))))"

text \<open>Filing the object: in the map, among the stakes seen, and in the database.\<close>

definition file_block_index :: "'a openssl_scheme \<Rightarrow> CBlock \<Rightarrow> CBlockIndex \<Rightarrow> full_node \<Rightarrow> full_node" where
  "file_block_index lib b p s =
     (let prev = mapBlockIndex s (blk_hashPrevBlock b); t = fn_tree s;
          c = p # (case prev of None \<Rightarrow> [] | Some j \<Rightarrow> chain_at t j);
          st = fn_node s
      in s\<lparr> fn_node := st\<lparr> nd_tree := t @ [\<lparr> nd_bi = p, nd_pprev = prev, nd_pnext = None \<rparr>],
                            nd_blocks := WriteBlockIndex lib (CDiskBlockIndex_new c 0) (nd_blocks st) \<rparr>,
            mapBlockIndex := (mapBlockIndex s)(bi_hash p \<mapsto> length t),
            setStakeSeen := (if bi_IsProofOfStake p then insert (bi_prevoutStake p, bi_nStakeTime p) (setStakeSeen s) else setStakeSeen s) \<rparr>)"

definition AddToBlockIndex ::
  "'a openssl_scheme \<Rightarrow> accept_env \<Rightarrow> uint32 \<Rightarrow> uint32 \<Rightarrow> CBlock \<Rightarrow> full_node \<Rightarrow> outcome \<times> full_node" where
  "AddToBlockIndex lib env nFile nBlockPos b s =
     (if mapBlockIndex s (GetIDHash lib b) \<noteq> None then (Failed, s)
      else case new_block_index lib env nFile nBlockPos b s of
        Inl r \<Rightarrow> (r, s)
      | Inr p \<Rightarrow>
          let i = length (fn_tree s); s = file_block_index lib b p s in
          if bi_bnChainTrust p > bnBestChainTrust (fn_node s) then fn_SetBestChain lib (cenv env) i b s else (Done, s))"

section \<open>Accepting a block\<close>

text \<open>The verdict on a block, with the penalty of the peer.\<close>

datatype block_result = BAccepted | BRefused nat | BThrew

definition CheckDiskSpace :: "accept_env \<Rightarrow> nat \<Rightarrow> bool" where
  "CheckDiskSpace env nAdditionalBytes = (\<not> acc_free_bytes env < 15000000 + of_nat nAdditionalBytes)"

text \<open>The checks of \<^verbatim>\<open>AcceptBlock\<close> against the chain.\<close>

definition accept_checks :: "'a openssl_scheme \<Rightarrow> accept_env \<Rightarrow> CBlock \<Rightarrow> full_node \<Rightarrow> block_result" where
  "accept_checks lib env b s =
     (let hash = GetIDHash lib b in
      if mapBlockIndex s hash \<noteq> None then BRefused 0
      else case mapBlockIndex s (blk_hashPrevBlock b) of
        None \<Rightarrow> BRefused 10
      | Some j \<Rightarrow>
          let c = chain_at (fn_tree s) j; nHeight = bi_nHeight (hd c) + 1 in
          (case GetNextTargetRequired lib (env_fTestNet env) c (IsProofOfStake b) of
             None \<Rightarrow> BThrew
           | Some nBits \<Rightarrow>
               if blk_nBits b \<noteq> nBits then BRefused 100
               else if GetBlockTime b \<le> GetMedianTimePast c \<or> GetBlockTime b + nMaxClockDrift < bi_GetBlockTime (hd c) then BRefused 0
               else if list_ex (\<lambda>tx. \<not> CTransaction_IsFinal (nBestHeight (fn_node s)) (env_GetAdjustedTime env) nHeight (GetBlockTime b) tx) (vtx b)
               then BRefused 10
               else if \<not> CheckHardened (cenv env) nHeight hash then BRefused 100
               else (case CheckSync (cenv env) s hash j of None \<Rightarrow> BThrew | Some False \<Rightarrow> BRefused 0 | Some True \<Rightarrow> BAccepted)))"

definition AcceptBlock :: "'a openssl_scheme \<Rightarrow> accept_env \<Rightarrow> CBlock \<Rightarrow> full_node \<Rightarrow> block_result \<times> full_node" where
  "AcceptBlock lib env b s =
     (case accept_checks lib env b s of
        BAccepted \<Rightarrow>
          if \<not> CheckDiskSpace env (length (Serialize_CBlock b)) then (BRefused 0, s)
          else (case WriteToDisk (env_fTestNet env) b (nd_files (fn_node s)) (nCurrentBlockFile s) of
             None \<Rightarrow> (BRefused 0, s)
           | Some (nFile, nBlockPos, files) \<Rightarrow>
               let s = s\<lparr> fn_node := (fn_node s)\<lparr> nd_files := files \<rparr>, nCurrentBlockFile := nFile \<rparr> in
               (case AddToBlockIndex lib env nFile nBlockPos b s of
                  (Failed, s) \<Rightarrow> (BRefused 0, s)
                | (Threw, s) \<Rightarrow> (BThrew, s)
                | (Done, s) \<Rightarrow>
                    let s = (if hashBestChain (fn_node s) = GetIDHash lib b then call [PushInventory (GetIDHash lib b)] s else s) in
                    (case AcceptPendingSyncCheckpoint lib (cenv env) s of
                       (Threw, s) \<Rightarrow> (BThrew, s)
                     | (_, s) \<Rightarrow> (BAccepted, s))))
      | r \<Rightarrow> (r, s))"

section \<open>Orphan blocks\<close>

text \<open>The orphans of one predecessor, and the hashes of those accepted; an exception ends the loop.\<close>

fun orphans_of :: "'a openssl_scheme \<Rightarrow> accept_env \<Rightarrow> CBlock list \<Rightarrow> uint256 list \<Rightarrow> full_node \<Rightarrow> bool \<times> uint256 list \<times> full_node" where
  "orphans_of lib env [] vWorkQueue s = (True, vWorkQueue, s)"
| "orphans_of lib env (b # bs) vWorkQueue s =
     (case AcceptBlock lib env b s of
        (BThrew, s) \<Rightarrow> (False, vWorkQueue, s)
      | (r, s) \<Rightarrow>
          orphans_of lib env bs (if r = BAccepted then vWorkQueue @ [GetIDHash lib b] else vWorkQueue)
            (s\<lparr> mapOrphanBlocks := (mapOrphanBlocks s)(GetIDHash lib b := None),
                setStakeSeenOrphan := setStakeSeenOrphan s - {GetProofOfStake b} \<rparr>))"

text \<open>The orphans are not touched by what accepts a block.\<close>

definition same_orphans :: "full_node \<Rightarrow> full_node \<Rightarrow> bool" where
  "same_orphans s s' \<longleftrightarrow> mapOrphanBlocks s' = mapOrphanBlocks s \<and> mapOrphanBlocksByPrev s' = mapOrphanBlocksByPrev s \<and>
     setStakeSeenOrphan s' = setStakeSeenOrphan s"

lemma same_orphans_refl [simp]: "same_orphans s s"
  by (simp add: same_orphans_def)

lemma same_orphans_trans: "same_orphans a b \<Longrightarrow> same_orphans b c \<Longrightarrow> same_orphans a c"
  by (simp add: same_orphans_def)

lemma fn_SetBestChain_cases:
  assumes "fn_SetBestChain lib env i b s = (r, s')"
  obtains st where "s' = s\<lparr> fn_node := st \<rparr>" and "SetBestChain lib env (hashSyncCheckpoint s) i b (fn_node s) = (r, st)"
  using assms by (auto simp: fn_SetBestChain_def split: prod.split_asm)

lemma AddToBlockIndex_cases:
  assumes "AddToBlockIndex lib env nFile nBlockPos b s = (r, s')"
  obtains (refused) "s' = s" and "r \<noteq> Done"
    | (filed) p where "mapBlockIndex s (GetIDHash lib b) = None" and "new_block_index lib env nFile nBlockPos b s = Inr p"
        and "s' = file_block_index lib b p s" and "r = Done" and "\<not> bi_bnChainTrust p > bnBestChainTrust (fn_node s)"
    | (best) p st where "mapBlockIndex s (GetIDHash lib b) = None" and "new_block_index lib env nFile nBlockPos b s = Inr p"
        and "bi_bnChainTrust p > bnBestChainTrust (fn_node s)" and "s' = (file_block_index lib b p s)\<lparr> fn_node := st \<rparr>"
        and "SetBestChain lib (cenv env) (hashSyncCheckpoint s) (length (fn_tree s)) b (fn_node (file_block_index lib b p s)) = (r, st)"
proof (cases "mapBlockIndex s (GetIDHash lib b)")
  case None
  have f: "bnBestChainTrust (fn_node (file_block_index lib b p s)) = bnBestChainTrust (fn_node s)"
    "hashSyncCheckpoint (file_block_index lib b p s) = hashSyncCheckpoint s" for p by (simp_all add: file_block_index_def Let_def)
  show thesis
  proof (cases "new_block_index lib env nFile nBlockPos b s")
    case (Inl q)
    have "q \<noteq> Done" using Inl unfolding new_block_index_def Let_def by (auto split: option.split_asm prod.split_asm if_split_asm)
    then show thesis using assms None Inl refused by (auto simp: AddToBlockIndex_def)
  next
    case (Inr p)
    show thesis
    proof (cases "bi_bnChainTrust p > bnBestChainTrust (fn_node s)")
      case True
      then have "fn_SetBestChain lib (cenv env) (length (fn_tree s)) b (file_block_index lib b p s) = (r, s')"
        using assms None Inr by (simp add: AddToBlockIndex_def Let_def f)
      then show thesis using best [OF None Inr True] by (elim fn_SetBestChain_cases) (simp add: f)
    next
      case False
      then show thesis using assms None Inr filed by (simp add: AddToBlockIndex_def Let_def f)
    qed
  qed
qed (use assms refused in \<open>auto simp: AddToBlockIndex_def\<close>)

lemma AddToBlockIndex_orphans: "AddToBlockIndex lib env nFile nBlockPos b s = (r, s') \<Longrightarrow> same_orphans s s'"
  by (erule AddToBlockIndex_cases) (simp_all add: same_orphans_def file_block_index_def Let_def)

lemma AcceptPendingSyncCheckpoint_blocks:
  assumes "AcceptPendingSyncCheckpoint lib env s = (r, s')"
  shows "same_blocks s s'"
proof (cases "hashPendingCheckpoint s \<noteq> 0 \<and> mapBlockIndex s (hashPendingCheckpoint s) \<noteq> None")
  case True
  then obtain i where i: "mapBlockIndex s (hashPendingCheckpoint s) = Some i" by auto
  obtain v s1 where v: "ValidateSyncCheckpoint (hashPendingCheckpoint s) s = (v, s1)" by fastforce
  have s1: "same_blocks s s1" using ValidateSyncCheckpoint_blocks [OF v] by simp
  obtain q f s2 where m: "into_main_chain lib env i s1 = (q, f, s2)" by (metis prod_cases3)
  have s2: "same_blocks s s2" using into_main_chain_blocks [OF m] s1 same_places_trans by (auto simp: same_blocks_def)
  show ?thesis
  proof (cases v)
    case v1: True
    show ?thesis using assms True i v v1 m s2
      by (cases q) (auto simp: AcceptPendingSyncCheckpoint_def Let_def WriteSyncCheckpoint_def call_def same_blocks_def split: if_split_asm)
  qed (use assms True i v s1 in \<open>auto simp: AcceptPendingSyncCheckpoint_def Let_def same_blocks_def\<close>)
qed (use assms in \<open>auto simp: AcceptPendingSyncCheckpoint_def Let_def split: if_split_asm\<close>)

text \<open>\<^verbatim>\<open>AcceptBlock\<close> as its successive states: the block on disk, in the tree, announced, and after the pending checkpoint.\<close>

lemma AcceptBlock_cases:
  assumes "AcceptBlock lib env b s = (r, s')"
  obtains (refused) "s' = s" and "r \<noteq> BAccepted"
    | (stored) nFile nBlockPos files q s1 where "accept_checks lib env b s = BAccepted"
        and "WriteToDisk (env_fTestNet env) b (nd_files (fn_node s)) (nCurrentBlockFile s) = Some (nFile, nBlockPos, files)"
        and "AddToBlockIndex lib env nFile nBlockPos b (s\<lparr> fn_node := (fn_node s)\<lparr> nd_files := files \<rparr>, nCurrentBlockFile := nFile \<rparr>) = (q, s1)"
        and "q \<noteq> Done" and "s' = s1" and "r \<noteq> BAccepted"
    | (added) nFile nBlockPos files s1 cs q where "accept_checks lib env b s = BAccepted"
        and "WriteToDisk (env_fTestNet env) b (nd_files (fn_node s)) (nCurrentBlockFile s) = Some (nFile, nBlockPos, files)"
        and "AddToBlockIndex lib env nFile nBlockPos b (s\<lparr> fn_node := (fn_node s)\<lparr> nd_files := files \<rparr>, nCurrentBlockFile := nFile \<rparr>) = (Done, s1)"
        and "AcceptPendingSyncCheckpoint lib (cenv env) (call cs s1) = (q, s')" and "r = (if q = Threw then BThrew else BAccepted)"
proof (cases "accept_checks lib env b s = BAccepted \<and> CheckDiskSpace env (length (Serialize_CBlock b)) \<and>
    WriteToDisk (env_fTestNet env) b (nd_files (fn_node s)) (nCurrentBlockFile s) \<noteq> None")
  case True
  then obtain nFile nBlockPos files where w: "accept_checks lib env b s = BAccepted" "CheckDiskSpace env (length (Serialize_CBlock b))"
    "WriteToDisk (env_fTestNet env) b (nd_files (fn_node s)) (nCurrentBlockFile s) = Some (nFile, nBlockPos, files)" by auto
  obtain q s1 where a: "AddToBlockIndex lib env nFile nBlockPos b
      (s\<lparr> fn_node := (fn_node s)\<lparr> nd_files := files \<rparr>, nCurrentBlockFile := nFile \<rparr>) = (q, s1)" by fastforce
  show thesis
  proof (cases "q = Done")
    case True
    define s2 where "s2 = (if hashBestChain (fn_node s1) = GetIDHash lib b then call [PushInventory (GetIDHash lib b)] s1 else s1)"
    have "\<exists>cs. s2 = call cs s1" by (auto simp: s2_def call_def intro: exI [of _ "[]"])
    then obtain cs where cs: "s2 = call cs s1" ..
    obtain x s3 where x: "AcceptPendingSyncCheckpoint lib (cenv env) s2 = (x, s3)" by fastforce
    have "s' = s3 \<and> r = (if x = Threw then BThrew else BAccepted)"
      using assms w a True x by (cases x) (auto simp: AcceptBlock_def Let_def s2_def [symmetric])
    then show thesis using added [OF w(1,3)] a True x cs by blast
  next
    case False
    then show thesis using assms w a stored [OF w(1,3) a] by (cases q) (auto simp: AcceptBlock_def)
  qed
next
  case False
  then have "s' = s \<and> r \<noteq> BAccepted" using assms
    by (cases "accept_checks lib env b s") (auto simp: AcceptBlock_def split: if_split_asm option.split_asm)
  then show thesis using refused by blast
qed

lemma AcceptBlock_orphans:
  assumes "AcceptBlock lib env b s = (r, s')"
  shows "same_orphans s s'"
  using assms
proof (cases rule: AcceptBlock_cases)
  case (stored nFile nBlockPos files q s1)
  then show ?thesis using AddToBlockIndex_orphans [OF stored(3)] by (simp add: same_orphans_def)
next
  case (added nFile nBlockPos files s1 cs q)
  then show ?thesis using AddToBlockIndex_orphans [OF added(3)] AcceptPendingSyncCheckpoint_blocks [OF added(4)]
    by (simp add: same_orphans_def same_blocks_def call_def)
qed simp

lemma orphans_of_spec:
  assumes "orphans_of lib env bs q s = (ok, q', s')"
  shows "mapOrphanBlocksByPrev s' = mapOrphanBlocksByPrev s \<and> length q' \<le> length q + length bs"
  using assms
proof (induction bs arbitrary: q s)
  case (Cons b bs)
  obtain r s1 where a: "AcceptBlock lib env b s = (r, s1)" by fastforce
  have same: "mapOrphanBlocksByPrev s1 = mapOrphanBlocksByPrev s" using AcceptBlock_orphans [OF a] by (simp add: same_orphans_def)
  show ?case
  proof (cases "r = BThrew")
    case False
    then have "orphans_of lib env bs (if r = BAccepted then q @ [GetIDHash lib b] else q)
        (s1\<lparr> mapOrphanBlocks := (mapOrphanBlocks s1)(GetIDHash lib b := None),
             setStakeSeenOrphan := setStakeSeenOrphan s1 - {GetProofOfStake b} \<rparr>) = (ok, q', s')"
      using Cons.prems a by (cases r) auto
    from Cons.IH [OF this] show ?thesis using same by (auto split: if_split_asm)
  qed (use Cons.prems a same in auto)
qed simp

text \<open>
  The queue of accepted blocks whose orphans come next. Every entry of the queue but the first was an orphan, and
  is taken out of the multimap before its own orphans are.
\<close>

function work_queue :: "'a openssl_scheme \<Rightarrow> accept_env \<Rightarrow> uint256 list \<Rightarrow> full_node \<Rightarrow> bool \<times> full_node" where
  "work_queue lib env [] s = (True, s)"
| "work_queue lib env (hPrev # vWorkQueue) s =
     (case orphans_of lib env (map snd (filter (\<lambda>e. fst e = hPrev) (mapOrphanBlocksByPrev s))) vWorkQueue s of
        (False, _, s) \<Rightarrow> (False, s)
      | (True, vWorkQueue, s) \<Rightarrow>
          work_queue lib env vWorkQueue (s\<lparr> mapOrphanBlocksByPrev := filter (\<lambda>e. fst e \<noteq> hPrev) (mapOrphanBlocksByPrev s) \<rparr>))"
  by pat_completeness auto
termination
proof (relation "measure (\<lambda>(lib, env, q, s). 2 * length (mapOrphanBlocksByPrev s) + length q)", goal_cases)
  case (2 lib env h q s x y q' s')
  let ?here = "filter (\<lambda>e. fst e = h) (mapOrphanBlocksByPrev s)"
  have "orphans_of lib env (map snd ?here) q s = (True, q', s')" using 2 by simp
  then have "mapOrphanBlocksByPrev s' = mapOrphanBlocksByPrev s" "length q' \<le> length q + length ?here"
    using orphans_of_spec by fastforce+
  moreover have "length ?here + length (filter (\<lambda>e. fst e \<noteq> h) (mapOrphanBlocksByPrev s)) = length (mapOrphanBlocksByPrev s)"
    by (rule sum_length_filter_compl)
  ultimately show ?case by simp
qed simp

section \<open>Processing a block\<close>

text \<open>
  \<^verbatim>\<open>CheckBlock\<close> on the node. The proof of work is its last check, so that the hash is asked for, and kept, when the others have
  passed.
\<close>

definition fn_CheckBlock :: "'a openssl_scheme \<Rightarrow> accept_env \<Rightarrow> bool \<Rightarrow> CBlock \<Rightarrow> full_node \<Rightarrow> check_result \<times> full_node" where
  "fn_CheckBlock lib env fCheckPoWHash b s =
     (case CheckBlock lib (block_env.truncate env) False b of
        Accepted \<Rightarrow>
          if IsProofOfWork b \<and> fCheckPoWHash then
            let (pow, hashes) = CBlock_GetPoWHash lib (acc_pow env) b (fn_hashes s)
            in (CheckBlock lib ((block_env.truncate env)\<lparr> env_GetPoWHash := \<lambda>_. pow \<rparr>) True b, s\<lparr> fn_hashes := hashes \<rparr>)
          else (Accepted, s)
      | r \<Rightarrow> (r, s))"

text \<open>The stake of a block is checked against the node; its hash is kept for \<^verbatim>\<open>AddToBlockIndex\<close>.\<close>

definition fn_CheckProofOfStake :: "'a openssl_scheme \<Rightarrow> accept_env \<Rightarrow> CBlock \<Rightarrow> full_node \<Rightarrow> block_result \<times> full_node" where
  "fn_CheckProofOfStake lib env b s =
     (let st = fn_node s; hash = GetIDHash lib b;
          kenv = \<lparr> k_fTestNet = env_fTestNet env, k_nStakeMinAge = env_nStakeMinAge env, k_nModifierInterval = acc_nModifierInterval env,
                   k_mapBlockIndex = mapBlockIndex s, k_tree = nd_tree st \<rparr>
      in
      case CheckProofOfStake lib kenv (nd_files st) (node_db lib (cenv env) st) (vtx b ! 1) (blk_nBits b) (nd_cache st) of
        (StakeThrows, c) \<Rightarrow> (BThrew, s\<lparr> fn_node := st\<lparr> nd_cache := c \<rparr> \<rparr>)
      | (NoStake n, c) \<Rightarrow> (BRefused 0, s\<lparr> fn_node := st\<lparr> nd_cache := c \<rparr> \<rparr>)
      | (Stake h, c) \<Rightarrow>
          (BAccepted, s\<lparr> fn_node := st\<lparr> nd_cache := c \<rparr>,
             mapProofOfStake := (if mapProofOfStake s hash = None then (mapProofOfStake s)(hash \<mapsto> h) else mapProofOfStake s) \<rparr>))"

text \<open>Whether a stake was seen and nothing speaks for taking the block all the same; \<open>None\<close> if finding out does not end.\<close>

definition duplicate_stake :: "(COutPoint \<times> uint32) set \<Rightarrow> uint256 \<Rightarrow> CBlock \<Rightarrow> full_node \<Rightarrow> bool option" where
  "duplicate_stake seen hash b s =
     (if IsProofOfStake b \<and> GetProofOfStake b \<in> seen \<and> \<not> list_ex (\<lambda>e. fst e = hash) (mapOrphanBlocksByPrev s)
      then map_option Not (WantedByPendingSyncCheckpoint s hash) else Some False)"

text \<open>The block is put with the orphans, and the peer is asked for what is missing.\<close>

definition keep_orphan :: "uint256 \<Rightarrow> CBlock \<Rightarrow> full_node \<Rightarrow> full_node" where
  "keep_orphan hash b s = s\<lparr>
     setStakeSeenOrphan := (if IsProofOfStake b then insert (GetProofOfStake b) (setStakeSeenOrphan s) else setStakeSeenOrphan s),
     mapOrphanBlocks := (mapOrphanBlocks s)(hash \<mapsto> b), mapOrphanBlocksByPrev := mapOrphanBlocksByPrev s @ [(blk_hashPrevBlock b, b)] \<rparr>"

definition ask_for_orphans ::
  "'a openssl_scheme \<Rightarrow> accept_env \<Rightarrow> nat \<Rightarrow> CBlock \<Rightarrow> full_node \<Rightarrow> full_node option" where
  "ask_for_orphans lib env p b s = do {
     root \<leftarrow> GetOrphanRoot lib s b;
     (let s = call [PushGetBlocks p (pindexBest (fn_node s)) root] s in
      if acc_IsInitialBlockDownload env s then Some s
      else do { wanted \<leftarrow> WantedByOrphan s b; Some (call [AskFor p wanted] s) }) }"

definition hold_orphan ::
  "'a openssl_scheme \<Rightarrow> accept_env \<Rightarrow> nat option \<Rightarrow> CBlock \<Rightarrow> full_node \<Rightarrow> (block_result \<times> full_node) option" where
  "hold_orphan lib env pfrom b s =
     (let hash = GetIDHash lib b in
      case duplicate_stake (setStakeSeenOrphan s) hash b s of
        None \<Rightarrow> None
      | Some True \<Rightarrow> Some (BRefused 0, s)
      | Some False \<Rightarrow>
          map_option (Pair BAccepted)
            (case pfrom of None \<Rightarrow> Some (keep_orphan hash b s) | Some p \<Rightarrow> ask_for_orphans lib env p b (keep_orphan hash b s)))"

text \<open>What the holder of a master key does after a block was accepted; only an exception matters for the result.\<close>

definition checkpoint_duty :: "'a openssl_scheme \<Rightarrow> accept_env \<Rightarrow> nat option \<Rightarrow> full_node \<Rightarrow> (outcome \<times> full_node) option" where
  "checkpoint_duty lib env pfrom s =
     (if pfrom \<noteq> None \<and> acc_checkpointKey env \<noteq> [] then
        (case AutoSelectSyncCheckpoint (cenv env) s of
           None \<Rightarrow> Some (Threw, s)
         | Some h \<Rightarrow> SendSyncCheckpoint lib (cenv env) (acc_sign env) (acc_checkpointKey env) h s)
      else Some (Done, s))"

definition signed_hash_duty :: "'a openssl_scheme \<Rightarrow> accept_env \<Rightarrow> CBlock \<Rightarrow> full_node \<Rightarrow> outcome \<times> full_node" where
  "signed_hash_duty lib env b s =
     (if acc_signedHashKey env \<noteq> [] then
        (case SendSignedHash lib (acc_pow env) (acc_sign env) (acc_signedHashKey env)
                (map_option (chain_at (fn_tree s)) (mapBlockIndex s (GetIDHash lib b))) (GetIDHash lib b) (fn_hashes s) of
           (r, x, hashes) \<Rightarrow> (r, call (case x of None \<Rightarrow> [] | Some h \<Rightarrow> [PushInventory h]) (s\<lparr> fn_hashes := hashes \<rparr>)))
      else (Done, s))"

definition master_duties :: "'a openssl_scheme \<Rightarrow> accept_env \<Rightarrow> nat option \<Rightarrow> CBlock \<Rightarrow> full_node \<Rightarrow> (block_result \<times> full_node) option" where
  "master_duties lib env pfrom b s =
     (case checkpoint_duty lib env pfrom s of
        None \<Rightarrow> None
      | Some (Threw, s) \<Rightarrow> Some (BThrew, s)
      | Some (_, s) \<Rightarrow> (case signed_hash_duty lib env b s of (r, s) \<Rightarrow> Some (if r = Threw then BThrew else BAccepted, s)))"

definition take_block :: "'a openssl_scheme \<Rightarrow> accept_env \<Rightarrow> nat option \<Rightarrow> CBlock \<Rightarrow> full_node \<Rightarrow> (block_result \<times> full_node) option" where
  "take_block lib env pfrom b s =
     (case AcceptBlock lib env b s of
        (BAccepted, s) \<Rightarrow>
          (case work_queue lib env [GetIDHash lib b] s of
             (False, s) \<Rightarrow> Some (BThrew, s)
           | (True, s) \<Rightarrow> master_duties lib env pfrom b s)
      | (r, s) \<Rightarrow> Some (r, s))"

definition ProcessBlock :: "'a openssl_scheme \<Rightarrow> accept_env \<Rightarrow> nat option \<Rightarrow> CBlock \<Rightarrow> full_node \<Rightarrow> (block_result \<times> full_node) option" where
  "ProcessBlock lib env pfrom b s =
     (let hash = GetIDHash lib b in
      if mapBlockIndex s hash \<noteq> None then Some (BRefused 0, s)
      else if mapOrphanBlocks s hash \<noteq> None then Some (BRefused 0, s)
      else case duplicate_stake (setStakeSeen s) hash b s of
        None \<Rightarrow> None
      | Some True \<Rightarrow> Some (BRefused 0, s)
      | Some False \<Rightarrow>
          (case fn_CheckBlock lib env False b s of
             (Rejected n, s) \<Rightarrow> Some (BRefused n, s)
           | (Accepted, s) \<Rightarrow>
               (case (if IsProofOfStake b then fn_CheckProofOfStake lib env b s else (BAccepted, s)) of
                  (BAccepted, s) \<Rightarrow>
                    let s = (if acc_IsInitialBlockDownload env s then s else AskForPendingSyncCheckpoint pfrom s) in
                    (case fn_CheckBlock lib env True b s of
                       (Rejected n, s) \<Rightarrow> Some (BRefused n, s)
                     | (Accepted, s) \<Rightarrow>
                         if mapBlockIndex s (blk_hashPrevBlock b) = None then hold_orphan lib env pfrom b s
                         else take_block lib env pfrom b s)
                | (r, s) \<Rightarrow> Some (r, s))))"

section \<open>The invariant of the node\<close>

text \<open>
  The first block is the genesis block; every block adds its trust to that of its predecessor; the best block is in the tree, with
  the hash and trust recorded for it; and the synchronized checkpoint is in the tree.
\<close>

definition trusted :: "'a openssl_scheme \<Rightarrow> block_tree \<Rightarrow> bool" where
  "trusted lib t = list_all (\<lambda>i. bi_bnChainTrust (bi_at t i) =
     (case pprev t i of None \<Rightarrow> 0 | Some j \<Rightarrow> bi_bnChainTrust (bi_at t j)) + bi_GetBlockTrust lib (bi_at t i)) [0..<length t]"

definition best_ok :: "node \<Rightarrow> bool" where
  "best_ok st = (case pindexBest st of
     None \<Rightarrow> True
   | Some i \<Rightarrow> i < length (nd_tree st) \<and> hashBestChain st = bi_hash (bi_at (nd_tree st) i) \<and>
       bnBestChainTrust st = bi_bnChainTrust (bi_at (nd_tree st) i))"

definition node_inv :: "'a openssl_scheme \<Rightarrow> uint256 \<Rightarrow> full_node \<Rightarrow> bool" where
  "node_inv lib hashGenesis s \<longleftrightarrow> indexed s \<and> (fn_tree s \<noteq> [] \<longrightarrow> bi_hash (bi_at (fn_tree s) 0) = hashGenesis) \<and>
     trusted lib (fn_tree s) \<and> best_ok (fn_node s) \<and> mapBlockIndex s (hashSyncCheckpoint s) \<noteq> None"

text \<open>The tree only grows: the blocks it has stay where they are, up to their mint and their forward pointers.\<close>

definition grows :: "block_tree \<Rightarrow> block_tree \<Rightarrow> bool" where
  "grows t t' \<longleftrightarrow> length t \<le> length t' \<and> (\<forall>i<length t. pprev t' i = pprev t i \<and> no_mint (bi_at t' i) = no_mint (bi_at t i))"

lemma grows_places: "same_places t t' \<Longrightarrow> grows t t'"
  by (simp add: grows_def same_places_def)

lemma grows_refl [simp]: "grows t t"
  by (simp add: grows_def)

lemma grows_trans: "grows a b \<Longrightarrow> grows b c \<Longrightarrow> grows a c"
  by (simp add: grows_def)

lemma pprev_append: "i < length t \<Longrightarrow> pprev (t @ [x]) i = pprev t i"
  by (simp add: pprev_def nth_append)

lemma bi_at_append: "i < length t \<Longrightarrow> bi_at (t @ [x]) i = bi_at t i"
  by (simp add: bi_at_def nth_append)

lemma bi_at_new [simp]: "bi_at (t @ [x]) (length t) = nd_bi x"
  by (simp add: bi_at_def)

lemma pprev_new: "pprev (t @ [x]) (length t) = (case nd_pprev x of None \<Rightarrow> None | Some j \<Rightarrow> if j < length t then Some j else None)"
  by (simp add: pprev_def)

lemma grows_append: "grows t (t @ [x])"
  by (simp add: grows_def pprev_append bi_at_append)

lemma ancestors_grows:
  assumes "grows t t'" and "i < length t"
  shows "ancestors t' i = ancestors t i"
  using assms(2)
proof (induction i rule: less_induct)
  case (less i)
  have "pprev t' i = pprev t i" using assms(1) less.prems by (simp add: grows_def)
  moreover have "ancestors t' j = ancestors t j" if "pprev t i = Some j" for j
    using less.IH pprev_less [OF that] less.prems by simp
  ultimately show ?case by (subst (1 2) ancestors.simps) (simp split: option.split)
qed

lemma ancestors_trans: "i \<in> set (ancestors t j) \<Longrightarrow> j \<in> set (ancestors t k) \<Longrightarrow> i \<in> set (ancestors t k)"
proof (induction k rule: less_induct)
  case (less k)
  show ?case
  proof (cases "pprev t k")
    case None
    then show ?thesis using less.prems by (simp add: ancestors_root)
  next
    case (Some l)
    then show ?thesis using less pprev_less [OF Some] by (auto simp: ancestors_step)
  qed
qed

lemma BlockTrust_no_mint: "bi_GetBlockTrust lib (no_mint p) = bi_GetBlockTrust lib p"
  by (simp add: bi_GetBlockTrust_def Let_def bi_IsProofOfStake_def no_mint_def)

lemma grows_field:
  assumes "grows t t'" and "i < length t"
  shows "bi_hash (bi_at t' i) = bi_hash (bi_at t i)" "bi_nHeight (bi_at t' i) = bi_nHeight (bi_at t i)"
    "bi_bnChainTrust (bi_at t' i) = bi_bnChainTrust (bi_at t i)" "bi_GetBlockTrust lib (bi_at t' i) = bi_GetBlockTrust lib (bi_at t i)"
  using assms no_mint_fields BlockTrust_no_mint unfolding grows_def by metis+

lemma trusted_places:
  assumes "trusted lib t" and "same_places t t'"
  shows "trusted lib t'"
proof -
  have g: "grows t t'" by (rule grows_places [OF assms(2)])
  have "pprev t' i = pprev t i" "length t' = length t" for i using assms(2) by (simp_all add: same_places_def)
  then show ?thesis using assms(1) grows_field(4) [OF g, of _ lib]
    by (auto simp: trusted_def list_all_iff same_places_field [OF assms(2)] split: option.split option.split_asm)
qed

section \<open>Filing keeps the invariant\<close>

lemma flag_bits: "((x :: uint32) OR 2) AND 1 = x AND 1" "(x OR 4) AND 1 = x AND 1"
  by (rule bit_word_eqI, auto simp: bit_and_iff bit_or_iff bit_1_iff bit_numeral_rec)+

lemma SetStakeEntropyBit_fields:
  assumes "bi_SetStakeEntropyBit e p = Some q"
  shows "bi_hash q = bi_hash p" "bi_nHeight q = bi_nHeight p" "bi_bnChainTrust q = bi_bnChainTrust p" "bi_GetBlockTrust lib q = bi_GetBlockTrust lib p"
  using assms by (auto simp: bi_SetStakeEntropyBit_def bi_GetBlockTrust_def Let_def bi_IsProofOfStake_def BLOCK_STAKE_ENTROPY_def BLOCK_PROOF_OF_STAKE_def
      flag_bits split: if_split_asm)

lemma SetStakeModifier_fields:
  "bi_hash (bi_SetStakeModifier m g p) = bi_hash p" "bi_nHeight (bi_SetStakeModifier m g p) = bi_nHeight p"
  "bi_bnChainTrust (bi_SetStakeModifier m g p) = bi_bnChainTrust p" "bi_GetBlockTrust lib (bi_SetStakeModifier m g p) = bi_GetBlockTrust lib p"
  by (simp_all add: bi_SetStakeModifier_def bi_GetBlockTrust_def Let_def bi_IsProofOfStake_def BLOCK_STAKE_MODIFIER_def BLOCK_PROOF_OF_STAKE_def flag_bits)

lemma BlockTrust_upd [simp]:
  "bi_GetBlockTrust lib (p\<lparr> bi_bnChainTrust := x \<rparr>) = bi_GetBlockTrust lib p" "bi_GetBlockTrust lib (p\<lparr> bi_hashProofOfStake := h \<rparr>) = bi_GetBlockTrust lib p"
  "bi_GetBlockTrust lib (p\<lparr> bi_nStakeModifierChecksum := c \<rparr>) = bi_GetBlockTrust lib p"
  by (simp_all add: bi_GetBlockTrust_def Let_def bi_IsProofOfStake_def)

lemma new_block_index_Inr:
  assumes "new_block_index lib env nFile nBlockPos b s = Inr p"
  defines "prev \<equiv> mapBlockIndex s (blk_hashPrevBlock b)"
  shows "bi_hash p = GetIDHash lib b"
    and "bi_nHeight p = (case prev of None \<Rightarrow> 0 | Some j \<Rightarrow> height_at s j + 1)"
    and "bi_bnChainTrust p = (case prev of None \<Rightarrow> 0 | Some j \<Rightarrow> bi_bnChainTrust (bi_at (fn_tree s) j)) + bi_GetBlockTrust lib p"
    and "prev = None \<Longrightarrow> GetIDHash lib b = env_hashGenesisBlock env"
proof -
  define cs where "cs = (case prev of None \<Rightarrow> [] | Some j \<Rightarrow> chain_at (fn_tree s) j)"
  define p0 where "p0 = CBlockIndex_new (GetIDHash lib b) nFile nBlockPos b"
  define p2 where "p2 = place_block_index lib p0 b cs"
  have chain: "(case cs of [] \<Rightarrow> x | q # _ \<Rightarrow> f q) = (case prev of None \<Rightarrow> x | Some j \<Rightarrow> f (bi_at (fn_tree s) j))" for x :: 'c and f
    by (cases prev) (simp_all add: cs_def, subst chain_at.simps, simp)
  have hash: "bi_hash p0 = GetIDHash lib b" "bi_nHeight p0 = 0"
    by (simp_all add: p0_def CBlockIndex_new_def Let_def bi_SetProofOfStake_def)
  have p2: "bi_hash p2 = GetIDHash lib b" "bi_nHeight p2 = (case prev of None \<Rightarrow> 0 | Some j \<Rightarrow> height_at s j + 1)"
    "bi_bnChainTrust p2 = (case prev of None \<Rightarrow> 0 | Some j \<Rightarrow> bi_bnChainTrust (bi_at (fn_tree s) j)) + bi_GetBlockTrust lib p2"
    using hash unfolding p2_def place_block_index_def Let_def by (simp_all add: chain split: option.split)
  obtain p3 where p3: "bi_SetStakeEntropyBit (GetStakeEntropyBit lib (env_fTestNet env) b) p2 = Some p3"
    using assms(1) by (auto simp: new_block_index_def Let_def prev_def [symmetric] cs_def [symmetric] p0_def [symmetric] p2_def [symmetric] split: option.split_asm)
  obtain p4 where p4: "(if bi_IsProofOfStake p3 then map_option (\<lambda>h. p3\<lparr> bi_hashProofOfStake := h \<rparr>) (mapProofOfStake s (GetIDHash lib b)) else Some p3) = Some p4"
    using assms(1) p3 by (simp add: new_block_index_def Let_def prev_def [symmetric] cs_def [symmetric] p0_def [symmetric] p2_def [symmetric] split: option.split_asm)
  obtain m g where m: "ComputeNextStakeModifier lib (env_fTestNet env) (acc_nModifierInterval env)
      (\<lambda>h. map_option (bi_at (fn_tree s)) (mapBlockIndex s h)) (p4 # cs) = Some (m, g)"
    using assms(1) p3 p4 by (simp add: new_block_index_def Let_def prev_def [symmetric] cs_def [symmetric] p0_def [symmetric] p2_def [symmetric] split: option.split_asm prod.split_asm)
  obtain c where c: "GetStakeModifierChecksum lib (env_hashGenesisBlock env) (bi_SetStakeModifier m g p4 # cs) = Some c"
    and p: "p = (bi_SetStakeModifier m g p4)\<lparr> bi_nStakeModifierChecksum := c \<rparr>"
    using assms(1) p3 p4 m by (simp add: new_block_index_def Let_def prev_def [symmetric] cs_def [symmetric] p0_def [symmetric] p2_def [symmetric] split: option.split_asm if_split_asm)
  have f4: "bi_hash p4 = bi_hash p3" "bi_nHeight p4 = bi_nHeight p3" "bi_bnChainTrust p4 = bi_bnChainTrust p3" "bi_GetBlockTrust lib p4 = bi_GetBlockTrust lib p3"
    using p4 by (auto split: if_split_asm)
  note fields = f4 SetStakeEntropyBit_fields [OF p3] SetStakeModifier_fields
  show h: "bi_hash p = GetIDHash lib b" by (simp add: p fields p2)
  show "bi_nHeight p = (case prev of None \<Rightarrow> 0 | Some j \<Rightarrow> height_at s j + 1)" by (simp add: p fields p2)
  show "bi_bnChainTrust p = (case prev of None \<Rightarrow> 0 | Some j \<Rightarrow> bi_bnChainTrust (bi_at (fn_tree s) j)) + bi_GetBlockTrust lib p"
    using p2(3) by (simp add: p fields)
  show "GetIDHash lib b = env_hashGenesisBlock env" if "prev = None"
    using c that h by (simp add: GetStakeModifierChecksum_def cs_def p split: if_split_asm)
qed

lemma node_invD:
  assumes "node_inv lib g s"
  shows "indexed s" "fn_tree s \<noteq> [] \<Longrightarrow> bi_hash (bi_at (fn_tree s) 0) = g" "trusted lib (fn_tree s)"
    "best_ok (fn_node s)" "mapBlockIndex s (hashSyncCheckpoint s) \<noteq> None"
  using assms by (simp_all add: node_inv_def)

lemma file_block_index_fields:
  "fn_tree (file_block_index lib b p s) = fn_tree s @ [\<lparr> nd_bi = p, nd_pprev = mapBlockIndex s (blk_hashPrevBlock b), nd_pnext = None \<rparr>]"
  "mapBlockIndex (file_block_index lib b p s) = (mapBlockIndex s)(bi_hash p \<mapsto> length (fn_tree s))"
  "hashSyncCheckpoint (file_block_index lib b p s) = hashSyncCheckpoint s" "pindexBest (fn_node (file_block_index lib b p s)) = pindexBest (fn_node s)"
  "hashBestChain (fn_node (file_block_index lib b p s)) = hashBestChain (fn_node s)"
  "bnBestChainTrust (fn_node (file_block_index lib b p s)) = bnBestChainTrust (fn_node s)"
  "hashPendingCheckpoint (file_block_index lib b p s) = hashPendingCheckpoint s" "db_hashSyncCheckpoint (file_block_index lib b p s) = db_hashSyncCheckpoint s"
  by (simp_all add: file_block_index_def Let_def)

lemma file_block_index_inv:
  assumes "node_inv lib (env_hashGenesisBlock env) s" and "mapBlockIndex s (GetIDHash lib b) = None" and "new_block_index lib env nFile nBlockPos b s = Inr p"
  shows "node_inv lib (env_hashGenesisBlock env) (file_block_index lib b p s)"
proof -
  note inv = node_invD [OF assms(1)] and p = new_block_index_Inr [OF assms(3)]
  let ?t = "fn_tree s" and ?prev = "mapBlockIndex s (blk_hashPrevBlock b)"
  let ?x = "\<lparr> nd_bi = p, nd_pprev = ?prev, nd_pnext = None \<rparr>"
  have root: "?t = []" "GetIDHash lib b = env_hashGenesisBlock env" if n: "?prev = None"
  proof -
    show g: "GetIDHash lib b = env_hashGenesisBlock env" by (rule p(4) [OF n])
    show "?t = []"
    proof (rule ccontr)
      assume "?t \<noteq> []"
      then have "mapBlockIndex s (env_hashGenesisBlock env) = Some 0" using indexedD(3) [OF inv(1), of 0] inv(2) by simp
      then show False using g assms(2) by simp
    qed
  qed
  have prev: "j < length ?t" if "?prev = Some j" for j using indexedD(2) [OF inv(1) that] by simp
  have new: "pprev (?t @ [?x]) (length ?t) = ?prev" using prev by (simp add: pprev_new split: option.split)
  have node: "node_ok (?t @ [?x]) i" if "i < Suc (length ?t)" for i
  proof (cases "i < length ?t")
    case True
    have "node_ok ?t i" using indexedD(1) [OF inv(1)] True by (simp add: tree_ok_def list_all_iff)
    then show ?thesis using True pprev_less [of ?t i] by (auto simp: node_ok_def pprev_append bi_at_append split: option.split_asm option.split)
  next
    case False
    then have "i = length ?t" using that by simp
    moreover have "bi_at [?x] 0 = p" by (simp add: bi_at_def)
    ultimately show ?thesis using new p(2) root prev by (auto simp: node_ok_def bi_at_append split: option.split option.split_asm)
  qed
  have "tree_ok (?t @ [?x])" using node by (simp add: tree_ok_def list_all_iff del: upt_Suc)
  moreover have "((mapBlockIndex s)(bi_hash p \<mapsto> length ?t)) h = Some i \<longleftrightarrow> i < Suc (length ?t) \<and> bi_hash (bi_at (?t @ [?x]) i) = h" for h i
  proof (cases "i < length ?t")
    case True
    have "bi_hash (bi_at ?t i) \<noteq> bi_hash p" using indexedD(3) [OF inv(1) True] assms(2) p(1) by auto
    then show ?thesis using True inv(1) by (auto simp: bi_at_append indexed_def)
  next
    case False
    then show ?thesis using inv(1) by (auto simp: indexed_def less_Suc_eq)
  qed
  ultimately have "indexed (file_block_index lib b p s)" by (simp add: indexed_def file_block_index_fields)
  moreover have "bi_hash (bi_at (?t @ [?x]) 0) = env_hashGenesisBlock env"
  proof (cases "?t = []")
    case True
    then have "?prev = None" using prev by (cases ?prev) auto
    then show ?thesis using True p(1) root(2) by (simp add: bi_at_def)
  qed (use inv(2) in \<open>simp add: bi_at_append\<close>)
  moreover have "trusted lib (?t @ [?x])"
    unfolding trusted_def list_all_iff
  proof (intro ballI)
    fix i assume "i \<in> set [0..<length (?t @ [?x])]"
    then consider "i < length ?t" | "i = length ?t" by force
    then show "bi_bnChainTrust (bi_at (?t @ [?x]) i) = (case pprev (?t @ [?x]) i of None \<Rightarrow> 0 | Some j \<Rightarrow> bi_bnChainTrust (bi_at (?t @ [?x]) j)) +
        bi_GetBlockTrust lib (bi_at (?t @ [?x]) i)"
    proof cases
      case 1
      then show ?thesis using inv(3) pprev_less [of ?t i]
        by (auto simp: trusted_def list_all_iff pprev_append bi_at_append split: option.split option.split_asm)
    next
      case 2
      then show ?thesis using new p(3) prev by (auto simp: bi_at_append split: option.split option.split_asm)
    qed
  qed
  moreover have "best_ok (fn_node (file_block_index lib b p s))"
    using inv(4) by (auto simp: best_ok_def file_block_index_fields bi_at_append split: option.split_asm option.split)
  ultimately show ?thesis using inv(5) by (simp add: node_inv_def file_block_index_fields)
qed

section \<open>How the node moves on\<close>

text \<open>The invariant holds, the tree has grown, and the checkpoint descends from the old one or is the same.\<close>

definition evolves :: "'a openssl_scheme \<Rightarrow> uint256 \<Rightarrow> full_node \<Rightarrow> full_node \<Rightarrow> bool" where
  "evolves lib g s s' \<longleftrightarrow> node_inv lib g s' \<and> grows (fn_tree s) (fn_tree s') \<and>
     (\<exists>i j. mapBlockIndex s (hashSyncCheckpoint s) = Some i \<and> mapBlockIndex s' (hashSyncCheckpoint s') = Some j \<and>
        i \<in> set (ancestors (fn_tree s') j))"

lemma evolves_inv: "evolves lib g s s' \<Longrightarrow> node_inv lib g s'"
  by (simp add: evolves_def)

lemma evolves_trans:
  assumes "evolves lib g a b" and "evolves lib g b c"
  shows "evolves lib g a c"
proof -
  obtain i j k where i: "mapBlockIndex a (hashSyncCheckpoint a) = Some i" "mapBlockIndex b (hashSyncCheckpoint b) = Some j"
    "i \<in> set (ancestors (fn_tree b) j)" "mapBlockIndex c (hashSyncCheckpoint c) = Some k" "j \<in> set (ancestors (fn_tree c) k)"
    using assms by (auto simp: evolves_def)
  have "j < length (fn_tree b)" using indexedD(2) [OF node_invD(1) [OF evolves_inv [OF assms(1)]] i(2)] by simp
  then have "i \<in> set (ancestors (fn_tree c) j)" using i(3) ancestors_grows [of "fn_tree b" "fn_tree c" j] assms(2) by (simp add: evolves_def)
  then show ?thesis using ancestors_trans i assms grows_trans unfolding evolves_def by blast
qed

lemma evolves_step:
  assumes "node_inv lib g s" and "node_inv lib g s'" and "grows (fn_tree s) (fn_tree s')" and "hashSyncCheckpoint s' = hashSyncCheckpoint s"
  shows "evolves lib g s s'"
proof -
  obtain i where i: "mapBlockIndex s (hashSyncCheckpoint s) = Some i" using node_invD(5) [OF assms(1)] by blast
  note d = indexedD(2) [OF node_invD(1) [OF assms(1)] i]
  have "i < length (fn_tree s')" "bi_hash (bi_at (fn_tree s') i) = hashSyncCheckpoint s'"
    using d assms(3,4) grows_field(1) [OF assms(3)] by (auto simp: grows_def)
  then have "mapBlockIndex s' (hashSyncCheckpoint s') = Some i" using indexedD(3) [OF node_invD(1) [OF assms(2)], of i] by simp
  then show ?thesis using i assms(2,3) by (auto simp: evolves_def)
qed

lemma node_inv_places:
  assumes "node_inv lib g s" and "same_places (fn_tree s) (fn_tree s')" and "mapBlockIndex s' = mapBlockIndex s"
    and "best_ok (fn_node s')" and "mapBlockIndex s (hashSyncCheckpoint s') \<noteq> None"
  shows "node_inv lib g s'"
proof -
  have "fn_tree s \<noteq> []" if "fn_tree s' \<noteq> []" using that assms(2) by (metis same_places_def length_0_conv)
  then show ?thesis
    using assms(3-5) indexed_places [OF node_invD(1) [OF assms(1)] assms(2,3)] trusted_places [OF node_invD(3) [OF assms(1)] assms(2)] node_invD(2) [OF assms(1)]
    by (auto simp: node_inv_def same_places_field [OF assms(2)])
qed

lemma evolves_places:
  assumes "node_inv lib g s" and "same_places (fn_tree s) (fn_tree s')" and "mapBlockIndex s' = mapBlockIndex s"
    and "best_ok (fn_node s')" and "checkpoint_moves s s'"
  shows "evolves lib g s s'"
proof (cases "hashSyncCheckpoint s' = hashSyncCheckpoint s")
  case True
  then show ?thesis using evolves_step [OF assms(1) node_inv_places [OF assms(1-4)] grows_places [OF assms(2)]] node_invD(5) [OF assms(1)] by simp
next
  case False
  then obtain i j where i: "mapBlockIndex s (hashSyncCheckpoint s) = Some i" "mapBlockIndex s (hashSyncCheckpoint s') = Some j"
    "i \<in> set (ancestors (fn_tree s) j)" using assms(5) by (auto simp: checkpoint_moves_def)
  then show ?thesis using node_inv_places [OF assms(1-4)] grows_places [OF assms(2)] ancestors_places [OF assms(2)] assms(3)
    unfolding evolves_def by auto
qed

definition same_core :: "full_node \<Rightarrow> full_node \<Rightarrow> bool" where
  "same_core s s' \<longleftrightarrow> fn_tree s' = fn_tree s \<and> mapBlockIndex s' = mapBlockIndex s \<and> hashSyncCheckpoint s' = hashSyncCheckpoint s \<and>
     pindexBest (fn_node s') = pindexBest (fn_node s) \<and> hashBestChain (fn_node s') = hashBestChain (fn_node s) \<and>
     bnBestChainTrust (fn_node s') = bnBestChainTrust (fn_node s)"

lemma same_core_refl [simp]: "same_core s s"
  by (simp add: same_core_def)

lemma same_core_best: "same_core s s' \<Longrightarrow> best_ok (fn_node s') = best_ok (fn_node s)"
  unfolding best_ok_def same_core_def by (simp cong: option.case_cong)

lemma same_core_inv:
  assumes "node_inv lib g s" and "same_core s s'"
  shows "node_inv lib g s'"
proof -
  have "indexed s' = indexed s" using assms(2) by (simp add: indexed_def same_core_def)
  then show ?thesis using assms same_core_best [OF assms(2)] unfolding node_inv_def same_core_def by simp
qed

lemma same_core_evolves:
  assumes "node_inv lib g s" and "same_core s s'"
  shows "evolves lib g s s'"
  using evolves_step [OF assms(1) same_core_inv [OF assms]] assms(2) by (simp add: same_core_def)

lemma evolves_refl: "node_inv lib g s \<Longrightarrow> evolves lib g s s"
  by (rule same_core_evolves) auto

lemma evolves_core: "evolves lib g s s' \<Longrightarrow> same_core s' s'' \<Longrightarrow> evolves lib g s s''"
  using evolves_trans same_core_evolves evolves_inv by blast

lemma best_ok_SetBestChain:
  assumes "SetBestChain lib env hash new b st = (r, st')" and "best_ok st" and "new < length (nd_tree st)"
    and "GetIDHash lib b = bi_hash (bi_at (nd_tree st) new)"
  shows "best_ok st'"
proof -
  note k = SetBestChain_keeps [OF assms(1)]
  have f: "bi_hash (bi_at (nd_tree st') i) = bi_hash (bi_at (nd_tree st) i)" "bi_bnChainTrust (bi_at (nd_tree st') i) = bi_bnChainTrust (bi_at (nd_tree st) i)"
    "length (nd_tree st') = length (nd_tree st)" for i
    using k same_places_field(1,5) by (auto simp: same_places_def)
  show ?thesis
  proof (cases "r = Done")
    case True
    then show ?thesis using k assms(3,4) f by (auto simp: best_ok_def)
  next
    case False
    then show ?thesis using k assms(2) f by (auto simp: best_ok_def keeps_def split: option.split_asm option.split)
  qed
qed

lemma into_main_chain_best:
  assumes "into_main_chain lib env i s = (r, f, s')" and "best_ok (fn_node s)" and "i < length (fn_tree s)"
  shows "best_ok (fn_node s')"
proof (cases "IsInMainChain s i \<or> ReadFromDisk_index lib env (fn_node s) i = None")
  case True
  then show ?thesis using assms(1,2) by (auto simp: into_main_chain_def split: if_split_asm)
next
  case False
  then obtain b where b: "ReadFromDisk_index lib env (fn_node s) i = Some b" "\<not> IsInMainChain s i" by auto
  then have h: "GetIDHash lib b = bi_hash (bi_at (fn_tree s) i)"
    by (auto simp: ReadFromDisk_index_def Let_def split: option.split_asm if_split_asm)
  obtain q st where st: "SetBestChain lib env (hashSyncCheckpoint s) i b (fn_node s) = (q, st)" by fastforce
  then have "fn_node s' = st" using assms(1) b by (auto simp: into_main_chain_def fn_SetBestChain_def)
  then show ?thesis using best_ok_SetBestChain [OF st assms(2,3) h] by simp
qed

lemma AcceptPendingSyncCheckpoint_best:
  assumes "AcceptPendingSyncCheckpoint lib env s = (r, s')" and "indexed s" and "best_ok (fn_node s)"
  shows "best_ok (fn_node s')"
proof (cases "hashPendingCheckpoint s \<noteq> 0 \<and> mapBlockIndex s (hashPendingCheckpoint s) \<noteq> None")
  case True
  then obtain i where i: "mapBlockIndex s (hashPendingCheckpoint s) = Some i" by auto
  obtain v s1 where v: "ValidateSyncCheckpoint (hashPendingCheckpoint s) s = (v, s1)" by fastforce
  show ?thesis
  proof (cases v)
    case v1: True
    then have s1: "s1 = s" using ValidateSyncCheckpoint_cases(2) [OF v] by simp
    obtain q f s2 where m: "into_main_chain lib env i s = (q, f, s2)" by (metis prod_cases3)
    have "fn_node s' = fn_node s2" using assms(1) True i v v1 m s1
      by (cases q) (auto simp: AcceptPendingSyncCheckpoint_def Let_def WriteSyncCheckpoint_def call_def split: if_split_asm)
    then show ?thesis using into_main_chain_best [OF m assms(3)] indexedD(2) [OF assms(2) i] by simp
  next
    case False
    have "fn_node s' = fn_node s1" using assms(1) True i v False by (auto simp: AcceptPendingSyncCheckpoint_def Let_def)
    moreover have "fn_node s1 = fn_node s" using v by (auto simp: ValidateSyncCheckpoint_def split: option.split_asm if_split_asm)
    ultimately show ?thesis using assms(3) by simp
  qed
qed (use assms in \<open>auto simp: AcceptPendingSyncCheckpoint_def Let_def split: if_split_asm\<close>)

lemma AcceptPendingSyncCheckpoint_evolves:
  assumes "AcceptPendingSyncCheckpoint lib env s = (r, s')" and "node_inv lib g s"
  shows "evolves lib g s s'"
  using evolves_places [OF assms(2)] AcceptPendingSyncCheckpoint_moves [OF node_invD(1) [OF assms(2)] assms(1)]
    AcceptPendingSyncCheckpoint_best [OF assms(1) node_invD(1,4) [OF assms(2)]] by (simp add: same_blocks_def)

lemma ProcessSyncCheckpoint_best:
  assumes "ProcessSyncCheckpoint lib env pfrom msg s = Some (r, s')" and "indexed s" and "best_ok (fn_node s)"
  shows "best_ok (fn_node s')"
proof -
  obtain q c where sig: "SyncCheckpoint_CheckSignature lib msg = (q, c)" by fastforce
  show ?thesis
  proof (cases "q = Done \<and> mapBlockIndex s (hashCheckpoint c) \<noteq> None")
    case True
    then obtain i where i: "mapBlockIndex s (hashCheckpoint c) = Some i" and q: "q = Done" by auto
    obtain v s1 where v: "ValidateSyncCheckpoint (hashCheckpoint c) s = (v, s1)" by fastforce
    show ?thesis
    proof (cases v)
      case v1: True
      then have s1: "s1 = s" using ValidateSyncCheckpoint_cases(2) [OF v] by simp
      obtain x f s2 where m: "into_main_chain lib env i s = (x, f, s2)" by (metis prod_cases3)
      have "fn_node s' = fn_node s2" using assms(1) sig q i v v1 m s1
        by (cases x) (auto simp: ProcessSyncCheckpoint_def Let_def WriteSyncCheckpoint_def split: if_split_asm)
      then show ?thesis using into_main_chain_best [OF m assms(3)] indexedD(2) [OF assms(2) i] by simp
    next
      case False
      have "fn_node s' = fn_node s1" using assms(1) sig q i v False by (auto simp: ProcessSyncCheckpoint_def Let_def)
      moreover have "fn_node s1 = fn_node s" using v by (auto simp: ValidateSyncCheckpoint_def split: option.split_asm if_split_asm)
      ultimately show ?thesis using assms(3) by simp
    qed
  next
    case False
    then have "fn_node s' = fn_node s" using assms(1) sig
      by (cases q) (auto simp: ProcessSyncCheckpoint_def Let_def call_def split: option.split_asm)
    then show ?thesis using assms(3) by simp
  qed
qed

lemma ProcessSyncCheckpoint_evolves:
  assumes "ProcessSyncCheckpoint lib env pfrom msg s = Some (r, s')" and "node_inv lib g s"
  shows "evolves lib g s s'"
  using evolves_places [OF assms(2)] ProcessSyncCheckpoint_moves [OF node_invD(1) [OF assms(2)] assms(1)]
    ProcessSyncCheckpoint_best [OF assms(1) node_invD(1,4) [OF assms(2)]] by (simp add: same_blocks_def)

lemma AddToBlockIndex_evolves:
  assumes "AddToBlockIndex lib env nFile nBlockPos b s = (r, s')" and "node_inv lib (env_hashGenesisBlock env) s"
  shows "evolves lib (env_hashGenesisBlock env) s s'"
  using assms(1)
proof (cases rule: AddToBlockIndex_cases)
  case refused
  then show ?thesis using assms(2) evolves_refl by simp
next
  case (filed p)
  have "node_inv lib (env_hashGenesisBlock env) s'" using file_block_index_inv [OF assms(2) filed(1,2)] filed(3) by simp
  then show ?thesis by (rule evolves_step [OF assms(2)]) (simp_all add: filed(3) file_block_index_fields grows_append)
next
  case (best p st)
  let ?s = "file_block_index lib b p s"
  have inv: "node_inv lib (env_hashGenesisBlock env) ?s" using file_block_index_inv [OF assms(2) best(1,2)] .
  have ev: "evolves lib (env_hashGenesisBlock env) s ?s" by (rule evolves_step [OF assms(2) inv]) (simp_all add: file_block_index_fields grows_append)
  have h: "length (fn_tree s) < length (fn_tree ?s)" "GetIDHash lib b = bi_hash (bi_at (fn_tree ?s) (length (fn_tree s)))"
    using new_block_index_Inr(1) [OF best(2)] by (simp_all add: file_block_index_fields)
  note k = SetBestChain_keeps [OF best(5)]
  have "evolves lib (env_hashGenesisBlock env) ?s s'"
  proof (rule evolves_places [OF inv])
    show "same_places (fn_tree ?s) (fn_tree s')" "mapBlockIndex s' = mapBlockIndex ?s" using k best(4) by simp_all
    show "best_ok (fn_node s')" using best_ok_SetBestChain [OF best(5) node_invD(4) [OF inv] h] best(4) by simp
    show "checkpoint_moves ?s s'" using best(4) by (simp add: checkpoint_moves_def)
  qed
  then show ?thesis using ev evolves_trans by blast
qed

lemma AcceptBlock_evolves:
  assumes "AcceptBlock lib env b s = (r, s')" and "node_inv lib (env_hashGenesisBlock env) s"
  shows "evolves lib (env_hashGenesisBlock env) s s'"
  using assms(1)
proof (cases rule: AcceptBlock_cases)
  case refused
  then show ?thesis using assms(2) evolves_refl by simp
next
  case (stored nFile nBlockPos files q s1)
  have "same_core s (s\<lparr> fn_node := (fn_node s)\<lparr> nd_files := files \<rparr>, nCurrentBlockFile := nFile \<rparr>)" by (simp add: same_core_def)
  note c = same_core_evolves [OF assms(2) this]
  show ?thesis using evolves_trans [OF c AddToBlockIndex_evolves [OF stored(3) evolves_inv [OF c]]] stored(5) by simp
next
  case (added nFile nBlockPos files s1 cs q)
  have "same_core s (s\<lparr> fn_node := (fn_node s)\<lparr> nd_files := files \<rparr>, nCurrentBlockFile := nFile \<rparr>)" by (simp add: same_core_def)
  note c = same_core_evolves [OF assms(2) this]
  have e: "evolves lib (env_hashGenesisBlock env) s s1" by (rule evolves_trans [OF c AddToBlockIndex_evolves [OF added(3) evolves_inv [OF c]]])
  have "same_core s1 (call cs s1)" by (simp add: same_core_def call_def)
  then have e2: "evolves lib (env_hashGenesisBlock env) s (call cs s1)" by (rule evolves_core [OF e])
  show ?thesis by (rule evolves_trans [OF e2 AcceptPendingSyncCheckpoint_evolves [OF added(4) evolves_inv [OF e2]]])
qed

section \<open>Processing a block moves the node on\<close>

lemma orphans_of_evolves:
  assumes "orphans_of lib env bs q s = (ok, q', s')" and "node_inv lib (env_hashGenesisBlock env) s"
  shows "evolves lib (env_hashGenesisBlock env) s s'"
  using assms
proof (induction bs arbitrary: q s)
  case (Cons b bs)
  obtain r s1 where a: "AcceptBlock lib env b s = (r, s1)" by fastforce
  note e = AcceptBlock_evolves [OF a Cons.prems(2)]
  let ?s = "s1\<lparr> mapOrphanBlocks := (mapOrphanBlocks s1)(GetIDHash lib b := None), setStakeSeenOrphan := setStakeSeenOrphan s1 - {GetProofOfStake b} \<rparr>"
  have e1: "evolves lib (env_hashGenesisBlock env) s ?s" by (rule evolves_core [OF e]) (simp add: same_core_def)
  show ?case
  proof (cases "r = BThrew")
    case False
    then have "orphans_of lib env bs (if r = BAccepted then q @ [GetIDHash lib b] else q) ?s = (ok, q', s')"
      using Cons.prems a by (cases r) auto
    from Cons.IH [OF this evolves_inv [OF e1]] show ?thesis using evolves_trans e1 by blast
  qed (use Cons.prems a e in auto)
qed (use evolves_refl in simp)

lemma work_queue_evolves:
  assumes "work_queue lib env q s = (ok, s')" and "node_inv lib (env_hashGenesisBlock env) s"
  shows "evolves lib (env_hashGenesisBlock env) s s'"
  using assms
proof (induction lib env q s arbitrary: s' rule: work_queue.induct)
  case (2 lib env h q s)
  obtain ok' q' s1 where o: "orphans_of lib env (map snd (filter (\<lambda>e. fst e = h) (mapOrphanBlocksByPrev s))) q s = (ok', q', s1)"
    by (metis prod_cases3)
  note e = orphans_of_evolves [OF o "2.prems"(2)]
  let ?s = "s1\<lparr> mapOrphanBlocksByPrev := filter (\<lambda>e. fst e \<noteq> h) (mapOrphanBlocksByPrev s1) \<rparr>"
  have e1: "evolves lib (env_hashGenesisBlock env) s ?s" by (rule evolves_core [OF e]) (simp add: same_core_def)
  show ?case
  proof (cases ok')
    case True
    then have "evolves lib (env_hashGenesisBlock env) ?s s'" using "2.IH" [OF o [symmetric] _ refl] True "2.prems"(1) o evolves_inv [OF e1] by simp
    then show ?thesis using evolves_trans e1 by blast
  qed (use "2.prems" o e in simp)
qed (use evolves_refl in simp)

lemma fn_CheckBlock_core: "fn_CheckBlock lib env f b s = (r, s') \<Longrightarrow> same_core s s' \<and> same_orphans s s'"
proof (cases "CheckBlock lib (block_env.truncate env) False b")
  case Accepted
  obtain pow hashes where "CBlock_GetPoWHash lib (acc_pow env) b (fn_hashes s) = (pow, hashes)" by fastforce
  moreover assume "fn_CheckBlock lib env f b s = (r, s')"
  ultimately have "s' = s \<or> s' = s\<lparr> fn_hashes := hashes \<rparr>" using Accepted unfolding fn_CheckBlock_def by (simp split: if_split_asm)
  then show ?thesis by (auto simp: same_core_def same_orphans_def)
qed (simp add: fn_CheckBlock_def)

lemma fn_CheckProofOfStake_core: "fn_CheckProofOfStake lib env b s = (r, s') \<Longrightarrow> same_core s s' \<and> same_orphans s s'"
  by (auto simp: fn_CheckProofOfStake_def same_core_def same_orphans_def Let_def split: prod.split_asm stake_result.split_asm)

lemma AskForPendingSyncCheckpoint_core: "same_core s (AskForPendingSyncCheckpoint pfrom s) \<and> same_orphans s (AskForPendingSyncCheckpoint pfrom s)"
  by (auto simp: AskForPendingSyncCheckpoint_def same_core_def same_orphans_def call_def split: option.split)

lemma ask_for_orphans_call:
  assumes "ask_for_orphans lib env p b s = Some s'"
  obtains cs where "s' = call cs s"
  using assms by (auto simp: ask_for_orphans_def Let_def bind_eq_Some_conv call_def split: if_split_asm)

lemma hold_orphan_cases:
  assumes "hold_orphan lib env pfrom b s = Some (r, s')"
  obtains (duplicate) "duplicate_stake (setStakeSeenOrphan s) (GetIDHash lib b) b s = Some True" and "r = BRefused 0" and "s' = s"
    | (held) cs where "duplicate_stake (setStakeSeenOrphan s) (GetIDHash lib b) b s = Some False" and "r = BAccepted"
        and "s' = call cs (keep_orphan (GetIDHash lib b) b s)"
proof -
  obtain d where d: "duplicate_stake (setStakeSeenOrphan s) (GetIDHash lib b) b s = Some d"
    using assms by (auto simp: hold_orphan_def Let_def split: option.split_asm)
  show thesis
  proof (cases d)
    case True
    then have "r = BRefused 0 \<and> s' = s" using assms d by (auto simp: hold_orphan_def)
    then show thesis using duplicate d True by simp
  next
    case False
    let ?s = "keep_orphan (GetIDHash lib b) b s"
    obtain s1 where s1: "(case pfrom of None \<Rightarrow> Some ?s | Some p \<Rightarrow> ask_for_orphans lib env p b ?s) = Some s1" "r = BAccepted" "s' = s1"
      using assms d False by (auto simp: hold_orphan_def Let_def)
    have "\<exists>cs. s1 = call cs ?s"
    proof (cases pfrom)
      case None
      then have "s1 = call [] ?s" using s1(1) by (simp add: call_def)
      then show ?thesis ..
    next
      case (Some p)
      then show ?thesis using s1(1) ask_for_orphans_call [of lib env p b ?s s1] by auto
    qed
    then have "r = BAccepted \<and> (\<exists>cs. s' = call cs ?s)" using s1 by simp
    then show thesis using held d False by auto
  qed
qed

lemma hold_orphan_core: "hold_orphan lib env pfrom b s = Some (r, s') \<Longrightarrow> same_core s s'"
  by (erule hold_orphan_cases) (simp_all add: same_core_def call_def keep_orphan_def)

lemma SendSyncCheckpoint_evolves:
  assumes "SendSyncCheckpoint lib env sign k h s = Some (r, s')" and "node_inv lib g s"
  shows "evolves lib g s s'"
proof (cases "k = [] \<or> sign_checkpoint lib sign k h = None")
  case True
  then have "s' = s" using assms(1) by (auto simp: SendSyncCheckpoint_def split: if_split_asm)
  then show ?thesis using assms(2) evolves_refl by simp
next
  case False
  then obtain c q s1 where c: "ProcessSyncCheckpoint lib env None c s = Some (q, s1)" "s' = (if q = Done then call [RelayCheckpoint c] s1 else s1)"
    using assms(1) by (auto simp: SendSyncCheckpoint_def)
  note e = ProcessSyncCheckpoint_evolves [OF c(1) assms(2)]
  show ?thesis by (rule evolves_core [OF e]) (simp add: c(2) same_core_def call_def)
qed

lemma checkpoint_duty_evolves:
  assumes "checkpoint_duty lib env pfrom s = Some (r, s')" and "node_inv lib (env_hashGenesisBlock env) s"
  shows "evolves lib (env_hashGenesisBlock env) s s'"
  using assms SendSyncCheckpoint_evolves evolves_refl unfolding checkpoint_duty_def by (simp split: if_split_asm option.split_asm) blast+

lemma signed_hash_duty_core: "signed_hash_duty lib env b s = (r, s') \<Longrightarrow> same_core s s' \<and> same_orphans s s'"
  by (auto simp: signed_hash_duty_def same_core_def same_orphans_def call_def split: if_split_asm prod.split_asm)

lemma master_duties_evolves:
  assumes "master_duties lib env pfrom b s = Some (r, s')" and "node_inv lib (env_hashGenesisBlock env) s"
  shows "evolves lib (env_hashGenesisBlock env) s s'"
proof -
  obtain q s1 where q: "checkpoint_duty lib env pfrom s = Some (q, s1)"
    using assms(1) by (auto simp: master_duties_def split: option.split_asm)
  note e = checkpoint_duty_evolves [OF q assms(2)]
  show ?thesis
  proof (cases "q = Threw")
    case False
    obtain x s2 where x: "signed_hash_duty lib env b s1 = (x, s2)" by fastforce
    have "s' = s2" using assms(1) q False x by (cases q) (auto simp: master_duties_def)
    then show ?thesis using evolves_core [OF e] signed_hash_duty_core [OF x] by simp
  qed (use assms(1) q e in \<open>simp add: master_duties_def\<close>)
qed

lemma take_block_evolves:
  assumes "take_block lib env pfrom b s = Some (r, s')" and "node_inv lib (env_hashGenesisBlock env) s"
  shows "evolves lib (env_hashGenesisBlock env) s s'"
proof -
  obtain q s1 where a: "AcceptBlock lib env b s = (q, s1)" by fastforce
  note e1 = AcceptBlock_evolves [OF a assms(2)]
  show ?thesis
  proof (cases "q = BAccepted")
    case True
    obtain ok s2 where w: "work_queue lib env [GetIDHash lib b] s1 = (ok, s2)" by fastforce
    note e2 = evolves_trans [OF e1 work_queue_evolves [OF w evolves_inv [OF e1]]]
    show ?thesis
    proof (cases ok)
      case ok: True
      have "master_duties lib env pfrom b s2 = Some (r, s')" using assms(1) a True w ok by (simp add: take_block_def)
      then show ?thesis using evolves_trans [OF e2 master_duties_evolves] evolves_inv [OF e2] by blast
    qed (use assms(1) a True w e2 in \<open>simp add: take_block_def\<close>)
  next
    case False
    then show ?thesis using assms(1) a e1 by (cases q) (auto simp: take_block_def)
  qed
qed

lemma ProcessBlock_cases:
  assumes "ProcessBlock lib env pfrom b s = Some (r, s')"
  obtains (refused) "same_core s s'" and "r \<noteq> BAccepted" and "mapOrphanBlocks s' = mapOrphanBlocks s" and "mapOrphanBlocksByPrev s' = mapOrphanBlocksByPrev s"
    | (orphan) s1 where "same_core s s1" and "same_orphans s s1" and "mapBlockIndex s (blk_hashPrevBlock b) = None" and "hold_orphan lib env pfrom b s1 = Some (r, s')"
    | (taken) s1 where "same_core s s1" and "same_orphans s s1" and "mapBlockIndex s (blk_hashPrevBlock b) \<noteq> None" and "take_block lib env pfrom b s1 = Some (r, s')"
proof -
  have stays: thesis if "same_core s s'" "same_orphans s s'" "r \<noteq> BAccepted" using that refused by (simp add: same_orphans_def)
  have trans: "same_core a c" if "same_core a b" "same_core b c" for a b c using that by (simp add: same_core_def)
  define d where "d = duplicate_stake (setStakeSeen s) (GetIDHash lib b) b s"
  obtain r1 s1 where c1: "fn_CheckBlock lib env False b s = (r1, s1)" by fastforce
  obtain r2 s2 where c2: "(if IsProofOfStake b then fn_CheckProofOfStake lib env b s1 else (BAccepted, s1)) = (r2, s2)" by fastforce
  define s3 where "s3 = (if acc_IsInitialBlockDownload env s2 then s2 else AskForPendingSyncCheckpoint pfrom s2)"
  obtain r4 s4 where c4: "fn_CheckBlock lib env True b s3 = (r4, s4)" by fastforce
  have e1: "same_core s s1 \<and> same_orphans s s1" using fn_CheckBlock_core [OF c1] .
  have "same_core s1 s2 \<and> same_orphans s1 s2" using c2 fn_CheckProofOfStake_core [of lib env b s1 r2 s2] by (auto split: if_split_asm)
  then have e2: "same_core s s2 \<and> same_orphans s s2" using e1 trans same_orphans_trans by blast
  have "same_core s2 s3 \<and> same_orphans s2 s3" using AskForPendingSyncCheckpoint_core by (simp add: s3_def)
  then have e4: "same_core s s4 \<and> same_orphans s s4" using e2 fn_CheckBlock_core [OF c4] trans same_orphans_trans by blast
  have m4: "mapBlockIndex s4 = mapBlockIndex s" using e4 by (simp add: same_core_def)
  note P = assms [unfolded ProcessBlock_def Let_def, folded d_def]
  consider "mapBlockIndex s (GetIDHash lib b) \<noteq> None \<or> mapOrphanBlocks s (GetIDHash lib b) \<noteq> None"
    | "mapBlockIndex s (GetIDHash lib b) = None" "mapOrphanBlocks s (GetIDHash lib b) = None" by blast
  then show thesis
  proof cases
    case 1
    then show thesis using P stays by (cases "mapBlockIndex s (GetIDHash lib b) = None") auto
  next
    case 2
    then consider "d = Some True" | "d = Some False" "r1 \<noteq> Accepted" | "d = Some False" "r1 = Accepted" "r2 \<noteq> BAccepted"
      | "d = Some False" "r1 = Accepted" "r2 = BAccepted" "r4 \<noteq> Accepted" | "d = Some False" "r1 = Accepted" "r2 = BAccepted" "r4 = Accepted"
      using P by (cases d) auto
    then show thesis
    proof cases
      case 1
      then have "s' = s \<and> r \<noteq> BAccepted" using P 2 by auto
      then show thesis using stays by simp
    next
      case d: 2
      then have "s' = s1 \<and> r \<noteq> BAccepted" using P 2 c1 by (cases r1) auto
      then show thesis using stays e1 by simp
    next
      case d: 3
      then have "s' = s2 \<and> r \<noteq> BAccepted" using P 2 c1 c2 by (cases r2) auto
      then show thesis using stays e2 by simp
    next
      case d: 4
      then have "s' = s4 \<and> r \<noteq> BAccepted" using P 2 c1 c2 c4 by (cases r4) (auto simp: s3_def [symmetric])
      then show thesis using stays e4 by simp
    next
      case d: 5
      then have "(if mapBlockIndex s4 (blk_hashPrevBlock b) = None then hold_orphan lib env pfrom b s4 else take_block lib env pfrom b s4) = Some (r, s')"
        using P 2 c1 c2 c4 by (simp add: s3_def [symmetric])
      then show thesis using orphan taken e4 m4 by (auto split: if_split_asm)
    qed
  qed
qed

lemma ProcessBlock_evolves:
  assumes "ProcessBlock lib env pfrom b s = Some (r, s')" and "node_inv lib (env_hashGenesisBlock env) s"
  shows "evolves lib (env_hashGenesisBlock env) s s'"
  using assms(1)
proof (cases rule: ProcessBlock_cases)
  case refused
  then show ?thesis using assms(2) same_core_evolves by blast
next
  case (orphan s1)
  show ?thesis by (rule evolves_core [OF same_core_evolves [OF assms(2) orphan(1)] hold_orphan_core [OF orphan(4)]])
next
  case (taken s1)
  note e = same_core_evolves [OF assms(2) taken(1)]
  show ?thesis by (rule evolves_trans [OF e take_block_evolves [OF taken(4) evolves_inv [OF e]]])
qed

section \<open>Runs of the node\<close>

text \<open>
  What other nodes make the node do: a block or a checkpoint message is processed. The clock, the free disk and the
  download state change between the steps; the genesis block is the same.
\<close>

inductive node_step :: "'a openssl_scheme \<Rightarrow> uint256 \<Rightarrow> full_node \<Rightarrow> full_node \<Rightarrow> bool" for lib g where
  block: "env_hashGenesisBlock env = g \<Longrightarrow> ProcessBlock lib env pfrom b s = Some (r, s') \<Longrightarrow> node_step lib g s s'"
| checkpoint: "ProcessSyncCheckpoint lib env pfrom msg s = Some (r, s') \<Longrightarrow> node_step lib g s s'"

lemma node_step_evolves: "node_step lib g s s' \<Longrightarrow> node_inv lib g s \<Longrightarrow> evolves lib g s s'"
  by (induction rule: node_step.induct) (auto intro: ProcessBlock_evolves ProcessSyncCheckpoint_evolves)

text \<open>
  C10. The tree of blocks is kept over every run of a node. Whatever blocks and checkpoint messages are processed in whatever order, orphans
  included: the map and the tree agree, heights and chain trust add up from the genesis block, the best block is the one whose hash and trust are recorded; no
  block leaves the tree or changes its place, hash, height or trust; and the synchronized checkpoint at the end descends
  from the one at the start.
\<close>

theorem node_run_keeps_tree:
  assumes "node_inv lib g s" and "(node_step lib g)\<^sup>*\<^sup>* s s'"
  shows "node_inv lib g s' \<and> grows (fn_tree s) (fn_tree s') \<and>
    (\<exists>i j. mapBlockIndex s (hashSyncCheckpoint s) = Some i \<and> mapBlockIndex s' (hashSyncCheckpoint s') = Some j \<and>
       i \<in> set (ancestors (fn_tree s') j))"
proof -
  have "evolves lib g s s'" using assms(2)
    by (induction rule: rtranclp_induct) (use assms(1) evolves_refl evolves_trans node_step_evolves evolves_inv in blast)+
  then show ?thesis by (simp add: evolves_def)
qed

text \<open>A run that moves the checkpoint to the second of two blocks; their targets are zero and so is their trust.\<close>

definition run_root :: CBlockIndex where
  "run_root = demo_root\<lparr> bi_nBits := 0, bi_bnChainTrust := 0 \<rparr>"

definition run_tree :: block_tree where
  "run_tree = [\<lparr> nd_bi = run_root, nd_pprev = None, nd_pnext = Some 1 \<rparr>,
     \<lparr> nd_bi = run_root\<lparr> bi_hash := 40, bi_nHeight := 1 \<rparr>, nd_pprev = Some 0, nd_pnext = None \<rparr>]"

definition run_node :: full_node where
  "run_node = two_node\<lparr> fn_node := (demo_node Map.empty Map.empty run_tree 1)\<lparr> hashBestChain := 40 \<rparr> \<rparr>"

lemma run_shape:
  "pprev run_tree 0 = None" "pprev run_tree (Suc 0) = Some 0" "bi_at run_tree 0 = run_root"
  "bi_at run_tree (Suc 0) = run_root\<lparr> bi_hash := 40, bi_nHeight := 1 \<rparr>" "length run_tree = 2" "fn_tree run_node = run_tree"
  "mapBlockIndex run_node = [32 \<mapsto> 0, 40 \<mapsto> 1]" "hashSyncCheckpoint run_node = 32" "bi_hash run_root = 32" "bi_nHeight run_root = 0"
  by (simp_all add: run_tree_def run_root_def pprev_def bi_at_def run_node_def two_node_def demo_node_def demo_root_def)

lemma run_indexed: "indexed run_node"
  unfolding indexed_def
proof (intro conjI allI)
  show "tree_ok (fn_tree run_node)"
    by (simp add: tree_ok_def node_ok_def run_shape upt_rec)
  show "mapBlockIndex run_node h = Some i \<longleftrightarrow> i < length (fn_tree run_node) \<and> bi_hash (bi_at (fn_tree run_node) i) = h" for h i
    unfolding run_shape by (cases "i = 0"; cases "i = Suc 0") (auto simp: run_shape)
qed

lemma run_inv: "node_inv demo_lib 32 run_node"
proof -
  have "BN_mpi2bn demo_lib ((replicate 4 0)[3 := 0]) = 0" by (simp add: demo_lib_def)
  then have "bi_GetBlockTrust demo_lib run_root = 0" "bi_GetBlockTrust demo_lib (run_root\<lparr> bi_hash := 40, bi_nHeight := 1 \<rparr>) = 0" "bi_bnChainTrust run_root = 0"
    by (simp_all add: bi_GetBlockTrust_def run_root_def Let_def SetCompact_def)
  then show ?thesis
    unfolding node_inv_def using run_indexed
    by (simp add: run_shape trusted_def upt_rec best_ok_def) (simp add: run_node_def demo_node_def run_shape)
qed

theorem node_run_keeps_tree_witness:
  "\<exists>s'. (node_step demo_lib 32)\<^sup>*\<^sup>* run_node s' \<and> hashSyncCheckpoint s' = 40 \<and> node_inv demo_lib 32 s' \<and> mapBlockIndex s' 40 = Some 1"
proof -
  note demo_checkpoint_signed
  moreover have "ValidateSyncCheckpoint 40 run_node = (True, run_node)"
  proof -
    have "0 \<in> set (ancestors run_tree 1)" by (simp add: ancestors_step run_shape ancestors_root)
    then have "fst (ValidateSyncCheckpoint 40 run_node)"
      unfolding ValidateSyncCheckpoint_iff [OF run_indexed] run_shape by simp
    then show ?thesis using ValidateSyncCheckpoint_cases(2) by (metis prod.collapse)
  qed
  moreover have "into_main_chain demo_lib demo_connect_env 1 run_node = (Done, False, run_node)"
    by (simp add: into_main_chain_def IsInMainChain_def) (simp add: run_node_def demo_node_def)
  moreover have "mapBlockIndex run_node 40 = Some 1" by (simp add: run_shape)
  ultimately obtain s' where p: "ProcessSyncCheckpoint demo_lib demo_connect_env None demo_checkpoint run_node = Some (Done, s')"
    and h: "hashSyncCheckpoint s' = 40" "mapBlockIndex s' = mapBlockIndex run_node"
    by (auto simp: ProcessSyncCheckpoint_def WriteSyncCheckpoint_def)
  have r: "(node_step demo_lib 32)\<^sup>*\<^sup>* run_node s'" using node_step.checkpoint [OF p] by blast
  show ?thesis using node_run_keeps_tree [OF run_inv r] r h by (auto simp: run_shape)
qed

section \<open>What accepting a block promises\<close>

lemma AddToBlockIndex_added:
  assumes "node_inv lib (env_hashGenesisBlock env) s" and "AddToBlockIndex lib env nFile nBlockPos b s = (r, s')"
  defines "prev \<equiv> mapBlockIndex s (blk_hashPrevBlock b)" and "i \<equiv> length (fn_tree s)" and "old \<equiv> bnBestChainTrust (fn_node s)"
  shows "(r = Done \<longrightarrow> mapBlockIndex s (GetIDHash lib b) = None \<and> mapBlockIndex s' (GetIDHash lib b) = Some i \<and> pprev (fn_tree s') i = prev \<and>
      height_at s' i = (case prev of None \<Rightarrow> 0 | Some j \<Rightarrow> height_at s j + 1) \<and>
      bi_bnChainTrust (bi_at (fn_tree s') i) =
        (case prev of None \<Rightarrow> 0 | Some j \<Rightarrow> bi_bnChainTrust (bi_at (fn_tree s) j)) + bi_GetBlockTrust lib (bi_at (fn_tree s') i) \<and>
      bnBestChainTrust (fn_node s') = max old (bi_bnChainTrust (bi_at (fn_tree s') i)) \<and>
      pindexBest (fn_node s') = (if bi_bnChainTrust (bi_at (fn_tree s') i) > old then Some i else pindexBest (fn_node s))) \<and>
    (r \<noteq> Done \<longrightarrow> pindexBest (fn_node s') = pindexBest (fn_node s) \<and> hashBestChain (fn_node s') = hashBestChain (fn_node s) \<and>
      bnBestChainTrust (fn_node s') = old)"
  using assms(2)
proof (cases rule: AddToBlockIndex_cases)
  case (filed p)
  have "prev = Some j \<Longrightarrow> j < i" for j using indexedD(2) [OF node_invD(1) [OF assms(1)]] by (simp add: prev_def i_def)
  then have "pprev (fn_tree s') i = prev" by (auto simp: filed(3) file_block_index_fields i_def pprev_new prev_def split: option.split)
  then show ?thesis using filed new_block_index_Inr [OF filed(2)]
    by (simp add: file_block_index_fields i_def prev_def old_def)
next
  case (best p st)
  let ?s = "file_block_index lib b p s"
  note k = SetBestChain_keeps [OF best(5)] and n = new_block_index_Inr [OF best(2)]
  have sp: "same_places (fn_tree ?s) (fn_tree s')" using k best(4) by simp
  have "prev = Some j \<Longrightarrow> j < i" for j using indexedD(2) [OF node_invD(1) [OF assms(1)]] by (simp add: prev_def i_def)
  then have "pprev (fn_tree ?s) i = prev" by (auto simp: file_block_index_fields i_def pprev_new prev_def split: option.split)
  then have p: "pprev (fn_tree s') i = prev" using sp by (simp add: same_places_def)
  have at: "bi_at (fn_tree ?s) i = p" by (simp add: file_block_index_fields i_def)
  have f: "height_at s' i = bi_nHeight p" "bi_bnChainTrust (bi_at (fn_tree s') i) = bi_bnChainTrust p" "bi_GetBlockTrust lib (bi_at (fn_tree s') i) = bi_GetBlockTrust lib p"
    using grows_field(2-4) [OF grows_places [OF sp], of i] at by (simp_all add: file_block_index_fields i_def)
  have old: "old < bi_bnChainTrust p" using best(3) by (simp add: old_def)
  show ?thesis
  proof (cases "r = Done")
    case True
    have b: "pindexBest (fn_node s') = Some i" "bnBestChainTrust (fn_node s') = bi_bnChainTrust p" using k True best(4) at by (simp_all add: i_def)
    have "mapBlockIndex s' (GetIDHash lib b) = Some i" using best(4) n(1) by (simp add: file_block_index_fields i_def)
    then show ?thesis using True p b old n best(1) unfolding f by (simp add: prev_def)
  next
    case False
    then show ?thesis using k best(4) by (simp add: keeps_def file_block_index_fields old_def)
  qed
qed (simp add: old_def)


lemma accept_checks_sound:
  assumes "accept_checks lib env b s = BAccepted"
  obtains j where "mapBlockIndex s (GetIDHash lib b) = None" and "mapBlockIndex s (blk_hashPrevBlock b) = Some j"
    and "GetNextTargetRequired lib (env_fTestNet env) (chain_at (fn_tree s) j) (IsProofOfStake b) = Some (blk_nBits b)"
    and "GetMedianTimePast (chain_at (fn_tree s) j) < GetBlockTime b"
    and "bi_GetBlockTime (bi_at (fn_tree s) j) \<le> GetBlockTime b + nMaxClockDrift"
    and "list_all (CTransaction_IsFinal (nBestHeight (fn_node s)) (env_GetAdjustedTime env) (height_at s j + 1) (GetBlockTime b)) (vtx b)"
    and "CheckHardened (cenv env) (height_at s j + 1) (GetIDHash lib b)"
    and "CheckSync (cenv env) s (GetIDHash lib b) j = Some True"
proof -
  obtain j where j: "mapBlockIndex s (GetIDHash lib b) = None" "mapBlockIndex s (blk_hashPrevBlock b) = Some j"
    using assms by (auto simp: accept_checks_def Let_def split: option.split_asm if_split_asm)
  have hd: "hd (chain_at (fn_tree s) j) = bi_at (fn_tree s) j" by (subst chain_at.simps) simp
  obtain n where n: "GetNextTargetRequired lib (env_fTestNet env) (chain_at (fn_tree s) j) (IsProofOfStake b) = Some n"
    using assms j by (auto simp: accept_checks_def Let_def split: option.split_asm)
  obtain y where y: "CheckSync (cenv env) s (GetIDHash lib b) j = Some y"
    using assms j n by (auto simp: accept_checks_def Let_def split: option.split_asm if_split_asm)
  have "blk_nBits b = n \<and> \<not> (GetBlockTime b \<le> GetMedianTimePast (chain_at (fn_tree s) j) \<or> GetBlockTime b + nMaxClockDrift < bi_GetBlockTime (bi_at (fn_tree s) j)) \<and>
      \<not> list_ex (\<lambda>tx. \<not> CTransaction_IsFinal (nBestHeight (fn_node s)) (env_GetAdjustedTime env) (height_at s j + 1) (GetBlockTime b) tx) (vtx b) \<and>
      CheckHardened (cenv env) (height_at s j + 1) (GetIDHash lib b) \<and> y"
    using assms j n y by (auto simp: accept_checks_def Let_def hd split: if_split_asm bool.split_asm)
  then show thesis using that j n y by (auto simp: list_ex_iff list_all_iff)
qed

lemma AcceptBlock_placed:
  assumes "node_inv lib (env_hashGenesisBlock env) s" and "AcceptBlock lib env b s = (BAccepted, s')"
  shows "accept_checks lib env b s = BAccepted" and "mapBlockIndex s' (GetIDHash lib b) = Some (length (fn_tree s))"
    and "pprev (fn_tree s') (length (fn_tree s)) = mapBlockIndex s (blk_hashPrevBlock b)"
proof -
  obtain nFile nBlockPos files s1 cs q where a: "accept_checks lib env b s = BAccepted"
    "AddToBlockIndex lib env nFile nBlockPos b (s\<lparr> fn_node := (fn_node s)\<lparr> nd_files := files \<rparr>, nCurrentBlockFile := nFile \<rparr>) = (Done, s1)"
    "AcceptPendingSyncCheckpoint lib (cenv env) (call cs s1) = (q, s')"
    using assms(2) by (auto elim!: AcceptBlock_cases split: if_split_asm)
  have "same_core s (s\<lparr> fn_node := (fn_node s)\<lparr> nd_files := files \<rparr>, nCurrentBlockFile := nFile \<rparr>)" by (simp add: same_core_def)
  note p = AddToBlockIndex_added [OF same_core_inv [OF assms(1) this] a(2)] and k = AcceptPendingSyncCheckpoint_blocks [OF a(3)]
  show "accept_checks lib env b s = BAccepted" by (rule a(1))
  show "mapBlockIndex s' (GetIDHash lib b) = Some (length (fn_tree s))" "pprev (fn_tree s') (length (fn_tree s)) = mapBlockIndex s (blk_hashPrevBlock b)"
    using p k by (simp_all add: same_blocks_def same_places_def call_def)
qed

text \<open>
  C11. What is accepted follows the rules of the chain. When \<^verbatim>\<open>AcceptBlock\<close> accepts a block, the block was new and its predecessor is in the tree; it has the target the chain
  requires; its time is past the median of the blocks before it and not too far behind its predecessor; its transactions are final; it agrees with the hardened
  checkpoints; on the main network it descends from the synchronized checkpoint; and it is in the tree afterwards, below its predecessor.
\<close>

theorem AcceptBlock_sound:
  assumes "node_inv lib (env_hashGenesisBlock env) s" and "AcceptBlock lib env b s = (BAccepted, s')"
  shows "\<exists>j i. mapBlockIndex s (GetIDHash lib b) = None \<and> mapBlockIndex s (blk_hashPrevBlock b) = Some j \<and>
    GetNextTargetRequired lib (env_fTestNet env) (chain_at (fn_tree s) j) (IsProofOfStake b) = Some (blk_nBits b) \<and>
    GetMedianTimePast (chain_at (fn_tree s) j) < GetBlockTime b \<and> bi_GetBlockTime (bi_at (fn_tree s) j) \<le> GetBlockTime b + nMaxClockDrift \<and>
    list_all (CTransaction_IsFinal (nBestHeight (fn_node s)) (env_GetAdjustedTime env) (height_at s j + 1) (GetBlockTime b)) (vtx b) \<and>
    CheckHardened (cenv env) (height_at s j + 1) (GetIDHash lib b) \<and>
    (\<not> env_fTestNet env \<longrightarrow> (\<exists>k\<in>set (ancestors (fn_tree s) j). mapBlockIndex s (hashSyncCheckpoint s) = Some k)) \<and>
    mapBlockIndex s' (GetIDHash lib b) = Some i \<and> pprev (fn_tree s') i = Some j"
proof -
  note pl = AcceptBlock_placed [OF assms] and inv = node_invD [OF assms(1)]
  obtain j where c: "mapBlockIndex s (GetIDHash lib b) = None" "mapBlockIndex s (blk_hashPrevBlock b) = Some j"
    "GetNextTargetRequired lib (env_fTestNet env) (chain_at (fn_tree s) j) (IsProofOfStake b) = Some (blk_nBits b)"
    "GetMedianTimePast (chain_at (fn_tree s) j) < GetBlockTime b" "bi_GetBlockTime (bi_at (fn_tree s) j) \<le> GetBlockTime b + nMaxClockDrift"
    "list_all (CTransaction_IsFinal (nBestHeight (fn_node s)) (env_GetAdjustedTime env) (height_at s j + 1) (GetBlockTime b)) (vtx b)"
    "CheckHardened (cenv env) (height_at s j + 1) (GetIDHash lib b)" "CheckSync (cenv env) s (GetIDHash lib b) j = Some True"
    using pl(1) by (elim accept_checks_sound) blast
  obtain k where k: "mapBlockIndex s (hashSyncCheckpoint s) = Some k" using inv(5) by blast
  have "k \<in> set (ancestors (fn_tree s) j)" if "\<not> env_fTestNet env"
    using CheckSync_iff [OF inv(1) _ k _ c(1), of "cenv env" j] indexedD(2) [OF inv(1) c(2)] c(8) that by (simp add: connect_env.truncate_def)
  then show ?thesis using c(1-7) k pl(2,3) by auto
qed

section \<open>Processing a block returns\<close>

text \<open>
  Following the predecessors of an orphan ends when they do not go round in a circle; a circle would need blocks that
  name each other's hashes. \<open>rank\<close> orders the hashes accordingly.
\<close>

definition orphans_ranked :: "(uint256 \<Rightarrow> nat) \<Rightarrow> (uint256 \<rightharpoonup> CBlock) \<Rightarrow> bool" where
  "orphans_ranked rank orphans \<longleftrightarrow> (\<forall>h b. orphans h = Some b \<longrightarrow> rank (blk_hashPrevBlock b) < rank h)"

lemma orphan_root_returns:
  assumes "orphans_ranked rank orphans"
  shows "\<exists>r. orphan_root orphans b = Some r"
proof (induction "rank (blk_hashPrevBlock b)" arbitrary: b rule: less_induct)
  case less
  show ?case
  proof (cases "orphans (blk_hashPrevBlock b)")
    case (Some c)
    then show ?thesis using less [of c] assms by (subst orphan_root.simps) (simp add: orphans_ranked_def)
  qed (simp add: orphan_root.simps)
qed

lemma duplicate_stake_returns:
  assumes "orphans_ranked rank (mapOrphanBlocks s)"
  shows "\<exists>d. duplicate_stake seen h b s = Some d"
proof -
  have "WantedByOrphan s x \<noteq> None" for x using orphan_root_returns [OF assms, of x] by (auto simp: WantedByOrphan_def)
  then have "WantedByPendingSyncCheckpoint s h \<noteq> None" by (auto simp: WantedByPendingSyncCheckpoint_def split: option.split)
  then show ?thesis by (auto simp: duplicate_stake_def)
qed

lemma hold_orphan_returns:
  assumes "orphans_ranked rank (mapOrphanBlocks s)" and "rank (blk_hashPrevBlock b) < rank (GetIDHash lib b)"
  shows "\<exists>r s'. hold_orphan lib env pfrom b s = Some (r, s')"
proof -
  let ?s = "keep_orphan (GetIDHash lib b) b s"
  obtain d where d: "duplicate_stake (setStakeSeenOrphan s) (GetIDHash lib b) b s = Some d" using duplicate_stake_returns [OF assms(1)] by blast
  have rk: "orphans_ranked rank (mapOrphanBlocks ?s)" using assms by (auto simp: orphans_ranked_def keep_orphan_def)
  obtain root where root: "orphan_root (mapOrphanBlocks ?s) b = Some root" using orphan_root_returns [OF rk] by blast
  have "\<exists>s'. ask_for_orphans lib env p b ?s = Some s'" for p
    using root by (auto simp: ask_for_orphans_def GetOrphanRoot_def WantedByOrphan_def Let_def call_def)
  then show ?thesis using d by (cases pfrom) (auto simp: hold_orphan_def Let_def split: bool.split)
qed

lemma ProcessSyncCheckpoint_own: "\<exists>r s'. ProcessSyncCheckpoint lib env None msg s = Some (r, s')"
  by (auto simp: ProcessSyncCheckpoint_def Let_def split: prod.split outcome.split option.split bool.split)

lemma master_duties_returns: "\<exists>r s'. master_duties lib env pfrom b s = Some (r, s')"
proof -
  have "\<exists>r s'. SendSyncCheckpoint lib e sign k h s = Some (r, s')" for e sign k h
    using ProcessSyncCheckpoint_own [of lib e _ s] by (fastforce simp: SendSyncCheckpoint_def split: option.split)
  then have "\<exists>r s'. checkpoint_duty lib env pfrom s = Some (r, s')" by (auto simp: checkpoint_duty_def split: option.split)
  then show ?thesis by (auto simp: master_duties_def split: outcome.split prod.split)
qed

lemma take_block_returns: "\<exists>r s'. take_block lib env pfrom b s = Some (r, s')"
  using master_duties_returns by (auto simp: take_block_def split: prod.split block_result.split bool.split)

text \<open>
  C22. \<^verbatim>\<open>ProcessBlock\<close> returns on every block and every state, provided that the orphans held and the block itself can be
  ranked so that each is above its predecessor: the walks along the orphans, the queue of orphans that an accepted block releases, and the checkpoint
  that the holder of the master key sends all end.
\<close>

theorem ProcessBlock_returns:
  assumes "orphans_ranked rank (mapOrphanBlocks s)" and "rank (blk_hashPrevBlock b) < rank (GetIDHash lib b)"
  shows "\<exists>r s'. ProcessBlock lib env pfrom b s = Some (r, s')"
proof -
  obtain d where d: "duplicate_stake (setStakeSeen s) (GetIDHash lib b) b s = Some d" using duplicate_stake_returns [OF assms(1)] by blast
  obtain r1 s1 where c1: "fn_CheckBlock lib env False b s = (r1, s1)" by fastforce
  obtain r2 s2 where c2: "(if IsProofOfStake b then fn_CheckProofOfStake lib env b s1 else (BAccepted, s1)) = (r2, s2)" by fastforce
  define s3 where "s3 = (if acc_IsInitialBlockDownload env s2 then s2 else AskForPendingSyncCheckpoint pfrom s2)"
  obtain r4 s4 where c4: "fn_CheckBlock lib env True b s3 = (r4, s4)" by fastforce
  have "same_orphans s1 s2" using c2 fn_CheckProofOfStake_core [of lib env b s1 r2 s2] by (auto split: if_split_asm)
  then have "same_orphans s s4"
    using fn_CheckBlock_core [OF c1] fn_CheckBlock_core [OF c4] AskForPendingSyncCheckpoint_core [of s2 pfrom]
    by (simp add: s3_def same_orphans_def split: if_split_asm)
  then have "orphans_ranked rank (mapOrphanBlocks s4)" using assms(1) by (simp add: same_orphans_def)
  note h = hold_orphan_returns [OF this assms(2), of env pfrom] and t = take_block_returns [of lib env pfrom b s4]
  show ?thesis
    using d c1 c2 c4 h t unfolding ProcessBlock_def Let_def s3_def
    by (cases d; cases r1; cases r2; cases r4) simp_all
qed

section \<open>A block on a side branch\<close>

text \<open>A genesis block with the hash 40, a best block above it that has a trust of half the hashes, and a new block beside that one.\<close>

definition side_root :: CBlockIndex where
  "side_root = run_root\<lparr> bi_hash := 40, bi_nFlags := BLOCK_STAKE_MODIFIER, bi_nTime := 5 \<rparr>"

definition side_best :: CBlockIndex where
  "side_best = side_root\<lparr> bi_hash := 41, bi_nHeight := 1, bi_nFlags := BLOCK_PROOF_OF_STAKE, bi_nBits := 0x03000001, bi_bnChainTrust := 2 ^ 255 \<rparr>"

definition side_tree :: block_tree where
  "side_tree = [\<lparr> nd_bi = side_root, nd_pprev = None, nd_pnext = Some 1 \<rparr>, \<lparr> nd_bi = side_best, nd_pprev = Some 0, nd_pnext = None \<rparr>]"

definition side_node :: full_node where
  "side_node = two_node\<lparr> fn_node := (demo_node Map.empty Map.empty side_tree 1)\<lparr> hashBestChain := 41, bnBestChainTrust := 2 ^ 255 \<rparr>,
     mapBlockIndex := [40 \<mapsto> 0, 41 \<mapsto> 1], hashSyncCheckpoint := 40, db_hashSyncCheckpoint := 40 \<rparr>"

definition side_env :: accept_env where
  "side_env = connect_env.extend (demo_connect_env\<lparr> env_hashGenesisBlock := 40 \<rparr>)
     \<lparr> acc_nModifierInterval = 60, acc_free_bytes = 10 ^ 9, acc_IsInitialBlockDownload = (\<lambda>_. False), acc_pow = demo_pow_env,
       acc_sign = (\<lambda>_ _. None), acc_checkpointKey = [], acc_signedHashKey = [] \<rparr>"

definition side_block :: CBlock where
  "side_block = demo_cblock\<lparr> blk_hashPrevBlock := 40, blk_nBits := GetCompact demo_lib (GetProofOfWorkLimit False 0) \<rparr>"

lemma side_shape:
  "pprev side_tree 0 = None" "pprev side_tree (Suc 0) = Some 0" "bi_at side_tree 0 = side_root" "bi_at side_tree (Suc 0) = side_best"
  "length side_tree = 2" "fn_tree side_node = side_tree" "mapBlockIndex side_node = [40 \<mapsto> 0, 41 \<mapsto> 1]" "hashSyncCheckpoint side_node = 40"
  "bi_hash side_root = 40" "bi_hash side_best = 41" "bi_nHeight side_root = 0" "bi_nHeight side_best = 1"
  by (simp_all add: side_tree_def side_root_def side_best_def run_root_def pprev_def bi_at_def side_node_def two_node_def demo_node_def demo_root_def)

lemma side_env_fields:
  "env_hashGenesisBlock side_env = 40" "env_fTestNet side_env = False" "acc_nModifierInterval side_env = 60" "acc_free_bytes side_env = 10 ^ 9"
  "env_fTestNet (cenv side_env) = False" "env_hashGenesisBlock (cenv side_env) = 40"
  by (simp_all add: side_env_def connect_env.extend_def connect_env.truncate_def demo_connect_env_def)

lemma side_block_fields: "GetIDHash demo_lib side_block = 32" "blk_hashPrevBlock side_block = 40" "vtx side_block = [demo_coinbase]"
  "IsProofOfStake side_block = False" "IsProofOfWork side_block" "GetBlockTime side_block = 10"
  by (simp_all add: GetIDHash_def demo_Hash side_block_def demo_cblock_def IsProofOfStake_def IsProofOfWork_def GetBlockTime_def)

lemma side_indexed: "indexed side_node"
  unfolding indexed_def
proof (intro conjI allI)
  show "tree_ok (fn_tree side_node)"
    by (simp add: tree_ok_def node_ok_def side_shape upt_rec)
  show "mapBlockIndex side_node h = Some i \<longleftrightarrow> i < length (fn_tree side_node) \<and> bi_hash (bi_at (fn_tree side_node) i) = h" for h i
    unfolding side_shape by (cases "i = 0"; cases "i = Suc 0") (auto simp: side_shape)
qed

lemma side_trust: "bi_GetBlockTrust demo_lib side_root = 0" "bi_GetBlockTrust demo_lib side_best = 2 ^ 255"
proof -
  have "BN_mpi2bn demo_lib ((replicate 4 0)[3 := 0]) = 0" by (simp add: demo_lib_def)
  then show "bi_GetBlockTrust demo_lib side_root = 0" by (simp add: bi_GetBlockTrust_def side_root_def run_root_def Let_def SetCompact_def)
  have "SetCompact demo_lib 0x03000001 = 1" by code_simp
  then show "bi_GetBlockTrust demo_lib side_best = 2 ^ 255"
    by (simp add: bi_GetBlockTrust_def side_best_def bi_IsProofOfStake_def BLOCK_PROOF_OF_STAKE_def bn_div_def bn_shl_def)
qed

lemma side_inv: "node_inv demo_lib 40 side_node"
proof -
  have "bi_bnChainTrust side_root = 0" "bi_bnChainTrust side_best = 2 ^ 255" by (simp_all add: side_best_def side_root_def run_root_def)
  then show ?thesis
    unfolding node_inv_def using side_indexed side_trust
    by (simp add: side_shape trusted_def upt_rec best_ok_def) (simp add: side_node_def demo_node_def side_shape)
qed

lemma side_chain: "chain_at side_tree 0 = [side_root]"
  by (subst chain_at.simps) (simp add: side_shape)

lemma side_root_kind: "\<not> bi_IsProofOfStake side_root" "bi_GeneratedStakeModifier side_root" "bi_GetBlockTime side_root = 5"
  by (simp_all add: side_root_def run_root_def demo_root_def demo_index_def bi_IsProofOfStake_def bi_GeneratedStakeModifier_def BLOCK_STAKE_MODIFIER_def
      BLOCK_PROOF_OF_STAKE_def bi_GetBlockTime_def)

lemma side_checks: "accept_checks demo_lib side_env side_block side_node = BAccepted"
proof -
  have t: "GetNextTargetRequired demo_lib False [side_root] False = Some (blk_nBits side_block)"
    by (simp add: GetNextTargetRequired_def Let_def side_shape side_block_def nPoWSwitchHeight_def side_root_kind GetTypeHeight_def nPastBlocksMin_def)
       (simp add: side_root_def run_root_def demo_root_def)
  have m: "GetMedianTimePast [side_root] = 5" by (simp add: GetMedianTimePast_def side_root_kind nMedianTimeSpan_def)
  have c: "CheckSync (cenv side_env) side_node 32 0 = Some True"
    using CheckSync_iff [OF side_indexed, of "cenv side_env" 0 0 32] by (simp add: side_env_fields side_shape ancestors_root)
  have h: "CheckHardened (cenv side_env) 1 32" by (simp add: CheckHardened_def mapCheckpoints_def side_env_fields)
  have f: "nLockTime demo_coinbase = 0" by (simp add: demo_coinbase_def demo_tx_def)
  show ?thesis
    by (simp add: accept_checks_def Let_def side_block_fields side_shape side_chain side_env_fields t m c h f side_root_kind nMaxClockDrift_def CTransaction_IsFinal_def)
qed

lemma side_new_index:
  assumes "mapBlockIndex s = mapBlockIndex side_node" and "fn_tree s = side_tree"
  shows "\<exists>p. new_block_index demo_lib side_env nFile nBlockPos side_block s = Inr p \<and> bi_bnChainTrust p \<le> 1"
proof -
  define p where "p = place_block_index demo_lib (CBlockIndex_new 32 nFile nBlockPos side_block) side_block [side_root]"
  have trust: "bi_GetBlockTrust demo_lib q \<le> 1" if "bi_nFlags q = 0" for q
    using that by (simp add: bi_GetBlockTrust_def Let_def bi_IsProofOfStake_def)
  have "bi_nFlags p = 0 \<and> bi_bnChainTrust p \<le> 1"
    using trust by (simp add: p_def place_block_index_def CBlockIndex_new_def Let_def side_block_fields side_root_def run_root_def)
  then have p: "bi_nFlags p = 0" "bi_bnChainTrust p \<le> 1" by simp_all
  have "Hash160 demo_lib bs = 32" for bs by (simp add: Hash160_def demo_lib_def)
  then have e: "GetStakeEntropyBit demo_lib False side_block = 0" by (simp add: GetStakeEntropyBit_def side_block_fields)
  have k: "\<not> bi_IsProofOfStake p" "bi_SetStakeEntropyBit 0 p = Some p" using p(1) by (simp_all add: bi_IsProofOfStake_def bi_SetStakeEntropyBit_def)
  have m: "ComputeNextStakeModifier demo_lib False 60 ix (p # [side_root]) = Some (bi_nStakeModifier side_root, False)" for ix
    by (simp add: ComputeNextStakeModifier_def side_root_kind)
  have c: "\<exists>c. GetStakeModifierChecksum demo_lib 40 (q # [side_root]) = Some c" for q by (simp add: GetStakeModifierChecksum_def Let_def)
  show ?thesis
    using assms e k m c [of "bi_SetStakeModifier (bi_nStakeModifier side_root) False p"] p(2)
    by (auto simp: new_block_index_def Let_def side_shape side_block_fields side_env_fields side_chain p_def [symmetric] CheckStakeModifierCheckpoints_def
        mapStakeModifierCheckpoints_def SetStakeModifier_fields)
qed

lemma side_added:
  assumes "same_core side_node s"
  shows "\<exists>p. AddToBlockIndex demo_lib side_env nFile nBlockPos side_block s = (Done, file_block_index demo_lib side_block p s)"
proof -
  have s: "mapBlockIndex s = mapBlockIndex side_node" "fn_tree s = side_tree" "bnBestChainTrust (fn_node s) = 2 ^ 255"
    using assms by (simp_all add: same_core_def side_shape) (simp add: side_node_def)
  obtain p where p: "new_block_index demo_lib side_env nFile nBlockPos side_block s = Inr p" "bi_bnChainTrust p \<le> 1" using side_new_index [OF s(1,2)] by blast
  then have "\<not> bi_bnChainTrust p > 2 ^ 255" by (smt (verit) one_le_power)
  then show ?thesis using p s by (auto simp: AddToBlockIndex_def side_block_fields side_shape Let_def file_block_index_fields)
qed

lemma side_accepted: "\<exists>s'. AcceptBlock demo_lib side_env side_block side_node = (BAccepted, s')"
proof -
  have len: "length (Serialize_CBlock side_block) = length (Serialize_CBlock demo_cblock)"
    by (simp add: Serialize_CBlock_def header_bytes_def side_block_def)
  have "AppendBlockFile Map.empty 1 = Some 1" by (subst AppendBlockFile.simps) (simp add: MAX_SIZE_def)
  then obtain nFile nBlockPos files where w: "WriteToDisk False side_block Map.empty 1 = Some (nFile, nBlockPos, files)"
    by (auto simp: WriteToDisk_def Let_def)
  let ?s = "side_node\<lparr> fn_node := (fn_node side_node)\<lparr> nd_files := files \<rparr>, nCurrentBlockFile := nFile \<rparr>"
  have "same_core side_node ?s" by (simp add: same_core_def)
  then obtain p where a: "AddToBlockIndex demo_lib side_env nFile nBlockPos side_block ?s = (Done, file_block_index demo_lib side_block p ?s)" using side_added by blast
  have f: "nd_files (fn_node side_node) = Map.empty" "nCurrentBlockFile side_node = 1" "hashPendingCheckpoint side_node = 0" "hashBestChain (fn_node side_node) = 41"
    by (simp_all add: side_node_def two_node_def demo_node_def)
  have n: "length (Serialize_CBlock side_block) \<le> 1000000" using demo_block_size len by (simp add: MAX_BLOCK_SIZE_def)
  have "unat (of_nat (15000000 + length (Serialize_CBlock side_block)) :: uint64) \<le> 15000000 + length (Serialize_CBlock side_block)"
    unfolding unat_of_nat by (rule mod_less_eq_dividend)
  then have d: "CheckDiskSpace side_env (length (Serialize_CBlock side_block))"
    using n by (simp add: CheckDiskSpace_def side_env_fields word_less_nat_alt)
  show ?thesis
    using side_checks d w a f by (simp add: AcceptBlock_def Let_def side_env_fields side_block_fields file_block_index_fields AcceptPendingSyncCheckpoint_def)
qed

theorem AcceptBlock_sound_witness:
  "\<exists>s'. AcceptBlock demo_lib side_env side_block side_node = (BAccepted, s') \<and> mapBlockIndex side_node 32 = None \<and>
     (\<exists>i. mapBlockIndex s' 32 = Some i \<and> pprev (fn_tree s') i = Some 0)"
proof -
  obtain s' where s': "AcceptBlock demo_lib side_env side_block side_node = (BAccepted, s')" using side_accepted by blast
  have "node_inv demo_lib (env_hashGenesisBlock side_env) side_node" using side_inv by (simp add: side_env_fields)
  then show ?thesis using AcceptBlock_sound [OF _ s'] s' by (auto simp: side_block_fields side_shape)
qed


text \<open>The block was put with the orphans while the node lacked its predecessor; processing it again returns.\<close>

theorem ProcessBlock_returns_witness:
  "\<exists>r s'. ProcessBlock demo_lib side_env (Some 0) side_block (keep_orphan 32 side_block side_node) = Some (r, s')"
proof (rule ProcessBlock_returns [of "\<lambda>h. if h = 32 then 1 else 0"])
  show "orphans_ranked (\<lambda>h. if h = 32 then 1 else 0) (mapOrphanBlocks (keep_orphan 32 side_block side_node))"
    by (auto simp: orphans_ranked_def keep_orphan_def side_node_def two_node_def side_block_fields split: if_split_asm)
  show "(if blk_hashPrevBlock side_block = 32 then 1 else 0 :: nat) < (if GetIDHash demo_lib side_block = 32 then 1 else 0)"
    by (simp add: side_block_fields)
qed

end
