(* ===== verification/Keys.thy ===== *)
theory Keys
  imports Base58 "HOL-Library.Monad_Syntax"
begin

text \<open>
  \<^verbatim>\<open>CKey\<close> of \<^verbatim>\<open>src/src/key.h\<close> and \<^verbatim>\<open>src/src/key.cpp\<close>: the wrapper of OpenSSL's elliptic-curve keys, with the compact signatures from which
  the key of the signer is recovered.
\<close>

section \<open>OpenSSL\<close>

text \<open>
  An \<^verbatim>\<open>EC_KEY\<close> on the curve \<^verbatim>\<open>secp256k1\<close>: the private number, the public point and the form in which the point is encoded. Points
  are opaque: they are byte strings that only OpenSSL's functions read.
\<close>

type_synonym ec_point = bytes

record EC_KEY =
  ec_priv :: "nat option"
  ec_pub :: "ec_point option"
  ec_compressed :: bool

definition EC_KEY_new :: EC_KEY where
  "EC_KEY_new = \<lparr> ec_priv = None, ec_pub = None, ec_compressed = False \<rparr>"

text \<open>
  The functions that \<^verbatim>\<open>key.cpp\<close> calls: a multiple of the generator, the encoding of a point and the point and form of an encoding, signatures as bytes and as
  a pair of numbers, private keys in their full format, the order, field and degree of the curve, the point with a given abscissa, whether
  a multiple of a point is infinity, the sum of a multiple of the generator and one of a point, and the inverse modulo a number.
\<close>

record ec_openssl = openssl +
  ec_mul :: "nat \<Rightarrow> ec_point option"
  ec_i2o :: "bool \<Rightarrow> ec_point \<Rightarrow> bytes"
  ec_o2i :: "bytes \<Rightarrow> (bool \<times> ec_point) option"
  ec_sign :: "nat \<Rightarrow> uint256 \<Rightarrow> bytes option"
  ec_do_sign :: "nat \<Rightarrow> uint256 \<Rightarrow> (nat \<times> nat) option"
  ec_d2i :: "bytes \<Rightarrow> EC_KEY option"
  ec_i2d :: "EC_KEY \<Rightarrow> bytes option"
  ec_order :: nat
  ec_field :: nat
  ec_degree :: nat
  ec_lift_x :: "nat \<Rightarrow> bool \<Rightarrow> ec_point option"
  ec_infinite :: "nat \<Rightarrow> ec_point \<Rightarrow> bool"
  ec_comb :: "nat \<Rightarrow> ec_point \<Rightarrow> nat \<Rightarrow> ec_point option"
  bn_mod_inverse :: "nat \<Rightarrow> nat \<Rightarrow> nat option"

section \<open>Keys\<close>

text \<open>\<open>None\<close> is an exception or, in \<^verbatim>\<open>GetSecret\<close> of a key without a private part, a null pointer that is read.\<close>

record CKey =
  pkey :: EC_KEY
  fSet :: bool
  fCompressedPubKey :: bool

definition EC_KEY_regenerate_key :: "'a ec_openssl_scheme \<Rightarrow> EC_KEY \<Rightarrow> nat \<Rightarrow> EC_KEY option" where
  "EC_KEY_regenerate_key lib eckey priv_key =
     map_option (\<lambda>p. eckey\<lparr> ec_priv := Some priv_key, ec_pub := Some p \<rparr>) (ec_mul lib priv_key)"

definition SetCompressedPubKey :: "CKey \<Rightarrow> CKey" where
  "SetCompressedPubKey k = k\<lparr> pkey := (pkey k)\<lparr> ec_compressed := True \<rparr>, fCompressedPubKey := True \<rparr>"

definition Key_Reset :: CKey where
  "Key_Reset = \<lparr> pkey = EC_KEY_new, fSet = False, fCompressedPubKey = False \<rparr>"

text \<open>
  Copying. Neither the constructor nor the assignment copies \<^verbatim>\<open>fCompressedPubKey\<close>: after the constructor it has
  whatever value the memory had, \<open>junk\<close>; after the assignment it is as before.
\<close>

definition Key_copy :: "bool \<Rightarrow> CKey \<Rightarrow> CKey" where
  "Key_copy junk b = \<lparr> pkey = pkey b, fSet = fSet b, fCompressedPubKey = junk \<rparr>"

definition Key_assign :: "CKey \<Rightarrow> CKey \<Rightarrow> CKey" where
  "Key_assign k b = k\<lparr> pkey := pkey b, fSet := fSet b \<rparr>"

definition Key_IsNull :: "CKey \<Rightarrow> bool" where
  "Key_IsNull k = (\<not> fSet k)"

definition Key_IsCompressed :: "CKey \<Rightarrow> bool" where
  "Key_IsCompressed k = fCompressedPubKey k"

text \<open>\<^verbatim>\<open>EC_KEY_generate_key\<close> draws the private number \<open>n\<close>.\<close>

definition MakeNewKey :: "'a ec_openssl_scheme \<Rightarrow> nat \<Rightarrow> bool \<Rightarrow> CKey \<Rightarrow> CKey option" where
  "MakeNewKey lib n fCompressed k =
     (case EC_KEY_regenerate_key lib (pkey k) n of
        None \<Rightarrow> None
      | Some e \<Rightarrow> let k = k\<lparr> pkey := e \<rparr>; k = (if fCompressed then SetCompressedPubKey k else k) in Some (k\<lparr> fSet := True \<rparr>))"

definition SetPrivKey :: "'a ec_openssl_scheme \<Rightarrow> bytes \<Rightarrow> CKey \<Rightarrow> bool \<times> CKey" where
  "SetPrivKey lib vchPrivKey k =
     (case ec_d2i lib vchPrivKey of None \<Rightarrow> (False, k) | Some e \<Rightarrow> (True, k\<lparr> pkey := e, fSet := True \<rparr>))"

definition Key_SetSecret :: "'a ec_openssl_scheme \<Rightarrow> bytes \<Rightarrow> bool \<Rightarrow> CKey \<Rightarrow> CKey option" where
  "Key_SetSecret lib vchSecret fCompressed k =
     (if length vchSecret \<noteq> 32 then None
      else case EC_KEY_regenerate_key lib EC_KEY_new (be_val vchSecret) of
        None \<Rightarrow> None
      | Some e \<Rightarrow>
          let k = k\<lparr> pkey := e, fSet := True \<rparr>
          in Some (if fCompressed \<or> fCompressedPubKey k then SetCompressedPubKey k else k))"

definition Key_GetSecret :: "CKey \<Rightarrow> (bytes \<times> bool) option" where
  "Key_GetSecret k =
     (case ec_priv (pkey k) of
        None \<Rightarrow> None
      | Some bn \<Rightarrow> if 256 ^ 32 \<le> bn then None else Some (rev (le_bytes 32 bn), fCompressedPubKey k))"

definition GetPrivKey :: "'a ec_openssl_scheme \<Rightarrow> CKey \<Rightarrow> bytes option" where
  "GetPrivKey lib k = ec_i2d lib (pkey k)"

definition Key_SetPubKey :: "'a ec_openssl_scheme \<Rightarrow> bytes \<Rightarrow> CKey \<Rightarrow> bool \<times> CKey" where
  "Key_SetPubKey lib vchPubKey k =
     (case ec_o2i lib vchPubKey of
        None \<Rightarrow> (False, k)
      | Some (form, p) \<Rightarrow>
          let k = k\<lparr> pkey := (pkey k)\<lparr> ec_pub := Some p, ec_compressed := form \<rparr>, fSet := True \<rparr>
          in (True, if length vchPubKey = 33 then SetCompressedPubKey k else k))"

definition Key_GetPubKey :: "'a ec_openssl_scheme \<Rightarrow> CKey \<Rightarrow> bytes option" where
  "Key_GetPubKey lib k = map_option (ec_i2o lib (ec_compressed (pkey k))) (ec_pub (pkey k))"

definition Key_Sign :: "'a ec_openssl_scheme \<Rightarrow> CKey \<Rightarrow> uint256 \<Rightarrow> bytes option" where
  "Key_Sign lib k hash = (case ec_priv (pkey k) of None \<Rightarrow> None | Some n \<Rightarrow> ec_sign lib n hash)"

definition Key_Verify :: "'a ec_openssl_scheme \<Rightarrow> CKey \<Rightarrow> uint256 \<Rightarrow> bytes \<Rightarrow> bool" where
  "Key_Verify lib k hash vchSig =
     (case Key_GetPubKey lib k of None \<Rightarrow> False | Some pk \<Rightarrow> ECDSA_verify lib pk hash vchSig)"

definition Key_IsValid :: "'a ec_openssl_scheme \<Rightarrow> CKey \<Rightarrow> bool option" where
  "Key_IsValid lib k =
     (if \<not> fSet k then Some False
      else do {
        (secret, fCompr) \<leftarrow> Key_GetSecret k;
        key2 \<leftarrow> Key_SetSecret lib secret fCompr Key_Reset;
        a \<leftarrow> Key_GetPubKey lib k;
        b \<leftarrow> Key_GetPubKey lib key2;
        Some (a = b) })"

section \<open>Compact signatures\<close>

text \<open>
  \<^verbatim>\<open>ECDSA_SIG_recover_key_GFp\<close> on the signature \<open>(r, s)\<close>: the result of the function and the key. The memory OpenSSL allocates is
  always there.
\<close>

definition ECDSA_SIG_recover_key_GFp ::
  "'a ec_openssl_scheme \<Rightarrow> EC_KEY \<Rightarrow> nat \<times> nat \<Rightarrow> bytes \<Rightarrow> nat \<Rightarrow> bool \<Rightarrow> int \<times> EC_KEY" where
  "ECDSA_SIG_recover_key_GFp lib eckey sig msg recid check =
     (let i = recid div 2; order = ec_order lib; x = order * i + fst sig in
      if x \<ge> ec_field lib then (0, eckey)
      else case ec_lift_x lib x (recid mod 2 = 1) of
        None \<Rightarrow> (0, eckey)
      | Some R \<Rightarrow>
          if check \<and> \<not> ec_infinite lib order R then (0, eckey)
          else
            let n = ec_degree lib;
                e = be_val msg;
                e = (if 8 * length msg > n then e div 2 ^ (8 - n mod 8) else e);
                e = nat ((0 - int e) mod int order)
            in
            (case bn_mod_inverse lib (fst sig) order of
               None \<Rightarrow> (-1, eckey)
             | Some rr \<Rightarrow>
                 (case ec_comb lib ((e * rr) mod order) R ((snd sig * rr) mod order) of
                    None \<Rightarrow> (-2, eckey)
                  | Some Q \<Rightarrow> (1, eckey\<lparr> ec_pub := Some Q \<rparr>))))"

text \<open>The first of the four candidates that gives the public key of the signer.\<close>

fun find_recid :: "'a ec_openssl_scheme \<Rightarrow> CKey \<Rightarrow> nat \<times> nat \<Rightarrow> uint256 \<Rightarrow> nat list \<Rightarrow> nat option" where
  "find_recid lib k sig hash [] = None"
| "find_recid lib k sig hash (i # is) =
     (let keyRec = Key_Reset\<lparr> fSet := True \<rparr>;
          keyRec = (if fCompressedPubKey k then SetCompressedPubKey keyRec else keyRec);
          (ret, e) = ECDSA_SIG_recover_key_GFp lib (pkey keyRec) sig (image256 hash) i True
      in if ret = 1 \<and> Key_GetPubKey lib (keyRec\<lparr> pkey := e \<rparr>) = Key_GetPubKey lib k then Some i
         else find_recid lib k sig hash is)"

definition SignCompact :: "'a ec_openssl_scheme \<Rightarrow> CKey \<Rightarrow> uint256 \<Rightarrow> bytes \<Rightarrow> (bool \<times> bytes) option" where
  "SignCompact lib k hash vchSig =
     (case (case ec_priv (pkey k) of None \<Rightarrow> None | Some n \<Rightarrow> ec_do_sign lib n hash) of
        None \<Rightarrow> Some (False, vchSig)
      | Some (r, s) \<Rightarrow>
          if r < 2 ^ 256 \<and> s < 2 ^ 256 then
            (case find_recid lib k (r, s) hash [0, 1, 2, 3] of
               None \<Rightarrow> None
             | Some nRecId \<Rightarrow>
                 Some (True, of_nat (nRecId + 27 + (if fCompressedPubKey k then 4 else 0)) # rev (le_bytes 32 r) @ rev (le_bytes 32 s)))
          else Some (False, replicate 65 0))"

definition SetCompactSignature :: "'a ec_openssl_scheme \<Rightarrow> uint256 \<Rightarrow> bytes \<Rightarrow> CKey \<Rightarrow> bool \<times> CKey" where
  "SetCompactSignature lib hash vchSig k =
     (if length vchSig \<noteq> 65 then (False, k)
      else
        let nV = unat (vchSig ! 0) in
        if nV < 27 \<or> nV \<ge> 35 then (False, k)
        else
          let sig = (be_val (take 32 (drop 1 vchSig)), be_val (take 32 (drop 33 vchSig)));
              k = k\<lparr> pkey := EC_KEY_new \<rparr>;
              (k, nV) = (if nV \<ge> 31 then (SetCompressedPubKey k, nV - 4) else (k, nV));
              (ret, e) = ECDSA_SIG_recover_key_GFp lib (pkey k) sig (image256 hash) (nV - 27) False
          in if ret = 1 then (True, k\<lparr> pkey := e, fSet := True \<rparr>) else (False, k\<lparr> pkey := e \<rparr>))"

definition VerifyCompact :: "'a ec_openssl_scheme \<Rightarrow> CKey \<Rightarrow> uint256 \<Rightarrow> bytes \<Rightarrow> bool option" where
  "VerifyCompact lib k hash vchSig =
     (case SetCompactSignature lib hash vchSig Key_Reset of
        (False, _) \<Rightarrow> Some False
      | (True, key) \<Rightarrow> do { a \<leftarrow> Key_GetPubKey lib k; b \<leftarrow> Key_GetPubKey lib key; Some (a = b) })"

section \<open>What OpenSSL documents\<close>

text \<open>
  Encodings have 33 or 65 bytes and are decoded to their point and form, the older function of \<open>openssl\<close> accepts what can be
  decoded, and a signature under a private number verifies under its point.
\<close>

definition ec_documented :: "'a ec_openssl_scheme \<Rightarrow> bool" where
  "ec_documented lib \<longleftrightarrow>
     (\<forall>p. length (ec_i2o lib True p) = 33 \<and> length (ec_i2o lib False p) = 65) \<and>
     (\<forall>n p c. ec_mul lib n = Some p \<longrightarrow> ec_o2i lib (ec_i2o lib c p) = Some (c, p)) \<and>
     (\<forall>bs. o2i_ECPublicKey lib bs \<longleftrightarrow> ec_o2i lib bs \<noteq> None) \<and>
     (\<forall>n p c h sig. ec_mul lib n = Some p \<longrightarrow> ec_sign lib n h = Some sig \<longrightarrow> ECDSA_verify lib (ec_i2o lib c p) h sig)"

lemma ec_documentedD:
  assumes "ec_documented lib"
  shows "length (ec_i2o lib c p) = (if c then 33 else 65)" and "ec_mul lib n = Some p \<Longrightarrow> ec_o2i lib (ec_i2o lib c p) = Some (c, p)"
    and "o2i_ECPublicKey lib bs \<longleftrightarrow> ec_o2i lib bs \<noteq> None"
    and "ec_mul lib n = Some p \<Longrightarrow> ec_sign lib n h = Some sig \<Longrightarrow> ECDSA_verify lib (ec_i2o lib c p) h sig"
  using assms unfolding ec_documented_def by auto

section \<open>Secrets\<close>

lemma be_val_rev_le_bytes: "be_val (rev (le_bytes n x)) = x mod 256 ^ n"
  by (simp add: be_val_def le_val_le_bytes)

lemma rev_le_bytes_be_val: "length bs = n \<Longrightarrow> rev (le_bytes n (be_val bs)) = bs"
  using le_bytes_le_val [of "rev bs"] by (simp add: be_val_def)

text \<open>A key made from a secret, in the form asked for or the form the object had.\<close>

lemma Key_SetSecret_Some:
  assumes "Key_SetSecret lib s c k = Some k'"
  obtains p where "length s = 32" and "ec_mul lib (be_val s) = Some p"
    and "k' = \<lparr> pkey = \<lparr> ec_priv = Some (be_val s), ec_pub = Some p, ec_compressed = (c \<or> fCompressedPubKey k) \<rparr>, fSet = True,
                fCompressedPubKey = (c \<or> fCompressedPubKey k) \<rparr>"
proof -
  have "length s = 32" using assms by (simp add: Key_SetSecret_def split: if_split_asm)
  moreover obtain p where "ec_mul lib (be_val s) = Some p"
    using assms by (cases "ec_mul lib (be_val s)") (auto simp: Key_SetSecret_def EC_KEY_regenerate_key_def split: if_split_asm)
  moreover have "k' = \<lparr> pkey = \<lparr> ec_priv = Some (be_val s), ec_pub = Some p, ec_compressed = (c \<or> fCompressedPubKey k) \<rparr>, fSet = True,
      fCompressedPubKey = (c \<or> fCompressedPubKey k) \<rparr>"
    using assms calculation by (cases k) (auto simp: Key_SetSecret_def EC_KEY_regenerate_key_def EC_KEY_new_def SetCompressedPubKey_def Let_def)
  ultimately show thesis using that by blast
qed

lemma GetSecret_SetSecret:
  assumes "Key_SetSecret lib s c k = Some k'"
  shows "Key_GetSecret k' = Some (s, c \<or> fCompressedPubKey k)"
proof -
  obtain p where p: "length s = 32" "k' = \<lparr> pkey = \<lparr> ec_priv = Some (be_val s), ec_pub = Some p, ec_compressed = (c \<or> fCompressedPubKey k) \<rparr>, fSet = True,
      fCompressedPubKey = (c \<or> fCompressedPubKey k) \<rparr>" using assms by (rule Key_SetSecret_Some)
  have "be_val s < 256 ^ 32" using be_val_less [of s] p(1) by simp
  then show ?thesis using p by (simp add: Key_GetSecret_def rev_le_bytes_be_val)
qed

text \<open>
  A compressed key that was assigned to a fresh key object is no longer valid. The assignment copies the OpenSSL key but not the flag, so the
  copy signs and encodes its public key as before, but hands out its secret as one of an uncompressed key; a key
  restored from that secret has another public key, and \<^verbatim>\<open>IsValid\<close> is false.
\<close>

theorem copied_key_not_valid:
  assumes "ec_documented lib" and "Key_SetSecret lib secret True Key_Reset = Some k"
  defines "k' \<equiv> Key_assign Key_Reset k"
  shows "Key_IsValid lib k = Some True \<and> Key_IsValid lib k' = Some False \<and> Key_GetPubKey lib k' = Key_GetPubKey lib k \<and>
    Key_GetSecret k' = Some (secret, False)"
proof -
  obtain p where p: "length secret = 32" "ec_mul lib (be_val secret) = Some p"
    "k = \<lparr> pkey = \<lparr> ec_priv = Some (be_val secret), ec_pub = Some p, ec_compressed = True \<rparr>, fSet = True, fCompressedPubKey = True \<rparr>"
    using Key_SetSecret_Some [OF assms(2)] by auto
  have b: "be_val secret < 256 ^ 32" using be_val_less [of secret] p(1) by simp
  have "ec_i2o lib True p \<noteq> ec_i2o lib False p"
    using ec_documentedD(1) [OF assms(1), of True p] ec_documentedD(1) [OF assms(1), of False p] by auto
  then show ?thesis using p b
    by (simp add: k'_def Key_assign_def Key_IsValid_def Key_GetSecret_def rev_le_bytes_be_val Key_SetSecret_def EC_KEY_regenerate_key_def
        Key_Reset_def EC_KEY_new_def SetCompressedPubKey_def Key_GetPubKey_def Let_def)
qed

section \<open>The signer of a compact signature\<close>

lemma recover_unchecked:
  "ECDSA_SIG_recover_key_GFp lib e sig msg i True = (1, e') \<Longrightarrow> ECDSA_SIG_recover_key_GFp lib e sig msg i False = (1, e')"
  by (auto simp: ECDSA_SIG_recover_key_GFp_def Let_def split: if_split_asm option.split_asm)

lemma find_recid_Some:
  assumes "find_recid lib k sig hash is = Some i"
  defines "e0 \<equiv> EC_KEY_new\<lparr> ec_compressed := fCompressedPubKey k \<rparr>"
  shows "i \<in> set is \<and> (\<exists>e. ECDSA_SIG_recover_key_GFp lib e0 sig (image256 hash) i True = (1, e) \<and>
    map_option (ec_i2o lib (ec_compressed e)) (ec_pub e) = Key_GetPubKey lib k)"
  using assms(1)
proof (induction "is")
  case (Cons j "is")
  have k0: "pkey (if fCompressedPubKey k then SetCompressedPubKey (Key_Reset\<lparr> fSet := True \<rparr>) else Key_Reset\<lparr> fSet := True \<rparr>) = e0"
    by (simp add: e0_def SetCompressedPubKey_def Key_Reset_def EC_KEY_new_def)
  obtain ret e where r: "ECDSA_SIG_recover_key_GFp lib e0 sig (image256 hash) j True = (ret, e)" by fastforce
  show ?case
  proof (cases "ret = 1 \<and> map_option (ec_i2o lib (ec_compressed e)) (ec_pub e) = Key_GetPubKey lib k")
    case True
    then show ?thesis using Cons.prems r by (simp add: Let_def k0 Key_GetPubKey_def)
  next
    case False
    then have "find_recid lib k sig hash is = Some i" using Cons.prems r by (auto simp: Let_def k0 Key_GetPubKey_def)
    then show ?thesis using Cons.IH by auto
  qed
qed simp

text \<open>
  A compact signature names its signer. Whenever \<^verbatim>\<open>SignCompact\<close> succeeds, \<^verbatim>\<open>SetCompactSignature\<close> on any key object recovers a key
  with the signer's public key, in the signer's form, and \<^verbatim>\<open>VerifyCompact\<close> accepts.
\<close>

theorem compact_signature_names_signer:
  assumes "SignCompact lib k hash v = Some (True, vchSig)"
  shows "length vchSig = 65 \<and> Key_GetPubKey lib k \<noteq> None \<and> VerifyCompact lib k hash vchSig = Some True \<and>
    fst (SetCompactSignature lib hash vchSig key0) \<and>
    Key_GetPubKey lib (snd (SetCompactSignature lib hash vchSig key0)) = Key_GetPubKey lib k"
proof -
  obtain r s i where rs: "r < 2 ^ 256" "s < 2 ^ 256" "find_recid lib k (r, s) hash [0, 1, 2, 3] = Some i"
    and sig: "vchSig = of_nat (i + 27 + (if fCompressedPubKey k then 4 else 0)) # rev (le_bytes 32 r) @ rev (le_bytes 32 s)"
    using assms by (auto simp: SignCompact_def split: option.split_asm if_split_asm)
  let ?e0 = "EC_KEY_new\<lparr> ec_compressed := fCompressedPubKey k \<rparr>"
  obtain e where i: "i < 4" and e: "ECDSA_SIG_recover_key_GFp lib ?e0 (r, s) (image256 hash) i True = (1, e)"
    "map_option (ec_i2o lib (ec_compressed e)) (ec_pub e) = Key_GetPubKey lib k"
    using find_recid_Some [OF rs(3)] by auto
  note e' = recover_unchecked [OF e(1)]
  have pub: "ec_pub e \<noteq> None"
    using e(1) by (auto simp: ECDSA_SIG_recover_key_GFp_def Let_def split: if_split_asm option.split_asm)
  have nV: "unat (vchSig ! 0) = i + 27 + (if fCompressedPubKey k then 4 else 0)" 
  proof -
    have "i + 27 + (if fCompressedPubKey k then 4 else 0) < 256" using i by simp
    then show ?thesis unfolding sig nth_Cons_0 unat_of_nat by simp
  qed
  have vals: "be_val (take 32 (drop 1 vchSig)) = r" "be_val (take 32 (drop 33 vchSig)) = s"
    using rs(1,2) by (simp_all add: sig be_val_rev_le_bytes)
  have len: "length vchSig = 65" by (simp add: sig)
  have set: "\<exists>key. SetCompactSignature lib hash vchSig x = (True, key) \<and> pkey key = e" for x
  proof (cases "fCompressedPubKey k")
    case True
    then show ?thesis using e' i nV vals len by (simp add: SetCompactSignature_def Let_def SetCompressedPubKey_def EC_KEY_new_def)
  next
    case False
    then have "?e0 = EC_KEY_new" by (simp add: EC_KEY_new_def)
    then show ?thesis using False e' i nV vals len by (simp add: SetCompactSignature_def Let_def)
  qed
  then have pk: "Key_GetPubKey lib key = Key_GetPubKey lib k" if "SetCompactSignature lib hash vchSig x = (True, key)" for x key
    using set [of x] that e(2) by (auto simp: Key_GetPubKey_def)
  obtain kv where kv: "SetCompactSignature lib hash vchSig Key_Reset = (True, kv)" using set [of Key_Reset] by blast
  obtain a where a: "Key_GetPubKey lib k = Some a" using e(2) [symmetric] pub by (cases "ec_pub e") auto
  have "VerifyCompact lib k hash vchSig = Some True" using kv pk [OF kv] a by (simp add: VerifyCompact_def)
  then show ?thesis using len a set [of key0] pk [of key0] by auto
qed

section \<open>A toy curve\<close>

text \<open>The point of a number is its encoding in 32 bytes; a signature is the point, or its number; recovering reads the number back.\<close>

definition demo_ec :: ec_openssl where
  "demo_ec = openssl.extend (demo_lib\<lparr> o2i_ECPublicKey := \<lambda>bs. length bs \<in> {33, 65}, ECDSA_verify := \<lambda>k h s. take 32 (drop 1 k) = s \<rparr>)
     \<lparr> ec_mul = \<lambda>n. Some (rev (le_bytes 32 n)),
       ec_i2o = \<lambda>c p. if c then 2 # take 32 (p @ replicate 32 0) else 4 # take 64 (p @ replicate 64 0),
       ec_o2i = \<lambda>bs. if length bs = 33 then Some (True, take 32 (drop 1 bs)) else if length bs = 65 then Some (False, take 32 (drop 1 bs)) else None,
       ec_sign = \<lambda>n h. Some (rev (le_bytes 32 n)), ec_do_sign = \<lambda>n h. Some (n, 0), ec_d2i = \<lambda>bs. None, ec_i2d = \<lambda>e. None,
       ec_order = 1, ec_field = 2 ^ 256, ec_degree = 256, ec_lift_x = \<lambda>x b. Some (rev (le_bytes 32 x)),
       ec_infinite = \<lambda>n p. True, ec_comb = \<lambda>a p b. Some p, bn_mod_inverse = \<lambda>a m. Some 0 \<rparr>"

lemma demo_ec_fields:
  "ec_mul demo_ec n = Some (rev (le_bytes 32 n))" "ec_i2o demo_ec c p = (if c then 2 # take 32 (p @ replicate 32 0) else 4 # take 64 (p @ replicate 64 0))"
  "ec_o2i demo_ec bs = (if length bs = 33 then Some (True, take 32 (drop 1 bs)) else if length bs = 65 then Some (False, take 32 (drop 1 bs)) else None)"
  "ec_sign demo_ec n h = Some (rev (le_bytes 32 n))" "ec_do_sign demo_ec n h = Some (n, 0)" "ec_order demo_ec = 1" "ec_field demo_ec = 2 ^ 256"
  "ec_degree demo_ec = 256" "ec_lift_x demo_ec x b = Some (rev (le_bytes 32 x))" "ec_infinite demo_ec n p" "ec_comb demo_ec a p m = Some p"
  "bn_mod_inverse demo_ec a m = Some 0" "o2i_ECPublicKey demo_ec bs = (length bs \<in> {33, 65})" "ECDSA_verify demo_ec k h sg = (take 32 (drop 1 k) = sg)"
  "Hash160 demo_ec bs = 32" "Hash demo_ec bs = 32"
  by (simp_all add: demo_ec_def openssl.extend_def demo_lib_def Hash160_def Hash_def)

lemma demo_ec_documented: "ec_documented demo_ec"
  by (auto simp: ec_documented_def demo_ec_fields)

theorem copied_key_not_valid_witness:
  "\<exists>k. Key_SetSecret demo_ec (replicate 32 7) True Key_Reset = Some k \<and> Key_IsValid demo_ec (Key_assign Key_Reset k) = Some False"
proof -
  obtain k where k: "Key_SetSecret demo_ec (replicate 32 7) True Key_Reset = Some k"
    by (simp add: Key_SetSecret_def EC_KEY_regenerate_key_def demo_ec_fields)
  then show ?thesis using copied_key_not_valid [OF demo_ec_documented k] by blast
qed

theorem compact_signature_names_signer_witness:
  "\<exists>k vchSig. Key_SetSecret demo_ec (replicate 32 7) True Key_Reset = Some k \<and> SignCompact demo_ec k 5 [] = Some (True, vchSig) \<and>
     VerifyCompact demo_ec k 5 vchSig = Some True"
proof -
  obtain k where k: "Key_SetSecret demo_ec (replicate 32 7) True Key_Reset = Some k"
    by (simp add: Key_SetSecret_def EC_KEY_regenerate_key_def demo_ec_fields)
  then have k': "k = \<lparr> pkey = \<lparr> ec_priv = Some (be_val (replicate 32 7)), ec_pub = Some (rev (le_bytes 32 (be_val (replicate 32 7)))), ec_compressed = True \<rparr>,
      fSet = True, fCompressedPubKey = True \<rparr>"
    by (auto elim!: Key_SetSecret_Some simp: demo_ec_fields)
  have n: "be_val (replicate 32 7) < 2 ^ 256" using be_val_less [of "replicate 32 7"] by simp
  have "find_recid demo_ec k (be_val (replicate 32 7), 0) 5 [0, 1, 2, 3] = Some 0"
    using n by (simp add: k' Let_def ECDSA_SIG_recover_key_GFp_def demo_ec_fields Key_GetPubKey_def SetCompressedPubKey_def Key_Reset_def EC_KEY_new_def)
  then obtain vchSig where "SignCompact demo_ec k 5 [] = Some (True, vchSig)" using n by (simp add: SignCompact_def k' demo_ec_fields)
  then show ?thesis using compact_signature_names_signer k by blast
qed

end
