(* ===== verification/KeyStore.thy ===== *)
theory KeyStore
  imports Keys
begin

text \<open>
  The key stores of \<^verbatim>\<open>src/src/keystore.h\<close> and \<^verbatim>\<open>src/src/keystore.cpp\<close>, plain and encrypted, over the encryption context of \<^verbatim>\<open>src/src/crypter.h\<close> and
  \<^verbatim>\<open>src/src/crypter.cpp\<close>. The locks are left out: every operation runs as a whole.
\<close>

section \<open>Encryption\<close>

text \<open>
  OpenSSL's AES-256-CBC with padding, under a key and an initialization vector, and the derivation of both from a pass phrase, a salt and
  a number of rounds.
\<close>

record crypt_openssl = ec_openssl +
  aes_encrypt :: "bytes \<Rightarrow> bytes \<Rightarrow> bytes \<Rightarrow> bytes option"
  aes_decrypt :: "bytes \<Rightarrow> bytes \<Rightarrow> bytes \<Rightarrow> bytes option"
  EVP_BytesToKey :: "bytes \<Rightarrow> bytes \<Rightarrow> uint32 \<Rightarrow> (bytes \<times> bytes) option"

definition WALLET_CRYPTO_KEY_SIZE :: nat where "WALLET_CRYPTO_KEY_SIZE = 32"
definition WALLET_CRYPTO_SALT_SIZE :: nat where "WALLET_CRYPTO_SALT_SIZE = 8"

record CCrypter =
  chKey :: bytes
  chIV :: bytes
  fKeySet :: bool

text \<open>The key and the vector of a new object are not initialized; they are not read before \<^verbatim>\<open>fKeySet\<close> is set.\<close>

definition CCrypter_new :: CCrypter where
  "CCrypter_new = \<lparr> chKey = replicate WALLET_CRYPTO_KEY_SIZE 0, chIV = replicate WALLET_CRYPTO_KEY_SIZE 0, fKeySet = False \<rparr>"

definition CleanKey :: "CCrypter \<Rightarrow> CCrypter" where
  "CleanKey c = c\<lparr> chKey := replicate WALLET_CRYPTO_KEY_SIZE 0, chIV := replicate WALLET_CRYPTO_KEY_SIZE 0, fKeySet := False \<rparr>"

definition SetKeyFromPassphrase ::
  "'a crypt_openssl_scheme \<Rightarrow> bytes \<Rightarrow> bytes \<Rightarrow> uint32 \<Rightarrow> uint32 \<Rightarrow> CCrypter \<Rightarrow> bool \<times> CCrypter" where
  "SetKeyFromPassphrase lib strKeyData chSalt nRounds nDerivationMethod c =
     (if nRounds < 1 \<or> length chSalt \<noteq> WALLET_CRYPTO_SALT_SIZE then (False, c)
      else case (if nDerivationMethod = 0 then EVP_BytesToKey lib chSalt strKeyData nRounds else None) of
        None \<Rightarrow> (False, c\<lparr> chKey := replicate WALLET_CRYPTO_KEY_SIZE 0, chIV := replicate WALLET_CRYPTO_KEY_SIZE 0 \<rparr>)
      | Some (key, iv) \<Rightarrow> (True, c\<lparr> chKey := key, chIV := iv, fKeySet := True \<rparr>))"

definition Crypter_SetKey :: "bytes \<Rightarrow> bytes \<Rightarrow> CCrypter \<Rightarrow> bool \<times> CCrypter" where
  "Crypter_SetKey chNewKey chNewIV c =
     (if length chNewKey \<noteq> WALLET_CRYPTO_KEY_SIZE \<or> length chNewIV \<noteq> WALLET_CRYPTO_KEY_SIZE then (False, c)
      else (True, c\<lparr> chKey := chNewKey, chIV := chNewIV, fKeySet := True \<rparr>))"

definition Crypter_Encrypt :: "'a crypt_openssl_scheme \<Rightarrow> CCrypter \<Rightarrow> bytes \<Rightarrow> bytes option" where
  "Crypter_Encrypt lib c vchPlaintext = (if \<not> fKeySet c then None else aes_encrypt lib (chKey c) (chIV c) vchPlaintext)"

definition Crypter_Decrypt :: "'a crypt_openssl_scheme \<Rightarrow> CCrypter \<Rightarrow> bytes \<Rightarrow> bytes option" where
  "Crypter_Decrypt lib c vchCiphertext = (if \<not> fKeySet c then None else aes_decrypt lib (chKey c) (chIV c) vchCiphertext)"

definition EncryptSecret :: "'a crypt_openssl_scheme \<Rightarrow> bytes \<Rightarrow> bytes \<Rightarrow> uint256 \<Rightarrow> bytes option" where
  "EncryptSecret lib vMasterKey vchPlaintext nIV =
     (case Crypter_SetKey vMasterKey (image256 nIV) CCrypter_new of
        (False, _) \<Rightarrow> None
      | (True, c) \<Rightarrow> Crypter_Encrypt lib c vchPlaintext)"

definition DecryptSecret :: "'a crypt_openssl_scheme \<Rightarrow> bytes \<Rightarrow> bytes \<Rightarrow> uint256 \<Rightarrow> bytes option" where
  "DecryptSecret lib vMasterKey vchCiphertext nIV =
     (case Crypter_SetKey vMasterKey (image256 nIV) CCrypter_new of
        (False, _) \<Rightarrow> None
      | (True, c) \<Rightarrow> Crypter_Decrypt lib c vchCiphertext)"

section \<open>Maps of addresses\<close>

text \<open>A \<^verbatim>\<open>std::map\<close> from addresses, in the order of \<^verbatim>\<open>CBase58Data::CompareTo\<close>.\<close>

type_synonym 'v addr_map = "(CBitcoinAddress \<times> 'v) list"

fun addr_insert :: "CBitcoinAddress \<Rightarrow> 'v \<Rightarrow> 'v addr_map \<Rightarrow> 'v addr_map" where
  "addr_insert a v [] = [(a, v)]"
| "addr_insert a v ((a', v') # m) =
     (if CompareTo a a' < 0 then (a, v) # (a', v') # m
      else if CompareTo a a' = 0 then (a, v) # m
      else (a', v') # addr_insert a v m)"

section \<open>The plain store\<close>

text \<open>How a lookup ends: with a value, without one, or with an exception.\<close>

datatype 'v got = Got 'v | Missing | Raised

record CBasicKeyStore =
  mapKeys :: "(bytes \<times> bool) addr_map"
  mapScripts :: "uint160 \<rightharpoonup> bytes"

definition Basic_AddKey :: "'a ec_openssl_scheme \<Rightarrow> bool \<Rightarrow> CKey \<Rightarrow> 'b CBasicKeyStore_scheme \<Rightarrow> 'b CBasicKeyStore_scheme option" where
  "Basic_AddKey lib fTestNet key s = do {
     secret \<leftarrow> Key_GetSecret key;
     pubKey \<leftarrow> Key_GetPubKey lib key;
     Some (s\<lparr> mapKeys := addr_insert (SetPubKey lib fTestNet pubKey) secret (mapKeys s) \<rparr>) }"

definition Basic_HaveKey :: "'b CBasicKeyStore_scheme \<Rightarrow> CBitcoinAddress \<Rightarrow> bool" where
  "Basic_HaveKey s address = (map_of (mapKeys s) address \<noteq> None)"

definition Basic_GetKeys :: "'b CBasicKeyStore_scheme \<Rightarrow> CBitcoinAddress set" where
  "Basic_GetKeys s = fst ` set (mapKeys s)"

definition Basic_GetKey :: "'a ec_openssl_scheme \<Rightarrow> 'b CBasicKeyStore_scheme \<Rightarrow> CBitcoinAddress \<Rightarrow> CKey got" where
  "Basic_GetKey lib s address =
     (case map_of (mapKeys s) address of
        None \<Rightarrow> Missing
      | Some (secret, fCompressed) \<Rightarrow>
          (case Key_SetSecret lib secret fCompressed Key_Reset of None \<Rightarrow> Raised | Some k \<Rightarrow> Got k))"

definition AddCScript :: "'a openssl_scheme \<Rightarrow> bytes \<Rightarrow> 'b CBasicKeyStore_scheme \<Rightarrow> 'b CBasicKeyStore_scheme" where
  "AddCScript lib redeemScript s = s\<lparr> mapScripts := (mapScripts s)(Hash160 lib redeemScript \<mapsto> redeemScript) \<rparr>"

definition HaveCScript :: "'b CBasicKeyStore_scheme \<Rightarrow> uint160 \<Rightarrow> bool" where
  "HaveCScript s hash = (mapScripts s hash \<noteq> None)"

definition GetCScript :: "'b CBasicKeyStore_scheme \<Rightarrow> uint160 \<Rightarrow> bytes option" where
  "GetCScript s hash = mapScripts s hash"

text \<open>\<^verbatim>\<open>GetPubKey\<close> and \<^verbatim>\<open>GetSecret\<close> of the base class, on a lookup.\<close>

definition CKeyStore_GetPubKey :: "'a ec_openssl_scheme \<Rightarrow> CKey got \<Rightarrow> bytes got" where
  "CKeyStore_GetPubKey lib g =
     (case g of Got key \<Rightarrow> (case Key_GetPubKey lib key of None \<Rightarrow> Raised | Some pk \<Rightarrow> Got pk) | Missing \<Rightarrow> Missing | Raised \<Rightarrow> Raised)"

definition CKeyStore_GetSecret :: "CKey got \<Rightarrow> (bytes \<times> bool) got" where
  "CKeyStore_GetSecret g =
     (case g of Got key \<Rightarrow> (case Key_GetSecret key of None \<Rightarrow> Raised | Some x \<Rightarrow> Got x) | Missing \<Rightarrow> Missing | Raised \<Rightarrow> Raised)"

section \<open>The encrypted store\<close>

record CCryptoKeyStore = CBasicKeyStore +
  mapCryptedKeys :: "(bytes \<times> bytes) addr_map"
  vMasterKey :: bytes
  fUseCrypto :: bool

definition CCryptoKeyStore_new :: CCryptoKeyStore where
  "CCryptoKeyStore_new = \<lparr> mapKeys = [], mapScripts = Map.empty, mapCryptedKeys = [], vMasterKey = [], fUseCrypto = False \<rparr>"

definition IsCrypted :: "CCryptoKeyStore \<Rightarrow> bool" where
  "IsCrypted s = fUseCrypto s"

definition IsLocked :: "CCryptoKeyStore \<Rightarrow> bool" where
  "IsLocked s = (if \<not> IsCrypted s then False else vMasterKey s = [])"

definition SetCrypted :: "CCryptoKeyStore \<Rightarrow> bool \<times> CCryptoKeyStore" where
  "SetCrypted s =
     (if fUseCrypto s then (True, s) else if mapKeys s \<noteq> [] then (False, s) else (True, s\<lparr> fUseCrypto := True \<rparr>))"

definition Lock :: "CCryptoKeyStore \<Rightarrow> bool \<times> CCryptoKeyStore" where
  "Lock s = (case SetCrypted s of (False, s) \<Rightarrow> (False, s) | (True, s) \<Rightarrow> (True, s\<lparr> vMasterKey := [] \<rparr>))"

text \<open>
  The master key is tried on the first of the keys only. \<^verbatim>\<open>SetPubKey\<close> on the key object may fail; its answer is not looked at.
\<close>

definition Unlock :: "'a crypt_openssl_scheme \<Rightarrow> bytes \<Rightarrow> CCryptoKeyStore \<Rightarrow> bool got \<times> CCryptoKeyStore" where
  "Unlock lib vMasterKeyIn s =
     (case SetCrypted s of
        (False, s) \<Rightarrow> (Got False, s)
      | (True, s) \<Rightarrow>
          let ok = s\<lparr> vMasterKey := vMasterKeyIn \<rparr> in
          (case mapCryptedKeys s of
             [] \<Rightarrow> (Got True, ok)
           | (_, vchPubKey, vchCryptedSecret) # _ \<Rightarrow>
               (case DecryptSecret lib vMasterKeyIn vchCryptedSecret (Hash lib vchPubKey) of
                  None \<Rightarrow> (Got False, s)
                | Some vchSecret \<Rightarrow>
                    if length vchSecret \<noteq> 32 then (Got False, s)
                    else case Key_SetSecret lib vchSecret False (snd (Key_SetPubKey lib vchPubKey Key_Reset)) of
                      None \<Rightarrow> (Raised, s)
                    | Some key \<Rightarrow> if Key_GetPubKey lib key = Some vchPubKey then (Got True, ok) else (Got False, s))))"

definition AddCryptedKey ::
  "'a openssl_scheme \<Rightarrow> bool \<Rightarrow> bytes \<Rightarrow> bytes \<Rightarrow> CCryptoKeyStore \<Rightarrow> bool \<times> CCryptoKeyStore" where
  "AddCryptedKey lib fTestNet vchPubKey vchCryptedSecret s =
     (case SetCrypted s of
        (False, s) \<Rightarrow> (False, s)
      | (True, s) \<Rightarrow> (True, s\<lparr> mapCryptedKeys := addr_insert (SetPubKey lib fTestNet vchPubKey) (vchPubKey, vchCryptedSecret) (mapCryptedKeys s) \<rparr>))"

definition Crypto_AddKey :: "'a crypt_openssl_scheme \<Rightarrow> bool \<Rightarrow> CKey \<Rightarrow> CCryptoKeyStore \<Rightarrow> bool got \<times> CCryptoKeyStore" where
  "Crypto_AddKey lib fTestNet key s =
     (if \<not> IsCrypted s then (case Basic_AddKey lib fTestNet key s of None \<Rightarrow> (Raised, s) | Some s \<Rightarrow> (Got True, s))
      else if IsLocked s then (Got False, s)
      else case (Key_GetPubKey lib key, Key_GetSecret key) of
        (Some vchPubKey, Some (secret, _)) \<Rightarrow>
          (case EncryptSecret lib (vMasterKey s) secret (Hash lib vchPubKey) of
             None \<Rightarrow> (Got False, s)
           | Some c \<Rightarrow> (case AddCryptedKey lib fTestNet vchPubKey c s of (b, s) \<Rightarrow> (Got b, s)))
      | _ \<Rightarrow> (Raised, s))"

definition Crypto_HaveKey :: "CCryptoKeyStore \<Rightarrow> CBitcoinAddress \<Rightarrow> bool" where
  "Crypto_HaveKey s address = (if \<not> IsCrypted s then Basic_HaveKey s address else map_of (mapCryptedKeys s) address \<noteq> None)"

text \<open>The key object that is filled in is reset by the plain store only.\<close>

definition Crypto_GetKey :: "'a crypt_openssl_scheme \<Rightarrow> CCryptoKeyStore \<Rightarrow> CKey \<Rightarrow> CBitcoinAddress \<Rightarrow> CKey got" where
  "Crypto_GetKey lib s keyOut address =
     (if \<not> IsCrypted s then Basic_GetKey lib s address
      else case map_of (mapCryptedKeys s) address of
        None \<Rightarrow> Missing
      | Some (vchPubKey, vchCryptedSecret) \<Rightarrow>
          (case DecryptSecret lib (vMasterKey s) vchCryptedSecret (Hash lib vchPubKey) of
             None \<Rightarrow> Missing
           | Some vchSecret \<Rightarrow>
               if length vchSecret \<noteq> 32 then Missing
               else case Key_SetSecret lib vchSecret False (snd (Key_SetPubKey lib vchPubKey keyOut)) of None \<Rightarrow> Raised | Some k \<Rightarrow> Got k))"

definition Crypto_GetPubKey :: "'a crypt_openssl_scheme \<Rightarrow> CCryptoKeyStore \<Rightarrow> CBitcoinAddress \<Rightarrow> bytes got" where
  "Crypto_GetPubKey lib s address =
     (if \<not> IsCrypted s then CKeyStore_GetPubKey lib (Basic_GetKey lib s address)
      else case map_of (mapCryptedKeys s) address of None \<Rightarrow> Missing | Some (vchPubKey, _) \<Rightarrow> Got vchPubKey)"

definition Crypto_GetKeys :: "CCryptoKeyStore \<Rightarrow> CBitcoinAddress set" where
  "Crypto_GetKeys s = (if \<not> IsCrypted s then Basic_GetKeys s else fst ` set (mapCryptedKeys s))"

text \<open>The loop of \<^verbatim>\<open>EncryptKeys\<close>; an exception or a failure leaves the keys done so far encrypted.\<close>

fun encrypt_loop ::
  "'a crypt_openssl_scheme \<Rightarrow> bool \<Rightarrow> bytes \<Rightarrow> (bytes \<times> bool) addr_map \<Rightarrow> CCryptoKeyStore \<Rightarrow> bool got \<times> CCryptoKeyStore" where
  "encrypt_loop lib fTestNet master [] s = (Got True, s)"
| "encrypt_loop lib fTestNet master ((_, secret, fCompressed) # ks) s =
     (case Key_SetSecret lib secret fCompressed Key_Reset of
        None \<Rightarrow> (Raised, s)
      | Some key \<Rightarrow>
          (case (Key_GetPubKey lib key, Key_GetSecret key) of
             (Some vchPubKey, Some (secret, _)) \<Rightarrow>
               (case EncryptSecret lib master secret (Hash lib vchPubKey) of
                  None \<Rightarrow> (Got False, s)
                | Some c \<Rightarrow>
                    (case AddCryptedKey lib fTestNet vchPubKey c s of
                       (False, s) \<Rightarrow> (Got False, s)
                     | (True, s) \<Rightarrow> encrypt_loop lib fTestNet master ks s))
           | _ \<Rightarrow> (Raised, s)))"

definition EncryptKeys :: "'a crypt_openssl_scheme \<Rightarrow> bool \<Rightarrow> bytes \<Rightarrow> CCryptoKeyStore \<Rightarrow> bool got \<times> CCryptoKeyStore" where
  "EncryptKeys lib fTestNet vMasterKeyIn s =
     (if mapCryptedKeys s \<noteq> [] \<or> IsCrypted s then (Got False, s)
      else case encrypt_loop lib fTestNet vMasterKeyIn (mapKeys s) (s\<lparr> fUseCrypto := True \<rparr>) of
        (Got True, s) \<Rightarrow> (Got True, s\<lparr> mapKeys := [] \<rparr>)
      | r \<Rightarrow> r)"

section \<open>Ordered maps\<close>

lemma map_of_addr_insert: "map_of (addr_insert a v m) = (map_of m)(a \<mapsto> v)"
  by (induction m) (auto simp: CompareTo_0 fun_eq_iff)

lemma addr_insert_not_empty [simp]: "addr_insert a v m \<noteq> []"
  by (cases m) (auto split: if_split_asm)

lemma set_addr_insert: "set (addr_insert a v m) \<subseteq> insert (a, v) (set m)"
  by (induction m) (auto split: if_split_asm)

lemma vch_less_trans: "vch_less a b \<Longrightarrow> vch_less b c \<Longrightarrow> vch_less a c"
proof (induction a b arbitrary: c rule: vch_less.induct)
  case (4 x xs y ys)
  then show ?case by (cases c) (auto split: if_split_asm)
next
  case (2 y ys)
  then show ?case by (cases c) auto
qed simp_all

lemma CompareTo_less:
  "CompareTo a b < 0 \<longleftrightarrow> nVersion a < nVersion b \<or> nVersion a = nVersion b \<and> vch_less (vchData a) (vchData b)"
  by (auto simp: CompareTo_def)

lemma CompareTo_trans: "CompareTo a b < 0 \<Longrightarrow> CompareTo b c < 0 \<Longrightarrow> CompareTo a c < 0"
  unfolding CompareTo_less by (elim disjE conjE) (auto intro: vch_less_trans order.strict_trans)

lemma CompareTo_flip: "CompareTo b a < 0 \<longleftrightarrow> CompareTo a b > 0"
  using vch_less_trans [of "vchData a" "vchData b" "vchData a"] vch_less_irrefl by (auto simp: CompareTo_def)

definition addr_sorted :: "'v addr_map \<Rightarrow> bool" where
  "addr_sorted m = sorted_wrt (\<lambda>x y. CompareTo (fst x) (fst y) < 0) m"

lemma addr_sorted_small [simp]: "addr_sorted []" "addr_sorted [e]"
  by (simp_all add: addr_sorted_def)

lemma addr_sorted_insert:
  assumes "addr_sorted m"
  shows "addr_sorted (addr_insert a v m)"
  using assms
proof (induction m)
  case (Cons e m)
  obtain a' v' where e: "e = (a', v')" by fastforce
  have tl: "addr_sorted m" and hd: "\<forall>y\<in>set m. CompareTo a' (fst y) < 0" using Cons.prems by (auto simp: addr_sorted_def e)
  consider "CompareTo a a' < 0" | "a = a'" | "CompareTo a' a < 0" using CompareTo_0 [of a a'] CompareTo_flip [of a' a] by force
  then show ?case
  proof cases
    case 1
    then show ?thesis using Cons.prems hd CompareTo_trans by (auto simp: addr_sorted_def e)
  next
    case 2
    then show ?thesis using tl hd CompareTo_0 [of a' a'] by (auto simp: addr_sorted_def e)
  next
    case 3
    then have "\<not> CompareTo a a' < 0" "CompareTo a a' \<noteq> 0" using CompareTo_flip [of a' a] CompareTo_0 [of a a'] CompareTo_0 [of a' a] by auto
    then show ?thesis using Cons.IH [OF tl] hd 3 set_addr_insert [of a v m] by (auto simp: addr_sorted_def e)
  qed
qed (simp add: addr_sorted_def)

lemma addr_sorted_distinct: "addr_sorted m \<Longrightarrow> distinct (map fst m)"
proof (induction m)
  case (Cons e m)
  have "fst e \<notin> fst ` set m" using Cons.prems CompareTo_0 [of "fst e" "fst e"] by (fastforce simp: addr_sorted_def)
  then show ?case using Cons by (simp add: addr_sorted_def)
qed simp

section \<open>What a key store promises\<close>

text \<open>A key whose parts belong together: the point is that of the private number, and the flag says how it is encoded.\<close>

definition key_ok :: "'a ec_openssl_scheme \<Rightarrow> CKey \<Rightarrow> bool" where
  "key_ok lib k \<longleftrightarrow> (\<exists>n p. ec_priv (pkey k) = Some n \<and> n < 256 ^ 32 \<and> ec_mul lib n = Some p \<and> ec_pub (pkey k) = Some p \<and>
     ec_compressed (pkey k) = fCompressedPubKey k \<and> fSet k)"

lemma key_ok_SetSecret: "Key_SetSecret lib sec c k = Some k' \<Longrightarrow> key_ok lib k'"
proof (erule Key_SetSecret_Some)
  fix p
  assume p: "length sec = 32" "ec_mul lib (be_val sec) = Some p"
    "k' = \<lparr> pkey = \<lparr> ec_priv = Some (be_val sec), ec_pub = Some p, ec_compressed = (c \<or> fCompressedPubKey k) \<rparr>, fSet = True,
       fCompressedPubKey = (c \<or> fCompressedPubKey k) \<rparr>"
  then show "key_ok lib k'" using be_val_less [of sec] by (simp add: key_ok_def)
qed

text \<open>
  The interface \<^verbatim>\<open>CKeyStore\<close>: on the states that are \<open>ok\<close>, a key that is handed out is one the store has, is whole, and its
  public key is the one the store reports and hashes to the address asked for.
\<close>

locale key_store =
  fixes lib :: "'a crypt_openssl_scheme" and fTestNet :: bool and ok :: "'s \<Rightarrow> bool"
    and HaveKey :: "'s \<Rightarrow> CBitcoinAddress \<Rightarrow> bool" and GetKey :: "'s \<Rightarrow> CBitcoinAddress \<Rightarrow> CKey got"
    and GetPubKey :: "'s \<Rightarrow> CBitcoinAddress \<Rightarrow> bytes got"
  assumes documented: "ok s \<Longrightarrow> ec_documented lib"
    and got_have: "ok s \<Longrightarrow> GetKey s a = Got k \<Longrightarrow> HaveKey s a"
    and got_whole: "ok s \<Longrightarrow> GetKey s a = Got k \<Longrightarrow> key_ok lib k"
    and got_pub: "ok s \<Longrightarrow> GetKey s a = Got k \<Longrightarrow> \<exists>pk. Key_GetPubKey lib k = Some pk \<and> GetPubKey s a = Got pk \<and> a = SetPubKey lib fTestNet pk"
begin

text \<open>A signature made with a key of the store verifies under the public key that the store reports.\<close>

lemma signature_verifies:
  assumes "ok s" and "GetKey s a = Got k" and "Key_Sign lib k h = Some sig"
  obtains pk where "GetPubKey s a = Got pk" and "a = SetPubKey lib fTestNet pk" and "o2i_ECPublicKey lib pk" and "ECDSA_verify lib pk h sig"
    and "length pk = 33 \<or> length pk = 65"
proof -
  obtain pk where pk: "Key_GetPubKey lib k = Some pk" "GetPubKey s a = Got pk" "a = SetPubKey lib fTestNet pk" using got_pub [OF assms(1,2)] by blast
  obtain n p where n: "ec_priv (pkey k) = Some n" "ec_mul lib n = Some p" "ec_pub (pkey k) = Some p" using got_whole [OF assms(1,2)] by (auto simp: key_ok_def)
  have e: "pk = ec_i2o lib (ec_compressed (pkey k)) p" using pk(1) n(3) by (simp add: Key_GetPubKey_def)
  have "ec_sign lib n h = Some sig" using assms(3) n(1) by (simp add: Key_Sign_def)
  then have "ECDSA_verify lib pk h sig" "o2i_ECPublicKey lib pk" "length pk = 33 \<or> length pk = 65"
    using ec_documentedD [OF documented [OF assms(1)]] n(2) e by auto
  then show thesis using that pk by blast
qed

end

section \<open>The plain store keeps it\<close>

definition entry_ok :: "'a ec_openssl_scheme \<Rightarrow> bool \<Rightarrow> CBitcoinAddress \<times> bytes \<times> bool \<Rightarrow> bool" where
  "entry_ok lib fTestNet e \<longleftrightarrow> length (fst (snd e)) = 32 \<and>
     (\<exists>p. ec_mul lib (be_val (fst (snd e))) = Some p \<and> fst e = SetPubKey lib fTestNet (ec_i2o lib (snd (snd e)) p))"

definition basic_ok :: "'a ec_openssl_scheme \<Rightarrow> bool \<Rightarrow> 'b CBasicKeyStore_scheme \<Rightarrow> bool" where
  "basic_ok lib fTestNet s \<longleftrightarrow> ec_documented lib \<and> addr_sorted (mapKeys s) \<and> (\<forall>e\<in>set (mapKeys s). entry_ok lib fTestNet e)"

lemma basic_GetKey_Got:
  assumes "basic_ok lib t s" and "map_of (mapKeys s) a = Some (sec, c)"
  obtains p k where "ec_mul lib (be_val sec) = Some p" and "length sec = 32" and "a = SetPubKey lib t (ec_i2o lib c p)"
    and "Basic_GetKey lib s a = Got k" and "Key_SetSecret lib sec c Key_Reset = Some k"
    and "Key_GetPubKey lib k = Some (ec_i2o lib c p)"
proof -
  have "entry_ok lib t (a, sec, c)" using assms by (auto simp: basic_ok_def dest: map_of_SomeD)
  then obtain p where p: "ec_mul lib (be_val sec) = Some p" "length sec = 32" "a = SetPubKey lib t (ec_i2o lib c p)" by (auto simp: entry_ok_def)
  then obtain k where k: "Key_SetSecret lib sec c Key_Reset = Some k" by (simp add: Key_SetSecret_def EC_KEY_regenerate_key_def Let_def)
  then have "Key_GetPubKey lib k = Some (ec_i2o lib c p)"
    using p(1) by (auto elim!: Key_SetSecret_Some simp: Key_GetPubKey_def Key_Reset_def)
  then show thesis using that p k assms(2) by (simp add: Basic_GetKey_def)
qed

interpretation basic: key_store lib fTestNet "basic_ok lib fTestNet" Basic_HaveKey "Basic_GetKey lib"
  "\<lambda>s a. CKeyStore_GetPubKey lib (Basic_GetKey lib s a)" for lib fTestNet
proof
  fix s a k
  assume ok: "basic_ok lib fTestNet s"
  then show "ec_documented lib" by (simp add: basic_ok_def)
  assume got: "Basic_GetKey lib s a = Got k"
  then obtain sec c where m: "map_of (mapKeys s) a = Some (sec, c)" by (auto simp: Basic_GetKey_def split: option.split_asm)
  then show "Basic_HaveKey s a" by (simp add: Basic_HaveKey_def)
  obtain p k' where p: "Basic_GetKey lib s a = Got k'" "Key_SetSecret lib sec c Key_Reset = Some k'" "a = SetPubKey lib fTestNet (ec_i2o lib c p)"
    "Key_GetPubKey lib k' = Some (ec_i2o lib c p)" using basic_GetKey_Got [OF ok m] by metis
  then have k: "k' = k" using got by simp
  show "key_ok lib k" using key_ok_SetSecret [OF p(2)] k by simp
  show "\<exists>pk. Key_GetPubKey lib k = Some pk \<and> CKeyStore_GetPubKey lib (Basic_GetKey lib s a) = Got pk \<and> a = SetPubKey lib fTestNet pk"
    using p k by (simp add: CKeyStore_GetPubKey_def)
qed

text \<open>Adding a whole key keeps the store in order, and the key is found again under its address.\<close>

lemma Basic_AddKey_ok:
  assumes "basic_ok lib t s" and "key_ok lib k"
  obtains s' pk sec where "Basic_AddKey lib t k s = Some s'" and "basic_ok lib t s'" and "Key_GetPubKey lib k = Some pk"
    and "Key_GetSecret k = Some (sec, fCompressedPubKey k)" and "mapKeys s' = addr_insert (SetPubKey lib t pk) (sec, fCompressedPubKey k) (mapKeys s)"
proof -
  obtain n p where n: "ec_priv (pkey k) = Some n" "n < 256 ^ 32" "ec_mul lib n = Some p" "ec_pub (pkey k) = Some p" "ec_compressed (pkey k) = fCompressedPubKey k"
    using assms(2) by (auto simp: key_ok_def)
  let ?sec = "rev (le_bytes 32 n)" and ?pk = "ec_i2o lib (fCompressedPubKey k) p"
  have g: "Key_GetSecret k = Some (?sec, fCompressedPubKey k)" "Key_GetPubKey lib k = Some ?pk"
    using n by (simp_all add: Key_GetSecret_def Key_GetPubKey_def)
  let ?s = "s\<lparr> mapKeys := addr_insert (SetPubKey lib t ?pk) (?sec, fCompressedPubKey k) (mapKeys s) \<rparr>"
  have "entry_ok lib t (SetPubKey lib t ?pk, ?sec, fCompressedPubKey k)" using n by (auto simp: entry_ok_def be_val_rev_le_bytes)
  then have "basic_ok lib t ?s"
    using assms(1) addr_sorted_insert set_addr_insert [of "SetPubKey lib t ?pk" "(?sec, fCompressedPubKey k)" "mapKeys s"]
    by (auto simp: basic_ok_def)
  then show thesis using that g by (simp add: Basic_AddKey_def)
qed

section \<open>The encrypted store keeps it\<close>

text \<open>Decrypting undoes encrypting.\<close>

definition crypt_documented :: "'a crypt_openssl_scheme \<Rightarrow> bool" where
  "crypt_documented lib \<longleftrightarrow> (\<forall>k iv p c. aes_encrypt lib k iv p = Some c \<longrightarrow> aes_decrypt lib k iv c = Some p)"

lemma DecryptSecret_EncryptSecret: "crypt_documented lib \<Longrightarrow> EncryptSecret lib M p iv = Some c \<Longrightarrow> DecryptSecret lib M c iv = Some p"
  by (auto simp: crypt_documented_def EncryptSecret_def DecryptSecret_def Crypter_SetKey_def Crypter_Encrypt_def Crypter_Decrypt_def split: if_split_asm)

lemma DecryptSecret_locked [simp]: "DecryptSecret lib [] c iv = None"
  by (simp add: DecryptSecret_def Crypter_SetKey_def WALLET_CRYPTO_KEY_SIZE_def)

text \<open>An entry holds the secret of its public key, encrypted under the master key \<open>M\<close> of the store.\<close>

definition crypted_ok :: "'a crypt_openssl_scheme \<Rightarrow> bool \<Rightarrow> bytes \<Rightarrow> CBitcoinAddress \<times> bytes \<times> bytes \<Rightarrow> bool" where
  "crypted_ok lib fTestNet M e \<longleftrightarrow> fst e = SetPubKey lib fTestNet (fst (snd e)) \<and>
     (\<exists>sec c p. length sec = 32 \<and> ec_mul lib (be_val sec) = Some p \<and> fst (snd e) = ec_i2o lib c p \<and>
        EncryptSecret lib M sec (Hash lib (fst (snd e))) = Some (snd (snd e)))"

definition crypto_ok :: "'a crypt_openssl_scheme \<Rightarrow> bool \<Rightarrow> bytes \<Rightarrow> CCryptoKeyStore \<Rightarrow> bool" where
  "crypto_ok lib fTestNet M s \<longleftrightarrow> crypt_documented lib \<and> basic_ok lib fTestNet s \<and> addr_sorted (mapCryptedKeys s) \<and>
     (\<forall>e\<in>set (mapCryptedKeys s). crypted_ok lib fTestNet M e) \<and> vMasterKey s \<in> {[], M} \<and>
     (fUseCrypto s \<longrightarrow> mapKeys s = []) \<and> (\<not> fUseCrypto s \<longrightarrow> vMasterKey s = [] \<and> mapCryptedKeys s = [])"

lemma SetSecret_after_SetPubKey:
  assumes "ec_documented lib" and "length sec = 32" and "ec_mul lib (be_val sec) = Some p"
  shows "Key_SetSecret lib sec False (snd (Key_SetPubKey lib (ec_i2o lib c p) Key_Reset)) = Key_SetSecret lib sec c Key_Reset"
  using assms(2,3) ec_documentedD(1,2) [OF assms(1)]
  by (simp add: Key_SetPubKey_def Key_SetSecret_def EC_KEY_regenerate_key_def SetCompressedPubKey_def Key_Reset_def EC_KEY_new_def Let_def)

lemma crypted_entry:
  assumes "crypto_ok lib t M s" and "map_of (mapCryptedKeys s) a = Some (pub, ct)"
  obtains sec c p k where "length sec = 32" and "ec_mul lib (be_val sec) = Some p" and "pub = ec_i2o lib c p" and "a = SetPubKey lib t pub"
    and "EncryptSecret lib M sec (Hash lib pub) = Some ct" and "Key_SetSecret lib sec c Key_Reset = Some k" and "Key_GetPubKey lib k = Some pub"
proof -
  have "crypted_ok lib t M (a, pub, ct)" using assms by (auto simp: crypto_ok_def dest: map_of_SomeD)
  then obtain sec c p where e: "length sec = 32" "ec_mul lib (be_val sec) = Some p" "pub = ec_i2o lib c p" "a = SetPubKey lib t pub"
    "EncryptSecret lib M sec (Hash lib pub) = Some ct" by (auto simp: crypted_ok_def)
  then obtain k where k: "Key_SetSecret lib sec c Key_Reset = Some k" by (simp add: Key_SetSecret_def EC_KEY_regenerate_key_def Let_def)
  then have "Key_GetPubKey lib k = Some pub" using e(2,3) by (auto elim!: Key_SetSecret_Some simp: Key_GetPubKey_def Key_Reset_def)
  then show thesis using that e k by blast
qed

lemma Crypto_GetKey_crypted:
  assumes "crypto_ok lib t M s" and "fUseCrypto s" and "map_of (mapCryptedKeys s) a = Some (pub, ct)"
    and "length sec = 32" and "ec_mul lib (be_val sec) = Some p" and "pub = ec_i2o lib c p" and "EncryptSecret lib M sec (Hash lib pub) = Some ct"
  shows "Crypto_GetKey lib s Key_Reset a = (if vMasterKey s = M then case Key_SetSecret lib sec c Key_Reset of None \<Rightarrow> Raised | Some k \<Rightarrow> Got k else Missing)"
proof (cases "vMasterKey s = M")
  case True
  have d: "DecryptSecret lib M ct (Hash lib pub) = Some sec" using DecryptSecret_EncryptSecret [OF _ assms(7)] assms(1) by (simp add: crypto_ok_def)
  have "ec_documented lib" using assms(1) by (simp add: crypto_ok_def basic_ok_def)
  note k = SetSecret_after_SetPubKey [OF this assms(4,5), of c]
  show ?thesis using assms(2,3,4) True d k by (simp add: Crypto_GetKey_def IsCrypted_def assms(6))
next
  case False
  then have "vMasterKey s = []" using assms(1) by (simp add: crypto_ok_def)
  then show ?thesis using assms(2,3) False by (simp add: Crypto_GetKey_def IsCrypted_def)
qed

interpretation crypto: key_store lib fTestNet "crypto_ok lib fTestNet M" Crypto_HaveKey "\<lambda>s. Crypto_GetKey lib s Key_Reset" "Crypto_GetPubKey lib"
  for lib fTestNet M
proof
  fix s a k
  assume ok: "crypto_ok lib fTestNet M s"
  then have b: "basic_ok lib fTestNet s" by (simp add: crypto_ok_def)
  then show "ec_documented lib" by (simp add: basic_ok_def)
  assume got: "Crypto_GetKey lib s Key_Reset a = Got k"
  show "Crypto_HaveKey s a"
    using got by (auto simp: Crypto_GetKey_def Crypto_HaveKey_def Basic_GetKey_def Basic_HaveKey_def split: if_split_asm option.split_asm)
  have "key_ok lib k \<and> (\<exists>pk. Key_GetPubKey lib k = Some pk \<and> Crypto_GetPubKey lib s a = Got pk \<and> a = SetPubKey lib fTestNet pk)"
  proof (cases "fUseCrypto s")
    case False
    then have g: "Basic_GetKey lib s a = Got k" using got by (simp add: Crypto_GetKey_def IsCrypted_def)
    then show ?thesis using basic.got_whole [OF b g] basic.got_pub [OF b g] False by (simp add: Crypto_GetPubKey_def IsCrypted_def)
  next
    case True
    then obtain pub ct where m: "map_of (mapCryptedKeys s) a = Some (pub, ct)"
      using got by (auto simp: Crypto_GetKey_def IsCrypted_def split: option.split_asm)
    obtain sec c p k' where e: "length sec = 32" "ec_mul lib (be_val sec) = Some p" "pub = ec_i2o lib c p" "a = SetPubKey lib fTestNet pub"
      "EncryptSecret lib M sec (Hash lib pub) = Some ct" "Key_SetSecret lib sec c Key_Reset = Some k'" "Key_GetPubKey lib k' = Some pub"
      by (rule crypted_entry [OF ok m])
    then have "k = k'" using Crypto_GetKey_crypted [OF ok True m e(1,2,3,5)] got by (simp split: if_split_asm)
    then show ?thesis using e key_ok_SetSecret [OF e(6)] m True by (simp add: Crypto_GetPubKey_def IsCrypted_def)
  qed
  then show "key_ok lib k" "\<exists>pk. Key_GetPubKey lib k = Some pk \<and> Crypto_GetPubKey lib s a = Got pk \<and> a = SetPubKey lib fTestNet pk" by blast+
qed

section \<open>Encrypting, locking and unlocking\<close>

text \<open>The entry that \<^verbatim>\<open>EncryptKeys\<close> makes of a plain one.\<close>

definition encrypted_entry :: "'a crypt_openssl_scheme \<Rightarrow> bytes \<Rightarrow> bytes \<times> bool \<Rightarrow> bytes \<times> bytes \<Rightarrow> bool" where
  "encrypted_entry lib M x y \<longleftrightarrow> (\<exists>p. ec_mul lib (be_val (fst x)) = Some p \<and> fst y = ec_i2o lib (snd x) p \<and>
     EncryptSecret lib M (fst x) (Hash lib (fst y)) = Some (snd y))"

lemma encrypt_loop_Got:
  assumes "encrypt_loop lib t M ks s = (Got True, s')" and "fUseCrypto s" and "\<forall>e\<in>set ks. entry_ok lib t e" and "distinct (map fst ks)"
    and "addr_sorted (mapCryptedKeys s)"
  shows "s' = s\<lparr> mapCryptedKeys := mapCryptedKeys s' \<rparr> \<and> addr_sorted (mapCryptedKeys s') \<and>
    (\<forall>a. map_of ks a = None \<longrightarrow> map_of (mapCryptedKeys s') a = map_of (mapCryptedKeys s) a) \<and>
    (\<forall>a x. map_of ks a = Some x \<longrightarrow> (\<exists>y. map_of (mapCryptedKeys s') a = Some y \<and> encrypted_entry lib M x y))"
  using assms
proof (induction ks arbitrary: s)
  case (Cons e ks)
  obtain a sec c where e: "e = (a, sec, c)" by (cases e)
  obtain p where p: "length sec = 32" "ec_mul lib (be_val sec) = Some p" "a = SetPubKey lib t (ec_i2o lib c p)"
    using Cons.prems(3) by (auto simp: e entry_ok_def)
  obtain k where k: "Key_SetSecret lib sec c Key_Reset = Some k" using p by (simp add: Key_SetSecret_def EC_KEY_regenerate_key_def Let_def)
  have pk: "Key_GetPubKey lib k = Some (ec_i2o lib c p)" using k p(2) by (auto elim!: Key_SetSecret_Some simp: Key_GetPubKey_def Key_Reset_def)
  have sc: "Key_GetSecret k = Some (sec, c)" using GetSecret_SetSecret [OF k] by (simp add: Key_Reset_def)
  obtain ct where ct: "EncryptSecret lib M sec (Hash lib (ec_i2o lib c p)) = Some ct"
    using Cons.prems(1) k pk sc by (auto simp: e split: option.split_asm)
  let ?s = "s\<lparr> mapCryptedKeys := addr_insert a (ec_i2o lib c p, ct) (mapCryptedKeys s) \<rparr>"
  have loop: "encrypt_loop lib t M ks ?s = (Got True, s')"
    using Cons.prems(1,2) k pk sc ct p(3) by (simp add: e AddCryptedKey_def SetCrypted_def)
  have pre: "fUseCrypto ?s" "\<forall>e\<in>set ks. entry_ok lib t e" "distinct (map fst ks)" "addr_sorted (mapCryptedKeys ?s)"
    using Cons.prems(2-5) addr_sorted_insert by (simp_all add: e)
  note IH = Cons.IH [OF loop pre]
  have IH': "s' = ?s\<lparr> mapCryptedKeys := mapCryptedKeys s' \<rparr>" "addr_sorted (mapCryptedKeys s')"
    "\<And>b. map_of ks b = None \<Longrightarrow> map_of (mapCryptedKeys s') b = ((map_of (mapCryptedKeys s))(a \<mapsto> (ec_i2o lib c p, ct))) b"
    "\<And>b x. map_of ks b = Some x \<Longrightarrow> \<exists>y. map_of (mapCryptedKeys s') b = Some y \<and> encrypted_entry lib M x y"
    using IH by (simp, blast, simp add: map_of_addr_insert, blast)
  have na: "map_of ks a = None" using Cons.prems(4) by (simp add: e map_of_eq_None_iff)
  have "map_of (mapCryptedKeys s') b = map_of (mapCryptedKeys s) b" if "map_of (e # ks) b = None" for b
    using IH'(3) [of b] that by (auto simp: e split: if_split_asm)
  moreover have "\<exists>y. map_of (mapCryptedKeys s') b = Some y \<and> encrypted_entry lib M x y" if "map_of (e # ks) b = Some x" for b x
    using IH'(3) [of a] IH'(4) [of b x] that na p(2) ct by (auto simp: e encrypted_entry_def split: if_split_asm)
  moreover have "s' = s\<lparr> mapCryptedKeys := mapCryptedKeys s' \<rparr>" using IH'(1) by simp
  ultimately show ?case using IH'(2) by blast
qed simp

lemma EncryptKeys_Got:
  assumes "crypto_ok lib t M s" and "EncryptKeys lib t M s = (Got True, s')"
  shows "\<not> fUseCrypto s \<and> fUseCrypto s' \<and> mapKeys s' = [] \<and> vMasterKey s' = [] \<and> mapScripts s' = mapScripts s \<and> crypto_ok lib t M s' \<and>
    (\<forall>a. map_of (mapKeys s) a = None \<longrightarrow> map_of (mapCryptedKeys s') a = None) \<and>
    (\<forall>a x. map_of (mapKeys s) a = Some x \<longrightarrow> (\<exists>y. map_of (mapCryptedKeys s') a = Some y \<and> encrypted_entry lib M x y))"
proof -
  have plain: "\<not> fUseCrypto s" using assms(2) by (simp add: EncryptKeys_def IsCrypted_def split: if_split_asm)
  note ok = assms(1) [unfolded crypto_ok_def basic_ok_def]
  obtain s1 where loop: "encrypt_loop lib t M (mapKeys s) (s\<lparr> fUseCrypto := True \<rparr>) = (Got True, s1)" "s' = s1\<lparr> mapKeys := [] \<rparr>"
    using assms(2) by (auto simp: EncryptKeys_def split: if_split_asm prod.split_asm got.split_asm bool.split_asm)
  have l: "s1 = s\<lparr> fUseCrypto := True, mapCryptedKeys := mapCryptedKeys s1 \<rparr>" "addr_sorted (mapCryptedKeys s1)"
    "\<forall>a. map_of (mapKeys s) a = None \<longrightarrow> map_of (mapCryptedKeys s1) a = None"
    "\<forall>a x. map_of (mapKeys s) a = Some x \<longrightarrow> (\<exists>y. map_of (mapCryptedKeys s1) a = Some y \<and> encrypted_entry lib M x y)"
  proof -
    have pre: "fUseCrypto (s\<lparr> fUseCrypto := True \<rparr>)" "\<forall>e\<in>set (mapKeys s). entry_ok lib t e" "distinct (map fst (mapKeys s))"
      "addr_sorted (mapCryptedKeys (s\<lparr> fUseCrypto := True \<rparr>))"
      using ok addr_sorted_distinct [of "mapKeys s"] by simp_all
    note l = encrypt_loop_Got [OF loop(1) pre]
    have "mapCryptedKeys s = []" using ok plain by blast
    then show "\<forall>a. map_of (mapKeys s) a = None \<longrightarrow> map_of (mapCryptedKeys s1) a = None" using l by simp
    show "s1 = s\<lparr> fUseCrypto := True, mapCryptedKeys := mapCryptedKeys s1 \<rparr>" using l by simp
  qed (use encrypt_loop_Got [OF loop(1)] ok addr_sorted_distinct [of "mapKeys s"] in fastforce)+
  have f: "fUseCrypto s1" "vMasterKey s1 = []" "mapScripts s1 = mapScripts s" 
    by (subst l(1), use ok plain in simp)+
  have "crypted_ok lib t M e" if e: "e \<in> set (mapCryptedKeys s1)" for e
  proof -
    obtain a y where ay: "e = (a, y)" by (cases e)
    then have y: "map_of (mapCryptedKeys s1) a = Some y" using e addr_sorted_distinct [OF l(2)] by simp
    then obtain x where x: "map_of (mapKeys s) a = Some x" "encrypted_entry lib M x y" using l(3,4) by (cases "map_of (mapKeys s) a") fastforce+
    have "entry_ok lib t (a, x)" using ok map_of_SomeD [OF x(1)] by blast
    then show ?thesis using x(2) by (cases x, cases y) (auto simp: ay crypted_ok_def encrypted_entry_def entry_ok_def)
  qed
  then have "crypto_ok lib t M s'" using ok l(2) f by (simp add: crypto_ok_def basic_ok_def loop(2) addr_sorted_def)
  then show ?thesis using plain f l(3,4) loop(2) by simp
qed

lemma Unlock_own_key:
  assumes "crypto_ok lib t M s" and "fUseCrypto s"
  shows "Unlock lib M s = (Got True, s\<lparr> vMasterKey := M \<rparr>)"
proof (cases "mapCryptedKeys s")
  case Nil
  then show ?thesis using assms(2) by (simp add: Unlock_def SetCrypted_def Let_def)
next
  case (Cons e es)
  obtain a pub ct where e: "e = (a, pub, ct)" by (cases e)
  then have m: "map_of (mapCryptedKeys s) a = Some (pub, ct)" using Cons by simp
  obtain sec c p k where k: "length sec = 32" "ec_mul lib (be_val sec) = Some p" "pub = ec_i2o lib c p" "a = SetPubKey lib t pub"
    "EncryptSecret lib M sec (Hash lib pub) = Some ct" "Key_SetSecret lib sec c Key_Reset = Some k" "Key_GetPubKey lib k = Some pub"
    by (rule crypted_entry [OF assms(1) m])
  have d: "DecryptSecret lib M ct (Hash lib pub) = Some sec" using DecryptSecret_EncryptSecret [OF _ k(5)] assms(1) by (simp add: crypto_ok_def)
  have "ec_documented lib" using assms(1) by (simp add: crypto_ok_def basic_ok_def)
  then have "Key_SetSecret lib sec False (snd (Key_SetPubKey lib pub Key_Reset)) = Some k" using SetSecret_after_SetPubKey [OF _ k(1,2)] k(3,6) by simp
  then show ?thesis using assms(2) Cons e d k(1,7) by (simp add: Unlock_def SetCrypted_def Let_def)
qed

lemma locked_keeps_keys: "crypto_ok lib t M s \<Longrightarrow> IsLocked s \<Longrightarrow> M \<noteq> [] \<Longrightarrow> Crypto_GetKey lib s Key_Reset a = Missing"
  by (auto simp: IsLocked_def IsCrypted_def Crypto_GetKey_def split: if_split_asm option.split)

text \<open>
  C23. Encrypting a wallet loses no key and gives none away. When \<^verbatim>\<open>EncryptKeys\<close> succeeds on a well-formed store, no secret stays in the clear and the store is
  locked: it still knows every address and public key, but hands out no private key. Unlocking it with the master key succeeds, and then every
  lookup gives exactly the key it gave before.
\<close>

theorem EncryptKeys_round_trip:
  assumes "crypto_ok lib fTestNet M s" and "EncryptKeys lib fTestNet M s = (Got True, s1)"
  shows "mapKeys s1 = [] \<and> IsLocked s1 \<and>
    (\<forall>a. Crypto_HaveKey s1 a = Crypto_HaveKey s a \<and> Crypto_GetPubKey lib s1 a = Crypto_GetPubKey lib s a \<and> Crypto_GetKey lib s1 Key_Reset a = Missing) \<and>
    (\<exists>s2. Unlock lib M s1 = (Got True, s2) \<and> (\<forall>a. Crypto_GetKey lib s2 Key_Reset a = Crypto_GetKey lib s Key_Reset a))"
proof -
  note e = EncryptKeys_Got [OF assms]
  have b: "basic_ok lib fTestNet s" using assms(1) by (simp add: crypto_ok_def)
  let ?s2 = "s1\<lparr> vMasterKey := M \<rparr>"
  have ok2: "crypto_ok lib fTestNet M ?s2" using e by (simp add: crypto_ok_def basic_ok_def addr_sorted_def)
  have u: "Unlock lib M s1 = (Got True, ?s2)" using Unlock_own_key e by blast
  have l: "IsLocked s1" using e by (simp add: IsLocked_def IsCrypted_def)
  have "Crypto_HaveKey s1 a = Crypto_HaveKey s a \<and> Crypto_GetPubKey lib s1 a = Crypto_GetPubKey lib s a \<and> Crypto_GetKey lib s1 Key_Reset a = Missing \<and>
      Crypto_GetKey lib ?s2 Key_Reset a = Crypto_GetKey lib s Key_Reset a" for a
  proof (cases "map_of (mapKeys s) a")
    case None
    then have "map_of (mapCryptedKeys s1) a = None" using e by blast
    then show ?thesis using None e by (simp add: Crypto_HaveKey_def Basic_HaveKey_def Crypto_GetPubKey_def Crypto_GetKey_def Basic_GetKey_def CKeyStore_GetPubKey_def IsCrypted_def)
  next
    case (Some x)
    obtain sec c where x: "x = (sec, c)" by fastforce
    obtain pub ct where y: "map_of (mapCryptedKeys s1) a = Some (pub, ct)" "encrypted_entry lib M (sec, c) (pub, ct)"
      using e Some x by (metis surj_pair)
    obtain p k where k: "ec_mul lib (be_val sec) = Some p" "length sec = 32" "Basic_GetKey lib s a = Got k"
      "Key_SetSecret lib sec c Key_Reset = Some k" "Key_GetPubKey lib k = Some (ec_i2o lib c p)" using basic_GetKey_Got [OF b] Some x by metis
    have pub: "pub = ec_i2o lib c p" "EncryptSecret lib M sec (Hash lib pub) = Some ct" using y(2) k(1) by (auto simp: encrypted_entry_def)
    have "map_of (mapCryptedKeys ?s2) a = Some (pub, ct)" using y(1) by simp
    note g = Crypto_GetKey_crypted [OF ok2 _ this k(2,1) pub]
    show ?thesis using e y(1) Some g k pub
      by (simp add: Crypto_HaveKey_def Basic_HaveKey_def Crypto_GetPubKey_def CKeyStore_GetPubKey_def IsCrypted_def Crypto_GetKey_def)
  qed
  then show ?thesis using e l u by blast
qed

section \<open>Runs of a key store\<close>

text \<open>
  What a wallet does with its store: whole keys and scripts are added, keys that were encrypted under its master key are loaded, it is encrypted, locked and
  unlocked with that key.
\<close>

inductive ks_step :: "'a crypt_openssl_scheme \<Rightarrow> bool \<Rightarrow> bytes \<Rightarrow> CCryptoKeyStore \<Rightarrow> CCryptoKeyStore \<Rightarrow> bool" for lib fTestNet M where
  add: "key_ok lib k \<Longrightarrow> Crypto_AddKey lib fTestNet k s = (r, s') \<Longrightarrow> ks_step lib fTestNet M s s'"
| script: "ks_step lib fTestNet M s (AddCScript lib redeemScript s)"
| load: "crypted_ok lib fTestNet M (SetPubKey lib fTestNet pub, pub, ct) \<Longrightarrow> AddCryptedKey lib fTestNet pub ct s = (b, s') \<Longrightarrow> ks_step lib fTestNet M s s'"
| encrypt: "EncryptKeys lib fTestNet M s = (Got True, s') \<Longrightarrow> ks_step lib fTestNet M s s'"
| lock: "Lock s = (b, s') \<Longrightarrow> ks_step lib fTestNet M s s'"
| unlock: "Unlock lib M s = (r, s') \<Longrightarrow> ks_step lib fTestNet M s s'"

lemma AddCryptedKey_ok:
  assumes "AddCryptedKey lib t pub ct s = (b, s')" and "crypto_ok lib t M s" and "crypted_ok lib t M (SetPubKey lib t pub, pub, ct)"
  shows "crypto_ok lib t M s'"
  using assms addr_sorted_insert set_addr_insert [of "SetPubKey lib t pub" "(pub, ct)" "mapCryptedKeys s"]
  by (auto simp: AddCryptedKey_def SetCrypted_def crypto_ok_def basic_ok_def split: if_split_asm)

lemma Crypto_AddKey_ok:
  assumes "Crypto_AddKey lib t k s = (r, s')" and "crypto_ok lib t M s" and "key_ok lib k"
  shows "crypto_ok lib t M s'"
proof -
  have b: "basic_ok lib t s" using assms(2) by (simp add: crypto_ok_def)
  show ?thesis
  proof (cases "fUseCrypto s")
    case False
    obtain s1 pk sec where k: "Basic_AddKey lib t k s = Some s1" "basic_ok lib t s1"
      "mapKeys s1 = addr_insert (SetPubKey lib t pk) (sec, fCompressedPubKey k) (mapKeys s)" by (rule Basic_AddKey_ok [OF b assms(3)])
    then have "s' = s1" using assms(1) False by (simp add: Crypto_AddKey_def IsCrypted_def)
    moreover have "mapCryptedKeys s1 = mapCryptedKeys s" "vMasterKey s1 = vMasterKey s" "fUseCrypto s1 = fUseCrypto s"
      using k(1) by (auto simp: Basic_AddKey_def bind_eq_Some_conv)
    ultimately show ?thesis using k(2) assms(2) False by (simp add: crypto_ok_def)
  next
    case True
    obtain n p where n: "ec_priv (pkey k) = Some n" "n < 256 ^ 32" "ec_mul lib n = Some p" "ec_pub (pkey k) = Some p"
      using assms(3) by (auto simp: key_ok_def)
    let ?sec = "rev (le_bytes 32 n)" and ?pub = "ec_i2o lib (ec_compressed (pkey k)) p"
    have g: "Key_GetPubKey lib k = Some ?pub" "Key_GetSecret k = Some (?sec, fCompressedPubKey k)" using n by (simp_all add: Key_GetPubKey_def Key_GetSecret_def)
    show ?thesis
    proof (cases "vMasterKey s = [] \<or> EncryptSecret lib (vMasterKey s) ?sec (Hash lib ?pub) = None")
      case t1: True
      then have "s' = s" using assms(1) True g by (auto simp: Crypto_AddKey_def IsCrypted_def IsLocked_def split: if_split_asm)
      then show ?thesis using assms(2) by simp
    next
      case False
      then obtain ct where ct: "EncryptSecret lib M ?sec (Hash lib ?pub) = Some ct" "vMasterKey s = M" using assms(2) by (auto simp: crypto_ok_def)
      have "length ?sec = 32" "ec_mul lib (be_val ?sec) = Some p" using n by (simp_all add: be_val_rev_le_bytes)
      then have e: "crypted_ok lib t M (SetPubKey lib t ?pub, ?pub, ct)" unfolding crypted_ok_def fst_conv snd_conv using ct(1) by blast
      obtain x s1 where a: "AddCryptedKey lib t ?pub ct s = (x, s1)" by fastforce
      then have "s' = s1" using assms(1) True False g ct by (auto simp: Crypto_AddKey_def IsCrypted_def IsLocked_def)
      then show ?thesis using AddCryptedKey_ok [OF a assms(2) e] by simp
    qed
  qed
qed

lemma ks_step_ok: "ks_step lib t M s s' \<Longrightarrow> crypto_ok lib t M s \<Longrightarrow> crypto_ok lib t M s'"
proof (induction rule: ks_step.induct)
  case (unlock s r s')
  then have "s' = s \<or> s' = s\<lparr> fUseCrypto := True \<rparr> \<and> mapKeys s = [] \<or> s' = s\<lparr> vMasterKey := M \<rparr> \<and> fUseCrypto s \<or>
      s' = s\<lparr> fUseCrypto := True, vMasterKey := M \<rparr> \<and> mapKeys s = []"
    by (auto simp: Unlock_def SetCrypted_def Let_def split: if_split_asm list.split_asm option.split_asm)
  then show ?case using unlock.prems by (auto simp: crypto_ok_def basic_ok_def)
next
  case (lock s b s')
  then show ?case by (auto simp: Lock_def SetCrypted_def crypto_ok_def basic_ok_def split: if_split_asm)
next
  case (script s r)
  then show ?case by (simp add: crypto_ok_def basic_ok_def AddCScript_def)
next
  case (encrypt s s')
  then show ?case using EncryptKeys_Got by blast
qed (blast intro: Crypto_AddKey_ok AddCryptedKey_ok)+

lemma new_store_ok: "ec_documented lib \<Longrightarrow> crypt_documented lib \<Longrightarrow> crypto_ok lib t M CCryptoKeyStore_new"
  by (simp add: crypto_ok_def basic_ok_def CCryptoKeyStore_new_def addr_sorted_def)


section \<open>A toy wallet\<close>

definition demo_crypt :: crypt_openssl where
  "demo_crypt = ec_openssl.extend demo_ec \<lparr> aes_encrypt = \<lambda>k iv p. Some (p @ [0]), aes_decrypt = \<lambda>k iv c. Some (butlast c), EVP_BytesToKey = \<lambda>s d n. None \<rparr>"

lemma demo_crypt_fields:
  "aes_encrypt demo_crypt k iv p = Some (p @ [0])" "aes_decrypt demo_crypt k iv c = Some (butlast c)" "ec_mul demo_crypt n = ec_mul demo_ec n"
  "ec_i2o demo_crypt = ec_i2o demo_ec" "ec_o2i demo_crypt = ec_o2i demo_ec" "ec_sign demo_crypt = ec_sign demo_ec"
  "o2i_ECPublicKey demo_crypt = o2i_ECPublicKey demo_ec" "ECDSA_verify demo_crypt = ECDSA_verify demo_ec"
  by (simp_all add: demo_crypt_def ec_openssl.extend_def demo_ec_def openssl.extend_def demo_lib_def)

lemma demo_crypt_documented: "ec_documented demo_crypt" "crypt_documented demo_crypt"
  using demo_ec_documented by (simp_all add: ec_documented_def crypt_documented_def demo_crypt_fields)

lemma demo_store:
  obtains k s where "key_ok demo_crypt k" and "Crypto_AddKey demo_crypt False k CCryptoKeyStore_new = (Got True, s)" and "mapKeys s \<noteq> []"
    and "crypto_ok demo_crypt False (replicate 32 9) s" and "\<exists>s1. EncryptKeys demo_crypt False (replicate 32 9) s = (Got True, s1)"
proof -
  obtain k where k: "Key_SetSecret demo_crypt (replicate 32 7) True Key_Reset = Some k"
    by (simp add: Key_SetSecret_def EC_KEY_regenerate_key_def demo_crypt_fields demo_ec_fields)
  have ok: "key_ok demo_crypt k" by (rule key_ok_SetSecret [OF k])
  have new: "basic_ok demo_crypt False CCryptoKeyStore_new" using new_store_ok [OF demo_crypt_documented] by (simp add: crypto_ok_def)
  obtain s pk sec where s: "Basic_AddKey demo_crypt False k CCryptoKeyStore_new = Some s" "Key_GetPubKey demo_crypt k = Some pk"
    "Key_GetSecret k = Some (sec, fCompressedPubKey k)" "mapKeys s = [(SetPubKey demo_crypt False pk, sec, fCompressedPubKey k)]"
    using Basic_AddKey_ok [OF new ok] by (simp add: CCryptoKeyStore_new_def) metis
  then have a: "Crypto_AddKey demo_crypt False k CCryptoKeyStore_new = (Got True, s)" by (simp add: Crypto_AddKey_def IsCrypted_def CCryptoKeyStore_new_def)
  have f: "mapCryptedKeys s = []" "\<not> fUseCrypto s" using s(1) by (auto simp: Basic_AddKey_def bind_eq_Some_conv CCryptoKeyStore_new_def)
  have sec: "sec = replicate 32 7" "fCompressedPubKey k" using s(3) GetSecret_SetSecret [OF k] by auto
  have "EncryptSecret demo_crypt (replicate 32 9) x iv = Some (x @ [0])" for x iv
    by (simp add: EncryptSecret_def Crypter_SetKey_def Crypter_Encrypt_def WALLET_CRYPTO_KEY_SIZE_def demo_crypt_fields)
  then have "\<exists>s1. EncryptKeys demo_crypt False (replicate 32 9) s = (Got True, s1)"
    using f s(2,3,4) sec k by (simp add: EncryptKeys_def IsCrypted_def AddCryptedKey_def SetCrypted_def)
  then show thesis using that [OF ok a] s(4) Crypto_AddKey_ok [OF a new_store_ok [OF demo_crypt_documented] ok] by simp
qed

theorem EncryptKeys_round_trip_witness:
  "\<exists>s s1. mapKeys s \<noteq> [] \<and> EncryptKeys demo_crypt False (replicate 32 9) s = (Got True, s1) \<and> mapKeys s1 = [] \<and> IsLocked s1 \<and>
     (\<exists>s2. Unlock demo_crypt (replicate 32 9) s1 = (Got True, s2) \<and> (\<forall>a. Crypto_GetKey demo_crypt s2 Key_Reset a = Crypto_GetKey demo_crypt s Key_Reset a))"
proof -
  obtain k s where s: "mapKeys s \<noteq> []" "crypto_ok demo_crypt False (replicate 32 9) s" "\<exists>s1. EncryptKeys demo_crypt False (replicate 32 9) s = (Got True, s1)"
    using demo_store by metis
  then obtain s1 where s1: "EncryptKeys demo_crypt False (replicate 32 9) s = (Got True, s1)" by blast
  show ?thesis using EncryptKeys_round_trip [OF s(2) s1] s(1) s1 by blast
qed


end
