(* ===== verification/Signing.thy ===== *)
theory Signing
  imports KeyStore Solver
begin

text \<open>
  Signing and ownership, of \<^verbatim>\<open>src/src/script.cpp\<close>: what the wallet puts into an input to spend an output, and which outputs it takes for its own.
\<close>

section \<open>Signing\<close>

text \<open>
  A \<^verbatim>\<open>CKeyStore&\<close> is the record of its constant methods; \<^verbatim>\<open>GetKey\<close> is called with a fresh key object. The two stores of
  \<open>KeyStore\<close> as such records.
\<close>

record CKeyStore =
  ks_HaveKey :: "CBitcoinAddress \<Rightarrow> bool"
  ks_GetKey :: "CBitcoinAddress \<Rightarrow> CKey got"
  ks_GetPubKey :: "CBitcoinAddress \<Rightarrow> bytes got"
  ks_GetCScript :: "uint160 \<Rightarrow> CScript option"

definition basic_methods :: "'a ec_openssl_scheme \<Rightarrow> 'b CBasicKeyStore_scheme \<Rightarrow> CKeyStore" where
  "basic_methods lib s = \<lparr> ks_HaveKey = Basic_HaveKey s, ks_GetKey = Basic_GetKey lib s,
     ks_GetPubKey = (\<lambda>a. CKeyStore_GetPubKey lib (Basic_GetKey lib s a)), ks_GetCScript = GetCScript s \<rparr>"

definition crypto_methods :: "'a crypt_openssl_scheme \<Rightarrow> CCryptoKeyStore \<Rightarrow> CKeyStore" where
  "crypto_methods lib s = \<lparr> ks_HaveKey = Crypto_HaveKey s, ks_GetKey = Crypto_GetKey lib s Key_Reset,
     ks_GetPubKey = Crypto_GetPubKey lib s, ks_GetCScript = GetCScript s \<rparr>"

text \<open>The script that is built is an argument and a result; \<open>Raised\<close> is an exception or a failed assertion.\<close>

definition Sign1 :: "'a ec_openssl_scheme \<Rightarrow> CBitcoinAddress \<Rightarrow> CKeyStore \<Rightarrow> uint256 \<Rightarrow> int32 \<Rightarrow> CScript \<Rightarrow> bool got \<times> CScript" where
  "Sign1 lib address keystore hash nHashType scriptSigRet =
     (case ks_GetKey keystore address of
        Raised \<Rightarrow> (Raised, scriptSigRet)
      | Missing \<Rightarrow> (Got False, scriptSigRet)
      | Got key \<Rightarrow>
          (case Key_Sign lib key hash of
             None \<Rightarrow> (Got False, scriptSigRet)
           | Some vchSig \<Rightarrow> (Got True, push_vch (vchSig @ [ucast nHashType]) scriptSigRet)))"

fun sign_n_loop ::
  "'a ec_openssl_scheme \<Rightarrow> bool \<Rightarrow> CKeyStore \<Rightarrow> uint256 \<Rightarrow> int32 \<Rightarrow> nat \<Rightarrow> bytes list \<Rightarrow> nat \<Rightarrow> CScript \<Rightarrow> bool got \<times> CScript" where
  "sign_n_loop lib fTestNet keystore hash nHashType nRequired [] nSigned scriptSigRet = (Got (nSigned = nRequired), scriptSigRet)"
| "sign_n_loop lib fTestNet keystore hash nHashType nRequired (pubkey # ks) nSigned scriptSigRet =
     (case Sign1 lib (SetPubKey lib fTestNet pubkey) keystore hash nHashType scriptSigRet of
        (Got True, scriptSigRet) \<Rightarrow>
          if nSigned + 1 = nRequired then (Got True, scriptSigRet)
          else sign_n_loop lib fTestNet keystore hash nHashType nRequired ks (nSigned + 1) scriptSigRet
      | (Raised, scriptSigRet) \<Rightarrow> (Raised, scriptSigRet)
      | (_, scriptSigRet) \<Rightarrow> sign_n_loop lib fTestNet keystore hash nHashType nRequired ks nSigned scriptSigRet)"

definition SignN ::
  "'a ec_openssl_scheme \<Rightarrow> bool \<Rightarrow> bytes list \<Rightarrow> CKeyStore \<Rightarrow> uint256 \<Rightarrow> int32 \<Rightarrow> CScript \<Rightarrow> bool got \<times> CScript" where
  "SignN lib fTestNet multisigdata keystore hash nHashType scriptSigRet =
     sign_n_loop lib fTestNet keystore hash nHashType (unat (hd multisigdata ! 0)) (butlast (tl multisigdata)) 0 scriptSigRet"

definition Solver_sign ::
  "'a ec_openssl_scheme \<Rightarrow> bool \<Rightarrow> CKeyStore \<Rightarrow> CScript \<Rightarrow> uint256 \<Rightarrow> int32 \<Rightarrow> bool got \<times> CScript \<times> txnouttype" where
  "Solver_sign lib fTestNet keystore spk hash nHashType =
     (case Solver spk of
        (False, whichType, _) \<Rightarrow> (Got False, [], whichType)
      | (True, TX_NONSTANDARD, _) \<Rightarrow> (Got False, [], TX_NONSTANDARD)
      | (True, TX_PUBKEY, vSolutions) \<Rightarrow>
          (case Sign1 lib (SetPubKey lib fTestNet (vSolutions ! 0)) keystore hash nHashType [] of (r, sig) \<Rightarrow> (r, sig, TX_PUBKEY))
      | (True, TX_PUBKEYHASH, vSolutions) \<Rightarrow>
          let address = SetHash160 fTestNet (uint160_of (vSolutions ! 0)) in
          (case Sign1 lib address keystore hash nHashType [] of
             (Got True, sig) \<Rightarrow>
               (case ks_GetPubKey keystore address of
                  Raised \<Rightarrow> (Raised, sig, TX_PUBKEYHASH)
                | Missing \<Rightarrow> (Got True, push_vch [] sig, TX_PUBKEYHASH)
                | Got vch \<Rightarrow> (Got True, push_vch vch sig, TX_PUBKEYHASH))
           | (r, sig) \<Rightarrow> (r, sig, TX_PUBKEYHASH))
      | (True, TX_SCRIPTHASH, vSolutions) \<Rightarrow>
          (case ks_GetCScript keystore (uint160_of (vSolutions ! 0)) of
             None \<Rightarrow> (Got False, [], TX_SCRIPTHASH)
           | Some redeemScript \<Rightarrow> (Got True, redeemScript, TX_SCRIPTHASH))
      | (True, TX_MULTISIG, vSolutions) \<Rightarrow>
          (case SignN lib fTestNet vSolutions keystore hash nHashType (push_opcode OP_0 []) of (r, sig) \<Rightarrow> (r, sig, TX_MULTISIG)))"

text \<open>The signature script of one input.\<close>

definition with_sig :: "nat \<Rightarrow> CScript \<Rightarrow> CTransaction \<Rightarrow> CTransaction" where
  "with_sig nIn sig tx = tx\<lparr> vin := (vin tx)[nIn := (vin tx ! nIn)\<lparr> scriptSig := sig \<rparr>] \<rparr>"

text \<open>
  The signatures that go into an input: those for the output script, or those for the script it is the hash of followed by that script. \<open>Raised\<close>
  also stands for a transaction that cannot be serialized.
\<close>

definition solve_input ::
  "'a ec_openssl_scheme \<Rightarrow> bool \<Rightarrow> CKeyStore \<Rightarrow> CScript \<Rightarrow> CTransaction \<Rightarrow> nat \<Rightarrow> int32 \<Rightarrow> bool got \<times> CTransaction" where
  "solve_input lib fTestNet keystore spk txTo nIn nHashType =
     (case SignatureHash lib spk txTo nIn nHashType of
        None \<Rightarrow> (Raised, txTo)
      | Some hash \<Rightarrow>
          (case Solver_sign lib fTestNet keystore spk hash nHashType of
             (Got True, subscript, TX_SCRIPTHASH) \<Rightarrow>
               let txTo = with_sig nIn subscript txTo in
               (case SignatureHash lib subscript txTo nIn nHashType of
                  None \<Rightarrow> (Raised, txTo)
                | Some hash2 \<Rightarrow>
                    (case Solver_sign lib fTestNet keystore subscript hash2 nHashType of
                       (Got True, sig, subType) \<Rightarrow>
                         if subType = TX_SCRIPTHASH then (Got False, with_sig nIn sig txTo)
                         else (Got True, with_sig nIn (push_vch subscript sig) txTo)
                     | (r, sig, _) \<Rightarrow> (r, with_sig nIn sig txTo)))
           | (r, sig, _) \<Rightarrow> (r, with_sig nIn sig txTo)))"

definition SignSignature ::
  "'a ec_openssl_scheme \<Rightarrow> bool \<Rightarrow> CKeyStore \<Rightarrow> CTransaction \<Rightarrow> CTransaction \<Rightarrow> nat \<Rightarrow> int32 \<Rightarrow> sig_cache \<Rightarrow>
     bool got \<times> CTransaction \<times> sig_cache" where
  "SignSignature lib fTestNet keystore txFrom txTo nIn nHashType c =
     (if nIn \<ge> length (vin txTo) then (Raised, txTo, c)
      else
        let out = prevout (vin txTo ! nIn); n = unat (op_n out) in
        if n \<ge> length (vout txFrom) \<or> Some (op_hash out) \<noteq> CTransaction_GetHash lib txFrom then (Raised, txTo, c)
        else
          let spk = scriptPubKey (vout txFrom ! n) in
          (case solve_input lib fTestNet keystore spk txTo nIn nHashType of
             (Got True, txTo) \<Rightarrow>
               let (ok, c) = VerifyScript lib \<lparr> env_tx = txTo, env_nIn = nIn, env_nHashType = 0 \<rparr> (scriptSig (vin txTo ! nIn)) spk c
               in (Got ok, txTo, c)
           | (r, txTo) \<Rightarrow> (r, txTo, c)))"

section \<open>Ownership\<close>

definition HaveKeys :: "'a openssl_scheme \<Rightarrow> bool \<Rightarrow> bytes list \<Rightarrow> CKeyStore \<Rightarrow> nat" where
  "HaveKeys lib fTestNet pubkeys keystore = length (filter (\<lambda>pubkey. ks_HaveKey keystore (SetPubKey lib fTestNet pubkey)) pubkeys)"

text \<open>One call of \<^verbatim>\<open>IsMine\<close>: an answer, or the script that it calls itself on.\<close>

definition is_mine_step :: "'a openssl_scheme \<Rightarrow> bool \<Rightarrow> CKeyStore \<Rightarrow> CScript \<Rightarrow> bool + CScript" where
  "is_mine_step lib fTestNet keystore spk =
     (case Solver spk of
        (False, _) \<Rightarrow> Inl False
      | (True, TX_NONSTANDARD, _) \<Rightarrow> Inl False
      | (True, TX_PUBKEY, vSolutions) \<Rightarrow> Inl (ks_HaveKey keystore (SetPubKey lib fTestNet (vSolutions ! 0)))
      | (True, TX_PUBKEYHASH, vSolutions) \<Rightarrow> Inl (ks_HaveKey keystore (SetHash160 fTestNet (uint160_of (vSolutions ! 0))))
      | (True, TX_SCRIPTHASH, vSolutions) \<Rightarrow>
          (case ks_GetCScript keystore (uint160_of (vSolutions ! 0)) of None \<Rightarrow> Inl False | Some subscript \<Rightarrow> Inr subscript)
      | (True, TX_MULTISIG, vSolutions) \<Rightarrow>
          let keys = butlast (tl vSolutions) in Inl (HaveKeys lib fTestNet keys keystore = length keys))"

text \<open>The recursion does not end if a script leads back to its own hash; \<open>None\<close> is the call that never returns.\<close>

partial_function (option) IsMine :: "'a openssl_scheme \<Rightarrow> bool \<Rightarrow> CKeyStore \<Rightarrow> CScript \<Rightarrow> bool option" where
  "IsMine lib fTestNet keystore spk =
     (case is_mine_step lib fTestNet keystore spk of Inl b \<Rightarrow> Some b | Inr subscript \<Rightarrow> IsMine lib fTestNet keystore subscript)"

section \<open>What is signed\<close>

lemma uint160_of_image [simp]: "uint160_of (image160 h) = h"
  by (simp add: uint160_of_def bytes_word_bytes160)

lemma scriptSig_with_sig: "nIn < length (vin tx) \<Longrightarrow> scriptSig (vin (with_sig nIn sig tx) ! nIn) = sig"
  by (simp add: with_sig_def)

text \<open>The signatures are left out of what is signed.\<close>

lemma SignatureHash_with_sig: "SignatureHash lib code (with_sig nIn sig tx) nIn ht = SignatureHash lib code tx nIn ht"
proof (cases "nIn < length (vin tx)")
  case True
  have "map (\<lambda>txin. txin\<lparr> scriptSig := [] \<rparr>) (vin (with_sig nIn sig tx)) = map (\<lambda>txin. txin\<lparr> scriptSig := [] \<rparr>) (vin tx)"
    using True by (auto simp: with_sig_def map_update intro!: nth_equalityI simp: nth_list_update)
  moreover have "length (vin (with_sig nIn sig tx)) = length (vin tx)" by (simp add: with_sig_def)
  moreover have "(with_sig nIn sig tx)\<lparr> vin := x \<rparr> = tx\<lparr> vin := x \<rparr>" "vout (with_sig nIn sig tx) = vout tx" for x
    by (simp_all add: with_sig_def)
  ultimately have "sighash_tx code (with_sig nIn sig tx) nIn ht = sighash_tx code tx nIn ht" by (simp add: sighash_tx_def Let_def)
  then show ?thesis by (simp add: SignatureHash_def)
next
  case False
  then have "length (vin (with_sig nIn sig tx)) = length (vin tx)" by (simp add: with_sig_def)
  then show ?thesis using False by (simp add: SignatureHash_def sighash_tx_def)
qed

text \<open>Deleting a signature from the script of a key address leaves the script as it is, unless the signature is the hash in it.\<close>

lemma erase_none: "b \<noteq> take (length b) pc \<Longrightarrow> erase_copies b pc = (0, pc)"
  by (subst erase_copies.simps) auto

lemma find_delete_keep:
  assumes "b \<noteq> take (length b) pc" and "pc = x @ pc2" and "GetOp2 pc = Some (opcode, vch, pc2)" and "find_delete_loop b pc2 = (0, pc2)"
  shows "find_delete_loop b pc = (0, pc)"
  using assms by (subst find_delete_loop.simps) (simp add: erase_none)

lemma FindAndDelete_p2pkh:
  assumes "sg \<noteq> image160 h" and "length sg \<le> 75"
  shows "FindAndDelete (push_vch sg []) (p2pkh h) = (0, p2pkh h)"
proof -
  define b where "b = push_vch sg []"
  have b: "b = of_nat (length sg) # sg" using assms(2) by (simp add: b_def push_vch_def)
  have ne: "b \<noteq> take (length b) (x # r)" if "75 < unat x" for x :: byte and r
  proof
    assume "b = take (length b) (x # r)"
    then have "of_nat (length sg) = x" by (simp add: b)
    then have "unat x = length sg" using assms(2) by (auto simp: unat_of_nat)
    then show False using that assms(2) by simp
  qed
  let ?r4 = "[0xac] :: bytes" and ?r3 = "[0x88, 0xac] :: bytes" and ?p = "push_vch (image160 h) []"
  have l5: "find_delete_loop b [] = (0, [])" by (subst find_delete_loop.simps) (simp add: erase_none b GetOp2_def)
  have l4: "find_delete_loop b ?r4 = (0, ?r4)" by (rule find_delete_keep [OF ne _ _ l5, of _ _ "[0xac]"]) (simp_all add: GetOp2_ops)
  have l3: "find_delete_loop b ?r3 = (0, ?r3)" by (rule find_delete_keep [OF ne _ _ l4, of _ _ "[0x88]"]) (simp_all add: GetOp2_ops)
  have p: "?p = 20 # image160 h" by (simp add: push_vch_def)
  have "b \<noteq> take (length b) (?p @ ?r3)"
  proof
    assume e: "b = take (length b) (?p @ ?r3)"
    then have "of_nat (length sg) = (20 :: byte)" by (simp add: b p)
    moreover have "unat (of_nat (length sg) :: byte) = length sg" using assms(2) unfolding unat_of_nat by simp
    ultimately have "length sg = 20" by simp
    then show False using e assms(1) by (simp add: b p)
  qed
  then have l2: "find_delete_loop b (?p @ ?r3) = (0, ?p @ ?r3)"
    by (rule find_delete_keep [OF _ refl GetOp2_push_vch l3]) simp
  have l1: "find_delete_loop b (0xa9 # ?p @ ?r3) = (0, 0xa9 # ?p @ ?r3)" by (rule find_delete_keep [OF ne _ _ l2, of _ _ "[0xa9]"]) (simp_all add: GetOp2_ops)
  have "find_delete_loop b (0x76 # 0xa9 # ?p @ ?r3) = (0, 0x76 # 0xa9 # ?p @ ?r3)" by (rule find_delete_keep [OF ne _ _ l1, of _ _ "[0x76]"]) (simp_all add: GetOp2_ops)
  then show ?thesis by (simp add: FindAndDelete_def p2pkh_def b_def [symmetric])
qed

section \<open>Signing one's own outputs\<close>

lemma address_is_key: "GetHash160 (SetHash160 t h) = Some h" "\<not> IsScript t (SetHash160 t h)"
  by (cases t, simp_all add: SetHash160_def SetData_def GetHash160_def IsScript_def Address_IsValid_def address_versions bytes_word_bytes160)

lemma crypto_unlocked_key:
  assumes "crypto_ok lib t M s" and "\<not> IsLocked s" and "Crypto_HaveKey s a"
  shows "\<exists>k. Crypto_GetKey lib s Key_Reset a = Got k"
proof (cases "fUseCrypto s")
  case False
  then obtain sec c where m: "map_of (mapKeys s) a = Some (sec, c)" using assms(3) by (auto simp: Crypto_HaveKey_def IsCrypted_def Basic_HaveKey_def)
  have "basic_ok lib t s" using assms(1) by (simp add: crypto_ok_def)
  then obtain k where "Basic_GetKey lib s a = Got k" using basic_GetKey_Got [OF _ m] by metis
  then show ?thesis using False by (simp add: Crypto_GetKey_def IsCrypted_def)
next
  case True
  then obtain pub ct where m: "map_of (mapCryptedKeys s) a = Some (pub, ct)" using assms(3) by (auto simp: Crypto_HaveKey_def IsCrypted_def)
  have v: "vMasterKey s = M" using assms(1,2) True by (auto simp: crypto_ok_def IsLocked_def IsCrypted_def)
  obtain sec c p k where e: "length sec = 32" "ec_mul lib (be_val sec) = Some p" "pub = ec_i2o lib c p"
    "EncryptSecret lib M sec (Hash lib pub) = Some ct" "Key_SetSecret lib sec c Key_Reset = Some k" by (rule crypted_entry [OF assms(1) m])
  then show ?thesis using Crypto_GetKey_crypted [OF assms(1) True m e(1-4)] v by simp
qed

text \<open>Signatures have at most 72 bytes and can always be made.\<close>

definition signs :: "'a ec_openssl_scheme \<Rightarrow> bool" where
  "signs lib \<longleftrightarrow> (\<forall>n h. \<exists>sig. ec_sign lib n h = Some sig \<and> length sig \<le> 72)"

lemma Solver_sign_p2pkh:
  assumes "ks_GetKey ks (SetHash160 t h) = Got k" and "Key_Sign lib k hash = Some sig" and "ks_GetPubKey ks (SetHash160 t h) = Got pk"
  shows "Solver_sign lib t ks (p2pkh h) hash ht = (Got True, push_vch pk (push_vch (sig @ [ucast ht]) []), TX_PUBKEYHASH)"
  using assms by (simp add: Solver_sign_def Solver_p2pkh Let_def Sign1_def)

lemma signed_p2pkh_verifies:
  assumes "o2i_ECPublicKey lib pk" and "ECDSA_verify lib pk hash sig" and "SignatureHash lib (p2pkh h) tx nIn ht = Some hash"
    and "Hash160 lib pk = h" and "length sig \<le> 72" and "length pk \<le> 520" and "sig @ [ucast ht] \<noteq> image160 h" and "ucast (ucast ht :: byte) = ht"
    and "cache_sound lib c" and "env = \<lparr> env_tx = tx, env_nIn = nIn, env_nHashType = 0 \<rparr>"
  shows "fst (VerifyScript lib env (push_vch pk (push_vch (sig @ [ucast ht]) [])) (p2pkh h) c)"
proof -
  have "FindAndDelete (push_vch (sig @ [ucast ht]) []) (p2pkh h) = (0, p2pkh h)" by (rule FindAndDelete_p2pkh [OF assms(7)]) (use assms(5) in simp)
  then have "CheckSig_spec lib env (sig @ [ucast ht]) pk (snd (FindAndDelete (push_vch (sig @ [ucast ht]) []) (p2pkh h))) = Some True"
    using assms(1-3,8,10) by (simp add: CheckSig_spec_def)
  then show ?thesis
    using pay_to_address [OF address_is_key SetBitcoinAddress_p2pkh [OF address_is_key], where lib = lib and env = env and c = c and sig = "sig @ [ucast ht]" and key = pk]
      assms(4-6,9) by simp
qed


section \<open>Script hashes of script hashes\<close>

text \<open>
  \<^verbatim>\<open>IsMine\<close> follows a script hash inside a script hash, \<^verbatim>\<open>SignSignature\<close> does not: an output to the hash of a script that is itself a script
  hash is counted as the wallet's own as soon as the inner script is, but signing it fails.
\<close>

theorem nested_script_hash_not_signed:
  assumes "ks_GetCScript ks h = Some (p2sh h2)" and "ks_GetCScript ks h2 = Some inner" and "IsMine lib fTestNet ks inner = Some True"
    and "nIn < length (vin txTo)" and "prevout (vin txTo ! nIn) = out" and "unat (op_n out) < length (vout txFrom)"
    and "scriptPubKey (vout txFrom ! unat (op_n out)) = p2sh h" and "CTransaction_GetHash lib txFrom = Some (op_hash out)"
    and "valid_version (tx_nVersion txTo)"
  shows "IsMine lib fTestNet ks (p2sh h) = Some True \<and> (\<exists>tx. SignSignature lib fTestNet ks txFrom txTo nIn nHashType c = (Got False, tx, c))"
proof -
  have "IsMine lib fTestNet ks (p2sh h2) = Some True"
    using assms(2,3) by (subst IsMine.simps) (simp add: is_mine_step_def Solver_p2sh)
  then have mine: "IsMine lib fTestNet ks (p2sh h) = Some True"
    using assms(1) by (subst IsMine.simps) (simp add: is_mine_step_def Solver_p2sh)
  obtain hash where h1: "SignatureHash lib (p2sh h) txTo nIn nHashType = Some hash" using SignatureHash_Some [OF assms(9)] by blast
  obtain hash2 where "SignatureHash lib (p2sh h2) txTo nIn nHashType = Some hash2" using SignatureHash_Some [OF assms(9)] by blast
  then have h2: "SignatureHash lib (p2sh h2) (with_sig nIn (p2sh h2) txTo) nIn nHashType = Some hash2" by (simp add: SignatureHash_with_sig)
  have "Solver_sign lib fTestNet ks (p2sh h) hash nHashType = (Got True, p2sh h2, TX_SCRIPTHASH)"
    "Solver_sign lib fTestNet ks (p2sh h2) hash2 nHashType = (Got True, inner, TX_SCRIPTHASH)"
    using assms(1,2) by (simp_all add: Solver_sign_def Solver_p2sh)
  then have "\<exists>tx. solve_input lib fTestNet ks (p2sh h) txTo nIn nHashType = (Got False, tx)"
    using h1 h2 by (simp add: solve_input_def Let_def)
  then show ?thesis using mine assms(4-8) by (auto simp: SignSignature_def Let_def)
qed

section \<open>A toy payment\<close>

definition paid_to :: "CScript \<Rightarrow> CTransaction" where
  "paid_to spk = demo_tx\<lparr> vout := [\<lparr> subCurrency = [], nValue = 5000000, scriptPubKey = spk \<rparr>] \<rparr>"

definition spender :: CTransaction where
  "spender = demo_tx\<lparr> vin := [\<lparr> prevout = \<lparr> op_hash = 32, op_n = 0 \<rparr>, scriptSig = [], nSequence = 0xffffffff, infos = [] \<rparr>] \<rparr>"

lemma demo_crypt_hashes: "Hash160 demo_crypt bs = 32" "Hash demo_crypt bs = 32"
  by (simp_all add: demo_crypt_def ec_openssl.extend_def demo_ec_def openssl.extend_def demo_lib_def Hash160_def Hash_def)

lemma demo_payment:
  "nIn = 0 \<Longrightarrow> nIn < length (vin spender)" "prevout (vin spender ! 0) = \<lparr> op_hash = 32, op_n = 0 \<rparr>" "length (vout (paid_to spk)) = 1"
  "scriptPubKey (vout (paid_to spk) ! 0) = spk" "CTransaction_GetHash demo_crypt (paid_to spk) = Some 32" "valid_version (tx_nVersion spender)"
proof -
  have v: "valid_version (tx_nVersion demo_tx)" by (simp add: demo_tx_def valid_version_def tx_types)
  then show "CTransaction_GetHash demo_crypt (paid_to spk) = Some 32" "valid_version (tx_nVersion spender)"
    by (simp_all add: CTransaction_GetHash_def Serialize_CTransaction_def paid_to_def spender_def demo_crypt_hashes)
qed (simp_all add: spender_def paid_to_def)


theorem nested_script_hash_not_signed_witness:
  "\<exists>ks tx. IsMine demo_crypt False ks (p2sh 1) = Some True \<and>
     SignSignature demo_crypt False ks (paid_to (p2sh 1)) spender 0 1 no_cache = (Got False, tx, no_cache)"
proof -
  define ks where "ks = \<lparr> ks_HaveKey = \<lambda>_. True, ks_GetKey = \<lambda>_. Missing, ks_GetPubKey = \<lambda>_. Missing,
    ks_GetCScript = [1 \<mapsto> p2sh 2, 2 \<mapsto> p2pkh 3] \<rparr>"
  have g: "ks_GetCScript ks 1 = Some (p2sh 2)" "ks_GetCScript ks 2 = Some (p2pkh 3)" by (simp_all add: ks_def)
  have mine: "IsMine demo_crypt False ks (p2pkh 3) = Some True" by (simp add: IsMine.simps is_mine_step_def Solver_p2pkh ks_def)
  from nested_script_hash_not_signed [OF g mine demo_payment(1) [OF refl] demo_payment(2) _ _ _ demo_payment(6), of "paid_to (p2sh 1)" 1 no_cache]
  have "IsMine demo_crypt False ks (p2sh 1) = Some True \<and>
      (\<exists>tx. SignSignature demo_crypt False ks (paid_to (p2sh 1)) spender 0 1 no_cache = (Got False, tx, no_cache))"
    using demo_payment(3-5) by simp
  then show ?thesis by blast
qed

end
