(* ===== verification/NetAddr.thy ===== *)
theory NetAddr
  imports BlockFile
begin

text \<open>
  Network addresses (\<^verbatim>\<open>src/src/netbase.cpp\<close>) and the headers, addresses and inventory items
  of the network protocol (\<^verbatim>\<open>src/src/protocol.cpp\<close>). The classes that derive from one another are
  records that extend one another. Looking names up, sockets and text output are not modelled.
\<close>

section \<open>Addresses\<close>

record CNetAddr =
  na_ip :: bytes

abbreviation netaddr :: "'a CNetAddr_scheme \<Rightarrow> CNetAddr" where
  "netaddr a \<equiv> CNetAddr.truncate a"

definition CNetAddr_Init :: CNetAddr where
  "CNetAddr_Init = \<lparr> na_ip = replicate 16 0 \<rparr>"

definition pchIPv4 :: bytes where
  "pchIPv4 = [0, 0, 0, 0, 0, 0, 0, 0, 0, 0, 0xff, 0xff]"

definition CNetAddr_in_addr :: "bytes \<Rightarrow> CNetAddr" where
  "CNetAddr_in_addr ipv4Addr = \<lparr> na_ip = pchIPv4 @ take 4 ipv4Addr \<rparr>"

definition GetByte :: "'a CNetAddr_scheme \<Rightarrow> nat \<Rightarrow> byte" where
  "GetByte a n = na_ip a ! (15 - n)"

text \<open>\<^verbatim>\<open>memcmp(ip, p, n) == 0\<close>.\<close>

definition ip_starts :: "'a CNetAddr_scheme \<Rightarrow> bytes \<Rightarrow> bool" where
  "ip_starts a p = (take (length p) (na_ip a) = p)"

definition IsIPv4 :: "'a CNetAddr_scheme \<Rightarrow> bool" where
  "IsIPv4 a = ip_starts a pchIPv4"

definition IsRFC1918 :: "'a CNetAddr_scheme \<Rightarrow> bool" where
  "IsRFC1918 a =
     (IsIPv4 a \<and>
      (GetByte a 3 = 10 \<or>
       (GetByte a 3 = 192 \<and> GetByte a 2 = 168) \<or>
       (GetByte a 3 = 172 \<and> (GetByte a 2 \<ge> 16 \<and> GetByte a 2 \<le> 31))))"

definition IsRFC3927 :: "'a CNetAddr_scheme \<Rightarrow> bool" where
  "IsRFC3927 a = (IsIPv4 a \<and> (GetByte a 3 = 169 \<and> GetByte a 2 = 254))"

definition IsRFC3849 :: "'a CNetAddr_scheme \<Rightarrow> bool" where
  "IsRFC3849 a = (GetByte a 15 = 0x20 \<and> GetByte a 14 = 0x01 \<and> GetByte a 13 = 0x0D \<and> GetByte a 12 = 0xB8)"

definition IsRFC3964 :: "'a CNetAddr_scheme \<Rightarrow> bool" where
  "IsRFC3964 a = (GetByte a 15 = 0x20 \<and> GetByte a 14 = 0x02)"

definition IsRFC6052 :: "'a CNetAddr_scheme \<Rightarrow> bool" where
  "IsRFC6052 a = ip_starts a [0, 0x64, 0xFF, 0x9B, 0, 0, 0, 0, 0, 0, 0, 0]"

definition IsRFC4380 :: "'a CNetAddr_scheme \<Rightarrow> bool" where
  "IsRFC4380 a = (GetByte a 15 = 0x20 \<and> GetByte a 14 = 0x01 \<and> GetByte a 13 = 0 \<and> GetByte a 12 = 0)"

definition IsRFC4862 :: "'a CNetAddr_scheme \<Rightarrow> bool" where
  "IsRFC4862 a = ip_starts a [0xFE, 0x80, 0, 0, 0, 0, 0, 0]"

definition IsRFC4193 :: "'a CNetAddr_scheme \<Rightarrow> bool" where
  "IsRFC4193 a = (and (GetByte a 15) 0xFE = 0xFC)"

definition IsRFC6145 :: "'a CNetAddr_scheme \<Rightarrow> bool" where
  "IsRFC6145 a = ip_starts a [0, 0, 0, 0, 0, 0, 0, 0, 0xFF, 0xFF, 0, 0]"

definition IsRFC4843 :: "'a CNetAddr_scheme \<Rightarrow> bool" where
  "IsRFC4843 a = (GetByte a 15 = 0x20 \<and> GetByte a 14 = 0x01 \<and> GetByte a 13 = 0x00 \<and> and (GetByte a 12) 0xF0 = 0x10)"

definition IsLocal :: "'a CNetAddr_scheme \<Rightarrow> bool" where
  "IsLocal a =
     (if IsIPv4 a \<and> (GetByte a 3 = 127 \<or> GetByte a 3 = 0) then True
      else if na_ip a = [0, 0, 0, 0, 0, 0, 0, 0, 0, 0, 0, 0, 0, 0, 0, 1] then True
      else False)"

definition IsMulticast :: "'a CNetAddr_scheme \<Rightarrow> bool" where
  "IsMulticast a = ((IsIPv4 a \<and> and (GetByte a 3) 0xF0 = 0xE0) \<or> GetByte a 15 = 0xFF)"

text \<open>The constant \<^verbatim>\<open>INADDR_NONE\<close> of the socket library has all bits set.\<close>

definition CNetAddr_IsValid :: "'a CNetAddr_scheme \<Rightarrow> bool" where
  "CNetAddr_IsValid a =
     (if ip_starts a (drop 3 pchIPv4) then False
      else if na_ip a = replicate 16 0 then False
      else if IsRFC3849 a then False
      else if IsIPv4 a \<and> drop 12 (na_ip a) = [0xff, 0xff, 0xff, 0xff] then False
      else if IsIPv4 a \<and> drop 12 (na_ip a) = [0, 0, 0, 0] then False
      else True)"

definition IsRoutable :: "'a CNetAddr_scheme \<Rightarrow> bool" where
  "IsRoutable a =
     (CNetAddr_IsValid a \<and>
      \<not> (IsRFC1918 a \<or> IsRFC3927 a \<or> IsRFC4862 a \<or> IsRFC4193 a \<or> IsRFC4843 a \<or> IsLocal a))"

text \<open>
  The loop of \<^verbatim>\<open>GetGroup\<close>: whole bytes from \<open>nStartByte\<close> on, then the bits that are left with the
  other bits of their byte set.
\<close>

function group_bytes :: "'a CNetAddr_scheme \<Rightarrow> nat \<Rightarrow> nat \<Rightarrow> bytes" where
  "group_bytes a nStartByte nBits =
     (if nBits \<ge> 8 then GetByte a (15 - nStartByte) # group_bytes a (nStartByte + 1) (nBits - 8)
      else if nBits > 0 then [or (GetByte a (15 - nStartByte)) (push_bit nBits 1 - 1)]
      else [])"
  by pat_completeness auto
termination by (relation "measure (\<lambda>(_, _, nBits). nBits)") auto

declare group_bytes.simps [simp del]

definition GetGroup :: "'a CNetAddr_scheme \<Rightarrow> bytes" where
  "GetGroup a =
     (let (nClass, nStartByte, nBits) = (0, 0, 16);
          (nClass, nBits) = (if IsLocal a then (254, 0) else (nClass, nBits))
      in if \<not> IsRoutable a then 255 # group_bytes a nStartByte 0
         else if IsIPv4 a \<or> IsRFC6145 a \<or> IsRFC6052 a then 1 # group_bytes a 12 nBits
         else if IsRFC3964 a then 1 # group_bytes a 2 nBits
         else if IsRFC4380 a then [1, xor (GetByte a 3) 0xFF, xor (GetByte a 2) 0xFF]
         else if GetByte a 15 = 0x20 \<and> GetByte a 14 = 0x11 \<and> GetByte a 13 = 0x04 \<and> GetByte a 12 = 0x70
         then nClass # group_bytes a nStartByte 36
         else nClass # group_bytes a nStartByte 32)"

definition CNetAddr_GetHash :: "'l openssl_scheme \<Rightarrow> 'a CNetAddr_scheme \<Rightarrow> int64" where
  "CNetAddr_GetHash lib a = bytes_word (take 8 (image256 (Hash lib (na_ip a))))"

section \<open>Services\<close>

record CService = CNetAddr +
  sv_port :: uint16

abbreviation service :: "'a CService_scheme \<Rightarrow> CService" where
  "service a \<equiv> CService.truncate a"

definition CService_Init :: CService where
  "CService_Init = CNetAddr.extend CNetAddr_Init \<lparr> sv_port = 0 \<rparr>"

definition GetKey :: "'a CService_scheme \<Rightarrow> bytes" where
  "GetKey a = na_ip a @ [ucast (drop_bit 8 (sv_port a)), ucast (and (sv_port a) 0x0FF)]"

text \<open>\<^verbatim>\<open>htons\<close> swaps the bytes of the port, which are then written least significant first.\<close>

definition htons :: "uint16 \<Rightarrow> uint16" where
  "htons p = or (push_bit 8 (and p 0xFF)) (drop_bit 8 p)"

definition Serialize_CNetAddr :: "'a CNetAddr_scheme \<Rightarrow> bytes" where
  "Serialize_CNetAddr a = na_ip a"

definition Unserialize_CNetAddr :: "bytes \<Rightarrow> (CNetAddr \<times> bytes) option" where
  "Unserialize_CNetAddr s = do { (b, s) \<leftarrow> read_bytes 16 s; Some (\<lparr> na_ip = b \<rparr>, s) }"

definition Serialize_CService :: "'a CService_scheme \<Rightarrow> bytes" where
  "Serialize_CService a = na_ip a @ Serialize_word 2 (htons (sv_port a))"

definition Unserialize_CService :: "bytes \<Rightarrow> (CService \<times> bytes) option" where
  "Unserialize_CService s = do {
     (b, s) \<leftarrow> read_bytes 16 s;
     (portN, s) \<leftarrow> Unserialize_word 2 s;
     Some (\<lparr> na_ip = b, sv_port = htons portN \<rparr>, s) }"

section \<open>Addresses of peers\<close>

text \<open>
  A time that is an \<^verbatim>\<open>int64\<close> in the code is an integer here: the times are those of the clock,
  far from the bounds of the type.
\<close>

record CAddress = CService +
  ad_nServices :: uint64
  ad_nTime :: uint32
  ad_nLastTry :: int

definition NODE_NETWORK :: uint64 where
  "NODE_NETWORK = push_bit 0 1"

definition CAddress_new :: "CService \<Rightarrow> uint64 \<Rightarrow> CAddress" where
  "CAddress_new ipIn nServicesIn =
     CService.extend ipIn \<lparr> ad_nServices = nServicesIn, ad_nTime = 100000000, ad_nLastTry = 0 \<rparr>"

definition CAddress_Init :: CAddress where
  "CAddress_Init = CAddress_new CService_Init NODE_NETWORK"

definition CADDR_TIME_VERSION :: int where
  "CADDR_TIME_VERSION = 31402"

text \<open>The stream's purposes \<^verbatim>\<open>SER_DISK\<close> and \<^verbatim>\<open>SER_GETHASH\<close> and its version are arguments.\<close>

definition addr_has_time :: "bool \<Rightarrow> bool \<Rightarrow> int32 \<Rightarrow> bool" where
  "addr_has_time fDisk fGetHash nVer = (fDisk \<or> (sint nVer \<ge> CADDR_TIME_VERSION \<and> \<not> fGetHash))"

definition Serialize_CAddress :: "bool \<Rightarrow> bool \<Rightarrow> int32 \<Rightarrow> 'a CAddress_scheme \<Rightarrow> bytes" where
  "Serialize_CAddress fDisk fGetHash nVer a =
     (if fDisk then Serialize_word 4 nVer else []) @
     (if addr_has_time fDisk fGetHash nVer then Serialize_word 4 (ad_nTime a) else []) @
     Serialize_word 8 (ad_nServices a) @ Serialize_CService a"

definition Unserialize_CAddress :: "bool \<Rightarrow> bool \<Rightarrow> int32 \<Rightarrow> bytes \<Rightarrow> (CAddress \<times> bytes) option" where
  "Unserialize_CAddress fDisk fGetHash nVer s = do {
     (nVer, s) \<leftarrow> (if fDisk then Unserialize_word 4 s else Some (nVer, s));
     (nTime, s) \<leftarrow> (if addr_has_time fDisk fGetHash nVer then Unserialize_word 4 s
                    else Some (ad_nTime CAddress_Init, s));
     (nServices, s) \<leftarrow> Unserialize_word 8 s;
     (ip, s) \<leftarrow> Unserialize_CService s;
     Some ((CAddress_new ip nServices)\<lparr> ad_nTime := nTime \<rparr>, s) }"

section \<open>Message headers\<close>

record CMessageHeader =
  mh_pchMessageStart :: bytes
  mh_pchCommand :: bytes
  mh_nMessageSize :: uint32
  mh_nChecksum :: uint32

definition COMMAND_SIZE :: nat where
  "COMMAND_SIZE = 12"

text \<open>The C string given is a byte list without null bytes; \<^verbatim>\<open>strncpy\<close> fills up with null bytes.\<close>

definition CMessageHeader_new :: "bool \<Rightarrow> bytes \<Rightarrow> uint32 \<Rightarrow> CMessageHeader" where
  "CMessageHeader_new fTestNet pszCommand nMessageSizeIn =
     \<lparr> mh_pchMessageStart = GetMessageStart fTestNet,
       mh_pchCommand = take COMMAND_SIZE (pszCommand @ replicate COMMAND_SIZE 0),
       mh_nMessageSize = nMessageSizeIn, mh_nChecksum = 0 \<rparr>"

definition CMessageHeader_Init :: "bool \<Rightarrow> CMessageHeader" where
  "CMessageHeader_Init fTestNet =
     \<lparr> mh_pchMessageStart = GetMessageStart fTestNet, mh_pchCommand = (replicate COMMAND_SIZE 0)[1 := 1],
       mh_nMessageSize = - 1, mh_nChecksum = 0 \<rparr>"

definition CMessageHeader_GetCommand :: "CMessageHeader \<Rightarrow> bytes" where
  "CMessageHeader_GetCommand h =
     (if mh_pchCommand h ! (COMMAND_SIZE - 1) = 0 then takeWhile (\<lambda>c. c \<noteq> 0) (mh_pchCommand h)
      else mh_pchCommand h)"

text \<open>A \<^verbatim>\<open>char\<close> is signed on the supported targets.\<close>

fun command_ok :: "bytes \<Rightarrow> bool" where
  "command_ok [] = True"
| "command_ok (c # cs) =
     (if c = 0 then list_all (\<lambda>c. c = 0) cs
      else if sint c < 32 \<or> sint c > 0x7E then False
      else command_ok cs)"

definition CMessageHeader_IsValid :: "bool \<Rightarrow> CMessageHeader \<Rightarrow> bool" where
  "CMessageHeader_IsValid fTestNet h =
     (if mh_pchMessageStart h \<noteq> GetMessageStart fTestNet then False
      else if \<not> command_ok (mh_pchCommand h) then False
      else if unat (mh_nMessageSize h) > MAX_SIZE then False
      else True)"

definition Serialize_CMessageHeader :: "CMessageHeader \<Rightarrow> bytes" where
  "Serialize_CMessageHeader h =
     mh_pchMessageStart h @ mh_pchCommand h @ Serialize_word 4 (mh_nMessageSize h) @ Serialize_word 4 (mh_nChecksum h)"

definition Unserialize_CMessageHeader :: "bytes \<Rightarrow> (CMessageHeader \<times> bytes) option" where
  "Unserialize_CMessageHeader s = do {
     (start, s) \<leftarrow> read_bytes 4 s;
     (cmd, s) \<leftarrow> read_bytes COMMAND_SIZE s;
     (size, s) \<leftarrow> Unserialize_word 4 s;
     (sum, s) \<leftarrow> Unserialize_word 4 s;
     Some (\<lparr> mh_pchMessageStart = start, mh_pchCommand = cmd, mh_nMessageSize = size, mh_nChecksum = sum \<rparr>, s) }"

section \<open>Inventory items\<close>

record CInv =
  inv_type :: int32
  inv_hash :: uint256

definition ppszTypeName :: "string list" where
  "ppszTypeName = [''ERROR'', ''tx'', ''block'', ''sigpowhash'']"

text \<open>An unknown name raises an exception: \<open>None\<close>.\<close>

definition CInv_new :: "string \<Rightarrow> uint256 \<Rightarrow> CInv option" where
  "CInv_new strType hashIn =
     (case find (\<lambda>i. strType = ppszTypeName ! i) [1..<length ppszTypeName] of
        Some i \<Rightarrow> Some \<lparr> inv_type = of_nat i, inv_hash = hashIn \<rparr>
      | None \<Rightarrow> None)"

definition CInv_less :: "CInv \<Rightarrow> CInv \<Rightarrow> bool" where
  "CInv_less a b = (sint (inv_type a) < sint (inv_type b) \<or> (inv_type a = inv_type b \<and> inv_hash a < inv_hash b))"

definition IsKnownType :: "CInv \<Rightarrow> bool" where
  "IsKnownType v = (sint (inv_type v) \<ge> 1 \<and> sint (inv_type v) < int (length ppszTypeName))"

definition CInv_GetCommand :: "CInv \<Rightarrow> string option" where
  "CInv_GetCommand v = (if \<not> IsKnownType v then None else Some (ppszTypeName ! nat (sint (inv_type v))))"

definition Serialize_CInv :: "CInv \<Rightarrow> bytes" where
  "Serialize_CInv v = Serialize_word 4 (inv_type v) @ Serialize_word 32 (inv_hash v)"

definition Unserialize_CInv :: "bytes \<Rightarrow> (CInv \<times> bytes) option" where
  "Unserialize_CInv s = do {
     (t, s) \<leftarrow> Unserialize_word 4 s;
     (h, s) \<leftarrow> Unserialize_word 32 s;
     Some (\<lparr> inv_type = t, inv_hash = h \<rparr>, s) }"

section \<open>Formats\<close>

lemma htons_htons [simp]: "htons (htons p) = p"
proof -
  have m: "bit (0xFF :: uint16) n \<longleftrightarrow> n < 8" for n
    using bit_mask_iff [where ?'a = uint16, of 8 n] by (auto simp: mask_eq_exp_minus_1)
  have "bit (htons q) n \<longleftrightarrow> (if n < 8 then bit q (8 + n) else bit q (n - 8) \<and> n < 16)" for q n
    unfolding htons_def bit_or_iff bit_push_bit_iff bit_drop_bit_eq bit_and_iff m by (auto dest: bit_imp_le_length)
  then show ?thesis by (intro bit_eqI) (auto dest: bit_imp_le_length)
qed

interpretation netaddr_fmt: codec "Serialize_CNetAddr :: CNetAddr \<Rightarrow> bytes" Unserialize_CNetAddr "\<lambda>a. length (na_ip a) = 16"
  by unfold_locales (simp add: Serialize_CNetAddr_def Unserialize_CNetAddr_def)

interpretation service_fmt: codec "Serialize_CService :: CService \<Rightarrow> bytes" Unserialize_CService "\<lambda>a. length (na_ip a) = 16"
  by unfold_locales (simp add: Serialize_CService_def Unserialize_CService_def u16.dec_enc)

lemma CAddress_parts: "(CAddress_new (service a) (ad_nServices a))\<lparr> ad_nTime := ad_nTime a \<rparr> = CAddress.truncate (a\<lparr> ad_nLastTry := 0 \<rparr>)"
  by (simp add: CAddress_new_def CAddress.defs CService.defs)

text \<open>What a peer is sent about an address: everything but the last time it was tried.\<close>

interpretation address_fmt: codec "Serialize_CAddress False False nVer :: CAddress \<Rightarrow> bytes" "Unserialize_CAddress False False nVer"
    "\<lambda>a. length (na_ip a) = 16 \<and> ad_nLastTry a = 0 \<and> (sint nVer \<ge> CADDR_TIME_VERSION \<or> ad_nTime a = 100000000)"
proof (unfold_locales, goal_cases)
  case (1 x rest)
  have "Unserialize_CService (Serialize_CService x @ rest) = Some (service x, rest)"
    using service_fmt.dec_enc [of "service x" rest] 1 by (simp add: Serialize_CService_def CService.defs)
  then show ?case
    using 1 CAddress_parts [of x]
    by (auto simp: Serialize_CAddress_def Unserialize_CAddress_def addr_has_time_def u32.dec_enc u64.dec_enc CAddress_Init_def CAddress_new_def
        CAddress.defs CService.defs)
qed

text \<open>On disk the version is written first and read back.\<close>

lemma Unserialize_CAddress_disk:
  assumes "length (na_ip a) = 16"
  shows "Unserialize_CAddress True g v (Serialize_CAddress True g' w a @ rest) = Some (CAddress.truncate (a\<lparr> ad_nLastTry := 0 \<rparr>), rest)"
proof -
  have "Unserialize_CService (Serialize_CService a @ rest) = Some (service a, rest)"
    using service_fmt.dec_enc [of "service a" rest] assms by (simp add: Serialize_CService_def CService.defs)
  then show ?thesis
    using CAddress_parts [of a]
    by (simp add: Serialize_CAddress_def Unserialize_CAddress_def addr_has_time_def u32.dec_enc u64.dec_enc)
qed

interpretation header_fmt: codec Serialize_CMessageHeader Unserialize_CMessageHeader
    "\<lambda>h. length (mh_pchMessageStart h) = 4 \<and> length (mh_pchCommand h) = COMMAND_SIZE"
  by unfold_locales (simp add: Serialize_CMessageHeader_def Unserialize_CMessageHeader_def u32.dec_enc)

interpretation inv_fmt: codec Serialize_CInv Unserialize_CInv "\<lambda>_. True"
  by unfold_locales (simp add: Serialize_CInv_def Unserialize_CInv_def u32.dec_enc u256.dec_enc)

section \<open>Headers and inventory\<close>

lemma command_ok_append:
  assumes "list_all (\<lambda>c. 32 \<le> sint c \<and> sint c \<le> 0x7E) cs"
  shows "command_ok (cs @ replicate n 0)"
  using assms by (induction cs) (auto simp: list_all_iff gr0_conv_Suc, cases n, auto simp: list_all_iff)

lemma takeWhile_command:
  assumes "list_all (\<lambda>c. 32 \<le> sint c \<and> sint c \<le> 0x7E) (cs :: bytes)"
  shows "takeWhile (\<lambda>c. c \<noteq> 0) (cs @ replicate n 0) = cs"
proof -
  have "\<forall>c\<in>set cs. c \<noteq> 0" using assms by (auto simp: list_all_iff)
  then show ?thesis by (cases n) (auto simp: takeWhile_tail)
qed

text \<open>A header built for a printable command passes the receiver's check and names the command.\<close>

lemma header_of_command:
  assumes "list_all (\<lambda>c. 32 \<le> sint c \<and> sint c \<le> 0x7E) cmd" and "length cmd \<le> COMMAND_SIZE" and "unat n \<le> MAX_SIZE"
  shows "CMessageHeader_IsValid t (CMessageHeader_new t cmd n)" and "CMessageHeader_GetCommand (CMessageHeader_new t cmd n) = cmd"
proof -
  have c: "take COMMAND_SIZE (cmd @ replicate COMMAND_SIZE 0) = cmd @ replicate (COMMAND_SIZE - length cmd) (0 :: byte)"
    using assms(2) by simp
  show "CMessageHeader_IsValid t (CMessageHeader_new t cmd n)"
    using assms(3) by (simp add: CMessageHeader_IsValid_def CMessageHeader_new_def c command_ok_append [OF assms(1)] del: take_append)
  show "CMessageHeader_GetCommand (CMessageHeader_new t cmd n) = cmd"
  proof (cases "length cmd = COMMAND_SIZE")
    case True
    then have "cmd ! (COMMAND_SIZE - 1) \<noteq> 0"
      using assms(1) by (auto simp: list_all_length COMMAND_SIZE_def dest: spec [of _ 11])
    then show ?thesis using True by (simp add: CMessageHeader_GetCommand_def CMessageHeader_new_def)
  next
    case False
    then have "(cmd @ replicate (COMMAND_SIZE - length cmd) (0 :: byte)) ! (COMMAND_SIZE - 1) = 0"
      using assms(2) by (auto simp: nth_append COMMAND_SIZE_def)
    then show ?thesis
      by (simp add: CMessageHeader_GetCommand_def CMessageHeader_new_def c takeWhile_command [OF assms(1)] del: take_append)
  qed
qed

text \<open>An empty header is not valid: its command has a byte after a null byte.\<close>

lemma empty_header_invalid: "\<not> CMessageHeader_IsValid t (CMessageHeader_Init t)"
  by (simp add: CMessageHeader_IsValid_def CMessageHeader_Init_def COMMAND_SIZE_def numeral_eq_Suc)

lemma CInv_new_command: "CInv_new str h = Some v \<Longrightarrow> CInv_GetCommand v = Some str"
  by (auto simp: CInv_new_def CInv_GetCommand_def IsKnownType_def ppszTypeName_def upt_rec numeral_eq_Suc split: if_splits)

section \<open>Groups\<close>

lemma group_bytes_0 [simp]: "group_bytes a k 0 = []"
  by (simp add: group_bytes.simps)

lemma group_bytes_16: "group_bytes a k 16 = [GetByte a (15 - k), GetByte a (15 - (k + 1))]"
  by (simp add: group_bytes.simps)

lemma group_bytes_32: "group_bytes a 0 32 = [GetByte a 15, GetByte a 14, GetByte a 13, GetByte a 12]"
  by (simp add: group_bytes.simps)

lemma unroutable_group: "\<not> IsRoutable a \<Longrightarrow> GetGroup a = [255]"
  by (simp add: GetGroup_def)

lemma routable_not_local: "IsRoutable a \<Longrightarrow> \<not> IsLocal a"
  by (simp add: IsRoutable_def)

text \<open>The IPv4 address inside an address: mapped, translated, with the well-known prefix, in a 6to4 tunnel, or (inverted) in a Teredo tunnel.\<close>

definition encapsulated :: "'a CNetAddr_scheme \<Rightarrow> byte \<Rightarrow> byte \<Rightarrow> bool" where
  "encapsulated a x y \<longleftrightarrow>
     (if IsIPv4 a \<or> IsRFC6145 a \<or> IsRFC6052 a then GetByte a 3 = x \<and> GetByte a 2 = y
      else if IsRFC3964 a then GetByte a 13 = x \<and> GetByte a 12 = y
      else IsRFC4380 a \<and> GetByte a 3 = not x \<and> GetByte a 2 = not y)"

lemma xor_FF: "xor (b :: byte) 0xFF = not b"
  by (rule bit_eqI) (auto simp: bit_xor_iff bit_not_iff bit_numeral_rec possible_bit_word less_Suc_eq numeral_eq_Suc)

lemma encapsulated_group:
  assumes "IsRoutable a" and "encapsulated a x y"
  shows "GetGroup a = [1, x, y]"
  using assms routable_not_local [OF assms(1)]
  by (auto simp: GetGroup_def encapsulated_def group_bytes_16 xor_FF split: if_splits)

text \<open>
  The /36 groups meant for the addresses 2001:0470::/32 of a tunnel broker are given to 2011:0470::/32 by the comparison
  with \<^verbatim>\<open>0x11\<close>; all addresses of the broker are in one group.
\<close>

lemma tunnel_broker_group:
  assumes "GetByte a 15 = 0x20" and "GetByte a 14 = 0x01" and "GetByte a 13 = 0x04" and "GetByte a 12 = 0x70"
    and "IsRoutable a"
  shows "GetGroup a = [0, 0x20, 0x01, 0x04, 0x70]"
proof -
  have "\<not> ip_starts a p" if "length p > 0" "p ! 0 = 0" for p
  proof
    assume "ip_starts a p"
    then have "take (length p) (na_ip a) ! 0 = p ! 0" by (simp add: ip_starts_def)
    then show False using that assms(1) by (simp add: GetByte_def)
  qed
  then have "\<not> IsIPv4 a" "\<not> IsRFC6145 a" "\<not> IsRFC6052 a"
    by (simp_all add: IsIPv4_def IsRFC6145_def IsRFC6052_def pchIPv4_def)
  moreover have "\<not> IsRFC3964 a" "\<not> IsRFC4380 a" using assms by (simp_all add: IsRFC3964_def IsRFC4380_def)
  ultimately show ?thesis
    using assms routable_not_local [OF assms(5)] by (simp add: GetGroup_def group_bytes_32)
qed

end
