(* ===== verification/AddrMan.thy ===== *)
theory AddrMan
  imports NetAddr "HOL-Library.Multiset"
begin

text \<open>
  The address manager (\<^verbatim>\<open>src/src/addrman.h\<close> and \<^verbatim>\<open>src/src/addrman.cpp\<close>): a node keeps the addresses it
  heard of in 256 "new" buckets and those it has connected to in 64 "tried" buckets, and a few indexes over them. Each
  operation is a function on the state \<open>CAddrMan\<close>. \<open>None\<close> stands for a failed assertion or an access outside a
  vector, which end the program. The locks are left out: every operation holds the one lock throughout.

  The draws of \<^verbatim>\<open>GetRandInt\<close> are an argument \<open>r\<close> of an operation: \<open>r k\<close> is the value of its \<open>k\<close>-th draw before
  the remainder is taken. \<open>nNow\<close> is the adjusted time. A C \<^verbatim>\<open>int\<close> or \<^verbatim>\<open>int64\<close> is an integer: identifiers and
  counts stay below the number of operations, times are those of the clock.
\<close>

section \<open>Random numbers\<close>

text \<open>\<^verbatim>\<open>GetRand\<close> draws until the value is below a multiple of the bound; \<open>nRand\<close> is the value the loop ends with.\<close>

definition GetRand_range :: "nat \<Rightarrow> nat" where
  "GetRand_range nMax = (2 ^ 64 - 1) div nMax * nMax"

definition GetRand :: "nat \<Rightarrow> nat \<Rightarrow> nat" where
  "GetRand nRand nMax = (if nMax = 0 then 0 else nRand mod nMax)"

section \<open>Entries\<close>

record CAddrInfo = CAddress +
  ai_source :: CNetAddr
  ai_nLastSuccess :: int
  ai_nAttempts :: int
  ai_nRefCount :: int
  ai_fInTried :: bool
  ai_nRandomPos :: int

definition CAddrInfo_new :: "CAddress \<Rightarrow> CNetAddr \<Rightarrow> CAddrInfo" where
  "CAddrInfo_new addrIn addrSource =
     (CAddress.extend addrIn
        \<lparr> ai_source = addrSource, ai_nLastSuccess = 0, ai_nAttempts = 0, ai_nRefCount = 0, ai_fInTried = False,
          ai_nRandomPos = - 1 \<rparr>)\<lparr> ad_nLastTry := 0 \<rparr>"

definition CAddrInfo_Init :: CAddrInfo where
  "CAddrInfo_Init = CAddrInfo_new CAddress_Init CNetAddr_Init"

definition ADDRMAN_TRIED_BUCKET_COUNT :: nat where "ADDRMAN_TRIED_BUCKET_COUNT = 64"
definition ADDRMAN_TRIED_BUCKET_SIZE :: nat where "ADDRMAN_TRIED_BUCKET_SIZE = 64"
definition ADDRMAN_NEW_BUCKET_COUNT :: nat where "ADDRMAN_NEW_BUCKET_COUNT = 256"
definition ADDRMAN_NEW_BUCKET_SIZE :: nat where "ADDRMAN_NEW_BUCKET_SIZE = 64"
definition ADDRMAN_TRIED_BUCKETS_PER_GROUP :: uint64 where "ADDRMAN_TRIED_BUCKETS_PER_GROUP = 4"
definition ADDRMAN_NEW_BUCKETS_PER_SOURCE_GROUP :: uint64 where "ADDRMAN_NEW_BUCKETS_PER_SOURCE_GROUP = 32"
definition ADDRMAN_NEW_BUCKETS_PER_ADDRESS :: int where "ADDRMAN_NEW_BUCKETS_PER_ADDRESS = 4"
definition ADDRMAN_TRIED_ENTRIES_INSPECT_ON_EVICT :: nat where "ADDRMAN_TRIED_ENTRIES_INSPECT_ON_EVICT = 4"
definition ADDRMAN_HORIZON_DAYS :: int where "ADDRMAN_HORIZON_DAYS = 30"
definition ADDRMAN_RETRIES :: int where "ADDRMAN_RETRIES = 3"
definition ADDRMAN_MAX_FAILURES :: int where "ADDRMAN_MAX_FAILURES = 10"
definition ADDRMAN_MIN_FAIL_DAYS :: int where "ADDRMAN_MIN_FAIL_DAYS = 7"
definition ADDRMAN_GETADDR_MAX_PCT :: nat where "ADDRMAN_GETADDR_MAX_PCT = 23"
definition ADDRMAN_GETADDR_MAX :: nat where "ADDRMAN_GETADDR_MAX = 2500"

definition hash64 :: "'l openssl_scheme \<Rightarrow> bytes \<Rightarrow> uint64" where
  "hash64 lib ss = ucast (Hash lib ss)"

definition GetTriedBucket :: "'l openssl_scheme \<Rightarrow> bytes \<Rightarrow> 'a CService_scheme \<Rightarrow> nat" where
  "GetTriedBucket lib nKey a =
     (let hash1 = hash64 lib (Serialize_vector_bytes nKey @ Serialize_vector_bytes (GetKey a));
          hash2 = hash64 lib (Serialize_vector_bytes nKey @ Serialize_vector_bytes (GetGroup a) @
                    Serialize_word 8 (hash1 mod ADDRMAN_TRIED_BUCKETS_PER_GROUP))
      in unat hash2 mod ADDRMAN_TRIED_BUCKET_COUNT)"

definition GetNewBucket :: "'l openssl_scheme \<Rightarrow> bytes \<Rightarrow> CNetAddr \<Rightarrow> 'a CNetAddr_scheme \<Rightarrow> nat" where
  "GetNewBucket lib nKey src a =
     (let vchSourceGroupKey = Serialize_vector_bytes (GetGroup src);
          hash1 = hash64 lib (Serialize_vector_bytes nKey @ Serialize_vector_bytes (GetGroup a) @ vchSourceGroupKey);
          hash2 = hash64 lib (Serialize_vector_bytes nKey @ vchSourceGroupKey @
                    Serialize_word 8 (hash1 mod ADDRMAN_NEW_BUCKETS_PER_SOURCE_GROUP))
      in unat hash2 mod ADDRMAN_NEW_BUCKET_COUNT)"

definition IsTerrible :: "int \<Rightarrow> 'a CAddrInfo_scheme \<Rightarrow> bool" where
  "IsTerrible nNow i =
     (if ad_nLastTry i \<noteq> 0 \<and> ad_nLastTry i \<ge> nNow - 60 then False
      else if uint (ad_nTime i) > nNow + 10 * 60 then True
      else if ad_nTime i = 0 \<or> nNow - uint (ad_nTime i) > ADDRMAN_HORIZON_DAYS * 86400 then True
      else if ai_nLastSuccess i = 0 \<and> ai_nAttempts i \<ge> ADDRMAN_RETRIES then True
      else if nNow - ai_nLastSuccess i > ADDRMAN_MIN_FAIL_DAYS * 86400 \<and> ai_nAttempts i \<ge> ADDRMAN_MAX_FAILURES then True
      else False)"

section \<open>The manager\<close>

record CAddrMan =
  am_nKey :: bytes
  am_nIdCount :: int
  am_mapInfo :: "int \<rightharpoonup> CAddrInfo"
  am_mapAddr :: "CNetAddr \<rightharpoonup> int"
  am_vRandom :: "int list"
  am_nTried :: int
  am_vvTried :: "int list list"
  am_nNew :: int
  am_vvNew :: "int set list"

text \<open>The key comes from \<^verbatim>\<open>RAND_bytes\<close>.\<close>

definition CAddrMan_new :: "bytes \<Rightarrow> CAddrMan" where
  "CAddrMan_new nKey =
     \<lparr> am_nKey = nKey, am_nIdCount = 0, am_mapInfo = Map.empty, am_mapAddr = Map.empty, am_vRandom = [], am_nTried = 0,
       am_vvTried = replicate ADDRMAN_TRIED_BUCKET_COUNT [], am_nNew = 0,
       am_vvNew = replicate ADDRMAN_NEW_BUCKET_COUNT {} \<rparr>"

definition AddrMan_size :: "CAddrMan \<Rightarrow> nat" where
  "AddrMan_size s = length (am_vRandom s)"

text \<open>An assignment through a reference to the entry \<open>n\<close>.\<close>

definition set_info :: "int \<Rightarrow> CAddrInfo \<Rightarrow> CAddrMan \<Rightarrow> CAddrMan" where
  "set_info n i s = s\<lparr> am_mapInfo := (am_mapInfo s)(n \<mapsto> i) \<rparr>"

text \<open>\<^verbatim>\<open>mapInfo[n]\<close> adds a fresh entry where there is none.\<close>

definition info_at :: "int \<Rightarrow> CAddrMan \<Rightarrow> CAddrInfo \<times> CAddrMan" where
  "info_at n s = (case am_mapInfo s n of Some i \<Rightarrow> (i, s) | None \<Rightarrow> (CAddrInfo_Init, set_info n CAddrInfo_Init s))"

definition AddrMan_Find :: "CNetAddr \<Rightarrow> CAddrMan \<Rightarrow> (int \<times> CAddrInfo) option" where
  "AddrMan_Find addr s =
     (case am_mapAddr s addr of
        None \<Rightarrow> None
      | Some n \<Rightarrow> (case am_mapInfo s n of Some i \<Rightarrow> Some (n, i) | None \<Rightarrow> None))"

definition AddrMan_Create :: "CAddress \<Rightarrow> CNetAddr \<Rightarrow> CAddrMan \<Rightarrow> int \<times> CAddrMan" where
  "AddrMan_Create addr addrSource s =
     (let nId = am_nIdCount s;
          i = (CAddrInfo_new addr addrSource)\<lparr> ai_nRandomPos := int (length (am_vRandom s)) \<rparr>
      in (nId, s\<lparr> am_nIdCount := nId + 1, am_mapInfo := (am_mapInfo s)(nId \<mapsto> i),
                  am_mapAddr := (am_mapAddr s)(netaddr addr \<mapsto> nId), am_vRandom := am_vRandom s @ [nId] \<rparr>))"

definition SwapRandom :: "int \<Rightarrow> int \<Rightarrow> CAddrMan \<Rightarrow> CAddrMan option" where
  "SwapRandom nRndPos1 nRndPos2 s =
     (if nRndPos1 = nRndPos2 then Some s
      else if nRndPos1 < 0 \<or> nRndPos2 < 0 then None
      else if nRndPos1 \<ge> int (length (am_vRandom s)) \<or> nRndPos2 \<ge> int (length (am_vRandom s)) then None
      else
        let nId1 = am_vRandom s ! nat nRndPos1; nId2 = am_vRandom s ! nat nRndPos2 in
        case (am_mapInfo s nId1, am_mapInfo s nId2) of
          (Some i1, Some i2) \<Rightarrow>
            let s = set_info nId1 (i1\<lparr> ai_nRandomPos := nRndPos2 \<rparr>) s;
                i2 = (if nId2 = nId1 then i1\<lparr> ai_nRandomPos := nRndPos2 \<rparr> else i2);
                s = set_info nId2 (i2\<lparr> ai_nRandomPos := nRndPos1 \<rparr>) s
            in Some (s\<lparr> am_vRandom := (am_vRandom s)[nat nRndPos1 := nId2, nat nRndPos2 := nId1] \<rparr>)
        | _ \<Rightarrow> None)"

text \<open>The loop of \<^verbatim>\<open>SelectTried\<close>: \<open>nOldest\<close> and \<open>nOldestPos\<close> are -1 at first.\<close>

fun select_tried :: "(nat \<Rightarrow> nat) \<Rightarrow> nat \<Rightarrow> nat list \<Rightarrow> int \<Rightarrow> int \<Rightarrow> CAddrMan \<Rightarrow> (int \<times> CAddrMan) option" where
  "select_tried r nKBucket [] nOldest nOldestPos s = Some (nOldestPos, s)"
| "select_tried r nKBucket (i # is) nOldest nOldestPos s =
     (let vTried = am_vvTried s ! nKBucket;
          nPos = GetRand (r i) (length vTried - i) + i;
          nTemp = vTried ! nPos;
          vTried = vTried[nPos := vTried ! i, i := nTemp];
          s = s\<lparr> am_vvTried := (am_vvTried s)[nKBucket := vTried] \<rparr>
      in if nOldest \<noteq> - 1 \<and> am_mapInfo s nTemp = None then None
         else if nOldest = - 1 then select_tried r nKBucket is nTemp (int nPos) s
         else
           let (iTemp, s) = info_at nTemp s; (iOldest, s) = info_at nOldest s in
           if ai_nLastSuccess iTemp < ai_nLastSuccess iOldest then select_tried r nKBucket is nTemp (int nPos) s
           else select_tried r nKBucket is nOldest nOldestPos s)"

definition SelectTried :: "(nat \<Rightarrow> nat) \<Rightarrow> nat \<Rightarrow> CAddrMan \<Rightarrow> (int \<times> CAddrMan) option" where
  "SelectTried r nKBucket s =
     select_tried r nKBucket [0..<min ADDRMAN_TRIED_ENTRIES_INSPECT_ON_EVICT (length (am_vvTried s ! nKBucket))] (- 1) (- 1) s"

text \<open>
  What \<^verbatim>\<open>ShrinkNew\<close> does, in two places, with the entry it removes from a bucket: the entry itself goes with its last
  reference.
\<close>

definition drop_ref :: "int \<Rightarrow> CAddrMan \<Rightarrow> CAddrMan option" where
  "drop_ref nId s =
     (case am_mapInfo s nId of
        None \<Rightarrow> None
      | Some i \<Rightarrow>
          let i = i\<lparr> ai_nRefCount := ai_nRefCount i - 1 \<rparr>; s = set_info nId i s in
          if ai_nRefCount i \<noteq> 0 then Some s
          else
            case SwapRandom (ai_nRandomPos i) (int (length (am_vRandom s)) - 1) s of
              None \<Rightarrow> None
            | Some s \<Rightarrow>
                if am_vRandom s = [] then None
                else Some (s\<lparr> am_vRandom := butlast (am_vRandom s), am_mapAddr := (am_mapAddr s)(netaddr i := None),
                              am_mapInfo := (am_mapInfo s)(nId := None), am_nNew := am_nNew s - 1 \<rparr>))"

text \<open>The first loop of \<^verbatim>\<open>ShrinkNew\<close>: the outer \<open>None\<close> is the failed assertion.\<close>

fun find_terrible :: "int \<Rightarrow> int list \<Rightarrow> CAddrMan \<Rightarrow> int option option" where
  "find_terrible nNow [] s = Some None"
| "find_terrible nNow (n # ns) s =
     (case am_mapInfo s n of
        None \<Rightarrow> None
      | Some i \<Rightarrow> if IsTerrible nNow i then Some (Some n) else find_terrible nNow ns s)"

text \<open>The second loop: the least recently seen among the entries at the positions drawn.\<close>

fun pick_oldest :: "nat list \<Rightarrow> nat \<Rightarrow> int list \<Rightarrow> int \<Rightarrow> CAddrMan \<Rightarrow> (int \<times> CAddrMan) option" where
  "pick_oldest n nI [] nOldest s = Some (nOldest, s)"
| "pick_oldest n nI (m # ms) nOldest s =
     (if nI \<in> set n then
        if nOldest \<noteq> - 1 \<and> am_mapInfo s m = None then None
        else if nOldest = - 1 then pick_oldest n (nI + 1) ms m s
        else
          let (iM, s) = info_at m s; (iOldest, s) = info_at nOldest s in
          if ad_nTime iM < ad_nTime iOldest then pick_oldest n (nI + 1) ms m s
          else pick_oldest n (nI + 1) ms nOldest s
      else pick_oldest n (nI + 1) ms nOldest s)"

definition erase_new :: "nat \<Rightarrow> int \<Rightarrow> CAddrMan \<Rightarrow> CAddrMan" where
  "erase_new b n s = s\<lparr> am_vvNew := (am_vvNew s)[b := (am_vvNew s ! b) - {n}] \<rparr>"

definition insert_new :: "nat \<Rightarrow> int \<Rightarrow> CAddrMan \<Rightarrow> CAddrMan" where
  "insert_new b n s = s\<lparr> am_vvNew := (am_vvNew s)[b := insert n (am_vvNew s ! b)] \<rparr>"

definition ShrinkNew :: "(nat \<Rightarrow> nat) \<Rightarrow> int \<Rightarrow> nat \<Rightarrow> CAddrMan \<Rightarrow> (int \<times> CAddrMan) option" where
  "ShrinkNew r nNow nUBucket s =
     (if nUBucket \<ge> length (am_vvNew s) then None
      else
        let vNew = sorted_list_of_set (am_vvNew s ! nUBucket) in
        case find_terrible nNow vNew s of
          None \<Rightarrow> None
        | Some (Some n) \<Rightarrow> map_option (\<lambda>s. (0, erase_new nUBucket n s)) (drop_ref n s)
        | Some None \<Rightarrow>
            case pick_oldest (map (\<lambda>k. GetRand (r k) (length vNew)) [0, 1, 2, 3]) 0 vNew (- 1) s of
              None \<Rightarrow> None
            | Some (nOldest, s) \<Rightarrow>
                if am_mapInfo s nOldest = None then None
                else map_option (\<lambda>s. (1, erase_new nUBucket nOldest s)) (drop_ref nOldest s))"

text \<open>\<open>info\<close> is the reference to the entry \<open>nId\<close>.\<close>

definition MakeTried :: "'l openssl_scheme \<Rightarrow> (nat \<Rightarrow> nat) \<Rightarrow> int \<Rightarrow> nat \<Rightarrow> CAddrMan \<Rightarrow> CAddrMan option" where
  "MakeTried lib r nId nOrigin s =
     (case am_mapInfo s nId of
        None \<Rightarrow> None
      | Some info \<Rightarrow>
          if nId \<notin> am_vvNew s ! nOrigin then None
          else
            let info = info\<lparr> ai_nRefCount := ai_nRefCount info - int (length (filter (\<lambda>B. nId \<in> B) (am_vvNew s))) \<rparr>;
                s = (set_info nId info s)\<lparr> am_vvNew := map (\<lambda>B. B - {nId}) (am_vvNew s), am_nNew := am_nNew s - 1 \<rparr>
            in if ai_nRefCount info \<noteq> 0 then None
            else
              let nKBucket = GetTriedBucket lib (am_nKey s) info in
              if length (am_vvTried s ! nKBucket) < ADDRMAN_TRIED_BUCKET_SIZE then
                Some ((set_info nId (info\<lparr> ai_fInTried := True \<rparr>) s)
                        \<lparr> am_vvTried := (am_vvTried s)[nKBucket := am_vvTried s ! nKBucket @ [nId]], am_nTried := am_nTried s + 1 \<rparr>)
              else
                case SelectTried r nKBucket s of
                  None \<Rightarrow> None
                | Some (nPos, s) \<Rightarrow>
                    if nPos < 0 \<or> nPos \<ge> int (length (am_vvTried s ! nKBucket)) then None
                    else
                      let nOld = am_vvTried s ! nKBucket ! nat nPos in
                      case am_mapInfo s nOld of
                        None \<Rightarrow> None
                      | Some infoOld \<Rightarrow>
                          let nUBucket = GetNewBucket lib (am_nKey s) (ai_source infoOld) infoOld;
                              s = set_info nOld (infoOld\<lparr> ai_fInTried := False, ai_nRefCount := 1 \<rparr>) s;
                              s = (if card (am_vvNew s ! nUBucket) < ADDRMAN_NEW_BUCKET_SIZE then insert_new nUBucket nOld s
                                   else insert_new nOrigin nOld s);
                              s = s\<lparr> am_nNew := am_nNew s + 1,
                                      am_vvTried := (am_vvTried s)[nKBucket := (am_vvTried s ! nKBucket)[nat nPos := nId]] \<rparr>
                          in map_option (\<lambda>info. set_info nId (info\<lparr> ai_fInTried := True \<rparr>) s) (am_mapInfo s nId))"

text \<open>\<^verbatim>\<open>info != addr\<close> compares the addresses with their ports.\<close>

definition Good_find :: "(nat \<Rightarrow> nat) \<Rightarrow> int \<Rightarrow> CAddrMan \<Rightarrow> nat option" where
  "Good_find r nId s =
     (let nRnd = GetRand (r 0) (length (am_vvNew s)) in
      map_option (\<lambda>n. (n + nRnd) mod length (am_vvNew s))
        (find (\<lambda>n. nId \<in> am_vvNew s ! ((n + nRnd) mod length (am_vvNew s))) [0..<length (am_vvNew s)]))"

definition AddrMan_Good :: "'l openssl_scheme \<Rightarrow> (nat \<Rightarrow> nat) \<Rightarrow> CService \<Rightarrow> int \<Rightarrow> CAddrMan \<Rightarrow> CAddrMan option" where
  "AddrMan_Good lib r addr nTm s =
     (case AddrMan_Find (netaddr addr) s of
        None \<Rightarrow> Some s
      | Some (nId, info) \<Rightarrow>
          if service info \<noteq> addr then Some s
          else
            let info = info\<lparr> ai_nLastSuccess := nTm, ad_nLastTry := nTm, ad_nTime := word_of_int nTm, ai_nAttempts := 0 \<rparr>;
                s = set_info nId info s
            in if ai_fInTried info then Some s
            else
              case Good_find r nId s of
                None \<Rightarrow> Some s
              | Some nUBucket \<Rightarrow> MakeTried lib (\<lambda>k. r (k + 1)) nId nUBucket s)"

text \<open>What \<^verbatim>\<open>Add_\<close> does to an entry that is there: the entry updated, and whether to go on.\<close>

definition Add_update :: "(nat \<Rightarrow> nat) \<Rightarrow> int \<Rightarrow> CAddress \<Rightarrow> int \<Rightarrow> CAddrInfo \<Rightarrow> CAddrInfo \<times> bool" where
  "Add_update r nNow addr nTimePenalty info =
     (let fCurrentlyOnline = (nNow - uint (ad_nTime addr) < 24 * 60 * 60);
          nUpdateInterval = (if fCurrentlyOnline then 60 * 60 else 24 * 60 * 60);
          info = (if ad_nTime addr \<noteq> 0 \<and>
                     (ad_nTime info = 0 \<or> uint (ad_nTime info) < uint (ad_nTime addr) - nUpdateInterval - nTimePenalty)
                  then info\<lparr> ad_nTime := word_of_int (max 0 (uint (ad_nTime addr) - nTimePenalty)) \<rparr> else info);
          info = info\<lparr> ad_nServices := or (ad_nServices info) (ad_nServices addr) \<rparr>
      in if ad_nTime addr = 0 \<or> (ad_nTime info \<noteq> 0 \<and> ad_nTime addr \<le> ad_nTime info) then (info, False)
         else if ai_fInTried info then (info, False)
         else if ai_nRefCount info = ADDRMAN_NEW_BUCKETS_PER_ADDRESS then (info, False)
         else
           let nFactor = 2 ^ nat (ai_nRefCount info) in
           if nFactor > 1 \<and> GetRand (r 0) nFactor \<noteq> 0 then (info, False) else (info, True))"

text \<open>The end of \<^verbatim>\<open>Add_\<close>: a reference to the entry is put in the bucket of its source.\<close>

definition Add_place :: "(nat \<Rightarrow> nat) \<Rightarrow> int \<Rightarrow> nat \<Rightarrow> int \<Rightarrow> CAddrMan \<Rightarrow> CAddrMan option" where
  "Add_place r nNow nUBucket nId s =
     (if card (am_vvNew s ! nUBucket) = ADDRMAN_NEW_BUCKET_SIZE
      then map_option (\<lambda>(_, s). insert_new nUBucket nId s) (ShrinkNew r nNow nUBucket s)
      else Some (insert_new nUBucket nId s))"

definition Add_ref :: "'l openssl_scheme \<Rightarrow> (nat \<Rightarrow> nat) \<Rightarrow> int \<Rightarrow> CNetAddr \<Rightarrow> int \<Rightarrow> CAddrMan \<Rightarrow> CAddrMan option" where
  "Add_ref lib r nNow src nId s =
     (case am_mapInfo s nId of
        None \<Rightarrow> None
      | Some info \<Rightarrow>
          let nUBucket = GetNewBucket lib (am_nKey s) src info in
          if nId \<in> am_vvNew s ! nUBucket then Some s
          else Add_place r nNow nUBucket nId (set_info nId (info\<lparr> ai_nRefCount := ai_nRefCount info + 1 \<rparr>) s))"

definition AddrMan_Add :: "'l openssl_scheme \<Rightarrow> (nat \<Rightarrow> nat) \<Rightarrow> int \<Rightarrow> CAddress \<Rightarrow> CNetAddr \<Rightarrow> int \<Rightarrow> CAddrMan \<Rightarrow> (bool \<times> CAddrMan) option" where
  "AddrMan_Add lib r nNow addr src nTimePenalty s =
     (if \<not> IsRoutable addr then Some (False, s)
      else
        case AddrMan_Find (netaddr addr) s of
          Some (nId, info) \<Rightarrow>
            let (info, fGoOn) = Add_update r nNow addr nTimePenalty info; s = set_info nId info s in
            if \<not> fGoOn then Some (False, s)
            else map_option (\<lambda>s. (False, s)) (Add_ref lib (\<lambda>k. r (k + 1)) nNow src nId s)
        | None \<Rightarrow>
            let (nId, s) = AddrMan_Create addr src s;
                (info, s) = info_at nId s;
                s = set_info nId (info\<lparr> ad_nTime := word_of_int (max 0 (uint (ad_nTime info) - nTimePenalty)) \<rparr>) s;
                s = s\<lparr> am_nNew := am_nNew s + 1 \<rparr>
            in map_option (\<lambda>s. (True, s)) (Add_ref lib (\<lambda>k. r (k + 1)) nNow src nId s))"

definition AddrMan_Attempt :: "CService \<Rightarrow> int \<Rightarrow> CAddrMan \<Rightarrow> CAddrMan" where
  "AddrMan_Attempt addr nTm s =
     (case AddrMan_Find (netaddr addr) s of
        None \<Rightarrow> s
      | Some (nId, info) \<Rightarrow>
          if service info \<noteq> addr then s
          else set_info nId (info\<lparr> ad_nLastTry := nTm, ai_nAttempts := ai_nAttempts info + 1 \<rparr>) s)"

definition AddrMan_Connected :: "CService \<Rightarrow> int \<Rightarrow> CAddrMan \<Rightarrow> CAddrMan" where
  "AddrMan_Connected addr nTm s =
     (case AddrMan_Find (netaddr addr) s of
        None \<Rightarrow> s
      | Some (nId, info) \<Rightarrow>
          if service info \<noteq> addr then s
          else
            let nUpdateInterval = 20 * 60 in
            if nTm - uint (ad_nTime info) > nUpdateInterval then set_info nId (info\<lparr> ad_nTime := word_of_int nTm \<rparr>) s else s)"

fun get_addrs :: "(nat \<Rightarrow> nat) \<Rightarrow> nat list \<Rightarrow> CAddress list \<Rightarrow> CAddrMan \<Rightarrow> (CAddress list \<times> CAddrMan) option" where
  "get_addrs r [] vAddr s = Some (vAddr, s)"
| "get_addrs r (n # ns) vAddr s =
     (let nRndPos = GetRand (r n) (length (am_vRandom s) - n) + n in
      case SwapRandom (int n) (int nRndPos) s of
        None \<Rightarrow> None
      | Some s \<Rightarrow>
          case am_mapInfo s (am_vRandom s ! n) of
            None \<Rightarrow> None
          | Some info \<Rightarrow> get_addrs r ns (vAddr @ [CAddress.truncate info]) s)"

definition AddrMan_GetAddr :: "(nat \<Rightarrow> nat) \<Rightarrow> CAddrMan \<Rightarrow> (CAddress list \<times> CAddrMan) option" where
  "AddrMan_GetAddr r s =
     (let nNodes = ADDRMAN_GETADDR_MAX_PCT * length (am_vRandom s) div 100;
          nNodes = (if nNodes > ADDRMAN_GETADDR_MAX then ADDRMAN_GETADDR_MAX else nNodes)
      in get_addrs r [0..<nNodes] [] s)"

section \<open>The consistency check\<close>

text \<open>
  \<^verbatim>\<open>Check_\<close>, compiled in with \<^verbatim>\<open>DEBUG_ADDRMAN\<close>. The first loop collects the tried entries and the reference counts of
  the new ones; \<^verbatim>\<open>mapAddr[info]\<close> reads as 0 where there is no entry.
\<close>

fun check_infos :: "int list \<Rightarrow> int set \<Rightarrow> (int \<rightharpoonup> int) \<Rightarrow> CAddrMan \<Rightarrow> int + int set \<times> (int \<rightharpoonup> int)" where
  "check_infos [] setTried mapNew s = Inr (setTried, mapNew)"
| "check_infos (n # ns) setTried mapNew s =
     (case am_mapInfo s n of
        None \<Rightarrow> check_infos ns setTried mapNew s
      | Some info \<Rightarrow>
          if ai_fInTried info \<and> ai_nLastSuccess info = 0 then Inl (- 1)
          else if ai_fInTried info \<and> ai_nRefCount info \<noteq> 0 then Inl (- 2)
          else if \<not> ai_fInTried info \<and> (ai_nRefCount info < 0 \<or> ai_nRefCount info > ADDRMAN_NEW_BUCKETS_PER_ADDRESS) then Inl (- 3)
          else if \<not> ai_fInTried info \<and> ai_nRefCount info = 0 then Inl (- 4)
          else if (case am_mapAddr s (netaddr info) of Some m \<Rightarrow> m | None \<Rightarrow> 0) \<noteq> n then Inl (- 5)
          else if ai_nRandomPos info < 0 \<or> ai_nRandomPos info \<ge> int (length (am_vRandom s)) \<or>
                  am_vRandom s ! nat (ai_nRandomPos info) \<noteq> n then Inl (- 14)
          else if ad_nLastTry info < 0 then Inl (- 6)
          else if ai_nLastSuccess info < 0 then Inl (- 8)
          else if ai_fInTried info then check_infos ns (insert n setTried) mapNew s
          else check_infos ns setTried (mapNew(n \<mapsto> ai_nRefCount info)) s)"

fun check_tried :: "int list \<Rightarrow> int set \<Rightarrow> int set option" where
  "check_tried [] setTried = Some setTried"
| "check_tried (n # ns) setTried = (if n \<notin> setTried then None else check_tried ns (setTried - {n}))"

fun check_new :: "int list \<Rightarrow> (int \<rightharpoonup> int) \<Rightarrow> (int \<rightharpoonup> int) option" where
  "check_new [] mapNew = Some mapNew"
| "check_new (n # ns) mapNew =
     (case mapNew n of
        None \<Rightarrow> None
      | Some c \<Rightarrow> check_new ns (if c - 1 = 0 then mapNew(n := None) else mapNew(n \<mapsto> c - 1)))"

definition AddrMan_Check :: "CAddrMan \<Rightarrow> int" where
  "AddrMan_Check s =
     (if int (length (am_vRandom s)) \<noteq> am_nTried s + am_nNew s then - 7
      else
        case check_infos (sorted_list_of_set (dom (am_mapInfo s))) {} Map.empty s of
          Inl err \<Rightarrow> err
        | Inr (setTried, mapNew) \<Rightarrow>
            if int (card setTried) \<noteq> am_nTried s then - 9
            else if int (card (dom mapNew)) \<noteq> am_nNew s then - 10
            else
              case check_tried (concat (am_vvTried s)) setTried of
                None \<Rightarrow> - 11
              | Some setTried \<Rightarrow>
                  case check_new (concat (map sorted_list_of_set (am_vvNew s))) mapNew of
                    None \<Rightarrow> - 12
                  | Some mapNew \<Rightarrow>
                      if setTried \<noteq> {} then - 13
                      else if dom mapNew \<noteq> {} then - 15
                      else 0)"

section \<open>Calls\<close>

text \<open>
  The public operations, each with the draws and the time of the call. Adding several addresses is a call of
  \<^verbatim>\<open>Add_\<close> for each.
\<close>

fun AddrMan_Add_all :: "'l openssl_scheme \<Rightarrow> (nat \<Rightarrow> nat \<Rightarrow> nat) \<Rightarrow> int \<Rightarrow> CAddress list \<Rightarrow> CNetAddr \<Rightarrow> int \<Rightarrow> CAddrMan \<Rightarrow>
    (nat \<times> CAddrMan) option" where
  "AddrMan_Add_all lib r nNow [] src nTimePenalty s = Some (0, s)"
| "AddrMan_Add_all lib r nNow (a # as) src nTimePenalty s =
     (case AddrMan_Add lib (r 0) nNow a src nTimePenalty s of
        None \<Rightarrow> None
      | Some (fNew, s) \<Rightarrow>
          map_option (\<lambda>(nAdd, s). ((if fNew then 1 else 0) + nAdd, s))
            (AddrMan_Add_all lib (\<lambda>k. r (k + 1)) nNow as src nTimePenalty s))"

datatype addrman_call =
    CallAdd "CAddress list" CNetAddr int
  | CallGood CService int
  | CallAttempt CService int
  | CallConnected CService int
  | CallGetAddr

fun AddrMan_call :: "'l openssl_scheme \<Rightarrow> (nat \<Rightarrow> nat \<Rightarrow> nat) \<Rightarrow> int \<Rightarrow> addrman_call \<Rightarrow> CAddrMan \<Rightarrow> CAddrMan option" where
  "AddrMan_call lib r nNow (CallAdd vAddr src nTimePenalty) s = map_option snd (AddrMan_Add_all lib r nNow vAddr src nTimePenalty s)"
| "AddrMan_call lib r nNow (CallGood addr nTm) s = AddrMan_Good lib (r 0) addr nTm s"
| "AddrMan_call lib r nNow (CallAttempt addr nTm) s = Some (AddrMan_Attempt addr nTm s)"
| "AddrMan_call lib r nNow (CallConnected addr nTm) s = Some (AddrMan_Connected addr nTm s)"
| "AddrMan_call lib r nNow CallGetAddr s = map_option snd (AddrMan_GetAddr (r 0) s)"

fun AddrMan_run :: "'l openssl_scheme \<Rightarrow> ((nat \<Rightarrow> nat \<Rightarrow> nat) \<times> int \<times> addrman_call) list \<Rightarrow> CAddrMan \<Rightarrow> CAddrMan option" where
  "AddrMan_run lib [] s = Some s"
| "AddrMan_run lib ((r, nNow, c) # cs) s =
     (case AddrMan_call lib r nNow c s of None \<Rightarrow> None | Some s \<Rightarrow> AddrMan_run lib cs s)"

text \<open>A call is dated by the clock: the time it passes is positive.\<close>

fun call_dated :: "addrman_call \<Rightarrow> bool" where
  "call_dated (CallGood _ nTm) = (nTm > 0)"
| "call_dated (CallAttempt _ nTm) = (nTm > 0)"
| "call_dated _ = True"

section \<open>The invariant\<close>

definition pos_of :: "CAddrMan \<Rightarrow> int \<rightharpoonup> CNetAddr \<times> int" where
  "pos_of s n = map_option (\<lambda>i. (netaddr i, ai_nRandomPos i)) (am_mapInfo s n)"

definition class_of :: "CAddrMan \<Rightarrow> int \<rightharpoonup> CService \<times> bool \<times> int" where
  "class_of s n = map_option (\<lambda>i. (service i, ai_fInTried i, ai_nRefCount i)) (am_mapInfo s n)"

definition refs :: "int set list \<Rightarrow> int \<Rightarrow> nat" where
  "refs vv n = length (filter (\<lambda>B. n \<in> B) vv)"

definition tried_ids :: "CAddrMan \<Rightarrow> int set" where
  "tried_ids s = {n. \<exists>v c. class_of s n = Some (v, True, c)}"

definition new_ids :: "CAddrMan \<Rightarrow> int set" where
  "new_ids s = {n. \<exists>v c. class_of s n = Some (v, False, c)}"

text \<open>The indexes: identifiers, addresses and positions of \<^verbatim>\<open>vRandom\<close> name each other.\<close>

definition indexes_ok :: "CAddrMan \<Rightarrow> bool" where
  "indexes_ok s \<longleftrightarrow>
     finite (dom (pos_of s)) \<and> (\<forall>n\<in>dom (pos_of s). 0 \<le> n \<and> n < am_nIdCount s) \<and> 0 \<le> am_nIdCount s \<and>
     (\<forall>n a p. pos_of s n = Some (a, p) \<longrightarrow>
        am_mapAddr s a = Some n \<and> 0 \<le> p \<and> nat p < length (am_vRandom s) \<and> am_vRandom s ! nat p = n) \<and>
     (\<forall>n a. am_mapAddr s a = Some n \<longrightarrow> (\<exists>p. pos_of s n = Some (a, p))) \<and>
     (\<forall>k<length (am_vRandom s). \<exists>a. pos_of s (am_vRandom s ! k) = Some (a, int k))"

text \<open>The tables: a new entry is referred to by as many buckets as it counts, less \<open>e n\<close> references still to be placed.\<close>

definition new_table_ok :: "(int \<Rightarrow> nat) \<Rightarrow> CAddrMan \<Rightarrow> bool" where
  "new_table_ok e s \<longleftrightarrow>
     length (am_vvNew s) = ADDRMAN_NEW_BUCKET_COUNT \<and>
     (\<forall>B\<in>set (am_vvNew s). B \<subseteq> new_ids s \<and> card B \<le> ADDRMAN_NEW_BUCKET_SIZE) \<and>
     (\<forall>n v t c. class_of s n = Some (v, t, c) \<longrightarrow>
        c = int (refs (am_vvNew s) n + e n) \<and> (if t then c = 0 else 1 \<le> c \<and> c \<le> ADDRMAN_NEW_BUCKETS_PER_ADDRESS)) \<and>
     am_nNew s = int (card (new_ids s))"

definition tried_table_ok :: "'l openssl_scheme \<Rightarrow> CAddrMan \<Rightarrow> bool" where
  "tried_table_ok lib s \<longleftrightarrow>
     length (am_vvTried s) = ADDRMAN_TRIED_BUCKET_COUNT \<and>
     (\<forall>v\<in>set (am_vvTried s). length v \<le> ADDRMAN_TRIED_BUCKET_SIZE) \<and>
     mset (concat (am_vvTried s)) = mset_set (tried_ids s) \<and>
     (\<forall>k<ADDRMAN_TRIED_BUCKET_COUNT. \<forall>n\<in>set (am_vvTried s ! k). \<exists>v c.
        class_of s n = Some (v, True, c) \<and> GetTriedBucket lib (am_nKey s) v = k) \<and>
     am_nTried s = int (card (tried_ids s))"

definition stat_ok :: "CAddrMan \<Rightarrow> bool" where
  "stat_ok s \<longleftrightarrow> (\<forall>n i. am_mapInfo s n = Some i \<longrightarrow>
     ad_nLastTry i \<ge> 0 \<and> ai_nLastSuccess i \<ge> 0 \<and> (ai_fInTried i \<longrightarrow> ai_nLastSuccess i > 0))"

definition addrman_inv :: "'l openssl_scheme \<Rightarrow> (int \<Rightarrow> nat) \<Rightarrow> CAddrMan \<Rightarrow> bool" where
  "addrman_inv lib e s \<longleftrightarrow> indexes_ok s \<and> new_table_ok e s \<and> tried_table_ok lib s \<and> stat_ok s"

end
