(* ===== verification/AddrManProps.thy ===== *)
theory AddrManProps
  imports AddrMan
begin

text \<open>
  The address manager stays consistent: no assertion of its operations fails, the check \<^verbatim>\<open>Check_\<close> finds nothing, an
  address that was added is found, and one that was reached is in the "tried" table, where the addresses of one group take at
  most 256 of the 4096 places.
\<close>

section \<open>Views of the state\<close>

lemma netaddr_service [simp]: "netaddr (service i) = netaddr i"
  by (simp add: CNetAddr.defs CService.defs)

lemma pos_of_set_info [simp]: "pos_of (set_info n i s) = (pos_of s)(n \<mapsto> (netaddr i, ai_nRandomPos i))"
  by (auto simp: pos_of_def set_info_def)

lemma class_of_set_info [simp]: "class_of (set_info n i s) = (class_of s)(n \<mapsto> (service i, ai_fInTried i, ai_nRefCount i))"
  by (auto simp: class_of_def set_info_def)

lemma set_info_fields [simp]:
  "am_nKey (set_info n i s) = am_nKey s" "am_nIdCount (set_info n i s) = am_nIdCount s"
  "am_mapAddr (set_info n i s) = am_mapAddr s" "am_vRandom (set_info n i s) = am_vRandom s"
  "am_nTried (set_info n i s) = am_nTried s" "am_vvTried (set_info n i s) = am_vvTried s"
  "am_nNew (set_info n i s) = am_nNew s" "am_vvNew (set_info n i s) = am_vvNew s"
  "am_mapInfo (set_info n i s) = (am_mapInfo s)(n \<mapsto> i)"
  by (simp_all add: set_info_def)

lemma dom_pos_of [simp]: "dom (pos_of s) = dom (am_mapInfo s)"
  by (auto simp: pos_of_def)

lemma dom_class_of [simp]: "dom (class_of s) = dom (am_mapInfo s)"
  by (auto simp: class_of_def)

lemma class_of_eq: "am_mapInfo s n = Some i \<Longrightarrow> class_of s n = Some (service i, ai_fInTried i, ai_nRefCount i)"
  by (simp add: class_of_def)

lemma pos_of_eq: "am_mapInfo s n = Some i \<Longrightarrow> pos_of s n = Some (netaddr i, ai_nRandomPos i)"
  by (simp add: pos_of_def)

lemma mem_tried_ids: "n \<in> tried_ids s \<longleftrightarrow> (\<exists>i. am_mapInfo s n = Some i \<and> ai_fInTried i)"
  by (auto simp: tried_ids_def class_of_def)

lemma mem_new_ids: "n \<in> new_ids s \<longleftrightarrow> (\<exists>i. am_mapInfo s n = Some i \<and> \<not> ai_fInTried i)"
  by (auto simp: new_ids_def class_of_def)

lemma ids_of_class:
  assumes "class_of s' = class_of s"
  shows "tried_ids s' = tried_ids s" and "new_ids s' = new_ids s"
  by (simp_all add: tried_ids_def new_ids_def assms)

lemma indexes_ok_cong:
  assumes "pos_of s' = pos_of s" and "am_nIdCount s' = am_nIdCount s" and "am_mapAddr s' = am_mapAddr s" and "am_vRandom s' = am_vRandom s"
  shows "indexes_ok s' = indexes_ok s"
  unfolding indexes_ok_def by (simp only: assms)

lemma new_table_cong:
  assumes "class_of s' = class_of s" and "am_vvNew s' = am_vvNew s" and "am_nNew s' = am_nNew s"
  shows "new_table_ok e s' = new_table_ok e s"
  unfolding new_table_ok_def assms ids_of_class [OF assms(1)] by (rule refl)

lemma tried_table_cong:
  assumes "class_of s' = class_of s" and "am_vvTried s' = am_vvTried s" and "am_nTried s' = am_nTried s" and "am_nKey s' = am_nKey s"
  shows "tried_table_ok lib s' = tried_table_ok lib s"
  unfolding tried_table_ok_def assms ids_of_class [OF assms(1)] by (rule refl)

lemma addrman_inv_parts:
  assumes "addrman_inv lib e s"
  shows "indexes_ok s" and "new_table_ok e s" and "tried_table_ok lib s" and "stat_ok s"
  using assms by (simp_all add: addrman_inv_def)

lemma index_finite: "indexes_ok s \<Longrightarrow> finite (dom (am_mapInfo s))"
  by (simp add: indexes_ok_def)

lemma finite_ids:
  assumes "indexes_ok s"
  shows "finite (tried_ids s)" and "finite (new_ids s)"
proof -
  have "tried_ids s \<subseteq> dom (am_mapInfo s)" "new_ids s \<subseteq> dom (am_mapInfo s)" by (auto simp: mem_tried_ids mem_new_ids)
  then show "finite (tried_ids s)" "finite (new_ids s)" using index_finite [OF assms] by (auto intro: finite_subset)
qed

section \<open>Assignments that touch the statistics of an entry\<close>

lemma inv_set_stat:
  assumes inv: "addrman_inv lib e s" and i: "am_mapInfo s n = Some i"
    and same: "service i' = service i" "ai_fInTried i' = ai_fInTried i" "ai_nRefCount i' = ai_nRefCount i" "ai_nRandomPos i' = ai_nRandomPos i"
    and stat: "ad_nLastTry i' \<ge> 0" "ai_nLastSuccess i' \<ge> 0" "ai_fInTried i' \<Longrightarrow> ai_nLastSuccess i' > 0"
  shows "addrman_inv lib e (set_info n i' s)"
proof -
  have "netaddr i' = netaddr i" using same(1) netaddr_service by metis
  then have p: "pos_of (set_info n i' s) = pos_of s" using same(4) pos_of_eq [OF i] by (auto simp: fun_upd_idem)
  have c: "class_of (set_info n i' s) = class_of s" using same(1-3) class_of_eq [OF i] by (auto simp: fun_upd_idem)
  have "stat_ok (set_info n i' s)" using addrman_inv_parts(4) [OF inv] stat by (auto simp: stat_ok_def)
  then show ?thesis
    using inv indexes_ok_cong [OF p] new_table_cong [OF c] tried_table_cong [OF c, where lib = lib] by (simp add: addrman_inv_def)
qed

section \<open>Positions in the random order\<close>

lemma index_pos:
  assumes "indexes_ok s" and "am_mapInfo s n = Some i"
  shows "am_mapAddr s (netaddr i) = Some n" and "0 \<le> ai_nRandomPos i" and "nat (ai_nRandomPos i) < length (am_vRandom s)"
    and "am_vRandom s ! nat (ai_nRandomPos i) = n" and "0 \<le> n" and "n < am_nIdCount s"
  using assms pos_of_eq [OF assms(2)] by (auto simp: indexes_ok_def)

lemma index_at:
  assumes "indexes_ok s" and "k < length (am_vRandom s)"
  obtains i where "am_mapInfo s (am_vRandom s ! k) = Some i" and "ai_nRandomPos i = int k"
proof -
  obtain a where "pos_of s (am_vRandom s ! k) = Some (a, int k)" using assms by (auto simp: indexes_ok_def)
  then show thesis using that by (auto simp: pos_of_def)
qed

lemma index_addr:
  assumes "indexes_ok s" and "am_mapAddr s a = Some n"
  obtains i where "am_mapInfo s n = Some i" and "netaddr i = a"
proof -
  obtain p where "pos_of s n = Some (a, p)" using assms unfolding indexes_ok_def by blast
  then show thesis using that by (auto simp: pos_of_def)
qed

lemma index_distinct:
  assumes "indexes_ok s"
  shows "distinct (am_vRandom s)" and "set (am_vRandom s) = dom (am_mapInfo s)" and "length (am_vRandom s) = card (dom (am_mapInfo s))"
proof -
  show d: "distinct (am_vRandom s)"
    unfolding distinct_conv_nth using index_at [OF assms] by (metis of_nat_eq_iff option.inject)
  show e: "set (am_vRandom s) = dom (am_mapInfo s)"
    using index_at [OF assms] index_pos(3,4) [OF assms] by (fastforce simp: set_conv_nth dom_def)
  show "length (am_vRandom s) = card (dom (am_mapInfo s))" using distinct_card [OF d] e by simp
qed

lemma stat_ok_set_info:
  assumes "am_mapInfo s n = Some i" and "ad_nLastTry i' = ad_nLastTry i" and "ai_nLastSuccess i' = ai_nLastSuccess i" and "ai_fInTried i' = ai_fInTried i"
  shows "stat_ok (set_info n i' s) = stat_ok s"
proof -
  have "(am_mapInfo s)(n \<mapsto> i) = am_mapInfo s" using assms(1) by (rule fun_upd_idem)
  moreover have "stat_ok (set_info n i' s) = stat_ok (set_info n i s)" by (simp add: stat_ok_def assms(2-4))
  ultimately show ?thesis by (simp add: stat_ok_def)
qed

text \<open>\<^verbatim>\<open>SwapRandom\<close> at two positions of the vector succeeds and changes the order only.\<close>

lemma SwapRandom_run:
  assumes idx: "indexes_ok s" and "p < length (am_vRandom s)" and "q < length (am_vRandom s)"
  obtains s' where "SwapRandom (int p) (int q) s = Some s'" and "indexes_ok s'" and "class_of s' = class_of s"
    and "am_vRandom s' = (am_vRandom s)[p := am_vRandom s ! q, q := am_vRandom s ! p]"
    and "stat_ok s' = stat_ok s"
    and "s' = s\<lparr> am_mapInfo := am_mapInfo s', am_vRandom := am_vRandom s' \<rparr>"
proof (cases "p = q")
  case True
  then show thesis using that [of s] idx by (simp add: SwapRandom_def)
next
  case False
  let ?a = "am_vRandom s ! p" and ?b = "am_vRandom s ! q"
  obtain i j where i: "am_mapInfo s ?a = Some i" "ai_nRandomPos i = int p" and j: "am_mapInfo s ?b = Some j" "ai_nRandomPos j = int q"
    using index_at [OF idx] assms(2,3) by metis
  have ab: "?a \<noteq> ?b" using False i j by auto
  define s' where "s' = (set_info ?b (j\<lparr> ai_nRandomPos := int p \<rparr>) (set_info ?a (i\<lparr> ai_nRandomPos := int q \<rparr>) s))
    \<lparr> am_vRandom := (am_vRandom s)[p := ?b, q := ?a] \<rparr>"
  have run: "SwapRandom (int p) (int q) s = Some s'"
    using False assms(2,3) i j ab by (simp add: SwapRandom_def s'_def Let_def)
  have pos: "pos_of s' = (pos_of s)(?a \<mapsto> (netaddr i, int q), ?b \<mapsto> (netaddr j, int p))"
    using pos_of_set_info by (auto simp: s'_def pos_of_def set_info_def CNetAddr.defs)
  have at: "pos_of s ?a = Some (netaddr i, int p)" "pos_of s ?b = Some (netaddr j, int q)" using i j by (simp_all add: pos_of_def)
  have "indexes_ok s'"
    unfolding indexes_ok_def
  proof (intro conjI allI impI ballI)
    show "finite (dom (pos_of s'))" using index_finite [OF idx] unfolding pos by (simp del: dom_pos_of add: dom_pos_of [of s])
    show "0 \<le> am_nIdCount s'" using idx by (simp add: indexes_ok_def s'_def)
    show "0 \<le> n" "n < am_nIdCount s'" if "n \<in> dom (pos_of s')" for n
      using that i(1) j(1) index_pos(5,6) [OF idx] unfolding pos by (auto simp: pos_of_def s'_def split: if_splits)
    fix n a
    show "\<exists>p. pos_of s' n = Some (a, p)" if "am_mapAddr s' a = Some n"
    proof -
      have "am_mapAddr s a = Some n" using that by (simp add: s'_def)
      then obtain x where "am_mapInfo s n = Some x" "netaddr x = a" using index_addr [OF idx] by blast
      then show ?thesis unfolding pos using i j by (auto simp: pos_of_def)
    qed
    fix x
    assume "pos_of s' n = Some (a, x)"
    then consider "n = ?b" "a = netaddr j" "x = int p" | "n = ?a" "a = netaddr i" "x = int q"
      | "n \<noteq> ?a" "n \<noteq> ?b" "pos_of s n = Some (a, x)"
      unfolding pos by (auto split: if_splits)
    then have "am_mapAddr s a = Some n \<and> 0 \<le> x \<and> nat x < length (am_vRandom s) \<and> (am_vRandom s)[p := ?b, q := ?a] ! nat x = n"
    proof cases
      case 3
      then obtain y where y: "am_mapInfo s n = Some y" "a = netaddr y" "x = ai_nRandomPos y" by (auto simp: pos_of_def)
      have "nat x \<noteq> p" "nat x \<noteq> q" using index_pos(4) [OF idx y(1)] 3(1,2) y(3) by auto
      then show ?thesis using index_pos [OF idx y(1)] y by (simp add: nth_list_update)
    qed (use False assms(2,3) index_pos(1) [OF idx i(1)] index_pos(1) [OF idx j(1)] in \<open>auto simp: nth_list_update\<close>)
    then show "am_mapAddr s' a = Some n" "0 \<le> x" "nat x < length (am_vRandom s')" "am_vRandom s' ! nat x = n"
      by (simp_all add: s'_def)
  next
    fix k
    assume "k < length (am_vRandom s')"
    then have k: "k < length (am_vRandom s)" by (simp add: s'_def)
    obtain y where y: "am_mapInfo s (am_vRandom s ! k) = Some y" "ai_nRandomPos y = int k" using index_at [OF idx k] by blast
    have "am_vRandom s ! k \<noteq> ?a" if "k \<noteq> p" using that y i by auto
    moreover have "am_vRandom s ! k \<noteq> ?b" if "k \<noteq> q" using that y j by auto
    ultimately show "\<exists>a. pos_of s' (am_vRandom s' ! k) = Some (a, int k)"
      unfolding pos using k assms(2,3) ab y by (auto simp: s'_def nth_list_update pos_of_def)
  qed
  moreover have "class_of s' = class_of s"
    using i(1) j(1) ab by (auto simp: class_of_def s'_def CService.defs)
  moreover have "stat_ok s' = stat_ok (set_info ?b (j\<lparr> ai_nRandomPos := int p \<rparr>) (set_info ?a (i\<lparr> ai_nRandomPos := int q \<rparr>) s))"
    by (simp add: s'_def stat_ok_def)
  then have "stat_ok s' = stat_ok s" using i(1) j(1) ab by (simp add: stat_ok_set_info [of _ _ j] stat_ok_set_info [of _ _ i])
  ultimately show thesis using that [OF run] by (simp add: s'_def set_info_def)
qed

section \<open>The new table\<close>

lemma refs_update:
  "b < length vv \<Longrightarrow> refs (vv[b := B]) m + (if m \<in> vv ! b then 1 else 0) = refs vv m + (if m \<in> B then 1 else 0)"
proof (induction vv arbitrary: b)
  case (Cons C vv)
  then show ?case using Cons.IH [of "b - 1"] by (cases b) (auto simp: refs_def split: if_splits)
qed simp

lemma refs_pos: "B \<in> set vv \<Longrightarrow> n \<in> B \<Longrightarrow> refs vv n > 0"
  by (auto simp: refs_def filter_empty_conv)

lemma new_table_bucket:
  assumes "addrman_inv lib e s" and "b < ADDRMAN_NEW_BUCKET_COUNT"
  shows "b < length (am_vvNew s)" and "am_vvNew s ! b \<subseteq> new_ids s" and "finite (am_vvNew s ! b)" and "card (am_vvNew s ! b) \<le> ADDRMAN_NEW_BUCKET_SIZE"
proof -
  note t = addrman_inv_parts(2) [OF assms(1), unfolded new_table_ok_def]
  show b: "b < length (am_vvNew s)" using t assms(2) by simp
  show "am_vvNew s ! b \<subseteq> new_ids s" "card (am_vvNew s ! b) \<le> ADDRMAN_NEW_BUCKET_SIZE" using t nth_mem [OF b] by auto
  then show "finite (am_vvNew s ! b)" using finite_ids(2) [OF addrman_inv_parts(1) [OF assms(1)]] finite_subset by blast
qed

lemma bucket_fields [simp]:
  "pos_of (erase_new b n s) = pos_of s" "class_of (erase_new b n s) = class_of s"
  "pos_of (insert_new b n s) = pos_of s" "class_of (insert_new b n s) = class_of s"
  "am_mapInfo (erase_new b n s) = am_mapInfo s" "am_mapInfo (insert_new b n s) = am_mapInfo s"
  "am_vvNew (erase_new b n s) = (am_vvNew s)[b := am_vvNew s ! b - {n}]"
  "am_vvNew (insert_new b n s) = (am_vvNew s)[b := insert n (am_vvNew s ! b)]"
  "am_nKey (erase_new b n s) = am_nKey s" "am_nKey (insert_new b n s) = am_nKey s"
  by (auto simp: erase_new_def insert_new_def pos_of_def class_of_def)

text \<open>The new table is all that a change of its buckets touches.\<close>

lemma inv_buckets:
  assumes "addrman_inv lib e s" and "new_table_ok e' (s\<lparr> am_vvNew := vv \<rparr>)"
  shows "addrman_inv lib e' (s\<lparr> am_vvNew := vv \<rparr>)"
proof -
  let ?s = "s\<lparr> am_vvNew := vv \<rparr>"
  have "pos_of ?s = pos_of s" "class_of ?s = class_of s" by (auto simp: pos_of_def class_of_def)
  then show ?thesis
    using assms indexes_ok_cong [of ?s s] tried_table_cong [of ?s s lib] by (simp add: addrman_inv_def stat_ok_def)
qed

lemma new_ids_buckets [simp]: "new_ids (s\<lparr> am_vvNew := vv \<rparr>) = new_ids s" "class_of (s\<lparr> am_vvNew := vv \<rparr>) = class_of s"
  by (auto simp: new_ids_def class_of_def)

lemma new_table_update:
  assumes "new_table_ok e s" and "length vv = length (am_vvNew s)"
    and "\<And>B. B \<in> set vv \<Longrightarrow> B \<subseteq> new_ids s \<and> card B \<le> ADDRMAN_NEW_BUCKET_SIZE"
    and "\<And>m. refs (am_vvNew s) m + e m = refs vv m + e' m"
  shows "new_table_ok e' (s\<lparr> am_vvNew := vv \<rparr>)"
proof -
  have "c = int (refs vv m + e' m) \<and> (if t then c = 0 else 1 \<le> c \<and> c \<le> ADDRMAN_NEW_BUCKETS_PER_ADDRESS)"
    if "class_of s m = Some (v, t, c)" for m v t c
    unfolding assms(4) [symmetric] using assms(1) that unfolding new_table_ok_def by blast
  then show ?thesis using assms(1-3) by (simp add: new_table_ok_def)
qed

lemma inv_erase:
  assumes "addrman_inv lib e s" and "b < ADDRMAN_NEW_BUCKET_COUNT" and "n \<in> am_vvNew s ! b"
  shows "addrman_inv lib (e(n := e n + 1)) (erase_new b n s)"
  unfolding erase_new_def
proof (rule inv_buckets [OF assms(1)])
  note t = addrman_inv_parts(2) [OF assms(1), unfolded new_table_ok_def]
  note B = new_table_bucket [OF assms(1,2)]
  let ?vv = "(am_vvNew s)[b := am_vvNew s ! b - {n}]"
  have "refs (am_vvNew s) m + e m = refs ?vv m + (e(n := e n + 1)) m" for m
    using refs_update [OF B(1), of "am_vvNew s ! b - {n}" m] assms(3) by (cases "m = n"; cases "m \<in> am_vvNew s ! b") simp_all
  moreover have "card (am_vvNew s ! b - {n}) \<le> ADDRMAN_NEW_BUCKET_SIZE" using B(3,4) by (meson Diff_subset card_mono le_trans)
  then have "B \<subseteq> new_ids s \<and> card B \<le> ADDRMAN_NEW_BUCKET_SIZE" if "B \<in> set ?vv" for B
    using set_update_subset_insert [of "am_vvNew s" b "am_vvNew s ! b - {n}"] that t B(2) by auto
  ultimately show "new_table_ok (e(n := e n + 1)) (s\<lparr> am_vvNew := ?vv \<rparr>)"
    by (intro new_table_update [OF addrman_inv_parts(2) [OF assms(1)]]) auto
qed

lemma inv_insert:
  assumes "addrman_inv lib e s" and "b < ADDRMAN_NEW_BUCKET_COUNT" and "n \<notin> am_vvNew s ! b" and "n \<in> new_ids s"
    and "e n > 0" and "card (am_vvNew s ! b) < ADDRMAN_NEW_BUCKET_SIZE"
  shows "addrman_inv lib (e(n := e n - 1)) (insert_new b n s)"
  unfolding insert_new_def
proof (rule inv_buckets [OF assms(1)])
  note t = addrman_inv_parts(2) [OF assms(1), unfolded new_table_ok_def]
  note B = new_table_bucket [OF assms(1,2)]
  let ?vv = "(am_vvNew s)[b := insert n (am_vvNew s ! b)]"
  have "refs (am_vvNew s) m + e m = refs ?vv m + (e(n := e n - 1)) m" for m
    using refs_update [OF B(1), of "insert n (am_vvNew s ! b)" m] assms(3,5) by (cases "m = n"; cases "m \<in> am_vvNew s ! b") simp_all
  moreover have "card (insert n (am_vvNew s ! b)) \<le> ADDRMAN_NEW_BUCKET_SIZE" using B(3) assms(3,6) by simp
  then have "B \<subseteq> new_ids s \<and> card B \<le> ADDRMAN_NEW_BUCKET_SIZE" if "B \<in> set ?vv" for B
    using set_update_subset_insert [of "am_vvNew s" b "insert n (am_vvNew s ! b)"] that t B(2) assms(4) by auto
  ultimately show "new_table_ok (e(n := e n - 1)) (s\<lparr> am_vvNew := ?vv \<rparr>)"
    by (intro new_table_update [OF addrman_inv_parts(2) [OF assms(1)]]) auto
qed

section \<open>Removing an entry\<close>

lemma index_remove:
  assumes idx: "indexes_ok s" and "am_vRandom s \<noteq> []" and "last (am_vRandom s) = n" and i: "am_mapInfo s n = Some i"
  shows "indexes_ok (s\<lparr> am_vRandom := butlast (am_vRandom s), am_mapAddr := (am_mapAddr s)(netaddr i := None),
           am_mapInfo := (am_mapInfo s)(n := None), am_nNew := k \<rparr>)"
    (is "indexes_ok ?s")
proof -
  have pos: "pos_of ?s = (pos_of s)(n := None)" by (auto simp: pos_of_def)
  have len: "length (am_vRandom s) = Suc (length (butlast (am_vRandom s)))" using assms(2) by simp
  have "am_vRandom s ! nat (ai_nRandomPos i) = am_vRandom s ! length (butlast (am_vRandom s))"
    using index_pos(4) [OF idx i] assms(2,3) by (simp add: last_conv_nth)
  then have at: "nat (ai_nRandomPos i) = length (butlast (am_vRandom s))"
    using nth_eq_iff_index_eq [OF index_distinct(1) [OF idx] index_pos(3) [OF idx i], of "length (butlast (am_vRandom s))"] len by linarith
  show ?thesis
    unfolding indexes_ok_def pos
  proof (intro conjI allI impI ballI)
    show "finite (dom ((pos_of s)(n := None)))" using index_finite [OF idx] by simp
    show "0 \<le> am_nIdCount ?s" using idx by (simp add: indexes_ok_def)
    show "0 \<le> m" "m < am_nIdCount ?s" if "m \<in> dom ((pos_of s)(n := None))" for m
      using that index_pos(5,6) [OF idx] by (auto simp: pos_of_def split: if_splits)
    fix m a
    show "\<exists>p. ((pos_of s)(n := None)) m = Some (a, p)" if "am_mapAddr ?s a = Some m"
    proof -
      have a: "am_mapAddr s a = Some m" "a \<noteq> netaddr i" using that by (auto split: if_splits)
      then obtain x where x: "am_mapInfo s m = Some x" "netaddr x = a" using index_addr [OF idx] by blast
      then have "m \<noteq> n" using a(2) i by auto
      then show ?thesis using x by (simp add: pos_of_def)
    qed
    fix p
    assume "((pos_of s)(n := None)) m = Some (a, p)"
    then obtain x where x: "m \<noteq> n" "am_mapInfo s m = Some x" "a = netaddr x" "p = ai_nRandomPos x" by (auto simp: pos_of_def split: if_splits)
    note q = index_pos [OF idx x(2)]
    have "a \<noteq> netaddr i" using q(1) index_pos(1) [OF idx i] x(1,3) by auto
    moreover have "nat p \<noteq> length (butlast (am_vRandom s))" using q(4) assms(2,3) x(1,4) by (auto simp: last_conv_nth)
    then have "nat p < length (butlast (am_vRandom s))" using q(3) len unfolding x(4) by linarith
    ultimately show "am_mapAddr ?s a = Some m" "0 \<le> p" "nat p < length (am_vRandom ?s)" "am_vRandom ?s ! nat p = m"
      using q x by (auto simp: nth_butlast)
  next
    fix j
    assume "j < length (am_vRandom ?s)"
    then have j: "j < length (butlast (am_vRandom s))" by simp
    then have "j < length (am_vRandom s)" using len by linarith
    then obtain y where y: "am_mapInfo s (am_vRandom s ! j) = Some y" "ai_nRandomPos y = int j" using index_at [OF idx] by blast
    have "am_vRandom s ! j \<noteq> n" using y i at j by auto
    then show "\<exists>a. ((pos_of s)(n := None)) (am_vRandom ?s ! j) = Some (a, int j)"
      using y j by (simp add: nth_butlast pos_of_def)
  qed
qed

lemma new_count:
  assumes "addrman_inv lib e s" and "am_mapInfo s n = Some i"
  shows "ai_nRefCount i = int (refs (am_vvNew s) n + e n)"
    and "if ai_fInTried i then ai_nRefCount i = 0 else 1 \<le> ai_nRefCount i \<and> ai_nRefCount i \<le> ADDRMAN_NEW_BUCKETS_PER_ADDRESS"
  using addrman_inv_parts(2) [OF assms(1)] class_of_eq [OF assms(2)] unfolding new_table_ok_def by blast+

text \<open>A change of the reference count that keeps the entry new.\<close>

lemma inv_set_count:
  assumes inv: "addrman_inv lib e s" and i: "am_mapInfo s n = Some i" and "\<not> ai_fInTried i"
    and c: "c = int (refs (am_vvNew s) n + k)" "1 \<le> c" "c \<le> ADDRMAN_NEW_BUCKETS_PER_ADDRESS"
  shows "addrman_inv lib (e(n := k)) (set_info n (i\<lparr> ai_nRefCount := c \<rparr>) s)"
proof -
  let ?s = "set_info n (i\<lparr> ai_nRefCount := c \<rparr>) s"
  have pos: "pos_of ?s = pos_of s" using pos_of_eq [OF i] by (auto simp: fun_upd_idem CNetAddr.defs)
  have cls: "class_of ?s = (class_of s)(n \<mapsto> (service i, False, c))" using assms(3) by (simp add: CService.defs)
  have ids: "new_ids ?s = new_ids s" "tried_ids ?s = tried_ids s" using i assms(3) by (auto simp: mem_new_ids mem_tried_ids split: if_splits)
  have "indexes_ok ?s" using addrman_inv_parts(1) [OF inv] indexes_ok_cong [OF pos] by simp
  moreover have "new_table_ok (e(n := k)) ?s"
    using addrman_inv_parts(2) [OF inv] c unfolding new_table_ok_def ids cls by auto
  moreover have "n \<notin> tried_ids s" using i assms(3) by (simp add: mem_tried_ids)
  then have "tried_table_ok lib ?s"
    using addrman_inv_parts(3) [OF inv] unfolding tried_table_ok_def ids cls by (force simp: tried_ids_def)
  moreover have "stat_ok ?s" using addrman_inv_parts(4) [OF inv] i by (auto simp: stat_ok_def)
  ultimately show ?thesis by (simp add: addrman_inv_def)
qed

lemma inv_drop_last:
  assumes inv: "addrman_inv lib e s" and i: "am_mapInfo s n = Some i" and new: "\<not> ai_fInTried i" and one: "e n = 1" "refs (am_vvNew s) n = 0"
    and s': "class_of s' = (class_of s)(n := None)" "am_vvNew s' = am_vvNew s" "am_nNew s' = am_nNew s - 1" "am_nKey s' = am_nKey s"
      "am_vvTried s' = am_vvTried s" "am_nTried s' = am_nTried s"
    and idx: "indexes_ok s'" and stat: "stat_ok s'"
  shows "addrman_inv lib (e(n := 0)) s'"
proof -
  have ids: "new_ids s' = new_ids s - {n}" "tried_ids s' = tried_ids s"
    using i new class_of_eq [OF i] by (auto simp: new_ids_def tried_ids_def s'(1))
  have n: "n \<in> new_ids s" "n \<notin> tried_ids s" using i new by (auto simp: mem_new_ids mem_tried_ids)
  note t = addrman_inv_parts(2) [OF inv, unfolded new_table_ok_def]
  have "n \<notin> B" if "B \<in> set (am_vvNew s)" for B using refs_pos [OF that, of n] one(2) by auto
  then have "\<forall>B\<in>set (am_vvNew s). B \<subseteq> new_ids s - {n} \<and> card B \<le> ADDRMAN_NEW_BUCKET_SIZE" using t by blast
  moreover have "card (new_ids s) = Suc (card (new_ids s - {n}))"
    using n(1) finite_ids(2) [OF addrman_inv_parts(1) [OF inv]] by (rule card.remove [rotated])
  ultimately have "new_table_ok (e(n := 0)) s'"
    using t unfolding new_table_ok_def ids s' by auto
  moreover have "tried_table_ok lib s'"
    using addrman_inv_parts(3) [OF inv] n(2) unfolding tried_table_ok_def ids s' by (force simp: tried_ids_def)
  ultimately show ?thesis using idx stat by (simp add: addrman_inv_def)
qed

lemma drop_ref_run:
  assumes inv: "addrman_inv lib e s" and "e n > 0" and new: "n \<in> new_ids s"
  obtains s' where "drop_ref n s = Some s'" and "addrman_inv lib (e(n := e n - 1)) s'" and "am_vvNew s' = am_vvNew s" and "am_nKey s' = am_nKey s"
    and "\<And>m. m \<noteq> n \<Longrightarrow> class_of s' m = class_of s m"
proof -
  obtain i where i: "am_mapInfo s n = Some i" "\<not> ai_fInTried i" using new by (auto simp: mem_new_ids)
  note c = new_count [OF inv i(1)]
  let ?i = "i\<lparr> ai_nRefCount := ai_nRefCount i - 1 \<rparr>"
  let ?s = "set_info n ?i s"
  show thesis
  proof (cases "ai_nRefCount i = 1")
    case False
    have "addrman_inv lib (e(n := e n - 1)) ?s"
      by (rule inv_set_count [OF inv i]) (use c i(2) False assms(2) in auto)
    then show thesis using that [of ?s] i(1) False by (simp add: drop_ref_def Let_def)
  next
    case True
    then have one: "e n = 1" "refs (am_vvNew s) n = 0" using c(1) assms(2) by auto
    note idx = addrman_inv_parts(1) [OF inv]
    have "pos_of ?s = pos_of s" using pos_of_eq [OF i(1)] by (auto simp: fun_upd_idem CNetAddr.defs)
    then have idx1: "indexes_ok ?s" using idx indexes_ok_cong [of ?s s] by simp
    note p = index_pos [OF idx i(1)]
    have len: "length (am_vRandom s) > 0" using p(3) by auto
    have at: "nat (ai_nRandomPos i) < length (am_vRandom ?s)" "length (am_vRandom ?s) - 1 < length (am_vRandom ?s)" using p(3) len by simp_all
    obtain s2 where s2: "SwapRandom (int (nat (ai_nRandomPos i))) (int (length (am_vRandom ?s) - 1)) ?s = Some s2" "indexes_ok s2"
        "class_of s2 = class_of ?s"
        "am_vRandom s2 = (am_vRandom ?s)[nat (ai_nRandomPos i) := am_vRandom ?s ! (length (am_vRandom ?s) - 1),
           length (am_vRandom ?s) - 1 := am_vRandom ?s ! nat (ai_nRandomPos i)]"
        "stat_ok s2 = stat_ok ?s"
        "s2 = ?s\<lparr> am_mapInfo := am_mapInfo s2, am_vRandom := am_vRandom s2 \<rparr>"
      by (rule SwapRandom_run [OF idx1 at]) (rule that)
    have swap: "SwapRandom (ai_nRandomPos ?i) (int (length (am_vRandom ?s)) - 1) ?s = Some s2" using s2(1) p(2) len by (simp add: of_nat_diff)
    have ne: "am_vRandom s2 \<noteq> []" "last (am_vRandom s2) = n" using s2(4) len p(4) by (simp_all add: last_conv_nth)
    have "class_of s2 n = Some (service i, ai_fInTried i, 0)" using True by (simp add: s2(3) CService.defs)
    then obtain j where j: "am_mapInfo s2 n = Some j" "netaddr j = netaddr i" unfolding class_of_def by (metis (no_types, lifting) map_option_eq_Some netaddr_service prod.inject)
    define s3 where "s3 = s2\<lparr> am_vRandom := butlast (am_vRandom s2), am_mapAddr := (am_mapAddr s2)(netaddr ?i := None),
      am_mapInfo := (am_mapInfo s2)(n := None), am_nNew := am_nNew s2 - 1 \<rparr>"
    have run: "drop_ref n s = Some s3" using i(1) True swap ne(1) by (simp add: drop_ref_def s3_def Let_def)
    have cls: "class_of s3 = (class_of s)(n := None)"
    proof
      fix m
      have "class_of s3 m = (if m = n then None else class_of s2 m)" by (simp add: s3_def class_of_def)
      then show "class_of s3 m = ((class_of s)(n := None)) m" unfolding s2(3) by simp
    qed
    have "stat_ok ?s" using addrman_inv_parts(4) [OF inv] i(1) by (simp add: stat_ok_def)
    then have stat: "stat_ok s3" using s2(5) by (simp add: stat_ok_def s3_def)
    have rest: "am_vvNew s3 = am_vvNew s" "am_nNew s3 = am_nNew s - 1" "am_nKey s3 = am_nKey s" "am_vvTried s3 = am_vvTried s" "am_nTried s3 = am_nTried s"
      by (simp_all add: s3_def, (subst s2(6), simp)+)
    have "indexes_ok s3" using index_remove [OF s2(2) ne j(1)] j(2) by (simp add: s3_def CNetAddr.defs)
    from inv_drop_last [OF inv i one cls rest this stat]
    show thesis using that [OF run] cls rest one(1) by simp
  qed
qed

section \<open>Making room in a new bucket\<close>

lemma SwapRandom_buckets: "SwapRandom p q (s\<lparr> am_vvNew := vv \<rparr>) = map_option (\<lambda>s. s\<lparr> am_vvNew := vv \<rparr>) (SwapRandom p q s)"
  by (simp add: SwapRandom_def set_info_def Let_def split: option.splits)

lemma set_info_buckets: "set_info n i (s\<lparr> am_vvNew := vv \<rparr>) = (set_info n i s)\<lparr> am_vvNew := vv \<rparr>"
  by (simp add: set_info_def)

lemma drop_ref_buckets: "drop_ref n (s\<lparr> am_vvNew := vv \<rparr>) = map_option (\<lambda>s. s\<lparr> am_vvNew := vv \<rparr>) (drop_ref n s)"
  by (simp add: drop_ref_def Let_def SwapRandom_buckets set_info_buckets split: option.splits)

text \<open>An entry loses the reference a bucket holds.\<close>

lemma drop_from_bucket:
  assumes inv: "addrman_inv lib e s" and b: "b < ADDRMAN_NEW_BUCKET_COUNT" and n: "n \<in> am_vvNew s ! b"
  obtains s' where "drop_ref n s = Some s'" and "addrman_inv lib e (erase_new b n s')" and "am_vvNew s' = am_vvNew s" and "am_nKey s' = am_nKey s"
    and "\<And>m. m \<noteq> n \<Longrightarrow> class_of s' m = class_of s m"
proof -
  let ?s = "erase_new b n s" and ?vv = "(am_vvNew s)[b := am_vvNew s ! b - {n}]"
  have "n \<in> new_ids ?s" using new_table_bucket(2) [OF inv b] n by (auto simp: new_ids_def)
  then obtain s2 where s2: "drop_ref n ?s = Some s2" "addrman_inv lib ((e(n := e n + 1))(n := (e(n := e n + 1)) n - 1)) s2" "am_vvNew s2 = ?vv"
      "am_nKey s2 = am_nKey ?s" "\<And>m. m \<noteq> n \<Longrightarrow> class_of s2 m = class_of ?s m"
    using drop_ref_run [OF inv_erase [OF inv b n], of n] by auto
  have "drop_ref n ?s = map_option (\<lambda>s. s\<lparr> am_vvNew := ?vv \<rparr>) (drop_ref n s)" unfolding erase_new_def by (rule drop_ref_buckets)
  then obtain s' where s': "drop_ref n s = Some s'" "s2 = s'\<lparr> am_vvNew := ?vv \<rparr>" using s2(1) by (cases "drop_ref n s") auto
  have "drop_ref n (s\<lparr> am_vvNew := am_vvNew s \<rparr>) = map_option (\<lambda>t. t\<lparr> am_vvNew := am_vvNew s \<rparr>) (drop_ref n s)" by (rule drop_ref_buckets)
  then have "s' = s'\<lparr> am_vvNew := am_vvNew s \<rparr>" using s'(1) by simp
  then have v: "am_vvNew s' = am_vvNew s" by (metis CAddrMan.select_convs(9) CAddrMan.surjective CAddrMan.update_convs(9))
  have "erase_new b n s' = s2" using s'(2) v by (simp add: erase_new_def)
  then show thesis using that [OF s'(1)] s2(2,4,5) v by (simp add: s'(2))
qed

lemma find_terrible_result:
  assumes "set ns \<subseteq> dom (am_mapInfo s)"
  obtains "find_terrible nNow ns s = Some None" | n where "n \<in> set ns" and "find_terrible nNow ns s = Some (Some n)"
proof -
  have "find_terrible nNow ns s = Some None \<or> (\<exists>n\<in>set ns. find_terrible nNow ns s = Some (Some n))"
    using assms by (induction ns) (auto split: if_splits)
  then show thesis using that by blast
qed

lemma pick_oldest_result:
  assumes "set ms \<subseteq> dom (am_mapInfo s)" and "- 1 \<notin> set ms" and "nOldest = - 1 \<or> nOldest \<in> dom (am_mapInfo s)"
  obtains m where "pick_oldest n nI ms nOldest s = Some (m, s)" and "m \<in> insert nOldest (set ms)"
    and "nOldest \<noteq> - 1 \<or> (\<exists>k<length ms. nI + k \<in> set n) \<Longrightarrow> m \<noteq> - 1"
  using assms
proof (induction ms arbitrary: nI nOldest thesis)
  case (Cons a ms)
  obtain x where x: "am_mapInfo s a = Some x" using Cons.prems by auto
  have a: "a \<noteq> - 1" "set ms \<subseteq> dom (am_mapInfo s)" "- 1 \<notin> set ms" using Cons.prems by auto
  obtain o2 where o2: "pick_oldest n nI (a # ms) nOldest s = pick_oldest n (nI + 1) ms o2 s" "o2 = nOldest \<or> o2 = a"
      "nOldest \<noteq> - 1 \<or> nI \<in> set n \<Longrightarrow> o2 \<noteq> - 1" "o2 = - 1 \<or> o2 \<in> dom (am_mapInfo s)"
  proof (rule that [of "if nI \<in> set n \<and> (nOldest = - 1 \<or> ad_nTime x < ad_nTime (the (am_mapInfo s nOldest))) then a else nOldest"])
  qed (use Cons.prems(4) x a(1) in \<open>auto simp: info_at_def\<close>)
  obtain m where m: "pick_oldest n (nI + 1) ms o2 s = Some (m, s)" "m \<in> insert o2 (set ms)"
      "o2 \<noteq> - 1 \<or> (\<exists>k<length ms. nI + 1 + k \<in> set n) \<Longrightarrow> m \<noteq> - 1"
    using Cons.IH [OF _ a(2,3) o2(4)] by blast
  have "m \<noteq> - 1" if h: "nOldest \<noteq> - 1 \<or> (\<exists>k<length (a # ms). nI + k \<in> set n)"
  proof (cases "nOldest \<noteq> - 1 \<or> nI \<in> set n")
    case False
    then obtain k where "k < length (a # ms)" "nI + k \<in> set n" "k \<noteq> 0" using h by (metis add.right_neutral)
    then show ?thesis using m(3) by (cases k) auto
  qed (use o2(3) m(3) in blast)
  then show ?case using Cons.prems(1) [of m] o2(1,2) m(1,2) by auto
qed simp

lemma ShrinkNew_run:
  assumes inv: "addrman_inv lib e s" and b: "b < ADDRMAN_NEW_BUCKET_COUNT" and ne: "am_vvNew s ! b \<noteq> {}"
  obtains x s' n where "ShrinkNew r nNow b s = Some (x, s')" and "addrman_inv lib e s'" and "n \<in> am_vvNew s ! b"
    and "am_vvNew s' = (am_vvNew s)[b := am_vvNew s ! b - {n}]" and "\<And>m. m \<noteq> n \<Longrightarrow> class_of s' m = class_of s m"
proof -
  note result = that and B = new_table_bucket [OF inv b]
  let ?ns = "sorted_list_of_set (am_vvNew s ! b)"
  have ns: "set ?ns = am_vvNew s ! b" using B(3) by simp
  have dom: "set ?ns \<subseteq> dom (am_mapInfo s)" using subsetD [OF B(2)] unfolding ns by (auto simp: mem_new_ids)
  then have neg: "- 1 \<notin> set ?ns" using index_pos(5) [OF addrman_inv_parts(1) [OF inv]] by fastforce
  have go: thesis if n: "n \<in> am_vvNew s ! b" and run: "ShrinkNew r nNow b s = map_option (\<lambda>s. (x, erase_new b n s)) (drop_ref n s)" for n x
  proof -
    obtain s' where "drop_ref n s = Some s'" "addrman_inv lib e (erase_new b n s')" "am_vvNew s' = am_vvNew s"
        "\<And>m. m \<noteq> n \<Longrightarrow> class_of s' m = class_of s m"
      using drop_from_bucket [OF inv b n] by blast
    then show thesis using result [of x "erase_new b n s'" n] n run by simp
  qed
  show thesis
  proof (rule find_terrible_result [OF dom])
    assume none: "find_terrible nNow ?ns s = Some None"
    let ?n = "map (\<lambda>k. GetRand (r k) (length ?ns)) [0, 1, 2, 3]"
    have "length ?ns > 0" using ne B(3) by (simp add: card_gt_0_iff)
    then have hit: "\<exists>k<length ?ns. 0 + k \<in> set ?n" by (intro exI [of _ "GetRand (r 0) (length ?ns)"]) (simp add: GetRand_def)
    obtain m where m: "pick_oldest ?n 0 ?ns (- 1) s = Some (m, s)" "m \<in> insert (- 1) (set ?ns)" "m \<noteq> - 1"
      using pick_oldest_result [OF dom neg, of "- 1" ?n 0] hit by blast
    then have "m \<in> am_vvNew s ! b" and y: "\<exists>y. am_mapInfo s m = Some y" using ns dom by auto
    then show thesis using go [of m 1] none m(1) B(1) y by (auto simp: ShrinkNew_def)
  next
    fix n
    assume "n \<in> set ?ns" "find_terrible nNow ?ns s = Some (Some n)"
    then show thesis using go [of n 0] ns B(1) by (simp add: ShrinkNew_def)
  qed
qed

section \<open>Choosing a tried entry\<close>

lemma mset_swap_update: "p < length v \<Longrightarrow> i < length v \<Longrightarrow> mset (v[p := v ! i, i := v ! p]) = mset v"
  using mset_swap [of i v p] by (cases "i = p") (simp_all add: list_update_swap)

lemma select_tried_result:
  assumes "k < length (am_vvTried s)" and "set (am_vvTried s ! k) \<subseteq> dom (am_mapInfo s)" and "- 1 \<notin> set (am_vvTried s ! k)"
    and "\<forall>i\<in>set is. i < length (am_vvTried s ! k)" and "nOldest = - 1 \<or> nOldest \<in> dom (am_mapInfo s)"
    and "nOldest \<noteq> - 1 \<Longrightarrow> 0 \<le> nOldestPos \<and> nOldestPos < int (length (am_vvTried s ! k))"
    and "nOldest \<noteq> - 1 \<or> is \<noteq> []"
  obtains p v where "select_tried r k is nOldest nOldestPos s = Some (int p, s\<lparr> am_vvTried := (am_vvTried s)[k := v] \<rparr>)"
    and "mset v = mset (am_vvTried s ! k)" and "p < length (am_vvTried s ! k)"
  using assms
proof (induction "is" arbitrary: nOldest nOldestPos s thesis)
  case Nil
  then show ?case using Nil(1) [of "nat nOldestPos" "am_vvTried s ! k"] by (simp add: nat_less_iff)
next
  case (Cons i "is")
  let ?v = "am_vvTried s ! k"
  let ?p = "GetRand (r i) (length ?v - i) + i"
  let ?w = "?v[?p := ?v ! i, i := ?v ! ?p]"
  let ?s = "s\<lparr> am_vvTried := (am_vvTried s)[k := ?w] \<rparr>"
  have i: "i < length ?v" using Cons.prems(5) by simp
  then have p: "?p < length ?v" by (simp add: GetRand_def) (metis add.commute less_diff_conv mod_less_divisor zero_less_diff)
  have w: "mset ?w = mset ?v" by (rule mset_swap_update [OF p i])
  have vs: "am_vvTried ?s ! k = ?w" "length (am_vvTried ?s) = length (am_vvTried s)" using Cons.prems(2) by simp_all
  have x: "?v ! ?p \<in> dom (am_mapInfo s)" "?v ! ?p \<noteq> - 1" using Cons.prems(3,4) nth_mem [OF p] by auto
  obtain o2 q where step: "select_tried r k (i # is) nOldest nOldestPos s = select_tried r k is o2 q ?s"
      and o2: "o2 \<in> dom (am_mapInfo s)" "o2 \<noteq> - 1" "0 \<le> q" "q < int (length ?v)"
  proof (cases "nOldest = - 1 \<or> ai_nLastSuccess (the (am_mapInfo s (?v ! ?p))) < ai_nLastSuccess (the (am_mapInfo s nOldest))")
    case True
    then show thesis using that [of "?v ! ?p" "int ?p"] x p Cons.prems(6) by (auto simp: Let_def info_at_def)
  next
    case False
    then show thesis using that [of nOldest nOldestPos] x Cons.prems(6,7) by (auto simp: Let_def info_at_def)
  qed
  obtain q' u where u: "select_tried r k is o2 q ?s = Some (int q', ?s\<lparr> am_vvTried := (am_vvTried ?s)[k := u] \<rparr>)" "mset u = mset ?w" "q' < length ?w"
    using Cons.IH [where s = ?s and nOldest = o2 and nOldestPos = q] o2 Cons.prems(2-5) vs mset_eq_setD [OF w] by (auto simp del: select_tried.simps)
  show ?case using Cons.prems(1) [of q' u] step u w by (simp del: select_tried.simps)
qed

lemma SelectTried_result:
  assumes "k < length (am_vvTried s)" and "set (am_vvTried s ! k) \<subseteq> dom (am_mapInfo s)" and "- 1 \<notin> set (am_vvTried s ! k)" and "am_vvTried s ! k \<noteq> []"
  obtains p v where "SelectTried r k s = Some (int p, s\<lparr> am_vvTried := (am_vvTried s)[k := v] \<rparr>)" and "mset v = mset (am_vvTried s ! k)" and "p < length v"
proof -
  let ?is = "[0..<min ADDRMAN_TRIED_ENTRIES_INSPECT_ON_EVICT (length (am_vvTried s ! k))]"
  have "\<forall>i\<in>set ?is. i < length (am_vvTried s ! k)" and "?is \<noteq> []" using assms(4) by (auto simp: ADDRMAN_TRIED_ENTRIES_INSPECT_ON_EVICT_def)
  then obtain p v where "SelectTried r k s = Some (int p, s\<lparr> am_vvTried := (am_vvTried s)[k := v] \<rparr>)" "mset v = mset (am_vvTried s ! k)"
      "p < length (am_vvTried s ! k)"
    unfolding SelectTried_def using select_tried_result [OF assms(1-3), of ?is "- 1" "- 1" r] by blast
  then show thesis using that mset_eq_length by metis
qed

section \<open>Moving entries between the tables\<close>

lemma GetByte_cong: "na_ip a = na_ip b \<Longrightarrow> GetByte a = GetByte b"
  by (rule ext) (simp add: GetByte_def)

lemma group_bytes_cong:
  assumes "GetByte a = GetByte b"
  shows "group_bytes a k n = group_bytes b k n"
  using assms
  by (induction a k n rule: group_bytes.induct) (subst (1 2) group_bytes.simps, simp)

lemma GetGroup_cong: "na_ip a = na_ip b \<Longrightarrow> GetGroup a = GetGroup b"
  by (simp add: GetGroup_def IsLocal_def IsRoutable_def CNetAddr_IsValid_def IsIPv4_def IsRFC1918_def IsRFC3849_def IsRFC3927_def IsRFC3964_def
      IsRFC4193_def IsRFC4380_def IsRFC4843_def IsRFC4862_def IsRFC6052_def IsRFC6145_def ip_starts_def GetByte_cong [of a b] group_bytes_cong [OF GetByte_cong, of a b])

lemma service_fields [simp]: "na_ip (service a) = na_ip a" "sv_port (service a) = sv_port a"
  by (simp_all add: CService.defs)

lemma GetTriedBucket_service [simp]: "GetTriedBucket lib nKey (service i) = GetTriedBucket lib nKey i"
  by (simp add: GetTriedBucket_def GetKey_def GetGroup_cong [of "service i" i])

lemma GetTriedBucket_less: "GetTriedBucket lib nKey i < ADDRMAN_TRIED_BUCKET_COUNT"
  by (simp add: GetTriedBucket_def Let_def ADDRMAN_TRIED_BUCKET_COUNT_def)

lemma GetNewBucket_less: "GetNewBucket lib nKey src i < ADDRMAN_NEW_BUCKET_COUNT"
  by (simp add: GetNewBucket_def Let_def ADDRMAN_NEW_BUCKET_COUNT_def)

lemma GetNewBucket_cong: "na_ip a = na_ip b \<Longrightarrow> GetNewBucket lib nKey src a = GetNewBucket lib nKey src b"
  by (simp add: GetNewBucket_def GetGroup_cong [of a b])

lemma mset_concat_update: "k < length L \<Longrightarrow> mset (concat (L[k := w])) + mset (L ! k) = mset (concat L) + mset w"
proof (induction L arbitrary: k)
  case (Cons a L)
  then show ?case using Cons.IH [of "k - 1"] by (cases k) (simp_all add: add_ac)
qed simp

lemma tried_bucket:
  assumes "tried_table_ok lib s" and "k < ADDRMAN_TRIED_BUCKET_COUNT" and "n \<in> set (am_vvTried s ! k)"
  obtains i where "am_mapInfo s n = Some i" and "ai_fInTried i" and "GetTriedBucket lib (am_nKey s) i = k"
proof -
  obtain v c where "class_of s n = Some (v, True, c)" "GetTriedBucket lib (am_nKey s) v = k"
    using assms unfolding tried_table_ok_def by blast
  then show thesis using that by (auto simp: class_of_def)
qed

lemma tried_concat:
  assumes "tried_table_ok lib s" and "indexes_ok s"
  shows "set (concat (am_vvTried s)) = tried_ids s" and "distinct (concat (am_vvTried s))"
proof -
  have m: "mset (concat (am_vvTried s)) = mset_set (tried_ids s)" using assms(1) by (simp add: tried_table_ok_def)
  note fin = finite_ids(1) [OF assms(2)]
  show c: "set (concat (am_vvTried s)) = tried_ids s" using arg_cong [OF m, of set_mset] fin by simp
  have "length (concat (am_vvTried s)) = card (tried_ids s)" using arg_cong [OF m, of size] fin by simp
  then show "distinct (concat (am_vvTried s))" using c by (intro card_distinct) simp
qed

lemma tried_bucket_distinct:
  assumes "tried_table_ok lib s" and "indexes_ok s" and "k < ADDRMAN_TRIED_BUCKET_COUNT" and "mset v = mset (am_vvTried s ! k)"
  shows "distinct v"
proof -
  have "distinct (am_vvTried s ! k)"
    using assms(1,3) tried_concat(2) [OF assms(1,2)] by (simp add: distinct_concat_iff tried_table_ok_def)
  then show ?thesis using mset_eq_imp_distinct_iff [OF assms(4)] by simp
qed

lemma tried_table_change:
  assumes t: "tried_table_ok lib s" and k: "k < ADDRMAN_TRIED_BUCKET_COUNT" and L: "am_vvTried s' = (am_vvTried s)[k := w]"
    and key: "am_nKey s' = am_nKey s" and "length w \<le> ADDRMAN_TRIED_BUCKET_SIZE"
    and w: "\<And>n. n \<in> set w \<Longrightarrow> \<exists>v c. class_of s' n = Some (v, True, c) \<and> GetTriedBucket lib (am_nKey s) v = k"
    and others: "\<And>n. n \<in> tried_ids s \<Longrightarrow> n \<notin> set (am_vvTried s ! k) \<Longrightarrow> class_of s' n = class_of s n"
    and ids: "mset w + mset_set (tried_ids s) = mset (am_vvTried s ! k) + mset_set (tried_ids s')"
    and "am_nTried s' = int (card (tried_ids s'))"
  shows "tried_table_ok lib s'"
  unfolding tried_table_ok_def
proof (intro conjI ballI allI impI)
  note t' = t [unfolded tried_table_ok_def]
  have len: "k < length (am_vvTried s)" using t' k by simp
  show "length (am_vvTried s') = ADDRMAN_TRIED_BUCKET_COUNT" using t' L by simp
  show "length v \<le> ADDRMAN_TRIED_BUCKET_SIZE" if "v \<in> set (am_vvTried s')" for v
    using that t' assms(5) set_update_subset_insert [of "am_vvTried s" k w] unfolding L by auto
  show "am_nTried s' = int (card (tried_ids s'))" by (rule assms(9))
  have "mset (concat (am_vvTried s')) + mset (am_vvTried s ! k) = mset_set (tried_ids s') + mset (am_vvTried s ! k)"
    using mset_concat_update [OF len, of w] t' ids unfolding L by (simp add: add.commute)
  then show "mset (concat (am_vvTried s')) = mset_set (tried_ids s')" by simp
  fix j n
  assume j: "j < ADDRMAN_TRIED_BUCKET_COUNT" "n \<in> set (am_vvTried s' ! j)"
  show "\<exists>v c. class_of s' n = Some (v, True, c) \<and> GetTriedBucket lib (am_nKey s') v = j"
  proof (cases "j = k")
    case True
    then show ?thesis using w j(2) len by (simp add: L key)
  next
    case False
    then have n: "n \<in> set (am_vvTried s ! j)" using j(2) by (simp add: L)
    then obtain v c where v: "class_of s n = Some (v, True, c)" "GetTriedBucket lib (am_nKey s) v = j" using t' j(1) by blast
    have "n \<notin> set (am_vvTried s ! k)"
    proof
      assume "n \<in> set (am_vvTried s ! k)"
      then obtain v' c' where "class_of s n = Some (v', True, c')" "GetTriedBucket lib (am_nKey s) v' = k" using t' k by blast
      then show False using v False by simp
    qed
    then show ?thesis using v others [of n] by (auto simp: tried_ids_def key)
  qed
qed

lemma refs_map_remove: "refs (map (\<lambda>B. B - {n}) vv) m = (if m = n then 0 else refs vv m)"
  by (induction vv) (auto simp: refs_def)

text \<open>A new entry leaves all its buckets; an entry without references comes to one.\<close>

lemma new_table_promote:
  assumes t: "new_table_ok (\<lambda>_. 0) s" and idx: "indexes_ok s" and n: "n \<in> new_ids s"
    and s': "class_of s' = (class_of s)(n \<mapsto> (v, True, 0))" "am_vvNew s' = map (\<lambda>B. B - {n}) (am_vvNew s)" "am_nNew s' = am_nNew s - 1"
  shows "new_table_ok (\<lambda>_. 0) s'"
proof -
  note t' = t [unfolded new_table_ok_def]
  have ids: "new_ids s' = new_ids s - {n}" by (auto simp: new_ids_def s'(1))
  have fin: "finite (new_ids s)" by (rule finite_ids(2) [OF idx])
  have "B - {n} \<subseteq> new_ids s - {n} \<and> card (B - {n}) \<le> ADDRMAN_NEW_BUCKET_SIZE" if "B \<in> set (am_vvNew s)" for B
  proof -
    have B: "B \<subseteq> new_ids s" "card B \<le> ADDRMAN_NEW_BUCKET_SIZE" using t' that by blast+
    then have "card (B - {n}) \<le> card B" using finite_subset [OF B(1) fin] by (intro card_mono) auto
    then show ?thesis using B by auto
  qed
  moreover have "card (new_ids s) = Suc (card (new_ids s - {n}))" using n fin by (rule card.remove [rotated])
  ultimately show ?thesis using t' unfolding new_table_ok_def ids s' by (auto simp: refs_map_remove)
qed

lemma new_table_demote:
  assumes t: "new_table_ok (\<lambda>_. 0) s" and idx: "indexes_ok s" and n: "n \<in> tried_ids s"
    and s': "class_of s' = (class_of s)(n \<mapsto> (v, False, 1))" "am_vvNew s' = (am_vvNew s)[b := insert n (am_vvNew s ! b)]" "am_nNew s' = am_nNew s + 1"
    and b: "b < ADDRMAN_NEW_BUCKET_COUNT" and room: "card (am_vvNew s ! b) < ADDRMAN_NEW_BUCKET_SIZE"
  shows "new_table_ok (\<lambda>_. 0) s'"
proof -
  note t' = t [unfolded new_table_ok_def]
  obtain u c where c: "class_of s n = Some (u, True, c)" using n by (auto simp: tried_ids_def)
  have "\<forall>n v t c. class_of s n = Some (v, t, c) \<longrightarrow> c = int (refs (am_vvNew s) n + 0) \<and> (t \<longrightarrow> c = 0)" using t' by auto
  from this [rule_format, OF c] have old: "refs (am_vvNew s) n = 0" "n \<notin> new_ids s" using c by (simp_all add: new_ids_def)
  have ids: "new_ids s' = insert n (new_ids s)" by (auto simp: new_ids_def s'(1))
  have bl: "b < length (am_vvNew s)" using t' b by simp
  then have B: "am_vvNew s ! b \<subseteq> new_ids s" using t' nth_mem by blast
  have nb: "n \<notin> am_vvNew s ! b" using B old(2) by blast
  have le: "1 \<le> ADDRMAN_NEW_BUCKETS_PER_ADDRESS" by (simp add: ADDRMAN_NEW_BUCKETS_PER_ADDRESS_def)
  have "refs (am_vvNew s') m = (if m = n then 1 else refs (am_vvNew s) m)" for m
    using refs_update [OF bl, of "insert n (am_vvNew s ! b)" m] old(1) nb unfolding s'(2) by (cases "m = n"; cases "m \<in> am_vvNew s ! b") simp_all
  moreover have "card (insert n (am_vvNew s ! b)) \<le> ADDRMAN_NEW_BUCKET_SIZE" 
    using room nb finite_subset [OF B finite_ids(2) [OF idx]] by simp
  then have "B' \<subseteq> new_ids s' \<and> card B' \<le> ADDRMAN_NEW_BUCKET_SIZE" if "B' \<in> set (am_vvNew s')" for B'
    using set_update_subset_insert [of "am_vvNew s" b "insert n (am_vvNew s ! b)"] that t' B unfolding ids s'(2) by auto
  moreover have "card (new_ids s') = Suc (card (new_ids s))" using finite_ids(2) [OF idx] old(2) by (simp add: ids)
  ultimately show ?thesis
    using t' le unfolding new_table_ok_def s'(1,3) by (auto simp: s'(2))
qed

text \<open>The state of \<^verbatim>\<open>MakeTried\<close> once the entry has left the new table, and the entry marked.\<close>

definition leave_new :: "int \<Rightarrow> CAddrInfo \<Rightarrow> CAddrMan \<Rightarrow> CAddrMan" where
  "leave_new n i s = (set_info n (i\<lparr> ai_nRefCount := 0 \<rparr>) s)\<lparr> am_vvNew := map (\<lambda>B. B - {n}) (am_vvNew s), am_nNew := am_nNew s - 1 \<rparr>"

definition tried_mark :: "CAddrInfo \<Rightarrow> CAddrInfo" where
  "tried_mark i = i\<lparr> ai_nRefCount := 0, ai_fInTried := True \<rparr>"

lemma tried_mark_fields [simp]:
  "service (tried_mark i) = service i" "netaddr (tried_mark i) = netaddr i" "ai_fInTried (tried_mark i)" "ai_nRefCount (tried_mark i) = 0"
  "ai_nRandomPos (tried_mark i) = ai_nRandomPos i" "ad_nLastTry (tried_mark i) = ad_nLastTry i" "ai_nLastSuccess (tried_mark i) = ai_nLastSuccess i"
  by (simp_all add: tried_mark_def CService.defs CNetAddr.defs)

text \<open>What holds of a new entry on its way to the tried table.\<close>

definition promotable :: "'l openssl_scheme \<Rightarrow> int \<Rightarrow> CAddrInfo \<Rightarrow> CAddrMan \<Rightarrow> bool" where
  "promotable lib n i s \<longleftrightarrow> addrman_inv lib (\<lambda>_. 0) s \<and> am_mapInfo s n = Some i \<and> \<not> ai_fInTried i \<and> ai_nLastSuccess i > 0"

lemma promotable_count: "promotable lib n i s \<Longrightarrow> ai_nRefCount i = int (length (filter (\<lambda>B. n \<in> B) (am_vvNew s)))"
  unfolding promotable_def using new_count(1) [of lib "\<lambda>_. 0" s n i] by (simp add: refs_def)

lemma promotable_indexes:
  assumes "promotable lib n i s" and "pos_of s' = pos_of s" and "am_nIdCount s' = am_nIdCount s" and "am_mapAddr s' = am_mapAddr s" and "am_vRandom s' = am_vRandom s"
  shows "indexes_ok s'"
  using assms indexes_ok_cong [OF assms(2-5)] by (simp add: promotable_def addrman_inv_def)

lemma promotable_new:
  assumes P: "promotable lib n i s"
  shows "n \<in> new_ids s" and "n \<notin> tried_ids s" and "new_table_ok (\<lambda>_. 0) (set_info n (tried_mark i) (leave_new n i s))"
proof -
  show n: "n \<in> new_ids s" "n \<notin> tried_ids s" using P by (auto simp: promotable_def mem_new_ids mem_tried_ids)
  have "addrman_inv lib (\<lambda>_. 0) s" using P by (simp add: promotable_def)
  from new_table_promote [OF addrman_inv_parts(2,1) [OF this] n(1)]
  show "new_table_ok (\<lambda>_. 0) (set_info n (tried_mark i) (leave_new n i s))"
    by (auto simp: leave_new_def class_of_def fun_eq_iff)
qed

lemma MakeTried_room:
  assumes P: "promotable lib n i s" and n: "n \<in> am_vvNew s ! b"
    and k: "k = GetTriedBucket lib (am_nKey s) i" and room: "length (am_vvTried s ! k) < ADDRMAN_TRIED_BUCKET_SIZE"
  defines "s' \<equiv> (set_info n (tried_mark i) (leave_new n i s))\<lparr> am_vvTried := (am_vvTried s)[k := am_vvTried s ! k @ [n]], am_nTried := am_nTried s + 1 \<rparr>"
  shows "MakeTried lib r n b s = Some s'" and "addrman_inv lib (\<lambda>_. 0) s'"
proof -
  have i: "am_mapInfo s n = Some i" and inv: "addrman_inv lib (\<lambda>_. 0) s" using P by (simp_all add: promotable_def)
  have kb: "k < ADDRMAN_TRIED_BUCKET_COUNT" unfolding k by (rule GetTriedBucket_less)
  have b: "GetTriedBucket lib (am_nKey s) (i\<lparr> ai_nRefCount := x \<rparr>) = k" for x
    unfolding k GetTriedBucket_def GetKey_def by (simp add: GetGroup_cong [of "i\<lparr> ai_nRefCount := x \<rparr>" i])
  show "MakeTried lib r n b s = Some s'"
    using i n room promotable_count [OF P] by (simp add: MakeTried_def Let_def b s'_def leave_new_def tried_mark_def set_info_def)
  let ?m = "set_info n (tried_mark i) (leave_new n i s)"
  have cls: "class_of s' = (class_of s)(n \<mapsto> (service i, True, 0))" by (auto simp: s'_def leave_new_def class_of_def)
  have pos: "pos_of s' = pos_of s" using i by (auto simp: s'_def leave_new_def pos_of_def)
  have ids: "tried_ids s' = insert n (tried_ids s)" by (auto simp: tried_ids_def cls)
  have n': "am_nTried s' = am_nTried s + 1" by (simp add: s'_def)
  have fin: "finite (tried_ids s)" by (rule finite_ids(1) [OF addrman_inv_parts(1) [OF inv]])
  note t = addrman_inv_parts(3) [OF inv]
  have "new_table_ok (\<lambda>_. 0) s'"
    using promotable_new(3) [OF P] by (rule new_table_cong [THEN iffD2, rotated 3]) (auto simp: s'_def class_of_def)
  moreover have "tried_table_ok lib s'"
  proof (rule tried_table_change [OF t kb])
    show "am_vvTried s' = (am_vvTried s)[k := am_vvTried s ! k @ [n]]" "am_nKey s' = am_nKey s" by (simp_all add: s'_def leave_new_def)
    show "length (am_vvTried s ! k @ [n]) \<le> ADDRMAN_TRIED_BUCKET_SIZE" using room by simp
    show "class_of s' m = class_of s m" if "m \<in> tried_ids s" for m using that promotable_new(2) [OF P] by (auto simp: cls)
    show "mset (am_vvTried s ! k @ [n]) + mset_set (tried_ids s) = mset (am_vvTried s ! k) + mset_set (tried_ids s')"
      using fin promotable_new(2) [OF P] by (simp add: ids)
    show "am_nTried s' = int (card (tried_ids s'))"
      using t fin promotable_new(2) [OF P] n' by (simp add: ids tried_table_ok_def)
    show "\<exists>v c. class_of s' m = Some (v, True, c) \<and> GetTriedBucket lib (am_nKey s) v = k" if "m \<in> set (am_vvTried s ! k @ [n])" for m
      using that t kb by (cases "m = n") (auto simp: cls tried_table_ok_def k)
  qed
  moreover have "stat_ok s'"
    using addrman_inv_parts(4) [OF inv] P by (auto simp: stat_ok_def s'_def leave_new_def promotable_def)
  moreover have "indexes_ok s'" using promotable_indexes [OF P pos] by (simp add: s'_def leave_new_def)
  ultimately show "addrman_inv lib (\<lambda>_. 0) s'" by (simp add: addrman_inv_def)
qed

lemma bucket_of_count [simp]: "GetTriedBucket lib nKey (i\<lparr> ai_nRefCount := x \<rparr>) = GetTriedBucket lib nKey i"
  unfolding GetTriedBucket_def GetKey_def by (simp add: GetGroup_cong [of "i\<lparr> ai_nRefCount := x \<rparr>" i])

definition demoted :: "CAddrInfo \<Rightarrow> CAddrInfo" where
  "demoted i = i\<lparr> ai_fInTried := False, ai_nRefCount := 1 \<rparr>"

lemma demoted_fields [simp]:
  "service (demoted i) = service i" "netaddr (demoted i) = netaddr i" "\<not> ai_fInTried (demoted i)" "ai_nRefCount (demoted i) = 1"
  "ai_nRandomPos (demoted i) = ai_nRandomPos i" "ad_nLastTry (demoted i) = ad_nLastTry i" "ai_nLastSuccess (demoted i) = ai_nLastSuccess i"
  by (simp_all add: demoted_def CService.defs CNetAddr.defs)

text \<open>The tried entry \<open>m\<close> at position \<open>p\<close> of the reordered bucket \<open>v\<close> makes way for the entry \<open>n\<close>.\<close>

definition evict :: "nat \<Rightarrow> int list \<Rightarrow> nat \<Rightarrow> nat \<Rightarrow> CAddrInfo \<Rightarrow> int \<Rightarrow> CAddrInfo \<Rightarrow> CAddrMan \<Rightarrow> CAddrMan" where
  "evict k v p c j n i s =
     (let vv = map (\<lambda>B. B - {n}) (am_vvNew s) in
      (set_info n (tried_mark i) (set_info (v ! p) (demoted j) s))
        \<lparr> am_vvNew := vv[c := insert (v ! p) (vv ! c)], am_vvTried := (am_vvTried s)[k := v[p := n]] \<rparr>)"

lemma evict_inv:
  assumes P: "promotable lib n i s" and k: "k = GetTriedBucket lib (am_nKey s) i"
    and v: "mset v = mset (am_vvTried s ! k)" and p: "p < length v" and j: "am_mapInfo s (v ! p) = Some j"
    and c: "c < ADDRMAN_NEW_BUCKET_COUNT" and room: "card (am_vvNew s ! c - {n}) < ADDRMAN_NEW_BUCKET_SIZE"
  shows "addrman_inv lib (\<lambda>_. 0) (evict k v p c j n i s)"
proof -
  let ?m = "v ! p" and ?s' = "evict k v p c j n i s" and ?mid = "set_info n (tried_mark i) (leave_new n i s)"
  have i: "am_mapInfo s n = Some i" and inv: "addrman_inv lib (\<lambda>_. 0) s" using P by (simp_all add: promotable_def)
  note t = addrman_inv_parts(3) [OF inv] and idx = addrman_inv_parts(1) [OF inv]
  have kb: "k < ADDRMAN_TRIED_BUCKET_COUNT" unfolding k by (rule GetTriedBucket_less)
  have sv: "set v = set (am_vvTried s ! k)" using v by (rule mset_eq_setD)
  have jt: "ai_fInTried j" using tried_bucket [OF t kb, of ?m] nth_mem [OF p] sv j by force
  have mn: "?m \<noteq> n" using i j jt P by (auto simp: promotable_def)
  have m: "?m \<in> tried_ids s" using j jt by (simp add: mem_tried_ids)
  have cls: "class_of ?s' = (class_of s)(n \<mapsto> (service i, True, 0), ?m \<mapsto> (service j, False, 1))"
    using mn by (auto simp: evict_def Let_def class_of_def)
  have mid: "class_of ?mid = (class_of s)(n \<mapsto> (service i, True, 0))" by (auto simp: leave_new_def class_of_def)
  have ids: "tried_ids ?s' = insert n (tried_ids s - {?m})" using mn by (auto simp: tried_ids_def cls)
  have "pos_of ?s' = pos_of s" using i j by (auto simp: evict_def Let_def pos_of_def)
  then have idx': "indexes_ok ?s'" by (rule promotable_indexes [OF P]) (simp_all add: evict_def Let_def)
  have "pos_of ?mid = pos_of s" using i by (auto simp: leave_new_def pos_of_def)
  then have idxm: "indexes_ok ?mid" by (rule promotable_indexes [OF P]) (simp_all add: leave_new_def)
  have "?m \<in> tried_ids ?mid" using j jt mn by (simp add: mem_tried_ids leave_new_def)
  moreover have "class_of ?s' = (class_of ?mid)(?m \<mapsto> (service j, False, 1))" unfolding cls mid by (rule refl)
  moreover have "am_vvNew ?mid ! c = am_vvNew s ! c - {n}" using new_table_bucket(1) [OF inv c] by (simp add: leave_new_def)
  moreover have "am_vvNew ?s' = (am_vvNew ?mid)[c := insert ?m (am_vvNew ?mid ! c)]" "am_nNew ?s' = am_nNew ?mid + 1"
    by (simp_all add: evict_def Let_def leave_new_def)
  ultimately have "new_table_ok (\<lambda>_. 0) ?s'" using room by (intro new_table_demote [OF promotable_new(3) [OF P] idxm _ _ _ _ c]) simp_all
  moreover have "tried_table_ok lib ?s'"
  proof (rule tried_table_change [OF t kb])
    show "am_vvTried ?s' = (am_vvTried s)[k := v[p := n]]" "am_nKey ?s' = am_nKey s" by (simp_all add: evict_def Let_def)
    have "k < length (am_vvTried s)" using t kb by (simp add: tried_table_ok_def)
    then show "length (v[p := n]) \<le> ADDRMAN_TRIED_BUCKET_SIZE" using mset_eq_length [OF v] t nth_mem by (fastforce simp: tried_table_ok_def)
    show "class_of ?s' a = class_of s a" if "a \<in> tried_ids s" "a \<notin> set (am_vvTried s ! k)" for a
      using that promotable_new(2) [OF P] nth_mem [OF p] sv by (auto simp: cls)
    have fin: "finite (tried_ids s)" by (rule finite_ids(1) [OF idx])
    have q1: "mset_set (tried_ids s) = add_mset ?m (mset_set (tried_ids s - {?m}))" using m fin by (rule mset_set.remove [rotated])
    have q2: "mset (am_vvTried s ! k) = add_mset ?m (mset v - {#?m#})" unfolding v [symmetric] using nth_mem [OF p] by simp
    have q3: "mset (v[p := n]) = add_mset n (mset v - {#?m#})" by (rule mset_update [OF p])
    have q4: "mset_set (tried_ids ?s') = add_mset n (mset_set (tried_ids s - {?m}))" unfolding ids using fin promotable_new(2) [OF P] by simp
    show "mset (v[p := n]) + mset_set (tried_ids s) = mset (am_vvTried s ! k) + mset_set (tried_ids ?s')" unfolding q1 q2 q3 q4 by simp
    have "card (tried_ids ?s') = card (tried_ids s)" unfolding ids using card_Suc_Diff1 [OF fin m] fin promotable_new(2) [OF P] by simp
    then show "am_nTried ?s' = int (card (tried_ids ?s'))" using t by (simp add: evict_def Let_def tried_table_ok_def)
    show "\<exists>v c. class_of ?s' a = Some (v, True, c) \<and> GetTriedBucket lib (am_nKey s) v = k" if "a \<in> set (v[p := n])" for a
    proof (cases "a = n")
      case True
      then have "class_of ?s' a = Some (service i, True, 0)" using mn by (simp add: cls)
      moreover have "GetTriedBucket lib (am_nKey s) (service i) = k" by (simp add: k)
      ultimately show ?thesis by blast
    next
      case False
      then have "a \<in> set v" "a \<noteq> ?m" using that set_update_distinct [OF tried_bucket_distinct [OF t idx kb v] p] by auto
      then show ?thesis using t kb False sv by (auto simp: cls tried_table_ok_def)
    qed
  qed
  moreover have "stat_ok ?s'"
    using addrman_inv_parts(4) [OF inv] P j by (auto simp: stat_ok_def evict_def Let_def promotable_def)
  ultimately show ?thesis using idx' by (simp add: addrman_inv_def)
qed

lemma MakeTried_evict:
  assumes P: "promotable lib n i s" and b: "b < ADDRMAN_NEW_BUCKET_COUNT" and n: "n \<in> am_vvNew s ! b"
    and k: "k = GetTriedBucket lib (am_nKey s) i" and full: "\<not> length (am_vvTried s ! k) < ADDRMAN_TRIED_BUCKET_SIZE"
  obtains v p c j where "MakeTried lib r n b s = Some (evict k v p c j n i s)" and "addrman_inv lib (\<lambda>_. 0) (evict k v p c j n i s)"
    and "v ! p \<noteq> n"
proof -
  have i: "am_mapInfo s n = Some i" and inv: "addrman_inv lib (\<lambda>_. 0) s" using P by (simp_all add: promotable_def)
  note t = addrman_inv_parts(3) [OF inv] and idx = addrman_inv_parts(1) [OF inv]
  have kb: "k < ADDRMAN_TRIED_BUCKET_COUNT" unfolding k by (rule GetTriedBucket_less)
  then have kl: "k < length (am_vvTried (leave_new n i s))" using t by (simp add: tried_table_ok_def leave_new_def)
  have mem: "\<exists>j. am_mapInfo s m = Some j \<and> ai_fInTried j \<and> m \<noteq> - 1 \<and> m \<noteq> n" if m: "m \<in> set (am_vvTried s ! k)" for m
  proof -
    obtain j where "am_mapInfo s m = Some j" "ai_fInTried j" by (rule tried_bucket [OF t kb m])
    then show ?thesis using index_pos(5) [OF idx, of m j] P by (auto simp: promotable_def)
  qed
  have "set (am_vvTried (leave_new n i s) ! k) \<subseteq> dom (am_mapInfo (leave_new n i s))" "- 1 \<notin> set (am_vvTried (leave_new n i s) ! k)"
    using mem by (fastforce simp: leave_new_def)+
  moreover have "am_vvTried (leave_new n i s) ! k \<noteq> []" using full by (auto simp: leave_new_def ADDRMAN_TRIED_BUCKET_SIZE_def)
  ultimately obtain p v where sel: "SelectTried r k (leave_new n i s) =
        Some (int p, (leave_new n i s)\<lparr> am_vvTried := (am_vvTried (leave_new n i s))[k := v] \<rparr>)"
      and v: "mset v = mset (am_vvTried s ! k)" and p: "p < length v"
    using SelectTried_result [OF kl, of r thesis] by (auto simp: leave_new_def)
  obtain j where j: "am_mapInfo s (v ! p) = Some j" "v ! p \<noteq> n" using mem [of "v ! p"] nth_mem [OF p] mset_eq_setD [OF v] by auto
  define u where "u = GetNewBucket lib (am_nKey s) (ai_source j) j"
  define c where "c = (if card (am_vvNew s ! u - {n}) < ADDRMAN_NEW_BUCKET_SIZE then u else b)"
  have u: "u < ADDRMAN_NEW_BUCKET_COUNT" unfolding u_def by (rule GetNewBucket_less)
  note B = new_table_bucket [OF inv b]
  have "card (am_vvNew s ! b - {n}) < card (am_vvNew s ! b)" using B(3) n by (rule card_Diff1_less)
  then have c: "c < ADDRMAN_NEW_BUCKET_COUNT" "card (am_vvNew s ! c - {n}) < ADDRMAN_NEW_BUCKET_SIZE" using u b B(4) by (auto simp: c_def)
  have "int p < int (length v)" using p by simp
  then have run: "MakeTried lib r n b s = Some (evict k v p c j n i s)"
    using i n full promotable_count [OF P] sel j kl new_table_bucket(1) [OF inv u] B(1)
    by (simp add: MakeTried_def Let_def k [symmetric] leave_new_def u_def [symmetric])
      (simp add: evict_def Let_def c_def insert_new_def set_info_def tried_mark_def demoted_def fun_upd_twist)
  show thesis using that [OF run evict_inv [OF P k v p j(1) c] j(2)] .
qed

lemma MakeTried_run:
  assumes P: "promotable lib n i s" and "b < ADDRMAN_NEW_BUCKET_COUNT" and "n \<in> am_vvNew s ! b"
  obtains s' where "MakeTried lib r n b s = Some s'" and "addrman_inv lib (\<lambda>_. 0) s'" and "am_mapInfo s' n = Some (tried_mark i)"
    and "am_mapAddr s' = am_mapAddr s"
proof (cases "length (am_vvTried s ! GetTriedBucket lib (am_nKey s) i) < ADDRMAN_TRIED_BUCKET_SIZE")
  case True
  then show thesis using that [OF MakeTried_room [OF P assms(3) refl]] by (simp add: leave_new_def)
next
  case False
  obtain v p c j where "MakeTried lib r n b s = Some (evict (GetTriedBucket lib (am_nKey s) i) v p c j n i s)"
      "addrman_inv lib (\<lambda>_. 0) (evict (GetTriedBucket lib (am_nKey s) i) v p c j n i s)" "v ! p \<noteq> n"
    using MakeTried_evict [OF P assms(2,3) refl False] by blast
  then show thesis using that by (simp add: evict_def Let_def)
qed

section \<open>An address is reached\<close>

lemma Find_info:
  assumes "AddrMan_Find a s = Some (n, i)"
  shows "am_mapInfo s n = Some i" and "am_mapAddr s a = Some n"
  using assms by (auto simp: AddrMan_Find_def split: option.splits)

lemma Find_of_index:
  assumes "indexes_ok s" and "am_mapInfo s n = Some i"
  shows "AddrMan_Find (netaddr i) s = Some (n, i)"
  using index_pos(1) [OF assms] assms(2) by (simp add: AddrMan_Find_def)

lemma Find_None:
  assumes "indexes_ok s" and "AddrMan_Find a s = None"
  shows "am_mapAddr s a = None"
proof (rule ccontr)
  assume "am_mapAddr s a \<noteq> None"
  then obtain n where "am_mapAddr s a = Some n" by auto
  moreover from this obtain i where "am_mapInfo s n = Some i" using index_addr [OF assms(1)] by blast
  ultimately show False using assms(2) by (simp add: AddrMan_Find_def)
qed

lemma Good_find_result:
  assumes inv: "addrman_inv lib (\<lambda>_. 0) s" and i: "am_mapInfo s n = Some i" and "\<not> ai_fInTried i"
  obtains b where "Good_find r n s = Some b" and "b < ADDRMAN_NEW_BUCKET_COUNT" and "n \<in> am_vvNew s ! b"
proof -
  have len: "length (am_vvNew s) = ADDRMAN_NEW_BUCKET_COUNT" using addrman_inv_parts(2) [OF inv] by (simp add: new_table_ok_def)
  then have pos: "length (am_vvNew s) > 0" by (simp add: ADDRMAN_NEW_BUCKET_COUNT_def)
  let ?l = "length (am_vvNew s)" and ?g = "GetRand (r 0) (length (am_vvNew s))"
  let ?P = "\<lambda>m. n \<in> am_vvNew s ! ((m + ?g) mod ?l)"
  have "refs (am_vvNew s) n > 0" using new_count [OF inv i] assms(3) by auto
  then obtain B where "B \<in> set (am_vvNew s)" "n \<in> B" by (auto simp: refs_def filter_empty_conv)
  then obtain k where k: "k < ?l" "n \<in> am_vvNew s ! k" by (auto simp: in_set_conv_nth)
  have "?g < ?l" using pos by (simp add: GetRand_def)
  then have "(((k + (?l - ?g)) mod ?l) + ?g) mod ?l = k" using k(1) by (simp add: mod_add_left_eq)
  then have "?P ((k + (?l - ?g)) mod ?l)" using k(2) by simp
  moreover have "(k + (?l - ?g)) mod ?l \<in> set [0..<?l]" using pos by simp
  ultimately have "find ?P [0..<?l] \<noteq> None" unfolding find_None_iff by blast
  then obtain m where m: "find ?P [0..<?l] = Some m" by auto
  then have "?P m" by (auto simp: find_Some_iff)
  then show thesis using that [of "(m + ?g) mod ?l"] m pos len mod_less_divisor [OF pos] by (simp add: Good_find_def Let_def)
qed

lemma Good_run:
  assumes inv: "addrman_inv lib (\<lambda>_. 0) s" and "nTm > 0"
  obtains s' where "AddrMan_Good lib r addr nTm s = Some s'" and "addrman_inv lib (\<lambda>_. 0) s'"
    and "\<And>n i. AddrMan_Find (netaddr addr) s = Some (n, i) \<Longrightarrow> service i = addr \<Longrightarrow>
      \<exists>i'. AddrMan_Find (netaddr addr) s' = Some (n, i') \<and> service i' = addr \<and> ai_fInTried i' \<and> ai_nLastSuccess i' = nTm"
proof (cases "\<exists>n i. AddrMan_Find (netaddr addr) s = Some (n, i) \<and> service i = addr")
  case False
  then have "AddrMan_Good lib r addr nTm s = Some s" by (auto simp: AddrMan_Good_def split: option.splits)
  then show thesis using that inv False by blast
next
  case True
  then obtain n i where f: "AddrMan_Find (netaddr addr) s = Some (n, i)" and a: "service i = addr" by blast
  note i = Find_info(1) [OF f]
  define j where "j = i\<lparr> ai_nLastSuccess := nTm, ad_nLastTry := nTm, ad_nTime := word_of_int nTm, ai_nAttempts := 0 \<rparr>"
  have j: "service j = service i" "ai_fInTried j = ai_fInTried i" "ai_nRefCount j = ai_nRefCount i" "ai_nRandomPos j = ai_nRandomPos i"
      "ad_nLastTry j = nTm" "ai_nLastSuccess j = nTm"
    by (simp_all add: j_def CService.defs)
  have inv1: "addrman_inv lib (\<lambda>_. 0) (set_info n j s)" by (rule inv_set_stat [OF inv i]) (use j assms(2) in auto)
  have run: "AddrMan_Good lib r addr nTm s = (if ai_fInTried i then Some (set_info n j s)
      else case Good_find r n (set_info n j s) of None \<Rightarrow> Some (set_info n j s)
        | Some b \<Rightarrow> MakeTried lib (\<lambda>k. r (k + 1)) n b (set_info n j s))"
    unfolding AddrMan_Good_def using f a j(2) by (simp add: j_def [symmetric] Let_def)
  obtain s' i' where s': "AddrMan_Good lib r addr nTm s = Some s'" "addrman_inv lib (\<lambda>_. 0) s'" "am_mapInfo s' n = Some i'"
      "service i' = addr" "ai_fInTried i'" "ai_nLastSuccess i' = nTm"
  proof (cases "ai_fInTried i")
    case True
    then show thesis using that [of "set_info n j s" j] run inv1 j a by simp
  next
    case False
    then have P: "promotable lib n j (set_info n j s)" using inv1 j assms(2) by (simp add: promotable_def)
    obtain b where b: "Good_find r n (set_info n j s) = Some b" "b < ADDRMAN_NEW_BUCKET_COUNT" "n \<in> am_vvNew (set_info n j s) ! b"
      by (rule Good_find_result [OF inv1, of n j r]) (use False j in auto)
    obtain s' where "MakeTried lib (\<lambda>k. r (k + 1)) n b (set_info n j s) = Some s'" "addrman_inv lib (\<lambda>_. 0) s'" "am_mapInfo s' n = Some (tried_mark j)"
      using MakeTried_run [OF P b(2,3)] by blast
    then show thesis using that [of s' "tried_mark j"] run False b(1) j a by simp
  qed
  have "netaddr i' = netaddr addr" using s'(4) netaddr_service by metis
  then have "AddrMan_Find (netaddr addr) s' = Some (n, i')" using Find_of_index [OF addrman_inv_parts(1) [OF s'(2)] s'(3)] by simp
  then show thesis using that [OF s'(1,2)] f s'(4-6) by auto
qed

section \<open>An address is added\<close>

lemma Add_place_run:
  assumes inv: "addrman_inv lib e s" and b: "b < ADDRMAN_NEW_BUCKET_COUNT" and n: "n \<notin> am_vvNew s ! b" "n \<in> new_ids s" "e n > 0"
  obtains s' where "Add_place r nNow b n s = Some s'" and "addrman_inv lib (e(n := e n - 1)) s'" and "class_of s' n = class_of s n"
proof (cases "card (am_vvNew s ! b) = ADDRMAN_NEW_BUCKET_SIZE")
  case True
  note B = new_table_bucket [OF inv b]
  have ne: "am_vvNew s ! b \<noteq> {}" using True by (auto simp: ADDRMAN_NEW_BUCKET_SIZE_def)
  obtain x s1 m where s1: "ShrinkNew r nNow b s = Some (x, s1)" "addrman_inv lib e s1" "m \<in> am_vvNew s ! b"
      "am_vvNew s1 = (am_vvNew s)[b := am_vvNew s ! b - {m}]" "\<And>m'. m' \<noteq> m \<Longrightarrow> class_of s1 m' = class_of s m'"
    by (rule ShrinkNew_run [OF inv b ne]) blast
  have "n \<noteq> m" using n(1) s1(3) by blast
  then have cls: "class_of s1 n = class_of s n" by (rule s1(5))
  have "am_vvNew s1 ! b = am_vvNew s ! b - {m}" using B(1) s1(4) by simp
  moreover from this have "card (am_vvNew s1 ! b) < ADDRMAN_NEW_BUCKET_SIZE" using B(3) s1(3) True card_Diff1_less by metis
  ultimately have "addrman_inv lib (e(n := e n - 1)) (insert_new b n s1)"
    using n cls by (intro inv_insert [OF s1(2) b]) (auto simp: new_ids_def)
  then show thesis using that [of "insert_new b n s1"] True s1(1) cls by (simp add: Add_place_def)
next
  case False
  then have "card (am_vvNew s ! b) < ADDRMAN_NEW_BUCKET_SIZE" using new_table_bucket(4) [OF inv b] by simp
  from inv_insert [OF inv b n this] show thesis using that False by (simp add: Add_place_def)
qed

lemma Add_ref_run:
  assumes inv: "addrman_inv lib (\<lambda>_. 0) s" and i: "am_mapInfo s n = Some i" and new: "\<not> ai_fInTried i" and "ai_nRefCount i \<noteq> ADDRMAN_NEW_BUCKETS_PER_ADDRESS"
  obtains s' where "Add_ref lib r nNow src n s = Some s'" and "addrman_inv lib (\<lambda>_. 0) s'"
proof (cases "n \<in> am_vvNew s ! GetNewBucket lib (am_nKey s) src i")
  case True
  then show thesis using that inv i by (simp add: Add_ref_def)
next
  case False
  let ?s = "set_info n (i\<lparr> ai_nRefCount := ai_nRefCount i + 1 \<rparr>) s"
  let ?e = "(\<lambda>_. 0 :: nat)(n := 1)"
  have e: "addrman_inv lib ?e ?s"
    by (rule inv_set_count [OF inv i new]) (use new_count [OF inv i] new assms(4) in auto)
  have n: "n \<notin> am_vvNew ?s ! GetNewBucket lib (am_nKey s) src i" "n \<in> new_ids ?s" "?e n > 0" using new False by (simp_all add: mem_new_ids)
  have "?e(n := ?e n - 1) = (\<lambda>_. 0)" by auto
  then obtain s' where "Add_place r nNow (GetNewBucket lib (am_nKey s) src i) n ?s = Some s'" "addrman_inv lib (\<lambda>_. 0) s'"
    using Add_place_run [OF e GetNewBucket_less n, of r nNow] by metis
  then show thesis using that [of s'] i False by (simp add: Add_ref_def Let_def)
qed

lemma Add_update_fields:
  assumes "Add_update r nNow addr pen i = (j, go)"
  shows "service j = service i" and "ai_fInTried j = ai_fInTried i" and "ai_nRefCount j = ai_nRefCount i" and "ai_nRandomPos j = ai_nRandomPos i"
    and "ad_nLastTry j = ad_nLastTry i" and "ai_nLastSuccess j = ai_nLastSuccess i"
    and "go \<Longrightarrow> \<not> ai_fInTried j \<and> ai_nRefCount j \<noteq> ADDRMAN_NEW_BUCKETS_PER_ADDRESS"
  using assms by (auto simp: Add_update_def Let_def CService.defs split: if_splits)

text \<open>The entry an unknown address gets, with its first reference.\<close>

definition fresh_info :: "CAddress \<Rightarrow> CNetAddr \<Rightarrow> int \<Rightarrow> CAddrMan \<Rightarrow> CAddrInfo" where
  "fresh_info addr src pen s = (CAddrInfo_new addr src)
     \<lparr> ai_nRandomPos := int (length (am_vRandom s)), ad_nTime := word_of_int (max 0 (uint (ad_nTime addr) - pen)), ai_nRefCount := 1 \<rparr>"

definition fresh :: "CAddress \<Rightarrow> CNetAddr \<Rightarrow> int \<Rightarrow> CAddrMan \<Rightarrow> CAddrMan" where
  "fresh addr src pen s =
     s\<lparr> am_nIdCount := am_nIdCount s + 1, am_mapAddr := (am_mapAddr s)(netaddr addr \<mapsto> am_nIdCount s),
        am_vRandom := am_vRandom s @ [am_nIdCount s], am_nNew := am_nNew s + 1,
        am_mapInfo := (am_mapInfo s)(am_nIdCount s \<mapsto> fresh_info addr src pen s) \<rparr>"

lemma fresh_info_fields [simp]:
  "service (fresh_info addr src pen s) = service addr" "netaddr (fresh_info addr src pen s) = netaddr addr"
  "\<not> ai_fInTried (fresh_info addr src pen s)" "ai_nRefCount (fresh_info addr src pen s) = 1"
  "ai_nRandomPos (fresh_info addr src pen s) = int (length (am_vRandom s))"
  "ad_nLastTry (fresh_info addr src pen s) = 0" "ai_nLastSuccess (fresh_info addr src pen s) = 0" "ai_source (fresh_info addr src pen s) = src"
  by (simp_all add: fresh_info_def CAddrInfo_new_def CService.defs CNetAddr.defs CAddress.defs)

lemma fresh_indexes:
  assumes idx: "indexes_ok s" and new: "am_mapAddr s (netaddr addr) = None"
  shows "indexes_ok (fresh addr src pen s)" (is "indexes_ok ?s")
proof -
  let ?n = "am_nIdCount s"
  have n: "am_mapInfo s ?n = None" using index_pos(6) [OF idx, of ?n] by (cases "am_mapInfo s ?n") auto
  have pos: "pos_of ?s = (pos_of s)(?n \<mapsto> (netaddr addr, int (length (am_vRandom s))))" by (auto simp: fresh_def pos_of_def)
  have fields: "am_nIdCount ?s = ?n + 1" "am_mapAddr ?s = (am_mapAddr s)(netaddr addr \<mapsto> ?n)" "am_vRandom ?s = am_vRandom s @ [?n]"
    by (simp_all add: fresh_def)
  have n0: "0 \<le> ?n" using idx by (simp add: indexes_ok_def)
  have dm: "0 \<le> m \<and> m < ?n" if "am_mapInfo s m = Some i" for m i using index_pos(5,6) [OF idx that] by simp
  have old: "am_mapAddr s a = Some m \<and> a \<noteq> netaddr addr \<and> 0 \<le> p \<and> nat p < length (am_vRandom s) \<and> am_vRandom s ! nat p = m"
    if "pos_of s m = Some (a, p)" for m a p
    using that idx new unfolding indexes_ok_def by (metis option.distinct(1))
  have at: "pos_of s (am_vRandom s ! k) \<noteq> None" if "k < length (am_vRandom s)" for k using idx that by (auto simp: indexes_ok_def)
  then have ne: "am_vRandom s ! k \<noteq> ?n" if "k < length (am_vRandom s)" for k using that n by (metis option.map_disc_iff pos_of_def)
  show ?thesis
    unfolding indexes_ok_def fields pos
  proof (intro conjI allI impI ballI)
    show "finite (dom ((pos_of s)(?n \<mapsto> (netaddr addr, int (length (am_vRandom s))))))" using index_finite [OF idx] by simp
    show "0 \<le> ?n + 1" using idx by (simp add: indexes_ok_def)
    show "0 \<le> m" "m < ?n + 1" if "m \<in> dom ((pos_of s)(?n \<mapsto> (netaddr addr, int (length (am_vRandom s)))))" for m
      using that dm [of m] n0 by (cases "m = ?n"; auto)+
    show "\<exists>p. ((pos_of s)(?n \<mapsto> (netaddr addr, int (length (am_vRandom s))))) m = Some (a, p)"
      if "((am_mapAddr s)(netaddr addr \<mapsto> ?n)) a = Some m" for m a
    proof (cases "a = netaddr addr")
      case False
      then have "am_mapAddr s a = Some m" using that by simp
      then obtain i where "am_mapInfo s m = Some i" "netaddr i = a" using index_addr [OF idx] by blast
      then show ?thesis using n by (auto simp: pos_of_def)
    qed (use that in auto)
    show "\<exists>a. ((pos_of s)(?n \<mapsto> (netaddr addr, int (length (am_vRandom s))))) ((am_vRandom s @ [?n]) ! k) = Some (a, int k)"
      if "k < length (am_vRandom s @ [?n])" for k
      using that idx ne [of k] by (cases "k < length (am_vRandom s)") (auto simp: indexes_ok_def nth_append less_Suc_eq)
  next
    fix m a p
    assume "((pos_of s)(?n \<mapsto> (netaddr addr, int (length (am_vRandom s))))) m = Some (a, p)"
    then consider "m = ?n" "a = netaddr addr" "p = int (length (am_vRandom s))" | "m \<noteq> ?n" "pos_of s m = Some (a, p)" by (auto split: if_splits)
    then show "((am_mapAddr s)(netaddr addr \<mapsto> ?n)) a = Some m" "0 \<le> p" "nat p < length (am_vRandom s @ [?n])" "(am_vRandom s @ [?n]) ! nat p = m"
      by (cases; use old [of m a p] in \<open>auto simp: nth_append\<close>)+
  qed
qed

lemma fresh_inv:
  assumes inv: "addrman_inv lib (\<lambda>_. 0) s" and new: "am_mapAddr s (netaddr addr) = None"
  shows "addrman_inv lib ((\<lambda>_. 0)(am_nIdCount s := 1)) (fresh addr src pen s)" and "\<forall>B\<in>set (am_vvNew s). am_nIdCount s \<notin> B"
proof -
  let ?n = "am_nIdCount s" and ?s = "fresh addr src pen s"
  note idx = addrman_inv_parts(1) [OF inv] and t = addrman_inv_parts(2) [OF inv, unfolded new_table_ok_def]
  have "am_mapInfo s ?n = None" using index_pos(6) [OF idx, of ?n] by (cases "am_mapInfo s ?n") auto
  then have n: "class_of s ?n = None" by (simp add: class_of_def)
  have cls: "class_of ?s = (class_of s)(?n \<mapsto> (service addr, False, 1))" by (auto simp: fresh_def class_of_def)
  have ids: "new_ids ?s = insert ?n (new_ids s)" "tried_ids ?s = tried_ids s" "?n \<notin> new_ids s" "?n \<notin> tried_ids s"
    using n by (auto simp: new_ids_def tried_ids_def cls)
  show out: "\<forall>B\<in>set (am_vvNew s). ?n \<notin> B" using t ids(3) by blast
  then have "refs (am_vvNew s) ?n = 0" by (simp add: refs_def filter_empty_conv)
  moreover have "am_vvNew ?s = am_vvNew s" "am_nNew ?s = am_nNew s + 1" by (simp_all add: fresh_def)
  moreover have "card (new_ids ?s) = Suc (card (new_ids s))" using ids(1,3) finite_ids(2) [OF idx] by simp
  moreover have "1 \<le> ADDRMAN_NEW_BUCKETS_PER_ADDRESS" by (simp add: ADDRMAN_NEW_BUCKETS_PER_ADDRESS_def)
  ultimately have "new_table_ok ((\<lambda>_. 0)(?n := 1)) ?s"
    using t unfolding new_table_ok_def cls ids(1) by auto
  moreover have "tried_table_ok lib ?s"
  proof -
    note tt = addrman_inv_parts(3) [OF inv, unfolded tried_table_ok_def]
    have "\<exists>v c. class_of ?s m = Some (v, True, c) \<and> GetTriedBucket lib (am_nKey s) v = k"
      if km: "k < ADDRMAN_TRIED_BUCKET_COUNT" "m \<in> set (am_vvTried s ! k)" for k m
    proof -
      obtain v c where v: "class_of s m = Some (v, True, c)" "GetTriedBucket lib (am_nKey s) v = k" using tt km by blast
      then have "m \<noteq> ?n" using n by auto
      then show ?thesis using v by (simp add: cls)
    qed
    moreover have "am_vvTried ?s = am_vvTried s" "am_nTried ?s = am_nTried s" "am_nKey ?s = am_nKey s" by (simp_all add: fresh_def)
    ultimately show ?thesis using tt by (simp add: tried_table_ok_def ids(2))
  qed
  moreover have "stat_ok ?s" using addrman_inv_parts(4) [OF inv] by (simp add: stat_ok_def fresh_def)
  ultimately show "addrman_inv lib ((\<lambda>_. 0)(?n := 1)) ?s" using fresh_indexes [OF idx new] by (simp add: addrman_inv_def)
qed

lemma Add_fresh_run:
  assumes inv: "addrman_inv lib (\<lambda>_. 0) s" and new: "AddrMan_Find (netaddr addr) s = None" and "IsRoutable addr"
  obtains s' i where "AddrMan_Add lib r nNow addr src pen s = Some (True, s')" and "addrman_inv lib (\<lambda>_. 0) s'"
    and "AddrMan_Find (netaddr addr) s' = Some (am_nIdCount s, i)" and "service i = service addr" and "ai_nRefCount i = 1"
proof -
  let ?n = "am_nIdCount s" and ?s = "fresh addr src pen s" and ?e = "(\<lambda>_. 0 :: nat)(am_nIdCount s := 1)"
  note f1 = fresh_inv(1) [OF inv Find_None [OF addrman_inv_parts(1) [OF inv] new], of src pen]
    and f2 = fresh_inv(2) [OF inv Find_None [OF addrman_inv_parts(1) [OF inv] new]]
  define b where "b = GetNewBucket lib (am_nKey s) src (fresh_info addr src pen s)"
  have b: "b < ADDRMAN_NEW_BUCKET_COUNT" unfolding b_def by (rule GetNewBucket_less)
  have nb: "?n \<notin> am_vvNew s ! b" using f2 new_table_bucket(1) [OF inv b] by simp
  have run: "AddrMan_Add lib r nNow addr src pen s = map_option (Pair True) (Add_place (\<lambda>k. r (k + 1)) nNow b ?n ?s)"
  proof -
    let ?i = "(CAddrInfo_new addr src)\<lparr> ai_nRandomPos := int (length (am_vRandom s)), ad_nTime := word_of_int (max 0 (uint (ad_nTime addr) - pen)) \<rparr>"
    have "na_ip ?i = na_ip (fresh_info addr src pen s)" by (simp add: fresh_info_def)
    then have "GetNewBucket lib (am_nKey s) src ?i = b" unfolding b_def by (rule GetNewBucket_cong)
    moreover have "ad_nTime (CAddrInfo_new addr src) = ad_nTime addr" "ai_nRefCount ?i = 0" by (simp_all add: CAddrInfo_new_def CAddress.defs)
    ultimately show ?thesis
      using new assms(3) nb
      by (simp add: AddrMan_Add_def AddrMan_Create_def info_at_def Let_def Add_ref_def set_info_def) (simp add: fresh_def fresh_info_def)
  qed
  have "?n \<notin> am_vvNew ?s ! b" "?n \<in> new_ids ?s" "?e ?n > 0" using nb by (simp_all add: fresh_def mem_new_ids)
  moreover have "?e(?n := ?e ?n - 1) = (\<lambda>_. 0)" by auto
  ultimately obtain s' where s': "Add_place (\<lambda>k. r (k + 1)) nNow b ?n ?s = Some s'" "addrman_inv lib (\<lambda>_. 0) s'" "class_of s' ?n = class_of ?s ?n"
    using Add_place_run [OF f1 b, of ?n "\<lambda>k. r (k + 1)" nNow] by metis
  from s'(3) obtain i where i: "am_mapInfo s' ?n = Some i" "service i = service addr" "ai_nRefCount i = 1"
    by (auto simp: class_of_def fresh_def)
  have "netaddr i = netaddr addr" using i(2) netaddr_service by metis
  then have "AddrMan_Find (netaddr addr) s' = Some (?n, i)" using Find_of_index [OF addrman_inv_parts(1) [OF s'(2)] i(1)] by simp
  then show thesis using that run s'(1,2) i(2,3) by simp
qed

lemma stat_info:
  assumes "addrman_inv lib e s" and "am_mapInfo s n = Some i"
  shows "ad_nLastTry i \<ge> 0" and "ai_nLastSuccess i \<ge> 0" and "ai_fInTried i \<Longrightarrow> ai_nLastSuccess i > 0"
  using addrman_inv_parts(4) [OF assms(1)] assms(2) by (auto simp: stat_ok_def)

lemma Add_run:
  assumes inv: "addrman_inv lib (\<lambda>_. 0) s"
  obtains f s' where "AddrMan_Add lib r nNow addr src pen s = Some (f, s')" and "addrman_inv lib (\<lambda>_. 0) s'"
proof (cases "IsRoutable addr")
  case False
  then show thesis using that inv by (simp add: AddrMan_Add_def)
next
  case rt: True
  show thesis
  proof (cases "AddrMan_Find (netaddr addr) s")
    case None
    then show thesis using Add_fresh_run [OF inv None rt] that by blast
  next
    case (Some ni)
    obtain n i where ni: "ni = (n, i)" by fastforce
    note i = Find_info(1) [OF Some [unfolded ni]]
    obtain j go where u: "Add_update r nNow addr pen i = (j, go)" by fastforce
    note j = Add_update_fields [OF u]
    have inv1: "addrman_inv lib (\<lambda>_. 0) (set_info n j s)" by (rule inv_set_stat [OF inv i j(1-4)]) (use j stat_info [OF inv i] in auto)
    have run: "AddrMan_Add lib r nNow addr src pen s = (if go then map_option (Pair False) (Add_ref lib (\<lambda>k. r (k + 1)) nNow src n (set_info n j s))
        else Some (False, set_info n j s))"
      using rt Some ni u by (simp add: AddrMan_Add_def)
    show thesis
    proof (cases go)
      case True
      then obtain s' where "Add_ref lib (\<lambda>k. r (k + 1)) nNow src n (set_info n j s) = Some s'" "addrman_inv lib (\<lambda>_. 0) s'"
        using Add_ref_run [OF inv1, of n j "\<lambda>k. r (k + 1)" nNow src] j(7) by auto
      then show thesis using that [of False s'] run True by simp
    qed (use that [of False "set_info n j s"] run inv1 in simp)
  qed
qed

lemma Add_all_run:
  assumes "addrman_inv lib (\<lambda>_. 0) s"
  shows "\<exists>k s'. AddrMan_Add_all lib r nNow as src pen s = Some (k, s') \<and> addrman_inv lib (\<lambda>_. 0) s'"
  using assms
proof (induction "as" arbitrary: r s)
  case (Cons a "as")
  obtain f s1 where s1: "AddrMan_Add lib (r 0) nNow a src pen s = Some (f, s1)" "addrman_inv lib (\<lambda>_. 0) s1" using Add_run [OF Cons.prems] .
  obtain k s2 where "AddrMan_Add_all lib (\<lambda>k. r (k + 1)) nNow as src pen s1 = Some (k, s2)" "addrman_inv lib (\<lambda>_. 0) s2" using Cons.IH [OF s1(2)] by blast
  then show ?case using s1(1) by simp
qed simp

section \<open>The other operations\<close>

lemma Attempt_inv:
  assumes inv: "addrman_inv lib (\<lambda>_. 0) s" and "nTm > 0"
  shows "addrman_inv lib (\<lambda>_. 0) (AddrMan_Attempt addr nTm s)"
proof (cases "AddrMan_Find (netaddr addr) s")
  case (Some ni)
  obtain n i where ni: "ni = (n, i)" by fastforce
  note i = Find_info(1) [OF Some [unfolded ni]]
  have "addrman_inv lib (\<lambda>_. 0) (set_info n (i\<lparr> ad_nLastTry := nTm, ai_nAttempts := ai_nAttempts i + 1 \<rparr>) s)"
    by (rule inv_set_stat [OF inv i]) (use assms(2) stat_info [OF inv i] in \<open>auto simp: CService.defs\<close>)
  then show ?thesis using inv Some ni by (simp add: AddrMan_Attempt_def)
qed (use inv in \<open>simp add: AddrMan_Attempt_def\<close>)

lemma Connected_inv:
  assumes inv: "addrman_inv lib (\<lambda>_. 0) s"
  shows "addrman_inv lib (\<lambda>_. 0) (AddrMan_Connected addr nTm s)"
proof (cases "AddrMan_Find (netaddr addr) s")
  case (Some ni)
  obtain n i where ni: "ni = (n, i)" by fastforce
  note i = Find_info(1) [OF Some [unfolded ni]]
  have "addrman_inv lib (\<lambda>_. 0) (set_info n (i\<lparr> ad_nTime := word_of_int nTm \<rparr>) s)"
    by (rule inv_set_stat [OF inv i]) (use stat_info [OF inv i] in \<open>auto simp: CService.defs\<close>)
  then show ?thesis using inv Some ni by (simp add: AddrMan_Connected_def Let_def)
qed (use inv in \<open>simp add: AddrMan_Connected_def\<close>)

lemma SwapRandom_inv:
  assumes inv: "addrman_inv lib e s" and "p < length (am_vRandom s)" and "q < length (am_vRandom s)"
  obtains s' where "SwapRandom (int p) (int q) s = Some s'" and "addrman_inv lib e s'" and "length (am_vRandom s') = length (am_vRandom s)"
proof -
  obtain s' where s': "SwapRandom (int p) (int q) s = Some s'" "indexes_ok s'" "class_of s' = class_of s"
      "am_vRandom s' = (am_vRandom s)[p := am_vRandom s ! q, q := am_vRandom s ! p]" "stat_ok s' = stat_ok s"
      "s' = s\<lparr> am_mapInfo := am_mapInfo s', am_vRandom := am_vRandom s' \<rparr>"
    by (rule SwapRandom_run [OF addrman_inv_parts(1) [OF inv] assms(2,3)]) (rule that)
  have f: "am_vvNew s' = am_vvNew s" "am_nNew s' = am_nNew s" "am_vvTried s' = am_vvTried s" "am_nTried s' = am_nTried s" "am_nKey s' = am_nKey s"
    by (subst s'(6), simp)+
  have "addrman_inv lib e s'"
    using inv s'(2,5) new_table_cong [OF s'(3) f(1,2)] tried_table_cong [OF s'(3) f(3-5), of lib] by (simp add: addrman_inv_def)
  then show thesis using that s'(1,4) by simp
qed

lemma get_addrs_run:
  assumes "addrman_inv lib e s" and "\<forall>k\<in>set ks. k < length (am_vRandom s)"
  shows "\<exists>as s'. get_addrs r ks vAddr s = Some (vAddr @ as, s') \<and> length as = length ks \<and> addrman_inv lib e s'"
  using assms
proof (induction ks arbitrary: s vAddr)
  case (Cons k ks)
  let ?q = "GetRand (r k) (length (am_vRandom s) - k) + k"
  have k: "k < length (am_vRandom s)" using Cons.prems(2) by simp
  then have q: "?q < length (am_vRandom s)" by (simp add: GetRand_def) (metis add.commute less_diff_conv mod_less_divisor zero_less_diff)
  obtain s1 where s1: "SwapRandom (int k) (int ?q) s = Some s1" "addrman_inv lib e s1" "length (am_vRandom s1) = length (am_vRandom s)"
    by (rule SwapRandom_inv [OF Cons.prems(1) k q])
  obtain i where i: "am_mapInfo s1 (am_vRandom s1 ! k) = Some i" using index_at [OF addrman_inv_parts(1) [OF s1(2)], of k] k s1(3) by auto
  obtain as s2 where "get_addrs r ks (vAddr @ [CAddress.truncate i]) s1 = Some ((vAddr @ [CAddress.truncate i]) @ as, s2)" "length as = length ks"
      "addrman_inv lib e s2"
    using Cons.IH [OF s1(2), of "vAddr @ [CAddress.truncate i]"] Cons.prems(2) s1(3) by auto
  then show ?case using s1(1) i by (intro exI [of _ "CAddress.truncate i # as"]) simp
qed simp

lemma GetAddr_run:
  assumes "addrman_inv lib e s"
  shows "\<exists>as s'. AddrMan_GetAddr r s = Some (as, s') \<and> addrman_inv lib e s' \<and> length as = min ADDRMAN_GETADDR_MAX (ADDRMAN_GETADDR_MAX_PCT * length (am_vRandom s) div 100)"
proof -
  let ?m = "ADDRMAN_GETADDR_MAX_PCT * length (am_vRandom s) div 100"
  let ?k = "if ?m > ADDRMAN_GETADDR_MAX then ADDRMAN_GETADDR_MAX else ?m"
  have "?m \<le> length (am_vRandom s)" by (simp add: ADDRMAN_GETADDR_MAX_PCT_def)
  then have "\<forall>k\<in>set [0..<?k]. k < length (am_vRandom s)" by auto
  from get_addrs_run [OF assms this, of r "[]"] show ?thesis by (auto simp: AddrMan_GetAddr_def Let_def)
qed

section \<open>Sequences of calls\<close>

lemma new_inv: "addrman_inv lib (\<lambda>_. 0) (CAddrMan_new nKey)"
proof -
  have "class_of (CAddrMan_new nKey) = Map.empty" "pos_of (CAddrMan_new nKey) = Map.empty" by (auto simp: class_of_def pos_of_def CAddrMan_new_def)
  then show ?thesis
    by (simp add: addrman_inv_def indexes_ok_def new_table_ok_def tried_table_ok_def stat_ok_def tried_ids_def new_ids_def)
      (simp add: CAddrMan_new_def)
qed

lemma call_run:
  assumes "addrman_inv lib (\<lambda>_. 0) s" and "call_dated c"
  shows "\<exists>s'. AddrMan_call lib r nNow c s = Some s' \<and> addrman_inv lib (\<lambda>_. 0) s'"
proof (cases c)
  case (CallAdd as src pen)
  then show ?thesis using Add_all_run [OF assms(1), of r nNow as src pen] by auto
next
  case (CallGood addr nTm)
  then have "nTm > 0" using assms(2) by simp
  then obtain s' where "AddrMan_Good lib (r 0) addr nTm s = Some s'" "addrman_inv lib (\<lambda>_. 0) s'" by (rule Good_run [OF assms(1)])
  then show ?thesis using CallGood by simp
next
  case (CallAttempt addr nTm)
  then show ?thesis using Attempt_inv assms by auto
next
  case (CallConnected addr nTm)
  then show ?thesis using Connected_inv assms by auto
next
  case CallGetAddr
  then show ?thesis using GetAddr_run [OF assms(1), of "r 0"] by auto
qed

lemma addrman_run_inv:
  assumes "addrman_inv lib (\<lambda>_. 0) s" and "\<forall>(r, nNow, c)\<in>set cs. call_dated c"
  shows "\<exists>s'. AddrMan_run lib cs s = Some s' \<and> addrman_inv lib (\<lambda>_. 0) s'"
  using assms
proof (induction cs arbitrary: s)
  case (Cons x cs)
  obtain r nNow c where x: "x = (r, nNow, c)" by (cases x) auto
  obtain s1 where "AddrMan_call lib r nNow c s = Some s1" "addrman_inv lib (\<lambda>_. 0) s1" using call_run [OF Cons.prems(1), of c r nNow] Cons.prems(2) x by auto
  then show ?case using Cons.IH [of s1] Cons.prems(2) x by auto
qed simp

section \<open>The check finds nothing\<close>

lemma check_infos_inv:
  assumes inv: "addrman_inv lib (\<lambda>_. 0) s" and "set ns \<subseteq> dom (am_mapInfo s)"
  shows "check_infos ns T N s = Inr (T \<union> (set ns \<inter> tried_ids s), \<lambda>n. if n \<in> set ns \<inter> new_ids s then Some (int (refs (am_vvNew s) n)) else N n)"
  using assms(2)
proof (induction ns arbitrary: T N)
  case (Cons n ns)
  obtain i where i: "am_mapInfo s n = Some i" using Cons.prems by auto
  note c = new_count [OF inv i] and st = stat_info [OF inv i] and p = index_pos [OF addrman_inv_parts(1) [OF inv] i]
  have p': "\<not> (ai_nRandomPos i < 0 \<or> ai_nRandomPos i \<ge> int (length (am_vRandom s)) \<or> am_vRandom s ! nat (ai_nRandomPos i) \<noteq> n)"
    using p(2-4) by (simp add: nat_less_iff)
  show ?case
  proof (cases "ai_fInTried i")
    case True
    then have "n \<in> tried_ids s" "n \<notin> new_ids s" using i by (auto simp: mem_tried_ids mem_new_ids)
    then show ?thesis using True i c(2) st p(1) p' Cons by (auto simp: fun_eq_iff)
  next
    case False
    then have "n \<notin> tried_ids s" "n \<in> new_ids s" using i by (auto simp: mem_tried_ids mem_new_ids)
    then show ?thesis using False i c st p(1) p' Cons by (auto simp: fun_eq_iff)
  qed
qed simp

lemma check_tried_all: "distinct xs \<Longrightarrow> set xs \<subseteq> A \<Longrightarrow> check_tried xs A = Some (A - set xs)"
  by (induction xs arbitrary: A) (auto simp: subset_Diff_insert)

definition counts :: "(int \<Rightarrow> nat) \<Rightarrow> int \<rightharpoonup> int" where
  "counts c n = (if c n = 0 then None else Some (int (c n)))"

lemma check_new_counts: "(\<And>n. count_list xs n \<le> c n) \<Longrightarrow> check_new xs (counts c) = Some (counts (\<lambda>n. c n - count_list xs n))"
proof (induction xs arbitrary: c)
  case (Cons x xs)
  have x: "c x > 0" using Cons.prems [of x] by simp
  let ?c = "c(x := c x - 1)"
  have "count_list xs n \<le> ?c n" for n using Cons.prems [of n] by (auto split: if_splits)
  then have "check_new xs (counts ?c) = Some (counts (\<lambda>n. ?c n - count_list xs n))" by (rule Cons.IH)
  moreover have "(if int (c x) - 1 = 0 then (counts c)(x := None) else (counts c)(x \<mapsto> int (c x) - 1)) = counts ?c"
    using x by (auto simp: fun_eq_iff counts_def)
  moreover have "counts c x = Some (int (c x))" using x by (simp add: counts_def)
  moreover have "(\<lambda>n. ?c n - count_list xs n) = (\<lambda>n. c n - count_list (x # xs) n)" by auto
  ultimately show ?case by (simp only: check_new.simps option.case)
qed simp

lemma count_buckets: "\<forall>B\<in>set vv. finite B \<Longrightarrow> count_list (concat (map sorted_list_of_set vv)) n = refs vv n"
proof (induction vv)
  case (Cons B vv)
  have "count_list xs n = (if n \<in> set xs then 1 else 0)" if "distinct xs" for xs :: "int list" using that by (induction xs) auto
  then have "count_list (sorted_list_of_set B) n = (if n \<in> B then 1 else 0)" using Cons.prems by simp
  then show ?case using Cons by (simp add: refs_def)
qed (simp add: refs_def)

lemma inv_check:
  assumes inv: "addrman_inv lib (\<lambda>_. 0) s"
  shows "AddrMan_Check s = 0"
proof -
  note idx = addrman_inv_parts(1) [OF inv] and t = addrman_inv_parts(2) [OF inv, unfolded new_table_ok_def] and
    tt = addrman_inv_parts(3) [OF inv, unfolded tried_table_ok_def] and fin = finite_ids [OF addrman_inv_parts(1) [OF inv]]
  have dom: "dom (am_mapInfo s) = tried_ids s \<union> new_ids s" by (auto simp: mem_tried_ids mem_new_ids)
  have "tried_ids s \<inter> new_ids s = {}" by (auto simp: mem_tried_ids mem_new_ids)
  then have len: "int (length (am_vRandom s)) = am_nTried s + am_nNew s"
    using index_distinct(3) [OF idx] t tt fin by (simp add: dom card_Un_disjoint)
  have zero: "refs (am_vvNew s) n = 0" if "n \<notin> new_ids s" for n using t that by (auto simp: refs_def filter_empty_conv)
  have pos: "refs (am_vvNew s) n \<noteq> 0" if n: "n \<in> new_ids s" for n
  proof -
    obtain i where "am_mapInfo s n = Some i" "\<not> ai_fInTried i" using n by (auto simp: mem_new_ids)
    then show ?thesis using new_count [OF inv] by fastforce
  qed
  have N: "(\<lambda>n. if n \<in> set (sorted_list_of_set (dom (am_mapInfo s))) \<inter> new_ids s then Some (int (refs (am_vvNew s) n)) else None) = counts (refs (am_vvNew s))"
    using zero pos index_finite [OF idx] by (auto simp: fun_eq_iff dom counts_def)
  have infos: "check_infos (sorted_list_of_set (dom (am_mapInfo s))) {} Map.empty s = Inr (tried_ids s, counts (refs (am_vvNew s)))"
  proof -
    have "set (sorted_list_of_set (dom (am_mapInfo s))) \<subseteq> dom (am_mapInfo s)" using index_finite [OF idx] by simp
    moreover have "{} \<union> set (sorted_list_of_set (dom (am_mapInfo s))) \<inter> tried_ids s = tried_ids s" using index_finite [OF idx] by (auto simp: dom)
    ultimately show ?thesis using check_infos_inv [OF inv, of "sorted_list_of_set (dom (am_mapInfo s))" "{}" Map.empty] N by simp
  qed
  have "dom (counts (refs (am_vvNew s))) = {n. refs (am_vvNew s) n \<noteq> 0}" by (auto simp: dom_def counts_def split: if_splits)
  then have domN: "dom (counts (refs (am_vvNew s))) = new_ids s" using zero pos by blast
  have tried: "check_tried (concat (am_vvTried s)) (tried_ids s) = Some {}"
    using check_tried_all [of "concat (am_vvTried s)" "tried_ids s"] tried_concat [OF addrman_inv_parts(3,1) [OF inv]] by simp
  have "\<forall>B\<in>set (am_vvNew s). finite B"
  proof
    fix B
    assume "B \<in> set (am_vvNew s)"
    then have "B \<subseteq> new_ids s" using t by blast
    then show "finite B" using fin(2) by (rule finite_subset)
  qed
  then have "check_new (concat (map sorted_list_of_set (am_vvNew s))) (counts (refs (am_vvNew s))) = Some (counts (\<lambda>_. 0))"
    using check_new_counts [of "concat (map sorted_list_of_set (am_vvNew s))" "refs (am_vvNew s)"] count_buckets by simp
  then show ?thesis
    unfolding AddrMan_Check_def infos using len domN tried t tt by (simp add: counts_def [abs_def])
qed

section \<open>One group cannot fill the tried table\<close>

definition group_bucket :: "'l openssl_scheme \<Rightarrow> bytes \<Rightarrow> bytes \<Rightarrow> nat \<Rightarrow> nat" where
  "group_bucket lib nKey g k =
     unat (hash64 lib (Serialize_vector_bytes nKey @ Serialize_vector_bytes g @ Serialize_word 8 (of_nat k :: uint64))) mod ADDRMAN_TRIED_BUCKET_COUNT"

lemma GetTriedBucket_group: "\<exists>k<4. GetTriedBucket lib nKey i = group_bucket lib nKey (GetGroup i) k"
proof -
  define h where "h = hash64 lib (Serialize_vector_bytes nKey @ Serialize_vector_bytes (GetKey i)) mod ADDRMAN_TRIED_BUCKETS_PER_GROUP"
  have "unat h < 4" unfolding h_def ADDRMAN_TRIED_BUCKETS_PER_GROUP_def by (simp add: unat_mod)
  moreover have "GetTriedBucket lib nKey i = group_bucket lib nKey (GetGroup i) (unat h)"
    by (simp add: GetTriedBucket_def group_bucket_def h_def Let_def)
  ultimately show ?thesis by blast
qed

lemma group_limit:
  assumes inv: "addrman_inv lib e s"
  shows "card {n. \<exists>i. am_mapInfo s n = Some i \<and> ai_fInTried i \<and> GetGroup i = g} \<le> 256" (is "card ?T \<le> _")
proof -
  note tt = addrman_inv_parts(3) [OF inv, unfolded tried_table_ok_def] and c = tried_concat(1) [OF addrman_inv_parts(3,1) [OF inv]]
  let ?b = "group_bucket lib (am_nKey s) g"
  have b: "?b k < length (am_vvTried s)" for k using tt by (simp add: group_bucket_def ADDRMAN_TRIED_BUCKET_COUNT_def)
  have "?T \<subseteq> (\<Union>k\<in>{..<4}. set (am_vvTried s ! ?b k))"
  proof
    fix n
    assume "n \<in> ?T"
    then obtain i where i: "am_mapInfo s n = Some i" "ai_fInTried i" "GetGroup i = g" by blast
    then have "n \<in> set (concat (am_vvTried s))" unfolding c by (simp add: mem_tried_ids)
    then obtain m where m: "m < length (am_vvTried s)" "n \<in> set (am_vvTried s ! m)" by (auto simp: in_set_conv_nth) (metis nth_mem)
    then obtain i' where "am_mapInfo s n = Some i'" "GetTriedBucket lib (am_nKey s) i' = m"
      using tried_bucket [OF addrman_inv_parts(3) [OF inv], of m n] tt by metis
    then have "GetTriedBucket lib (am_nKey s) i = m" using i(1) by simp
    then show "n \<in> (\<Union>k\<in>{..<4}. set (am_vvTried s ! ?b k))" using GetTriedBucket_group [of lib "am_nKey s" i] i(3) m(2) by auto
  qed
  then have "card ?T \<le> card (\<Union>k\<in>{..<4}. set (am_vvTried s ! ?b k))" by (intro card_mono) auto
  also have "\<dots> \<le> (\<Sum>k<4. card (set (am_vvTried s ! ?b k)))" by (rule card_UN_le) simp
  also have "\<dots> \<le> (\<Sum>k<4 :: nat. 64)"
  proof (rule sum_mono)
    fix k :: nat
    have "length (am_vvTried s ! ?b k) \<le> 64" using tt nth_mem [OF b] by (fastforce simp: ADDRMAN_TRIED_BUCKET_SIZE_def)
    then show "card (set (am_vvTried s ! ?b k)) \<le> 64" using card_length le_trans by blast
  qed
  finally show ?thesis by simp
qed

section \<open>The draws and the choice of the entry to evict\<close>

text \<open>Below the bound of the loop of \<^verbatim>\<open>GetRand\<close> every result has the same number of draws.\<close>

lemma GetRand_uniform:
  assumes "v < nMax"
  shows "card {x. x < GetRand_range nMax \<and> GetRand x nMax = v} = (2 ^ 64 - 1) div nMax"
proof -
  let ?q = "(2 ^ 64 - 1) div nMax :: nat"
  have "{x. x < GetRand_range nMax \<and> GetRand x nMax = v} = (\<lambda>k. k * nMax + v) ` {..<?q}"
  proof (intro set_eqI iffI)
    fix x
    assume "x \<in> {x. x < GetRand_range nMax \<and> GetRand x nMax = v}"
    then have x: "x < ?q * nMax" "x mod nMax = v" using assms by (auto simp: GetRand_range_def GetRand_def)
    have "x div nMax < ?q" by (rule less_mult_imp_div_less [OF x(1)])
    then show "x \<in> (\<lambda>k. k * nMax + v) ` {..<?q}" using x(2) by (intro image_eqI [of _ _ "x div nMax"]) auto
  next
    fix x
    assume "x \<in> (\<lambda>k. k * nMax + v) ` {..<?q}"
    then obtain k where k: "k < ?q" "x = k * nMax + v" by auto
    then have "Suc k * nMax \<le> ?q * nMax" by (intro mult_le_mono1) simp
    then show "x \<in> {x. x < GetRand_range nMax \<and> GetRand x nMax = v}" using k assms by (simp add: GetRand_range_def GetRand_def)
  qed
  moreover have "inj_on (\<lambda>k. k * nMax + v) {..<?q}" using assms by (auto simp: inj_on_def)
  ultimately show ?thesis by (simp add: card_image)
qed

text \<open>
  \<^verbatim>\<open>SelectTried\<close> moves the entry it inspects to position \<open>i\<close> but keeps the position it was drawn from, where another entry
  is by then. Here entry 3 succeeded least recently; the position returned is that of entry 1.
\<close>

lemma SelectTried_not_oldest:
  fixes i :: CAddrInfo
  defines "s \<equiv> (CAddrMan_new [])\<lparr> am_vvTried := [[1, 2, 3]],
    am_mapInfo := [1 \<mapsto> i\<lparr> ai_nLastSuccess := 9 \<rparr>, 2 \<mapsto> i\<lparr> ai_nLastSuccess := 9 \<rparr>, 3 \<mapsto> i\<lparr> ai_nLastSuccess := 1 \<rparr>] \<rparr>"
  shows "SelectTried (\<lambda>k. if k = 0 then 2 else 0) 0 s = Some (2, s\<lparr> am_vvTried := [[3, 2, 1]] \<rparr>)"
proof -
  have "[0..<min ADDRMAN_TRIED_ENTRIES_INSPECT_ON_EVICT (length (am_vvTried s ! 0))] = [0, 1, 2]"
    by (simp add: s_def ADDRMAN_TRIED_ENTRIES_INSPECT_ON_EVICT_def upt_rec)
  then show ?thesis by (simp add: SelectTried_def s_def GetRand_def Let_def info_at_def CAddrMan_new_def)
qed

section \<open>Properties\<close>

text \<open>Two routable addresses with their ports, from two groups.\<close>

definition demo_addr :: CAddress where
  "demo_addr = CAddress_new \<lparr> na_ip = pchIPv4 @ [8, 8, 8, 8], sv_port = 9902 \<rparr> NODE_NETWORK"

definition demo_source :: CNetAddr where
  "demo_source = CNetAddr_in_addr [9, 9, 9, 9]"

definition demo_calls :: "((nat \<Rightarrow> nat \<Rightarrow> nat) \<times> int \<times> addrman_call) list" where
  "demo_calls = [(\<lambda>_ _. 0, 1000, CallAdd [demo_addr] demo_source 0), (\<lambda>_ _. 0, 1060, CallGood (service demo_addr) 1060),
     (\<lambda>_ _. 0, 1100, CallGetAddr)]"

lemma demo_calls_dated: "\<forall>(r, nNow, c)\<in>set demo_calls. call_dated c"
  by (simp add: demo_calls_def)

lemma demo_routable: "IsRoutable demo_addr"
  by code_simp

text \<open>
  C19. The address manager stays consistent: whatever is drawn, no sequence of calls that carry the time of the clock fails an assertion,
  and afterwards the check \<^verbatim>\<open>Check_\<close> finds nothing.
\<close>

theorem addrman_run_consistent:
  assumes "\<forall>(r, nNow, c)\<in>set cs. call_dated c"
  shows "\<exists>s. AddrMan_run lib cs (CAddrMan_new nKey) = Some s \<and> AddrMan_Check s = 0"
  using addrman_run_inv [OF new_inv assms, of lib nKey] inv_check by blast

theorem addrman_run_consistent_witness:
  "\<exists>s. AddrMan_run demo_lib demo_calls (CAddrMan_new [1]) = Some s \<and> AddrMan_Check s = 0"
  by (rule addrman_run_consistent [OF demo_calls_dated])

text \<open>
  C21. The addresses of one group take at most 256 of the 4096 places of the tried table: they share four buckets of 64 places, whatever
  calls were made.
\<close>

theorem tried_group_limit:
  assumes "\<forall>(r, nNow, c)\<in>set cs. call_dated c" and "AddrMan_run lib cs (CAddrMan_new nKey) = Some s"
  shows "card {n. \<exists>i. am_mapInfo s n = Some i \<and> ai_fInTried i \<and> GetGroup i = g} \<le> 256"
proof -
  have "addrman_inv lib (\<lambda>_. 0) s" using addrman_run_inv [OF new_inv assms(1), of lib nKey] assms(2) by auto
  then show ?thesis by (rule group_limit)
qed

theorem tried_group_limit_witness:
  "\<exists>s. AddrMan_run demo_lib demo_calls (CAddrMan_new [1]) = Some s \<and>
     card {n. \<exists>i. am_mapInfo s n = Some i \<and> ai_fInTried i \<and> GetGroup i = [1, 8, 8]} \<le> 256"
proof -
  obtain s where "AddrMan_run demo_lib demo_calls (CAddrMan_new [1]) = Some s" using addrman_run_inv [OF new_inv demo_calls_dated] by blast
  then show ?thesis using tried_group_limit [OF demo_calls_dated] by blast
qed

text \<open>
  C20. In every state the calls lead to, a routable address that is not known is added, and once it is marked good it is found, in the tried
  table, with the time of the success.
\<close>

theorem added_address_tried:
  assumes "\<forall>(r, nNow, c)\<in>set cs. call_dated c" and "AddrMan_run lib cs (CAddrMan_new nKey) = Some s"
    and "IsRoutable addr" and "AddrMan_Find (netaddr addr) s = None" and "nTm > 0"
  shows "\<exists>s1 s2 n i. AddrMan_Add lib r nNow addr src nTimePenalty s = Some (True, s1) \<and>
    AddrMan_Good lib r' (service addr) nTm s1 = Some s2 \<and>
    AddrMan_Find (netaddr addr) s2 = Some (n, i) \<and> service i = service addr \<and> ai_fInTried i \<and> ai_nLastSuccess i = nTm"
proof -
  have "addrman_inv lib (\<lambda>_. 0) s" using addrman_run_inv [OF new_inv assms(1), of lib nKey] assms(2) by auto
  from Add_fresh_run [OF this assms(4,3)] obtain s1 i where s1: "AddrMan_Add lib r nNow addr src nTimePenalty s = Some (True, s1)"
      "addrman_inv lib (\<lambda>_. 0) s1" "AddrMan_Find (netaddr addr) s1 = Some (am_nIdCount s, i)" "service i = service addr"
    by metis
  obtain s2 where "AddrMan_Good lib r' (service addr) nTm s1 = Some s2"
      "\<And>n i. AddrMan_Find (netaddr (service addr)) s1 = Some (n, i) \<Longrightarrow> service i = service addr \<Longrightarrow>
        \<exists>i'. AddrMan_Find (netaddr (service addr)) s2 = Some (n, i') \<and> service i' = service addr \<and> ai_fInTried i' \<and> ai_nLastSuccess i' = nTm"
    by (rule Good_run [OF s1(2) assms(5), of r' "service addr"]) (rule that)
  then show ?thesis using s1(1,3,4) by (metis netaddr_service)
qed

theorem added_address_tried_witness:
  "\<exists>s1 s2 n i. AddrMan_Add demo_lib (\<lambda>_. 7) 1000 demo_addr demo_source 0 (CAddrMan_new [1]) = Some (True, s1) \<and>
    AddrMan_Good demo_lib (\<lambda>_. 5) (service demo_addr) 1060 s1 = Some s2 \<and>
    AddrMan_Find (netaddr demo_addr) s2 = Some (n, i) \<and> service i = service demo_addr \<and> ai_fInTried i \<and> ai_nLastSuccess i = 1060"
  by (rule added_address_tried [of "[]" demo_lib "[1]"]) (simp_all add: demo_routable, simp add: AddrMan_Find_def CAddrMan_new_def)

end
