(* ===== verification/Spec2Isabelle.thy ===== *)
theory Spec2Isabelle
  imports Acceptance Signing AddrManProps
begin

text \<open>
  A verification development of ShinyCoin, a currency of the Bitcoin family with proof-of-work and
  proof-of-stake blocks and a key-value store fed by transactions (\<^verbatim>\<open>src/src\<close>).

  \<^bold>\<open>The program.\<close> A node receives blocks and transactions, checks them and keeps three kinds of state: the
  tree of block headers (\<^verbatim>\<open>CBlockIndex\<close>), the index of transactions with a spent pointer per
  output (\<^verbatim>\<open>CTxIndex\<close>, in a database), and the info store (\<^verbatim>\<open>CTxInfoStore\<close>, a SQL table). A
  block is checked alone (\<^verbatim>\<open>CheckBlock\<close>), then against the chain it extends: every transaction fetches the
  outputs it spends (\<^verbatim>\<open>FetchInputs\<close>), runs their scripts (\<^verbatim>\<open>VerifySignature\<close>), marks them as spent
  (\<^verbatim>\<open>ConnectInputs\<close>) and files its infos (\<^verbatim>\<open>ProcessTxInfos\<close>). Leaving a branch undoes the same steps in
  reverse (\<^verbatim>\<open>DisconnectBlock\<close>).

  \<^bold>\<open>The theories\<close>, each named after what it models, in the order in which they build on one another:

  \<^item> \<open>Prelude\<close>: machine integers as words, bytes, collections of simplification rules, and the locale
    \<open>codec\<close>, the contract of every wire format: decoding what was encoded gives it back.
  \<^item> \<open>Serialize\<close> (\<^verbatim>\<open>serialize.h\<close>): integers, compact sizes, strings and vectors, with the batched reader.
  \<^item> \<open>Uint256\<close> (\<^verbatim>\<open>uint256.h\<close>): the limb loops of \<^verbatim>\<open>base_uint\<close>, shown to be arithmetic modulo a power of
    two; \<open>Bignum\<close> (\<^verbatim>\<open>bignum.h\<close>): the conversions of \<^verbatim>\<open>CBigNum\<close>, the compact form of targets.
  \<^item> \<open>Crypto\<close> (\<^verbatim>\<open>util.h\<close>, \<^verbatim>\<open>key.cpp\<close>): hashes and signature checks over a record of OpenSSL's functions.
  \<^item> \<open>Base58\<close> (\<^verbatim>\<open>base58.h\<close>): the address codec with its checksum.
  \<^item> \<open>TxInfo\<close> (\<^verbatim>\<open>txinfo.h\<close>, \<^verbatim>\<open>txinfo.cpp\<close>): the info store: its table, its transactions and views; the
    locale \<open>info_store\<close> states what a client relies on, a stack of values per address and key.
  \<^item> \<open>Transaction\<close> (\<^verbatim>\<open>main.h\<close>): transactions and their wire format, finality, sums.
  \<^item> \<open>Script\<close>, \<open>SigCheck\<close>, \<open>Interp\<close>, \<open>InterpProps\<close>, \<open>ScriptForms\<close>, \<open>Solver\<close> (\<^verbatim>\<open>script.h\<close>,
    \<^verbatim>\<open>script.cpp\<close>): the instruction reader, \<^verbatim>\<open>SignatureHash\<close> and the signature cache, the interpreter
    with all its opcodes, its limits, what the standard output scripts accept, and how they are recognised.
  \<^item> \<open>Merkle\<close>, \<open>Chain\<close>, \<open>Target\<close> (\<^verbatim>\<open>main.h\<close>, \<^verbatim>\<open>main.cpp\<close>): Merkle trees and branches; the block index,
    rewards and the proof-of-work check; the target of the next block with its arithmetic on doubles.
  \<^item> \<open>TxChecks\<close>, \<open>Connect\<close> (\<^verbatim>\<open>main.cpp\<close>, \<^verbatim>\<open>db.cpp\<close>): the checks of a transaction without context; the
    transaction index, fees, coin age, \<^verbatim>\<open>ConnectInputs\<close> and \<^verbatim>\<open>DisconnectInputs\<close>.
  \<^item> \<open>Ledger\<close>: the abstract contract of a ledger, as locales: \<open>undoable\<close> for steps that can be undone in
    reverse, \<open>coin_ledger\<close> for coins that are spent once.
  \<^item> \<open>Block\<close>, \<open>BlockConnect\<close> (\<^verbatim>\<open>main.h\<close>, \<^verbatim>\<open>main.cpp\<close>, \<^verbatim>\<open>kernel.cpp\<close>): blocks, \<^verbatim>\<open>CheckBlock\<close>, \<^verbatim>\<open>ConnectBlock\<close>
    and \<^verbatim>\<open>DisconnectBlock\<close>; the transaction index is an instance of \<open>coin_ledger\<close>.
  \<^item> \<open>Mempool\<close> (\<^verbatim>\<open>main.h\<close>, \<^verbatim>\<open>main.cpp\<close>): the memory pool with its acceptance checks, and the orphan transactions.
  \<^item> \<open>BlockFile\<close> (\<^verbatim>\<open>main.h\<close>, \<^verbatim>\<open>main.cpp\<close>): the block files, written and read byte by byte.
  \<^item> \<open>BestChain\<close> (\<^verbatim>\<open>main.cpp\<close>): the tree of blocks as a list of objects with pointers, \<^verbatim>\<open>Reorganize\<close> and \<^verbatim>\<open>SetBestChain\<close>
    with their database transactions.
  \<^item> \<open>Kernel\<close> (\<^verbatim>\<open>kernel.cpp\<close>): the stake modifier, the kernel hash and the check of a coinstake.
  \<^item> \<open>Ramhog\<close> (\<^verbatim>\<open>hashblock\<close>): the proof-of-work hash, from PBKDF2 to the pool of threads; \<open>SignedHash\<close> (\<^verbatim>\<open>signedhash.cpp\<close>): the
    caches of computed and signed hashes.
  \<^item> \<open>Checkpoints\<close> (\<^verbatim>\<open>checkpoints.cpp\<close>): hardened and synchronized checkpoints, and the state of the whole node, \<open>full_node\<close>.
  \<^item> \<open>Keys\<close>, \<open>KeyStore\<close>, \<open>Signing\<close> (\<^verbatim>\<open>key.cpp\<close>, \<^verbatim>\<open>keystore.cpp\<close>, \<^verbatim>\<open>crypter.cpp\<close>, \<^verbatim>\<open>script.cpp\<close>): keys and compact signatures, the
    plain and the encrypted key store as instances of the locale \<open>key_store\<close>, and signing with them.
  \<^item> \<open>Acceptance\<close> (\<^verbatim>\<open>main.cpp\<close>): \<^verbatim>\<open>AddToBlockIndex\<close>, \<^verbatim>\<open>AcceptBlock\<close> and \<^verbatim>\<open>ProcessBlock\<close>, the orphan blocks, and the runs of
    a node.
  \<^item> \<open>NetAddr\<close> (\<^verbatim>\<open>netbase.cpp\<close>, \<^verbatim>\<open>protocol.cpp\<close>): network addresses with their groups, message headers and inventory items;
    \<open>AddrMan\<close>, \<open>AddrManProps\<close> (\<^verbatim>\<open>addrman.cpp\<close>): the address manager with its tables of new and tried addresses.

  \<^bold>\<open>How the model reads.\<close> Integers keep their width where it can matter: \<open>uint32\<close>, \<open>uint64\<close>, \<open>uint160\<close>
    and \<open>uint256\<close> are words, amounts are 64-bit words read with \<open>sint\<close>, and \<open>i64\<close> wraps a signed result. A
    map of the code is a partial function; a chain of \<^verbatim>\<open>pprev\<close> pointers is a list with the newest block
    first. False, exceptions and failed assertions are values of \<open>option\<close>, \<open>answer\<close>, \<open>check_result\<close> or
    \<open>conn_error\<close>. Globals a function reads are arguments or fields of \<open>block_env\<close> and \<open>connect_env\<close>.

  \<^bold>\<open>What is shown.\<close> For the formats: round trips and prefix freedom. For the info store: the invariant of
    its table over all sequences of calls, and that processing and undoing are push and pop. For scripts: the
    cache never changes a verdict, every reachable state obeys the limits, bad instructions fail, and the
    standard scripts accept exactly what they are meant to. For money: an accepted transaction spends
    distinct unspent outputs with authorisation and creates nothing; a coinstake creates at most its
    reward; a block spends every coin once, and its effect on the set of unspent outputs is the abstract
    one; disconnecting it restores the index; money supply less stake debt grows by the subsidy of work
    blocks alone. For blocks: the hash binds the content up to an exhibited collision of SHA-256, and
    targets stay in range. For loose transactions: the pool never holds two that spend the same output,
    and the orphans are bounded. For the chain: the index points at the transactions on disk, the fork
    is the last common ancestor, a reorganization leaves the index that the new branch alone would give, and a
    refused one leaves no trace. For the node: over every run of blocks and checkpoint messages the tree and its map agree, the trust
    adds up, nothing leaves the tree and the checkpoint moves to descendants only; an accepted block obeys the rules of its chain,
    the chain with the most trust is chosen, and processing a block returns. For the proof-of-work hash: its PBKDF2 is that
    of the standard, fifteen of its sixteen scratchpads are never read, and a hash that is used was computed or signed. For keys:
    encrypting a store loses no key, a locked store gives none away, what the wallet calls its own it can sign, and a compact signature
    names its signer. For peers: the address manager stays consistent whatever is drawn, and one group of addresses cannot fill
    its table. For stakes: the next modifier always exists, and an accepted kernel is
    authorised, old enough and within its weighted target. Where the code falls short, the theorem says so: a total that wraps, a reward
    that overflows, a block with infos that cannot be disconnected, a best block ahead of its database, a copied key that forgets its form.

  \<^bold>\<open>Termination and bounds.\<close> Every loop is a total function: structural recursion or a measure (the
    remaining bytes of a script, the length of a chain, the size of a Merkle row, the days left in
    \<^verbatim>\<open>ComputeMinWork\<close>, the orphans left). The walk along orphan blocks, which a circle of hashes would never leave, is a
    partial function into \<open>option\<close> and is shown to return when the orphans can be ranked. The recursion of \<^verbatim>\<open>IsMine\<close> through
    script hashes is such a function too. There is no fuel.

  \<^bold>\<open>Parameters.\<close> OpenSSL's digests, curve operations, cipher and \<^verbatim>\<open>BIGNUM\<close> conversions are the fields of a record that the
    definitions take as an argument; \<open>mpi_format\<close> is the documented format of the conversions. The
    proof-of-work hash of a block is an argument of the block checks; signing under a private key is a parameter. The random
    draws of the address manager are arguments of its operations.

  \<^bold>\<open>Not modelled.\<close> Sockets and message dispatch, the choice of a peer to connect to (which computes with doubles) and the file of
    addresses, threads and locks, the Berkeley DB and SQLite engines,
    operating-system failures, the wallet, RPC, start-up and the user interface.
\<close>

end
